(* ===== verification/Pybase.thy ===== *)
theory Pybase
  imports Complex_Main "HOL-Library.AList" "HOL-Library.Multiset"
begin

text \<open>
  Shared vocabulary of the development: Python values whose type is examined at run
  time, exceptions as values, the Korean status literals, the call row that the
  accounting modules pass around, and generic facts on lists, association lists and
  stable sorting. Floating point numbers are modelled by the rationals they denote,
  so rounding is not part of the model; NaN and the infinities are kept as values
  because the code tests for them.
\<close>

named_theorems model_defs \<open>definitions a component's proofs unfold together\<close>

section \<open>Python values\<close>

datatype nonfinite = NaN | PosInf | NegInf

datatype pyval =
    PNone
  | PBool bool
  | PInt int
  | PFloat rat
  | PNonFinite nonfinite
  | PStr string
  | PList "pyval list"
  | PDict "(string \<times> pyval) list"

type_synonym pydict = "(string \<times> pyval) list"

datatype pyerror =
    AttributeError
  | KeyError
  | TypeError
  | IndexError
  | ValueError string
  | RuntimeError string

text \<open>\<open>d.get(k)\<close> and \<open>d.get(k, default)\<close>.\<close>

definition dget_or :: "pydict \<Rightarrow> string \<Rightarrow> pyval \<Rightarrow> pyval" where
  "dget_or d k v = (case map_of d k of None \<Rightarrow> v | Some x \<Rightarrow> x)"

definition dget :: "pydict \<Rightarrow> string \<Rightarrow> pyval" where
  "dget d k = dget_or d k PNone"

text \<open>Truth value of an object, as \<open>if v\<close> and \<open>v or w\<close> use it.\<close>

fun truthy :: "pyval \<Rightarrow> bool" where
  "truthy PNone = False"
| "truthy (PBool b) = b"
| "truthy (PInt i) = (i \<noteq> 0)"
| "truthy (PFloat q) = (q \<noteq> 0)"
| "truthy (PNonFinite _) = True"
| "truthy (PStr s) = (s \<noteq> [])"
| "truthy (PList xs) = (xs \<noteq> [])"
| "truthy (PDict d) = (d \<noteq> [])"

text \<open>\<open>(v or {})\<close> used as a dictionary: a true value that is no dictionary has no \<open>get\<close>.\<close>

fun or_empty :: "pyval \<Rightarrow> pyerror + pydict" where
  "or_empty (PDict d) = Inr d"
| "or_empty v = (if truthy v then Inl AttributeError else Inr [])"

text \<open>\<open>type(v) in (int, float) and isfinite(v)\<close>, with the number.\<close>

fun finite_number :: "pyval \<Rightarrow> rat option" where
  "finite_number (PInt i) = Some (of_int i)"
| "finite_number (PFloat q) = Some q"
| "finite_number _ = None"

section \<open>Errors as values\<close>

definition bindE :: "'e + 'a \<Rightarrow> ('a \<Rightarrow> 'e + 'b) \<Rightarrow> 'e + 'b" where
  "bindE m f = (case m of Inl e \<Rightarrow> Inl e | Inr x \<Rightarrow> f x)"

lemma bindE_simps [simp]:
  "bindE (Inl e) f = Inl e"
  "bindE (Inr x) f = f x"
  by (simp_all add: bindE_def)

lemma bindE_cong [fundef_cong]:
  "m = m' \<Longrightarrow> (\<And>x. m' = Inr x \<Longrightarrow> f x = f' x) \<Longrightarrow> bindE m f = bindE m' f'"
  by (cases m') simp_all

lemma bindE_assoc: "bindE (bindE m f) g = bindE m (\<lambda>x. bindE (f x) g)"
  by (cases m) simp_all

lemma bindE_Inr_conv: "bindE m f = Inr y \<longleftrightarrow> (\<exists>x. m = Inr x \<and> f x = Inr y)"
  by (cases m) auto

section \<open>Status literals\<close>

text \<open>
  Korean literals are written as the UTF-8 bytes of the source. The code only compares
  them for equality.
\<close>

definition mihwagin :: string where \<comment> \<open>unconfirmed\<close>
  "mihwagin = [CHR 0xEB, CHR 0xAF, CHR 0xB8, CHR 0xED, CHR 0x99, CHR 0x95, CHR 0xEC, CHR 0x9D, CHR 0xB8]"

section \<open>Lists and stable sorting\<close>

text \<open>\<open>sorted(xs, key=f)\<close> is stable, as \<open>sort_key\<close> is; \<open>reverse=True\<close> keeps the order of ties.\<close>

definition sort_desc :: "('a \<Rightarrow> 'k::{linorder,uminus}) \<Rightarrow> 'a list \<Rightarrow> 'a list" where
  "sort_desc f xs = sort_key (\<lambda>x. - f x) xs"

lemma set_sort_desc [simp]: "set (sort_desc f xs) = set xs"
  by (simp add: sort_desc_def)

lemma mset_sort_desc [simp]: "mset (sort_desc f xs) = mset xs"
  by (simp add: sort_desc_def)

lemma length_sort_desc [simp]: "length (sort_desc f xs) = length xs"
  by (simp add: sort_desc_def)

text \<open>\<open>d.setdefault(k, []).append(v)\<close> over a dictionary in insertion order.\<close>

fun bucket_add :: "'k \<Rightarrow> 'v \<Rightarrow> ('k \<times> 'v list) list \<Rightarrow> ('k \<times> 'v list) list" where
  "bucket_add k v [] = [(k, [v])]"
| "bucket_add k v ((k', vs) # bs) = (if k = k' then (k', vs @ [v]) # bs else (k', vs) # bucket_add k v bs)"

definition buckets :: "('v \<Rightarrow> 'k) \<Rightarrow> 'v list \<Rightarrow> ('k \<times> 'v list) list" where
  "buckets f xs = foldl (\<lambda>bs x. bucket_add (f x) x bs) [] xs"

lemma map_of_bucket_add:
  "map_of (bucket_add k v bs) j =
     (if j = k then Some ((case map_of bs k of None \<Rightarrow> [] | Some vs \<Rightarrow> vs) @ [v]) else map_of bs j)"
  by (induction k v bs rule: bucket_add.induct) auto

lemma keys_bucket_add: "fst ` set (bucket_add k v bs) = insert k (fst ` set bs)"
  by (induction k v bs rule: bucket_add.induct) auto

lemma distinct_bucket_add: "distinct (map fst bs) \<Longrightarrow> distinct (map fst (bucket_add k v bs))"
proof (induction k v bs rule: bucket_add.induct)
  case (2 k v k' vs bs)
  have "set (map fst (bucket_add k v bs)) = insert k (set (map fst bs))"
    using keys_bucket_add [of k v bs] by simp
  with 2 show ?case by auto
qed simp

lemma buckets_snoc: "buckets f (xs @ [x]) = bucket_add (f x) x (buckets f xs)"
  by (simp add: buckets_def)

lemma buckets_Nil [simp]: "buckets f [] = []"
  by (simp add: buckets_def)

lemma distinct_buckets: "distinct (map fst (buckets f xs))"
  by (induction xs rule: rev_induct) (simp_all add: buckets_snoc distinct_bucket_add)

lemma keys_buckets: "fst ` set (buckets f xs) = f ` set xs"
  by (induction xs rule: rev_induct) (simp_all add: buckets_snoc keys_bucket_add)

text \<open>Every bucket is the sublist of the rows with its key, in their order.\<close>

lemma map_of_buckets:
  "map_of (buckets f xs) k = (if k \<in> f ` set xs then Some (filter (\<lambda>x. f x = k) xs) else None)"
proof (induction xs rule: rev_induct)
  case (snoc x xs)
  show ?case
  proof (cases "k = f x")
    case True
    have "f x \<notin> f ` set xs \<Longrightarrow> filter (\<lambda>y. f y = f x) xs = []"
      by (simp add: filter_empty_conv image_iff) metis
    with True snoc show ?thesis by (auto simp: buckets_snoc map_of_bucket_add)
  next
    case False
    with snoc show ?thesis by (auto simp: buckets_snoc map_of_bucket_add)
  qed
qed simp

lemma buckets_memberD: "(k, vs) \<in> set (buckets f xs) \<Longrightarrow> vs = filter (\<lambda>x. f x = k) xs \<and> vs \<noteq> []"
proof -
  assume "(k, vs) \<in> set (buckets f xs)"
  then have "map_of (buckets f xs) k = Some vs"
    by (simp add: distinct_buckets)
  then show ?thesis by (auto simp: map_of_buckets filter_empty_conv split: if_splits)
qed

lemma sum_list_bucket_add:
  fixes g :: "'v \<Rightarrow> 'a::comm_monoid_add"
  shows "sum_list (map (\<lambda>(k, vs). sum_list (map g vs)) (bucket_add k v bs)) =
    sum_list (map (\<lambda>(k, vs). sum_list (map g vs)) bs) + g v"
  by (induction k v bs rule: bucket_add.induct) (auto simp: ac_simps)

text \<open>Grouping loses nothing: any total over the rows is the total of the groups' totals.\<close>

lemma sum_list_buckets:
  fixes g :: "'v \<Rightarrow> 'a::comm_monoid_add"
  shows "sum_list (map (\<lambda>(k, vs). sum_list (map g vs)) (buckets f xs)) = sum_list (map g xs)"
  by (induction xs rule: rev_induct) (simp_all add: buckets_snoc sum_list_bucket_add ac_simps)

lemma sum_list_sort_desc:
  fixes g :: "'v \<Rightarrow> 'a::comm_monoid_add"
  shows "sum_list (map g (sort_desc f xs)) = sum_list (map g xs)"
  by (metis mset_map mset_sort_desc sum_mset_sum_list)

lemma set_map_filter: "set (List.map_filter f xs) = {y. \<exists>x \<in> set xs. f x = Some y}"
  by (induction xs) (auto simp: List.map_filter_simps split: option.split)

lemma map_filter_cong: "(\<And>x. x \<in> set xs \<Longrightarrow> f x = g x) \<Longrightarrow> List.map_filter f xs = List.map_filter g xs"
  by (induction xs) (auto simp: List.map_filter_simps split: option.split)

text \<open>Decimal digits of a natural number, as an f-string prints it.\<close>

fun digits :: "nat \<Rightarrow> string" where
  "digits n = (if n < 10 then [char_of (48 + n)] else digits (n div 10) @ [char_of (48 + n mod 10)])"

section \<open>Call rows\<close>

text \<open>
  The rows the collector hands to the accounting modules: a dictionary per model call.
  Token fields keep their Python value because every consumer checks its type again.
  A missing key is \<^term>\<open>PNone\<close> or \<^term>\<open>None\<close>.
\<close>

record call =
  c_key :: string
  c_home :: string
  c_sid :: string
  c_ts :: rat
  c_model :: "string option"
  c_effort :: "string option"
  c_purpose :: "string option"
  c_service_tier :: "string option"
  c_service_tier_source :: "string option"
  c_cache_policy :: "string option"
  c_compaction_epoch :: "int option"
  c_input :: pyval
  c_cached :: pyval
  c_written :: pyval
  c_output :: pyval
  c_reasoning :: pyval
  c_uncached :: pyval
  c_ordinary_input :: pyval
  c_non_reasoning :: pyval
  c_total :: pyval
  c_cost :: "rat option"
  c_input_conflict :: bool
  c_output_conflict :: bool
  c_mode_conflict :: bool
  c_model_conflict :: bool
  c_cache_policy_conflict :: bool
  c_observation_missing :: bool

text \<open>\<open>row.get(k) or default\<close> on a string field: the empty string is false.\<close>

definition str_or :: "string option \<Rightarrow> string \<Rightarrow> string" where
  "str_or v d = (case v of None \<Rightarrow> d | Some s \<Rightarrow> if s = [] then d else s)"

end
