(* ===== verification/Bisect.thy ===== *)
theory Bisect
  imports Pybase
begin

text \<open>
  Python's \<open>bisect_left\<close> and \<open>bisect_right\<close> as the loops of the standard library, and
  their meaning on a sorted list: the number of smaller (or not larger) elements.
\<close>

function bisect_right_loop :: "'a::linorder list \<Rightarrow> 'a \<Rightarrow> nat \<Rightarrow> nat \<Rightarrow> nat" where
  "bisect_right_loop xs x lo hi =
    (if lo < hi then
       (let mid = (lo + hi) div 2
        in if x < xs ! mid then bisect_right_loop xs x lo mid else bisect_right_loop xs x (mid + 1) hi)
     else lo)"
  by pat_completeness auto
termination
  by (relation "measure (\<lambda>(xs, x, lo, hi). hi - lo)") auto

function bisect_left_loop :: "'a::linorder list \<Rightarrow> 'a \<Rightarrow> nat \<Rightarrow> nat \<Rightarrow> nat" where
  "bisect_left_loop xs x lo hi =
    (if lo < hi then
       (let mid = (lo + hi) div 2
        in if xs ! mid < x then bisect_left_loop xs x (mid + 1) hi else bisect_left_loop xs x lo mid)
     else lo)"
  by pat_completeness auto
termination
  by (relation "measure (\<lambda>(xs, x, lo, hi). hi - lo)") auto

declare bisect_right_loop.simps [simp del] bisect_left_loop.simps [simp del]

definition bisect_right :: "'a::linorder list \<Rightarrow> 'a \<Rightarrow> nat" where
  "bisect_right xs x = bisect_right_loop xs x 0 (length xs)"

definition bisect_left :: "'a::linorder list \<Rightarrow> 'a \<Rightarrow> nat" where
  "bisect_left xs x = bisect_left_loop xs x 0 (length xs)"

lemma bisect_right_loop_bounds:
  assumes "sorted xs" "lo \<le> hi" "hi \<le> length xs"
    "\<forall>i < lo. xs ! i \<le> x" "\<forall>i. hi \<le> i \<and> i < length xs \<longrightarrow> x < xs ! i"
  shows "(\<forall>i < bisect_right_loop xs x lo hi. xs ! i \<le> x) \<and>
    (\<forall>i. bisect_right_loop xs x lo hi \<le> i \<and> i < length xs \<longrightarrow> x < xs ! i) \<and>
    bisect_right_loop xs x lo hi \<le> length xs"
  using assms
proof (induction xs x lo hi rule: bisect_right_loop.induct)
  case (1 xs x lo hi)
  let ?mid = "(lo + hi) div 2"
  show ?case
  proof (cases "lo < hi")
    case False
    then have "bisect_right_loop xs x lo hi = lo" by (simp add: bisect_right_loop.simps [of xs x lo hi])
    with False "1.prems" show ?thesis by simp
  next
    case True
    then have mid: "lo \<le> ?mid" "?mid < hi" by auto
    show ?thesis
    proof (cases "x < xs ! ?mid")
      case less: True
      have "\<forall>i. ?mid \<le> i \<and> i < length xs \<longrightarrow> x < xs ! i"
      proof (intro allI impI)
        fix i assume "?mid \<le> i \<and> i < length xs"
        then have "xs ! ?mid \<le> xs ! i" using "1.prems"(1) by (intro sorted_nth_mono) auto
        with less show "x < xs ! i" by simp
      qed
      with "1.IH"(1) [OF True refl less] mid "1.prems" True less show ?thesis
        by (simp add: bisect_right_loop.simps [of xs x lo hi] Let_def)
    next
      case False
      have "\<forall>i < ?mid + 1. xs ! i \<le> x"
      proof (intro allI impI)
        fix i assume "i < ?mid + 1"
        then have "xs ! i \<le> xs ! ?mid" using "1.prems"(1,3) mid by (intro sorted_nth_mono) auto
        with False show "xs ! i \<le> x" by simp
      qed
      with "1.IH"(2) [OF True refl False] mid "1.prems" True False show ?thesis
        by (simp add: bisect_right_loop.simps [of xs x lo hi] Let_def)
    qed
  qed
qed

lemma bisect_left_loop_bounds:
  assumes "sorted xs" "lo \<le> hi" "hi \<le> length xs"
    "\<forall>i < lo. xs ! i < x" "\<forall>i. hi \<le> i \<and> i < length xs \<longrightarrow> x \<le> xs ! i"
  shows "(\<forall>i < bisect_left_loop xs x lo hi. xs ! i < x) \<and>
    (\<forall>i. bisect_left_loop xs x lo hi \<le> i \<and> i < length xs \<longrightarrow> x \<le> xs ! i) \<and>
    bisect_left_loop xs x lo hi \<le> length xs"
  using assms
proof (induction xs x lo hi rule: bisect_left_loop.induct)
  case (1 xs x lo hi)
  let ?mid = "(lo + hi) div 2"
  show ?case
  proof (cases "lo < hi")
    case False
    then have "bisect_left_loop xs x lo hi = lo" by (simp add: bisect_left_loop.simps [of xs x lo hi])
    with False "1.prems" show ?thesis by simp
  next
    case True
    then have mid: "lo \<le> ?mid" "?mid < hi" by auto
    show ?thesis
    proof (cases "xs ! ?mid < x")
      case less: True
      have "\<forall>i < ?mid + 1. xs ! i < x"
      proof (intro allI impI)
        fix i assume "i < ?mid + 1"
        then have "xs ! i \<le> xs ! ?mid" using "1.prems"(1,3) mid by (intro sorted_nth_mono) auto
        with less show "xs ! i < x" by simp
      qed
      with "1.IH"(1) [OF True refl less] mid "1.prems" True less show ?thesis
        by (simp add: bisect_left_loop.simps [of xs x lo hi] Let_def)
    next
      case False
      have "\<forall>i. ?mid \<le> i \<and> i < length xs \<longrightarrow> x \<le> xs ! i"
      proof (intro allI impI)
        fix i assume "?mid \<le> i \<and> i < length xs"
        then have "xs ! ?mid \<le> xs ! i" using "1.prems"(1) by (intro sorted_nth_mono) auto
        with False show "x \<le> xs ! i" by simp
      qed
      with "1.IH"(2) [OF True refl False] mid "1.prems" True False show ?thesis
        by (simp add: bisect_left_loop.simps [of xs x lo hi] Let_def)
    qed
  qed
qed

lemma bisect_right_spec:
  assumes "sorted xs"
  shows "bisect_right xs x \<le> length xs" "i < bisect_right xs x \<Longrightarrow> xs ! i \<le> x"
    "bisect_right xs x \<le> i \<Longrightarrow> i < length xs \<Longrightarrow> x < xs ! i"
proof -
  have "(\<forall>i < bisect_right xs x. xs ! i \<le> x) \<and>
    (\<forall>i. bisect_right xs x \<le> i \<and> i < length xs \<longrightarrow> x < xs ! i) \<and> bisect_right xs x \<le> length xs"
    unfolding bisect_right_def by (rule bisect_right_loop_bounds [OF assms]) auto
  then show "bisect_right xs x \<le> length xs" "i < bisect_right xs x \<Longrightarrow> xs ! i \<le> x"
    "bisect_right xs x \<le> i \<Longrightarrow> i < length xs \<Longrightarrow> x < xs ! i" by blast+
qed

lemma bisect_left_spec:
  assumes "sorted xs"
  shows "bisect_left xs x \<le> length xs" "i < bisect_left xs x \<Longrightarrow> xs ! i < x"
    "bisect_left xs x \<le> i \<Longrightarrow> i < length xs \<Longrightarrow> x \<le> xs ! i"
proof -
  have "(\<forall>i < bisect_left xs x. xs ! i < x) \<and>
    (\<forall>i. bisect_left xs x \<le> i \<and> i < length xs \<longrightarrow> x \<le> xs ! i) \<and> bisect_left xs x \<le> length xs"
    unfolding bisect_left_def by (rule bisect_left_loop_bounds [OF assms]) auto
  then show "bisect_left xs x \<le> length xs" "i < bisect_left xs x \<Longrightarrow> xs ! i < x"
    "bisect_left xs x \<le> i \<Longrightarrow> i < length xs \<Longrightarrow> x \<le> xs ! i" by blast+
qed

lemma filter_by_index:
  assumes "n \<le> length xs" "\<And>i. i < n \<Longrightarrow> P (xs ! i)" "\<And>i. n \<le> i \<Longrightarrow> i < length xs \<Longrightarrow> \<not> P (xs ! i)"
  shows "filter P xs = take n xs"
proof -
  have "filter P (take n xs) = take n xs"
    using assms(1,2) by (auto simp: filter_id_conv in_set_conv_nth)
  moreover have "filter P (drop n xs) = []"
    using assms(3) by (auto simp: filter_empty_conv in_set_conv_nth)
  ultimately show ?thesis by (metis append_take_drop_id filter_append append_Nil2)
qed

lemma filter_by_index_drop:
  assumes "n \<le> length xs" "\<And>i. i < n \<Longrightarrow> \<not> P (xs ! i)" "\<And>i. n \<le> i \<Longrightarrow> i < length xs \<Longrightarrow> P (xs ! i)"
  shows "filter P xs = drop n xs"
proof -
  have "filter P (take n xs) = []"
    using assms(1,2) by (auto simp: filter_empty_conv in_set_conv_nth)
  moreover have "filter P (drop n xs) = drop n xs"
    using assms(3) by (auto simp: filter_id_conv in_set_conv_nth)
  ultimately show ?thesis by (metis append_take_drop_id filter_append append_Nil)
qed

text \<open>Slicing a list sorted by a key at a bisection point is filtering by the key.\<close>

lemma take_bisect_right:
  assumes "sorted (map f xs)"
  shows "take (bisect_right (map f xs) x) xs = filter (\<lambda>y. f y \<le> x) xs"
proof (rule filter_by_index [symmetric])
  show "bisect_right (map f xs) x \<le> length xs" using bisect_right_spec(1) [OF assms] by simp
next
  fix i assume i: "i < bisect_right (map f xs) x"
  then have "i < length xs" using bisect_right_spec(1) [OF assms, of x] by simp
  with i show "f (xs ! i) \<le> x" using bisect_right_spec(2) [OF assms, of i x] by simp
next
  fix i assume "bisect_right (map f xs) x \<le> i" "i < length xs"
  then show "\<not> f (xs ! i) \<le> x" using bisect_right_spec(3) [OF assms, of x i] by simp
qed

lemma drop_bisect_right:
  assumes "sorted (map f xs)"
  shows "drop (bisect_right (map f xs) x) xs = filter (\<lambda>y. x < f y) xs"
proof (rule filter_by_index_drop [symmetric])
  show "bisect_right (map f xs) x \<le> length xs" using bisect_right_spec(1) [OF assms] by simp
next
  fix i assume i: "i < bisect_right (map f xs) x"
  then have "i < length xs" using bisect_right_spec(1) [OF assms, of x] by simp
  with i show "\<not> x < f (xs ! i)" using bisect_right_spec(2) [OF assms, of i x] by simp
next
  fix i assume "bisect_right (map f xs) x \<le> i" "i < length xs"
  then show "x < f (xs ! i)" using bisect_right_spec(3) [OF assms, of x i] by simp
qed

lemma take_bisect_left:
  assumes "sorted (map f xs)"
  shows "take (bisect_left (map f xs) x) xs = filter (\<lambda>y. f y < x) xs"
proof (rule filter_by_index [symmetric])
  show "bisect_left (map f xs) x \<le> length xs" using bisect_left_spec(1) [OF assms] by simp
next
  fix i assume i: "i < bisect_left (map f xs) x"
  then have "i < length xs" using bisect_left_spec(1) [OF assms, of x] by simp
  with i show "f (xs ! i) < x" using bisect_left_spec(2) [OF assms, of i x] by simp
next
  fix i assume "bisect_left (map f xs) x \<le> i" "i < length xs"
  then show "\<not> f (xs ! i) < x" using bisect_left_spec(3) [OF assms, of x i] by simp
qed

lemma drop_bisect_left:
  assumes "sorted (map f xs)"
  shows "drop (bisect_left (map f xs) x) xs = filter (\<lambda>y. x \<le> f y) xs"
proof (rule filter_by_index_drop [symmetric])
  show "bisect_left (map f xs) x \<le> length xs" using bisect_left_spec(1) [OF assms] by simp
next
  fix i assume i: "i < bisect_left (map f xs) x"
  then have "i < length xs" using bisect_left_spec(1) [OF assms, of x] by simp
  with i show "\<not> x \<le> f (xs ! i)" using bisect_left_spec(2) [OF assms, of i x] by simp
next
  fix i assume "bisect_left (map f xs) x \<le> i" "i < length xs"
  then show "x \<le> f (xs ! i)" using bisect_left_spec(3) [OF assms, of x i] by simp
qed

text \<open>Membership by bisection, as the history editor looks up an observed time.\<close>

lemma bisect_left_member:
  assumes "sorted xs"
  shows "(bisect_left xs x < length xs \<and> xs ! bisect_left xs x = x) \<longleftrightarrow> x \<in> set xs"
proof
  assume "x \<in> set xs"
  then obtain i where i: "i < length xs" "xs ! i = x" by (auto simp: in_set_conv_nth)
  have le: "bisect_left xs x \<le> i"
    using bisect_left_spec(2) [OF assms, of i x] i(2) by (meson leI less_irrefl)
  with i have lt: "bisect_left xs x < length xs" by simp
  have "x \<le> xs ! bisect_left xs x" using bisect_left_spec(3) [OF assms, of x "bisect_left xs x"] lt by simp
  moreover have "xs ! bisect_left xs x \<le> x" using sorted_nth_mono [OF assms le] i by simp
  ultimately show "bisect_left xs x < length xs \<and> xs ! bisect_left xs x = x" using lt by simp
qed (auto simp: in_set_conv_nth)

end
