(* ===== verification/Tokens.thy ===== *)
theory Tokens
  imports Pybase
begin

text \<open>
  Token accounting of \<open>cachemonitor/core.py\<close>: the values read from a usage record
  (\<open>usage_values\<close>), their disjoint composition (\<open>token_parts\<close>), and the summaries of
  call populations (\<open>summarize\<close>, \<open>group_usage\<close>) with their optional native backend.
\<close>

section \<open>Reading a usage record\<close>

text \<open>\<open>type(value) is int\<close> excludes booleans and floats.\<close>

fun token_number :: "pyval \<Rightarrow> int option" where
  "token_number (PInt i) = (if i \<ge> 0 then Some i else None)"
| "token_number _ = None"

record usage =
  u_input :: "int option"
  u_cached :: "int option"
  u_written :: "int option"
  u_output :: "int option"
  u_reasoning :: "int option"
  u_uncached :: "int option"
  u_ordinary_input :: "int option"
  u_non_reasoning :: "int option"
  u_total :: "int option"
  u_reported_total :: "int option"
  u_total_discrepancy :: bool
  u_input_conflict :: bool
  u_output_conflict :: bool

text \<open>\<open>a - b if a is not None and b is not None else None\<close>\<close>

definition opt_diff :: "int option \<Rightarrow> int option \<Rightarrow> int option" where
  "opt_diff a b = (case (a, b) of (Some x, Some y) \<Rightarrow> Some (x - y) | _ \<Rightarrow> None)"

text \<open>\<open>a is not None and b is not None and b > a\<close>\<close>

definition exceeds :: "int option \<Rightarrow> int option \<Rightarrow> bool" where
  "exceeds b a = (case (a, b) of (Some x, Some y) \<Rightarrow> y > x | _ \<Rightarrow> False)"

definition input_conflicting :: "int option \<Rightarrow> int option \<Rightarrow> int option \<Rightarrow> bool" where
  "input_conflicting inp cached written =
    (inp \<noteq> None \<and>
      (exceeds cached inp \<or> exceeds written inp \<or>
       (case (cached, written) of (Some c, Some w) \<Rightarrow> exceeds (Some (c + w)) inp | _ \<Rightarrow> False)))"

text \<open>The arithmetic of \<open>usage_values\<close> on the six numbers it has read.\<close>

definition usage_of :: "int option \<Rightarrow> int option \<Rightarrow> int option \<Rightarrow> int option \<Rightarrow> int option \<Rightarrow> int option \<Rightarrow> usage" where
  "usage_of inp output0 cached0 reasoning0 written0 reported =
    (let input_conflict = input_conflicting inp cached0 written0;
         output_conflict = exceeds reasoning0 output0;
         cached = (if exceeds cached0 inp then None else cached0);
         written = (if exceeds written0 inp then None else written0);
         reasoning = (if output_conflict then None else reasoning0)
     in \<lparr>u_input = inp, u_cached = cached, u_written = written, u_output = output0,
         u_reasoning = reasoning,
         u_uncached = opt_diff inp cached,
         u_ordinary_input = (if input_conflict then None else opt_diff (opt_diff inp cached) written),
         u_non_reasoning = opt_diff output0 reasoning,
         u_total = (case (inp, output0) of (Some i, Some k) \<Rightarrow> Some (i + k) | _ \<Rightarrow> reported),
         u_reported_total = reported,
         u_total_discrepancy = (case (reported, inp, output0) of
            (Some r, Some i, Some k) \<Rightarrow> r \<noteq> i + k | _ \<Rightarrow> False),
         u_input_conflict = input_conflict, u_output_conflict = output_conflict\<rparr>)"

text \<open>
  The default of \<open>get\<close> is evaluated before the lookup, so a details value that is
  neither false nor a dictionary raises even where the flat field is present. The three
  reads raise the same exception, in the order of the source.
\<close>

definition usage_values :: "pydict \<Rightarrow> pyerror + usage" where
  "usage_values u =
    (let inp = token_number (dget u ''input_tokens'');
         outp = token_number (dget u ''output_tokens'')
     in bindE (or_empty (dget u ''input_tokens_details'')) (\<lambda>ind.
        bindE (or_empty (dget u ''output_tokens_details'')) (\<lambda>outd.
        let cached = token_number (dget_or u ''cached_input_tokens'' (dget ind ''cached_tokens''));
            reasoning = token_number (dget_or u ''reasoning_output_tokens'' (dget outd ''reasoning_tokens''));
            written = token_number (dget_or u ''cache_write_input_tokens'' (dget ind ''cache_write_tokens''));
            reported = token_number (dget u ''total_tokens'')
        in Inr (usage_of inp outp cached reasoning written reported))))"

lemma token_number_Some: "token_number v = Some n \<longleftrightarrow> v = PInt n \<and> 0 \<le> n"
  by (cases v) auto

lemma token_number_nonneg: "token_number v = Some n \<Longrightarrow> 0 \<le> n"
  by (simp add: token_number_Some)

text \<open>The well-formedness of a usage value: nothing negative, parts within their whole.\<close>

definition nonneg :: "int option \<Rightarrow> bool" where
  "nonneg v = (case v of None \<Rightarrow> True | Some n \<Rightarrow> 0 \<le> n)"

lemma nonneg_simps [simp]: "nonneg None" "nonneg (Some n) = (0 \<le> n)"
  by (simp_all add: nonneg_def)

lemma nonneg_token_number [simp]: "nonneg (token_number v)"
  by (cases v) auto

definition usage_ok :: "usage \<Rightarrow> bool" where
  "usage_ok u =
    (nonneg (u_input u) \<and> nonneg (u_cached u) \<and> nonneg (u_written u) \<and> nonneg (u_output u) \<and>
     nonneg (u_reasoning u) \<and> nonneg (u_uncached u) \<and> nonneg (u_ordinary_input u) \<and>
     nonneg (u_non_reasoning u) \<and> nonneg (u_total u) \<and> nonneg (u_reported_total u) \<and>
     \<not> exceeds (u_cached u) (u_input u) \<and> \<not> exceeds (u_written u) (u_input u) \<and>
     \<not> exceeds (u_reasoning u) (u_output u))"

lemmas usage_defs = usage_of_def input_conflicting_def opt_diff_def exceeds_def Let_def

lemma usage_of_ok:
  assumes "nonneg inp" "nonneg k" "nonneg c" "nonneg r" "nonneg w" "nonneg t"
  shows "usage_ok (usage_of inp k c r w t)"
  using assms
  by (cases inp; cases k; cases c; cases r; cases w; cases t)
     (simp_all add: usage_ok_def usage_defs)

lemma usage_values_ok: "usage_values u = Inr v \<Longrightarrow> usage_ok v"
  by (auto simp: usage_values_def Let_def bindE_Inr_conv intro!: usage_of_ok)

lemma usage_of_ordinary_parts:
  assumes "u = usage_of inp k c r w t" and "u_ordinary_input u = Some n"
  shows "\<exists>i c' w'. inp = Some i \<and> u_cached u = Some c' \<and> u_written u = Some w' \<and> i = n + c' + w'"
  using assms by (cases inp; cases c; cases w) (auto simp: usage_defs split: if_splits)

section \<open>Disjoint composition\<close>

record part_counts =
  p_ordinary :: int
  p_read :: int      \<comment> \<open>\<open>read\<close> of the input, unused (0) for the output\<close>
  p_write :: int
  p_reasoning :: int \<comment> \<open>\<open>reasoning\<close> of the output, unused (0) for the input\<close>
  p_unclassified :: int
  p_total :: "int option"

definition empty_parts :: "int option \<Rightarrow> part_counts" where
  "empty_parts t = \<lparr>p_ordinary = 0, p_read = 0, p_write = 0, p_reasoning = 0, p_unclassified = 0, p_total = t\<rparr>"

definition or_zero :: "int option \<Rightarrow> int" where
  "or_zero v = (case v of None \<Rightarrow> 0 | Some n \<Rightarrow> n)"

definition token_parts :: "call \<Rightarrow> part_counts \<times> part_counts" where
  "token_parts row =
    (let i = token_number (c_input row); r = token_number (c_cached row);
         w = token_number (c_written row); k = token_number (c_output row);
         q = token_number (c_reasoning row);
         inp = (case i of None \<Rightarrow> empty_parts None
           | Some n \<Rightarrow>
               if c_input_conflict row \<or> exceeds r i \<or> exceeds w i \<or>
                  (case (r, w) of (Some a, Some b) \<Rightarrow> a + b > n | _ \<Rightarrow> False)
               then (empty_parts i)\<lparr>p_unclassified := n\<rparr>
               else (case (r, w) of
                   (Some a, Some b) \<Rightarrow> (empty_parts i)\<lparr>p_read := a, p_write := b, p_ordinary := n - a - b\<rparr>
                 | _ \<Rightarrow> (empty_parts i)\<lparr>p_read := or_zero r, p_write := or_zero w,
                          p_unclassified := n - or_zero r - or_zero w\<rparr>));
         outp = (case k of None \<Rightarrow> empty_parts None
           | Some n \<Rightarrow>
               (case q of None \<Rightarrow> (empty_parts k)\<lparr>p_unclassified := n\<rparr>
                | Some m \<Rightarrow> if m > n \<or> c_output_conflict row then (empty_parts k)\<lparr>p_unclassified := n\<rparr>
                            else (empty_parts k)\<lparr>p_ordinary := n - m, p_reasoning := m\<rparr>))
     in (inp, outp))"

definition parts_sum :: "part_counts \<Rightarrow> int" where
  "parts_sum p = p_ordinary p + p_read p + p_write p + p_reasoning p + p_unclassified p"

definition lossless :: "part_counts \<Rightarrow> bool" where
  "lossless p = (parts_sum p = or_zero (p_total p) \<and>
    0 \<le> p_ordinary p \<and> 0 \<le> p_read p \<and> 0 \<le> p_write p \<and> 0 \<le> p_reasoning p \<and> 0 \<le> p_unclassified p)"

lemmas parts_defs = token_parts_def parts_sum_def lossless_def empty_parts_def or_zero_def exceeds_def Let_def

lemma token_parts_input_lossless: "lossless (fst (token_parts row))"
  using nonneg_token_number [of "c_input row"] nonneg_token_number [of "c_cached row"]
    nonneg_token_number [of "c_written row"]
  by (cases "token_number (c_input row)"; cases "token_number (c_cached row)";
      cases "token_number (c_written row)") (auto simp: parts_defs)

lemma token_parts_output_lossless: "lossless (snd (token_parts row))"
  using nonneg_token_number [of "c_output row"] nonneg_token_number [of "c_reasoning row"]
  by (cases "token_number (c_output row)"; cases "token_number (c_reasoning row)")
     (auto simp: parts_defs)

section \<open>Summaries of call populations\<close>

datatype metric = M_input | M_cached | M_uncached | M_written | M_ordinary_input
  | M_output | M_reasoning | M_non_reasoning | M_total

definition METRICS :: "metric list" where
  "METRICS = [M_input, M_cached, M_uncached, M_written, M_ordinary_input, M_output,
    M_reasoning, M_non_reasoning, M_total]"

fun metric_value :: "metric \<Rightarrow> call \<Rightarrow> pyval" where
  "metric_value M_input r = c_input r"
| "metric_value M_cached r = c_cached r"
| "metric_value M_uncached r = c_uncached r"
| "metric_value M_written r = c_written r"
| "metric_value M_ordinary_input r = c_ordinary_input r"
| "metric_value M_output r = c_output r"
| "metric_value M_reasoning r = c_reasoning r"
| "metric_value M_non_reasoning r = c_non_reasoning r"
| "metric_value M_total r = c_total r"

definition known_values :: "metric \<Rightarrow> call list \<Rightarrow> int list" where
  "known_values m rows = List.map_filter (\<lambda>r. token_number (metric_value m r)) rows"

record summary =
  s_count :: nat
  s_value :: "(metric \<times> int option) list"
  s_missing :: "(metric \<times> nat) list"
  s_rate :: "rat option"

definition rate_known :: "call \<Rightarrow> bool" where
  "rate_known r = (case (token_number (c_cached r), token_number (c_input r)) of
     (Some c, Some i) \<Rightarrow> c \<le> i | _ \<Rightarrow> False)"

definition num_or0 :: "pyval \<Rightarrow> int" where
  "num_or0 v = or_zero (token_number v)"

definition metric_sum :: "metric \<Rightarrow> call list \<Rightarrow> int option" where
  "metric_sum m rows = (if known_values m rows \<noteq> [] \<or> rows = [] then Some (sum_list (known_values m rows)) else None)"

definition summarize_python :: "call list \<Rightarrow> summary" where
  "summarize_python rows =
    (let known = filter rate_known rows;
         inputs = sum_list (map (\<lambda>r. num_or0 (c_input r)) known)
     in \<lparr>s_count = length rows,
         s_value = map (\<lambda>m. (m, metric_sum m rows)) METRICS,
         s_missing = map (\<lambda>m. (m, length rows - length (known_values m rows))) METRICS,
         s_rate = (if inputs \<noteq> 0
           then Some (100 * of_int (sum_list (map (\<lambda>r. num_or0 (c_cached r)) known)) / of_int inputs)
           else None)\<rparr>)"

text \<open>The native backend is optional and may decline (return \<open>None\<close>).\<close>

definition summarize :: "(call list \<Rightarrow> summary option) option \<Rightarrow> call list \<Rightarrow> summary" where
  "summarize native rows = (case native of None \<Rightarrow> summarize_python rows
     | Some f \<Rightarrow> (case f rows of Some r \<Rightarrow> r | None \<Rightarrow> summarize_python rows))"

type_synonym usage_group = "(string \<times> string) \<times> summary"

definition group_key :: "call \<Rightarrow> string \<times> string" where
  "group_key r = (str_or (c_model r) mihwagin, str_or (c_effort r) mihwagin)"

definition summary_total :: "summary \<Rightarrow> int" where
  "summary_total s = (case map_of (s_value s) M_total of Some (Some t) \<Rightarrow> t | _ \<Rightarrow> 0)"

definition group_usage_python :: "call list \<Rightarrow> usage_group list" where
  "group_usage_python rows =
    sort_desc (\<lambda>(k, s). summary_total s) (map (\<lambda>(k, items). (k, summarize_python items)) (buckets group_key rows))"

definition group_usage :: "(call list \<Rightarrow> usage_group list option) option \<Rightarrow> call list \<Rightarrow> usage_group list" where
  "group_usage native rows = (case native of None \<Rightarrow> group_usage_python rows
     | Some f \<Rightarrow> (case f rows of Some r \<Rightarrow> r | None \<Rightarrow> group_usage_python rows))"

subsection \<open>Facts on summaries\<close>

lemma known_values_nonneg: "x \<in> set (known_values m rows) \<Longrightarrow> 0 \<le> x"
  by (auto simp: known_values_def List.map_filter_def token_number_nonneg)

lemma sum_known_values: "sum_list (known_values m rows) = sum_list (map (\<lambda>r. num_or0 (metric_value m r)) rows)"
  by (induction rows) (auto simp: known_values_def List.map_filter_def num_or0_def or_zero_def split: option.splits)

lemma length_known_values: "length (known_values m rows) \<le> length rows"
  by (simp add: known_values_def List.map_filter_def)

lemma rate_bounds_aux:
  "0 \<le> sum_list (map (\<lambda>r. num_or0 (c_cached r)) (filter rate_known rows)) \<and>
   sum_list (map (\<lambda>r. num_or0 (c_cached r)) (filter rate_known rows))
     \<le> sum_list (map (\<lambda>r. num_or0 (c_input r)) (filter rate_known rows))"
  by (induction rows)
     (auto simp: rate_known_def num_or0_def or_zero_def token_number_nonneg split: option.splits
       dest: token_number_nonneg)

lemma summarize_rate_bounds:
  assumes "s_rate (summarize_python rows) = Some q"
  shows "0 \<le> q \<and> q \<le> 100"
proof -
  let ?c = "sum_list (map (\<lambda>r. num_or0 (c_cached r)) (filter rate_known rows))"
  let ?i = "sum_list (map (\<lambda>r. num_or0 (c_input r)) (filter rate_known rows))"
  have b: "0 \<le> ?c" "?c \<le> ?i" using rate_bounds_aux by blast+
  from assms have nz: "?i \<noteq> 0" and q: "q = 100 * of_int ?c / of_int ?i"
    by (auto simp: summarize_python_def Let_def split: if_splits)
  from b nz have pos: "(0::rat) < of_int ?i" by simp
  have "(of_int ?c :: rat) \<le> of_int ?i" using b(2) of_int_le_iff by blast
  with pos have "100 * of_int ?c / (of_int ?i :: rat) \<le> 100"
    by (simp add: divide_le_eq)
  moreover have "0 \<le> 100 * of_int ?c / (of_int ?i :: rat)"
    using b(1) pos by (simp add: zero_le_divide_iff)
  ultimately show ?thesis using q by simp
qed

lemma metric_sum_or0: "or_zero (metric_sum m rows) = sum_list (map (\<lambda>r. num_or0 (metric_value m r)) rows)"
  by (auto simp: metric_sum_def or_zero_def sum_known_values [symmetric])

definition summary_of :: "metric \<Rightarrow> summary \<Rightarrow> int" where
  "summary_of m s = (case map_of (s_value s) m of Some v \<Rightarrow> or_zero v | None \<Rightarrow> 0)"

lemma summary_of_python: "summary_of m (summarize_python rows) = sum_list (map (\<lambda>r. num_or0 (metric_value m r)) rows)"
  by (cases m) (simp_all add: summary_of_def summarize_python_def Let_def METRICS_def metric_sum_or0)

lemma group_usage_sums:
  "sum_list (map (\<lambda>(k, s). summary_of m s) (group_usage_python rows)) = summary_of m (summarize_python rows)"
proof -
  have "sum_list (map (\<lambda>(k, s). summary_of m s) (group_usage_python rows)) =
      sum_list (map ((\<lambda>(k, s). summary_of m s) \<circ> (\<lambda>(k, items). (k, summarize_python items))) (buckets group_key rows))"
    by (simp add: group_usage_python_def sum_list_sort_desc)
  also have "\<dots> = sum_list (map (\<lambda>(k, items). sum_list (map (\<lambda>r. num_or0 (metric_value m r)) items)) (buckets group_key rows))"
    by (rule arg_cong [where f = sum_list]) (auto simp: summary_of_python)
  also have "\<dots> = summary_of m (summarize_python rows)"
    by (simp add: sum_list_buckets summary_of_python)
  finally show ?thesis .
qed

lemma group_usage_counts:
  "sum_list (map (\<lambda>(k, s). s_count s) (group_usage_python rows)) = length rows"
proof -
  have "sum_list (map (\<lambda>(k, s). s_count s) (group_usage_python rows)) =
      sum_list (map (\<lambda>(k, items). sum_list (map (\<lambda>_. 1) items)) (buckets group_key rows))"
    by (simp add: group_usage_python_def sum_list_sort_desc o_def split_def summarize_python_def Let_def sum_list_triv)
  also have "\<dots> = length rows"
    by (simp only: sum_list_buckets) (simp add: sum_list_triv)
  finally show ?thesis .
qed

lemma group_usage_member:
  "(k, s) \<in> set (group_usage_python rows) \<Longrightarrow> s = summarize_python (filter (\<lambda>r. group_key r = k) rows)"
  by (auto simp: group_usage_python_def dest: buckets_memberD)

lemma group_usage_keys: "fst ` set (group_usage_python rows) = group_key ` set rows"
  by (simp add: group_usage_python_def image_image split_def keys_buckets [of group_key rows, symmetric])

section \<open>Further properties\<close>

text \<open>
  Whatever dictionary the collector reads, the token counts it keeps are non-negative and no part exceeds its
  whole: cached and written input within the input, reasoning within the output.
\<close>

theorem usage_wellformed:
  assumes "usage_values u = Inr v"
  shows "usage_ok v"
  using assms by (rule usage_values_ok)

theorem usage_wellformed_witness:
  "\<exists>v. usage_values [(''input_tokens'', PInt 10), (''cached_input_tokens'', PInt 20), (''output_tokens'', PInt 3)] = Inr v \<and>
    u_cached v = None \<and> u_total v = Some 13 \<and> usage_ok v"
proof -
  obtain v where v: "usage_values [(''input_tokens'', PInt 10), (''cached_input_tokens'', PInt 20), (''output_tokens'', PInt 3)] = Inr v"
      "u_cached v = None" "u_total v = Some 13"
    by (simp add: usage_values_def usage_defs dget_def dget_or_def)
  show ?thesis using usage_wellformed [OF v(1)] v by blast
qed

text \<open>
  The display composition of a call is lossless: ordinary, read, written and unclassified input tokens are
  non-negative and add up to the input count (none to zero), and likewise ordinary, reasoning and unclassified
  output tokens, conflicts and missing observations included.
\<close>

theorem token_parts_conserve:
  "lossless (fst (token_parts row)) \<and> lossless (snd (token_parts row)) \<and>
   p_total (fst (token_parts row)) = token_number (c_input row) \<and>
   p_total (snd (token_parts row)) = token_number (c_output row)"
  by (simp add: token_parts_input_lossless token_parts_output_lossless)
    (simp add: token_parts_def empty_parts_def Let_def split: option.split)

text \<open>
  Grouping calls by model and effort loses and invents nothing: the group sizes add up to the number of calls,
  every metric adds up to the metric of the whole, and each group is the summary of exactly its calls.
\<close>

theorem group_usage_partition:
  "sum_list (map (\<lambda>(k, s). s_count s) (group_usage_python rows)) = length rows \<and>
   sum_list (map (\<lambda>(k, s). summary_of m s) (group_usage_python rows)) = summary_of m (summarize_python rows) \<and>
   list_all (\<lambda>(k, s). s = summarize_python (filter (\<lambda>r. group_key r = k) rows)) (group_usage_python rows)"
  using group_usage_counts group_usage_sums group_usage_member by (auto simp: list_all_iff)


end
