(* ===== verification/Pricing.thy ===== *)
theory Pricing
  imports Tokens
begin

text \<open>
  Request modes and subscription-weighted token prices of \<open>cachemonitor/pricing.py\<close>:
  the rate tables, \<open>request_tier\<close>, \<open>subscription_multiplier\<close>, \<open>token_cost\<close> with its
  list of issues, \<open>sum_cost\<close> and \<open>mode_assumptions\<close>. Amounts are exact rationals in
  USD. The display strings of an issue are the constructors of \<open>issue\<close>.
\<close>

section \<open>Rates and modes\<close>

record rate =
  r_input :: rat
  r_cached :: "rat option"
  r_output :: rat
  r_written :: "rat option"
  r_long_threshold :: "int option"
  r_promo_minimum :: string

definition mk_rate :: "rat \<Rightarrow> rat option \<Rightarrow> rat \<Rightarrow> rat option \<Rightarrow> rate" where
  "mk_rate i c k w = \<lparr>r_input = i, r_cached = c, r_output = k, r_written = w,
     r_long_threshold = Some 272000, r_promo_minimum = ''''\<rparr>"

definition RATES :: "(string \<times> rate) list" where
  "RATES = [
    (''gpt-5.4-mini'', (mk_rate (75/100) (Some (75/1000)) (45/10) None)\<lparr>r_long_threshold := None\<rparr>),
    (''gpt-5.5'', mk_rate 5 (Some (5/10)) 30 None),
    (''gpt-5.5-pro'', mk_rate 30 None 180 None),
    (''gpt-5.6-sol'', (mk_rate 4 (Some (4/10)) 20 (Some 5))\<lparr>r_promo_minimum := ''2026-11-21''\<rparr>),
    (''gpt-5.6-terra'', mk_rate 2 (Some (2/10)) 12 (Some (25/10))),
    (''gpt-5.6-luna'', mk_rate (2/10) (Some (2/100)) (12/10) (Some (25/100))),
    (''gpt-6-astra'', mk_rate 10 (Some 1) 50 (Some (125/10))),
    (''gpt-6.1-sol'', mk_rate 2 (Some (1/10)) 10 (Some (25/10))),
    (''gpt-6.1-terra'', mk_rate 1 (Some (5/100)) 5 (Some (125/100))),
    (''gpt-6-sol'', mk_rate 2 (Some (2/10)) 10 (Some (25/10))),
    (''gpt-6-luna'', mk_rate (1/10) (Some (1/100)) (5/10) (Some (125/1000)))]"

definition ALIASES :: "(string \<times> string) list" where
  "ALIASES = [(''gpt-5.6'', ''gpt-5.6-sol''),
    (''gpt-daybreak-blue-latest'', ''gpt-5.6-sol''),
    (''gpt-5.4-mini-2026-03-17'', ''gpt-5.4-mini''),
    (''gpt-5.5-2026-04-23'', ''gpt-5.5'')]"

definition FAST_MULTIPLIER :: rat where "FAST_MULTIPLIER = 25/10"

text \<open>\<open>ALIASES.get(model, model)\<close>, where a missing model stays missing.\<close>

definition resolve :: "string option \<Rightarrow> string option" where
  "resolve m = (case m of None \<Rightarrow> None
     | Some s \<Rightarrow> (case map_of ALIASES s of None \<Rightarrow> Some s | Some t \<Rightarrow> Some t))"

definition standard_rate :: "string option \<Rightarrow> rate option" where
  "standard_rate m = (case resolve m of None \<Rightarrow> None | Some s \<Rightarrow> map_of RATES s)"

definition fast_multiplier :: "string option \<Rightarrow> rat option" where
  "fast_multiplier m = (case m of None \<Rightarrow> None
     | Some s \<Rightarrow> if s \<in> set (map fst RATES) \<and> s \<noteq> ''gpt-5.5-pro'' then Some FAST_MULTIPLIER else None)"

definition scale_rate :: "rat \<Rightarrow> rate \<Rightarrow> rate" where
  "scale_rate f r = r\<lparr>r_input := r_input r * f, r_cached := map_option (\<lambda>v. v * f) (r_cached r),
     r_output := r_output r * f, r_written := map_option (\<lambda>v. v * f) (r_written r)\<rparr>"

definition fast_rate :: "string option \<Rightarrow> rate option" where
  "fast_rate m = (case (fast_multiplier m, m) of
     (Some f, Some s) \<Rightarrow> map_option (scale_rate f) (map_of RATES s) | _ \<Rightarrow> None)"

definition subscription_multiplier :: "string option \<Rightarrow> string \<Rightarrow> rat option" where
  "subscription_multiplier m tier =
    (if tier = ''Standard'' \<and> standard_rate m \<noteq> None then Some 1
     else if tier \<noteq> ''Fast'' \<or> m = Some ''gpt-daybreak-blue-latest'' then None
     else fast_multiplier (resolve m))"

definition request_tier :: "call \<Rightarrow> string" where
  "request_tier row =
    (if c_mode_conflict row \<or> c_service_tier_source row = Some ''conflict'' then mihwagin
     else if c_service_tier row = Some ''priority'' \<or> c_service_tier row = Some ''fast'' then ''Fast''
     else if c_service_tier row = Some ''default'' \<or> c_service_tier row = Some ''standard'' then ''Standard''
     else str_or (c_service_tier row) mihwagin)"

definition request_rate :: "call \<Rightarrow> rate option" where
  "request_rate row =
    (if subscription_multiplier (c_model row) (request_tier row) = None then None
     else if request_tier row = ''Fast'' then fast_rate (resolve (c_model row))
     else standard_rate (c_model row))"

section \<open>The price of a call\<close>

datatype issue = No_issue
  | Mode_unconfirmed | Mode_unsupported | Multiplier_unconfirmed | Base_rate_unconfirmed
  | Input_output_unconfirmed | Cache_read_unconfirmed | Cache_rate_unconfirmed
  | Cache_write_out_of_range | Input_conflict | Cache_write_unconfirmed
  | Model_unconfirmed | Model_rate_unconfirmed | Input_unconfirmed | Output_unconfirmed
  | Cache_read_out_of_range | Cache_read_rate_unsupported

record price =
  k_cost :: "rat option"
  k_input :: "rat option"
  k_uncached :: "rat option"
  k_cached :: "rat option"
  k_written :: "rat option"
  k_unclassified :: "rat option"
  k_output :: "rat option"
  k_reasoning :: "rat option"
  k_non_reasoning :: "rat option"
  price_model :: "string option"
  price_tier :: string
  price_assumed :: bool
  price_issue :: issue
  long_context :: bool

definition no_price :: "string option \<Rightarrow> string \<Rightarrow> price" where
  "no_price m t = \<lparr>k_cost = None, k_input = None, k_uncached = None, k_cached = None,
     k_written = None, k_unclassified = None, k_output = None, k_reasoning = None,
     k_non_reasoning = None, price_model = m, price_tier = t, price_assumed = False,
     price_issue = No_issue, long_context = False\<rparr>"

definition mihw_model :: "string option \<Rightarrow> bool" where
  "mihw_model m = (m = None \<or> m = Some '''')"

definition in_rates :: "string option \<Rightarrow> bool" where
  "in_rates m = (case m of None \<Rightarrow> False | Some s \<Rightarrow> s \<in> set (map fst RATES))"

definition million :: rat where "million = 1000000"

definition output_priced :: "rate \<Rightarrow> pyval \<Rightarrow> int \<Rightarrow> price \<Rightarrow> price" where
  "output_priced rt reasoning outp p =
    (let p1 = p\<lparr>k_output := Some (of_int outp * r_output rt / million)\<rparr>
     in case token_number reasoning of
          Some q \<Rightarrow> if q \<le> outp then p1\<lparr>k_reasoning := Some (of_int q * r_output rt / million),
                       k_non_reasoning := Some (of_int (outp - q) * r_output rt / million)\<rparr> else p1
        | None \<Rightarrow> p1)"

definition input_priced :: "rate \<Rightarrow> int \<Rightarrow> int \<Rightarrow> int option \<Rightarrow> price \<Rightarrow> price" where
  "input_priced rt inp cached written p =
    (let unc = (case written of Some w \<Rightarrow> of_int (inp - cached - w) * r_input rt / million | None \<Rightarrow> 0);
         uncl = (case written of None \<Rightarrow> of_int (inp - cached) * r_input rt / million | Some _ \<Rightarrow> 0);
         cach = of_int cached * (case r_cached rt of Some v \<Rightarrow> v | None \<Rightarrow> 0) / million;
         writ = of_int (or_zero written) * (case r_written rt of Some v \<Rightarrow> v | None \<Rightarrow> r_input rt) / million;
         ci = unc + cach + writ + uncl
     in p\<lparr>k_uncached := Some unc, k_unclassified := Some uncl, k_cached := Some cach,
          k_written := Some writ, k_input := Some ci,
          k_cost := (case k_output p of Some k \<Rightarrow> Some (ci + k) | None \<Rightarrow> None)\<rparr>)"

text \<open>\<open>_token_cost\<close>: each early return of the source is a branch, in its order.\<close>

definition token_cost_base :: "call \<Rightarrow> price" where
  "token_cost_base row =
    (let m = resolve (c_model row); tier = request_tier row; base = no_price m tier in
     if tier \<noteq> ''Fast'' \<and> tier \<noteq> ''Standard'' then
       base\<lparr>price_issue := (if tier = mihwagin then Mode_unconfirmed else Mode_unsupported)\<rparr>
     else case request_rate row of
       None \<Rightarrow> base\<lparr>price_issue := (if in_rates m then Multiplier_unconfirmed else Base_rate_unconfirmed)\<rparr>
     | Some rt \<Rightarrow>
       (case (token_number (c_input row), token_number (c_output row)) of
         (Some inp, Some outp) \<Rightarrow>
           (let p = output_priced rt (c_reasoning row) outp base in
            case token_number (c_cached row) of
              None \<Rightarrow> base\<lparr>price_issue := Cache_read_unconfirmed\<rparr>
            | Some cached \<Rightarrow>
              if cached > inp then base\<lparr>price_issue := Cache_read_unconfirmed\<rparr>
              else if cached \<noteq> 0 \<and> r_cached rt = None then base\<lparr>price_issue := Cache_rate_unconfirmed\<rparr>
              else if c_written row \<noteq> PNone \<and>
                  (case token_number (c_written row) of None \<Rightarrow> True | Some w \<Rightarrow> w > inp - cached)
                then base\<lparr>price_issue := Cache_write_out_of_range\<rparr>
              else if c_input_conflict row then p\<lparr>price_issue := Input_conflict\<rparr>
              else if c_written row = PNone \<and> r_written rt \<noteq> None
                then base\<lparr>price_issue := Cache_write_unconfirmed\<rparr>
              else input_priced rt inp cached (token_number (c_written row)) p)
       | _ \<Rightarrow> base\<lparr>price_issue := Input_output_unconfirmed\<rparr>))"

definition price_issues :: "call \<Rightarrow> price \<Rightarrow> issue list" where
  "price_issues row res =
    (if k_cost res \<noteq> None then [] else
     let m = resolve (c_model row); mode = request_tier row; rt = request_rate row;
         inp = token_number (c_input row); cached = token_number (c_cached row);
         outp = token_number (c_output row); written = token_number (c_written row);
         issues =
           (if mihw_model m then [Model_unconfirmed]
            else if \<not> in_rates m then [Model_rate_unconfirmed] else []) @
           (if mode = mihwagin then [Mode_unconfirmed]
            else if mode \<noteq> ''Standard'' \<and> mode \<noteq> ''Fast'' then [Mode_unsupported]
            else if in_rates m \<and> rt = None then [Multiplier_unconfirmed] else []) @
           (if inp = None then [Input_unconfirmed] else []) @
           (if outp = None then [Output_unconfirmed] else []) @
           (if cached = None then [Cache_read_unconfirmed]
            else if exceeds cached inp then [Cache_read_out_of_range] else []) @
           (if c_input_conflict row then [Input_conflict] else []) @
           (if c_written row \<noteq> PNone \<and> (written = None \<or>
                (case (inp, cached, written) of (Some i, Some c, Some w) \<Rightarrow> w > i - c | _ \<Rightarrow> False))
            then [Cache_write_out_of_range]
            else if c_written row = PNone \<and> (case rt of Some r \<Rightarrow> r_written r \<noteq> None | None \<Rightarrow> False)
            then [Cache_write_unconfirmed] else []) @
           (if (case rt of Some r \<Rightarrow> truthy (c_cached row) \<and> r_cached r = None | None \<Rightarrow> False)
            then [Cache_read_rate_unsupported] else [])
     in if issues = [] then [price_issue res] else issues)"

definition token_cost :: "call \<Rightarrow> price \<times> issue list" where
  "token_cost row = (let res = token_cost_base row in (res, price_issues row res))"

section \<open>Totals and scenarios\<close>

datatype cost_key = K_cost | K_input | K_uncached | K_cached | K_written | K_unclassified
  | K_output | K_reasoning | K_non_reasoning

definition COST_KEYS :: "cost_key list" where
  "COST_KEYS = [K_cost, K_input, K_uncached, K_cached, K_written, K_unclassified, K_output,
    K_reasoning, K_non_reasoning]"

fun cost_field :: "cost_key \<Rightarrow> price \<Rightarrow> rat option" where
  "cost_field K_cost p = k_cost p"
| "cost_field K_input p = k_input p"
| "cost_field K_uncached p = k_uncached p"
| "cost_field K_cached p = k_cached p"
| "cost_field K_written p = k_written p"
| "cost_field K_unclassified p = k_unclassified p"
| "cost_field K_output p = k_output p"
| "cost_field K_reasoning p = k_reasoning p"
| "cost_field K_non_reasoning p = k_non_reasoning p"

definition known_costs :: "rat option list \<Rightarrow> rat list" where
  "known_costs vs = List.map_filter id vs"

definition sum_cost :: "bool \<Rightarrow> price list \<Rightarrow> (cost_key \<times> rat option) list" where
  "sum_cost strict rows = map (\<lambda>k.
     (k, let known = known_costs (map (cost_field k) rows)
         in if (strict \<and> length known \<noteq> length rows) \<or> (rows \<noteq> [] \<and> known = []) then None
            else Some (sum_list known))) COST_KEYS"

record assumption =
  a_total :: "rat option"
  a_partial_sum :: "rat option"
  a_n :: nat
  a_N :: nat
  a_missing :: nat

definition assume_mode :: "string \<Rightarrow> call \<Rightarrow> call" where
  "assume_mode mode r = r\<lparr>c_service_tier := Some mode, c_mode_conflict := False,
     c_service_tier_source := Some ''assumption''\<rparr>"

definition mode_assumption :: "string \<Rightarrow> call list \<Rightarrow> assumption" where
  "mode_assumption mode unknown =
    (let values = map (\<lambda>r. k_cost (fst (token_cost (assume_mode mode r)))) unknown;
         known = known_costs values
     in \<lparr>a_total = (if length known = length values then Some (sum_list known) else None),
         a_partial_sum = (if known \<noteq> [] \<or> values = [] then Some (sum_list known) else None),
         a_n = length known, a_N = length values, a_missing = length values - length known\<rparr>)"

definition mode_assumptions :: "call list \<Rightarrow> (string \<times> assumption) list" where
  "mode_assumptions rows =
    (let unknown = filter (\<lambda>r. request_tier r = mihwagin) rows
     in map (\<lambda>mode. (mode, mode_assumption mode unknown)) [''Standard'', ''Fast''])"

section \<open>Facts\<close>

lemmas tier_simps = request_tier_def mihwagin_def str_or_def

lemma rate_cases:
  assumes "map_of RATES s = Some r"
  shows "0 < r_input r \<and> 0 < r_output r \<and> (\<forall>v. r_cached r = Some v \<longrightarrow> 0 < v \<and> v < r_input r) \<and>
    (\<forall>v. r_written r = Some v \<longrightarrow> r_input r < v)"
  using assms by (auto simp: RATES_def mk_rate_def split: if_splits)

lemma standard_rate_pos:
  assumes "standard_rate m = Some r"
  shows "0 < r_input r \<and> 0 < r_output r \<and> (\<forall>v. r_cached r = Some v \<longrightarrow> 0 < v \<and> v < r_input r) \<and>
    (\<forall>v. r_written r = Some v \<longrightarrow> r_input r < v)"
  using assms by (auto simp: standard_rate_def split: option.splits dest: rate_cases)

lemma fast_rate_scaled:
  "fast_rate (resolve m) = Some r \<Longrightarrow> \<exists>s. standard_rate m = Some s \<and> r = scale_rate FAST_MULTIPLIER s"
  by (auto simp: fast_rate_def standard_rate_def fast_multiplier_def split: option.splits if_splits)

lemma request_rate_pos:
  assumes "request_rate row = Some r"
  shows "0 < r_input r \<and> 0 < r_output r \<and> (\<forall>v. r_cached r = Some v \<longrightarrow> 0 < v) \<and>
    (\<forall>v. r_written r = Some v \<longrightarrow> 0 < v)"
proof (cases "request_tier row = ''Fast''")
  case True
  with assms obtain s where "standard_rate (c_model row) = Some s" "r = scale_rate FAST_MULTIPLIER s"
    by (auto simp: request_rate_def split: if_splits dest: fast_rate_scaled)
  with standard_rate_pos show ?thesis
    by (fastforce simp: scale_rate_def FAST_MULTIPLIER_def)
next
  case False
  with assms have "standard_rate (c_model row) = Some r"
    by (auto simp: request_rate_def split: if_splits)
  with standard_rate_pos show ?thesis by fastforce
qed


text \<open>What a priced call has passed: the shape of every result with a cost.\<close>

lemma output_priced_fields [simp]:
  "k_cost (output_priced rt q k p) = k_cost p"
  "k_output (output_priced rt q k p) = Some (of_int k * r_output rt / million)"
  "price_issue (output_priced rt q k p) = price_issue p"
  by (simp_all add: output_priced_def Let_def split: option.split)

lemma no_price_fields [simp]: "k_cost (no_price m t) = None" "price_issue (no_price m t) = No_issue"
  by (simp_all add: no_price_def)

lemma input_priced_issue [simp]: "price_issue (input_priced rt i c w p) = price_issue p"
  by (simp add: input_priced_def Let_def)

definition written_ok :: "rate \<Rightarrow> pyval \<Rightarrow> int \<Rightarrow> bool" where
  "written_ok rt v rest = (case token_number v of Some w \<Rightarrow> w \<le> rest | None \<Rightarrow> v = PNone \<and> r_written rt = None)"

lemma token_cost_base_complete:
  assumes "request_rate row = Some rt" "token_number (c_input row) = Some inp"
    "token_number (c_output row) = Some outp" "token_number (c_cached row) = Some cached"
    "cached \<le> inp" "cached = 0 \<or> r_cached rt \<noteq> None" "written_ok rt (c_written row) (inp - cached)"
    "\<not> c_input_conflict row" "request_tier row = ''Fast'' \<or> request_tier row = ''Standard''"
  shows "token_cost_base row = input_priced rt inp cached (token_number (c_written row))
      (output_priced rt (c_reasoning row) outp (no_price (resolve (c_model row)) (request_tier row)))"
  using assms
  by (cases "c_written row") (auto simp: token_cost_base_def Let_def written_ok_def)

lemma token_cost_base_priced:
  assumes "k_cost (token_cost_base row) \<noteq> None"
  shows "\<exists>rt inp outp cached. request_rate row = Some rt \<and>
    token_number (c_input row) = Some inp \<and> token_number (c_output row) = Some outp \<and>
    token_number (c_cached row) = Some cached \<and> cached \<le> inp \<and>
    (cached = 0 \<or> r_cached rt \<noteq> None) \<and> written_ok rt (c_written row) (inp - cached) \<and>
    \<not> c_input_conflict row \<and> request_tier row \<in> {''Fast'', ''Standard''} \<and>
    token_cost_base row = input_priced rt inp cached (token_number (c_written row))
      (output_priced rt (c_reasoning row) outp (no_price (resolve (c_model row)) (request_tier row)))"
proof -
  have tier: "\<not> (request_tier row \<noteq> ''Fast'' \<and> request_tier row \<noteq> ''Standard'')"
    using assms by (rule contrapos_nn) (simp add: token_cost_base_def Let_def)
  obtain rt where rt: "request_rate row = Some rt"
    using assms tier by (cases "request_rate row") (simp_all add: token_cost_base_def Let_def)
  obtain inp where inp: "token_number (c_input row) = Some inp"
    using assms tier rt by (cases "token_number (c_input row)") (simp_all add: token_cost_base_def Let_def)
  obtain outp where outp: "token_number (c_output row) = Some outp"
    using assms tier rt inp by (cases "token_number (c_output row)") (simp_all add: token_cost_base_def Let_def)
  obtain cached where cached: "token_number (c_cached row) = Some cached"
    using assms tier rt inp outp by (cases "token_number (c_cached row)") (simp_all add: token_cost_base_def Let_def)
  note known = tier rt inp outp cached
  have le: "\<not> cached > inp"
    using assms by (rule contrapos_nn) (simp add: token_cost_base_def Let_def known)
  have cr: "\<not> (cached \<noteq> 0 \<and> r_cached rt = None)"
    using assms by (rule contrapos_nn) (use le in \<open>simp add: token_cost_base_def Let_def known\<close>)
  have wr: "\<not> (c_written row \<noteq> PNone \<and>
      (case token_number (c_written row) of None \<Rightarrow> True | Some w \<Rightarrow> w > inp - cached))"
    using assms by (rule contrapos_nn) (use le cr in \<open>simp add: token_cost_base_def Let_def known\<close>)
  have ic: "\<not> c_input_conflict row"
    using assms by (rule contrapos_nn) (use le cr wr in \<open>simp add: token_cost_base_def Let_def known\<close>)
  have wn: "\<not> (c_written row = PNone \<and> r_written rt \<noteq> None)"
    using assms by (rule contrapos_nn) (use le cr wr ic in \<open>simp add: token_cost_base_def Let_def known\<close>)
  have ok: "written_ok rt (c_written row) (inp - cached)"
    using wr wn by (auto simp: written_ok_def split: option.splits)
  have eq: "token_cost_base row = input_priced rt inp cached (token_number (c_written row))
      (output_priced rt (c_reasoning row) outp (no_price (resolve (c_model row)) (request_tier row)))"
    using le cr ok ic tier by (intro token_cost_base_complete [OF rt inp outp cached]) auto
  show ?thesis using known le cr ok ic eq by auto
qed

lemma token_cost_base_issue:
  assumes "k_cost (token_cost_base row) = None"
  shows "price_issue (token_cost_base row) \<noteq> No_issue"
  using assms
  by (auto simp: token_cost_base_def Let_def input_priced_def split: option.splits if_splits)

lemma million_pos [simp]: "0 < million" "0 \<le> million"
  by (simp_all add: million_def)

text \<open>The amount, written out over the four input classes and the output.\<close>

definition class_cost :: "rate \<Rightarrow> int \<Rightarrow> int \<Rightarrow> int option \<Rightarrow> int \<Rightarrow> rat" where
  "class_cost rt inp cached written outp =
    (of_int (inp - cached - or_zero written) * r_input rt +
     of_int cached * (case r_cached rt of Some v \<Rightarrow> v | None \<Rightarrow> 0) +
     of_int (or_zero written) * (case r_written rt of Some v \<Rightarrow> v | None \<Rightarrow> r_input rt) +
     of_int outp * r_output rt) / million"

lemma input_priced_cost [simp]:
  "k_cost (input_priced rt inp cached written (output_priced rt q outp p)) = Some (class_cost rt inp cached written outp)"
  by (cases written) (simp_all add: input_priced_def Let_def class_cost_def or_zero_def add_divide_distrib)

lemma class_cost_scale: "class_cost (scale_rate f rt) inp c w k = f * class_cost rt inp c w k"
  by (simp add: class_cost_def scale_rate_def algebra_simps split: option.split)

lemma written_ok_scale [simp]: "written_ok (scale_rate f rt) v n = written_ok rt v n"
  by (simp add: written_ok_def scale_rate_def split: option.split)

lemma token_cost_class:
  assumes "k_cost (token_cost_base row) = Some c"
  shows "\<exists>rt inp outp cached. request_rate row = Some rt \<and> token_number (c_input row) = Some inp \<and>
    token_number (c_output row) = Some outp \<and> token_number (c_cached row) = Some cached \<and>
    c = class_cost rt inp cached (token_number (c_written row)) outp"
  using token_cost_base_priced [of row] assms
  by auto

text \<open>Requests as priced under an assumed mode.\<close>

lemma request_tier_assumed [simp]:
  "request_tier (assume_mode ''Standard'' r) = ''Standard''"
  "request_tier (assume_mode ''Fast'' r) = ''Fast''"
  by (simp_all add: assume_mode_def tier_simps)

lemma assume_mode_fields [simp]:
  "c_model (assume_mode m r) = c_model r" "c_input (assume_mode m r) = c_input r"
  "c_output (assume_mode m r) = c_output r" "c_cached (assume_mode m r) = c_cached r"
  "c_written (assume_mode m r) = c_written r" "c_reasoning (assume_mode m r) = c_reasoning r"
  "c_input_conflict (assume_mode m r) = c_input_conflict r"
  by (simp_all add: assume_mode_def)

lemma request_rate_assumed_standard:
  "request_rate (assume_mode ''Standard'' r) = standard_rate (c_model r)"
  by (auto simp: request_rate_def subscription_multiplier_def)

lemma request_rate_assumed_fast:
  "request_rate (assume_mode ''Fast'' r) = Some rt \<Longrightarrow>
    \<exists>s. standard_rate (c_model r) = Some s \<and> rt = scale_rate FAST_MULTIPLIER s"
  by (auto simp: request_rate_def split: if_splits dest: fast_rate_scaled)

lemma fast_cost_scaled:
  assumes "k_cost (token_cost_base (assume_mode ''Fast'' r)) = Some f"
  shows "\<exists>s. k_cost (token_cost_base (assume_mode ''Standard'' r)) = Some s \<and> f = FAST_MULTIPLIER * s"
proof -
  from token_cost_base_priced [of "assume_mode ''Fast'' r"] assms
  obtain rt inp outp cached where p: "request_rate (assume_mode ''Fast'' r) = Some rt"
      "token_number (c_input r) = Some inp" "token_number (c_output r) = Some outp"
      "token_number (c_cached r) = Some cached" "cached \<le> inp" "cached = 0 \<or> r_cached rt \<noteq> None"
      "written_ok rt (c_written r) (inp - cached)" "\<not> c_input_conflict r"
    and f: "f = class_cost rt inp cached (token_number (c_written r)) outp"
    by auto
  from request_rate_assumed_fast [OF p(1)] obtain s
    where s: "standard_rate (c_model r) = Some s" "rt = scale_rate FAST_MULTIPLIER s" by blast
  have "token_cost_base (assume_mode ''Standard'' r) = input_priced s inp cached (token_number (c_written r))
      (output_priced s (c_reasoning r) outp (no_price (resolve (c_model r)) ''Standard''))"
    using p s by (subst token_cost_base_complete [where rt = s and inp = inp and outp = outp and cached = cached])
      (auto simp: request_rate_assumed_standard scale_rate_def [of _ s] written_ok_def split: option.splits)
  then have "k_cost (token_cost_base (assume_mode ''Standard'' r)) =
      Some (class_cost s inp cached (token_number (c_written r)) outp)"
    by simp
  with f s(2) show ?thesis by (simp add: class_cost_scale)
qed

lemma written_ok_bound: "written_ok rt v n \<Longrightarrow> 0 \<le> n \<Longrightarrow> 0 \<le> or_zero (token_number v) \<and> or_zero (token_number v) \<le> n"
  by (auto simp: written_ok_def or_zero_def token_number_nonneg split: option.splits dest: token_number_nonneg)

lemma class_cost_nonneg:
  assumes "0 < r_input rt" "0 < r_output rt" "\<forall>v. r_cached rt = Some v \<longrightarrow> 0 < v"
    "\<forall>v. r_written rt = Some v \<longrightarrow> 0 < v" "0 \<le> cached" "0 \<le> outp"
    "0 \<le> or_zero w" "or_zero w \<le> inp - cached"
  shows "0 \<le> class_cost rt inp cached w outp"
proof -
  have "0 \<le> (case r_cached rt of Some v \<Rightarrow> v | None \<Rightarrow> 0)" "0 \<le> (case r_written rt of Some v \<Rightarrow> v | None \<Rightarrow> r_input rt)"
    using assms(1,3,4) by (force split: option.split)+
  moreover have "(0::rat) \<le> of_int (inp - cached - or_zero w)" "(0::rat) \<le> of_int cached"
      "(0::rat) \<le> of_int (or_zero w)" "(0::rat) \<le> of_int outp"
    using assms(5-8) by simp_all
  ultimately show ?thesis
    unfolding class_cost_def using assms(1,2)
    by (intro divide_nonneg_nonneg add_nonneg_nonneg mult_nonneg_nonneg) auto
qed

lemma token_cost_nonneg:
  assumes "k_cost (token_cost_base row) = Some c"
  shows "0 \<le> c"
proof -
  from token_cost_base_priced [of row] assms
  obtain rt inp outp cached where p: "request_rate row = Some rt"
      "token_number (c_output row) = Some outp" "token_number (c_cached row) = Some cached"
      "cached \<le> inp" "written_ok rt (c_written row) (inp - cached)"
    and c: "c = class_cost rt inp cached (token_number (c_written row)) outp"
    by auto
  from p(4) written_ok_bound [OF p(5)] have "0 \<le> or_zero (token_number (c_written row))"
    "or_zero (token_number (c_written row)) \<le> inp - cached" by simp_all
  with request_rate_pos [OF p(1)] p(2,3) show ?thesis
    unfolding c by (intro class_cost_nonneg) (auto dest: token_number_nonneg)
qed

lemma price_issues_nonempty: "k_cost res = None \<Longrightarrow> price_issues row res \<noteq> []"
  by (simp add: price_issues_def Let_def)

lemma price_issues_iff: "price_issues row res = [] \<longleftrightarrow> k_cost res \<noteq> None"
  using price_issues_nonempty by (auto simp: price_issues_def)

lemma price_issues_proper:
  assumes "k_cost (token_cost_base row) = None"
  shows "No_issue \<notin> set (price_issues row (token_cost_base row))"
  using token_cost_base_issue [OF assms]
  by (simp add: price_issues_def Let_def split: if_splits option.splits)

subsection \<open>Totals\<close>

lemma known_costs_simps [simp]:
  "known_costs [] = []"
  "known_costs (None # vs) = known_costs vs"
  "known_costs (Some x # vs) = x # known_costs vs"
  by (simp_all add: known_costs_def List.map_filter_def)

lemma length_known_costs: "length (known_costs vs) = length (filter (\<lambda>v. v \<noteq> None) vs)"
  by (induction vs) (auto simp: known_costs_def List.map_filter_def)

lemma known_costs_append [simp]: "known_costs (vs @ ws) = known_costs vs @ known_costs ws"
  by (simp add: known_costs_def List.map_filter_def)

lemma known_costs_map: "length (known_costs vs) = length vs \<longleftrightarrow> None \<notin> set vs"
proof (induction vs)
  case (Cons v vs)
  have "length (known_costs vs) \<le> length vs" by (simp add: length_known_costs)
  with Cons show ?case by (cases v) auto
qed simp

lemma sum_cost_field:
  "map_of (sum_cost strict rows) k =
    Some (let known = known_costs (map (cost_field k) rows)
      in if (strict \<and> length known \<noteq> length rows) \<or> (rows \<noteq> [] \<and> known = []) then None else Some (sum_list known))"
  by (cases k) (simp_all add: sum_cost_def COST_KEYS_def)

section \<open>Examples\<close>

text \<open>A call of the Standard tier, for concrete instances.\<close>

definition sample_call :: "string \<Rightarrow> int \<Rightarrow> int \<Rightarrow> int \<Rightarrow> call" where
  "sample_call model i c k = \<lparr>c_key = ''k'', c_home = ''h'', c_sid = ''s'', c_ts = 0, c_model = Some model, c_effort = Some ''high'',
     c_purpose = None, c_service_tier = Some ''default'', c_service_tier_source = None, c_cache_policy = None,
     c_compaction_epoch = None, c_input = PInt i, c_cached = PInt c, c_written = PInt 0, c_output = PInt k, c_reasoning = PNone,
     c_uncached = PNone, c_ordinary_input = PNone, c_non_reasoning = PNone, c_total = PNone, c_cost = None,
     c_input_conflict = False, c_output_conflict = False, c_mode_conflict = False, c_model_conflict = False,
     c_cache_policy_conflict = False, c_observation_missing = False\<rparr>"

section \<open>Further properties\<close>

text \<open>
  Where a call is priced at the Fast tier it is priced at the Standard tier too, and the Fast cost is the
  subscription multiplier (2.5) times the Standard cost.
\<close>

theorem fast_multiplies:
  assumes "k_cost (token_cost_base (assume_mode ''Fast'' r)) = Some f"
  shows "\<exists>s. k_cost (token_cost_base (assume_mode ''Standard'' r)) = Some s \<and> f = FAST_MULTIPLIER * s"
  using assms by (rule fast_cost_scaled)

theorem fast_multiplies_witness:
  "\<exists>f s. k_cost (token_cost_base (assume_mode ''Fast'' (sample_call ''gpt-5.5'' 1000 200 10))) = Some f \<and>
    k_cost (token_cost_base (assume_mode ''Standard'' (sample_call ''gpt-5.5'' 1000 200 10))) = Some s \<and> f = FAST_MULTIPLIER * s"
proof -
  have "k_cost (token_cost_base (assume_mode ''Fast'' (sample_call ''gpt-5.5'' 1000 200 10))) \<noteq> None" by code_simp
  then obtain f where f: "k_cost (token_cost_base (assume_mode ''Fast'' (sample_call ''gpt-5.5'' 1000 200 10))) = Some f" by blast
  then show ?thesis using fast_multiplies [OF f] by blast
qed

text \<open>
  A priced call has a supported rate and confirmed input, output and cache-read counts; its cost is the sum
  over the disjoint token classes at that rate, and is never negative.
\<close>

theorem cost_decomposition:
  assumes "k_cost (token_cost_base row) = Some c"
  shows "0 \<le> c \<and> (\<exists>rt inp outp cached. request_rate row = Some rt \<and> token_number (c_input row) = Some inp \<and>
    token_number (c_output row) = Some outp \<and> token_number (c_cached row) = Some cached \<and>
    c = class_cost rt inp cached (token_number (c_written row)) outp)"
  using token_cost_nonneg [OF assms] token_cost_class [OF assms] by blast

theorem cost_decomposition_witness:
  "\<exists>c. k_cost (token_cost_base (sample_call ''gpt-6-sol'' 1000 200 10)) = Some c \<and> 0 \<le> c"
proof -
  have "k_cost (token_cost_base (sample_call ''gpt-6-sol'' 1000 200 10)) \<noteq> None" by code_simp
  then obtain c where c: "k_cost (token_cost_base (sample_call ''gpt-6-sol'' 1000 200 10)) = Some c" by blast
  show ?thesis using cost_decomposition [OF c] c by blast
qed

text \<open>
  A call is without a cost exactly when the list of price issues is not empty, and no entry of that list is
  the empty issue.
\<close>

theorem missing_cost_explained:
  "(price_issues row (token_cost_base row) = []) = (k_cost (token_cost_base row) \<noteq> None) \<and>
   (No_issue \<in> set (price_issues row (token_cost_base row))) = False"
proof -
  have "No_issue \<notin> set (price_issues row (token_cost_base row))"
    using price_issues_proper price_issues_iff by (metis empty_iff empty_set)
  then show ?thesis by (simp add: price_issues_iff)
qed


end
