(* ===== verification/Ranges.thy ===== *)
theory Ranges
  imports Bisect Pricing "HOL-Library.Product_Lexorder"
begin

text \<open>
  Intervals of the quota accounting: merged exclusion ranges and the runs of
  observations that survive them (\<open>cachemonitor/quota_exclusions.py\<close>), and the request
  windows that pair local requests with observed allowance
  (\<open>cachemonitor/quota_attribution.py\<close>).
\<close>

section \<open>Merged ranges\<close>

text \<open>\<open>result[-1][1] = max(result[-1][1], hi)\<close>, or a new range.\<close>

definition merge_step :: "('a::linorder \<times> 'a) list \<Rightarrow> 'a \<times> 'a \<Rightarrow> ('a \<times> 'a) list" where
  "merge_step result x =
    (if result \<noteq> [] \<and> fst x \<le> snd (last result)
     then butlast result @ [(fst (last result), max (snd (last result)) (snd x))]
     else result @ [x])"

definition merged_ranges :: "('a::linorder \<times> 'a) list \<Rightarrow> ('a \<times> 'a) list" where
  "merged_ranges ranges = foldl merge_step [] (sort ranges)"

text \<open>The open edge \<open>(a, b)\<close> meets a range: \<open>any(lo < b and hi > a for lo, hi in ranges)\<close>.\<close>

definition hits :: "('a::linorder \<times> 'a) list \<Rightarrow> 'a \<Rightarrow> 'a \<Rightarrow> bool" where
  "hits ranges a b = list_ex (\<lambda>(lo, hi). lo < b \<and> a < hi) ranges"

definition covers :: "('a::linorder \<times> 'a) list \<Rightarrow> 'a \<Rightarrow> bool" where
  "covers ranges x = list_ex (\<lambda>(lo, hi). lo \<le> x \<and> x \<le> hi) ranges"

definition apart :: "('a::linorder \<times> 'a) list \<Rightarrow> bool" where
  "apart ranges = sorted_wrt (\<lambda>a b. snd a < fst b \<and> fst a \<le> fst b) ranges"

lemma hits_simps [simp]:
  "\<not> hits [] a b"
  "hits (r # rs) a b = (fst r < b \<and> a < snd r \<or> hits rs a b)"
  "hits (rs @ ss) a b = (hits rs a b \<or> hits ss a b)"
  by (auto simp: hits_def)

lemma covers_simps [simp]:
  "\<not> covers [] x"
  "covers (r # rs) x = (fst r \<le> x \<and> x \<le> snd r \<or> covers rs x)"
  "covers (rs @ ss) x = (covers rs x \<or> covers ss x)"
  by (auto simp: covers_def)

lemma hits_ex: "hits rs a b = (\<exists>r \<in> set rs. fst r < b \<and> a < snd r)"
  by (induction rs) auto

lemma hits_set: "set rs = set ss \<Longrightarrow> hits rs a b = hits ss a b"
  by (auto simp: hits_def list_ex_iff)

lemma covers_set: "set rs = set ss \<Longrightarrow> covers rs x = covers ss x"
  by (auto simp: covers_def list_ex_iff)

lemma merge_step_facts:
  assumes "apart acc" and "acc \<noteq> [] \<Longrightarrow> fst (last acc) \<le> fst x"
  shows "apart (merge_step acc x)"
    and "fst (last (merge_step acc x)) \<le> fst x"
    and "a < b \<Longrightarrow> hits (merge_step acc x) a b = (hits acc a b \<or> hits [x] a b)"
    and "covers (merge_step acc x) y = (covers acc y \<or> covers [x] y)"
proof -
  have all: "apart (merge_step acc x) \<and> fst (last (merge_step acc x)) \<le> fst x \<and>
    (a < b \<longrightarrow> hits (merge_step acc x) a b = (hits acc a b \<or> hits [x] a b)) \<and>
    (covers (merge_step acc x) y = (covers acc y \<or> covers [x] y))"
  proof (cases acc rule: rev_cases)
    case Nil
    then show ?thesis by (simp add: merge_step_def apart_def)
  next
    case (snoc ys l)
    then have ord: "fst l \<le> fst x" using assms(2) by simp
    have ap: "apart ys" "\<forall>r \<in> set ys. snd r < fst l \<and> fst r \<le> fst l"
      using assms(1) snoc by (auto simp: apart_def sorted_wrt_append)
    show ?thesis
    proof (cases "fst x \<le> snd l")
      case True
      then have "merge_step acc x = ys @ [(fst l, max (snd l) (snd x))]"
        using snoc by (simp add: merge_step_def)
      with True ord ap snoc show ?thesis
        by (auto simp: apart_def sorted_wrt_append max_def)
    next
      case False
      then have "merge_step acc x = acc @ [x]" using snoc by (simp add: merge_step_def)
      with False ord ap snoc show ?thesis
        by (fastforce simp: apart_def sorted_wrt_append)
    qed
  qed
  show "apart (merge_step acc x)" "fst (last (merge_step acc x)) \<le> fst x"
    "a < b \<Longrightarrow> hits (merge_step acc x) a b = (hits acc a b \<or> hits [x] a b)"
    "covers (merge_step acc x) y = (covers acc y \<or> covers [x] y)"
    using all by blast+
qed

lemma foldl_merge_step:
  assumes "sorted (map fst xs)" "apart acc" and "\<And>x. acc \<noteq> [] \<Longrightarrow> x \<in> set xs \<Longrightarrow> fst (last acc) \<le> fst x"
  shows "apart (foldl merge_step acc xs) \<and>
    (a < b \<longrightarrow> hits (foldl merge_step acc xs) a b = (hits acc a b \<or> hits xs a b)) \<and>
    (covers (foldl merge_step acc xs) y = (covers acc y \<or> covers xs y))"
  using assms
proof (induction xs arbitrary: acc)
  case (Cons x xs)
  have "acc \<noteq> [] \<Longrightarrow> fst (last acc) \<le> fst x" using Cons.prems(3) by simp
  note f = merge_step_facts [OF Cons.prems(2) this]
  have "fst (last (merge_step acc x)) \<le> fst z" if "z \<in> set xs" for z
    using f(2) that Cons.prems(1) by force
  then have "apart (foldl merge_step (merge_step acc x) xs) \<and>
    (a < b \<longrightarrow> hits (foldl merge_step (merge_step acc x) xs) a b = (hits (merge_step acc x) a b \<or> hits xs a b)) \<and>
    (covers (foldl merge_step (merge_step acc x) xs) y = (covers (merge_step acc x) y \<or> covers xs y))"
    using Cons.prems(1) f(1) by (intro Cons.IH) auto
  then show ?case using f(3) [of a b] f(4) [of y] by auto
qed simp

lemma sorted_map_fst_sort: "sorted xs \<Longrightarrow> sorted (map fst (xs :: ('a::linorder \<times> 'b::linorder) list))"
proof (induction xs)
  case (Cons x xs)
  then have "\<forall>y \<in> set xs. fst x \<le> fst y" by (auto simp: less_eq_prod_def order_less_imp_le)
  with Cons show ?case by simp
qed simp

lemma merged_ranges_apart: "apart (merged_ranges rs)"
  unfolding merged_ranges_def
  by (rule conjunct1 [OF foldl_merge_step]) (simp_all add: sorted_map_fst_sort apart_def)

lemma merged_ranges_hits: "a < b \<Longrightarrow> hits (merged_ranges rs) a b = hits rs a b"
  unfolding merged_ranges_def
  using foldl_merge_step [of "sort rs" "[]" a b undefined] hits_set [of "sort rs" rs a b]
  by (simp add: sorted_map_fst_sort apart_def)

lemma merged_ranges_covers: "covers (merged_ranges rs) x = covers rs x"
  unfolding merged_ranges_def
  using foldl_merge_step [of "sort rs" "[]" x x x] covers_set [of "sort rs" rs x]
  by (simp add: sorted_map_fst_sort apart_def)

text \<open>Every merged range starts and ends at an endpoint of a source range.\<close>

lemma merge_step_endpoints:
  assumes "\<forall>r \<in> set acc. fst r \<in> A \<and> snd r \<in> B" "fst x \<in> A" "snd x \<in> B"
  shows "\<forall>r \<in> set (merge_step acc x). fst r \<in> A \<and> snd r \<in> B"
proof (cases "acc \<noteq> [] \<and> fst x \<le> snd (last acc)")
  case True
  have "last acc \<in> set acc" using True by simp
  moreover have "\<forall>r \<in> set (butlast acc). fst r \<in> A \<and> snd r \<in> B"
    using assms(1) by (auto dest: in_set_butlastD)
  ultimately show ?thesis using True assms by (auto simp: merge_step_def max_def)
next
  case False
  then show ?thesis using assms by (auto simp: merge_step_def)
qed

lemma foldl_merge_step_endpoints:
  "\<forall>r \<in> set acc. fst r \<in> A \<and> snd r \<in> B \<Longrightarrow> \<forall>r \<in> set xs. fst r \<in> A \<and> snd r \<in> B \<Longrightarrow>
    \<forall>r \<in> set (foldl merge_step acc xs). fst r \<in> A \<and> snd r \<in> B"
proof (induction xs arbitrary: acc)
  case (Cons x xs)
  have "\<forall>r \<in> set (merge_step acc x). fst r \<in> A \<and> snd r \<in> B"
    by (rule merge_step_endpoints [OF Cons.prems(1)]) (use Cons.prems(2) in simp_all)
  from Cons.IH [OF this] Cons.prems(2) show ?case by simp
qed simp

lemma merged_ranges_endpoints:
  assumes "r \<in> set (merged_ranges rs)"
  shows "fst r \<in> fst ` set rs \<and> snd r \<in> snd ` set rs"
proof -
  have "\<forall>r \<in> set (sort rs). fst r \<in> fst ` set rs \<and> snd r \<in> snd ` set rs" by simp
  then have "\<forall>r \<in> set (merged_ranges rs). fst r \<in> fst ` set rs \<and> snd r \<in> snd ` set rs"
    unfolding merged_ranges_def by (rule foldl_merge_step_endpoints [rotated]) simp
  with assms show ?thesis by blast
qed

lemma merge_step_proper:
  assumes "\<forall>r \<in> set acc. fst r < snd r" "fst x < snd x"
  shows "\<forall>r \<in> set (merge_step acc x). fst r < snd r"
proof (cases acc rule: rev_cases)
  case (snoc ys l)
  with assms show ?thesis by (auto simp: merge_step_def less_max_iff_disj)
qed (use assms in \<open>simp add: merge_step_def\<close>)

lemma foldl_merge_step_proper:
  "\<forall>r \<in> set acc. fst r < snd r \<Longrightarrow> \<forall>r \<in> set xs. fst r < snd r \<Longrightarrow>
    \<forall>r \<in> set (foldl merge_step acc xs). fst r < snd r"
proof (induction xs arbitrary: acc)
  case (Cons x xs)
  have "\<forall>r \<in> set (merge_step acc x). fst r < snd r"
    using Cons.prems by (intro merge_step_proper) auto
  with Cons show ?case by simp
qed simp

lemma merged_ranges_proper: "\<forall>r \<in> set rs. fst r < snd r \<Longrightarrow> \<forall>r \<in> set (merged_ranges rs). fst r < snd r"
  unfolding merged_ranges_def by (rule foldl_merge_step_proper) auto

section \<open>User exclusions\<close>

record exclusion =
  x_home :: "string option"
  x_account :: string
  x_start :: rat
  x_end :: rat
  x_restored_at :: "rat option"

text \<open>
  A priced response of the cycle's ledger with the request it belongs to.
  \<open>w_local_request_start\<close> distinguishes an absent key from one holding \<open>None\<close>.
\<close>

record cost_row =
  w_call :: call
  w_uid :: "string option"
  w_request_start :: "rat option"
  w_local_request_start :: "rat option option"

record model_entry =
  me_model :: "string option"
  me_service_tier :: "string option"
  me_calls :: nat
  me_cost :: "rat option"
  me_priced :: nat
  me_separate :: bool

text \<open>
  A quota cycle: its identity, span, observed endpoints (time, used) and priced calls.
  An f-string over an identity and a time is a constructor of \<open>cycle_id\<close>;
  \<open>y_cost_complete_at\<close> and \<open>y_cycle_end\<close> are \<open>None\<close> where the key is absent.
\<close>

datatype cycle_id = Plain string | Kept cycle_id rat | Observed cycle_id rat | Local cycle_id rat

record cycle =
  y_id :: cycle_id
  y_account :: string
  y_start :: rat
  y_end :: rat
  y_endpoints :: "(rat \<times> rat) list"
  y_delta :: rat
  y_used_start :: rat
  y_used_end :: rat
  y_cost_rows :: "cost_row list"
  y_models :: "model_entry list"
  y_separate_models :: "string list"
  y_pending_usage_times :: "rat list"
  y_pending_usage_calls :: nat
  y_cost :: "rat option"
  y_cost_complete :: bool
  y_cost_complete_at :: "rat option option"
  y_priced_calls :: nat
  y_boundary_excluded_calls :: nat
  y_mode_standard_cost :: "rat option"
  y_unknown_mode_calls :: nat
  y_forward_tracking :: bool
  y_provisional :: bool
  y_local_attributed :: bool
  y_user_exclusions_applied :: bool
  y_observation_gaps_excluded :: bool
  y_blocked :: "string list"
  y_pending :: bool
  y_reset_pending :: bool
  y_live :: bool
  y_assumptions :: "string list"
  y_cycle_end :: "rat option"

record quota_report =
  q_account :: string
  q_home :: string
  q_exclusions :: "exclusion list"
  q_cycle_clears :: "exclusion list"

definition active_exclusions :: "quota_report \<Rightarrow> string option \<Rightarrow> exclusion list" where
  "active_exclusions report acct =
    (let a = (case acct of None \<Rightarrow> q_account report | Some x \<Rightarrow> x)
     in filter (\<lambda>r. x_restored_at r = None \<and> x_account r = a \<and>
          (q_home report = [] \<or> (case x_home r of None \<Rightarrow> True | Some h \<Rightarrow> h = q_home report)))
        (q_exclusions report))"

definition exclusion_ranges :: "exclusion list \<Rightarrow> (rat \<times> rat) list" where
  "exclusion_ranges records =
    foldl (\<lambda>merged row. merge_step merged (x_start row, x_end row)) []
      (sort_key (\<lambda>r. (x_start r, x_end r)) records)"

text \<open>Consecutive endpoints stay in one run unless the edge between them is excluded.\<close>

fun runs_from :: "(rat \<times> rat) list \<Rightarrow> (rat \<times> rat) list list \<Rightarrow> rat \<times> rat \<Rightarrow> (rat \<times> rat) list \<Rightarrow> (rat \<times> rat) list list" where
  "runs_from ranges runs previous [] = runs"
| "runs_from ranges runs previous (point # points) =
    runs_from ranges
      (if hits ranges (fst previous) (fst point) then runs @ [[point]]
       else butlast runs @ [last runs @ [point]]) point points"

definition cycle_ranges :: "quota_report \<Rightarrow> string \<Rightarrow> (rat \<times> rat) list" where
  "cycle_ranges report a = exclusion_ranges (active_exclusions report (Some a) @
     filter (\<lambda>r. x_account r = a) (q_cycle_clears report))"

definition runs_of :: "(rat \<times> rat) list \<Rightarrow> (rat \<times> rat) list \<Rightarrow> (rat \<times> rat) list list" where
  "runs_of ranges points = (case points of [] \<Rightarrow> [] | p # ps \<Rightarrow> runs_from ranges [[p]] p ps)"

definition retained_cycle :: "(cycle \<Rightarrow> rat \<Rightarrow> rat \<Rightarrow> cycle option) \<Rightarrow> quota_report \<Rightarrow> cycle \<Rightarrow> cycle list" where
  "retained_cycle clip report c =
    (let ranges = cycle_ranges report (y_account c) in
     if \<not> hits ranges (y_start c) (y_end c) then [c]
     else List.map_filter (\<lambda>run.
        if length run < 2 then None
        else map_option (\<lambda>part. part\<lparr>y_id := Kept (y_id c) (fst (hd run)), y_user_exclusions_applied := True\<rparr>)
               (clip c (fst (hd run)) (fst (last run))))
       (runs_of ranges (y_endpoints c)))"

definition retained_intervals :: "(cycle \<Rightarrow> rat \<Rightarrow> rat \<Rightarrow> cycle option) \<Rightarrow> quota_report \<Rightarrow> cycle list \<Rightarrow> cycle list" where
  "retained_intervals clip report cycles = concat (map (retained_cycle clip report) cycles)"

lemma exclusion_ranges_merged: "exclusion_ranges records = merged_ranges (map (\<lambda>r. (x_start r, x_end r)) records)"
proof -
  have "map (\<lambda>r. (x_start r, x_end r)) (sort_key (\<lambda>r. (x_start r, x_end r)) records)
      = sort (map (\<lambda>r. (x_start r, x_end r)) records)"
    by (rule properties_for_sort [symmetric, OF _ sorted_sort_key]) simp
  then show ?thesis
    unfolding exclusion_ranges_def merged_ranges_def by (metis foldl_map)
qed

text \<open>Adjacent elements of a list satisfy a relation.\<close>

definition edges :: "'a list \<Rightarrow> ('a \<times> 'a) list" where
  "edges xs = zip xs (tl xs)"

lemma edges_simps [simp]: "edges [] = []" "edges [x] = []" "edges (x # y # zs) = (x, y) # edges (y # zs)"
  by (simp_all add: edges_def)

lemma edges_snoc: "xs \<noteq> [] \<Longrightarrow> edges (xs @ [y]) = edges xs @ [(last xs, y)]"
  by (induction xs rule: induct_list012) auto

definition clean_run :: "(rat \<times> rat) list \<Rightarrow> (rat \<times> rat) list \<Rightarrow> bool" where
  "clean_run ranges run = (run \<noteq> [] \<and> (\<forall>(p, q) \<in> set (edges run). \<not> hits ranges (fst p) (fst q)))"

lemma clean_run_snoc:
  "run \<noteq> [] \<Longrightarrow> clean_run ranges (run @ [q]) = (clean_run ranges run \<and> \<not> hits ranges (fst (last run)) (fst q))"
  by (auto simp: clean_run_def edges_snoc)

lemma runs_from_facts:
  assumes "runs \<noteq> []" "\<forall>r \<in> set runs. clean_run ranges r" "last (last runs) = p"
  shows "(\<forall>r \<in> set (runs_from ranges runs p ps). clean_run ranges r) \<and>
    concat (runs_from ranges runs p ps) = concat runs @ ps"
  using assms
proof (induction ps arbitrary: runs p)
  case (Cons q ps)
  obtain rs r where rs: "runs = rs @ [r]" using Cons.prems(1) by (cases runs rule: rev_cases) auto
  with Cons.prems have r: "r \<noteq> []" "clean_run ranges r" "last r = p" by (auto simp: clean_run_def)
  show ?case
  proof (cases "hits ranges (fst p) (fst q)")
    case True
    have "(\<forall>r \<in> set (runs_from ranges (runs @ [[q]]) q ps). clean_run ranges r) \<and>
      concat (runs_from ranges (runs @ [[q]]) q ps) = concat (runs @ [[q]]) @ ps"
      using Cons.prems by (intro Cons.IH) (auto simp: clean_run_def)
    with True show ?thesis by simp
  next
    case False
    have "(\<forall>r \<in> set (runs_from ranges (rs @ [r @ [q]]) q ps). clean_run ranges r) \<and>
      concat (runs_from ranges (rs @ [r @ [q]]) q ps) = concat (rs @ [r @ [q]]) @ ps"
      using Cons.prems rs r False by (intro Cons.IH) (auto simp: clean_run_snoc)
    with False rs show ?thesis by simp
  qed
qed simp

lemma runs_of_clean: "r \<in> set (runs_of ranges points) \<Longrightarrow> clean_run ranges r"
  using runs_from_facts [of "[[p]]" ranges p ps for p ps]
  by (cases points) (auto simp: runs_of_def clean_run_def)

lemma runs_of_concat: "concat (runs_of ranges points) = points"
  using runs_from_facts [of "[[p]]" ranges p ps for p ps]
  by (cases points) (auto simp: runs_of_def clean_run_def)

lemma cycle_ranges_hits:
  assumes "a < b"
  shows "hits (cycle_ranges report acct) a b =
    (\<exists>r \<in> set (active_exclusions report (Some acct)) \<union> {r \<in> set (q_cycle_clears report). x_account r = acct}.
       x_start r < b \<and> a < x_end r)"
proof -
  have "hits (cycle_ranges report acct) a b = hits (map (\<lambda>r. (x_start r, x_end r))
      (active_exclusions report (Some acct) @ filter (\<lambda>r. x_account r = acct) (q_cycle_clears report))) a b"
    unfolding cycle_ranges_def exclusion_ranges_merged by (rule merged_ranges_hits [OF assms])
  then show ?thesis by (auto simp: hits_def list_ex_iff)
qed

section \<open>Further properties\<close>

text \<open>
  Merging user exclusions keeps exactly the excluded time: the merged ranges are disjoint and in order, and a
  point is covered by them exactly when it is covered by one of the records.
\<close>

theorem exclusion_merge_exact:
  "apart (exclusion_ranges records) \<and>
   covers (exclusion_ranges records) x = covers (map (\<lambda>r. (x_start r, x_end r)) records) x"
  by (simp add: exclusion_ranges_merged merged_ranges_apart merged_ranges_covers)

text \<open>
  Cutting a cycle at its exclusions loses no observation and duplicates none, and no edge inside a kept run
  touches an excluded range.
\<close>

theorem kept_runs_partition:
  "concat (runs_of ranges points) = points \<and> list_all (clean_run ranges) (runs_of ranges points)"
  by (simp add: runs_of_concat list_all_iff runs_of_clean)


end
