(* ===== verification/Windows.thy ===== *)
theory Windows
  imports Ranges
begin

text \<open>
  Selecting a part of a quota cycle: \<open>_clip_quota_interval\<close>, its native time index
  (\<open>native/src/quota.rs\<close>), \<open>_continuous_quota_intervals\<close> of
  \<open>cachemonitor/quota_cycles.py\<close>, and the request windows and the pairing of local
  requests with observations of \<open>cachemonitor/quota_attribution.py\<close>.
\<close>

section \<open>Clipping a cycle\<close>

definition row_ts :: "cost_row \<Rightarrow> rat" where "row_ts r = c_ts (w_call r)"
definition row_cost :: "cost_row \<Rightarrow> rat option" where "row_cost r = c_cost (w_call r)"

definition separate :: "cycle \<Rightarrow> cost_row \<Rightarrow> bool" where
  "separate c r = (case resolve (c_model (w_call r)) of None \<Rightarrow> False | Some m \<Rightarrow> m \<in> set (y_separate_models c))"

definition in_points :: "rat option \<Rightarrow> rat option \<Rightarrow> rat \<Rightarrow> bool" where
  "in_points start end t = ((case start of None \<Rightarrow> True | Some s \<Rightarrow> s \<le> t) \<and>
     (case end of None \<Rightarrow> True | Some e \<Rightarrow> t \<le> e))"

definition clip_model :: "cost_row list \<Rightarrow> model_entry \<Rightarrow> model_entry option" where
  "clip_model rows m =
    (let own = filter (\<lambda>r. c_model (w_call r) = me_model m \<and> c_service_tier (w_call r) = me_service_tier m) rows;
         known = known_costs (map row_cost own)
     in if own = [] then None
        else Some (m\<lparr>me_calls := length own, me_cost := (if known = [] then None else Some (sum_list known)),
                     me_priced := length known\<rparr>))"

definition alternative_cost :: "cost_row \<Rightarrow> rat option" where
  "alternative_cost r =
    (if c_service_tier (w_call r) = Some mihwagin
     then k_cost (fst (token_cost ((w_call r)\<lparr>c_service_tier := Some ''Standard''\<rparr>)))
     else row_cost r)"

text \<open>The sum of costs that are all known, of a non-empty list.\<close>

definition all_costs :: "rat option list \<Rightarrow> rat option" where
  "all_costs vs = (if vs \<noteq> [] \<and> None \<notin> set vs then Some (sum_list (known_costs vs)) else None)"

definition clip_cost :: "cycle \<Rightarrow> bool \<Rightarrow> rat list \<Rightarrow> cost_row list \<Rightarrow> rat option" where
  "clip_cost c full pending eligible =
    (if y_forward_tracking c then
       (let known = known_costs (map row_cost eligible)
        in if known \<noteq> [] then Some (sum_list known)
           else if eligible = [] \<and> full \<and> pending = [] then Some 0 else None)
     else all_costs (map row_cost eligible))"

definition clip_quota_interval ::
    "cycle \<Rightarrow> rat option \<Rightarrow> rat option \<Rightarrow> ((rat \<times> rat) list \<times> cost_row list) option \<Rightarrow> cycle option" where
  "clip_quota_interval c start end selection =
    (let endpoints = (case selection of Some (ps, _) \<Rightarrow> ps
                      | None \<Rightarrow> filter (\<lambda>p. in_points start end (fst p)) (y_endpoints c))
     in if length endpoints < 2 then None else
     (let lo = fst (hd endpoints); hi = fst (last endpoints);
          candidates = (case selection of Some (_, rs) \<Rightarrow> rs
                        | None \<Rightarrow> filter (\<lambda>r. lo < row_ts r \<and> row_ts r \<le> hi) (y_cost_rows c));
          rows = filter (\<lambda>r. case w_request_start r of None \<Rightarrow> True | Some s \<Rightarrow> lo \<le> s) candidates;
          models = List.map_filter (clip_model rows) (y_models c);
          eligible = filter (\<lambda>r. \<not> separate c r) rows;
          alternatives = map alternative_cost eligible;
          pending = filter (\<lambda>t. lo < t \<and> t \<le> hi) (y_pending_usage_times c);
          full = (case y_cost_complete_at c of None \<Rightarrow> y_cost_complete c
                      | Some None \<Rightarrow> False | Some (Some t) \<Rightarrow> hi \<le> t)
      in Some (c\<lparr>y_cost_complete := full, y_pending_usage_times := pending,
           y_pending_usage_calls := length pending, y_start := lo, y_end := hi,
           y_delta := snd (last endpoints) - snd (hd endpoints), y_models := models,
           y_endpoints := endpoints, y_cost_rows := rows, y_used_start := snd (hd endpoints),
           y_used_end := snd (last endpoints), y_cost := clip_cost c full pending eligible,
           y_priced_calls := length (filter (\<lambda>r. row_cost r \<noteq> None) eligible),
           y_boundary_excluded_calls := (if lo = y_start c then y_boundary_excluded_calls c else 0)
             + length candidates - length rows,
           y_mode_standard_cost := all_costs alternatives\<rparr>)))"

section \<open>The native index\<close>

text \<open>
  \<open>QuotaClipIndex\<close>: times are sorted together with their positions, a slice is cut by
  two partition points, and the positions are put back into record order.
\<close>

definition partition_point :: "('a \<Rightarrow> bool) \<Rightarrow> 'a list \<Rightarrow> nat" where
  "partition_point P xs = length (takeWhile P xs)"

definition ordered_times :: "rat list \<Rightarrow> (rat \<times> nat) list" where
  "ordered_times ts = sort (zip ts [0..<length ts])"

definition selected :: "(rat \<times> nat) list \<Rightarrow> rat \<Rightarrow> rat \<Rightarrow> bool \<Rightarrow> nat list" where
  "selected values start end left_open =
    (let lo = partition_point (\<lambda>v. if left_open then fst v \<le> start else fst v < start) values;
         hi = partition_point (\<lambda>v. fst v \<le> end) values
     in sort (map snd (drop (min lo hi) (take hi values))))"

definition select :: "(rat \<times> rat) list \<Rightarrow> cost_row list \<Rightarrow> rat \<Rightarrow> rat \<Rightarrow> (rat \<times> rat) list \<times> cost_row list" where
  "select endpoints rows start end =
    (let points = selected (ordered_times (map fst endpoints)) start end False;
         found = (if length points \<ge> 2
           then selected (ordered_times (map row_ts rows)) (fst (endpoints ! hd points)) (fst (endpoints ! last points)) True
           else [])
     in (map (\<lambda>i. endpoints ! i) points, map (\<lambda>i. rows ! i) found))"

definition exact_time :: "rat \<Rightarrow> bool" where
  "exact_time t = (\<bar>t\<bar> \<le> 9007199254740991)"

text \<open>The index is built for long cycles only, and its constructor may refuse a time.\<close>

definition quota_clipper :: "bool \<Rightarrow> cycle \<Rightarrow> rat \<Rightarrow> rat \<Rightarrow> cycle option" where
  "quota_clipper native c =
    (if native \<and> length (y_endpoints c) \<ge> 128 \<and> list_all (\<lambda>p. exact_time (fst p)) (y_endpoints c) \<and>
        list_all (\<lambda>r. exact_time (row_ts r)) (y_cost_rows c)
     then (\<lambda>start end. clip_quota_interval c (Some start) (Some end) (Some (select (y_endpoints c) (y_cost_rows c) start end)))
     else (\<lambda>start end. clip_quota_interval c (Some start) (Some end) None))"

lemma takeWhile_sorted_filter:
  assumes "sorted_wrt (\<lambda>x y. f x \<le> f y) xs" "\<And>x y. P y \<Longrightarrow> f x \<le> f y \<Longrightarrow> P x"
  shows "takeWhile P xs = filter P xs" "dropWhile P xs = filter (\<lambda>x. \<not> P x) xs"
proof -
  have "takeWhile P xs = filter P xs \<and> dropWhile P xs = filter (\<lambda>x. \<not> P x) xs"
    using assms(1)
  proof (induction xs)
    case (Cons x xs)
    show ?case
    proof (cases "P x")
      case False
      then have "\<forall>y \<in> set xs. \<not> P y" using Cons.prems assms(2) by auto
      with False show ?thesis by (auto simp: filter_id_conv filter_empty_conv intro: filter_True [symmetric])
    qed (use Cons in auto)
  qed simp
  then show "takeWhile P xs = filter P xs" "dropWhile P xs = filter (\<lambda>x. \<not> P x) xs" by auto
qed

lemma slice_sorted:
  fixes f :: "'a \<Rightarrow> 'b::linorder"
  assumes s: "sorted_wrt (\<lambda>x y. f x \<le> f y) xs"
    and L: "\<And>x y. L y \<Longrightarrow> f x \<le> f y \<Longrightarrow> L x" and A: "\<And>x y. A y \<Longrightarrow> f x \<le> f y \<Longrightarrow> A x"
  shows "drop (min (partition_point L xs) (partition_point A xs)) (take (partition_point A xs) xs)
    = filter (\<lambda>x. A x \<and> \<not> L x) xs"
proof -
  have tk: "take (partition_point A xs) xs = filter A xs"
    using takeWhile_eq_take [of A xs] takeWhile_sorted_filter(1) [OF s A] by (simp add: partition_point_def)
  have sA: "sorted_wrt (\<lambda>x y. f x \<le> f y) (filter A xs)" using s by (simp add: sorted_wrt_filter)
  have dr: "dropWhile L (filter A xs) = filter (\<lambda>x. \<not> L x) (filter A xs)"
    by (rule takeWhile_sorted_filter(2) [OF sA L])
  have lenA: "partition_point A xs = length (filter A xs)"
    by (simp add: partition_point_def takeWhile_sorted_filter(1) [OF s A])
  have "min (partition_point L xs) (partition_point A xs) = length (takeWhile L (filter A xs))"
  proof -
    have "takeWhile L (takeWhile A xs) = take (min (partition_point L xs) (partition_point A xs)) xs"
      by (induction xs) (auto simp: partition_point_def)
    then have "length (takeWhile L (filter A xs)) = length (take (min (partition_point L xs) (partition_point A xs)) xs)"
      by (simp add: takeWhile_sorted_filter(1) [OF s A])
    also have "\<dots> = min (partition_point L xs) (partition_point A xs)"
      using length_takeWhile_le [of L xs] by (simp add: partition_point_def)
    finally show ?thesis by simp
  qed
  with tk have "drop (min (partition_point L xs) (partition_point A xs)) (take (partition_point A xs) xs)
      = dropWhile L (filter A xs)"
    by (simp add: dropWhile_eq_drop)
  then show ?thesis by (simp add: dr conj_commute)
qed


lemma filter_nth_indices: "map (\<lambda>i. xs ! i) (filter (\<lambda>i. P (xs ! i)) [0..<length xs]) = filter P xs"
proof -
  have "filter P (map ((!) xs) [0..<length xs]) = map ((!) xs) (filter (P \<circ> (!) xs) [0..<length xs])"
    by (rule filter_map)
  then show ?thesis by (simp only: map_nth o_def)
qed

lemma selected_indices:
  "selected (ordered_times ts) s e b =
    filter (\<lambda>i. (if b then s < ts ! i else s \<le> ts ! i) \<and> ts ! i \<le> e) [0..<length ts]"
proof -
  let ?vs = "ordered_times ts"
  let ?L = "\<lambda>v. if b then fst v \<le> s else fst v < s" and ?A = "\<lambda>v. fst v \<le> e"
  have "sorted ?vs" by (simp add: ordered_times_def)
  then have "sorted (map fst ?vs)" by (rule sorted_map_fst_sort)
  then have sv: "sorted_wrt (\<lambda>x y. fst x \<le> fst y) ?vs" by (simp only: sorted_map)
  have sl: "drop (min (partition_point ?L ?vs) (partition_point ?A ?vs)) (take (partition_point ?A ?vs) ?vs)
      = filter (\<lambda>v. ?A v \<and> \<not> ?L v) ?vs"
    by (rule slice_sorted [OF sv]) (auto split: if_splits)
  have m: "mset ?vs = mset (map (\<lambda>i. (ts ! i, i)) [0..<length ts])"
  proof -
    have "zip ts [0..<length ts] = map (\<lambda>i. (ts ! i, i)) [0..<length ts]"
      by (rule nth_equalityI) auto
    then show ?thesis by (simp add: ordered_times_def)
  qed
  have "mset (map snd (filter (\<lambda>v. ?A v \<and> \<not> ?L v) ?vs)) =
      image_mset snd (filter_mset (\<lambda>v. ?A v \<and> \<not> ?L v) (mset ?vs))"
    by simp
  also have "\<dots> = mset (map snd (filter (\<lambda>v. ?A v \<and> \<not> ?L v) (map (\<lambda>i. (ts ! i, i)) [0..<length ts])))"
    unfolding m by (simp only: mset_map mset_filter)
  also have "map snd (filter (\<lambda>v. ?A v \<and> \<not> ?L v) (map (\<lambda>i. (ts ! i, i)) [0..<length ts])) =
      filter (\<lambda>i. (if b then s < ts ! i else s \<le> ts ! i) \<and> ts ! i \<le> e) [0..<length ts]"
    by (simp add: filter_map o_def) (rule filter_cong; auto)
  finally show ?thesis
    unfolding selected_def Let_def sl
    by (intro properties_for_sort) (simp_all add: sorted_filter [of id, simplified])
qed

lemma selected_values:
  "map (\<lambda>i. xs ! i) (selected (ordered_times (map f xs)) s e b) =
    filter (\<lambda>x. (if b then s < f x else s \<le> f x) \<and> f x \<le> e) xs"
proof -
  have "filter (\<lambda>i. (if b then s < map f xs ! i else s \<le> map f xs ! i) \<and> map f xs ! i \<le> e) [0..<length xs] =
      filter (\<lambda>i. (if b then s < f (xs ! i) else s \<le> f (xs ! i)) \<and> f (xs ! i) \<le> e) [0..<length xs]"
    by (rule filter_cong) auto
  then show ?thesis
    using filter_nth_indices [of xs "\<lambda>x. (if b then s < f x else s \<le> f x) \<and> f x \<le> e"]
    by (simp add: selected_indices)
qed

lemma select_points: "fst (select eps rows s e) = filter (\<lambda>p. s \<le> fst p \<and> fst p \<le> e) eps"
  using selected_values [of eps fst s e False] by (simp add: select_def Let_def)

lemma select_rows:
  assumes "length (fst (select eps rows s e)) \<ge> 2"
  shows "snd (select eps rows s e) =
    filter (\<lambda>r. fst (hd (fst (select eps rows s e))) < row_ts r \<and> row_ts r \<le> fst (last (fst (select eps rows s e)))) rows"
proof -
  let ?p = "selected (ordered_times (map fst eps)) s e False"
  have p: "fst (select eps rows s e) = map (\<lambda>i. eps ! i) ?p" by (simp add: select_def Let_def)
  with assms have n: "length ?p \<ge> 2" by simp
  then have ne: "?p \<noteq> []" by auto
  have "snd (select eps rows s e) = filter (\<lambda>r. fst (eps ! hd ?p) < row_ts r \<and> row_ts r \<le> fst (eps ! last ?p)) rows"
    using n selected_values [of rows row_ts "fst (eps ! hd ?p)" "fst (eps ! last ?p)" True]
    by (simp add: select_def Let_def)
  with p ne show ?thesis by (simp add: hd_map last_map)
qed

text \<open>The native index selects what the Python scan selects.\<close>

lemma quota_clipper_eq: "quota_clipper native c s e = clip_quota_interval c (Some s) (Some e) None"
proof -
  let ?sel = "select (y_endpoints c) (y_cost_rows c) s e"
  have pts: "fst ?sel = filter (\<lambda>p. in_points (Some s) (Some e) (fst p)) (y_endpoints c)"
    by (simp add: select_points in_points_def)
  obtain ps rs where sel: "?sel = (ps, rs)" by fastforce
  have ps: "ps = filter (\<lambda>p. in_points (Some s) (Some e) (fst p)) (y_endpoints c)"
    using pts sel by simp
  have rs: "\<not> length ps < 2 \<Longrightarrow> rs = filter (\<lambda>r. fst (hd ps) < row_ts r \<and> row_ts r \<le> fst (last ps)) (y_cost_rows c)"
    using select_rows [of "y_endpoints c" "y_cost_rows c" s e] sel by simp
  have "clip_quota_interval c (Some s) (Some e) (Some (ps, rs)) = clip_quota_interval c (Some s) (Some e) None"
  proof (cases "length ps < 2")
    case True
    with ps show ?thesis by (simp add: clip_quota_interval_def)
  next
    case False
    show ?thesis
      unfolding clip_quota_interval_def option.case prod.case ps [symmetric] Let_def rs [OF False] ..
  qed
  with sel show ?thesis by (simp add: quota_clipper_def)
qed


text \<open>What a clip keeps: endpoints and calls of the cycle, inside the bounds it was asked for.\<close>

lemma clip_quota_interval_SomeD:
  assumes "clip_quota_interval c s e None = Some d"
  shows "y_endpoints d = filter (\<lambda>p. in_points s e (fst p)) (y_endpoints c)" "length (y_endpoints d) \<ge> 2"
    "y_start d = fst (hd (y_endpoints d))" "y_end d = fst (last (y_endpoints d))"
    "y_delta d = snd (last (y_endpoints d)) - snd (hd (y_endpoints d))"
    "y_cost_rows d = filter (\<lambda>r. y_start d < row_ts r \<and> row_ts r \<le> y_end d \<and>
       (case w_request_start r of None \<Rightarrow> True | Some q \<Rightarrow> y_start d \<le> q)) (y_cost_rows c)"
    "y_priced_calls d = length (filter (\<lambda>r. row_cost r \<noteq> None) (filter (\<lambda>r. \<not> separate c r) (y_cost_rows d)))"
    "y_account d = y_account c" "y_id d = y_id c"
proof -
  have n: "\<not> length (filter (\<lambda>p. in_points s e (fst p)) (y_endpoints c)) < 2"
    using assms by (rule contrapos_pn) (simp add: clip_quota_interval_def)
  note d = assms [unfolded clip_quota_interval_def Let_def option.case if_not_P [OF n] option.inject, symmetric]
  show "y_endpoints d = filter (\<lambda>p. in_points s e (fst p)) (y_endpoints c)" by (simp add: d)
  then show "length (y_endpoints d) \<ge> 2" using n by simp
  show "y_start d = fst (hd (y_endpoints d))" "y_end d = fst (last (y_endpoints d))"
    "y_delta d = snd (last (y_endpoints d)) - snd (hd (y_endpoints d))"
    "y_priced_calls d = length (filter (\<lambda>r. row_cost r \<noteq> None) (filter (\<lambda>r. \<not> separate c r) (y_cost_rows d)))"
    "y_account d = y_account c" "y_id d = y_id c"
    by (simp_all add: d)
  show "y_cost_rows d = filter (\<lambda>r. y_start d < row_ts r \<and> row_ts r \<le> y_end d \<and>
       (case w_request_start r of None \<Rightarrow> True | Some q \<Rightarrow> y_start d \<le> q)) (y_cost_rows c)"
  proof -
    let ?ps = "filter (\<lambda>p. in_points s e (fst p)) (y_endpoints c)"
    have st: "y_start d = fst (hd ?ps)" and en: "y_end d = fst (last ?ps)" by (simp_all add: d)
    have "y_cost_rows d = filter (\<lambda>r. case w_request_start r of None \<Rightarrow> True | Some q \<Rightarrow> fst (hd ?ps) \<le> q)
        (filter (\<lambda>r. fst (hd ?ps) < row_ts r \<and> row_ts r \<le> fst (last ?ps)) (y_cost_rows c))"
      by (simp add: d)
    then show ?thesis unfolding st en filter_filter by (simp only: conj_assoc)
  qed
qed

section \<open>Continuous intervals\<close>

definition OBSERVATION_FRESHNESS :: rat where "OBSERVATION_FRESHNESS = 120"

definition add_run :: "(rat \<times> rat) list \<Rightarrow> rat \<Rightarrow> (rat \<times> rat) list" where
  "add_run runs t =
    (if runs = [] \<or> t - snd (last runs) > OBSERVATION_FRESHNESS then runs @ [(t, t)]
     else butlast runs @ [(fst (last runs), t)])"

definition observed_runs :: "rat list \<Rightarrow> (rat \<times> rat) list" where
  "observed_runs ts = foldl add_run [] ts"

definition continuous_cycle :: "bool \<Rightarrow> cycle \<Rightarrow> cycle list" where
  "continuous_cycle native c =
    (let runs = observed_runs (map fst (y_endpoints c))
     in if length runs \<le> 1 then [c]
        else List.map_filter (\<lambda>(lo, hi). map_option
          (\<lambda>d. d\<lparr>y_id := Observed (y_id c) lo, y_observation_gaps_excluded := True\<rparr>)
          (quota_clipper native c lo hi)) runs)"

definition continuous_quota_intervals :: "bool \<Rightarrow> cycle list \<Rightarrow> cycle list" where
  "continuous_quota_intervals native cycles = concat (map (continuous_cycle native) cycles)"

text \<open>
  The runs are the maximal blocks of observations whose neighbours are at most two
  minutes apart; they are separated by the gaps.
\<close>

definition gapped :: "(rat \<times> rat) list \<Rightarrow> bool" where
  "gapped runs = (list_all (\<lambda>r. fst r \<le> snd r) runs \<and>
     sorted_wrt (\<lambda>a b. snd a + OBSERVATION_FRESHNESS < fst b) runs)"

lemma add_run_gapped:
  assumes "gapped runs" "\<And>r. r \<in> set runs \<Longrightarrow> snd r \<le> t" "runs \<noteq> [] \<Longrightarrow> snd (last runs) = m"
    "\<And>r. r \<in> set runs \<Longrightarrow> snd r \<le> m"
  shows "gapped (add_run runs t) \<and> (\<forall>r \<in> set (add_run runs t). snd r \<le> t) \<and> snd (last (add_run runs t)) = t"
proof (cases runs rule: rev_cases)
  case Nil
  then show ?thesis by (simp add: add_run_def gapped_def)
next
  case (snoc rs r)
  have r: "fst r \<le> snd r" "snd r \<le> t" "snd r = m" and rs: "gapped rs"
    and sep: "\<forall>a \<in> set rs. snd a + OBSERVATION_FRESHNESS < fst r"
    using assms(1) assms(2) [of r] assms(3) snoc by (simp_all add: gapped_def sorted_wrt_append)
  show ?thesis
  proof (cases "t - snd r > OBSERVATION_FRESHNESS")
    case True
    have "snd a + OBSERVATION_FRESHNESS < t" if "a \<in> set rs" for a
      using sep that r True by (force simp: OBSERVATION_FRESHNESS_def)
    with True snoc r rs sep assms(2) show ?thesis
      by (auto simp: add_run_def gapped_def sorted_wrt_append)
  next
    case False
    with snoc r rs sep assms(2) show ?thesis
      by (auto simp: add_run_def gapped_def sorted_wrt_append)
  qed
qed

lemma foldl_add_run:
  assumes "sorted ts" "gapped runs" "\<And>r t. r \<in> set runs \<Longrightarrow> t \<in> set ts \<Longrightarrow> snd r \<le> t"
    "\<And>r. r \<in> set runs \<Longrightarrow> snd r \<le> snd (last runs)"
  shows "gapped (foldl add_run runs ts)"
  using assms
proof (induction ts arbitrary: runs)
  case (Cons t ts)
  have "gapped (add_run runs t) \<and> (\<forall>r \<in> set (add_run runs t). snd r \<le> t) \<and> snd (last (add_run runs t)) = t"
    by (rule add_run_gapped [OF Cons.prems(2), of t "snd (last runs)"]) (use Cons.prems in auto)
  then have "gapped (foldl add_run (add_run runs t) ts)"
    using Cons.prems(1) by (intro Cons.IH) (auto intro: order_trans)
  then show ?case by simp
qed simp

lemma observed_runs_gapped: "sorted ts \<Longrightarrow> gapped (observed_runs ts)"
  unfolding observed_runs_def by (rule foldl_add_run) (auto simp: gapped_def)

section \<open>Claims\<close>

text \<open>
  C35: The clipper built on the native time index returns, for every cycle and window, what the Python
  clipping returns.
\<close>

theorem native_clip_equals_python:
  "quota_clipper native c s e = clip_quota_interval c (Some s) (Some e) None"
  by (rule quota_clipper_eq)

end
