(* ===== verification/Attribution.thy ===== *)
theory Attribution
  imports Windows
begin

text \<open>
  Pairing local requests with observed allowance (\<open>cachemonitor/quota_attribution.py\<close>):
  the request window index in its Python and native (\<open>native/src/quota.rs\<close>) form, and
  \<open>local_request_intervals\<close>, which splits a cycle's allowance into used, pending and idle.
\<close>

section \<open>Open ends\<close>

datatype until = At rat | Unbounded

fun not_after :: "until \<Rightarrow> until \<Rightarrow> bool" where
  "not_after _ Unbounded = True"
| "not_after Unbounded (At _) = False"
| "not_after (At a) (At b) = (a \<le> b)"

instantiation until :: linorder
begin

definition less_eq_until :: "until \<Rightarrow> until \<Rightarrow> bool" where
  "less_eq_until a b = not_after a b"

definition less_until :: "until \<Rightarrow> until \<Rightarrow> bool" where
  "less_until a b = (a \<le> b \<and> \<not> b \<le> (a::until))"

instance
proof
  fix x y z :: until
  show "x < y \<longleftrightarrow> x \<le> y \<and> \<not> y \<le> x" by (simp add: less_until_def)
  show "x \<le> x" by (cases x) (auto simp: less_eq_until_def)
  show "x \<le> y \<Longrightarrow> y \<le> z \<Longrightarrow> x \<le> z" by (cases x; cases y; cases z) (auto simp: less_eq_until_def)
  show "x \<le> y \<Longrightarrow> y \<le> x \<Longrightarrow> x = y" by (cases x; cases y) (auto simp: less_eq_until_def)
  show "x \<le> y \<or> y \<le> x" by (cases x; cases y) (auto simp: less_eq_until_def)
qed

end

lemma until_le_simps [simp]:
  "a \<le> Unbounded" "\<not> Unbounded \<le> At t" "At s \<le> At t \<longleftrightarrow> s \<le> t"
  by (simp_all add: less_eq_until_def)

section \<open>Request windows\<close>

record request =
  rq_uid :: string
  rq_start :: pyval
  rq_end :: pyval

text \<open>A packed source is referred to by location; otherwise the span holds the row itself.\<close>

datatype found = Row request | Location nat

type_synonym window_span = "rat \<times> until \<times> found"

definition span_of :: "bool \<Rightarrow> nat \<times> request \<Rightarrow> window_span option" where
  "span_of packed ir = (case ir of (i, row) \<Rightarrow>
     (let start = (if rq_start row = PNone then rq_end row else rq_start row);
          item = (if packed then Location i else Row row)
      in case finite_number start of None \<Rightarrow> None
         | Some s \<Rightarrow>
             if rq_end row = PNone then Some (s, Unbounded, item)
             else (case finite_number (rq_end row) of None \<Rightarrow> None
                   | Some e \<Rightarrow> if e < s then None else Some (s, At e, item))))"

definition spans :: "bool \<Rightarrow> request list \<Rightarrow> window_span list" where
  "spans packed requests = List.map_filter (span_of packed) (List.enumerate 0 requests)"

definition span_start :: "window_span \<Rightarrow> rat" where "span_start s = fst s"
definition span_until :: "window_span \<Rightarrow> until" where "span_until s = fst (snd s)"
definition span_item :: "window_span \<Rightarrow> found" where "span_item s = snd (snd s)"

text \<open>\<open>_python_index\<close> and the Python branch of \<open>_overlapping\<close>.\<close>

definition python_overlapping :: "window_span list \<Rightarrow> rat \<Rightarrow> rat \<Rightarrow> found list" where
  "python_overlapping ss start end =
    (let starts = sort_key span_start ss; ends = sort_key span_until ss;
         hi = bisect_right (map span_start starts) end;
         lo = bisect_left (map span_until ends) (At start)
     in if hi \<le> length ends - lo
        then map span_item (filter (\<lambda>s. At start \<le> span_until s) (take hi starts))
        else map span_item (filter (\<lambda>s. span_start s \<le> end) (drop lo ends)))"

text \<open>\<open>RequestWindows.overlapping\<close> of the native module.\<close>

definition native_overlapping :: "window_span list \<Rightarrow> rat \<Rightarrow> rat \<Rightarrow> found list" where
  "native_overlapping ss start end =
    (let starts = sort_key span_start ss; ends = sort_key span_until ss;
         hi = partition_point (\<lambda>s. span_start s \<le> end) starts;
         lo = partition_point (\<lambda>s. span_until s < At start) ends
     in if hi \<le> length ends - lo
        then map span_item (filter (\<lambda>s. At start \<le> span_until s) (take hi starts))
        else map span_item (filter (\<lambda>s. span_start s \<le> end) (drop lo ends)))"

definition exact_span :: "window_span \<Rightarrow> bool" where
  "exact_span s = (exact_time (span_start s) \<and> (case span_until s of Unbounded \<Rightarrow> True | At e \<Rightarrow> exact_time e))"

definition overlapping :: "bool \<Rightarrow> bool \<Rightarrow> request list \<Rightarrow> rat \<Rightarrow> rat \<Rightarrow> request list" where
  "overlapping native packed requests start end =
    (let ss = spans packed requests;
         items = (if native \<and> length ss \<ge> 128 \<and> list_all exact_span ss \<and> exact_time start \<and> exact_time end
                  then native_overlapping ss start end else python_overlapping ss start end)
     in map (\<lambda>f. case f of Row r \<Rightarrow> r | Location i \<Rightarrow> requests ! i) items)"

text \<open>What a request window is, without an index.\<close>

definition request_overlaps :: "rat \<Rightarrow> rat \<Rightarrow> request \<Rightarrow> bool" where
  "request_overlaps a b row = (case span_of False (0, row) of None \<Rightarrow> False
     | Some s \<Rightarrow> span_start s \<le> b \<and> At a \<le> span_until s)"

lemma partition_point_starts:
  "partition_point (\<lambda>s. span_start s \<le> b) (sort_key span_start ss) = bisect_right (map span_start (sort_key span_start ss)) b"
proof -
  let ?xs = "sort_key span_start ss"
  have s: "sorted (map span_start ?xs)" by simp
  have "length (take (bisect_right (map span_start ?xs) b) ?xs) = length (filter (\<lambda>s. span_start s \<le> b) ?xs)"
    by (simp only: take_bisect_right [OF s])
  moreover have "bisect_right (map span_start ?xs) b \<le> length ?xs" using bisect_right_spec(1) [OF s, of b] by simp
  moreover have "takeWhile (\<lambda>s. span_start s \<le> b) ?xs = filter (\<lambda>s. span_start s \<le> b) ?xs"
    using s by (intro takeWhile_sorted_filter(1) [where f = span_start]) (auto simp: sorted_map)
  ultimately show ?thesis by (simp add: partition_point_def)
qed

lemma partition_point_ends:
  "partition_point (\<lambda>s. span_until s < u) (sort_key span_until ss) = bisect_left (map span_until (sort_key span_until ss)) u"
proof -
  let ?xs = "sort_key span_until ss"
  have s: "sorted (map span_until ?xs)" by simp
  have "length (take (bisect_left (map span_until ?xs) u) ?xs) = length (filter (\<lambda>s. span_until s < u) ?xs)"
    by (simp only: take_bisect_left [OF s])
  moreover have "bisect_left (map span_until ?xs) u \<le> length ?xs" using bisect_left_spec(1) [OF s, of u] by simp
  moreover have "takeWhile (\<lambda>s. span_until s < u) ?xs = filter (\<lambda>s. span_until s < u) ?xs"
    using s by (intro takeWhile_sorted_filter(1) [where f = span_until]) (auto simp: sorted_map)
  ultimately show ?thesis by (simp add: partition_point_def)
qed

lemma native_overlapping_eq: "native_overlapping ss a b = python_overlapping ss a b"
  unfolding native_overlapping_def python_overlapping_def Let_def partition_point_starts partition_point_ends ..

lemma python_overlapping_mset:
  "mset (python_overlapping ss a b) =
    image_mset span_item (filter_mset (\<lambda>s. span_start s \<le> b \<and> At a \<le> span_until s) (mset ss))"
proof -
  let ?st = "sort_key span_start ss" and ?en = "sort_key span_until ss"
  have t: "take (bisect_right (map span_start ?st) b) ?st = filter (\<lambda>s. span_start s \<le> b) ?st"
    by (rule take_bisect_right) simp
  have d: "drop (bisect_left (map span_until ?en) (At a)) ?en = filter (\<lambda>s. At a \<le> span_until s) ?en"
    by (rule drop_bisect_left) simp
  have "mset (map span_item (filter (\<lambda>s. At a \<le> span_until s) (filter (\<lambda>s. span_start s \<le> b) ?st))) =
      image_mset span_item (filter_mset (\<lambda>s. span_start s \<le> b \<and> At a \<le> span_until s) (mset ss))"
    by (simp add: filter_filter_mset conj_commute)
  moreover have "mset (map span_item (filter (\<lambda>s. span_start s \<le> b) (filter (\<lambda>s. At a \<le> span_until s) ?en))) =
      image_mset span_item (filter_mset (\<lambda>s. span_start s \<le> b \<and> At a \<le> span_until s) (mset ss))"
    by (simp add: filter_filter_mset conj_commute)
  ultimately show ?thesis unfolding python_overlapping_def Let_def t d by (simp split: if_split)
qed

lemma map_filter_transfer:
  assumes "\<And>i. i \<in> set js \<Longrightarrow> (case f i of None \<Rightarrow> \<not> Q (g i) | Some s \<Rightarrow> Q (g i) = P s \<and> h s = g i)"
  shows "map h (filter P (List.map_filter f js)) = filter Q (map g js)"
  using assms
proof (induction js)
  case (Cons j js)
  have "case f j of None \<Rightarrow> \<not> Q (g j) | Some s \<Rightarrow> Q (g j) = P s \<and> h s = g j" using Cons.prems by simp
  moreover have "map h (filter P (List.map_filter f js)) = filter Q (map g js)"
    by (rule Cons.IH) (use Cons.prems in simp)
  ultimately show ?case by (cases "f j") (auto simp: List.map_filter_simps)
qed (simp add: List.map_filter_simps)

lemma overlapping_mset:
  "mset (overlapping native packed requests a b) = mset (filter (request_overlaps a b) requests)"
proof -
  let ?h = "\<lambda>f. case f of Row r \<Rightarrow> r | Location i \<Rightarrow> requests ! i"
  let ?P = "\<lambda>s. span_start s \<le> b \<and> At a \<le> span_until s"
  let ?js = "List.enumerate 0 requests"
  have "mset (overlapping native packed requests a b) =
      image_mset ?h (mset (python_overlapping (spans packed requests) a b))"
    by (simp add: overlapping_def Let_def native_overlapping_eq)
  also have "\<dots> = mset (map (?h \<circ> span_item) (filter ?P (spans packed requests)))"
    by (simp add: python_overlapping_mset image_mset.compositionality)
  also have "map (?h \<circ> span_item) (filter ?P (spans packed requests)) =
      filter (request_overlaps a b) (map snd ?js)"
    unfolding spans_def
  proof (rule map_filter_transfer)
    fix j assume "j \<in> set ?js"
    then obtain i where j: "j = (i, requests ! i)" by (auto simp: in_set_enumerate_eq) (metis prod.collapse)
    show "case span_of packed j of None \<Rightarrow> \<not> request_overlaps a b (snd j)
      | Some s \<Rightarrow> request_overlaps a b (snd j) = ?P s \<and> (?h \<circ> span_item) s = snd j"
      by (auto simp: j span_of_def Let_def request_overlaps_def span_start_def span_until_def span_item_def
          split: option.split)
  qed
  finally show ?thesis by simp
qed

section \<open>Local request intervals\<close>

type_synonym index_range = "nat \<times> nat"

definition py_time :: "rat option \<Rightarrow> pyval" where
  "py_time t = (case t of None \<Rightarrow> PNone | Some q \<Rightarrow> PFloat q)"

text \<open>\<open>bounds\<close>: the observations around a request, as positions in the endpoint list.\<close>

definition bounds_of :: "rat list \<Rightarrow> pyval \<Rightarrow> pyval \<Rightarrow> bool \<Rightarrow> index_range option" where
  "bounds_of ts start end pending =
    (let start1 = (if start = PNone then end else start);
         end1 = (if end = PNone then PFloat (last ts) else end)
     in case (finite_number start1, finite_number end1) of
       (Some s, Some e) \<Rightarrow>
         if e < s then None
         else if e < hd ts \<or> last ts < s then None
         else
          (let lo = int (bisect_left ts s) - 1; hi = bisect_left ts e
           in if \<not> pending \<and> (lo < 0 \<or> length ts \<le> hi) then None
              else (let lo1 = nat (max 0 lo); hi1 = min (length ts - 1) (hi + 1)
                    in if lo1 < hi1 then Some (lo1, hi1) else None))
     | _ \<Rightarrow> None)"

definition row_start :: "cost_row \<Rightarrow> rat option" where
  "row_start r = (case w_local_request_start r of Some v \<Rightarrow> v | None \<Rightarrow> w_request_start r)"

text \<open>How a priced or unpriced row enters the three lists of the first loop.\<close>

datatype placement = Candidate index_range | Blocked index_range | Unplaced

definition place_row :: "rat list \<Rightarrow> cost_row \<Rightarrow> placement" where
  "place_row ts r =
    (case bounds_of ts (py_time (row_start r)) (PFloat (row_ts r)) False of
       Some sp \<Rightarrow> if row_cost r \<noteq> None then Candidate sp else Blocked sp
     | None \<Rightarrow> (case bounds_of ts (py_time (row_start r)) (PFloat (row_ts r)) True of
         Some sp \<Rightarrow> Blocked sp | None \<Rightarrow> Unplaced))"

definition place_request :: "rat list \<Rightarrow> request \<Rightarrow> placement" where
  "place_request ts q = (case bounds_of ts (rq_start q) (rq_end q) True of Some sp \<Rightarrow> Blocked sp | None \<Rightarrow> Unplaced)"

fun candidate_span :: "placement \<Rightarrow> index_range option" where
  "candidate_span (Candidate s) = Some s"
| "candidate_span _ = None"

fun blocked_span :: "placement \<Rightarrow> index_range option" where
  "blocked_span (Blocked s) = Some s"
| "blocked_span _ = None"

fun placed_span :: "placement \<Rightarrow> index_range option" where
  "placed_span (Candidate s) = Some s"
| "placed_span (Blocked s) = Some s"
| "placed_span Unplaced = None"

definition known_ids :: "cycle \<Rightarrow> string list" where
  "known_ids c = List.map_filter (\<lambda>r. case w_uid r of None \<Rightarrow> None
     | Some u \<Rightarrow> if u \<noteq> [] \<and> (row_cost r \<noteq> None \<or> separate c r) then Some u else None) (y_cost_rows c)"

text \<open>\<open>overlaps\<close>: the first blocked range ending after the span decides.\<close>

definition overlaps :: "index_range list \<Rightarrow> index_range \<Rightarrow> bool" where
  "overlaps blocked sp =
    (let p = bisect_right (map snd blocked) (fst sp)
     in p < length blocked \<and> fst (blocked ! p) < snd sp)"

definition accept_span :: "rat list \<Rightarrow> index_range list \<Rightarrow> cost_row \<Rightarrow> index_range \<Rightarrow> index_range" where
  "accept_span ts blocked r sp =
    (if overlaps blocked sp then
       (let first_post = bisect_left ts (row_ts r); shorter = (fst sp, first_post)
        in if fst sp < first_post \<and> first_post < snd sp \<and> \<not> overlaps blocked shorter then shorter else sp)
     else sp)"

record diagnostics =
  d_idle_delta :: rat
  d_pending_delta :: rat
  d_unmatched_calls :: nat
  d_pending_windows :: nat

definition delta_of :: "(rat \<times> rat) list \<Rightarrow> index_range list \<Rightarrow> rat" where
  "delta_of points rs = sum_list (map (\<lambda>(lo, hi). max 0 (snd (points ! hi) - snd (points ! lo))) rs)"

definition eligible_rows :: "cycle \<Rightarrow> cost_row list" where
  "eligible_rows c = filter (\<lambda>r. \<not> separate c r) (y_cost_rows c)"

definition row_placements :: "cycle \<Rightarrow> placement list" where
  "row_placements c = map (place_row (map fst (y_endpoints c))) (eligible_rows c)"

definition request_placements :: "cycle \<Rightarrow> request list \<Rightarrow> placement list" where
  "request_placements c requests =
    map (place_request (map fst (y_endpoints c))) (filter (\<lambda>q. rq_uid q \<notin> set (known_ids c)) requests)"

definition blocked_ranges :: "cycle \<Rightarrow> request list \<Rightarrow> index_range list" where
  "blocked_ranges c requests =
    merged_ranges (List.map_filter blocked_span (row_placements c @ request_placements c requests))"

definition accepted_rows :: "cycle \<Rightarrow> request list \<Rightarrow> (index_range \<times> cost_row) list" where
  "accepted_rows c requests = List.map_filter
     (\<lambda>(r, p). map_option (\<lambda>sp. (accept_span (map fst (y_endpoints c)) (blocked_ranges c requests) r sp, r)) (candidate_span p))
     (zip (eligible_rows c) (row_placements c))"

definition local_source :: "cycle \<Rightarrow> cost_row list \<Rightarrow> cycle" where
  "local_source c sel = c\<lparr>y_cost_rows := map (\<lambda>r. r\<lparr>w_request_start := row_start r\<rparr>) sel,
     y_pending_usage_times := [], y_pending_usage_calls := 0, y_mode_standard_cost := None,
     y_unknown_mode_calls := 0\<rparr>"

definition local_part :: "cycle \<Rightarrow> index_range \<Rightarrow> cycle \<Rightarrow> cycle" where
  "local_part c sp part = part\<lparr>y_id := Local (y_id c) (fst (y_endpoints c ! fst sp)), y_local_attributed := True,
     y_provisional := (snd sp = length (y_endpoints c) - 1 \<and> y_provisional c)\<rparr>"

definition local_request_intervals ::
    "cycle \<Rightarrow> request list \<Rightarrow> (cycle \<Rightarrow> rat \<Rightarrow> rat \<Rightarrow> cycle option) \<Rightarrow> cycle list \<times> diagnostics" where
  "local_request_intervals c requests clipper =
    (let points = y_endpoints c in
     if length points < 2
     then ([], \<lparr>d_idle_delta = 0, d_pending_delta = 0, d_unmatched_calls = 0, d_pending_windows = 0\<rparr>)
     else
      (let accepted = accepted_rows c requests;
           ranges = merged_ranges (map fst accepted);
           sel = map snd accepted;
           source = local_source c sel;
           parts = List.map_filter (\<lambda>sp.
             case clipper source (fst (points ! fst sp)) (fst (points ! snd sp)) of None \<Rightarrow> None
             | Some part \<Rightarrow> if y_priced_calls part \<noteq> 0 then Some (local_part c sp part) else None) ranges;
           available = delta_of points (merged_ranges
             (List.map_filter placed_span (row_placements c @ request_placements c requests)));
           used = delta_of points ranges
       in (parts, \<lparr>d_idle_delta = max 0 (y_delta c - available), d_pending_delta = max 0 (available - used),
             d_unmatched_calls = length (eligible_rows c) - length sel,
             d_pending_windows = length (blocked_ranges c requests)\<rparr>)))"

subsection \<open>Bounds of a request\<close>

lemma bounds_of_proper:
  assumes "bounds_of ts st en pending = Some (lo, hi)"
  shows "lo < hi" "hi < length ts"
proof -
  have "lo < hi \<and> hi \<le> length ts - 1"
    using assms by (auto simp: bounds_of_def Let_def split: option.splits if_splits)
  then show "lo < hi" "hi < length ts" by auto
qed

text \<open>
  A completed request pairs with the last observation before it and with one of the
  first two observations at or after its completion.
\<close>

lemma bounds_of_completed:
  assumes "bounds_of ts (py_time (Some s)) (PFloat e) False = Some (lo, hi)" "sorted ts"
  shows "ts ! lo < s" "s \<le> ts ! (lo + 1)" "s \<le> e" "e \<le> ts ! hi"
    "card {i. i < hi \<and> e \<le> ts ! i} \<le> 1"
proof -
  let ?l = "bisect_left ts s" and ?h = "bisect_left ts e"
  from assms(1) have b: "s \<le> e" "?l \<ge> 1" "?h < length ts" "lo = ?l - 1"
      "hi = min (length ts - 1) (?h + 1)" "lo < hi"
    by (auto simp: bounds_of_def py_time_def Let_def split: if_splits)
  show "s \<le> e" by (fact b)
  have h: "?h \<le> hi" "hi < length ts" using b by auto
  show "ts ! lo < s" using bisect_left_spec(2) [OF assms(2), of lo s] b by simp
  have l1: "?l \<le> lo + 1" "lo + 1 < length ts" using b(2,4,6) h(2) by auto
  show "s \<le> ts ! (lo + 1)" by (rule bisect_left_spec(3) [OF assms(2) l1])
  show "e \<le> ts ! hi" using bisect_left_spec(3) [OF assms(2) h] .
  have "{i. i < hi \<and> e \<le> ts ! i} \<subseteq> {?h}"
  proof
    fix i assume i: "i \<in> {i. i < hi \<and> e \<le> ts ! i}"
    then have "\<not> i < ?h" using bisect_left_spec(2) [OF assms(2), of i e] by auto
    then have "?h \<le> i" by (simp add: not_less)
    with i b(5) show "i \<in> {?h}" by auto
  qed
  then have "card {i. i < hi \<and> e \<le> ts ! i} \<le> card {?h}" by (rule card_mono [rotated]) simp
  then show "card {i. i < hi \<and> e \<le> ts ! i} \<le> 1" by simp
qed

subsection \<open>Overlap by bisection\<close>

lemma apart_sorted_snd:
  "apart rs \<Longrightarrow> (\<forall>r \<in> set rs. fst r < snd r) \<Longrightarrow> sorted (map snd (rs :: ('a::linorder \<times> 'a) list))"
proof (induction rs)
  case (Cons r rs)
  then have "\<forall>q \<in> set rs. snd r \<le> snd q" by (fastforce simp: apart_def)
  with Cons show ?case by (simp add: apart_def)
qed simp

lemma overlaps_hits:
  assumes "apart rs" "\<forall>r \<in> set rs. fst r < snd r"
  shows "overlaps rs sp = hits rs (fst sp) (snd sp)"
proof -
  let ?p = "bisect_right (map snd rs) (fst sp)"
  have so: "sorted (map snd rs)" by (rule apart_sorted_snd [OF assms])
  have d: "drop ?p rs = filter (\<lambda>r. fst sp < snd r) rs" by (rule drop_bisect_right [OF so])
  have h: "hits rs (fst sp) (snd sp) = (\<exists>r \<in> set (drop ?p rs). fst r < snd sp)"
    by (simp only: d hits_ex set_filter) blast
  show ?thesis
  proof (cases "?p < length rs")
    case False
    with h show ?thesis by (simp add: overlaps_def Let_def)
  next
    case True
    then have dr: "drop ?p rs = rs ! ?p # drop (Suc ?p) rs" by (simp add: Cons_nth_drop_Suc)
    have "apart (drop ?p rs)" using assms(1) unfolding apart_def by (rule sorted_wrt_drop)
    then have "\<forall>r \<in> set (drop ?p rs). fst (rs ! ?p) \<le> fst r" by (auto simp: dr apart_def)
    with True h dr show ?thesis by (auto simp: overlaps_def Let_def intro: le_less_trans)
  qed
qed

subsection \<open>Conservation of the allowance\<close>

text \<open>The observation steps a list of ranges spans.\<close>

definition steps :: "index_range list \<Rightarrow> nat set" where
  "steps rs = {i. hits rs i (Suc i)}"

lemma steps_simps [simp]: "steps [] = {}" "steps (r # rs) = {fst r..<snd r} \<union> steps rs"
  by (auto simp: steps_def)

lemma steps_merged [simp]: "steps (merged_ranges rs) = steps rs"
  by (simp add: steps_def merged_ranges_hits)

lemma steps_bound: "(\<forall>r \<in> set rs. snd r \<le> n) \<Longrightarrow> steps rs \<subseteq> {..<n}"
  by (induction rs) auto

lemma delta_of_steps:
  assumes "apart rs" "\<forall>r \<in> set rs. fst r < snd r \<and> snd r < length ps" "sorted (map snd ps)"
  shows "delta_of ps rs = (\<Sum>i \<in> steps rs. snd (ps ! Suc i) - snd (ps ! i))"
  using assms(1,2)
proof (induction rs)
  case (Cons r rs)
  then have r: "fst r < snd r" "snd r < length ps" by auto
  have sep: "\<forall>q \<in> set rs. snd r < fst q" using Cons.prems(1) by (simp add: apart_def)
  have disj: "{fst r..<snd r} \<inter> steps rs = {}"
  proof -
    have "steps rs \<subseteq> {snd r..}" using sep by (induction rs) auto
    then show ?thesis by auto
  qed
  have fin: "finite (steps rs)"
    by (rule finite_subset [OF steps_bound [of rs "length ps"]]) (use Cons.prems in auto)
  have "sorted (map snd ps)" by (fact assms(3))
  then have "snd (ps ! fst r) \<le> snd (ps ! snd r)"
    using r by (simp add: sorted_iff_nth_mono)
  then have "max 0 (snd (ps ! snd r) - snd (ps ! fst r)) = snd (ps ! snd r) - snd (ps ! fst r)" by simp
  also have "\<dots> = (\<Sum>i = fst r..<snd r. snd (ps ! Suc i) - snd (ps ! i))"
    using r sum_Suc_diff' [of "fst r" "snd r" "\<lambda>i. snd (ps ! i)"] by simp
  finally have "delta_of ps (r # rs) = (\<Sum>i = fst r..<snd r. snd (ps ! Suc i) - snd (ps ! i)) + delta_of ps rs"
    by (simp add: delta_of_def split_beta)
  also have "delta_of ps rs = (\<Sum>i \<in> steps rs. snd (ps ! Suc i) - snd (ps ! i))"
    using Cons.prems by (intro Cons.IH) (auto simp: apart_def)
  finally show ?case using disj fin by (simp add: sum.union_disjoint)
qed (simp add: delta_of_def)

lemma delta_of_mono:
  assumes "sorted (map snd ps)" "apart rs" "apart qs"
    "\<forall>r \<in> set rs. fst r < snd r \<and> snd r < length ps" "\<forall>r \<in> set qs. fst r < snd r \<and> snd r < length ps"
    "steps rs \<subseteq> steps qs"
  shows "delta_of ps rs \<le> delta_of ps qs"
proof -
  have b: "steps qs \<subseteq> {..<length ps - 1}" by (rule steps_bound) (use assms(5) in auto)
  have inc: "0 \<le> snd (ps ! Suc i) - snd (ps ! i)" if "i \<in> steps qs" for i
  proof -
    have "sorted (map snd ps)" by (fact assms(1))
    moreover have "Suc i < length ps" using b that by auto
    ultimately show ?thesis by (simp add: sorted_iff_nth_mono)
  qed
  have "finite (steps qs)" using b finite_subset by blast
  then have "(\<Sum>i \<in> steps rs. snd (ps ! Suc i) - snd (ps ! i)) \<le> (\<Sum>i \<in> steps qs. snd (ps ! Suc i) - snd (ps ! i))"
    using inc assms(6) by (intro sum_mono2) auto
  then show ?thesis using assms by (simp add: delta_of_steps)
qed

subsection \<open>Placements and accepted spans\<close>

definition span_ok :: "nat \<Rightarrow> index_range \<Rightarrow> bool" where
  "span_ok n sp = (fst sp < snd sp \<and> snd sp < n)"

lemma placed_span_ok:
  assumes "p \<in> set (row_placements c @ request_placements c requests)" "placed_span p = Some sp"
  shows "span_ok (length (y_endpoints c)) sp"
proof -
  obtain st en pd where "bounds_of (map fst (y_endpoints c)) st en pd = Some sp"
    using assms
    by (auto simp: row_placements_def request_placements_def place_row_def place_request_def
        split: option.splits if_splits)
  then show ?thesis using bounds_of_proper [of "map fst (y_endpoints c)" st en pd "fst sp" "snd sp"]
    by (simp add: span_ok_def)
qed

lemma candidate_placed: "candidate_span p = Some sp \<Longrightarrow> placed_span p = Some sp"
  by (cases p) auto

lemma blocked_placed: "blocked_span p = Some sp \<Longrightarrow> placed_span p = Some sp"
  by (cases p) auto

lemma accept_span_within:
  "span_ok n sp \<Longrightarrow> span_ok n (accept_span ts bl r sp) \<and> fst (accept_span ts bl r sp) = fst sp \<and>
    snd (accept_span ts bl r sp) \<le> snd sp"
  by (auto simp: accept_span_def Let_def span_ok_def)

lemma accepted_member:
  assumes "(sp', r) \<in> set (accepted_rows c requests)"
  obtains p sp where "p \<in> set (row_placements c)" "candidate_span p = Some sp" "r \<in> set (eligible_rows c)"
    "sp' = accept_span (map fst (y_endpoints c)) (blocked_ranges c requests) r sp"
  using assms by (auto simp: accepted_rows_def set_map_filter dest: set_zip_leftD set_zip_rightD)

lemma steps_ex: "i \<in> steps rs \<longleftrightarrow> (\<exists>r \<in> set rs. fst r \<le> i \<and> i < snd r)"
  by (auto simp: steps_def hits_ex less_Suc_eq_le)

lemma accepted_steps:
  "steps (map fst (accepted_rows c requests)) \<subseteq>
    steps (List.map_filter placed_span (row_placements c @ request_placements c requests))"
proof
  fix i assume "i \<in> steps (map fst (accepted_rows c requests))"
  then obtain sp' r where m: "(sp', r) \<in> set (accepted_rows c requests)" "fst sp' \<le> i" "i < snd sp'"
    by (auto simp: steps_ex)
  from accepted_member [OF m(1)] obtain p sp where p: "p \<in> set (row_placements c)" "candidate_span p = Some sp"
    "sp' = accept_span (map fst (y_endpoints c)) (blocked_ranges c requests) r sp" by metis
  have ok: "span_ok (length (y_endpoints c)) sp"
    using p by (intro placed_span_ok [of p c requests]) (auto intro: candidate_placed)
  have "fst sp' = fst sp \<and> snd sp' \<le> snd sp" unfolding p(3) using accept_span_within [OF ok] by blast
  with m have "fst sp \<le> i \<and> i < snd sp" by simp
  moreover have "sp \<in> set (List.map_filter placed_span (row_placements c @ request_placements c requests))"
    using p(1) candidate_placed [OF p(2)] by (auto simp: set_map_filter)
  ultimately show "i \<in> steps (List.map_filter placed_span (row_placements c @ request_placements c requests))"
    by (auto simp: steps_ex)
qed

lemma merged_span_ok:
  assumes "\<forall>r \<in> set rs. span_ok n r"
  shows "\<forall>r \<in> set (merged_ranges rs). fst r < snd r \<and> snd r < n"
proof
  fix r assume r: "r \<in> set (merged_ranges rs)"
  have "fst r < snd r" using merged_ranges_proper [of rs] assms r by (auto simp: span_ok_def)
  moreover have "snd r < n" using merged_ranges_endpoints [OF r] assms by (auto simp: span_ok_def)
  ultimately show "fst r < snd r \<and> snd r < n" ..
qed

lemma delta_full:
  assumes "length ps \<ge> 2" "sorted (map snd ps)"
  shows "delta_of ps [(0, length ps - 1)] = snd (last ps) - snd (hd ps)"
proof -
  have "ps \<noteq> []" using assms(1) by auto
  moreover have "snd (ps ! 0) \<le> snd (ps ! (length ps - 1))"
    using assms by (simp add: sorted_iff_nth_mono)
  ultimately show ?thesis by (simp add: delta_of_def last_conv_nth hd_conv_nth)
qed

lemma local_delta_conserved:
  assumes len: "length (y_endpoints c) \<ge> 2" and so: "sorted (map snd (y_endpoints c))"
    and dl: "y_delta c = snd (last (y_endpoints c)) - snd (hd (y_endpoints c))"
    and res: "local_request_intervals c requests clipper = (parts, d)"
  shows "d_idle_delta d + d_pending_delta d +
      delta_of (y_endpoints c) (merged_ranges (map fst (accepted_rows c requests))) = y_delta c"
    and "0 \<le> d_idle_delta d" "0 \<le> d_pending_delta d"
    and "0 \<le> delta_of (y_endpoints c) (merged_ranges (map fst (accepted_rows c requests)))"
proof -
  let ?ps = "y_endpoints c" and ?n = "length (y_endpoints c)"
  let ?all = "List.map_filter placed_span (row_placements c @ request_placements c requests)"
  let ?acc = "map fst (accepted_rows c requests)"
  have okall: "\<forall>r \<in> set ?all. span_ok ?n r" by (auto simp: set_map_filter intro: placed_span_ok)
  have okacc: "\<forall>r \<in> set ?acc. span_ok ?n r"
  proof
    fix r assume "r \<in> set ?acc"
    then obtain q where "(r, q) \<in> set (accepted_rows c requests)" by auto
    from accepted_member [OF this] obtain p sp where "p \<in> set (row_placements c)" "candidate_span p = Some sp"
      "r = accept_span (map fst (y_endpoints c)) (blocked_ranges c requests) q sp" by metis
    then show "span_ok ?n r"
      using placed_span_ok [of p c requests sp] candidate_placed [of p sp] accept_span_within by auto
  qed
  have used: "delta_of ?ps (merged_ranges ?acc) \<le> delta_of ?ps (merged_ranges ?all)"
    using so merged_ranges_apart merged_span_ok [OF okall] merged_span_ok [OF okacc] accepted_steps
    by (intro delta_of_mono) auto
  have "steps ?all \<subseteq> steps [(0, ?n - 1)]"
    using steps_bound [of ?all "?n - 1"] okall by (fastforce simp: span_ok_def)
  then have "delta_of ?ps (merged_ranges ?all) \<le> delta_of ?ps [(0, ?n - 1)]"
    using so merged_ranges_apart merged_span_ok [OF okall] len
    by (intro delta_of_mono) (auto simp: apart_def)
  then have avail: "delta_of ?ps (merged_ranges ?all) \<le> y_delta c"
    unfolding dl delta_full [OF len so] .
  have nonneg: "0 \<le> delta_of ?ps rs" for rs
    unfolding delta_of_def by (rule sum_list_nonneg) auto
  have d: "d_idle_delta d = max 0 (y_delta c - delta_of ?ps (merged_ranges ?all))"
      "d_pending_delta d = max 0 (delta_of ?ps (merged_ranges ?all) - delta_of ?ps (merged_ranges ?acc))"
    using res len by (auto simp: local_request_intervals_def Let_def)
  show "d_idle_delta d + d_pending_delta d + delta_of ?ps (merged_ranges ?acc) = y_delta c"
    "0 \<le> d_idle_delta d" "0 \<le> d_pending_delta d" "0 \<le> delta_of ?ps (merged_ranges ?acc)"
    using used avail nonneg by (simp_all add: d)
qed

lemma blocked_ranges_overlaps:
  "overlaps (blocked_ranges c requests) sp =
    (\<exists>p \<in> set (row_placements c @ request_placements c requests).
       \<exists>b. blocked_span p = Some b \<and> fst b < snd sp \<and> fst sp < snd b)" if "fst sp < snd sp"
proof -
  let ?bl = "List.map_filter blocked_span (row_placements c @ request_placements c requests)"
  have "\<forall>r \<in> set ?bl. fst r < snd r"
    using placed_span_ok [of _ c requests] blocked_placed by (fastforce simp: set_map_filter span_ok_def)
  then have "overlaps (blocked_ranges c requests) sp = hits ?bl (fst sp) (snd sp)"
    unfolding blocked_ranges_def
    by (simp add: overlaps_hits merged_ranges_apart merged_ranges_proper merged_ranges_hits that)
  then show ?thesis by (auto simp: hits_ex set_map_filter)
qed

section \<open>Examples\<close>

text \<open>A cycle of three observations and one priced call, for concrete instances.\<close>

definition sample_cycle :: cycle where
  "sample_cycle = \<lparr>y_id = Plain ''c'', y_account = ''a'', y_start = 0, y_end = 20, y_endpoints = [(0, 1), (10, 3), (20, 6)],
     y_delta = 5, y_used_start = 1, y_used_end = 6,
     y_cost_rows = [\<lparr>w_call = (sample_call ''gpt-5.5'' 100 0 1)\<lparr>c_ts := 8, c_cost := Some 2\<rparr>, w_uid = None,
        w_request_start = Some 5, w_local_request_start = None\<rparr>],
     y_models = [], y_separate_models = [], y_pending_usage_times = [], y_pending_usage_calls = 0, y_cost = Some 2,
     y_cost_complete = True, y_cost_complete_at = None, y_priced_calls = 1, y_boundary_excluded_calls = 0,
     y_mode_standard_cost = None, y_unknown_mode_calls = 0, y_forward_tracking = False, y_provisional = False,
     y_local_attributed = False, y_user_exclusions_applied = False, y_observation_gaps_excluded = False,
     y_blocked = [], y_pending = False, y_reset_pending = False, y_live = True, y_assumptions = [], y_cycle_end = None\<rparr>"

section \<open>Further properties\<close>

text \<open>
  The request index answers with exactly the requests whose span meets the window, whether the native index or
  one of the two Python scans serves the lookup.
\<close>

theorem overlap_lookup_exact:
  "mset (overlapping native packed requests a b) = mset (filter (request_overlaps a b) requests)"
  by (rule overlapping_mset)

text \<open>
  The consumed allowance of a cycle is split without loss: the part attributed to local requests, the part
  pending on unresolved requests and the idle part are non-negative and add up to the cycle's consumption.
\<close>

theorem allowance_conserved:
  assumes "length (y_endpoints c) \<ge> 2" "sorted (map snd (y_endpoints c))"
    "y_delta c = snd (last (y_endpoints c)) - snd (hd (y_endpoints c))"
    "local_request_intervals c requests clipper = (parts, d)"
  shows "d_idle_delta d + d_pending_delta d +
      delta_of (y_endpoints c) (merged_ranges (map fst (accepted_rows c requests))) = y_delta c \<and>
    0 \<le> d_idle_delta d \<and> 0 \<le> d_pending_delta d \<and>
    0 \<le> delta_of (y_endpoints c) (merged_ranges (map fst (accepted_rows c requests)))"
  using local_delta_conserved [OF assms] by blast

theorem allowance_conserved_witness:
  "\<exists>parts d. local_request_intervals sample_cycle [] (\<lambda>c s e. clip_quota_interval c (Some s) (Some e) None) = (parts, d) \<and>
     0 \<le> d_idle_delta d \<and> 0 \<le> d_pending_delta d"
proof -
  obtain parts d where r: "local_request_intervals sample_cycle [] (\<lambda>c s e. clip_quota_interval c (Some s) (Some e) None) = (parts, d)"
    by fastforce
  show ?thesis using allowance_conserved [OF _ _ _ r] r by (simp add: sample_cycle_def)
qed


end
