(* ===== verification/Backlog.thy ===== *)
theory Backlog
  imports Pybase
begin

text \<open>
  The bounded observation queue of \<open>cachemonitor/quota_backlog.py\<close>. A table row is a
  triple (sequence, kind, encoded data); the budget row is what the two triggers keep.
  SQLite and the file system are an environment that says, per call, whether opening or
  executing fails and what the write-ahead log looks like; a failed write is rolled back.
  \<open>json.dumps\<close> and \<open>json.loads\<close> are the parameters \<open>enc\<close> and \<open>dec\<close>.
\<close>

section \<open>State\<close>

definition MAX_ITEMS :: nat where "MAX_ITEMS = 4096"
definition MAX_BYTES :: nat where "MAX_BYTES = 8 * 1024 * 1024"
definition OBSERVATION_RESERVE_BYTES :: nat where "OBSERVATION_RESERVE_BYTES = 64 * 1024"
definition MAX_WAL_BYTES :: nat where "MAX_WAL_BYTES = 2 * 1024 * 1024"
definition CONTROL_RESERVE :: nat where "CONTROL_RESERVE = 32"

datatype backlog_issue = No_issue | Write_failed | Recovery_full | Store_unavailable | Record_refused

record storage_env =
  e_connect_fails :: bool
  e_exec_fails :: bool
  e_wal :: bool
  e_wal_size :: "nat option"  \<comment> \<open>\<open>None\<close>: no log file\<close>
  e_reader_pins :: bool        \<comment> \<open>the checkpoint reports a busy reader\<close>

record backlog =
  b_pending :: "(nat \<times> string \<times> string) list"
  b_next :: nat
  b_items :: nat
  b_bytes :: nat
  b_unsaved :: "(string \<times> string) option"
  b_reserved :: bool
  b_issue :: backlog_issue
  b_open :: bool

definition init_backlog :: backlog where
  "init_backlog = \<lparr>b_pending = [], b_next = 1, b_items = 0, b_bytes = 0, b_unsaved = None,
     b_reserved = False, b_issue = No_issue, b_open = False\<rparr>"

datatype store_error = Database_error | Capacity_error

section \<open>Operations\<close>

definition connection :: "storage_env \<Rightarrow> backlog \<Rightarrow> store_error + backlog" where
  "connection env b = (if b_open b then Inr b else if e_connect_fails env then Inl Database_error
     else Inr (b\<lparr>b_open := True\<rparr>))"

definition journal_room :: "storage_env \<Rightarrow> bool" where
  "journal_room env = (\<not> e_wal env \<or> (case e_wal_size env of None \<Rightarrow> True
     | Some n \<Rightarrow> n \<le> MAX_WAL_BYTES \<or> \<not> e_reader_pins env))"

definition insert_row :: "string \<Rightarrow> string \<Rightarrow> backlog \<Rightarrow> backlog" where
  "insert_row kind data b = b\<lparr>b_pending := b_pending b @ [(b_next b, kind, data)], b_next := b_next b + 1,
     b_items := b_items b + 1, b_bytes := b_bytes b + length data\<rparr>"

text \<open>The state after a failure still has the connection that was opened for it.\<close>

definition store :: "storage_env \<Rightarrow> string \<Rightarrow> string \<Rightarrow> backlog \<Rightarrow> store_error option \<times> backlog" where
  "store env kind data b0 =
    (case connection env b0 of Inl e \<Rightarrow> (Some e, b0)
     | Inr b \<Rightarrow>
        if \<not> journal_room env \<or> e_exec_fails env then (Some Database_error, b)
        else (let reserve = (if kind = ''control'' then CONTROL_RESERVE else 0)
              in if b_items b \<ge> MAX_ITEMS + reserve \<or>
                    b_bytes b + length data > MAX_BYTES + reserve * OBSERVATION_RESERVE_BYTES
                 then (Some Capacity_error, b) else (None, insert_row kind data b)))"

definition flush :: "storage_env \<Rightarrow> backlog \<Rightarrow> bool \<times> backlog" where
  "flush env b = (case b_unsaved b of None \<Rightarrow> (True, b)
     | Some (kind, data) \<Rightarrow> (case store env kind data b of
         (Some _, b') \<Rightarrow> (False, b'\<lparr>b_issue := Write_failed\<rparr>)
       | (None, b') \<Rightarrow> (True, b'\<lparr>b_unsaved := None\<rparr>)))"

definition available :: "storage_env \<Rightarrow> backlog \<Rightarrow> bool \<times> backlog" where
  "available env b0 =
    (case flush env b0 of (False, b) \<Rightarrow> (False, b)
     | (True, b) \<Rightarrow> (case connection env b of
         Inl _ \<Rightarrow> (False, b\<lparr>b_issue := Store_unavailable\<rparr>)
       | Inr b1 \<Rightarrow>
           if \<not> journal_room env \<or> e_exec_fails env then (False, b1\<lparr>b_issue := Store_unavailable\<rparr>)
           else if b_items b1 \<ge> MAX_ITEMS \<or> b_bytes b1 + OBSERVATION_RESERVE_BYTES > MAX_BYTES
             then (False, b1\<lparr>b_issue := Recovery_full\<rparr>)
           else (True, b1\<lparr>b_issue := No_issue\<rparr>)))"

definition reserve_fetch :: "storage_env \<Rightarrow> backlog \<Rightarrow> bool \<times> backlog" where
  "reserve_fetch env b =
    (if b_reserved b then (False, b)
     else case available env b of (False, b') \<Rightarrow> (False, b') | (True, b') \<Rightarrow> (True, b'\<lparr>b_reserved := True\<rparr>))"

definition cancel_fetch :: "backlog \<Rightarrow> backlog" where
  "cancel_fetch b = b\<lparr>b_reserved := False\<rparr>"

definition account_kind :: "string \<Rightarrow> bool" where
  "account_kind kind = (kind = ''quota'' \<or> kind = ''failure'')"

definition append_item :: "('v \<Rightarrow> string) \<Rightarrow> storage_env \<Rightarrow> string \<Rightarrow> 'v \<Rightarrow> backlog \<Rightarrow> bool \<times> backlog" where
  "append_item enc env kind value b0 =
    (let encoded = enc value;
         admitted = (b_reserved b0 \<and> account_kind kind);
         b = (if account_kind kind then b0\<lparr>b_reserved := False\<rparr> else b0)
     in if b_unsaved b \<noteq> None then (False, b)
        else case store env kind encoded b of
          (None, b') \<Rightarrow> (True, b')
        | (Some Capacity_error, b') \<Rightarrow>
            if \<not> admitted \<or> length encoded > MAX_BYTES then (False, b'\<lparr>b_issue := Record_refused\<rparr>)
            else (True, b'\<lparr>b_unsaved := Some (kind, encoded), b_issue := Recovery_full\<rparr>)
        | (Some Database_error, b') \<Rightarrow> (True, b'\<lparr>b_unsaved := Some (kind, encoded), b_issue := Write_failed\<rparr>))"

text \<open>\<open>first\<close> and \<open>acknowledge\<close> let a database error escape.\<close>

definition first_item :: "(string \<Rightarrow> 'v) \<Rightarrow> storage_env \<Rightarrow> backlog \<Rightarrow>
    (store_error + (nat option \<times> string \<times> 'v) option) \<times> backlog" where
  "first_item dec env b0 = (case connection env b0 of Inl e \<Rightarrow> (Inl e, b0)
     | Inr b \<Rightarrow> if e_exec_fails env then (Inl Database_error, b)
        else (case b_pending b of (seq, kind, data) # _ \<Rightarrow> (Inr (Some (Some seq, kind, dec data)), b)
              | [] \<Rightarrow> (case b_unsaved b of Some (kind, data) \<Rightarrow> (Inr (Some (None, kind, dec data)), b)
                       | None \<Rightarrow> (Inr None, b))))"

definition delete_rows :: "nat \<Rightarrow> backlog \<Rightarrow> backlog" where
  "delete_rows seq b =
    (let gone = filter (\<lambda>r. fst r = seq) (b_pending b)
     in b\<lparr>b_pending := filter (\<lambda>r. fst r \<noteq> seq) (b_pending b), b_items := b_items b - length gone,
          b_bytes := b_bytes b - sum_list (map (\<lambda>r. length (snd (snd r))) gone)\<rparr>)"

definition acknowledge :: "storage_env \<Rightarrow> nat option \<Rightarrow> backlog \<Rightarrow> store_error option \<times> backlog" where
  "acknowledge env sequence b0 = (case sequence of None \<Rightarrow> (None, b0\<lparr>b_unsaved := None\<rparr>)
     | Some seq \<Rightarrow> (case connection env b0 of Inl e \<Rightarrow> (Some e, b0)
         | Inr b \<Rightarrow> if \<not> journal_room env \<or> e_exec_fails env then (Some Database_error, b)
                    else (None, delete_rows seq b)))"

definition close :: "storage_env \<Rightarrow> backlog \<Rightarrow> bool \<times> backlog" where
  "close env b = (case flush env b of (saved, b') \<Rightarrow> (saved, b'\<lparr>b_reserved := False, b_open := False\<rparr>))"

section \<open>The contract of a replayable queue\<close>

text \<open>
  The service that owns a backlog needs only this: what was accepted is delivered in the
  order it was accepted, and nothing leaves before it is acknowledged.
\<close>

locale replay_queue =
  fixes inv :: "'s \<Rightarrow> bool" and contents :: "'s \<Rightarrow> 'a list"
    and push :: "'e \<Rightarrow> 'a \<Rightarrow> 's \<Rightarrow> bool \<times> 's"
    and pop :: "'e \<Rightarrow> 's \<Rightarrow> 'a option \<times> 's"
    and tick :: "'e \<Rightarrow> 's \<Rightarrow> 's"
  assumes push_inv: "inv s \<Longrightarrow> inv (snd (push e x s))"
    and pop_inv: "inv s \<Longrightarrow> inv (snd (pop e s))"
    and tick_inv: "inv s \<Longrightarrow> inv (tick e s)"
    and push_contents: "inv s \<Longrightarrow> push e x s = (ok, s') \<Longrightarrow> contents s' = contents s @ (if ok then [x] else [])"
    and pop_contents: "inv s \<Longrightarrow> pop e s = (y, s') \<Longrightarrow> contents s = (case y of None \<Rightarrow> [] | Some x \<Rightarrow> [x]) @ contents s'"
    and tick_contents: "inv s \<Longrightarrow> contents (tick e s) = contents s"

datatype ('e, 'a) queue_step = Push 'e 'a | Pop 'e | Tick 'e

text \<open>A run of a producer and a consumer: the state, what was accepted, what was delivered.\<close>

fun queue_run :: "('e \<Rightarrow> 'a \<Rightarrow> 's \<Rightarrow> bool \<times> 's) \<Rightarrow> ('e \<Rightarrow> 's \<Rightarrow> 'a option \<times> 's) \<Rightarrow> ('e \<Rightarrow> 's \<Rightarrow> 's) \<Rightarrow>
    ('e, 'a) queue_step list \<Rightarrow> 's \<times> 'a list \<times> 'a list \<Rightarrow> 's \<times> 'a list \<times> 'a list" where
  "queue_run pu po ti [] c = c"
| "queue_run pu po ti (Push e x # qs) (s, acc, del) =
     queue_run pu po ti qs (case pu e x s of (ok, s') \<Rightarrow> (s', acc @ (if ok then [x] else []), del))"
| "queue_run pu po ti (Pop e # qs) (s, acc, del) =
     queue_run pu po ti qs (case po e s of (y, s') \<Rightarrow> (s', acc, del @ (case y of None \<Rightarrow> [] | Some x \<Rightarrow> [x])))"
| "queue_run pu po ti (Tick e # qs) (s, acc, del) = queue_run pu po ti qs (ti e s, acc, del)"

context replay_queue
begin

lemma run_fifo:
  assumes "inv s" "accepted = delivered @ contents s"
    "queue_run push pop tick qs (s, accepted, delivered) = (s', acc', del')"
  shows "inv s' \<and> acc' = del' @ contents s'"
  using assms
proof (induction qs arbitrary: s accepted delivered)
  case (Cons q qs)
  show ?case
  proof (cases q)
    case (Push e x)
    obtain ok t where p: "push e x s = (ok, t)" by fastforce
    have "inv t" using push_inv [OF Cons.prems(1), of e x] p by simp
    moreover have "accepted @ (if ok then [x] else []) = delivered @ contents t"
      using push_contents [OF Cons.prems(1) p] Cons.prems(2) by simp
    ultimately show ?thesis
      by (rule Cons.IH) (use Cons.prems(3) Push p in simp)
  next
    case (Pop e)
    obtain y t where p: "pop e s = (y, t)" by fastforce
    have "inv t" using pop_inv [OF Cons.prems(1), of e] p by simp
    moreover have "accepted = (delivered @ (case y of None \<Rightarrow> [] | Some x \<Rightarrow> [x])) @ contents t"
      using pop_contents [OF Cons.prems(1) p] Cons.prems(2) by simp
    ultimately show ?thesis
      by (rule Cons.IH) (use Cons.prems(3) Pop p in simp)
  next
    case (Tick e)
    have "accepted = delivered @ contents (tick e s)"
      using tick_contents [OF Cons.prems(1)] Cons.prems(2) by simp
    with tick_inv [OF Cons.prems(1)] show ?thesis
      by (rule Cons.IH) (use Cons.prems(3) Tick in simp)
  qed
qed simp

end

section \<open>The backlog keeps it\<close>

definition queued :: "backlog \<Rightarrow> (string \<times> string) list" where
  "queued b = map snd (b_pending b) @ (case b_unsaved b of None \<Rightarrow> [] | Some x \<Rightarrow> [x])"

definition backlog_inv :: "backlog \<Rightarrow> bool" where
  "backlog_inv b = (b_items b = length (b_pending b) \<and>
     b_bytes b = sum_list (map (\<lambda>r. length (snd (snd r))) (b_pending b)) \<and>
     sorted_wrt (<) (map fst (b_pending b)) \<and> (\<forall>r \<in> set (b_pending b). fst r < b_next b) \<and>
     b_items b \<le> MAX_ITEMS + CONTROL_RESERVE \<and>
     b_bytes b \<le> MAX_BYTES + CONTROL_RESERVE * OBSERVATION_RESERVE_BYTES)"

datatype upkeep = Flush | Available | Reserve | Cancel | Close

definition maintain :: "storage_env \<times> upkeep \<Rightarrow> backlog \<Rightarrow> backlog" where
  "maintain eu b = (case snd eu of Flush \<Rightarrow> snd (flush (fst eu) b) | Available \<Rightarrow> snd (available (fst eu) b)
     | Reserve \<Rightarrow> snd (reserve_fetch (fst eu) b) | Cancel \<Rightarrow> cancel_fetch b | Close \<Rightarrow> snd (close (fst eu) b))"

definition produce :: "storage_env \<times> upkeep \<Rightarrow> string \<times> string \<Rightarrow> backlog \<Rightarrow> bool \<times> backlog" where
  "produce eu x b = append_item id (fst eu) (fst x) (snd x) b"

text \<open>The consumer reads the first row and acknowledges it once it is done with it.\<close>

definition deliver :: "storage_env \<times> upkeep \<Rightarrow> backlog \<Rightarrow> (string \<times> string) option \<times> backlog" where
  "deliver eu b = (case first_item id (fst eu) b of
     (Inr (Some (seq, kind, data)), b1) \<Rightarrow> (case acknowledge (fst eu) seq b1 of
        (None, b2) \<Rightarrow> (Some (kind, data), b2) | (Some _, b2) \<Rightarrow> (None, b2))
   | (_, b1) \<Rightarrow> (None, b1))"

lemma backlog_inv_cong [simp]:
  "backlog_inv (b\<lparr>b_unsaved := u\<rparr>) = backlog_inv b" "backlog_inv (b\<lparr>b_issue := i\<rparr>) = backlog_inv b"
  "backlog_inv (b\<lparr>b_reserved := r\<rparr>) = backlog_inv b" "backlog_inv (b\<lparr>b_open := p\<rparr>) = backlog_inv b"
  by (simp_all add: backlog_inv_def)

lemma queued_cong [simp]:
  "queued (b\<lparr>b_issue := i\<rparr>) = queued b" "queued (b\<lparr>b_reserved := r\<rparr>) = queued b" "queued (b\<lparr>b_open := p\<rparr>) = queued b"
  by (simp_all add: queued_def)

lemma connection_Inr: "connection env b = Inr b' \<Longrightarrow> b' = b\<lparr>b_open := True\<rparr>"
  by (cases b) (auto simp: connection_def split: if_splits)

lemma insert_row_inv:
  assumes "backlog_inv b" "b_items b < MAX_ITEMS + r" "b_bytes b + length data \<le> MAX_BYTES + r * OBSERVATION_RESERVE_BYTES"
    "r \<le> CONTROL_RESERVE"
  shows "backlog_inv (insert_row kind data b)"
proof -
  have "b_bytes b + length data \<le> MAX_BYTES + CONTROL_RESERVE * OBSERVATION_RESERVE_BYTES"
    using assms(3) mult_le_mono1 [OF assms(4), of OBSERVATION_RESERVE_BYTES] by linarith
  with assms(1,2,4) show ?thesis
    by (auto simp: backlog_inv_def insert_row_def sorted_wrt_append less_Suc_eq)
qed

lemma store_facts:
  assumes "store env kind data b = (e, b')"
  shows "backlog_inv b \<Longrightarrow> backlog_inv b'" "b_unsaved b' = b_unsaved b" "b_reserved b' = b_reserved b"
    "map snd (b_pending b') = map snd (b_pending b) @ (if e = None then [(kind, data)] else [])"
    "e = Some Capacity_error \<Longrightarrow> b_items b \<ge> MAX_ITEMS \<or> b_bytes b + length data > MAX_BYTES"
proof -
  have ins: "backlog_inv c \<Longrightarrow> \<not> (b_items c \<ge> MAX_ITEMS + (if kind = ''control'' then CONTROL_RESERVE else 0) \<or>
      b_bytes c + length data > MAX_BYTES + (if kind = ''control'' then CONTROL_RESERVE else 0) * OBSERVATION_RESERVE_BYTES) \<Longrightarrow>
      backlog_inv (insert_row kind data c)" for c
    by (rule insert_row_inv [of c "if kind = ''control'' then CONTROL_RESERVE else 0"]) auto
  show "backlog_inv b \<Longrightarrow> backlog_inv b'"
    using assms ins [of "b\<lparr>b_open := True\<rparr>"]
    by (auto simp: store_def Let_def dest!: connection_Inr split: sum.splits if_splits)
  show "b_unsaved b' = b_unsaved b" "b_reserved b' = b_reserved b"
    "map snd (b_pending b') = map snd (b_pending b) @ (if e = None then [(kind, data)] else [])"
    using assms by (auto simp: store_def Let_def insert_row_def dest!: connection_Inr split: sum.splits if_splits)
  show "e = Some Capacity_error \<Longrightarrow> b_items b \<ge> MAX_ITEMS \<or> b_bytes b + length data > MAX_BYTES"
    using assms by (auto simp: store_def Let_def connection_def split: sum.splits if_splits)
qed

lemma flush_facts:
  assumes "flush env b = (ok, b')"
  shows "backlog_inv b \<Longrightarrow> backlog_inv b'" "queued b' = queued b" "ok \<longleftrightarrow> b_unsaved b' = None" "b_reserved b' = b_reserved b"
proof -
  show "backlog_inv b \<Longrightarrow> backlog_inv b'"
    using assms by (auto simp: flush_def split: option.splits prod.splits dest: store_facts(1))
  show "queued b' = queued b" "ok \<longleftrightarrow> b_unsaved b' = None" "b_reserved b' = b_reserved b"
    using assms by (auto simp: flush_def queued_def split: option.splits prod.splits dest: store_facts(2-4))
qed

lemma available_facts:
  assumes "available env b = (ok, b')"
  shows "backlog_inv b \<Longrightarrow> backlog_inv b'" "queued b' = queued b" "b_reserved b' = b_reserved b"
    "ok \<Longrightarrow> b_unsaved b' = None \<and> b_items b' < MAX_ITEMS \<and> b_bytes b' + OBSERVATION_RESERVE_BYTES \<le> MAX_BYTES"
proof -
  obtain fok b1 where f: "flush env b = (fok, b1)" by fastforce
  note ff = flush_facts [OF f]
  show "backlog_inv b \<Longrightarrow> backlog_inv b'" "queued b' = queued b" "b_reserved b' = b_reserved b"
    using assms ff by (auto simp: available_def f dest!: connection_Inr split: bool.splits sum.splits if_splits)
  show "ok \<Longrightarrow> b_unsaved b' = None \<and> b_items b' < MAX_ITEMS \<and> b_bytes b' + OBSERVATION_RESERVE_BYTES \<le> MAX_BYTES"
    using assms ff(3) by (auto simp: available_def f dest!: connection_Inr split: bool.splits sum.splits if_splits)
qed

lemma maintain_facts: "backlog_inv b \<Longrightarrow> backlog_inv (maintain eu b)" "queued (maintain eu b) = queued b"
proof -
  have r: "(backlog_inv b \<longrightarrow> backlog_inv (snd (reserve_fetch env b))) \<and> queued (snd (reserve_fetch env b)) = queued b" for env
    using available_facts [of env b] by (cases "available env b") (auto simp: reserve_fetch_def split: bool.split)
  have c: "(backlog_inv b \<longrightarrow> backlog_inv (snd (close env b))) \<and> queued (snd (close env b)) = queued b" for env
    using flush_facts [of env b] by (cases "flush env b") (auto simp: close_def)
  have f: "(backlog_inv b \<longrightarrow> backlog_inv (snd (flush env b))) \<and> queued (snd (flush env b)) = queued b" for env
    using flush_facts [of env b] by (cases "flush env b") auto
  have a: "(backlog_inv b \<longrightarrow> backlog_inv (snd (available env b))) \<and> queued (snd (available env b)) = queued b" for env
    using available_facts [of env b] by (cases "available env b") auto
  show "backlog_inv b \<Longrightarrow> backlog_inv (maintain eu b)" "queued (maintain eu b) = queued b"
    using r c f a by (auto simp: maintain_def cancel_fetch_def split: upkeep.split)
qed

lemma append_item_facts:
  assumes "append_item enc env kind v b = (ok, b')"
  shows "backlog_inv b \<Longrightarrow> backlog_inv b'" "queued b' = queued b @ (if ok then [(kind, enc v)] else [])"
proof -
  let ?b = "if account_kind kind then b\<lparr>b_reserved := False\<rparr> else b"
  obtain e b1 where s: "store env kind (enc v) ?b = (e, b1)" by fastforce
  note sf = store_facts [OF s]
  have i: "backlog_inv b \<Longrightarrow> backlog_inv ?b" and q: "queued ?b = queued b" by simp_all
  show "backlog_inv b \<Longrightarrow> backlog_inv b'"
    using assms i sf(1)
    by (auto simp: append_item_def Let_def s split: option.splits store_error.splits if_splits)
  show "queued b' = queued b @ (if ok then [(kind, enc v)] else [])"
  proof (cases "b_unsaved ?b")
    case (Some u)
    with assms q show ?thesis by (simp add: append_item_def Let_def)
  next
    case None
    then have "b_unsaved b = None" by (simp split: if_splits)
    moreover have "map snd (b_pending ?b) = map snd (b_pending b)" by simp
    ultimately show ?thesis
      using assms sf(2,4) None
      by (auto simp: append_item_def Let_def s queued_def split: option.splits store_error.splits if_splits)
  qed
qed

text \<open>An admitted fetch keeps its slot: its result is accepted whatever the storage does.\<close>

lemma admitted_accepted:
  assumes "b_reserved b" "account_kind kind" "b_unsaved b = None" "length (enc v) \<le> MAX_BYTES"
  shows "fst (append_item enc env kind v b)"
proof -
  obtain e b1 where s: "store env kind (enc v) (b\<lparr>b_reserved := False\<rparr>) = (e, b1)" by fastforce
  show ?thesis
    using assms by (auto simp: append_item_def Let_def s split: option.split store_error.split)
qed

lemma delete_first:
  assumes "backlog_inv b" "b_pending b = (seq, kd) # rest"
  shows "b_pending (delete_rows seq b) = rest" "backlog_inv (delete_rows seq b)"
proof -
  have "\<forall>r \<in> set rest. fst r \<noteq> seq" using assms by (auto simp: backlog_inv_def)
  then have f: "filter (\<lambda>r. fst r \<noteq> seq) rest = rest" "filter (\<lambda>r. fst r = seq) rest = []"
    by (auto simp: filter_id_conv filter_empty_conv)
  show "b_pending (delete_rows seq b) = rest" using assms(2) f by (simp add: delete_rows_def Let_def)
  show "backlog_inv (delete_rows seq b)"
    using assms f by (auto simp: backlog_inv_def delete_rows_def Let_def)
qed

lemma deliver_facts:
  assumes inv: "backlog_inv b" and d: "deliver eu b = (y, b')"
  shows "backlog_inv b'" "queued b = (case y of None \<Rightarrow> [] | Some x \<Rightarrow> [x]) @ queued b'"
proof -
  have "backlog_inv b' \<and> queued b = (case y of None \<Rightarrow> [] | Some x \<Rightarrow> [x]) @ queued b'"
  proof (cases "connection (fst eu) b")
    case (Inl e)
    with d inv show ?thesis by (auto simp: deliver_def first_item_def)
  next
    case (Inr c)
    then have c: "c = b\<lparr>b_open := True\<rparr>" by (rule connection_Inr)
    have ci: "backlog_inv c" "queued c = queued b" using inv c by simp_all
    have cc: "connection (fst eu) c = Inr c" using c by (simp add: connection_def)
    show ?thesis
    proof (cases "b_pending c")
      case Nil
      have q: "queued b = (case b_unsaved c of None \<Rightarrow> [] | Some x \<Rightarrow> [x])"
        unfolding ci(2) [symmetric] using Nil by (simp add: queued_def)
      have qn: "queued (c\<lparr>b_unsaved := None\<rparr>) = []" using Nil by (simp add: queued_def)
      show ?thesis
      proof (cases "b_unsaved c")
        case None
        with Inr d ci Nil q show ?thesis by (auto simp: deliver_def first_item_def split: if_splits)
      next
        case (Some u)
        obtain k v where u: "u = (k, v)" by fastforce
        with Inr d ci Nil q qn Some show ?thesis
          by (cases "e_exec_fails (fst eu)") (auto simp: deliver_def first_item_def acknowledge_def)
      qed
    next
      case (Cons r rest)
      obtain seq kind data where r: "r = (seq, kind, data)" by (cases r) auto
      note df = delete_first [OF ci(1) Cons [unfolded r]]
      have "queued c = (kind, data) # queued (delete_rows seq c)"
        using Cons r df(1) by (simp add: queued_def) (simp add: delete_rows_def Let_def)
      with Inr d ci Cons r df cc show ?thesis
        by (auto simp: deliver_def first_item_def acknowledge_def split: if_splits)
    qed
  qed
  then show "backlog_inv b'" "queued b = (case y of None \<Rightarrow> [] | Some x \<Rightarrow> [x]) @ queued b'" by auto
qed

interpretation observations: replay_queue backlog_inv queued produce deliver maintain
proof
  fix s :: backlog and e x assume "backlog_inv s"
  then show "backlog_inv (snd (produce e x s))"
    using append_item_facts(1) [of id "fst e" "fst x" "snd x" s] by (cases "produce e x s") (simp add: produce_def)
next
  fix s :: backlog and e assume "backlog_inv s"
  then show "backlog_inv (snd (deliver e s))" using deliver_facts(1) by (cases "deliver e s") auto
next
  fix s :: backlog and e x ok s' assume "produce e x s = (ok, s')"
  then show "queued s' = queued s @ (if ok then [x] else [])"
    using append_item_facts(2) [of id "fst e" "fst x" "snd x" s ok s'] by (simp add: produce_def)
next
  fix s :: backlog and e y s' assume "backlog_inv s" "deliver e s = (y, s')"
  then show "queued s = (case y of None \<Rightarrow> [] | Some x \<Rightarrow> [x]) @ queued s'" by (rule deliver_facts(2))
qed (simp_all add: maintain_facts)

lemma init_backlog_inv: "backlog_inv init_backlog" "queued init_backlog = []"
  by (simp_all add: init_backlog_def backlog_inv_def queued_def)

section \<open>Further properties\<close>

text \<open>
  An account observation whose room was reserved before the request is never refused, whatever the store does,
  as long as no record is waiting unsaved and it fits the byte limit.
\<close>

theorem reserved_item_accepted:
  assumes "b_reserved b" "account_kind kind" "b_unsaved b = None" "length (enc v) \<le> MAX_BYTES"
  shows "fst (append_item enc env kind v b)"
  using assms by (rule admitted_accepted)

theorem reserved_item_accepted_witness:
  "fst (append_item id \<lparr>e_connect_fails = True, e_exec_fails = False, e_wal = True, e_wal_size = None, e_reader_pins = False\<rparr>
     ''quota'' ''data'' (init_backlog\<lparr>b_reserved := True\<rparr>))"
  by (rule reserved_item_accepted) (simp_all add: init_backlog_def MAX_BYTES_def account_kind_def)

section \<open>Claims\<close>

text \<open>
  C29: The observation backlog refines a queue: in any run of appends, deliveries and upkeep, with any
  failures of the store, what was accepted is what was delivered followed by what is still queued, in order,
  and the byte and item accounts stay exact and bounded.
\<close>

theorem backlog_fifo:
  "case queue_run produce deliver maintain qs (init_backlog, [], []) of
     (b, accepted, delivered) \<Rightarrow> backlog_inv b \<and> accepted = delivered @ queued b"
proof (cases "queue_run produce deliver maintain qs (init_backlog, [], [])")
  case (fields b accepted delivered)
  then show ?thesis
    using observations.run_fifo [OF init_backlog_inv(1) _ fields] init_backlog_inv(2) by simp
qed

end
