(* ===== verification/Budget.thy ===== *)
theory Budget
  imports Pybase
begin

text \<open>
  Byte-budgeted stores: the publication journal (\<open>cachemonitor/prepared_changes.py\<close>), the
  owner cache (\<open>cachemonitor/prepared_query_owners.py\<close>), the price cache of
  \<open>cachemonitor/quota_cycles.py\<close> and the unassigned transports of \<open>cachemonitor/core.py\<close>.
  All four add a weighed entry and drop the oldest ones; the locale \<open>weighed_store\<close> is
  that contract. The size of a Python object (\<open>retained_bytes\<close>, \<open>json.dumps\<close>) is an
  argument.
\<close>

section \<open>Dropping the oldest\<close>

text \<open>\<open>while entries and over(...): pop the oldest\<close>, with the bytes it gives back.\<close>

fun trim_oldest :: "('e \<Rightarrow> nat) \<Rightarrow> (nat \<Rightarrow> nat \<Rightarrow> bool) \<Rightarrow> 'e list \<Rightarrow> nat \<Rightarrow> 'e list \<times> nat" where
  "trim_oldest w over [] b = ([], b)"
| "trim_oldest w over (x # xs) b =
    (if over (length (x # xs)) b then trim_oldest w over xs (b - w x) else (x # xs, b))"

lemma trim_oldest_facts:
  assumes "trim_oldest w over xs b = (ys, c)" "b = base + sum_list (map w xs)"
  shows "c = base + sum_list (map w ys)" "\<exists>zs. xs = zs @ ys" "ys \<noteq> [] \<Longrightarrow> \<not> over (length ys) c"
    "length ys \<le> length xs" "c \<le> b"
proof -
  have "c = base + sum_list (map w ys) \<and> (\<exists>zs. xs = zs @ ys) \<and> (ys \<noteq> [] \<longrightarrow> \<not> over (length ys) c) \<and>
      length ys \<le> length xs \<and> c \<le> b"
    using assms
  proof (induction xs arbitrary: b)
    case (Cons x xs)
    show ?case
    proof (cases "over (length (x # xs)) b")
      case True
      then have "trim_oldest w over xs (b - w x) = (ys, c)" using Cons.prems(1) by simp
      from Cons.IH [OF this] Cons.prems(2) show ?thesis by (auto intro: exI [of _ "x # _"])
    next
      case False
      with Cons.prems show ?thesis by auto
    qed
  qed auto
  then show "c = base + sum_list (map w ys)" "\<exists>zs. xs = zs @ ys" "ys \<noteq> [] \<Longrightarrow> \<not> over (length ys) c"
    "length ys \<le> length xs" "c \<le> b" by auto
qed

text \<open>The newest entry survives where it fits on its own.\<close>

lemma trim_oldest_newest:
  assumes "b = base + sum_list (map w (xs @ [x]))" "\<not> over 1 (base + w x)"
  shows "\<exists>ys c. trim_oldest w over (xs @ [x]) b = (ys @ [x], c)"
  using assms
proof (induction xs arbitrary: b)
  case (Cons y ys)
  then show ?case
    by (cases "over (length (y # ys @ [x])) b") (auto simp: ac_simps)
qed simp

section \<open>The contract\<close>

locale weighed_store =
  fixes inv :: "'s \<Rightarrow> bool" and entries :: "'s \<Rightarrow> 'e list" and weight :: "'e \<Rightarrow> nat" and bytes :: "'s \<Rightarrow> nat"
    and base :: nat and limit :: nat and step :: "'c \<Rightarrow> 's \<Rightarrow> 's"
  assumes accounted: "inv s \<Longrightarrow> bytes s = base + sum_list (map weight (entries s))"
    and step_inv: "inv s \<Longrightarrow> inv (step c s)"
    and step_limit: "inv s \<Longrightarrow> bytes (step c s) \<le> limit"
begin

lemma history_inv: "inv s \<Longrightarrow> inv (foldl (\<lambda>s c. step c s) s cs)"
  by (induction cs arbitrary: s) (simp_all add: step_inv)

text \<open>After any history the bytes are those of the entries, and within the limit.\<close>

lemma history_accounted:
  assumes "inv s" "cs \<noteq> []"
  shows "bytes (foldl (\<lambda>s c. step c s) s cs) = base + sum_list (map weight (entries (foldl (\<lambda>s c. step c s) s cs)))"
    and "bytes (foldl (\<lambda>s c. step c s) s cs) \<le> limit"
proof -
  show "bytes (foldl (\<lambda>s c. step c s) s cs) = base + sum_list (map weight (entries (foldl (\<lambda>s c. step c s) s cs)))"
    by (rule accounted [OF history_inv [OF assms(1)]])
  obtain ds c where cs: "cs = ds @ [c]" using assms(2) by (cases cs rule: rev_cases) auto
  show "bytes (foldl (\<lambda>s c. step c s) s cs) \<le> limit"
    unfolding cs by (simp add: step_limit history_inv assms(1))
qed

lemma weight_within:
  assumes "inv s" "e \<in> set (entries (step c s))"
  shows "base + weight e \<le> limit"
proof -
  have "weight e \<le> sum_list (map weight (entries (step c s)))" using assms(2) by (simp add: member_le_sum_list)
  with accounted [OF step_inv [OF assms(1), of c]] step_limit [OF assms(1), of c] show ?thesis by linarith
qed

end

section \<open>Publication journal\<close>

record publication =
  pb_previous :: "(string \<times> nat) option"
  pb_current :: "string \<times> nat"
  pb_owners :: "string list"
  pb_deleted :: "string list"

record journal =
  jn_entries :: "(publication \<times> nat) list"
  jn_bytes :: nat

definition JOURNAL_BYTES :: nat where "JOURNAL_BYTES = 4 * 1024 * 1024"

definition init_journal :: journal where
  "init_journal = \<lparr>jn_entries = [], jn_bytes = 0\<rparr>"

definition journal_add :: "publication \<times> nat \<Rightarrow> journal \<Rightarrow> journal" where
  "journal_add vs j = (case vs of (value, sz) \<Rightarrow>
     (if sz > JOURNAL_BYTES \<or> length (pb_owners value) + length (pb_deleted value) > 128
      then j\<lparr>jn_entries := [], jn_bytes := 0\<rparr>
      else (case trim_oldest snd (\<lambda>n b. n \<ge> 16 \<or> b + sz > JOURNAL_BYTES) (jn_entries j) (jn_bytes j) of
        (es, b) \<Rightarrow> j\<lparr>jn_entries := es @ [(value, sz)], jn_bytes := b + sz\<rparr>)))"

text \<open>\<open>add(value)\<close>: no value is no publication.\<close>

definition journal_offer :: "(publication \<times> nat) option \<Rightarrow> journal \<Rightarrow> journal" where
  "journal_offer v j = (case v of None \<Rightarrow> j | Some x \<Rightarrow> journal_add x j)"

text \<open>\<open>between\<close>: follow the publications from one generation to another.\<close>

fun follow :: "string \<times> nat \<Rightarrow> string \<times> nat \<Rightarrow> string set \<times> string set \<Rightarrow> publication list \<Rightarrow> (string set \<times> string set) option" where
  "follow p until cr [] = None"
| "follow p until (changed, removed) (e # es) =
    (if pb_previous e \<noteq> Some p then follow p until (changed, removed) es
     else (let c = (changed \<union> set (pb_owners e)) - set (pb_deleted e);
               r = (removed - set (pb_owners e)) \<union> set (pb_deleted e)
           in if pb_current e = until then Some (c, r) else follow (pb_current e) until (c, r) es))"

definition between :: "journal \<Rightarrow> (string \<times> nat) option \<Rightarrow> string \<times> nat \<Rightarrow> (string set \<times> string set) option" where
  "between j from until = (case from of None \<Rightarrow> None
     | Some p \<Rightarrow> if p = until then Some ({}, {}) else follow p until ({}, {}) (map fst (jn_entries j)))"

text \<open>The owners that exist after the same publications, applied one at a time.\<close>

fun publish_all :: "string \<times> nat \<Rightarrow> string \<times> nat \<Rightarrow> string set \<Rightarrow> publication list \<Rightarrow> string set option" where
  "publish_all p until K [] = None"
| "publish_all p until K (e # es) =
    (if pb_previous e \<noteq> Some p then publish_all p until K es
     else (let K' = (K \<union> set (pb_owners e)) - set (pb_deleted e)
           in if pb_current e = until then Some K' else publish_all (pb_current e) until K' es))"

lemma follow_publishes:
  "publish_all p until ((K \<union> c) - r) es = map_option (\<lambda>(c, r). (K \<union> c) - r) (follow p until (c, r) es)"
proof (induction p until "(c, r)" es arbitrary: c r rule: follow.induct)
  case (2 p until c r e es)
  have step: "((K \<union> c) - r \<union> set (pb_owners e)) - set (pb_deleted e) =
      (K \<union> ((c \<union> set (pb_owners e)) - set (pb_deleted e))) - ((r - set (pb_owners e)) \<union> set (pb_deleted e))"
    by auto
  show ?case
    using 2 by (cases "pb_previous e = Some p"; cases "pb_current e = until") (simp_all add: Let_def step)
qed simp

lemma follow_disjoint:
  "follow p until (c, r) es = Some (c', r') \<Longrightarrow> c \<inter> r = {} \<Longrightarrow> c' \<inter> r' = {}"
proof (induction p until "(c, r)" es arbitrary: c r rule: follow.induct)
  case (2 p until c r e es)
  have "((c \<union> set (pb_owners e)) - set (pb_deleted e)) \<inter> ((r - set (pb_owners e)) \<union> set (pb_deleted e)) = {}"
    using "2.prems"(2) by auto
  with 2 show ?case
    by (cases "pb_previous e = Some p"; cases "pb_current e = until") (auto simp: Let_def)
qed simp

lemma journal_add_facts:
  assumes "jn_bytes j = sum_list (map snd (jn_entries j))"
  shows "jn_bytes (journal_add vs j) = sum_list (map snd (jn_entries (journal_add vs j)))"
    "jn_bytes (journal_add vs j) \<le> JOURNAL_BYTES" 
    "length (jn_entries j) \<le> 16 \<Longrightarrow> length (jn_entries (journal_add vs j)) \<le> 16"
proof -
  obtain v sz where vs: "vs = (v, sz)" by fastforce
  obtain es b where t: "trim_oldest snd (\<lambda>n b. n \<ge> 16 \<or> b + sz > JOURNAL_BYTES) (jn_entries j) (jn_bytes j) = (es, b)"
    by fastforce
  note tf = trim_oldest_facts [OF t, of 0, simplified, OF assms]
  show "jn_bytes (journal_add vs j) = sum_list (map snd (jn_entries (journal_add vs j)))"
    using tf(1) by (simp add: journal_add_def vs t)
  show "jn_bytes (journal_add vs j) \<le> JOURNAL_BYTES" 
    using tf(1,3) by (cases "es = []") (auto simp: journal_add_def vs t)
  show "length (jn_entries j) \<le> 16 \<Longrightarrow> length (jn_entries (journal_add vs j)) \<le> 16"
    using tf(3) by (cases "es = []") (auto simp: journal_add_def vs t)
qed

interpretation journal: weighed_store
  "\<lambda>j. jn_bytes j = sum_list (map snd (jn_entries j))" jn_entries snd jn_bytes 0 JOURNAL_BYTES journal_add
  by unfold_locales (simp, rule journal_add_facts(1), assumption, rule journal_add_facts(2), assumption)

section \<open>Owner cache\<close>

text \<open>
  An \<open>OrderedDict\<close> from owner keys to a state, its class and its weight, oldest first.
  \<open>budget\<close> is \<open>engine.OWNER_BYTES\<close>; \<open>compute\<close> is \<open>engine._owner_state\<close> with the weight
  that \<open>retained_bytes\<close> gives its result.
\<close>

record ('k, 'v) owner_cache =
  oc_cache :: "('k \<times> 'v \<times> nat) list"
  oc_bytes :: nat

definition entry_weight :: "'k \<times> 'v \<times> nat \<Rightarrow> nat" where
  "entry_weight e = snd (snd e)"

definition owner_trim :: "nat \<Rightarrow> ('k, 'v) owner_cache \<Rightarrow> ('k, 'v) owner_cache" where
  "owner_trim budget c =
    (case trim_oldest entry_weight (\<lambda>n b. b > budget) (oc_cache c) (oc_bytes c) of
      (es, b) \<Rightarrow> c\<lparr>oc_cache := es, oc_bytes := b\<rparr>)"

definition owner_cached :: "('k, 'v) owner_cache \<Rightarrow> 'k \<Rightarrow> 'v option" where
  "owner_cached c k = map_option fst (map_of (oc_cache c) k)"

text \<open>\<open>self.cache.pop(key, None)\<close> with its bytes\<close>

definition owner_pop :: "('k, 'v) owner_cache \<Rightarrow> 'k \<Rightarrow> ('k, 'v) owner_cache" where
  "owner_pop c k = (case map_of (oc_cache c) k of None \<Rightarrow> c
     | Some (v, w) \<Rightarrow> c\<lparr>oc_cache := filter (\<lambda>e. fst e \<noteq> k) (oc_cache c), oc_bytes := oc_bytes c - w\<rparr>)"

definition owner_invalidate :: "nat \<Rightarrow> 'k list \<Rightarrow> bool \<Rightarrow> ('k, 'v) owner_cache \<Rightarrow> ('k, 'v) owner_cache" where
  "owner_invalidate budget ks clear c = owner_trim budget
     (if clear then c\<lparr>oc_cache := [], oc_bytes := 0\<rparr> else foldl owner_pop c ks)"

definition move_to_end :: "'k \<Rightarrow> ('k \<times> 'v) list \<Rightarrow> ('k \<times> 'v) list" where
  "move_to_end k d = filter (\<lambda>e. fst e \<noteq> k) d @ filter (\<lambda>e. fst e = k) d"

definition owner_state :: "nat \<Rightarrow> 'k \<Rightarrow> 'v \<times> nat \<Rightarrow> ('k, 'v) owner_cache \<Rightarrow> 'v \<times> ('k, 'v) owner_cache" where
  "owner_state budget k computed c =
    (case owner_cached c k of
       Some v \<Rightarrow> (v, c\<lparr>oc_cache := move_to_end k (oc_cache c)\<rparr>)
     | None \<Rightarrow> (case computed of (v, w) \<Rightarrow>
         (v, if w \<le> budget
             then owner_trim budget (c\<lparr>oc_cache := oc_cache c @ [(k, v, w)], oc_bytes := oc_bytes c + w\<rparr>)
             else c)))"

datatype ('k, 'v) owner_step = Invalidate "'k list" bool | Read 'k 'v nat

definition owner_apply :: "nat \<Rightarrow> ('k, 'v) owner_step \<Rightarrow> ('k, 'v) owner_cache \<Rightarrow> ('k, 'v) owner_cache" where
  "owner_apply budget q c = (case q of
     Invalidate ks clear \<Rightarrow> owner_invalidate budget ks clear c
   | Read k v w \<Rightarrow> snd (owner_state budget k (v, w) (owner_trim budget c)))"

definition owner_inv :: "('k, 'v) owner_cache \<Rightarrow> bool" where
  "owner_inv c = (oc_bytes c = sum_list (map entry_weight (oc_cache c)) \<and> distinct (map fst (oc_cache c)))"

lemma owner_trim_facts:
  assumes "owner_inv c"
  shows "owner_inv (owner_trim budget c)" "oc_bytes (owner_trim budget c) \<le> budget"
    "\<exists>zs. oc_cache c = zs @ oc_cache (owner_trim budget c)"
proof -
  obtain es b where t: "trim_oldest entry_weight (\<lambda>n b. b > budget) (oc_cache c) (oc_bytes c) = (es, b)" by fastforce
  have "oc_bytes c = 0 + sum_list (map entry_weight (oc_cache c))" using assms by (simp add: owner_inv_def)
  note tf = trim_oldest_facts [OF t this]
  have tr: "owner_trim budget c = c\<lparr>oc_cache := es, oc_bytes := b\<rparr>" by (simp add: owner_trim_def t)
  obtain zs where zs: "oc_cache c = zs @ es" using tf(2) by blast
  then show "\<exists>zs. oc_cache c = zs @ oc_cache (owner_trim budget c)" unfolding tr by simp
  show "owner_inv (owner_trim budget c)" using assms tf(1) zs unfolding tr by (simp add: owner_inv_def)
  show "oc_bytes (owner_trim budget c) \<le> budget"
    using tf(1,3) unfolding tr by (cases "es = []") auto
qed

lemma sum_list_remove_key:
  assumes "distinct (map fst d)" "map_of d k = Some v"
  shows "sum_list (map g d) = sum_list (map g (filter (\<lambda>e. fst e \<noteq> k) d)) + (g (k, v) :: nat)"
  using assms
proof (induction d)
  case (Cons x d)
  show ?case
  proof (cases "fst x = k")
    case True
    then have "filter (\<lambda>e. fst e \<noteq> k) d = d" using Cons.prems(1) by (auto simp: filter_id_conv image_iff)
    with True Cons.prems(2) show ?thesis by (cases x) auto
  qed (use Cons in \<open>cases x; auto\<close>)
qed simp

lemma distinct_filter_keys: "distinct (map fst d) \<Longrightarrow> distinct (map fst (filter P d))"
  by (induction d) auto

lemma owner_pop_inv:
  assumes "owner_inv c"
  shows "owner_inv (owner_pop c k)"
proof (cases "map_of (oc_cache c) k")
  case (Some vw)
  obtain v w where vw: "vw = (v, w)" by fastforce
  have "sum_list (map entry_weight (oc_cache c)) =
      sum_list (map entry_weight (filter (\<lambda>e. fst e \<noteq> k) (oc_cache c))) + entry_weight (k, vw)"
    by (rule sum_list_remove_key [OF _ Some]) (use assms in \<open>simp add: owner_inv_def\<close>)
  with assms Some vw show ?thesis
    by (simp add: owner_inv_def owner_pop_def distinct_filter_keys) (simp add: entry_weight_def)
qed (simp add: owner_pop_def assms)

lemma move_to_end_inv: "owner_inv c \<Longrightarrow> owner_inv (c\<lparr>oc_cache := move_to_end k (oc_cache c)\<rparr>)"
proof -
  have "sum_list (map entry_weight (filter (\<lambda>e. fst e \<noteq> k) d)) + sum_list (map entry_weight (filter (\<lambda>e. fst e = k) d)) =
      sum_list (map entry_weight d)" for d :: "('a \<times> 'b \<times> nat) list"
    by (induction d) auto
  then show "owner_inv c \<Longrightarrow> owner_inv (c\<lparr>oc_cache := move_to_end k (oc_cache c)\<rparr>)"
    by (auto simp: owner_inv_def move_to_end_def distinct_filter_keys)
qed

lemma owner_invalidate_facts:
  assumes "owner_inv c"
  shows "owner_inv (owner_invalidate budget ks clear c)" "oc_bytes (owner_invalidate budget ks clear c) \<le> budget"
proof -
  have "owner_inv (foldl owner_pop c ks)"
    using assms by (induction ks arbitrary: c) (simp_all add: owner_pop_inv)
  then have "owner_inv (if clear then c\<lparr>oc_cache := [], oc_bytes := 0\<rparr> else foldl owner_pop c ks)"
    by (simp add: owner_inv_def)
  from owner_trim_facts [OF this] show "owner_inv (owner_invalidate budget ks clear c)"
    "oc_bytes (owner_invalidate budget ks clear c) \<le> budget"
    by (simp_all add: owner_invalidate_def)
qed

lemma owner_state_facts:
  assumes "owner_inv c"
  shows "owner_inv (snd (owner_state budget k vw c))"
    "oc_bytes c \<le> budget \<Longrightarrow> oc_bytes (snd (owner_state budget k vw c)) \<le> budget"
    "snd vw \<le> budget \<or> owner_cached c k \<noteq> None \<Longrightarrow>
      owner_cached (snd (owner_state budget k vw c)) k = Some (fst (owner_state budget k vw c))"
proof -
  obtain v w where vw: "vw = (v, w)" by fastforce
  let ?d = "c\<lparr>oc_cache := oc_cache c @ [(k, v, w)], oc_bytes := oc_bytes c + w\<rparr>"
  have new: "owner_inv ?d" if "owner_cached c k = None"
    using assms that by (auto simp: owner_inv_def owner_cached_def entry_weight_def map_of_eq_None_iff)
  show "owner_inv (snd (owner_state budget k vw c))"
    using assms new owner_trim_facts(1) move_to_end_inv
    by (auto simp: owner_state_def vw split: option.split)
  show "oc_bytes c \<le> budget \<Longrightarrow> oc_bytes (snd (owner_state budget k vw c)) \<le> budget"
    using new owner_trim_facts(2) by (auto simp: owner_state_def vw split: option.split)
  show "snd vw \<le> budget \<or> owner_cached c k \<noteq> None \<Longrightarrow>
      owner_cached (snd (owner_state budget k vw c)) k = Some (fst (owner_state budget k vw c))"
  proof (cases "owner_cached c k")
    case None
    assume "snd vw \<le> budget \<or> owner_cached c k \<noteq> None"
    with None vw have w: "w \<le> budget" by simp
    have "oc_bytes ?d = 0 + sum_list (map entry_weight (oc_cache c @ [(k, v, w)]))"
      using new [OF None] by (simp add: owner_inv_def)
    from trim_oldest_newest [OF this, of "\<lambda>n b. b > budget"] w obtain ys b
      where t: "trim_oldest entry_weight (\<lambda>n b. b > budget) (oc_cache ?d) (oc_bytes ?d) = (ys @ [(k, v, w)], b)"
      by (auto simp: entry_weight_def)
    have tr: "owner_trim budget ?d = ?d\<lparr>oc_cache := ys @ [(k, v, w)], oc_bytes := b\<rparr>"
      unfolding owner_trim_def t by simp
    have "owner_inv (owner_trim budget ?d)" by (rule owner_trim_facts(1) [OF new [OF None]])
    then have "distinct (map fst (ys @ [(k, v, w)]))" unfolding tr by (simp add: owner_inv_def)
    then have "map_of (ys @ [(k, v, w)]) k = Some (v, w)" by (intro map_of_is_SomeI) auto
    with None w show ?thesis unfolding owner_state_def vw by (simp add: tr) (simp add: owner_cached_def)
  next
    case (Some u)
    then obtain n where n: "map_of (oc_cache c) k = Some (u, n)" by (auto simp: owner_cached_def)
    have "map_of (move_to_end k d) k = map_of d k" for d :: "('a \<times> 'b \<times> nat) list"
    proof -
      have "map_of (filter (\<lambda>e. fst e \<noteq> k) d) k = None" by (induction d) auto
      moreover have "map_of (filter (\<lambda>e. fst e = k) d) k = map_of d k" by (induction d) auto
      ultimately show ?thesis by (simp add: move_to_end_def map_add_def)
    qed
    with Some n show ?thesis by (simp add: owner_state_def vw) (simp add: owner_cached_def)
  qed
qed

interpretation owners: weighed_store owner_inv oc_cache entry_weight oc_bytes 0 budget "owner_apply budget" for budget
proof
  fix s :: "('a, 'b) owner_cache" and q assume a: "owner_inv s"
  show "oc_bytes s = 0 + sum_list (map entry_weight (oc_cache s))" using a by (simp add: owner_inv_def)
  show "owner_inv (owner_apply budget q s)"
    using a owner_invalidate_facts(1) owner_state_facts(1) [OF owner_trim_facts(1) [OF a]]
    by (cases q) (simp_all add: owner_apply_def)
  show "oc_bytes (owner_apply budget q s) \<le> budget"
    using a owner_invalidate_facts(2) owner_state_facts(2) [OF owner_trim_facts(1) [OF a] owner_trim_facts(2) [OF a]]
    by (cases q) (simp_all add: owner_apply_def)
qed

section \<open>Price equivalence cache\<close>

definition PRICE_CACHE_BYTES :: nat where "PRICE_CACHE_BYTES = 64 * 1024"
definition PRICE_CACHE_ENTRIES :: nat where "PRICE_CACHE_ENTRIES = 64"

type_synonym price_cache = "(string, bool) owner_cache"

text \<open>This loop pops without asking whether anything is left.\<close>

fun pop_while :: "('e \<Rightarrow> nat) \<Rightarrow> (nat \<Rightarrow> nat \<Rightarrow> bool) \<Rightarrow> 'e list \<Rightarrow> nat \<Rightarrow> pyerror + 'e list \<times> nat" where
  "pop_while w over [] b = (if over 0 b then Inl KeyError else Inr ([], b))"
| "pop_while w over (x # xs) b =
    (if over (length (x # xs)) b then pop_while w over xs (b - w x) else Inr (x # xs, b))"

definition price_over :: "nat \<Rightarrow> nat \<Rightarrow> bool" where
  "price_over n b = (n > PRICE_CACHE_ENTRIES \<or> b > PRICE_CACHE_BYTES)"

text \<open>\<open>same\<close> is the comparison of the stored snapshot's signature with the current one.\<close>

definition price_equivalent :: "string \<Rightarrow> string \<Rightarrow> bool \<Rightarrow> price_cache \<Rightarrow> pyerror + bool \<times> price_cache" where
  "price_equivalent current identifier same c =
    (if identifier = current then Inr (True, c)
     else case owner_cached c identifier of
       Some v \<Rightarrow> Inr (v, c\<lparr>oc_cache := move_to_end identifier (oc_cache c)\<rparr>)
     | None \<Rightarrow> (let weight = 128 + length identifier * 4 in
         if weight \<le> PRICE_CACHE_BYTES
         then bindE (pop_while entry_weight price_over (oc_cache c @ [(identifier, same, weight)]) (oc_bytes c + weight))
                (\<lambda>(es, b). Inr (same, c\<lparr>oc_cache := es, oc_bytes := b\<rparr>))
         else Inr (same, c)))"

lemma pop_while_trim:
  assumes "b = sum_list (map w xs)" "\<not> over 0 0"
  shows "pop_while w over xs b = Inr (trim_oldest w over xs b)"
  using assms by (induction xs arbitrary: b) auto

lemma price_equivalent_total:
  assumes "owner_inv c"
  shows "\<exists>v c'. price_equivalent current identifier same c = Inr (v, c') \<and> owner_inv c' \<and>
    (oc_bytes c \<le> PRICE_CACHE_BYTES \<longrightarrow> oc_bytes c' \<le> PRICE_CACHE_BYTES) \<and>
    (length (oc_cache c) \<le> PRICE_CACHE_ENTRIES \<longrightarrow> length (oc_cache c') \<le> PRICE_CACHE_ENTRIES)"
proof (cases "identifier = current")
  case True
  with assms show ?thesis by (auto simp: price_equivalent_def)
next
  case False
  show ?thesis
  proof (cases "owner_cached c identifier")
    case (Some v)
    have "length (move_to_end identifier d) = length d" for d :: "(string \<times> bool \<times> nat) list"
      by (simp add: move_to_end_def sum_length_filter_compl add.commute)
    with False Some assms show ?thesis by (simp add: price_equivalent_def move_to_end_inv)
  next
    case None
    let ?w = "128 + length identifier * 4"
    let ?es = "oc_cache c @ [(identifier, same, ?w)]" and ?b = "oc_bytes c + ?w"
    have b: "?b = sum_list (map entry_weight ?es)" using assms by (simp add: owner_inv_def) (simp add: entry_weight_def)
    obtain es b where t: "trim_oldest entry_weight price_over ?es ?b = (es, b)" by fastforce
    have pw: "pop_while entry_weight price_over ?es ?b = Inr (es, b)"
      unfolding t [symmetric] by (rule pop_while_trim [OF b]) (simp add: price_over_def)
    note tf = trim_oldest_facts [OF t, of 0, simplified, OF b [simplified]]
    obtain zs where zs: "?es = zs @ es" using tf(2) by blast
    have "distinct (map fst ?es)"
      using assms None by (auto simp: owner_inv_def owner_cached_def map_of_eq_None_iff)
    then have "owner_inv (c\<lparr>oc_cache := es, oc_bytes := b\<rparr>)"
      using tf(1) unfolding zs by (simp add: owner_inv_def)
    moreover have "b \<le> PRICE_CACHE_BYTES \<and> length es \<le> PRICE_CACHE_ENTRIES"
      using tf(1,3) by (cases "es = []") (auto simp: price_over_def)
    ultimately show ?thesis
      using False None assms pw by (simp add: price_equivalent_def Let_def)
  qed
qed

section \<open>Unassigned transports\<close>

record unassigned_row =
  ur_ts :: rat
  ur_text :: nat  \<comment> \<open>total length of its strings\<close>
  ur_json :: nat  \<comment> \<open>\<open>len(json.dumps(row).encode('utf-8'))\<close>\<close>

record registry =
  rg_unassigned :: "unassigned_row list"
  rg_sizes :: "nat list"
  rg_bytes :: nat
  rg_dropped :: nat

definition MAX_UNASSIGNED :: nat where "MAX_UNASSIGNED = 4096"
definition MAX_UNASSIGNED_BYTES :: nat where "MAX_UNASSIGNED_BYTES = 1024 * 1024"
definition WINDOW :: rat where "WINDOW = 1800"

definition init_registry :: registry where
  "init_registry = \<lparr>rg_unassigned = [], rg_sizes = [], rg_bytes = 2, rg_dropped = 0\<rparr>"

definition trim_unassigned :: "rat \<Rightarrow> registry \<Rightarrow> registry" where
  "trim_unassigned now r =
    (let pairs = zip (rg_unassigned r) (rg_sizes r);
         kept = filter (\<lambda>(row, sz). ur_ts row \<ge> now - WINDOW) pairs;
         gone = filter (\<lambda>(row, sz). \<not> ur_ts row \<ge> now - WINDOW) pairs
     in r\<lparr>rg_unassigned := map fst kept, rg_sizes := map snd kept,
          rg_bytes := rg_bytes r - sum_list (map snd gone)\<rparr>)"

definition add_unassigned :: "unassigned_row \<Rightarrow> registry \<Rightarrow> registry" where
  "add_unassigned row r =
    (if ur_text row > MAX_UNASSIGNED_BYTES then r\<lparr>rg_dropped := rg_dropped r + 1\<rparr>
     else (let sz = ur_json row + 2 in
       if sz + 2 > MAX_UNASSIGNED_BYTES then r\<lparr>rg_dropped := rg_dropped r + 1\<rparr>
       else (case trim_oldest snd (\<lambda>n b. n \<ge> MAX_UNASSIGNED \<or> b + sz > MAX_UNASSIGNED_BYTES)
               (zip (rg_unassigned r) (rg_sizes r)) (rg_bytes r) of
         (es, b) \<Rightarrow> r\<lparr>rg_unassigned := map fst es @ [row], rg_sizes := map snd es @ [sz], rg_bytes := b + sz,
                      rg_dropped := rg_dropped r + (length (rg_unassigned r) - length es)\<rparr>)))"

datatype registry_step = Trim rat | Add unassigned_row

definition registry_apply :: "registry_step \<Rightarrow> registry \<Rightarrow> registry" where
  "registry_apply q r = (case q of Trim now \<Rightarrow> trim_unassigned now r | Add row \<Rightarrow> add_unassigned row r)"

definition registry_inv :: "registry \<Rightarrow> bool" where
  "registry_inv r = (length (rg_sizes r) = length (rg_unassigned r) \<and> rg_bytes r = 2 + sum_list (rg_sizes r) \<and>
     length (rg_unassigned r) \<le> MAX_UNASSIGNED)"

lemma sum_list_filter_split:
  "sum_list (map f (filter P xs)) + sum_list (map f (filter (\<lambda>x. \<not> P x) xs)) = (sum_list (map f xs) :: nat)"
  by (induction xs) auto

lemma trim_unassigned_inv:
  assumes "registry_inv r"
  shows "registry_inv (trim_unassigned now r)" "rg_bytes (trim_unassigned now r) \<le> rg_bytes r"
proof -
  let ?ps = "zip (rg_unassigned r) (rg_sizes r)"
  let ?P = "\<lambda>(row, sz :: nat). ur_ts row \<ge> now - WINDOW"
  have "sum_list (map snd ?ps) = sum_list (rg_sizes r)" using assms by (simp add: registry_inv_def)
  then have "sum_list (map snd (filter ?P ?ps)) + sum_list (map snd (filter (\<lambda>x. \<not> ?P x) ?ps)) = sum_list (rg_sizes r)"
    using sum_list_filter_split [of snd ?P ?ps] by simp
  moreover have "filter (\<lambda>x. \<not> ?P x) ?ps = filter (\<lambda>(row, sz). \<not> ur_ts row \<ge> now - WINDOW) ?ps"
    by (rule filter_cong) auto
  moreover have "length (filter ?P ?ps) \<le> length (rg_unassigned r)"
    using length_filter_le [of ?P ?ps] by simp
  ultimately show "registry_inv (trim_unassigned now r)" "rg_bytes (trim_unassigned now r) \<le> rg_bytes r"
    using assms by (auto simp: registry_inv_def trim_unassigned_def Let_def)
qed

lemma add_unassigned_inv:
  assumes "registry_inv r" "rg_bytes r \<le> MAX_UNASSIGNED_BYTES"
  shows "registry_inv (add_unassigned row r)" "rg_bytes (add_unassigned row r) \<le> MAX_UNASSIGNED_BYTES"
    "rg_dropped (add_unassigned row r) + length (rg_unassigned (add_unassigned row r)) =
      rg_dropped r + length (rg_unassigned r) + 1"
proof -
  have all: "registry_inv (add_unassigned row r) \<and> rg_bytes (add_unassigned row r) \<le> MAX_UNASSIGNED_BYTES \<and>
    rg_dropped (add_unassigned row r) + length (rg_unassigned (add_unassigned row r)) =
      rg_dropped r + length (rg_unassigned r) + 1"
  proof (cases "ur_text row > MAX_UNASSIGNED_BYTES \<or> ur_json row + 4 > MAX_UNASSIGNED_BYTES")
    case True
    with assms show ?thesis by (auto simp: add_unassigned_def registry_inv_def)
  next
    case False
    let ?over = "\<lambda>n b. n \<ge> MAX_UNASSIGNED \<or> b + (ur_json row + 2) > MAX_UNASSIGNED_BYTES"
    let ?ps = "zip (rg_unassigned r) (rg_sizes r)"
    obtain es b where t: "trim_oldest snd ?over ?ps (rg_bytes r) = (es, b)" by fastforce
    have "rg_bytes r = 2 + sum_list (map snd ?ps)" using assms by (simp add: registry_inv_def)
    note tf = trim_oldest_facts [OF t this]
    have eq: "add_unassigned row r = r\<lparr>rg_unassigned := map fst es @ [row], rg_sizes := map snd es @ [ur_json row + 2],
        rg_bytes := b + (ur_json row + 2), rg_dropped := rg_dropped r + (length (rg_unassigned r) - length es)\<rparr>"
      using False t by (simp add: add_unassigned_def Let_def)
    have len: "length es \<le> length (rg_unassigned r)" using tf(4) assms by (simp add: registry_inv_def)
    have lim: "b + (ur_json row + 2) \<le> MAX_UNASSIGNED_BYTES \<and> length es < MAX_UNASSIGNED"
      using tf(1,3) False by (cases "es = []") (auto simp: MAX_UNASSIGNED_def not_le)
    show ?thesis
      unfolding eq using tf(1) len lim by (auto simp: registry_inv_def)
  qed
  then show "registry_inv (add_unassigned row r)" "rg_bytes (add_unassigned row r) \<le> MAX_UNASSIGNED_BYTES"
    "rg_dropped (add_unassigned row r) + length (rg_unassigned (add_unassigned row r)) =
      rg_dropped r + length (rg_unassigned r) + 1" by auto
qed

interpretation unassigned: weighed_store
  "\<lambda>r. registry_inv r \<and> rg_bytes r \<le> MAX_UNASSIGNED_BYTES" rg_sizes id rg_bytes 2 MAX_UNASSIGNED_BYTES registry_apply
proof
  fix s :: registry and q assume a: "registry_inv s \<and> rg_bytes s \<le> MAX_UNASSIGNED_BYTES"
  show "rg_bytes s = 2 + sum_list (map id (rg_sizes s))" using a by (simp add: registry_inv_def)
  show "registry_inv (registry_apply q s) \<and> rg_bytes (registry_apply q s) \<le> MAX_UNASSIGNED_BYTES"
    using a trim_unassigned_inv [of s] add_unassigned_inv [of s]
    by (cases q) (auto simp: registry_apply_def intro: order_trans)
  then show "rg_bytes (registry_apply q s) \<le> MAX_UNASSIGNED_BYTES" by blast
qed

section \<open>Further properties\<close>

text \<open>
  After any sequence of publications the journal's byte count is the sum of its entries, within the budget,
  with at most sixteen entries.
\<close>

theorem journal_always_bounded:
  "jn_bytes (foldl (\<lambda>j v. journal_offer v j) init_journal vs) =
     sum_list (map snd (jn_entries (foldl (\<lambda>j v. journal_offer v j) init_journal vs))) \<and>
   jn_bytes (foldl (\<lambda>j v. journal_offer v j) init_journal vs) \<le> JOURNAL_BYTES \<and>
   length (jn_entries (foldl (\<lambda>j v. journal_offer v j) init_journal vs)) \<le> 16"
proof -
  have offered: "foldl (\<lambda>j v. journal_offer v j) j vs = foldl (\<lambda>j v. journal_add v j) j (List.map_filter id vs)" for j
    by (induction vs arbitrary: j) (simp_all add: journal_offer_def List.map_filter_simps split: option.splits)
  have "jn_bytes j = sum_list (map snd (jn_entries j)) \<Longrightarrow> length (jn_entries j) \<le> 16 \<Longrightarrow>
      length (jn_entries (foldl (\<lambda>j v. journal_add v j) j ws)) \<le> 16" for j ws
    by (induction ws arbitrary: j) (auto intro: journal_add_facts)
  moreover have start: "jn_bytes init_journal = sum_list (map snd (jn_entries init_journal))" "length (jn_entries init_journal) \<le> 16"
      "jn_bytes init_journal \<le> JOURNAL_BYTES"
    by (simp_all add: init_journal_def)
  ultimately show ?thesis using journal.history_accounted [OF start(1), of "List.map_filter id vs"]
    unfolding offered by (cases "List.map_filter id vs = []") simp_all
qed

text \<open>
  The change set that the journal gives between two generations is the composition of the publications between
  them: applying it to the owners of the first gives the owners after applying each publication in turn.
\<close>

theorem between_is_replay:
  "publish_all p until K es = map_option (\<lambda>(c, r). (K \<union> c) - r) (follow p until ({}, {}) es)"
  using follow_publishes [of p until K "{}" "{}" es] by simp

text \<open>
  The loop that trims the price comparison cache never pops an empty one: every lookup returns, keeps the byte
  account exact, and keeps the cache within its byte and entry limits.
\<close>

theorem price_cache_never_raises:
  assumes "owner_inv c"
  shows "\<exists>v c'. price_equivalent current identifier same c = Inr (v, c') \<and> owner_inv c' \<and>
    (oc_bytes c \<le> PRICE_CACHE_BYTES \<longrightarrow> oc_bytes c' \<le> PRICE_CACHE_BYTES) \<and>
    (length (oc_cache c) \<le> PRICE_CACHE_ENTRIES \<longrightarrow> length (oc_cache c') \<le> PRICE_CACHE_ENTRIES)"
  using assms by (rule price_equivalent_total)

theorem price_cache_never_raises_witness:
  "\<exists>v c'. price_equivalent ''now'' ''old'' False \<lparr>oc_cache = [], oc_bytes = 0\<rparr> = Inr (v, c') \<and> owner_inv c'"
  using price_cache_never_raises [of "\<lparr>oc_cache = [], oc_bytes = 0\<rparr>" "''now''" "''old''" False]
  by (auto simp: owner_inv_def)


end
