(* ===== verification/Cache_Health.thy ===== *)
theory Cache_Health
  imports Pricing
begin

text \<open>
  Cache incident classification: \<open>cachemonitor/cache_health.py\<close> (a per-session state
  machine over priced calls, replayed incrementally) and the miss accounting of
  \<open>cachemonitor/cache_misses.py\<close>. The incident the tracker points at is the same object
  as its entry of \<open>events\<close>; the model keeps the entries in \<open>h_events\<close> and a reference,
  the index \<open>h_incident\<close>, so that updates through either name are visible through both.
\<close>

section \<open>Rows and conditions\<close>

type_synonym segment = "string option \<times> string option \<times> string \<times> string option"

definition or_none :: "string option \<Rightarrow> string option" where
  "or_none v = (if v = Some '''' then None else v)"

definition segment :: "call \<Rightarrow> segment" where
  "segment row = (or_none (c_model row), or_none (c_effort row), request_tier row, c_cache_policy row)"

definition tracked :: "call \<Rightarrow> bool" where
  "tracked r = (c_purpose r \<notin> {Some ''maintenance'', Some ''diagnostic''})"

definition ordered :: "call list \<Rightarrow> call list" where
  "ordered rows = sort_key c_ts (filter tracked rows)"

definition valid_row :: "call \<Rightarrow> bool" where
  "valid_row row = (case (token_number (c_input row), token_number (c_cached row)) of
     (Some i, Some c) \<Rightarrow> i > 0 \<and> c \<le> i \<and>
        \<not> (c_observation_missing row \<or> c_cache_policy_conflict row \<or> c_model_conflict row \<or>
           c_mode_conflict row \<or> c_input_conflict row)
   | _ \<Rightarrow> False)"

text \<open>\<open>row['input']\<close> and \<open>row['cached']\<close> of a valid row.\<close>

definition inp_of :: "call \<Rightarrow> rat" where "inp_of r = of_int (num_or0 (c_input r))"
definition cached_of :: "call \<Rightarrow> rat" where "cached_of r = of_int (num_or0 (c_cached r))"

section \<open>Tracker state\<close>

datatype health_state = On_hold | Suspected | Recovery_confirmed | Read_zero

datatype reason = Few_samples | Missing_or_conflicting | Recovered_twice
  | Degraded nat nat | Once_degraded | No_repetition

record incident =
  i_id :: string
  i_first_key :: string
  i_latest_key :: string
  i_ts :: rat
  i_updated_at :: rat
  i_count :: nat
  i_segment :: segment
  i_baseline_read :: rat
  i_baseline_rate :: rat
  i_baseline_keys :: "string list"
  i_occurrence_keys :: "string list"
  i_recovery_keys :: "string list"
  i_recovery_key :: "string option"
  i_ended_at :: "rat option"
  i_resolved :: bool

record tracker =
  h_baseline :: "call list"
  h_scope :: "segment option"
  h_incident :: "nat option"
  h_last :: "call option"
  h_count :: nat
  h_recovery :: nat
  h_candidate :: nat
  h_missing :: nat
  h_candidate_rows :: "call list"
  h_recovery_rows :: "call list"
  h_events :: "incident list"
  h_state :: health_state
  h_reason :: reason

definition init_tracker :: tracker where
  "init_tracker = \<lparr>h_baseline = [], h_scope = None, h_incident = None, h_last = None, h_count = 0,
     h_recovery = 0, h_candidate = 0, h_missing = 0, h_candidate_rows = [], h_recovery_rows = [],
     h_events = [], h_state = On_hold, h_reason = Few_samples\<rparr>"

text \<open>\<open>deque(maxlen=5).append\<close>\<close>

definition push5 :: "call list \<Rightarrow> call \<Rightarrow> call list" where
  "push5 xs x = (let ys = xs @ [x] in drop (length ys - 5) ys)"

definition current_incident :: "tracker \<Rightarrow> incident option" where
  "current_incident h = (case h_incident h of None \<Rightarrow> None | Some i \<Rightarrow> Some (h_events h ! i))"

definition open_incident :: "tracker \<Rightarrow> bool" where
  "open_incident h = (case current_incident h of None \<Rightarrow> False | Some e \<Rightarrow> \<not> i_resolved e)"

text \<open>A new segment, a compaction, or an input below the last read clears the comparison.\<close>

definition boundary :: "tracker \<Rightarrow> call \<Rightarrow> bool" where
  "boundary h row = (Some (segment row) \<noteq> h_scope h \<or>
     (case h_last h of None \<Rightarrow> False | Some l \<Rightarrow>
        c_compaction_epoch row \<noteq> c_compaction_epoch l \<or>
        (valid_row row \<and> valid_row l \<and> inp_of row < cached_of l)))"

definition enter_scope :: "tracker \<Rightarrow> call \<Rightarrow> tracker" where
  "enter_scope h row = (if boundary h row
     then h\<lparr>h_baseline := [], h_scope := Some (segment row), h_candidate_rows := [],
            h_recovery_rows := [], h_candidate := 0, h_recovery := 0, h_incident := None\<rparr>
     else h)"

definition base_rate :: "call list \<Rightarrow> rat" where
  "base_rate base = (let n = sum_list (map inp_of base)
     in if n \<noteq> 0 then sum_list (map cached_of base) / n else 0)"

definition base_read :: "call list \<Rightarrow> rat" where
  "base_read base = (if base \<noteq> [] then sum_list (map cached_of base) / of_nat (length base) else 0)"

definition confirmed_segment :: "segment \<Rightarrow> bool" where
  "confirmed_segment s = (case s of (m, e, t, _) \<Rightarrow>
     m \<notin> {None, Some '''', Some mihwagin} \<and> e \<notin> {None, Some '''', Some mihwagin} \<and> t \<notin> {'''', mihwagin})"

definition comparable :: "call list \<Rightarrow> segment \<Rightarrow> bool" where
  "comparable base s = (length base \<ge> 3 \<and> confirmed_segment s \<and> base_read base > 0)"

definition epsilon :: rat where "epsilon = 1 / 1000000000000"

definition bad_row :: "call list \<Rightarrow> call \<Rightarrow> bool" where
  "bad_row base row = (comparable base (segment row) \<and>
     base_rate base - cached_of row / inp_of row \<ge> 3/10 - epsilon \<and>
     cached_of row \<le> base_read base * (5/10))"

definition recovered_row :: "incident \<Rightarrow> call \<Rightarrow> bool" where
  "recovered_row e row = (cached_of row > 0 \<and> cached_of row \<ge> i_baseline_read e * (8/10) \<and>
     cached_of row / inp_of row \<ge> i_baseline_rate e - 1/10 - epsilon)"

definition note_occurrence :: "call \<Rightarrow> incident \<Rightarrow> incident" where
  "note_occurrence row e = e\<lparr>i_occurrence_keys := i_occurrence_keys e @ [c_key row],
     i_count := length (i_occurrence_keys e @ [c_key row]), i_latest_key := c_key row, i_updated_at := c_ts row\<rparr>"

definition resolve_incident :: "call \<Rightarrow> call list \<Rightarrow> incident \<Rightarrow> incident" where
  "resolve_incident row rec e = e\<lparr>i_resolved := True, i_ended_at := Some (c_ts row),
     i_recovery_keys := map c_key rec, i_recovery_key := Some (c_key row)\<rparr>"

definition new_incident :: "call list \<Rightarrow> call list \<Rightarrow> call \<Rightarrow> incident" where
  "new_incident base cand row = \<lparr>i_id = ''cache:'' @ c_key (hd cand), i_first_key = c_key (hd cand),
     i_latest_key = c_key row, i_ts = c_ts (hd cand), i_updated_at = c_ts row, i_count = length cand,
     i_segment = segment row, i_baseline_read = base_read base, i_baseline_rate = base_rate base,
     i_baseline_keys = map c_key base, i_occurrence_keys = map c_key cand, i_recovery_keys = [],
     i_recovery_key = None, i_ended_at = None, i_resolved = False\<rparr>"

text \<open>The three branches of a valid row, and the common tail of \<open>consume\<close>.\<close>

definition consume_open :: "tracker \<Rightarrow> nat \<Rightarrow> call \<Rightarrow> tracker" where
  "consume_open h i row =
    (let e0 = h_events h ! i;
         rec = (if recovered_row e0 row then h_recovery_rows h @ [row] else []);
         e1 = (if bad_row (h_baseline h) row then note_occurrence row e0 else e0)
     in if length rec \<ge> 2
        then h\<lparr>h_events := (h_events h)[i := resolve_incident row rec e1], h_recovery_rows := rec,
               h_state := Recovery_confirmed, h_reason := Recovered_twice,
               h_baseline := drop (length rec - 5) rec, h_candidate_rows := []\<rparr>
        else h\<lparr>h_events := (h_events h)[i := e1], h_recovery_rows := rec, h_state := Suspected,
               h_reason := Degraded (i_count e1) (length (i_baseline_keys e1))\<rparr>)"

definition consume_bad :: "tracker \<Rightarrow> call \<Rightarrow> tracker" where
  "consume_bad h row =
    (let cand = h_candidate_rows h @ [row]; base = h_baseline h
     in if length cand \<ge> 2
        then h\<lparr>h_candidate_rows := cand, h_count := h_count h + 1, h_recovery_rows := [],
               h_incident := Some (length (h_events h)),
               h_events := h_events h @ [new_incident base cand row],
               h_state := Suspected, h_reason := Degraded (length cand) (length base)\<rparr>
        else h\<lparr>h_candidate_rows := cand, h_state := On_hold, h_reason := Once_degraded\<rparr>)"

definition consume_good :: "tracker \<Rightarrow> call \<Rightarrow> tracker" where
  "consume_good h row = h\<lparr>h_candidate_rows := [],
     h_state := (if cached_of row = 0 then Read_zero else On_hold),
     h_reason := (if \<not> comparable (h_baseline h) (segment row) then Few_samples else No_repetition),
     h_baseline := push5 (h_baseline h) row\<rparr>"

definition finish_row :: "call \<Rightarrow> tracker \<Rightarrow> tracker" where
  "finish_row row h = h\<lparr>h_candidate := length (h_candidate_rows h),
     h_recovery := length (h_recovery_rows h), h_last := Some row\<rparr>"

definition consume_call :: "tracker \<Rightarrow> call \<Rightarrow> tracker" where
  "consume_call h0 row =
    (let h = enter_scope h0 row in
     if \<not> valid_row row then
       h\<lparr>h_state := On_hold, h_reason := Missing_or_conflicting, h_candidate_rows := [],
         h_recovery_rows := [], h_candidate := 0, h_recovery := 0,
         h_missing := h_missing h + 1, h_last := Some row\<rparr>
     else finish_row row
       (case h_incident h of
          Some i \<Rightarrow> if \<not> i_resolved (h_events h ! i) then consume_open h i row
                    else if bad_row (h_baseline h) row then consume_bad h row else consume_good h row
        | None \<Rightarrow> if bad_row (h_baseline h) row then consume_bad h row else consume_good h row))"

section \<open>Incremental update\<close>

record cache_health =
  ch_rows :: "call list"
  ch_tracker :: tracker

definition init_health :: cache_health where
  "init_health = \<lparr>ch_rows = [], ch_tracker = init_tracker\<rparr>"

record health_report =
  hr_state :: health_state
  hr_reason :: reason
  hr_incident :: "incident option"
  hr_incidents :: nat
  hr_events :: "incident list"
  hr_recent_rate :: "rat option"
  hr_valid :: nat
  hr_sample :: nat
  hr_partial :: bool

text \<open>
  \<open>same\<close> is object identity (\<open>a is b\<close>) of the rows handed in now and those of the
  previous update.
\<close>

definition refresh :: "(call \<Rightarrow> call \<Rightarrow> bool) \<Rightarrow> cache_health \<Rightarrow> call list \<Rightarrow> cache_health" where
  "refresh same c rows0 =
    (let rows = ordered rows0;
         c' = (if length rows < length (ch_rows c) \<or> \<not> list_all (\<lambda>(a, b). same a b) (zip (ch_rows c) rows)
               then init_health else c)
     in \<lparr>ch_rows = rows, ch_tracker = foldl consume_call (ch_tracker c') (drop (length (ch_rows c')) rows)\<rparr>)"

text \<open>The newest rows of the current segment, at most five, newest first.\<close>

definition recent_rows :: "tracker \<Rightarrow> call list \<Rightarrow> call list" where
  "recent_rows h rows = takeWhile (\<lambda>r. Some (segment r) = h_scope h) (rev (drop (length rows - 5) rows))"

definition health_report_of :: "cache_health \<Rightarrow> health_report" where
  "health_report_of c =
    (let h = ch_tracker c; recent = recent_rows h (ch_rows c); valid = filter valid_row recent;
         tot = sum_list (map inp_of valid)
     in \<lparr>hr_state = h_state h, hr_reason = h_reason h, hr_incident = current_incident h,
         hr_incidents = length (h_events h), hr_events = h_events h,
         hr_recent_rate = (if tot \<noteq> 0 then Some (sum_list (map cached_of valid) / tot * 100) else None),
         hr_valid = length valid, hr_sample = length recent,
         hr_partial = (length valid \<noteq> length recent)\<rparr>)"

definition update_health :: "(call \<Rightarrow> call \<Rightarrow> bool) \<Rightarrow> cache_health \<Rightarrow> call list \<Rightarrow> cache_health \<times> health_report" where
  "update_health same c rows = (let c' = refresh same c rows in (c', health_report_of c'))"

section \<open>Cache misses\<close>

record miss_event =
  m_key :: string
  m_ts :: rat
  m_input :: "int option"

record misses =
  m_count :: nat
  m_total :: int
  m_missing :: nat
  m_events :: "miss_event list"
  m_first_key :: "string option"
  m_current :: bool

text \<open>\<open>type(r['input']) is int and r['input']>0 and type(r['cached']) is int and r['cached']==0\<close>\<close>

definition is_miss :: "call \<Rightarrow> bool" where
  "is_miss r = (case (c_input r, c_cached r) of (PInt i, PInt c) \<Rightarrow> i > 0 \<and> c = 0 | _ \<Rightarrow> False)"

definition miss_of :: "call \<Rightarrow> miss_event" where
  "miss_of r = \<lparr>m_key = c_key r, m_ts = c_ts r, m_input = token_number (c_input r)\<rparr>"

definition classify_misses :: "call list \<Rightarrow> misses" where
  "classify_misses rows =
    (let ord = ordered rows; events = map miss_of (filter is_miss ord);
         known = List.map_filter m_input events
     in \<lparr>m_count = length events, m_total = sum_list known,
         m_missing = length events - length known, m_events = events,
         m_first_key = (case ord of [] \<Rightarrow> None | r # _ \<Rightarrow> Some (c_key r)),
         m_current = (ord \<noteq> [] \<and> events \<noteq> [] \<and> c_key (last ord) = m_key (last events))\<rparr>)"


section \<open>Invariant of the tracker\<close>

definition event_ok :: "incident \<Rightarrow> bool" where
  "event_ok e = (i_count e = length (i_occurrence_keys e) \<and> 2 \<le> i_count e \<and>
     3 \<le> length (i_baseline_keys e) \<and> 0 < i_baseline_read e \<and>
     i_first_key e = hd (i_occurrence_keys e) \<and> i_latest_key e = last (i_occurrence_keys e) \<and>
     (if i_resolved e then length (i_recovery_keys e) = 2 \<and> i_ended_at e \<noteq> None
      else i_recovery_keys e = []))"

definition in_scope :: "tracker \<Rightarrow> call \<Rightarrow> bool" where
  "in_scope h r = (valid_row r \<and> h_scope h = Some (segment r))"

definition incident_ok :: "tracker \<Rightarrow> bool" where
  "incident_ok h = (case h_incident h of
     None \<Rightarrow> length (h_candidate_rows h) \<le> 1
   | Some i \<Rightarrow> Suc i = length (h_events h) \<and>
       (if i_resolved (h_events h ! i) then length (h_candidate_rows h) \<le> 1
        else length (h_recovery_rows h) \<le> 1 \<and>
             i_baseline_read (h_events h ! i) = base_read (h_baseline h) \<and>
             i_baseline_rate (h_events h ! i) = base_rate (h_baseline h)))"

definition tracker_inv :: "tracker \<Rightarrow> bool" where
  "tracker_inv h = (length (h_baseline h) \<le> 5 \<and>
     (\<forall>r \<in> set (h_baseline h) \<union> set (h_candidate_rows h) \<union> set (h_recovery_rows h). in_scope h r) \<and>
     h_count h = length (h_events h) \<and> (\<forall>e \<in> set (h_events h). event_ok e) \<and> incident_ok h)"

lemmas tracker_inv_defs = tracker_inv_def incident_ok_def in_scope_def

lemma init_tracker_inv: "tracker_inv init_tracker"
  by (simp add: tracker_inv_defs init_tracker_def)

lemma enter_scope_inv: "tracker_inv h \<Longrightarrow> tracker_inv (enter_scope h row)"
  by (auto simp: enter_scope_def tracker_inv_defs)

lemma enter_scope_scope: "h_scope (enter_scope h row) = Some (segment row)"
  by (simp add: enter_scope_def boundary_def)

lemma enter_scope_events [simp]: "h_events (enter_scope h row) = h_events h"
  by (simp add: enter_scope_def)

lemma event_ok_note: "event_ok e \<Longrightarrow> \<not> i_resolved e \<Longrightarrow> event_ok (note_occurrence row e)"
  by (cases "i_occurrence_keys e") (auto simp: event_ok_def note_occurrence_def)

lemma note_occurrence_fields [simp]:
  "i_resolved (note_occurrence row e) = i_resolved e"
  "i_baseline_read (note_occurrence row e) = i_baseline_read e"
  "i_baseline_rate (note_occurrence row e) = i_baseline_rate e"
  by (simp_all add: note_occurrence_def)

lemma event_ok_resolve: "event_ok e \<Longrightarrow> length rec = 2 \<Longrightarrow> event_ok (resolve_incident row rec e)"
  by (simp add: event_ok_def resolve_incident_def)

lemma event_ok_new:
  assumes "bad_row base row" "length cand = 2" "last cand = row"
  shows "event_ok (new_incident base cand row)"
proof -
  from assms(2) obtain a b where "cand = [a, b]"
    by (metis One_nat_def Suc_1 length_0_conv length_Suc_conv)
  with assms show ?thesis
    by (auto simp: event_ok_def new_incident_def bad_row_def comparable_def)
qed

lemma set_update_events: "\<forall>e \<in> set es. P e \<Longrightarrow> P x \<Longrightarrow> \<forall>e \<in> set (es[i := x]). P e"
  using set_update_subset_insert by fastforce

lemma push5_length: "length (push5 xs x) \<le> 5"
  by (simp add: push5_def Let_def)

lemma push5_set: "set (push5 xs x) \<subseteq> insert x (set xs)"
  using set_drop_subset [of "length xs + 1 - 5" "xs @ [x]"] by (auto simp: push5_def Let_def)

lemma finish_row_inv: "tracker_inv (finish_row row h) = tracker_inv h"
  by (cases "h_incident h") (simp_all add: finish_row_def tracker_inv_defs)

lemma consume_open_split:
  assumes "rec = (if recovered_row (h_events h ! i) row then h_recovery_rows h @ [row] else [])"
    and "e1 = (if bad_row (h_baseline h) row then note_occurrence row (h_events h ! i) else h_events h ! i)"
  shows "consume_open h i row = (if length rec \<ge> 2
      then h\<lparr>h_events := (h_events h)[i := resolve_incident row rec e1], h_recovery_rows := rec,
             h_state := Recovery_confirmed, h_reason := Recovered_twice,
             h_baseline := drop (length rec - 5) rec, h_candidate_rows := []\<rparr>
      else h\<lparr>h_events := (h_events h)[i := e1], h_recovery_rows := rec, h_state := Suspected,
             h_reason := Degraded (i_count e1) (length (i_baseline_keys e1))\<rparr>)"
  unfolding consume_open_def Let_def assms [symmetric] by (rule refl)

lemma consume_open_inv:
  assumes inv: "tracker_inv h" and i: "h_incident h = Some i" "\<not> i_resolved (h_events h ! i)"
    and row: "in_scope h row"
  shows "tracker_inv (consume_open h i row)"
proof -
  obtain rec where rec: "rec = (if recovered_row (h_events h ! i) row then h_recovery_rows h @ [row] else [])" by simp
  obtain e1 where e1: "e1 = (if bad_row (h_baseline h) row then note_occurrence row (h_events h ! i) else h_events h ! i)" by simp
  from inv i have len: "i < length (h_events h)" "Suc i = length (h_events h)" and e0: "event_ok (h_events h ! i)"
    and r1: "length (h_recovery_rows h) \<le> 1" and c: "h_count h = length (h_events h)"
    and base: "i_baseline_read (h_events h ! i) = base_read (h_baseline h)"
      "i_baseline_rate (h_events h ! i) = base_rate (h_baseline h)"
    by (simp_all add: tracker_inv_defs)
  have e1p: "event_ok e1" "\<not> i_resolved e1" "i_baseline_read e1 = base_read (h_baseline h)"
      "i_baseline_rate e1 = base_rate (h_baseline h)"
    using e0 i(2) base unfolding e1 by (simp_all add: event_ok_note)
  have recs: "\<forall>r \<in> set rec. in_scope h r" and lrec: "length rec \<le> 2"
    using inv row r1 unfolding rec by (auto simp: tracker_inv_def)
  have olds: "length (h_baseline h) \<le> 5" "\<forall>e \<in> set (h_events h). event_ok e"
      "\<forall>r \<in> set (h_baseline h) \<union> set (h_candidate_rows h). in_scope h r"
    using inv by (simp_all add: tracker_inv_def)
  show ?thesis
  proof (cases "length rec \<ge> 2")
    case True
    with lrec have l2: "length rec = 2" by simp
    have "\<forall>e \<in> set ((h_events h)[i := resolve_incident row rec e1]). event_ok e"
      using olds(2) event_ok_resolve [OF e1p(1) l2] by (rule set_update_events)
    then show ?thesis
      using recs l2 len c i(1)
      by (simp add: consume_open_split [OF rec e1] tracker_inv_defs resolve_incident_def)
  next
    case False
    have "\<forall>e \<in> set ((h_events h)[i := e1]). event_ok e"
      using olds(2) e1p(1) by (rule set_update_events)
    then show ?thesis
      using False recs len c i(1) e1p olds
      by (simp add: consume_open_split [OF rec e1] tracker_inv_defs ball_Un)
  qed
qed

lemma consume_bad_inv:
  assumes inv: "tracker_inv h" and closed: "\<not> open_incident h" and row: "in_scope h row"
    and bad: "bad_row (h_baseline h) row"
  shows "tracker_inv (consume_bad h row)"
proof -
  from inv closed have c1: "length (h_candidate_rows h) \<le> 1"
    by (auto simp: tracker_inv_defs open_incident_def current_incident_def split: option.splits if_splits)
  show ?thesis
  proof (cases "length (h_candidate_rows h @ [row]) \<ge> 2")
    case True
    then have "event_ok (new_incident (h_baseline h) (h_candidate_rows h @ [row]) row)"
      using c1 by (intro event_ok_new [OF bad]) auto
    with True inv row show ?thesis
      by (auto simp: tracker_inv_defs consume_bad_def Let_def nth_append new_incident_def)
  next
    case False
    then have "h_candidate_rows h = []" by (cases "h_candidate_rows h") auto
    with inv closed row show ?thesis
      by (auto simp: tracker_inv_defs consume_bad_def Let_def open_incident_def current_incident_def
          split: option.splits if_splits)
  qed
qed

lemma consume_good_inv:
  assumes inv: "tracker_inv h" and closed: "\<not> open_incident h" and row: "in_scope h row"
  shows "tracker_inv (consume_good h row)"
  using inv closed row push5_length [of "h_baseline h" row] push5_set [of "h_baseline h" row]
  by (auto simp: tracker_inv_defs consume_good_def open_incident_def current_incident_def
      split: option.splits if_splits)

lemma open_incident_iff:
  "open_incident h = (case h_incident h of None \<Rightarrow> False | Some i \<Rightarrow> \<not> i_resolved (h_events h ! i))"
  by (simp add: open_incident_def current_incident_def split: option.split)

text \<open>\<open>consume\<close> with its case distinctions named.\<close>

lemma consume_call_cases:
  "consume_call h row =
    (let g = enter_scope h row in
     if \<not> valid_row row then
       g\<lparr>h_state := On_hold, h_reason := Missing_or_conflicting, h_candidate_rows := [],
         h_recovery_rows := [], h_candidate := 0, h_recovery := 0,
         h_missing := h_missing g + 1, h_last := Some row\<rparr>
     else finish_row row
       (if open_incident g then consume_open g (the (h_incident g)) row
        else if bad_row (h_baseline g) row then consume_bad g row else consume_good g row))"
  by (auto simp: consume_call_def Let_def open_incident_iff split: option.split)

lemma consume_call_inv:
  assumes "tracker_inv h"
  shows "tracker_inv (consume_call h row)"
proof -
  let ?g = "enter_scope h row"
  from assms have g: "tracker_inv ?g" by (rule enter_scope_inv)
  show ?thesis
  proof (cases "valid_row row")
    case False
    have "incident_ok ?g" "\<forall>r \<in> set (h_baseline ?g). in_scope ?g r"
      using g by (auto simp: tracker_inv_def)
    with False g show ?thesis
      by (auto simp: consume_call_cases Let_def tracker_inv_def incident_ok_def in_scope_def split: option.splits)
  next
    case True
    then have row: "in_scope ?g row"
      by (simp add: in_scope_def enter_scope_scope)
    show ?thesis
    proof (cases "open_incident ?g")
      case o: True
      then obtain i where i: "h_incident ?g = Some i" "\<not> i_resolved (h_events ?g ! i)"
        by (auto simp: open_incident_iff split: option.splits)
      from consume_open_inv [OF g i row] o i(1) True show ?thesis
        by (simp add: consume_call_cases Let_def finish_row_inv)
    next
      case False
      with True g row show ?thesis
        by (simp add: consume_call_cases Let_def finish_row_inv consume_bad_inv consume_good_inv)
    qed
  qed
qed

lemma foldl_consume_inv: "tracker_inv h \<Longrightarrow> tracker_inv (foldl consume_call h rows)"
  by (induction rows arbitrary: h) (auto intro: consume_call_inv)

section \<open>Incremental update equals a full replay\<close>

lemma foldl_drop_prefix:
  assumes "xs = take (length xs) ys"
  shows "foldl f (foldl f a xs) (drop (length xs) ys) = foldl f a ys"
proof -
  have "foldl f (foldl f a xs) (drop (length xs) ys) = foldl f a (xs @ drop (length xs) ys)" by simp
  also have "xs @ drop (length xs) ys = ys" using assms by (metis append_take_drop_id)
  finally show ?thesis .
qed

lemma list_all_zip_prefix:
  assumes "length xs \<le> length ys" "list_all (\<lambda>(a, b). a = b) (zip xs ys)"
  shows "xs = take (length xs) ys"
  using assms by (induction xs ys rule: list_induct2') auto

definition replayed :: "cache_health \<Rightarrow> bool" where
  "replayed c = (ch_tracker c = foldl consume_call init_tracker (ch_rows c))"

lemma init_health_replayed: "replayed init_health"
  by (simp add: replayed_def init_health_def)

lemma refresh_replayed:
  assumes same: "\<And>a b. same a b \<Longrightarrow> a = b" and c: "replayed c"
  shows "refresh same c rows = \<lparr>ch_rows = ordered rows, ch_tracker = foldl consume_call init_tracker (ordered rows)\<rparr>"
proof (cases "length (ordered rows) < length (ch_rows c) \<or> \<not> list_all (\<lambda>(a, b). same a b) (zip (ch_rows c) (ordered rows))")
  case True
  then show ?thesis by (simp add: refresh_def Let_def init_health_def)
next
  case False
  then have "ch_rows c = take (length (ch_rows c)) (ordered rows)"
    using same by (intro list_all_zip_prefix) (auto simp: list_all_iff)
  from foldl_drop_prefix [OF this, of consume_call init_tracker] c False show ?thesis
    by (simp add: refresh_def Let_def replayed_def)
qed

lemma foldl_refresh_replayed:
  assumes same: "\<And>a b. same a b \<Longrightarrow> a = b" and "replayed c"
  shows "replayed (foldl (refresh same) c updates)"
  using assms(2)
proof (induction updates arbitrary: c)
  case (Cons u us)
  have "replayed (refresh same c u)"
    using refresh_replayed [of same, OF same Cons.prems] by (simp add: replayed_def)
  then show ?case using Cons.IH by simp
qed simp

lemma events_consume_open: "length (h_events (consume_open h i row)) = length (h_events h)"
  by (simp add: consume_open_def Let_def)

lemma events_consume_good [simp]: "h_events (consume_good h row) = h_events h"
  by (simp add: consume_good_def)

lemma events_finish [simp]: "h_events (finish_row row h) = h_events h"
  by (simp add: finish_row_def)

lemma new_event_needs:
  assumes "length (h_events (consume_call h row)) > length (h_events h)"
  shows "valid_row row \<and> \<not> boundary h row \<and> \<not> open_incident h \<and> bad_row (h_baseline h) row \<and> h_candidate_rows h \<noteq> []"
proof -
  let ?g = "enter_scope h row"
  from assms have v: "valid_row row" and o: "\<not> open_incident ?g" and b: "bad_row (h_baseline ?g) row"
    by (auto simp: consume_call_cases Let_def events_consume_open split: if_splits)
  with assms have c: "h_candidate_rows ?g \<noteq> []"
    by (auto simp: consume_call_cases Let_def consume_bad_def)
  then have "\<not> boundary h row" by (auto simp: enter_scope_def)
  with v o b c show ?thesis by (simp add: enter_scope_def)
qed

lemma invalid_row_events: "\<not> valid_row row \<Longrightarrow> h_events (consume_call h row) = h_events h"
  by (simp add: consume_call_cases Let_def)

text \<open>Misses do not depend on the order in which rows arrive.\<close>

lemma mset_ordered: "mset (ordered rows) = filter_mset tracked (mset rows)"
  by (simp add: ordered_def)

lemma miss_inputs_known:
  "List.map_filter m_input (map miss_of (filter is_miss rs)) = map (\<lambda>r. num_or0 (c_input r)) (filter is_miss rs)"
  by (induction rs) (auto simp: List.map_filter_def miss_of_def is_miss_def num_or0_def or_zero_def split: pyval.splits)

lemma misses_none_missing: "m_missing (classify_misses rows) = 0"
  by (simp add: classify_misses_def Let_def miss_inputs_known)

lemma misses_mset:
  "m_count (classify_misses rows) = size (filter_mset is_miss (filter_mset tracked (mset rows)))"
  "m_total (classify_misses rows) =
     sum_mset (image_mset (\<lambda>r. num_or0 (c_input r)) (filter_mset is_miss (filter_mset tracked (mset rows))))"
proof -
  have "m_count (classify_misses rows) = size (mset (filter is_miss (ordered rows)))"
    by (simp add: classify_misses_def Let_def del: mset_filter)
  then show "m_count (classify_misses rows) = size (filter_mset is_miss (filter_mset tracked (mset rows)))"
    by (simp only: mset_filter mset_ordered)
  have "m_total (classify_misses rows) =
      sum_mset (image_mset (\<lambda>r. num_or0 (c_input r)) (mset (filter is_miss (ordered rows))))"
    by (simp only: mset_map [symmetric] sum_mset_sum_list) (simp add: classify_misses_def Let_def miss_inputs_known)
  then show "m_total (classify_misses rows) =
     sum_mset (image_mset (\<lambda>r. num_or0 (c_input r)) (filter_mset is_miss (filter_mset tracked (mset rows))))"
    by (simp only: mset_filter mset_ordered)
qed

section \<open>Further properties\<close>

text \<open>
  The miss counts of a session do not depend on the order in which its calls were collected.
\<close>

theorem misses_order_free:
  assumes "mset rows = mset rows'"
  shows "m_count (classify_misses rows) = m_count (classify_misses rows') \<and>
    m_total (classify_misses rows) = m_total (classify_misses rows') \<and> m_missing (classify_misses rows) = 0"
  using assms by (simp add: misses_mset misses_none_missing)

theorem misses_order_free_witness:
  "m_count (classify_misses [sample_call ''a'' 10 0 1, sample_call ''b'' 5 3 1]) =
   m_count (classify_misses [sample_call ''b'' 5 3 1, sample_call ''a'' 10 0 1])"
  using misses_order_free [of "[sample_call ''a'' 10 0 1, sample_call ''b'' 5 3 1]"
      "[sample_call ''b'' 5 3 1, sample_call ''a'' 10 0 1]"] by (simp add: add_mset_commute)

section \<open>Claims\<close>

text \<open>
  C31: After any sequence of calls the tracker's baseline holds at most five valid calls of the current scope,
  its count is that of the recorded incidents, and every incident has two or more occurrences, three or more
  baseline calls, and recovery evidence exactly when resolved.
\<close>

theorem tracker_always_sound:
  "tracker_inv (foldl consume_call init_tracker rows)"
  by (rule foldl_consume_inv [OF init_tracker_inv])

text \<open>
  C32: Incremental updating equals replay: whatever lists of rows earlier updates were given, the state after
  the next update is that of a fresh tracker fed with the rows in time order (same tests object identity, so
  it implies equality).
\<close>

theorem refresh_is_replay:
  assumes "\<And>a b. same a b \<Longrightarrow> a = b"
  shows "refresh same (foldl (refresh same) init_health updates) rows =
    \<lparr>ch_rows = ordered rows, ch_tracker = foldl consume_call init_tracker (ordered rows)\<rparr>"
  by (rule refresh_replayed [OF assms foldl_refresh_replayed [OF assms init_health_replayed]])

theorem refresh_is_replay_witness:
  "refresh (=) (foldl (refresh (=)) init_health [[sample_call ''gpt-5.5'' 10 0 1], []]) [sample_call ''gpt-5.5'' 20 0 1] =
    \<lparr>ch_rows = ordered [sample_call ''gpt-5.5'' 20 0 1],
     ch_tracker = foldl consume_call init_tracker (ordered [sample_call ''gpt-5.5'' 20 0 1])\<rparr>"
  by (rule refresh_is_replay)

end
