(* ===== verification/Scope.thy ===== *)
theory Scope
  imports Attribution
begin

text \<open>
  Selecting the accounting intervals of a report: \<open>_quota_scope\<close> and \<open>_PreparedQuotaStatistics\<close> of
  \<open>cachemonitor/quota_cycles.py\<close>. Both reuse earlier results, the first keyed by the interval, the
  second by the version of a whole cycle. The theory shows that a reused result is the computed one.
\<close>

section \<open>Model\<close>

record value_report = quota_report +
  vr_cycles :: "cycle list"
  vr_tracking :: "bool option" \<comment> \<open>absent, or whether tracking is complete\<close>
  vr_request_windows :: "bool \<times> request list" \<comment> \<open>whether they are packed\<close>
  vr_versions :: "(cycle_id \<times> nat) list"

definition current_account :: "value_report \<Rightarrow> string" where
  "current_account report = (if q_account report \<noteq> [] then q_account report
     else case filter (\<lambda>c. y_account c \<noteq> []) (vr_cycles report) of [] \<Rightarrow> [] | c # _ \<Rightarrow> y_account c)"

definition in_period :: "rat option \<Rightarrow> rat option \<Rightarrow> cycle \<Rightarrow> bool" where
  "in_period start stop c = ((case start of None \<Rightarrow> True | Some s \<Rightarrow> s \<le> y_end c) \<and>
     (case stop of None \<Rightarrow> True | Some e \<Rightarrow> y_start c \<le> e))"

definition plain_clip :: "cycle \<Rightarrow> rat \<Rightarrow> rat \<Rightarrow> cycle option" where
  "plain_clip c a b = clip_quota_interval c (Some a) (Some b) None"

definition trim :: "rat option \<Rightarrow> rat option \<Rightarrow> cycle \<Rightarrow> cycle option" where
  "trim start stop c =
    (if (case start of None \<Rightarrow> False | Some s \<Rightarrow> y_start c < s) \<or> (case stop of None \<Rightarrow> False | Some e \<Rightarrow> e < y_end c)
     then clip_quota_interval c start stop None else Some c)"

definition scoped_cycles :: "bool \<Rightarrow> value_report \<Rightarrow> rat option \<Rightarrow> rat option \<Rightarrow> cycle list" where
  "scoped_cycles native report start stop =
    List.map_filter (trim start stop) (retained_intervals plain_clip (quota_report.truncate report)
      (continuous_quota_intervals native (filter (in_period start stop) (vr_cycles report))))"

text \<open>The cache of \<open>_quota_scope\<close>: a dictionary in insertion order.\<close>

type_synonym scope_key = "cycle_id \<times> rat \<times> rat"

record scope_entry =
  se_cycle :: cycle
  se_requests :: "request list"
  se_parts :: "cycle list"
  se_diagnostics :: diagnostics
  se_weight :: nat

type_synonym scope_cache = "(scope_key \<times> scope_entry) list"

definition scope_key :: "cycle \<Rightarrow> scope_key" where
  "scope_key c = (y_id c, y_start c, y_end c)"

text \<open>\<open>cost_complete_at\<close> and \<open>cycle_end\<close> leave the signature but for the part of it that matters.\<close>

definition signed :: "cycle \<Rightarrow> cycle" where
  "signed c = c\<lparr>y_cost_complete_at := Some (case y_cost_complete_at c of
       Some (Some t) \<Rightarrow> Some (min t (y_end c)) | _ \<Rightarrow> None), y_cycle_end := None\<rparr>"

definition refreshed :: "cycle \<Rightarrow> cycle \<Rightarrow> cycle" where
  "refreshed c part = part
    \<lparr>y_cost_complete_at := (if y_cost_complete_at c = None then y_cost_complete_at part else y_cost_complete_at c),
     y_cycle_end := (if y_cycle_end c = None then y_cycle_end part else y_cycle_end c)\<rparr>"

definition scope_weight :: "cycle \<Rightarrow> request list \<Rightarrow> cycle list \<Rightarrow> nat" where
  "scope_weight c requests parts = length (y_endpoints c) + length (y_cost_rows c) + length requests +
     sum_list (map (\<lambda>p. 1 + length (y_endpoints p) + length (y_cost_rows p)) parts)"

definition SCOPE_WEIGHT :: nat where "SCOPE_WEIGHT = 131072"
definition SCOPE_ENTRIES :: nat where "SCOPE_ENTRIES = 256"

definition cache_weight :: "scope_cache \<Rightarrow> nat" where
  "cache_weight cache = sum_list (map (se_weight \<circ> snd) cache)"

fun evict_scope :: "scope_cache \<Rightarrow> scope_cache" where
  "evict_scope [] = []"
| "evict_scope (e # cache) =
    (if SCOPE_ENTRIES < length (e # cache) \<or> SCOPE_WEIGHT < cache_weight (e # cache)
     then evict_scope cache else e # cache)"

definition dict_set :: "'k \<Rightarrow> 'v \<Rightarrow> ('k \<times> 'v) list \<Rightarrow> ('k \<times> 'v) list" where
  "dict_set k v m = (if k \<in> set (map fst m) then map (\<lambda>e. if fst e = k then (k, v) else e) m else m @ [(k, v)])"

definition store_scope :: "scope_key \<Rightarrow> scope_entry \<Rightarrow> scope_cache \<Rightarrow> scope_cache" where
  "store_scope k e cache = evict_scope (if se_weight e \<le> SCOPE_WEIGHT then dict_set k e cache else cache)"

definition window_requests :: "bool \<Rightarrow> bool \<times> request list \<Rightarrow> cycle \<Rightarrow> request list" where
  "window_requests native requests c =
    (if y_endpoints c = [] then []
     else overlapping native (fst requests) (snd requests) (fst (hd (y_endpoints c))) (fst (last (y_endpoints c))))"

definition local_scope :: "bool \<Rightarrow> cycle \<Rightarrow> request list \<Rightarrow> cycle list \<times> diagnostics" where
  "local_scope native c requests = local_request_intervals c requests (quota_clipper native)"

text \<open>One interval; the cache is \<open>None\<close> where the caller passes none.\<close>

definition attribute_cycle ::
  "bool \<Rightarrow> bool \<times> request list \<Rightarrow> bool \<Rightarrow> cycle \<Rightarrow> scope_cache option \<Rightarrow>
   (cycle list \<times> diagnostics) \<times> scope_cache option" where
  "attribute_cycle native requests readonly c cache =
    (let overlapping = window_requests native requests c
     in case cache of
       None \<Rightarrow> (local_scope native c overlapping, None)
     | Some m \<Rightarrow>
         (case map_of m (scope_key c) of
            Some e \<Rightarrow>
              if se_cycle e = signed c \<and> se_requests e = overlapping
              then ((map (refreshed c) (se_parts e), se_diagnostics e), Some m)
              else (let r = local_scope native c overlapping
                    in (r, Some (if readonly then m else store_scope (scope_key c)
                          \<lparr>se_cycle = signed c, se_requests = overlapping, se_parts = fst r, se_diagnostics = snd r,
                           se_weight = scope_weight c overlapping (fst r)\<rparr> m)))
          | None \<Rightarrow>
              (let r = local_scope native c overlapping
               in (r, Some (if readonly then m else store_scope (scope_key c)
                     \<lparr>se_cycle = signed c, se_requests = overlapping, se_parts = fst r, se_diagnostics = snd r,
                      se_weight = scope_weight c overlapping (fst r)\<rparr> m)))))"

fun attribute_cycles ::
  "bool \<Rightarrow> bool \<times> request list \<Rightarrow> bool \<Rightarrow> cycle list \<Rightarrow> scope_cache option \<Rightarrow>
   (cycle list \<times> diagnostics list) \<times> scope_cache option" where
  "attribute_cycles native requests readonly [] cache = (([], []), cache)"
| "attribute_cycles native requests readonly (c # cs) cache =
    (case attribute_cycle native requests readonly c cache of
       ((parts, d), cache1) \<Rightarrow>
         (case attribute_cycles native requests readonly cs cache1 of
            ((rest, ds), cache2) \<Rightarrow> ((parts @ rest, d # ds), cache2)))"

definition own_account :: "value_report \<Rightarrow> cycle \<Rightarrow> bool" where
  "own_account report c = (current_account report = [] \<or> y_account c = current_account report)"

record scope_result =
  sc_parts :: "cycle list"
  sc_diagnostics :: "diagnostics list"
  sc_deltas :: "rat list"
  sc_observed :: nat

definition quota_scope ::
  "bool \<Rightarrow> (bool \<times> request list) option \<Rightarrow> bool \<Rightarrow> value_report \<Rightarrow> rat option \<Rightarrow> rat option \<Rightarrow> scope_cache option \<Rightarrow>
   scope_result \<times> scope_cache option" where
  "quota_scope native requests readonly report start stop cache =
    (let scoped = scoped_cycles native report start stop;
         own = filter (own_account report) scoped;
         index = (case requests of None \<Rightarrow> vr_request_windows report | Some r \<Rightarrow> r);
         result = (if vr_tracking report = None then ((scoped, []), cache)
                   else attribute_cycles native index readonly own cache)
     in (\<lparr>sc_parts = fst (fst result), sc_diagnostics = snd (fst result),
          sc_deltas = map (\<lambda>c. max 0 (y_delta c)) own, sc_observed = length scoped\<rparr>, snd result))"

subsection \<open>Prepared intervals\<close>

type_synonym 'd prepared_signature = "(string \<times> bool) \<times> nat \<times> exclusion list \<times> exclusion list \<times> 'd option"

record 'd prepared_entry =
  pe_signature :: "'d prepared_signature"
  pe_value :: scope_result
  pe_weight :: nat

record 'd prepared =
  pp_entries :: "(cycle_id \<times> 'd prepared_entry) list"
  pp_weight :: nat
  pp_policy :: "exclusion list \<times> exclusion list \<times> string"

definition PREPARED_BYTES :: nat where "PREPARED_BYTES = 64 * 1024 * 1024"
definition PREPARED_CYCLES :: nat where "PREPARED_CYCLES = 4096"

definition user_policy :: "value_report \<Rightarrow> exclusion list \<times> exclusion list \<times> string" where
  "user_policy report = (q_exclusions report, q_cycle_clears report, q_account report)"

definition meets :: "cycle \<Rightarrow> exclusion \<Rightarrow> bool" where
  "meets c r = (x_start r < y_end c \<and> y_start c < x_end r)"

definition one :: "value_report \<Rightarrow> cycle \<Rightarrow> value_report" where
  "one report c = report\<lparr>vr_cycles := [c]\<rparr>"

text \<open>\<open>digest\<close> stands for \<open>requests.signature(start, end)\<close>.\<close>

definition signature_of ::
  "((bool \<times> request list) \<Rightarrow> rat \<Rightarrow> rat \<Rightarrow> 'd) \<Rightarrow> value_report \<Rightarrow> (bool \<times> request list) option \<Rightarrow> nat \<Rightarrow> cycle \<Rightarrow>
   'd prepared_signature" where
  "signature_of digest report requests version c =
    ((q_account report, vr_tracking report \<noteq> None), version,
     filter (meets c) (active_exclusions (quota_report.truncate report) (Some (y_account c))),
     filter (\<lambda>r. x_account r = y_account c \<and> meets c r) (q_cycle_clears report),
     map_option (\<lambda>r. digest r (y_start c) (y_end c)) requests)"

definition value_weight :: "scope_result \<Rightarrow> nat" where
  "value_weight v = 256 + sum_list (map (\<lambda>row. 2048 + 16 * (length (y_endpoints row) + length (y_cost_rows row))) (sc_parts v))"

definition minimum_weight :: "cycle \<Rightarrow> nat" where
  "minimum_weight c = 256 + 16 * (length (y_endpoints c) + length (y_cost_rows c))"

definition prepare_statistics_cycle ::
  "((bool \<times> request list) \<Rightarrow> rat \<Rightarrow> rat \<Rightarrow> 'd) \<Rightarrow> bool \<Rightarrow> value_report \<Rightarrow> (bool \<times> request list) option \<Rightarrow>
   (cycle_id \<times> 'd prepared_entry) list \<Rightarrow> 'd prepared \<Rightarrow> cycle \<Rightarrow> 'd prepared" where
  "prepare_statistics_cycle digest native report requests old p c =
    (case map_of (vr_versions report) (y_id c) of
       None \<Rightarrow> p
     | Some version \<Rightarrow>
         if PREPARED_CYCLES \<le> length (pp_entries p) \<or> PREPARED_BYTES < pp_weight p + minimum_weight c then p
         else
           (let sig = signature_of digest report requests version c;
                fresh = fst (quota_scope native requests False (one report c) None None None);
                entry = (case map_of old (y_id c) of
                    Some e \<Rightarrow> if pe_signature e = sig then e
                      else \<lparr>pe_signature = sig, pe_value = fresh, pe_weight = value_weight fresh\<rparr>
                  | None \<Rightarrow> \<lparr>pe_signature = sig, pe_value = fresh, pe_weight = value_weight fresh\<rparr>)
            in if length (pp_entries p) < PREPARED_CYCLES \<and> pp_weight p + pe_weight entry \<le> PREPARED_BYTES
               then p\<lparr>pp_entries := dict_set (y_id c) entry (pp_entries p), pp_weight := pp_weight p + pe_weight entry\<rparr>
               else p))"

definition prepare_statistics ::
  "((bool \<times> request list) \<Rightarrow> rat \<Rightarrow> rat \<Rightarrow> 'd) \<Rightarrow> bool \<Rightarrow> value_report \<Rightarrow> (bool \<times> request list) option \<Rightarrow>
   'd prepared option \<Rightarrow> 'd prepared" where
  "prepare_statistics digest native report requests previous =
    foldl (prepare_statistics_cycle digest native report requests (case previous of None \<Rightarrow> [] | Some p \<Rightarrow> pp_entries p))
      \<lparr>pp_entries = [], pp_weight = 0, pp_policy = user_policy report\<rparr> (vr_cycles report)"

definition whole :: "rat option \<Rightarrow> rat option \<Rightarrow> cycle \<Rightarrow> bool" where
  "whole start stop c = ((case start of None \<Rightarrow> True | Some s \<Rightarrow> s \<le> y_start c) \<and>
     (case stop of None \<Rightarrow> True | Some e \<Rightarrow> y_end c \<le> e))"

definition prepared_cycle ::
  "'d prepared \<Rightarrow> bool \<Rightarrow> (bool \<times> request list) option \<Rightarrow> bool \<Rightarrow> value_report \<Rightarrow> rat option \<Rightarrow> rat option \<Rightarrow> cycle \<Rightarrow>
   scope_cache option \<Rightarrow> scope_result \<times> scope_cache option" where
  "prepared_cycle p native requests readonly report start stop c cache =
    (case map_of (pp_entries p) (y_id c) of
       Some e \<Rightarrow>
         if whole start stop c
         then ((pe_value e)\<lparr>sc_parts := map (refreshed c) (sc_parts (pe_value e))\<rparr>, cache)
         else quota_scope native requests readonly (one report c) start stop cache
     | None \<Rightarrow> quota_scope native requests readonly (one report c) start stop cache)"

definition join :: "scope_result \<Rightarrow> scope_result \<Rightarrow> scope_result" where
  "join v w = \<lparr>sc_parts = sc_parts v @ sc_parts w, sc_diagnostics = sc_diagnostics v @ sc_diagnostics w,
     sc_deltas = sc_deltas v @ sc_deltas w, sc_observed = sc_observed v + sc_observed w\<rparr>"

definition no_scope :: scope_result where
  "no_scope = \<lparr>sc_parts = [], sc_diagnostics = [], sc_deltas = [], sc_observed = 0\<rparr>"

fun prepared_cycles ::
  "'d prepared \<Rightarrow> bool \<Rightarrow> (bool \<times> request list) option \<Rightarrow> bool \<Rightarrow> value_report \<Rightarrow> rat option \<Rightarrow> rat option \<Rightarrow> cycle list \<Rightarrow>
   scope_cache option \<Rightarrow> scope_result \<times> scope_cache option" where
  "prepared_cycles p native requests readonly report start stop [] cache = (no_scope, cache)"
| "prepared_cycles p native requests readonly report start stop (c # cs) cache =
    (case prepared_cycle p native requests readonly report start stop c cache of
       (v, cache1) \<Rightarrow>
         (case prepared_cycles p native requests readonly report start stop cs cache1 of
            (w, cache2) \<Rightarrow> (join v w, cache2)))"

definition prepared_scope ::
  "'d prepared \<Rightarrow> bool \<Rightarrow> (bool \<times> request list) option \<Rightarrow> bool \<Rightarrow> value_report \<Rightarrow> rat option \<Rightarrow> rat option \<Rightarrow>
   scope_cache option \<Rightarrow> scope_result \<times> scope_cache option" where
  "prepared_scope p native requests readonly report start stop cache =
    (if pp_policy p \<noteq> user_policy report then quota_scope native requests readonly report start stop cache
     else prepared_cycles p native requests readonly report start stop (filter (in_period start stop) (vr_cycles report)) cache)"

section \<open>Metadata does not matter\<close>

text \<open>The heartbeat of the collection and the open end of the cycle are set on a cycle from outside.\<close>

definition meta :: "rat option option \<Rightarrow> rat option \<Rightarrow> cycle \<Rightarrow> cycle" where
  "meta x y c = c\<lparr>y_cost_complete_at := x, y_cycle_end := y\<rparr>"

lemma meta_fields [simp]:
  "y_id (meta x y c) = y_id c" "y_account (meta x y c) = y_account c" "y_start (meta x y c) = y_start c"
  "y_end (meta x y c) = y_end c" "y_endpoints (meta x y c) = y_endpoints c" "y_delta (meta x y c) = y_delta c"
  "y_cost_rows (meta x y c) = y_cost_rows c" "y_models (meta x y c) = y_models c"
  "y_separate_models (meta x y c) = y_separate_models c" "y_priced_calls (meta x y c) = y_priced_calls c"
  "y_provisional (meta x y c) = y_provisional c" "y_cost_complete_at (meta x y c) = x" "y_cycle_end (meta x y c) = y"
  "meta x y (meta x' y' c) = meta x y c" "y_pending_usage_times (meta x y c) = y_pending_usage_times c"
  "y_forward_tracking (meta x y c) = y_forward_tracking c" "y_cost_complete (meta x y c) = y_cost_complete c"
  "y_boundary_excluded_calls (meta x y c) = y_boundary_excluded_calls c"
  by (simp_all add: meta_def)

lemma meta_updates [simp]:
  "(meta x y c)\<lparr>y_id := i, y_observation_gaps_excluded := b\<rparr> = meta x y (c\<lparr>y_id := i, y_observation_gaps_excluded := b\<rparr>)"
  "(meta x y c)\<lparr>y_id := i, y_user_exclusions_applied := b\<rparr> = meta x y (c\<lparr>y_id := i, y_user_exclusions_applied := b\<rparr>)"
  by (simp_all add: meta_def)

lemma meta_clip:
  "(meta x y c)\<lparr>y_cost_complete := v1, y_pending_usage_times := v2, y_pending_usage_calls := v3, y_start := v4, y_end := v5,
      y_delta := v6, y_models := v7, y_endpoints := v8, y_cost_rows := v9, y_used_start := v10, y_used_end := v11,
      y_cost := v12, y_priced_calls := v13, y_boundary_excluded_calls := v14, y_mode_standard_cost := v15\<rparr> =
    meta x y (c\<lparr>y_cost_complete := v1, y_pending_usage_times := v2, y_pending_usage_calls := v3, y_start := v4, y_end := v5,
      y_delta := v6, y_models := v7, y_endpoints := v8, y_cost_rows := v9, y_used_start := v10, y_used_end := v11,
      y_cost := v12, y_priced_calls := v13, y_boundary_excluded_calls := v14, y_mode_standard_cost := v15\<rparr>)"
  by (simp add: meta_def)

lemma separate_meta [simp]: "separate (meta x y c) = separate c"
  by (simp add: separate_def fun_eq_iff split: option.split)

lemma meta_self [simp]: "meta (y_cost_complete_at c) (y_cycle_end c) c = c"
  by (simp add: meta_def)

definition reached :: "rat option \<Rightarrow> rat \<Rightarrow> bool" where
  "reached u t = (case u of None \<Rightarrow> False | Some s \<Rightarrow> t \<le> s)"

definition same_reach :: "rat option option \<Rightarrow> cycle \<Rightarrow> bool" where
  "same_reach x c = (\<forall>t \<in> fst ` set (y_endpoints c).
     \<exists>u v. y_cost_complete_at c = Some u \<and> x = Some v \<and> reached u t = reached v t)"

lemma same_reach_subset: "same_reach x c \<Longrightarrow> set (y_endpoints d) \<subseteq> set (y_endpoints c) \<Longrightarrow>
    y_cost_complete_at d = y_cost_complete_at c \<Longrightarrow> same_reach x d"
  by (auto simp: same_reach_def)

lemma clip_None:
  "clip_quota_interval c a b None = Some d \<Longrightarrow>
    y_endpoints d = filter (\<lambda>p. in_points a b (fst p)) (y_endpoints c) \<and> 2 \<le> length (y_endpoints d) \<and>
    y_start d = fst (hd (y_endpoints d)) \<and> y_end d = fst (last (y_endpoints d)) \<and>
    y_cost_complete_at d = y_cost_complete_at c \<and> y_cycle_end d = y_cycle_end c \<and> y_account d = y_account c \<and>
    y_id d = y_id c"
proof -
  let ?E = "filter (\<lambda>p. in_points a b (fst p)) (y_endpoints c)"
  assume d: "clip_quota_interval c a b None = Some d"
  then have "\<not> length ?E < 2" by (auto simp: clip_quota_interval_def)
  with d show ?thesis by (simp add: clip_quota_interval_def Let_def) (erule subst, simp)
qed

lemma clip_meta:
  assumes "same_reach x c"
  shows "clip_quota_interval (meta x y c) a b None = map_option (meta x y) (clip_quota_interval c a b None)"
proof (cases "length (filter (\<lambda>p. in_points a b (fst p)) (y_endpoints c)) < 2")
  case True
  then show ?thesis by (simp add: clip_quota_interval_def)
next
  case False
  let ?E = "filter (\<lambda>p. in_points a b (fst p)) (y_endpoints c)"
  have "last ?E \<in> set ?E" using False by (intro last_in_set) auto
  then have "fst (last ?E) \<in> fst ` set (y_endpoints c)" by auto
  with assms obtain u v where uv: "y_cost_complete_at c = Some u" "x = Some v"
    "reached u (fst (last ?E)) = reached v (fst (last ?E))" unfolding same_reach_def by blast
  then have full: "(case y_cost_complete_at c of None \<Rightarrow> y_cost_complete c | Some None \<Rightarrow> False | Some (Some t) \<Rightarrow> fst (last ?E) \<le> t) =
      (case x of None \<Rightarrow> y_cost_complete c | Some None \<Rightarrow> False | Some (Some t) \<Rightarrow> fst (last ?E) \<le> t)"
    by (simp add: reached_def split: option.splits)
  have cost: "clip_cost (meta x y c) = clip_cost c" by (simp add: clip_cost_def fun_eq_iff)
  show ?thesis using False
    by (simp only: clip_quota_interval_def Let_def option.case meta_fields separate_meta full cost if_False
        option.map meta_clip)
qed

lemma plain_clip_meta: "same_reach x c \<Longrightarrow> plain_clip (meta x y c) a b = map_option (meta x y) (plain_clip c a b)"
  by (simp add: plain_clip_def clip_meta)

lemma clipper_plain [simp]: "quota_clipper native c = plain_clip c"
  by (simp add: fun_eq_iff quota_clipper_eq plain_clip_def)

lemma map_filter_commute:
  "(\<And>a. a \<in> set xs \<Longrightarrow> g a = map_option h (f a)) \<Longrightarrow> List.map_filter g xs = map h (List.map_filter f xs)"
  by (induction xs) (auto simp: List.map_filter_def)

lemma continuous_meta:
  assumes "same_reach x c"
  shows "continuous_cycle native (meta x y c) = map (meta x y) (continuous_cycle native c)"
proof (cases "length (observed_runs (map fst (y_endpoints c))) \<le> 1")
  case True
  then show ?thesis by (simp add: continuous_cycle_def)
next
  case False
  have "List.map_filter (\<lambda>(lo, hi). map_option (\<lambda>d. d\<lparr>y_id := Observed (y_id c) lo, y_observation_gaps_excluded := True\<rparr>)
        (plain_clip (meta x y c) lo hi)) (observed_runs (map fst (y_endpoints c))) =
      map (meta x y) (List.map_filter (\<lambda>(lo, hi). map_option (\<lambda>d. d\<lparr>y_id := Observed (y_id c) lo, y_observation_gaps_excluded := True\<rparr>)
        (plain_clip c lo hi)) (observed_runs (map fst (y_endpoints c))))"
    by (rule map_filter_commute) (auto simp: plain_clip_meta [OF assms] option.map_comp comp_def)
  with False show ?thesis by (simp add: continuous_cycle_def)
qed

lemma retained_meta:
  assumes "same_reach x c"
  shows "retained_cycle plain_clip report (meta x y c) = map (meta x y) (retained_cycle plain_clip report c)"
proof (cases "hits (cycle_ranges report (y_account c)) (y_start c) (y_end c)")
  case False
  then show ?thesis by (simp add: retained_cycle_def)
next
  case True
  have "List.map_filter (\<lambda>run. if length run < 2 then None
        else map_option (\<lambda>part. part\<lparr>y_id := Kept (y_id c) (fst (hd run)), y_user_exclusions_applied := True\<rparr>)
               (plain_clip (meta x y c) (fst (hd run)) (fst (last run)))) (runs_of (cycle_ranges report (y_account c)) (y_endpoints c)) =
      map (meta x y) (List.map_filter (\<lambda>run. if length run < 2 then None
        else map_option (\<lambda>part. part\<lparr>y_id := Kept (y_id c) (fst (hd run)), y_user_exclusions_applied := True\<rparr>)
               (plain_clip c (fst (hd run)) (fst (last run)))) (runs_of (cycle_ranges report (y_account c)) (y_endpoints c)))"
    by (rule map_filter_commute) (auto simp: plain_clip_meta [OF assms] option.map_comp comp_def)
  with True show ?thesis by (simp add: retained_cycle_def Let_def cong del: if_weak_cong)
qed

lemma local_source_meta: "local_source (meta x y c) sel = meta x y (local_source c sel)"
  by (simp add: local_source_def meta_def)

lemma local_part_meta: "local_part (meta x y c) sp (meta x y p) = meta x y (local_part c sp p)"
  by (simp add: local_part_def meta_def)

lemma placements_meta:
  "eligible_rows (meta x y c) = eligible_rows c" "row_placements (meta x y c) = row_placements c"
  "request_placements (meta x y c) requests = request_placements c requests"
  "blocked_ranges (meta x y c) requests = blocked_ranges c requests" "accepted_rows (meta x y c) requests = accepted_rows c requests"
proof -
  show 1: "eligible_rows (meta x y c) = eligible_rows c" by (simp add: eligible_rows_def)
  have "known_ids (meta x y c) = known_ids c" by (simp add: known_ids_def cong del: if_weak_cong option.case_cong_weak)
  then show 2: "request_placements (meta x y c) requests = request_placements c requests" by (simp add: request_placements_def)
  show 3: "row_placements (meta x y c) = row_placements c" by (simp add: row_placements_def 1)
  then show 4: "blocked_ranges (meta x y c) requests = blocked_ranges c requests" by (simp add: blocked_ranges_def 2)
  then show "accepted_rows (meta x y c) requests = accepted_rows c requests" by (simp add: accepted_rows_def 1 3)
qed

lemma local_scope_meta:
  assumes "same_reach x c"
  shows "local_scope native (meta x y c) requests = (map (meta x y) (fst (local_scope native c requests)), snd (local_scope native c requests))"
proof (cases "length (y_endpoints c) < 2")
  case True
  then show ?thesis by (simp add: local_scope_def local_request_intervals_def)
next
  case False
  let ?src = "local_source c (map snd (accepted_rows c requests))"
  have src: "same_reach x ?src" by (rule same_reach_subset [OF assms]) (simp_all add: local_source_def)
  have "List.map_filter (\<lambda>sp. case plain_clip (meta x y ?src) (fst (y_endpoints c ! fst sp)) (fst (y_endpoints c ! snd sp)) of
            None \<Rightarrow> None
          | Some part \<Rightarrow> if y_priced_calls part \<noteq> 0 then Some (local_part (meta x y c) sp part) else None)
          (merged_ranges (map fst (accepted_rows c requests))) =
      map (meta x y) (List.map_filter (\<lambda>sp. case plain_clip ?src (fst (y_endpoints c ! fst sp)) (fst (y_endpoints c ! snd sp)) of
            None \<Rightarrow> None
          | Some part \<Rightarrow> if y_priced_calls part \<noteq> 0 then Some (local_part c sp part) else None)
          (merged_ranges (map fst (accepted_rows c requests))))"
    by (rule map_filter_commute) (auto simp: plain_clip_meta [OF src] local_part_meta split: option.splits)
  with False show ?thesis
    by (simp add: local_scope_def local_request_intervals_def Let_def placements_meta local_source_meta)
qed

section \<open>The cache of the scope\<close>

text \<open>What the ledger guarantees of a cycle: ordered endpoints inside it, and both metadata keys set.\<close>

definition well_kept :: "cycle \<Rightarrow> bool" where
  "well_kept c = (sorted (map fst (y_endpoints c)) \<and>
    (\<forall>t \<in> fst ` set (y_endpoints c). y_start c \<le> t \<and> t \<le> y_end c) \<and>
    (y_endpoints c \<noteq> [] \<longrightarrow> y_cost_complete_at c \<noteq> None \<and> y_cycle_end c \<noteq> None))"

lemma clip_steady:
  assumes "well_kept c" "clip_quota_interval c a b None = Some d"
  shows "well_kept d" "set (y_endpoints d) \<subseteq> set (y_endpoints c)"
proof -
  note d = clip_None [OF assms(2)]
  then show sub: "set (y_endpoints d) \<subseteq> set (y_endpoints c)" by auto
  have sorted: "sorted (map fst (y_endpoints d))" using d assms(1) by (simp add: well_kept_def sorted_filter)
  have ne: "y_endpoints d \<noteq> []" using d by auto
  have "fst (hd (y_endpoints d)) \<le> t \<and> t \<le> fst (last (y_endpoints d))" if "t \<in> fst ` set (y_endpoints d)" for t
  proof -
    from that obtain i where i: "i < length (y_endpoints d)" "t = map fst (y_endpoints d) ! i"
      by (metis in_set_conv_nth length_map list.set_map)
    then have "map fst (y_endpoints d) ! 0 \<le> t" "t \<le> map fst (y_endpoints d) ! (length (y_endpoints d) - 1)"
      using sorted_nth_mono [OF sorted] ne by simp_all
    with ne show ?thesis by (simp add: hd_conv_nth last_conv_nth)
  qed
  moreover have "y_endpoints c \<noteq> []" using ne d by auto
  ultimately show "well_kept d" using assms(1) d sorted by (auto simp: well_kept_def)
qed

lemma trim_steady: "well_kept c \<Longrightarrow> trim start stop c = Some d \<Longrightarrow> well_kept d"
  by (auto simp: trim_def split: if_splits dest: clip_steady(1))

lemma well_kept_id [simp]:
  "well_kept (c\<lparr>y_id := i, y_observation_gaps_excluded := b\<rparr>) = well_kept c"
  "well_kept (c\<lparr>y_id := i, y_user_exclusions_applied := b\<rparr>) = well_kept c"
  by (simp_all add: well_kept_def)

lemma continuous_steady: "well_kept c \<Longrightarrow> d \<in> set (continuous_cycle native c) \<Longrightarrow> well_kept d"
  by (auto simp: continuous_cycle_def Let_def set_map_filter plain_clip_def dest: clip_steady(1) split: if_splits)

lemma retained_steady: "well_kept c \<Longrightarrow> d \<in> set (retained_cycle plain_clip report c) \<Longrightarrow> well_kept d"
  by (auto simp: retained_cycle_def Let_def set_map_filter plain_clip_def dest: clip_steady(1) split: if_splits)

lemma scoped_steady:
  assumes "list_all well_kept (vr_cycles report)"
  shows "list_all well_kept (scoped_cycles native report start stop)"
  using assms
  by (auto simp: list_all_iff scoped_cycles_def set_map_filter retained_intervals_def continuous_quota_intervals_def
      dest!: trim_steady [rotated] retained_steady [rotated] continuous_steady [rotated])

lemma meta_signed: "meta x y (signed c) = meta x y c"
  by (simp add: signed_def meta_def)

lemma signed_meta:
  assumes "signed c = signed d" "well_kept c" "well_kept d"
  shows "d = meta (y_cost_complete_at d) (y_cycle_end d) c" "same_reach (y_cost_complete_at d) c"
proof -
  have eq: "meta None None c = meta None None d"
    by (rule arg_cong [OF assms(1), of "meta None None", unfolded meta_signed])
  show *: "d = meta (y_cost_complete_at d) (y_cycle_end d) c"
    using arg_cong [OF eq, of "meta (y_cost_complete_at d) (y_cycle_end d)"] by (simp add: meta_self)
  then have fields: "y_endpoints d = y_endpoints c" "y_end d = y_end c" by (metis meta_fields(5), metis meta_fields(4))
  show "same_reach (y_cost_complete_at d) c"
    unfolding same_reach_def
  proof
    fix t assume t: "t \<in> fst ` set (y_endpoints c)"
    then have "y_endpoints c \<noteq> []" by auto
    with assms(2,3) fields obtain u v where uv: "y_cost_complete_at c = Some u" "y_cost_complete_at d = Some v"
      by (auto simp: well_kept_def)
    have "t \<le> y_end c" using t assms(2) by (auto simp: well_kept_def)
    moreover have "(case u of None \<Rightarrow> None | Some s \<Rightarrow> Some (min s (y_end c))) = (case v of None \<Rightarrow> None | Some s \<Rightarrow> Some (min s (y_end c)))"
      using arg_cong [OF assms(1), of y_cost_complete_at] uv fields
      by (auto simp: signed_def split: option.splits)
    ultimately have "reached u t = reached v t"
      by (cases u; cases v) (auto simp: reached_def min_def split: if_splits)
    with uv show "\<exists>u v. y_cost_complete_at c = Some u \<and> y_cost_complete_at d = Some v \<and> reached u t = reached v t" by blast
  qed
qed

definition entry_ok :: "bool \<Rightarrow> scope_key \<times> scope_entry \<Rightarrow> bool" where
  "entry_ok native e = (\<exists>c. well_kept c \<and> fst e = scope_key c \<and> se_cycle (snd e) = signed c \<and>
    local_scope native c (se_requests (snd e)) = (se_parts (snd e), se_diagnostics (snd e)))"

definition scope_cache_ok :: "bool \<Rightarrow> scope_cache \<Rightarrow> bool" where
  "scope_cache_ok native m = ((\<forall>e \<in> set m. entry_ok native e) \<and> distinct (map fst m) \<and>
    length m \<le> SCOPE_ENTRIES \<and> cache_weight m \<le> SCOPE_WEIGHT)"

lemma evict_scope_suffix: "\<exists>n. evict_scope m = drop n m"
proof (induction m)
  case (Cons e m)
  then obtain n where "evict_scope m = drop n m" by blast
  then have "evict_scope (e # m) = drop (Suc n) (e # m) \<or> evict_scope (e # m) = drop 0 (e # m)" by simp
  then show ?case by blast
qed simp

lemma evict_scope_bounds: "length (evict_scope m) \<le> SCOPE_ENTRIES \<and> cache_weight (evict_scope m) \<le> SCOPE_WEIGHT"
  by (induction m) (auto simp: cache_weight_def not_less)

lemma set_dict_set: "set (dict_set k v m) \<subseteq> insert (k, v) (set m)"
  by (auto simp: dict_set_def)

lemma map_of_dict_set [simp]: "map_of (dict_set k v m) = (map_of m)(k \<mapsto> v)"
proof (cases "k \<in> set (map fst m)")
  case True
  have "map_of (map (\<lambda>e. if fst e = k then (k, v) else e) m) = (if k \<in> set (map fst m) then (map_of m)(k \<mapsto> v) else map_of m)"
    by (induction m) (auto simp: fun_eq_iff)
  with True show ?thesis by (simp add: dict_set_def)
next
  case False
  then have "map_of m k = None" by (simp add: map_of_eq_None_iff)
  with False show ?thesis by (auto simp: dict_set_def fun_eq_iff map_add_def split: option.splits)
qed

lemma keys_dict_set: "map fst (dict_set k v m) = (if k \<in> set (map fst m) then map fst m else map fst m @ [k])"
  by (auto simp: dict_set_def intro!: map_cong)

lemma distinct_dict_set: "distinct (map fst m) \<Longrightarrow> distinct (map fst (dict_set k v m))"
  by (simp add: keys_dict_set del: set_map)

lemma store_scope_ok:
  assumes "scope_cache_ok native m" "entry_ok native (k, e)"
  shows "scope_cache_ok native (store_scope k e m)"
proof -
  let ?m = "if se_weight e \<le> SCOPE_WEIGHT then dict_set k e m else m"
  obtain n where n: "evict_scope ?m = drop n ?m" using evict_scope_suffix by blast
  have "distinct (map fst ?m)" using assms(1) distinct_dict_set by (auto simp: scope_cache_ok_def)
  then have "distinct (map fst (evict_scope ?m))" unfolding n drop_map [symmetric] by (rule distinct_drop)
  moreover have "set (evict_scope ?m) \<subseteq> insert (k, e) (set m)"
    unfolding n using set_dict_set [of k e m] by (auto dest: in_set_dropD split: if_splits)
  ultimately show ?thesis using assms evict_scope_bounds [of ?m] unfolding scope_cache_ok_def store_scope_def by blast
qed

lemma fresh_entry_ok:
  "well_kept c \<Longrightarrow> entry_ok native (scope_key c, \<lparr>se_cycle = signed c, se_requests = requests,
     se_parts = fst (local_scope native c requests), se_diagnostics = snd (local_scope native c requests), se_weight = w\<rparr>)"
  by (auto simp: entry_ok_def)

lemma refreshed_meta: "y_cost_complete_at c \<noteq> None \<Longrightarrow> y_cycle_end c \<noteq> None \<Longrightarrow>
    refreshed c p = meta (y_cost_complete_at c) (y_cycle_end c) p"
  unfolding refreshed_def meta_def by (simp only: if_False)

lemma local_scope_empty: "y_endpoints c = [] \<Longrightarrow> fst (local_scope native c requests) = []"
  by (simp add: local_scope_def local_request_intervals_def)

lemma reused_entry:
  assumes "entry_ok native (k, e)" "well_kept c" "se_cycle e = signed c"
  shows "(map (refreshed c) (se_parts e), se_diagnostics e) = local_scope native c (se_requests e)"
proof -
  from assms(1) obtain d where d: "well_kept d" "se_cycle e = signed d"
    "local_scope native d (se_requests e) = (se_parts e, se_diagnostics e)" by (auto simp: entry_ok_def)
  with assms(3) have "signed d = signed c" by simp
  note m = signed_meta [OF this d(1) assms(2)]
  have "local_scope native c (se_requests e) =
      (map (meta (y_cost_complete_at c) (y_cycle_end c)) (se_parts e), se_diagnostics e)"
    using local_scope_meta [OF m(2), of native "y_cycle_end c" "se_requests e"] unfolding m(1) [symmetric] d(3) by simp
  moreover have "map (refreshed c) (se_parts e) = map (meta (y_cost_complete_at c) (y_cycle_end c)) (se_parts e)"
  proof (cases "y_endpoints c = []")
    case True
    moreover have "y_endpoints d = y_endpoints c" by (subst m(1)) simp
    ultimately show ?thesis using local_scope_empty [of d native "se_requests e"] d(3) by simp
  next
    case False
    with assms(2) have "y_cost_complete_at c \<noteq> None" "y_cycle_end c \<noteq> None" by (simp_all add: well_kept_def)
    then show ?thesis by (simp add: refreshed_meta)
  qed
  ultimately show ?thesis by simp
qed

lemma attribute_cycle_exact:
  assumes "scope_cache_ok native m" "well_kept c"
  shows "\<exists>m'. attribute_cycle native requests readonly c (Some m) =
      (local_scope native c (window_requests native requests c), Some m') \<and> scope_cache_ok native m'"
proof -
  let ?o = "window_requests native requests c"
  let ?e = "\<lparr>se_cycle = signed c, se_requests = ?o, se_parts = fst (local_scope native c ?o),
    se_diagnostics = snd (local_scope native c ?o), se_weight = scope_weight c ?o (fst (local_scope native c ?o))\<rparr>"
  have store: "scope_cache_ok native (if readonly then m else store_scope (scope_key c) ?e m)"
    using store_scope_ok [OF assms(1) fresh_entry_ok [OF assms(2)]] assms(1) by simp
  show ?thesis
  proof (cases "map_of m (scope_key c)")
    case None
    with store show ?thesis by (simp add: attribute_cycle_def Let_def)
  next
    case (Some e)
    show ?thesis
    proof (cases "se_cycle e = signed c \<and> se_requests e = ?o")
      case True
      have "entry_ok native (scope_key c, e)" using map_of_SomeD [OF Some] assms(1) by (auto simp: scope_cache_ok_def)
      from reused_entry [OF this assms(2)] True Some assms(1) show ?thesis by (simp add: attribute_cycle_def Let_def)
    next
      case False
      with Some store show ?thesis by (auto simp: attribute_cycle_def Let_def)
    qed
  qed
qed

lemma attribute_cycles_plain:
  "attribute_cycles native requests readonly cs None =
    ((concat (map (\<lambda>c. fst (local_scope native c (window_requests native requests c))) cs),
      map (\<lambda>c. snd (local_scope native c (window_requests native requests c))) cs), None)"
  by (induction cs) (simp_all add: attribute_cycle_def Let_def split_beta)

lemma attribute_cycles_exact:
  assumes "scope_cache_ok native m" "list_all well_kept cs"
  shows "\<exists>m'. attribute_cycles native requests readonly cs (Some m) =
      (fst (attribute_cycles native requests readonly cs None), Some m') \<and> scope_cache_ok native m'"
  using assms
proof (induction cs arbitrary: m)
  case (Cons c cs)
  have "well_kept c" using Cons.prems by simp
  from attribute_cycle_exact [OF Cons.prems(1) this, of requests readonly] obtain m1 where
    m1: "attribute_cycle native requests readonly c (Some m) = (local_scope native c (window_requests native requests c), Some m1)"
      "scope_cache_ok native m1" by blast
  from Cons.IH [OF m1(2)] Cons.prems(2) obtain m2 where
    m2: "attribute_cycles native requests readonly cs (Some m1) = (fst (attribute_cycles native requests readonly cs None), Some m2)"
      "scope_cache_ok native m2" by auto
  from m1 m2 show ?case by (simp add: attribute_cycles_plain split_beta)
qed simp

lemma quota_scope_exact:
  assumes "scope_cache_ok native m" "list_all well_kept (vr_cycles report)"
  shows "\<exists>m'. quota_scope native requests readonly report start stop (Some m) =
      (fst (quota_scope native requests readonly' report start stop None), Some m') \<and> scope_cache_ok native m'"
proof (cases "vr_tracking report")
  case None
  with assms show ?thesis by (simp add: quota_scope_def Let_def)
next
  case (Some t)
  have "list_all well_kept (filter (own_account report) (scoped_cycles native report start stop))"
    using scoped_steady [OF assms(2), of native start stop] by (simp add: list_all_iff)
  from attribute_cycles_exact [OF assms(1) this, of "case requests of None \<Rightarrow> vr_request_windows report | Some r \<Rightarrow> r" readonly]
  obtain m' where "attribute_cycles native (case requests of None \<Rightarrow> vr_request_windows report | Some r \<Rightarrow> r) readonly
      (filter (own_account report) (scoped_cycles native report start stop)) (Some m) =
      (fst (attribute_cycles native (case requests of None \<Rightarrow> vr_request_windows report | Some r \<Rightarrow> r) readonly
        (filter (own_account report) (scoped_cycles native report start stop)) None), Some m')" "scope_cache_ok native m'"
    by blast
  then show ?thesis using Some by (simp add: quota_scope_def Let_def attribute_cycles_plain)
qed

text \<open>A sequence of calls that share one cache.\<close>

type_synonym scope_call = "(bool \<times> request list) option \<times> bool \<times> value_report \<times> rat option \<times> rat option"

fun scope_calls :: "bool \<Rightarrow> scope_call list \<Rightarrow> scope_cache option \<Rightarrow> scope_result list \<times> scope_cache option" where
  "scope_calls native [] cache = ([], cache)"
| "scope_calls native ((requests, readonly, report, start, stop) # calls) cache =
    (case quota_scope native requests readonly report start stop cache of
       (v, cache1) \<Rightarrow> (case scope_calls native calls cache1 of (vs, cache2) \<Rightarrow> (v # vs, cache2)))"

lemma scope_calls_exact:
  assumes "scope_cache_ok native m" "list_all (\<lambda>(_, _, report, _). list_all well_kept (vr_cycles report)) calls"
  shows "fst (scope_calls native calls (Some m)) = fst (scope_calls native calls None) \<and>
    (\<exists>m'. snd (scope_calls native calls (Some m)) = Some m' \<and> scope_cache_ok native m')"
  using assms
proof (induction calls arbitrary: m)
  case (Cons call calls)
  obtain requests readonly report start stop where call: "call = (requests, readonly, report, start, stop)"
    by (metis prod_cases5)
  from Cons.prems call quota_scope_exact [OF Cons.prems(1), of report requests readonly start stop readonly] obtain m1 where
    m1: "quota_scope native requests readonly report start stop (Some m) =
        (fst (quota_scope native requests readonly report start stop None), Some m1)" "scope_cache_ok native m1" by auto
  have none: "snd (quota_scope native requests readonly report start stop None) = None"
    by (simp add: quota_scope_def Let_def attribute_cycles_plain)
  from Cons.IH [OF m1(2)] Cons.prems(2) m1 none show ?case by (simp add: call split_beta)
qed simp

section \<open>Prepared intervals\<close>

subsection \<open>A scope is the join of its cycles\<close>

definition scope_pieces :: "bool \<Rightarrow> quota_report \<Rightarrow> cycle \<Rightarrow> cycle list" where
  "scope_pieces native report c = concat (map (retained_cycle plain_clip report) (continuous_cycle native c))"

lemma map_filter_append [simp]: "List.map_filter f (xs @ ys) = List.map_filter f xs @ List.map_filter f ys"
  by (simp add: List.map_filter_def)

lemma map_filter_nested: "List.map_filter f (concat (map g (concat (map h xs)))) =
    concat (map (\<lambda>c. List.map_filter f (concat (map g (h c)))) xs)"
  by (induction xs) simp_all

lemma scoped_pieces:
  "scoped_cycles native report start stop = concat (map (\<lambda>c. List.map_filter (trim start stop)
     (scope_pieces native (quota_report.truncate report) c)) (filter (in_period start stop) (vr_cycles report)))"
  by (simp add: scoped_cycles_def retained_intervals_def continuous_quota_intervals_def scope_pieces_def map_filter_nested)

lemma one_simps [simp]:
  "vr_cycles (one report c) = [c]" "quota_report.truncate (one report c) = quota_report.truncate report"
  "vr_tracking (one report c) = vr_tracking report" "vr_request_windows (one report c) = vr_request_windows report"
  "q_account (one report c) = q_account report" "q_exclusions (one report c) = q_exclusions report"
  "q_cycle_clears (one report c) = q_cycle_clears report" "vr_versions (one report c) = vr_versions report"
  by (simp_all add: one_def quota_report.truncate_def)

lemma truncate_clears [simp]: "q_cycle_clears (quota_report.truncate report) = q_cycle_clears report"
  by (simp add: quota_report.truncate_def)

lemma own_account_known: "q_account report \<noteq> [] \<Longrightarrow> own_account report = (\<lambda>c. y_account c = q_account report)"
  by (simp add: own_account_def current_account_def fun_eq_iff)

definition index_for :: "value_report \<Rightarrow> (bool \<times> request list) option \<Rightarrow> bool \<times> request list" where
  "index_for report requests = (case requests of None \<Rightarrow> vr_request_windows report | Some r \<Rightarrow> r)"

text \<open>The result for given intervals.\<close>

definition scope_for :: "bool \<Rightarrow> bool \<times> request list \<Rightarrow> bool \<Rightarrow> string \<Rightarrow> cycle list \<Rightarrow> scope_result" where
  "scope_for native index tracked account scoped =
    (let own = filter (\<lambda>c. y_account c = account) scoped
     in \<lparr>sc_parts = (if tracked then concat (map (\<lambda>c. fst (local_scope native c (window_requests native index c))) own) else scoped),
         sc_diagnostics = (if tracked then map (\<lambda>c. snd (local_scope native c (window_requests native index c))) own else []),
         sc_deltas = map (\<lambda>c. max 0 (y_delta c)) own, sc_observed = length scoped\<rparr>)"

lemma quota_scope_plain:
  "q_account report \<noteq> [] \<Longrightarrow> quota_scope native requests readonly report start stop None =
    (scope_for native (index_for report requests) (vr_tracking report \<noteq> None) (q_account report)
      (scoped_cycles native report start stop), None)"
  by (simp add: quota_scope_def scope_for_def index_for_def own_account_known Let_def attribute_cycles_plain)

lemma join_assoc: "join (join u v) w = join u (join v w)"
  by (simp add: join_def)

lemma join_no_scope [simp]: "join no_scope v = v" "join v no_scope = v"
  by (simp_all add: join_def no_scope_def)

lemma scope_for_append: "scope_for native index tracked account (xs @ ys) =
    join (scope_for native index tracked account xs) (scope_for native index tracked account ys)"
  by (simp add: scope_for_def join_def Let_def)

lemma scope_for_Nil: "scope_for native index tracked account [] = no_scope"
  by (simp add: scope_for_def no_scope_def Let_def)

lemma scope_for_concat: "scope_for native index tracked account (concat xss) =
    foldr join (map (scope_for native index tracked account) xss) no_scope"
  by (induction xss) (simp_all add: scope_for_append scope_for_Nil)

definition cycle_scope ::
  "bool \<Rightarrow> (bool \<times> request list) option \<Rightarrow> value_report \<Rightarrow> rat option \<Rightarrow> rat option \<Rightarrow> cycle \<Rightarrow> scope_result" where
  "cycle_scope native requests report start stop c =
    scope_for native (index_for report requests) (vr_tracking report \<noteq> None) (q_account report)
      (if in_period start stop c then List.map_filter (trim start stop) (scope_pieces native (quota_report.truncate report) c) else [])"

lemma quota_scope_one:
  assumes "q_account report \<noteq> []"
  shows "fst (quota_scope native requests readonly (one report c) start stop None) = cycle_scope native requests report start stop c"
proof -
  have "index_for (one report c) requests = index_for report requests" by (simp add: index_for_def split: option.split)
  then show ?thesis using assms by (simp add: quota_scope_plain scoped_pieces cycle_scope_def)
qed

lemma quota_scope_split:
  assumes "q_account report \<noteq> []"
  shows "fst (quota_scope native requests readonly report start stop None) =
    foldr join (map (cycle_scope native requests report start stop) (filter (in_period start stop) (vr_cycles report))) no_scope"
proof -
  have "map (\<lambda>c. scope_for native (index_for report requests) (vr_tracking report \<noteq> None) (q_account report)
        (List.map_filter (trim start stop) (scope_pieces native (quota_report.truncate report) c)))
      (filter (in_period start stop) (vr_cycles report)) =
    map (cycle_scope native requests report start stop) (filter (in_period start stop) (vr_cycles report))"
    by (simp add: cycle_scope_def)
  then show ?thesis using assms
    by (simp add: quota_scope_plain scoped_pieces scope_for_concat comp_def del: not_None_eq map_eq_conv)
qed

subsection \<open>Only what the signature lists matters\<close>

definition firm :: "cycle \<Rightarrow> bool" where
  "firm c = (well_kept c \<and> sorted_wrt (<) (map fst (y_endpoints c)) \<and> y_start c < y_end c \<and>
    y_cost_complete_at c \<noteq> None \<and> y_cycle_end c \<noteq> None)"

definition inside :: "cycle \<Rightarrow> cycle \<Rightarrow> bool" where
  "inside c d = (y_start c \<le> y_start d \<and> y_start d < y_end d \<and> y_end d \<le> y_end c \<and>
    set (y_endpoints d) \<subseteq> set (y_endpoints c) \<and> sorted_wrt (<) (map fst (y_endpoints d)) \<and>
    y_account d = y_account c \<and> y_cost_complete_at d = y_cost_complete_at c)"

lemma inside_refl: "firm c \<Longrightarrow> inside c c"
  by (simp add: firm_def inside_def)

lemma sorted_wrt_map_filter: "sorted_wrt P (map f xs) \<Longrightarrow> sorted_wrt P (map f (filter Q xs))"
  by (induction xs) auto

lemma clip_inside:
  assumes "firm c" "inside c d" "plain_clip d a b = Some e"
  shows "inside c e"
proof -
  note e = clip_None [OF assms(3) [unfolded plain_clip_def]]
  have sub: "set (y_endpoints e) \<subseteq> set (y_endpoints c)" using e assms(2) by (auto simp: inside_def)
  have sorted: "sorted_wrt (<) (map fst (y_endpoints e))"
    using e assms(2) by (simp add: inside_def sorted_wrt_map_filter)
  obtain x y zs where xy: "y_endpoints e = x # y # zs" using e
    by (metis One_nat_def Suc_1 Suc_le_length_iff)
  then have last: "last (y_endpoints e) \<in> set (y # zs)" by simp
  have start: "y_start e = fst x" using e xy by (metis list.sel(1))
  have stop: "y_end e = fst (last (y_endpoints e))" using e by blast
  have "fst x < fst (last (y_endpoints e))" using sorted last unfolding xy by auto
  moreover have "y_start c \<le> fst x" "fst (last (y_endpoints e)) \<le> y_end c"
    using sub assms(1) xy last by (auto simp: firm_def well_kept_def)
  moreover have "y_account e = y_account c" "y_cost_complete_at e = y_cost_complete_at c"
    using e assms(2) by (simp_all add: inside_def)
  ultimately show ?thesis using sub sorted unfolding inside_def start stop by blast
qed

lemma inside_id [simp]:
  "inside c (d\<lparr>y_id := i, y_observation_gaps_excluded := b\<rparr>) = inside c d"
  "inside c (d\<lparr>y_id := i, y_user_exclusions_applied := b\<rparr>) = inside c d"
  by (simp_all add: inside_def)

lemma continuous_inside: "firm c \<Longrightarrow> d \<in> set (continuous_cycle native c) \<Longrightarrow> inside c d"
  by (auto simp: continuous_cycle_def Let_def set_map_filter intro: inside_refl clip_inside [OF _ inside_refl] split: if_splits)

lemma retained_inside: "firm c \<Longrightarrow> inside c d \<Longrightarrow> e \<in> set (retained_cycle plain_clip report d) \<Longrightarrow> inside c e"
  by (auto simp: retained_cycle_def Let_def set_map_filter intro: clip_inside split: if_splits)

lemma scope_pieces_inside: "firm c \<Longrightarrow> d \<in> set (scope_pieces native report c) \<Longrightarrow> inside c d"
  unfolding scope_pieces_def using continuous_inside retained_inside by fastforce

lemma runs_from_cong:
  assumes "sorted_wrt (<) (map fst (previous # points))"
    "\<And>a b. a < b \<Longrightarrow> a \<in> fst ` set (previous # points) \<Longrightarrow> b \<in> fst ` set (previous # points) \<Longrightarrow> hits rs a b = hits ss a b"
  shows "runs_from rs runs previous points = runs_from ss runs previous points"
  using assms
proof (induction points arbitrary: runs previous)
  case (Cons point points)
  have "hits rs (fst previous) (fst point) = hits ss (fst previous) (fst point)"
    using Cons.prems(1) by (intro Cons.prems(2)) auto
  moreover have "runs_from rs r point points = runs_from ss r point points" for r
    by (rule Cons.IH) (use Cons.prems in auto)
  ultimately show ?case by simp
qed simp

definition relevant :: "quota_report \<Rightarrow> cycle \<Rightarrow> exclusion list \<times> exclusion list" where
  "relevant report c = (filter (meets c) (active_exclusions report (Some (y_account c))),
     filter (\<lambda>r. x_account r = y_account c \<and> meets c r) (q_cycle_clears report))"

lemma ranges_hit:
  assumes "a < b"
  shows "hits (cycle_ranges report acct) a b \<longleftrightarrow>
    (\<exists>r \<in> set (active_exclusions report (Some acct)) \<union> {r \<in> set (q_cycle_clears report). x_account r = acct}.
      x_start r < b \<and> a < x_end r)"
proof -
  have "hits (cycle_ranges report acct) a b \<longleftrightarrow> hits (map (\<lambda>r. (x_start r, x_end r)) (active_exclusions report (Some acct) @
      filter (\<lambda>r. x_account r = acct) (q_cycle_clears report))) a b"
    unfolding cycle_ranges_def exclusion_ranges_merged by (rule merged_ranges_hits [OF assms])
  then show ?thesis by (simp add: hits_ex bex_Un conj_commute) 
qed

lemma relevant_hits:
  assumes "relevant r0 c = relevant r1 c" "a < b" "y_start c \<le> a" "b \<le> y_end c"
  shows "hits (cycle_ranges r0 (y_account c)) a b = hits (cycle_ranges r1 (y_account c)) a b"
proof -
  have *: "hits (cycle_ranges r (y_account c)) a b \<longleftrightarrow>
      (\<exists>x \<in> set (fst (relevant r c)) \<union> set (snd (relevant r c)). x_start x < b \<and> a < x_end x)" for r
    unfolding ranges_hit [OF assms(2)] relevant_def using assms(3,4) by (force simp: meets_def)
  show ?thesis unfolding * assms(1) by (rule refl)
qed

lemma retained_relevant:
  assumes "firm c" "inside c d" "relevant r0 c = relevant r1 c"
  shows "retained_cycle plain_clip r0 d = retained_cycle plain_clip r1 d"
proof -
  have acct: "y_account d = y_account c" using assms(2) by (simp add: inside_def)
  have whole: "hits (cycle_ranges r0 (y_account d)) (y_start d) (y_end d) = hits (cycle_ranges r1 (y_account d)) (y_start d) (y_end d)"
    unfolding acct using assms(2) by (intro relevant_hits [OF assms(3)]) (simp_all add: inside_def)
  have "runs_of (cycle_ranges r0 (y_account d)) (y_endpoints d) = runs_of (cycle_ranges r1 (y_account d)) (y_endpoints d)"
  proof (cases "y_endpoints d")
    case (Cons p ps)
    have "runs_from (cycle_ranges r0 (y_account c)) [[p]] p ps = runs_from (cycle_ranges r1 (y_account c)) [[p]] p ps"
    proof (rule runs_from_cong)
      show "sorted_wrt (<) (map fst (p # ps))" using assms(2) Cons by (simp add: inside_def)
      fix a b assume ab: "a < b" "a \<in> fst ` set (p # ps)" "b \<in> fst ` set (p # ps)"
      have "fst ` set (p # ps) \<subseteq> fst ` set (y_endpoints c)" using assms(2) Cons by (metis image_mono inside_def)
      with ab have "a \<in> fst ` set (y_endpoints c)" "b \<in> fst ` set (y_endpoints c)" by blast+
      then have "y_start c \<le> a" "b \<le> y_end c" using assms(1) unfolding firm_def well_kept_def by blast+
      then show "hits (cycle_ranges r0 (y_account c)) a b = hits (cycle_ranges r1 (y_account c)) a b"
        by (rule relevant_hits [OF assms(3) ab(1)])
    qed
    then show ?thesis by (simp add: runs_of_def Cons acct)
  qed (simp add: runs_of_def)
  with whole show ?thesis by (simp add: retained_cycle_def Let_def)
qed

lemma scope_pieces_relevant:
  assumes "firm c" "relevant r0 c = relevant r1 c"
  shows "scope_pieces native r0 c = scope_pieces native r1 c"
  unfolding scope_pieces_def using continuous_inside [OF assms(1)] retained_relevant [OF assms(1) _ assms(2)]
  by (intro arg_cong [of _ _ concat] map_cong) auto

lemma scope_pieces_meta:
  assumes "same_reach x c"
  shows "scope_pieces native report (meta x y c) = map (meta x y) (scope_pieces native report c)"
proof -
  have "same_reach x d" if "d \<in> set (continuous_cycle native c)" for d
  proof (rule same_reach_subset [OF assms])
    show "set (y_endpoints d) \<subseteq> set (y_endpoints c)" "y_cost_complete_at d = y_cost_complete_at c"
      using that by (auto simp: continuous_cycle_def Let_def set_map_filter plain_clip_def dest: clip_None split: if_splits)
  qed
  then have "map (retained_cycle plain_clip report \<circ> meta x y) (continuous_cycle native c) =
      map (\<lambda>d. map (meta x y) (retained_cycle plain_clip report d)) (continuous_cycle native c)"
    by (intro map_cong) (simp_all add: retained_meta)
  then show ?thesis by (simp add: scope_pieces_def continuous_meta [OF assms] map_concat comp_def del: map_eq_conv)
qed

subsection \<open>The order of the requests does not matter\<close>

lemma merged_ranges_perm: "mset xs = mset ys \<Longrightarrow> merged_ranges xs = merged_ranges ys"
proof -
  assume "mset xs = mset ys"
  then have "sort xs = sort ys" by (intro properties_for_sort) simp_all
  then show ?thesis by (simp add: merged_ranges_def)
qed

lemma mset_map_filter: "mset (List.map_filter f xs) = image_mset the (filter_mset (\<lambda>v. v \<noteq> None) (image_mset f (mset xs)))"
  by (induction xs) (simp_all add: List.map_filter_def)

lemma merged_filter_perm: "mset xs = mset ys \<Longrightarrow> merged_ranges (List.map_filter f xs) = merged_ranges (List.map_filter f ys)"
  by (intro merged_ranges_perm) (simp add: mset_map_filter)

lemma local_scope_perm:
  assumes "mset rs = mset qs"
  shows "local_scope native c rs = local_scope native c qs"
proof -
  have p: "mset (row_placements c @ request_placements c rs) = mset (row_placements c @ request_placements c qs)"
    using assms by (simp add: request_placements_def)
  have b: "blocked_ranges c rs = blocked_ranges c qs" unfolding blocked_ranges_def by (rule merged_filter_perm [OF p])
  then have a: "accepted_rows c rs = accepted_rows c qs" by (simp add: accepted_rows_def)
  from b a merged_filter_perm [OF p, of placed_span] show ?thesis
    by (simp add: local_scope_def local_request_intervals_def Let_def)
qed

definition digest_ok :: "((bool \<times> request list) \<Rightarrow> rat \<Rightarrow> rat \<Rightarrow> 'd) \<Rightarrow> bool" where
  "digest_ok digest = (\<forall>r q a b. digest r a b = digest q a b \<longrightarrow>
    mset (filter (request_overlaps a b) (snd r)) = mset (filter (request_overlaps a b) (snd q)))"

lemma request_overlaps_mono: "request_overlaps a b r \<Longrightarrow> s \<le> a \<Longrightarrow> b \<le> t \<Longrightarrow> request_overlaps s t r"
proof -
  assume r: "request_overlaps a b r" "s \<le> a" "b \<le> t"
  then obtain v where v: "span_of False (0, r) = Some v" "span_start v \<le> b" "At a \<le> span_until v"
    by (auto simp: request_overlaps_def split: option.splits)
  have "At s \<le> span_until v" using v(3) r(2) by (cases "span_until v") auto
  with v r(3) show ?thesis by (simp add: request_overlaps_def)
qed

lemma window_requests_digest:
  assumes "digest_ok digest" "digest r0 (y_start c) (y_end c) = digest r1 (y_start c) (y_end c)" "firm c" "inside c d"
  shows "mset (window_requests native r0 d) = mset (window_requests native r1 d)"
proof (cases "y_endpoints d = []")
  case True
  then show ?thesis by (simp add: window_requests_def)
next
  case False
  let ?a = "fst (hd (y_endpoints d))" and ?b = "fst (last (y_endpoints d))"
  have "hd (y_endpoints d) \<in> set (y_endpoints c)" "last (y_endpoints d) \<in> set (y_endpoints c)"
    using False assms(4) by (auto simp: inside_def)
  then have ab: "y_start c \<le> ?a" "?b \<le> y_end c" using assms(3) by (auto simp: firm_def well_kept_def)
  have narrow: "mset (filter (request_overlaps ?a ?b) (snd r)) =
      filter_mset (request_overlaps ?a ?b) (mset (filter (request_overlaps (y_start c) (y_end c)) (snd r)))" for r :: "bool \<times> request list"
  proof -
    have "filter (request_overlaps ?a ?b) (snd r) =
        filter (request_overlaps ?a ?b) (filter (request_overlaps (y_start c) (y_end c)) (snd r))"
      unfolding filter_filter by (rule filter_cong [OF refl]) (use request_overlaps_mono [OF _ ab] in blast)
    then show ?thesis by (metis mset_filter)
  qed
  have "mset (filter (request_overlaps (y_start c) (y_end c)) (snd r0)) = mset (filter (request_overlaps (y_start c) (y_end c)) (snd r1))"
    by (rule assms(1) [unfolded digest_ok_def, rule_format, OF assms(2)])
  with narrow [of r0] narrow [of r1] False show ?thesis by (simp add: window_requests_def overlapping_mset)
qed

text \<open>Two cycles with one version, under signatures that agree, have the same value but for the metadata.\<close>

lemma scope_for_meta:
  assumes "\<And>d. d \<in> set ds \<Longrightarrow> same_reach x d"
    "\<And>d. d \<in> set ds \<Longrightarrow> mset (window_requests native r0 d) = mset (window_requests native r1 d)"
  shows "scope_for native r1 tracked account (map (meta x y) ds) =
    (scope_for native r0 tracked account ds)\<lparr>sc_parts := map (meta x y) (sc_parts (scope_for native r0 tracked account ds))\<rparr>"
proof -
  let ?own = "filter (\<lambda>d. y_account d = account) ds"
  have window: "window_requests native r (meta x y d) = window_requests native r d" for r d
    by (simp add: window_requests_def)
  have loc: "local_scope native (meta x y d) (window_requests native r1 (meta x y d)) =
      (map (meta x y) (fst (local_scope native d (window_requests native r0 d))), snd (local_scope native d (window_requests native r0 d)))"
    if "d \<in> set ?own" for d
    using local_scope_meta [of x d native y "window_requests native r1 d"] assms that
      local_scope_perm [of "window_requests native r0 d" "window_requests native r1 d" native d] by (simp add: window)
  have own: "filter (\<lambda>d. y_account d = account) (map (meta x y) ds) = map (meta x y) ?own"
    by (simp add: filter_map comp_def)
  have parts: "map (\<lambda>c. fst (local_scope native c (window_requests native r1 c))) (map (meta x y) ?own) =
      map (\<lambda>d. map (meta x y) (fst (local_scope native d (window_requests native r0 d)))) ?own"
    unfolding map_map comp_def by (rule map_cong [OF refl]) (simp only: loc fst_conv)
  have diag: "map (\<lambda>c. snd (local_scope native c (window_requests native r1 c))) (map (meta x y) ?own) =
      map (\<lambda>d. snd (local_scope native d (window_requests native r0 d))) ?own"
    unfolding map_map comp_def by (rule map_cong [OF refl]) (simp only: loc snd_conv)
  have deltas: "map (\<lambda>c. max 0 (y_delta c)) (map (meta x y) ?own) = map (\<lambda>c. max 0 (y_delta c)) ?own" by simp
  show ?thesis
    unfolding scope_for_def Let_def own parts diag deltas by (cases tracked) (simp_all add: map_concat comp_def)
qed

lemma scope_pieces_agree:
  assumes "same_reach x c" "firm c" "d \<in> set (scope_pieces native report c)"
  shows "same_reach x d"
  by (rule same_reach_subset [OF assms(1)]) (use scope_pieces_inside [OF assms(2,3)] in \<open>simp_all add: inside_def\<close>)

lemma trim_None_None [simp]: "List.map_filter (trim None None) xs = xs"
  by (induction xs) (simp_all add: trim_def List.map_filter_def)

lemma in_period_None [simp]: "in_period None None c"
  by (simp add: in_period_def)

lemma cycle_scope_reused:
  assumes "digest_ok digest" "firm c0" "firm c" "signed c0 = signed c"
    and sig: "signature_of digest r0 (Some q0) v c0 = signature_of digest r1 (Some q) v c"
  shows "cycle_scope native (Some q) r1 None None c =
    (cycle_scope native (Some q0) r0 None None c0)\<lparr>sc_parts := map (refreshed c) (sc_parts (cycle_scope native (Some q0) r0 None None c0))\<rparr>"
proof -
  let ?x = "y_cost_complete_at c" and ?y = "y_cycle_end c"
  have well_kept: "well_kept c0" "well_kept c" using assms(2,3) by (simp_all add: firm_def)
  note m = signed_meta [OF assms(4) well_kept]
  have same: "y_start c = y_start c0" "y_end c = y_end c0" "y_account c = y_account c0"
    by (subst m(1), simp)+
  have meets: "meets c = meets c0" by (simp add: meets_def fun_eq_iff same)
  from sig have acct: "q_account r0 = q_account r1" "(vr_tracking r0 \<noteq> None) = (vr_tracking r1 \<noteq> None)"
    and rel: "relevant (quota_report.truncate r0) c0 = relevant (quota_report.truncate r1) c0"
    and dig: "digest q0 (y_start c0) (y_end c0) = digest q (y_start c0) (y_end c0)"
    by (simp_all add: signature_of_def relevant_def meets same)
  let ?d = "scope_pieces native (quota_report.truncate r0) c0"
  have scope_pieces: "scope_pieces native (quota_report.truncate r1) c = map (meta ?x ?y) ?d"
    using scope_pieces_meta [OF m(2), of native "quota_report.truncate r1" ?y] scope_pieces_relevant [OF assms(2) rel] m(1) by simp
  have "scope_for native q (vr_tracking r1 \<noteq> None) (q_account r1) (map (meta ?x ?y) ?d) =
      (scope_for native q0 (vr_tracking r1 \<noteq> None) (q_account r1) ?d)
        \<lparr>sc_parts := map (meta ?x ?y) (sc_parts (scope_for native q0 (vr_tracking r1 \<noteq> None) (q_account r1) ?d))\<rparr>"
    by (rule scope_for_meta)
      (use scope_pieces_agree [OF m(2) assms(2)] window_requests_digest [OF assms(1) dig assms(2) scope_pieces_inside [OF assms(2)]] in auto)
  moreover have "refreshed c = meta ?x ?y" using assms(3) by (simp add: fun_eq_iff firm_def refreshed_meta)
  ultimately show ?thesis using acct by (simp add: cycle_scope_def index_for_def scope_pieces)
qed

subsection \<open>Prepared entries stay valid\<close>

definition report_ok :: "(nat \<Rightarrow> cycle) \<Rightarrow> value_report \<Rightarrow> bool" where
  "report_ok issued report = (q_account report \<noteq> [] \<and> distinct (map y_id (vr_cycles report)) \<and>
    list_all well_kept (vr_cycles report) \<and>
    list_all (\<lambda>c. case map_of (vr_versions report) (y_id c) of None \<Rightarrow> True
       | Some v \<Rightarrow> firm c \<and> issued v = signed c) (vr_cycles report))"

text \<open>The entry was computed for some cycle under the signature it carries.\<close>

definition valid_entry ::
  "((bool \<times> request list) \<Rightarrow> rat \<Rightarrow> rat \<Rightarrow> 'd) \<Rightarrow> (nat \<Rightarrow> cycle) \<Rightarrow> bool \<Rightarrow> 'd prepared_entry \<Rightarrow> bool" where
  "valid_entry digest issued native e = (\<exists>report requests v c. firm c \<and> issued v = signed c \<and> q_account report \<noteq> [] \<and>
     pe_signature e = signature_of digest report (Some requests) v c \<and>
     pe_value e = cycle_scope native (Some requests) report None None c)"

text \<open>The entries belong to cycles of the report.\<close>

definition entry_for ::
  "((bool \<times> request list) \<Rightarrow> rat \<Rightarrow> rat \<Rightarrow> 'd) \<Rightarrow> value_report \<Rightarrow> bool \<times> request list \<Rightarrow> cycle_id \<times> 'd prepared_entry \<Rightarrow> bool" where
  "entry_for digest report requests e = (\<exists>c v. c \<in> set (vr_cycles report) \<and> fst e = y_id c \<and>
     map_of (vr_versions report) (y_id c) = Some v \<and>
     pe_signature (snd e) = signature_of digest report (Some requests) v c)"

definition prepared_ok ::
  "((bool \<times> request list) \<Rightarrow> rat \<Rightarrow> rat \<Rightarrow> 'd) \<Rightarrow> (nat \<Rightarrow> cycle) \<Rightarrow> bool \<Rightarrow> 'd prepared \<Rightarrow> bool" where
  "prepared_ok digest issued native p = ((\<forall>e \<in> set (pp_entries p). valid_entry digest issued native (snd e)) \<and>
     length (pp_entries p) \<le> PREPARED_CYCLES \<and> pp_weight p \<le> PREPARED_BYTES)"

lemma length_dict_set: "length (dict_set k v m) \<le> Suc (length m)"
  by (simp add: dict_set_def)

lemma prepare_statistics_cycle_ok:
  assumes "report_ok issued report" "c \<in> set (vr_cycles report)" "\<forall>e \<in> set old. valid_entry digest issued native (snd e)"
    "prepared_ok digest issued native p" "\<forall>e \<in> set (pp_entries p). entry_for digest report requests e"
  shows "prepared_ok digest issued native (prepare_statistics_cycle digest native report (Some requests) old p c) \<and>
    (\<forall>e \<in> set (pp_entries (prepare_statistics_cycle digest native report (Some requests) old p c)). entry_for digest report requests e) \<and>
    pp_policy (prepare_statistics_cycle digest native report (Some requests) old p c) = pp_policy p"
proof (cases "map_of (vr_versions report) (y_id c)")
  case None
  with assms(4,5) show ?thesis by (simp add: prepare_statistics_cycle_def)
next
  case (Some v)
  let ?sig = "signature_of digest report (Some requests) v c"
  let ?result = "fst (quota_scope native (Some requests) False (one report c) None None None)"
  let ?fresh = "\<lparr>pe_signature = ?sig, pe_value = ?result, pe_weight = value_weight ?result\<rparr>"
  obtain entry where entry: "entry = (case map_of old (y_id c) of Some e \<Rightarrow> if pe_signature e = ?sig then e else ?fresh | None \<Rightarrow> ?fresh)"
    by blast
  have c: "firm c" "issued v = signed c" "q_account report \<noteq> []"
    using assms(1,2) Some by (auto simp: report_ok_def list_all_iff split: option.splits)
  have "valid_entry digest issued native ?fresh"
    unfolding valid_entry_def using c by (intro exI [of _ report] exI [of _ requests] exI [of _ v] exI [of _ c])
      (simp add: quota_scope_one)
  moreover have "valid_entry digest issued native e" if "map_of old (y_id c) = Some e" for e
    using assms(3) map_of_SomeD [OF that] by auto
  ultimately have valid: "valid_entry digest issued native entry" unfolding entry by (simp split: option.split)
  have sig: "pe_signature entry = ?sig" unfolding entry by (simp split: option.split)
  have mine: "entry_for digest report requests (y_id c, entry)"
    unfolding entry_for_def using assms(2) Some sig by auto
  have step: "prepare_statistics_cycle digest native report (Some requests) old p c =
      (if PREPARED_CYCLES \<le> length (pp_entries p) \<or> PREPARED_BYTES < pp_weight p + minimum_weight c then p
       else if length (pp_entries p) < PREPARED_CYCLES \<and> pp_weight p + pe_weight entry \<le> PREPARED_BYTES
         then p\<lparr>pp_entries := dict_set (y_id c) entry (pp_entries p), pp_weight := pp_weight p + pe_weight entry\<rparr> else p)"
    using Some by (simp add: prepare_statistics_cycle_def Let_def entry)
  show ?thesis
  proof (cases "length (pp_entries p) < PREPARED_CYCLES \<and> pp_weight p + pe_weight entry \<le> PREPARED_BYTES")
    case True
    then have "length (dict_set (y_id c) entry (pp_entries p)) \<le> PREPARED_CYCLES"
      using length_dict_set [of "y_id c" entry "pp_entries p"] by simp
    moreover have "\<forall>e \<in> set (dict_set (y_id c) entry (pp_entries p)). valid_entry digest issued native (snd e) \<and> entry_for digest report requests e"
      using set_dict_set [of "y_id c" entry "pp_entries p"] valid mine assms(4,5) by (auto simp: prepared_ok_def)
    ultimately show ?thesis using True assms(4,5) unfolding step by (auto simp: prepared_ok_def)
  next
    case False
    with assms(4,5) show ?thesis unfolding step by simp
  qed
qed

lemma prepare_statistics_ok:
  assumes "report_ok issued report" "case previous of None \<Rightarrow> True | Some p \<Rightarrow> prepared_ok digest issued native p"
  shows "prepared_ok digest issued native (prepare_statistics digest native report (Some requests) previous)"
    and "\<forall>e \<in> set (pp_entries (prepare_statistics digest native report (Some requests) previous)). entry_for digest report requests e"
    and "pp_policy (prepare_statistics digest native report (Some requests) previous) = user_policy report"
proof -
  let ?old = "case previous of None \<Rightarrow> [] | Some p \<Rightarrow> pp_entries p"
  have old: "\<forall>e \<in> set ?old. valid_entry digest issued native (snd e)"
    using assms(2) by (cases previous) (simp_all add: prepared_ok_def)
  have fold: "prepared_ok digest issued native (foldl (prepare_statistics_cycle digest native report (Some requests) ?old) p cs) \<and>
      (\<forall>e \<in> set (pp_entries (foldl (prepare_statistics_cycle digest native report (Some requests) ?old) p cs)). entry_for digest report requests e) \<and>
      pp_policy (foldl (prepare_statistics_cycle digest native report (Some requests) ?old) p cs) = pp_policy p"
    if "set cs \<subseteq> set (vr_cycles report)" "prepared_ok digest issued native p"
      "\<forall>e \<in> set (pp_entries p). entry_for digest report requests e" for cs p
    using that
  proof (induction cs arbitrary: p)
    case (Cons c cs)
    have "c \<in> set (vr_cycles report)" using Cons.prems(1) by simp
    from prepare_statistics_cycle_ok [OF assms(1) this old Cons.prems(2,3)] Cons.IH [of "prepare_statistics_cycle digest native report (Some requests) ?old p c"]
      Cons.prems(1) show ?case by simp
  qed simp
  let ?p0 = "\<lparr>pp_entries = [], pp_weight = 0, pp_policy = user_policy report\<rparr>"
  have "prepared_ok digest issued native ?p0" "\<forall>e \<in> set (pp_entries ?p0). entry_for digest report requests e"
    by (simp_all add: prepared_ok_def)
  from fold [OF order_refl this]
  show "prepared_ok digest issued native (prepare_statistics digest native report (Some requests) previous)"
    "\<forall>e \<in> set (pp_entries (prepare_statistics digest native report (Some requests) previous)). entry_for digest report requests e"
    "pp_policy (prepare_statistics digest native report (Some requests) previous) = user_policy report"
    by (simp_all add: prepare_statistics_def)
qed

text \<open>One preparation after the other, each reusing the one before.\<close>

definition prepare_statistics_all ::
  "((bool \<times> request list) \<Rightarrow> rat \<Rightarrow> rat \<Rightarrow> 'd) \<Rightarrow> bool \<Rightarrow> (value_report \<times> (bool \<times> request list)) list \<Rightarrow> 'd prepared option" where
  "prepare_statistics_all digest native history =
    foldl (\<lambda>p (report, requests). Some (prepare_statistics digest native report (Some requests) p)) None history"

lemma prepare_statistics_all_ok:
  "list_all (\<lambda>(report, _). report_ok issued report) history \<Longrightarrow>
    (case prepare_statistics_all digest native history of None \<Rightarrow> True | Some p \<Rightarrow> prepared_ok digest issued native p)"
proof (induction history rule: rev_induct)
  case (snoc h history)
  obtain report requests where h: "h = (report, requests)" by (cases h) auto
  have ok: "case prepare_statistics_all digest native history of None \<Rightarrow> True | Some p \<Rightarrow> prepared_ok digest issued native p"
    using snoc by simp
  have "report_ok issued report" using snoc.prems h by simp
  from prepare_statistics_ok(1) [OF this ok] show ?case by (simp add: prepare_statistics_all_def h)
qed (simp add: prepare_statistics_all_def)

subsection \<open>Reading the prepared intervals\<close>

lemma trim_whole:
  assumes "whole start stop c" "inside c d"
  shows "trim start stop d = Some d"
  using assms by (auto simp: trim_def whole_def inside_def split: option.splits)

lemma whole_period: "whole start stop c \<Longrightarrow> y_start c \<le> y_end c \<Longrightarrow> in_period start stop c"
  by (auto simp: whole_def in_period_def split: option.splits)

lemma cycle_scope_whole:
  assumes "firm c" "whole start stop c"
  shows "cycle_scope native requests report start stop c = cycle_scope native requests report None None c"
proof -
  have "in_period start stop c" using assms by (intro whole_period) (simp_all add: firm_def)
  moreover have "List.map_filter (trim start stop) ds = ds" if "\<forall>d \<in> set ds. inside c d" for ds
    using that by (induction ds) (simp_all add: List.map_filter_def trim_whole [OF assms(2)])
  ultimately show ?thesis using scope_pieces_inside [OF assms(1)] by (simp add: cycle_scope_def)
qed

lemma prepared_cycle_exact:
  assumes "digest_ok digest" "report_ok issued report" "prepared_ok digest issued native p"
    "\<forall>e \<in> set (pp_entries p). entry_for digest report requests e"
    "c \<in> set (vr_cycles report)" "in_period start stop c" "scope_cache_ok native m"
    "q_account r = q_account report" "quota_report.truncate r = quota_report.truncate report"
    "(vr_tracking r \<noteq> None) = (vr_tracking report \<noteq> None)"
  shows "\<exists>m'. prepared_cycle p native (Some requests) readonly r start stop c (Some m) =
    (cycle_scope native (Some requests) r start stop c, Some m') \<and> scope_cache_ok native m'"
proof -
  have account: "q_account r \<noteq> []" using assms(2,8) by (simp add: report_ok_def)
  have "list_all well_kept (vr_cycles (one r c))" using assms(2,5) by (simp add: report_ok_def list_all_iff)
  from quota_scope_exact [OF assms(7) this, of "Some requests" readonly start stop readonly]
  have plain: "\<exists>m'. quota_scope native (Some requests) readonly (one r c) start stop (Some m) =
      (cycle_scope native (Some requests) r start stop c, Some m') \<and> scope_cache_ok native m'"
    using quota_scope_one [OF account] by simp
  show ?thesis
  proof (cases "map_of (pp_entries p) (y_id c)")
    case None
    with plain show ?thesis by (simp add: prepared_cycle_def)
  next
    case (Some e)
    show ?thesis
    proof (cases "whole start stop c")
      case False
      with Some plain show ?thesis by (simp add: prepared_cycle_def)
    next
      case True
      have mem: "(y_id c, e) \<in> set (pp_entries p)" using Some by (rule map_of_SomeD)
      then obtain c' v where c': "c' \<in> set (vr_cycles report)" "y_id c = y_id c'" "map_of (vr_versions report) (y_id c') = Some v"
        "pe_signature e = signature_of digest report (Some requests) v c'" using assms(4) by (auto simp: entry_for_def)
      have "c' = c" using c'(1,2) assms(2,5) by (auto simp: report_ok_def distinct_map dest: inj_onD)
      note c' = c' [unfolded this]
      have firm: "firm c" "issued v = signed c" using assms(2,5) c'(3) by (auto simp: report_ok_def list_all_iff split: option.splits)
      from mem assms(3) have "valid_entry digest issued native e" by (auto simp: prepared_ok_def)
      then obtain r0 q0 v0 c0 where v0: "firm c0" "issued v0 = signed c0"
        "pe_signature e = signature_of digest r0 (Some q0) v0 c0" "pe_value e = cycle_scope native (Some q0) r0 None None c0"
        by (auto simp: valid_entry_def)
      have "v0 = v" using v0(3) c'(4) by (simp add: signature_of_def)
      then have "signed c0 = signed c" using v0(2) firm(2) by simp
      moreover have "signature_of digest r0 (Some q0) v c0 = signature_of digest r (Some requests) v c"
        using v0(3) c'(4) \<open>v0 = v\<close> assms(8-10) by (simp add: signature_of_def) (metis truncate_clears)
      ultimately have "cycle_scope native (Some requests) r None None c =
          (pe_value e)\<lparr>sc_parts := map (refreshed c) (sc_parts (pe_value e))\<rparr>"
        unfolding v0(4) by (rule cycle_scope_reused [OF assms(1) v0(1) firm(1)])
      with True Some assms(7) cycle_scope_whole [OF firm(1) True] show ?thesis by (simp add: prepared_cycle_def)
    qed
  qed
qed

lemma prepared_cycles_exact:
  assumes "digest_ok digest" "report_ok issued report" "prepared_ok digest issued native p"
    "\<forall>e \<in> set (pp_entries p). entry_for digest report requests e" "scope_cache_ok native m"
    "q_account r = q_account report" "quota_report.truncate r = quota_report.truncate report"
    "(vr_tracking r \<noteq> None) = (vr_tracking report \<noteq> None)"
    "\<forall>c \<in> set cs. c \<in> set (vr_cycles report) \<and> in_period start stop c"
  shows "\<exists>m'. prepared_cycles p native (Some requests) readonly r start stop cs (Some m) =
    (foldr join (map (cycle_scope native (Some requests) r start stop) cs) no_scope, Some m') \<and> scope_cache_ok native m'"
  using assms(5,9)
proof (induction cs arbitrary: m)
  case (Cons c cs)
  have c: "c \<in> set (vr_cycles report)" "in_period start stop c" using Cons.prems(2) by simp_all
  from prepared_cycle_exact [OF assms(1-4) c Cons.prems(1) assms(6-8), of readonly] obtain m1 where
    m1: "prepared_cycle p native (Some requests) readonly r start stop c (Some m) =
      (cycle_scope native (Some requests) r start stop c, Some m1)" "scope_cache_ok native m1" by blast
  from Cons.IH [OF m1(2)] Cons.prems(2) obtain m2 where
    "prepared_cycles p native (Some requests) readonly r start stop cs (Some m1) =
      (foldr join (map (cycle_scope native (Some requests) r start stop) cs) no_scope, Some m2)" "scope_cache_ok native m2"
    by auto
  with m1 show ?case by simp
qed simp

lemma prepared_scope_exact:
  fixes exclusions :: "exclusion list" and cs :: "cycle list"
  assumes "digest_ok digest" "report_ok issued report" "case previous of None \<Rightarrow> True | Some p \<Rightarrow> prepared_ok digest issued native p"
    "scope_cache_ok native m" "set cs \<subseteq> set (vr_cycles report)"
  defines "r \<equiv> report\<lparr>vr_cycles := cs, q_exclusions := exclusions\<rparr>"
  shows "\<exists>m'. prepared_scope (prepare_statistics digest native report (Some requests) previous) native (Some requests) readonly r start stop (Some m) =
    (fst (quota_scope native (Some requests) readonly r start stop None), Some m') \<and> scope_cache_ok native m'"
proof (cases "user_policy report = user_policy r")
  case False
  have "list_all well_kept (vr_cycles r)" using assms(2,5) by (auto simp: r_def report_ok_def list_all_iff)
  from quota_scope_exact [OF assms(4) this] False show ?thesis
    by (simp add: prepared_scope_def prepare_statistics_ok(3) [OF assms(2,3)])
next
  case True
  then have r: "r = report\<lparr>vr_cycles := cs\<rparr>" by (simp add: user_policy_def r_def)
  have account: "q_account r \<noteq> []" using assms(2) r by (simp add: report_ok_def)
  have cs: "\<forall>c \<in> set (filter (in_period start stop) (vr_cycles r)). c \<in> set (vr_cycles report) \<and> in_period start stop c"
    using assms(5) r by auto
  have same: "q_account r = q_account report" "quota_report.truncate r = quota_report.truncate report"
    "(vr_tracking r \<noteq> None) = (vr_tracking report \<noteq> None)" by (simp_all add: r quota_report.truncate_def)
  from prepared_cycles_exact [OF assms(1,2) prepare_statistics_ok(1,2) [OF assms(2,3)] assms(4) same cs, where readonly = readonly]
  show ?thesis using True
    by (simp add: prepared_scope_def prepare_statistics_ok(3) [OF assms(2,3)] quota_scope_split [OF account])
qed

section \<open>Examples\<close>

definition sample_interval :: cycle where
  "sample_interval = sample_cycle\<lparr>y_cost_complete_at := Some (Some 25), y_cycle_end := Some 30, y_forward_tracking := True\<rparr>"

lemma sample_interval_firm: "firm sample_interval"
  by (simp add: firm_def well_kept_def sample_interval_def sample_cycle_def)

definition sample_report :: value_report where
  "sample_report = \<lparr>q_account = ''a'', q_home = [], q_exclusions = [], q_cycle_clears = [], vr_cycles = [sample_interval],
     vr_tracking = Some True, vr_request_windows = (False, []), vr_versions = [(Plain ''c'', 7)]\<rparr>"

lemma sample_report_ok: "report_ok (\<lambda>_. signed sample_interval) sample_report"
  using sample_interval_firm
  by (simp add: report_ok_def sample_report_def firm_def)

definition sample_digest :: "bool \<times> request list \<Rightarrow> rat \<Rightarrow> rat \<Rightarrow> request multiset" where
  "sample_digest r a b = mset (filter (request_overlaps a b) (snd r))"

definition sample_mixed :: value_report where
  "sample_mixed = sample_report\<lparr>q_account := [], vr_tracking := None, vr_versions := [],
     vr_cycles := [sample_interval, sample_interval\<lparr>y_id := Plain ''d'', y_account := ''b''\<rparr>]\<rparr>"

section \<open>Further properties\<close>

text \<open>
  After any calls the attribution cache holds at most 256 entries of a total weight of at most 131072.
\<close>

theorem scope_cache_bounded:
  assumes "list_all (\<lambda>(_, _, report, _). list_all well_kept (vr_cycles report)) calls"
  shows "\<exists>m. snd (scope_calls native calls (Some [])) = Some m \<and> length m \<le> SCOPE_ENTRIES \<and> cache_weight m \<le> SCOPE_WEIGHT"
proof -
  have "scope_cache_ok native []" by (simp add: scope_cache_ok_def cache_weight_def)
  from scope_calls_exact [OF this assms] show ?thesis by (auto simp: scope_cache_ok_def)
qed

theorem scope_cache_bounded_witness:
  "\<exists>m. snd (scope_calls True [(None, False, sample_report, None, Some 10)] (Some [])) = Some m \<and>
    length m \<le> SCOPE_ENTRIES \<and> cache_weight m \<le> SCOPE_WEIGHT"
  by (rule scope_cache_bounded) (use sample_interval_firm in \<open>simp add: sample_report_def firm_def\<close>)

text \<open>
  Prepared statistics hold at most 4096 cycles and account for at most 64 MiB.
\<close>

theorem prepared_bounded:
  assumes "prepare_statistics_all digest native history = Some p" and "list_all (\<lambda>(r, _). report_ok issued r) history"
  shows "length (pp_entries p) \<le> PREPARED_CYCLES \<and> pp_weight p \<le> PREPARED_BYTES"
  using prepare_statistics_all_ok [OF assms(2), of digest native] assms(1) by (simp add: prepared_ok_def)

theorem prepared_bounded_witness:
  "\<exists>p. prepare_statistics_all sample_digest True [(sample_report, False, [])] = Some p \<and> length (pp_entries p) \<le> PREPARED_CYCLES \<and> pp_weight p \<le> PREPARED_BYTES"
proof -
  obtain p where p: "prepare_statistics_all sample_digest True [(sample_report, False, [])] = Some p" by (simp add: prepare_statistics_all_def)
  from prepared_bounded [OF p, of "\<lambda>_. signed sample_interval"] p show ?thesis by (simp add: sample_report_ok)
qed

text \<open>
  For a report without an account, the prepared statistics take the account of each cycle and the direct
  calculation that of the first cycle, so the consumption of two accounts is added in one of them only.
\<close>

theorem prepared_scope_needs_account:
  "sc_deltas (fst (quota_scope False (Some (False, [])) False sample_mixed None None None)) = [5] \<and>
    sc_deltas (fst (prepared_scope (prepare_statistics sample_digest False sample_mixed (Some (False, [])) None) False
      (Some (False, [])) False sample_mixed None None None)) = [5, 5]"
  by (simp add: quota_scope_def scoped_cycles_def sample_mixed_def sample_report_def sample_interval_def sample_cycle_def
      prepared_scope_def prepare_statistics_def prepare_statistics_cycle_def prepared_cycle_def continuous_quota_intervals_def
      continuous_cycle_def observed_runs_def add_run_def OBSERVATION_FRESHNESS_def retained_intervals_def retained_cycle_def
      cycle_ranges_def active_exclusions_def exclusion_ranges_def trim_def in_period_def own_account_def current_account_def
      one_def user_policy_def join_def no_scope_def List.map_filter_def quota_report.truncate_def)

section \<open>Claims\<close>



text \<open>
  C38: Whatever calls share the attribution cache, each returns what it would compute without a cache: the
  signature keeps everything of an interval that its attribution depends on, and the two keys it leaves out
  are restored in a reused part.
\<close>

theorem scope_cache_transparent:
  assumes "list_all (\<lambda>(_, _, report, _). list_all well_kept (vr_cycles report)) calls"
  shows "fst (scope_calls native calls (Some [])) = fst (scope_calls native calls None)"
proof -
  have "scope_cache_ok native []" by (simp add: scope_cache_ok_def cache_weight_def)
  from scope_calls_exact [OF this assms] show ?thesis by blast
qed

theorem scope_cache_transparent_witness:
  "fst (scope_calls True [(None, False, sample_report, None, Some 10), (None, True, sample_report, None, None)] (Some [])) =
    fst (scope_calls True [(None, False, sample_report, None, Some 10), (None, True, sample_report, None, None)] None)"
  by (rule scope_cache_transparent) (use sample_interval_firm in \<open>simp add: sample_report_def firm_def\<close>)

end
