(* ===== verification/Cycles.thy ===== *)
theory Cycles
  imports Ranges "HOL-Library.List_Lexorder" "HOL-Library.Char_ord"
begin

text \<open>
  Building quota cycles from stored observations: \<open>split_cycles\<close>, \<open>partition_coverage\<close>
  and \<open>estimate\<close> of \<open>cachemonitor/quota_cycles.py\<close>. Display strings are constructors.
\<close>

section \<open>Observations and groups\<close>

record obs =
  v_id :: string
  v_at :: rat
  v_used :: rat
  v_reset :: "rat option"
  v_account :: string
  v_minutes :: rat
  v_plan :: "string option"
  v_bucket :: "string option"
  v_separate :: "string option"
  v_source :: string

record manual_reset =
  mr_id :: string
  mr_at :: rat
  mr_account :: string
  mr_baseline_after :: rat

datatype boundary_reason = Partial_observation | Manual_reset_used | Account_changed | Plan_or_limit_changed
  | Window_changed | Natural_reset | Reset_time_changed | Discontinuity_tail
  | Coverage_unknown | After_unknown_boundary

datatype cov_reason = Counter_increase string | Unmatched_increase string | Missing_tokens string
  | Mode_unknown string | Other_reason string

record group =
  g_id :: string
  g_reason :: boundary_reason
  g_boundary :: rat
  g_obs :: "obs list"
  g_rejected :: "obs list"
  g_manual :: "manual_reset option"
  g_discontinuous :: bool
  g_coverage_blocked :: bool
  g_coverage_reasons :: "cov_reason list"

text \<open>A limit epoch: a copy of the observation that opened it, with the highest reading.\<close>

record epoch = e_obs :: obs  e_high :: rat

definition RESET_TOLERANCE :: rat where "RESET_TOLERANCE = 120"
definition MAX_OBSERVATION_GAP :: rat where "MAX_OBSERVATION_GAP = 1800"

text \<open>The truth value of a reset time, and the tests that read two of them.\<close>

definition has_reset :: "obs \<Rightarrow> bool" where
  "has_reset r = (case v_reset r of None \<Rightarrow> False | Some t \<Rightarrow> t \<noteq> 0)"

definition reset_of :: "obs \<Rightarrow> rat" where
  "reset_of r = (case v_reset r of None \<Rightarrow> 0 | Some t \<Rightarrow> t)"

definition near_reset :: "obs \<Rightarrow> obs \<Rightarrow> bool" where
  "near_reset a b = (\<bar>reset_of a - reset_of b\<bar> \<le> RESET_TOLERANCE)"

definition or_blank :: "string option \<Rightarrow> string" where
  "or_blank v = (case v of None \<Rightarrow> '''' | Some s \<Rightarrow> s)"

definition compatible :: "string \<Rightarrow> string \<Rightarrow> bool" where
  "compatible a b = (a = '''' \<or> b = '''' \<or> a = b)"

definition same_epoch_record :: "obs \<Rightarrow> epoch \<Rightarrow> bool" where
  "same_epoch_record item e =
    (v_minutes (e_obs e) = v_minutes item \<and> near_reset (e_obs e) item \<and>
     compatible (v_account (e_obs e)) (v_account item) \<and>
     compatible (or_blank (v_plan (e_obs e))) (or_blank (v_plan item)) \<and>
     compatible (or_blank (v_bucket (e_obs e))) (or_blank (v_bucket item)))"

text \<open>\<open>epoch\<close> finds the first matching record or appends one; the record is shared, so
  it is returned by its position.\<close>

fun find_epoch :: "obs \<Rightarrow> epoch list \<Rightarrow> nat option" where
  "find_epoch item [] = None"
| "find_epoch item (e # es) = (if same_epoch_record item e then Some 0 else map_option Suc (find_epoch item es))"

definition epoch_of :: "obs \<Rightarrow> epoch list \<Rightarrow> nat option \<times> epoch list" where
  "epoch_of item es =
    (if \<not> has_reset item then (None, es)
     else case find_epoch item es of Some i \<Rightarrow> (Some i, es)
       | None \<Rightarrow> (Some (length es), es @ [\<lparr>e_obs = item, e_high = v_used item\<rparr>]))"

section \<open>Splitting\<close>

record split = sp_groups :: "group list"  sp_epochs :: "epoch list"

definition new_group :: "string \<Rightarrow> boundary_reason \<Rightarrow> rat \<Rightarrow> group" where
  "new_group i r b = \<lparr>g_id = i, g_reason = r, g_boundary = b, g_obs = [], g_rejected = [], g_manual = None,
     g_discontinuous = False, g_coverage_blocked = False, g_coverage_reasons = []\<rparr>"

definition append_group :: "group \<Rightarrow> split \<Rightarrow> split" where
  "append_group g s = s\<lparr>sp_groups := sp_groups s @ [g]\<rparr>"

definition map_last :: "('a \<Rightarrow> 'a) \<Rightarrow> 'a list \<Rightarrow> 'a list" where
  "map_last f xs = (if xs = [] then [] else butlast xs @ [f (last xs)])"

definition reject_item :: "obs \<Rightarrow> split \<Rightarrow> split" where
  "reject_item item s = s\<lparr>sp_groups := map_last (\<lambda>g. g\<lparr>g_rejected := g_rejected g @ [item]\<rparr>) (sp_groups s)\<rparr>"

definition accept_item :: "obs \<Rightarrow> split \<Rightarrow> split" where
  "accept_item item s =
    (case epoch_of item (sp_epochs s) of (found, es) \<Rightarrow>
       (case found of
          Some i \<Rightarrow>
            if v_used item < e_high (es ! i) then reject_item item (s\<lparr>sp_epochs := es\<rparr>)
            else s\<lparr>sp_epochs := es[i := (es ! i)\<lparr>e_high := max (e_high (es ! i)) (v_used item)\<rparr>],
                   sp_groups := map_last (\<lambda>g. g\<lparr>g_obs := g_obs g @ [item]\<rparr>) (sp_groups s)\<rparr>
        | None \<Rightarrow> s\<lparr>sp_epochs := es,
                   sp_groups := map_last (\<lambda>g. g\<lparr>g_obs := g_obs g @ [item]\<rparr>) (sp_groups s)\<rparr>))"

definition tail_group :: "obs list \<Rightarrow> obs list \<Rightarrow> group" where
  "tail_group vs tail = (new_group (''uncertain:'' @ v_id (hd tail)) Discontinuity_tail (v_at (last vs)))
     \<lparr>g_obs := [last vs, last tail], g_rejected := tail, g_discontinuous := True\<rparr>"

definition close_tail :: "split \<Rightarrow> split" where
  "close_tail s =
    (if sp_groups s = [] then s else
     (let g = last (sp_groups s); vs = g_obs g;
          tail = filter (\<lambda>r. vs = [] \<or> v_at (last vs) < v_at r) (g_rejected g)
      in if tail \<noteq> [] \<and> vs \<noteq> [] then append_group (tail_group vs tail) s else s))"

definition reading :: "obs \<Rightarrow> rat \<times> rat option \<times> string \<times> rat \<times> string \<times> string" where
  "reading r = (v_used r, v_reset r, v_account r, v_minutes r, or_blank (v_plan r), or_blank (v_bucket r))"

definition conflicts :: "obs list \<Rightarrow> rat list" where
  "conflicts vs = map v_at (filter (\<lambda>r. list_ex (\<lambda>q. v_at q = v_at r \<and> reading q \<noteq> reading r) vs) vs)"

definition same_series :: "obs \<Rightarrow> obs \<Rightarrow> bool" where
  "same_series a r = (has_reset r \<and> near_reset r a \<and> v_minutes r = v_minutes a \<and> v_account r = v_account a \<and>
     or_blank (v_plan r) = or_blank (v_plan a) \<and> or_blank (v_bucket r) = or_blank (v_bucket a) \<and> v_source r = v_source a)"

definition isolated_triple :: "manual_reset list \<Rightarrow> obs \<Rightarrow> obs \<Rightarrow> obs \<Rightarrow> bool" where
  "isolated_triple manual a b c =
    (v_at a < v_at b \<and> v_at b < v_at c \<and> v_at c - v_at a \<le> MAX_OBSERVATION_GAP \<and>
     v_used a = v_used c \<and> v_used c \<noteq> v_used b \<and> same_series a b \<and> same_series a c \<and>
     \<not> list_ex (\<lambda>m. v_at a \<le> mr_at m \<and> mr_at m \<le> v_at c) manual)"

fun isolated :: "manual_reset list \<Rightarrow> obs list \<Rightarrow> string list" where
  "isolated manual (a # b # c # rest) =
    (if isolated_triple manual a b c then [v_id b] else []) @ isolated manual (b # c # rest)"
| "isolated manual _ = []"

datatype tick = Reset_tick manual_reset | Obs_tick obs

fun tick_key :: "tick \<Rightarrow> rat \<times> nat \<times> string" where
  "tick_key (Obs_tick r) = (v_at r, 1, v_id r)"
| "tick_key (Reset_tick m) = (mr_at m, 0, mr_id m)"

text \<open>The boundary that an observation opens against the last accepted one, with its time.\<close>

definition boundary_of :: "obs \<Rightarrow> obs \<Rightarrow> (boundary_reason \<times> rat) option" where
  "boundary_of previous item =
    (if v_account item \<noteq> v_account previous then Some (Account_changed, v_at item)
     else if v_plan item \<noteq> v_plan previous \<or> v_bucket item \<noteq> v_bucket previous \<or> v_separate item \<noteq> v_separate previous
       then Some (Plan_or_limit_changed, v_at item)
     else if v_minutes item \<noteq> v_minutes previous then Some (Window_changed, v_at item)
     else if has_reset item \<and> has_reset previous \<and> \<not> near_reset item previous then
       (let shift = reset_of item - reset_of previous;
            natural = (v_at item \<ge> reset_of previous - RESET_TOLERANCE \<and>
                       \<bar>shift - v_minutes item * 60\<bar> \<le> RESET_TOLERANCE)
        in if natural then Some (Natural_reset, reset_of previous) else Some (Reset_time_changed, v_at item))
     else None)"

definition observe_tick :: "rat list \<Rightarrow> string list \<Rightarrow> split \<Rightarrow> obs \<Rightarrow> split" where
  "observe_tick conf lone s0 item =
    (let s = (if sp_groups s0 = [] then append_group (new_group (v_id item) Partial_observation (v_at item)) s0 else s0);
         g = last (sp_groups s); marker = g_manual g
     in if (case marker of Some m \<Rightarrow> v_at item < mr_baseline_after m | None \<Rightarrow> False) then s
        else if v_at item \<in> set conf \<or> v_id item \<in> set lone then reject_item item s
        else if g_obs g = [] then
          accept_item item
            (if (case marker of Some m \<Rightarrow> mr_account m \<noteq> '''' \<and> v_account item \<noteq> '''' \<and> mr_account m \<noteq> v_account item
                 | None \<Rightarrow> False)
             then append_group (new_group (v_id item) Account_changed (v_at item)) s else s)
        else
          (let previous = last (g_obs g) in
           case boundary_of previous item of
             Some (r, b) \<Rightarrow> accept_item item (append_group (new_group (v_id item) r b) (close_tail s))
           | None \<Rightarrow> if v_used item < v_used previous then reject_item item s else accept_item item s))"

definition reset_tick :: "split \<Rightarrow> manual_reset \<Rightarrow> split" where
  "reset_tick s m = append_group ((new_group (''manual:'' @ mr_id m) Manual_reset_used (mr_at m))\<lparr>g_manual := Some m\<rparr>)
     ((close_tail s)\<lparr>sp_epochs := []\<rparr>)"

definition split_tick :: "rat list \<Rightarrow> string list \<Rightarrow> split \<Rightarrow> tick \<Rightarrow> split" where
  "split_tick conf lone s t = (case t of Reset_tick m \<Rightarrow> reset_tick s m | Obs_tick r \<Rightarrow> observe_tick conf lone s r)"

definition identified :: "obs list \<Rightarrow> obs list" where
  "identified vs = (let known = filter (\<lambda>r. v_account r \<noteq> '''') vs in if known \<noteq> [] then known else vs)"

definition split_cycles :: "obs list \<Rightarrow> manual_reset list \<Rightarrow> group list" where
  "split_cycles observations manual =
    (let vs = sort_key (\<lambda>r. (v_at r, v_id r)) (identified observations);
         timeline = sort_key tick_key (map Obs_tick vs @ map Reset_tick manual)
     in sp_groups (close_tail (foldl (split_tick (conflicts vs) (isolated manual vs))
          \<lparr>sp_groups = [], sp_epochs = []\<rparr> timeline)))"

section \<open>What a group is\<close>

definition continues_from :: "obs \<Rightarrow> obs \<Rightarrow> bool" where
  "continues_from a b = (v_at a \<le> v_at b \<and> v_used a \<le> v_used b \<and> v_account a = v_account b \<and>
     v_plan a = v_plan b \<and> v_bucket a = v_bucket b \<and> v_separate a = v_separate b \<and> v_minutes a = v_minutes b)"

definition group_ok :: "(obs \<Rightarrow> bool) \<Rightarrow> group \<Rightarrow> bool" where
  "group_ok ok g = (g_discontinuous g \<or> sorted_wrt continues_from (g_obs g) \<and> (\<forall>r \<in> set (g_obs g). ok r))"

definition split_ok :: "(obs \<Rightarrow> bool) \<Rightarrow> rat \<Rightarrow> split \<Rightarrow> bool" where
  "split_ok ok now s = (\<forall>g \<in> set (sp_groups s). group_ok ok g \<and> (\<forall>r \<in> set (g_obs g @ g_rejected g). v_at r \<le> now))"

lemma continues_from_trans: "continues_from a b \<Longrightarrow> continues_from b c \<Longrightarrow> continues_from a c"
  by (auto simp: continues_from_def)

lemma split_ok_later: "split_ok ok t s \<Longrightarrow> t \<le> u \<Longrightarrow> split_ok ok u s"
  unfolding split_ok_def by (meson order_trans)

lemma set_map_last: "xs \<noteq> [] \<Longrightarrow> set (map_last f xs) = insert (f (last xs)) (set (butlast xs))"
  by (simp add: map_last_def)

lemma split_ok_map_last:
  assumes "split_ok ok now s" "sp_groups s \<noteq> []" "group_ok ok (f (last (sp_groups s)))"
    "\<forall>r \<in> set (g_obs (f (last (sp_groups s))) @ g_rejected (f (last (sp_groups s)))). v_at r \<le> now"
  shows "split_ok ok now (s\<lparr>sp_groups := map_last f (sp_groups s)\<rparr>)"
  using assms by (auto simp: split_ok_def set_map_last dest: in_set_butlastD)

lemma split_ok_epochs [simp]: "split_ok ok now (s\<lparr>sp_epochs := es\<rparr>) = split_ok ok now s"
  by (simp add: split_ok_def)

lemma split_ok_append_group:
  "split_ok ok now s \<Longrightarrow> group_ok ok g \<Longrightarrow> \<forall>r \<in> set (g_obs g @ g_rejected g). v_at r \<le> now \<Longrightarrow>
    split_ok ok now (append_group g s)"
  by (auto simp: split_ok_def append_group_def)

lemma new_group_fields [simp]:
  "g_obs (new_group i r b) = []" "g_rejected (new_group i r b) = []" "g_manual (new_group i r b) = None"
  "g_discontinuous (new_group i r b) = False" "group_ok ok (new_group i r b)"
  "group_ok ok ((new_group i r b)\<lparr>g_manual := m\<rparr>)"
  by (simp_all add: new_group_def group_ok_def)

lemma last_in_groups: "split_ok ok now s \<Longrightarrow> sp_groups s \<noteq> [] \<Longrightarrow> group_ok ok (last (sp_groups s)) \<and>
    (\<forall>r \<in> set (g_obs (last (sp_groups s)) @ g_rejected (last (sp_groups s))). v_at r \<le> now)"
  by (auto simp: split_ok_def)

lemma reject_item_ok:
  assumes ok: "split_ok ok now s" and "v_at item \<le> now"
  shows "split_ok ok now (reject_item item s)"
proof (cases "sp_groups s = []")
  case False
  show ?thesis
    unfolding reject_item_def
    by (rule split_ok_map_last [OF ok False])
       (use assms last_in_groups [OF ok False] in \<open>auto simp: group_ok_def\<close>)
qed (simp add: reject_item_def map_last_def split_ok_def)

lemma group_ok_snoc:
  assumes "group_ok ok g" "g_obs g = [] \<or> continues_from (last (g_obs g)) item" "ok item"
  shows "group_ok ok (g\<lparr>g_obs := g_obs g @ [item]\<rparr>)"
proof (cases "g_discontinuous g")
  case False
  have "continues_from r item" if r: "r \<in> set (g_obs g)" for r
  proof -
    obtain vs l where vs: "g_obs g = vs @ [l]" using r by (cases "g_obs g" rule: rev_cases) auto
    with assms(2) have l: "continues_from l item" by simp
    have "r = l \<or> continues_from r l" using r vs assms(1) False by (auto simp: group_ok_def sorted_wrt_append)
    with l show ?thesis using continues_from_trans by blast
  qed
  with assms(1,3) False show ?thesis by (simp add: group_ok_def sorted_wrt_append)
qed (simp add: group_ok_def)

lemma accept_item_ok:
  assumes "split_ok ok now s" "sp_groups s \<noteq> []" "v_at item \<le> now" "ok item"
    "g_obs (last (sp_groups s)) = [] \<or> continues_from (last (g_obs (last (sp_groups s)))) item"
  shows "split_ok ok now (accept_item item s)"
proof -
  note l = last_in_groups [OF assms(1,2)]
  have g: "split_ok ok now (s\<lparr>sp_groups := map_last (\<lambda>g. g\<lparr>g_obs := g_obs g @ [item]\<rparr>) (sp_groups s)\<rparr>)"
    by (rule split_ok_map_last [OF assms(1,2)]) (use l assms in \<open>auto intro: group_ok_snoc\<close>)
  have e: "split_ok ok now (s\<lparr>sp_epochs := es, sp_groups := gs\<rparr>) = split_ok ok now (s\<lparr>sp_groups := gs\<rparr>)" for es gs
    by (simp add: split_ok_def)
  have r: "split_ok ok now (reject_item item (s\<lparr>sp_epochs := es\<rparr>))" for es
    by (rule reject_item_ok) (simp_all add: assms)
  show ?thesis
    using g r by (simp add: accept_item_def e split: prod.split option.split)
qed

lemma tail_group_ok:
  assumes "vs \<noteq> []" "ts \<noteq> []" "\<forall>r \<in> set (vs @ ts). v_at r \<le> now"
  shows "group_ok ok (tail_group vs ts)"
    and "\<forall>r \<in> set (g_obs (tail_group vs ts) @ g_rejected (tail_group vs ts)). v_at r \<le> now"
  using assms by (auto simp: tail_group_def group_ok_def)

lemma close_tail_cases:
  obtains "close_tail s = s"
  | ts where "close_tail s = append_group (tail_group (g_obs (last (sp_groups s))) ts) s" "sp_groups s \<noteq> []"
      "ts \<noteq> []" "g_obs (last (sp_groups s)) \<noteq> []" "set ts \<subseteq> set (g_rejected (last (sp_groups s)))"
proof -
  let ?g = "last (sp_groups s)"
  let ?ts = "filter (\<lambda>r. g_obs ?g = [] \<or> v_at (last (g_obs ?g)) < v_at r) (g_rejected ?g)"
  show thesis
  proof (cases "sp_groups s \<noteq> [] \<and> ?ts \<noteq> [] \<and> g_obs ?g \<noteq> []")
    case True
    then have "close_tail s = append_group (tail_group (g_obs ?g) ?ts) s"
      by (auto simp: close_tail_def Let_def)
    moreover have "set ?ts \<subseteq> set (g_rejected ?g)" by (simp only: set_filter) blast
    ultimately show thesis using True that(2) by blast
  next
    case False
    then have "close_tail s = s" by (auto simp: close_tail_def Let_def)
    then show thesis by (rule that(1))
  qed
qed

lemma close_tail_ok: "split_ok ok now s \<Longrightarrow> split_ok ok now (close_tail s)"
proof (cases s rule: close_tail_cases)
  case (2 ts)
  assume ok: "split_ok ok now s"
  from last_in_groups [OF ok 2(2)] 2(5)
  have "\<forall>r \<in> set (g_obs (last (sp_groups s)) @ ts). v_at r \<le> now" by auto
  from tail_group_ok [OF 2(4,3) this] ok show ?thesis
    unfolding 2(1) by (intro split_ok_append_group) auto
qed simp

lemma boundary_None_continues:
  "boundary_of previous item = None \<Longrightarrow> v_at previous \<le> v_at item \<Longrightarrow> \<not> v_used item < v_used previous \<Longrightarrow>
    continues_from previous item"
  by (auto simp: boundary_of_def continues_from_def Let_def split: if_splits)

lemma observe_tick_ok:
  assumes ok: "split_ok (\<lambda>r. v_at r \<notin> set conf \<and> v_id r \<notin> set lone) now s0" and now: "now \<le> v_at item"
  shows "split_ok (\<lambda>r. v_at r \<notin> set conf \<and> v_id r \<notin> set lone) (v_at item) (observe_tick conf lone s0 item)"
proof -
  let ?ok = "\<lambda>r. v_at r \<notin> set conf \<and> v_id r \<notin> set lone"
  obtain s where s_def: "s = (if sp_groups s0 = [] then append_group (new_group (v_id item) Partial_observation (v_at item)) s0 else s0)"
    by simp
  obtain g where g: "g = last (sp_groups s)" by simp
  have s: "split_ok ?ok (v_at item) s"
    using split_ok_later [OF ok now] by (simp add: s_def split_ok_append_group)
  have old: "split_ok ?ok now s" using ok by (simp add: s_def split_ok_append_group)
  have ne: "sp_groups s \<noteq> []" by (simp add: s_def append_group_def)
  have app: "sp_groups (append_group h t) \<noteq> []" "last (sp_groups (append_group h t)) = h" for h t
    by (simp_all add: append_group_def)
  have rej: "split_ok ?ok (v_at item) (reject_item item s)" by (rule reject_item_ok [OF s]) simp
  have fresh: "split_ok ?ok (v_at item) (accept_item item (append_group (new_group i r b) t))"
    if "split_ok ?ok (v_at item) t" "?ok item" for i r b t
    by (rule accept_item_ok) (use that in \<open>simp_all add: app split_ok_append_group\<close>)
  have acc: "split_ok ?ok (v_at item) (accept_item item s)"
    if "?ok item" "g_obs g = [] \<or> continues_from (last (g_obs g)) item"
    by (rule accept_item_ok [OF s ne]) (use that g in simp_all)
  have cont: "continues_from (last (g_obs g)) item"
    if "boundary_of (last (g_obs g)) item = None" "\<not> v_used item < v_used (last (g_obs g))" "g_obs g \<noteq> []"
  proof -
    have "last (g_obs g) \<in> set (g_obs g @ g_rejected g)" using that(3) by simp
    then have "v_at (last (g_obs g)) \<le> now" using last_in_groups [OF old ne] g by blast
    with now that show ?thesis by (intro boundary_None_continues) auto
  qed
  have eq: "observe_tick conf lone s0 item =
     (if (case g_manual g of Some m \<Rightarrow> v_at item < mr_baseline_after m | None \<Rightarrow> False) then s
      else if v_at item \<in> set conf \<or> v_id item \<in> set lone then reject_item item s
      else if g_obs g = [] then accept_item item
          (if (case g_manual g of Some m \<Rightarrow> mr_account m \<noteq> [] \<and> v_account item \<noteq> [] \<and> mr_account m \<noteq> v_account item
               | None \<Rightarrow> False)
           then append_group (new_group (v_id item) Account_changed (v_at item)) s else s)
      else (case boundary_of (last (g_obs g)) item of
             Some (r, b) \<Rightarrow> accept_item item (append_group (new_group (v_id item) r b) (close_tail s))
           | None \<Rightarrow> if v_used item < v_used (last (g_obs g)) then reject_item item s else accept_item item s))"
    unfolding observe_tick_def Let_def g s_def ..
  show ?thesis
  proof (cases "v_at item \<in> set conf \<or> v_id item \<in> set lone")
    case True
    with s rej show ?thesis unfolding eq by auto
  next
    case False
    note f = fresh [OF s] fresh [OF close_tail_ok [OF s]]
    show ?thesis
      unfolding eq using False s rej f acc cont
      by (cases "boundary_of (last (g_obs g)) item") (auto simp del: de_Morgan_disj)
  qed
qed

lemma reset_tick_ok:
  "split_ok ok now s \<Longrightarrow> split_ok ok now (reset_tick s m)"
  unfolding reset_tick_def
  by (intro split_ok_append_group) (simp_all add: close_tail_ok)

definition tick_at :: "tick \<Rightarrow> rat" where
  "tick_at t = fst (tick_key t)"

lemma split_tick_ok:
  assumes "split_ok (\<lambda>r. v_at r \<notin> set conf \<and> v_id r \<notin> set lone) now s" "now \<le> tick_at t"
  shows "split_ok (\<lambda>r. v_at r \<notin> set conf \<and> v_id r \<notin> set lone) (tick_at t) (split_tick conf lone s t)"
proof (cases t)
  case (Reset_tick m)
  with reset_tick_ok [OF split_ok_later [OF assms]] show ?thesis by (simp add: split_tick_def)
next
  case (Obs_tick r)
  with observe_tick_ok [OF assms(1), of r] assms(2) show ?thesis by (simp add: split_tick_def tick_at_def)
qed

lemma foldl_split_tick_ok:
  assumes "split_ok (\<lambda>r. v_at r \<notin> set conf \<and> v_id r \<notin> set lone) now s"
    "sorted (map tick_at ts)" "\<forall>t \<in> set ts. now \<le> tick_at t"
  shows "\<exists>later. split_ok (\<lambda>r. v_at r \<notin> set conf \<and> v_id r \<notin> set lone) later (foldl (split_tick conf lone) s ts)"
  using assms
proof (induction ts arbitrary: s now)
  case (Cons t ts)
  have "split_ok (\<lambda>r. v_at r \<notin> set conf \<and> v_id r \<notin> set lone) (tick_at t) (split_tick conf lone s t)"
    using Cons.prems by (intro split_tick_ok [of conf lone now]) auto
  from Cons.IH [OF this] Cons.prems(2) show ?case by simp
qed auto

lemma split_cycles_groups:
  assumes "g \<in> set (split_cycles observations manual)"
  shows "group_ok (\<lambda>r. v_at r \<notin> set (conflicts (sort_key (\<lambda>r. (v_at r, v_id r)) (identified observations))) \<and>
    v_id r \<notin> set (isolated manual (sort_key (\<lambda>r. (v_at r, v_id r)) (identified observations)))) g"
proof -
  let ?vs = "sort_key (\<lambda>r. (v_at r, v_id r)) (identified observations)"
  let ?ts = "sort_key tick_key (map Obs_tick ?vs @ map Reset_tick manual)"
  let ?s0 = "\<lparr>sp_groups = [], sp_epochs = []\<rparr>"
  have "sorted (map tick_key ?ts)" by simp
  then have so: "sorted (map fst (map tick_key ?ts))" by (rule sorted_map_fst_sort)
  have eq: "map fst (map tick_key ?ts) = map tick_at ?ts" by (simp add: tick_at_def)
  from so have so': "sorted (map tick_at ?ts)" unfolding eq .
  obtain now where "\<forall>t \<in> set ?ts. now \<le> tick_at t"
    using so' by (cases ?ts) auto
  moreover have "split_ok (\<lambda>r. v_at r \<notin> set (conflicts ?vs) \<and> v_id r \<notin> set (isolated manual ?vs)) now ?s0"
    by (simp add: split_ok_def)
  ultimately obtain later where "split_ok (\<lambda>r. v_at r \<notin> set (conflicts ?vs) \<and> v_id r \<notin> set (isolated manual ?vs)) later
      (foldl (split_tick (conflicts ?vs) (isolated manual ?vs)) ?s0 ?ts)"
    using foldl_split_tick_ok [OF _ so'] by blast
  from close_tail_ok [OF this] assms show ?thesis by (auto simp: split_cycles_def Let_def split_ok_def)
qed

section \<open>Coverage\<close>

record cov_issue =
  ci_reason :: cov_reason
  ci_start :: "rat option"
  ci_end :: "rat option"

text \<open>\<open>startswith\<close> one of the four prefixes; counter issues share one reason.\<close>

fun evidenced :: "cov_reason \<Rightarrow> bool" where
  "evidenced (Other_reason _) = False"
| "evidenced _ = True"

fun indexed_reason :: "cov_reason \<Rightarrow> cov_reason" where
  "indexed_reason (Counter_increase _) = Counter_increase ''''"
| "indexed_reason r = r"

definition gap_of :: "cov_issue \<Rightarrow> (cov_reason \<times> rat \<times> rat) option" where
  "gap_of r = (case (ci_start r, ci_end r) of
     (Some s, Some e) \<Rightarrow> if evidenced (ci_reason r) then Some (indexed_reason (ci_reason r), s, e) else None
   | _ \<Rightarrow> None)"

definition gaps :: "cov_issue list \<Rightarrow> (cov_reason \<times> rat \<times> rat) list" where
  "gaps issues = List.map_filter gap_of issues"

text \<open>Per reason: the starts of its spans, the running maximum of their ends, and its points.\<close>

record coverage_index = ix_starts :: "rat list"  ix_ends :: "rat list"  ix_points :: "rat list"

fun running_max :: "rat option \<Rightarrow> rat list \<Rightarrow> rat list" where
  "running_max m [] = []"
| "running_max m (e # es) =
    (let k = (case m of None \<Rightarrow> e | Some x \<Rightarrow> max x e) in k # running_max (Some k) es)"

definition index_of :: "(rat \<times> rat) list \<Rightarrow> coverage_index" where
  "index_of items =
    (let ss = sort (filter (\<lambda>(s, e). s < e) items)
     in \<lparr>ix_starts = map fst ss, ix_ends = running_max None (map snd ss),
         ix_points = sort (map fst (filter (\<lambda>(s, e). s = e) items))\<rparr>)"

definition coverage_indexes :: "cov_issue list \<Rightarrow> (cov_reason \<times> coverage_index) list" where
  "coverage_indexes issues = map (\<lambda>(r, items). (r, index_of (map snd items))) (buckets fst (gaps issues))"

definition touches :: "coverage_index \<Rightarrow> rat \<Rightarrow> rat \<Rightarrow> bool" where
  "touches ix a b =
    ((let n = bisect_left (ix_starts ix) b in n \<ge> 1 \<and> a < ix_ends ix ! (n - 1)) \<or>
     bisect_right (ix_points ix) b > bisect_right (ix_points ix) a)"

definition edge_reasons :: "(cov_reason \<times> coverage_index) list \<Rightarrow> rat \<Rightarrow> rat \<Rightarrow> cov_reason list" where
  "edge_reasons ixs a b = map fst (filter (\<lambda>(r, ix). touches ix a b) ixs)"

text \<open>
  The edges of a group, cut where the set of reasons changes. A reason list stands for
  the set of the source; each reason is indexed once, so equal sets are equal lists.
\<close>

fun cover_parts :: "(cov_reason \<times> coverage_index) list \<Rightarrow> group \<Rightarrow> group list \<Rightarrow> obs list \<Rightarrow> group list" where
  "cover_parts ixs g parts (a # b # vs) =
    (let rs = edge_reasons ixs (v_at a) (v_at b)
     in cover_parts ixs g
       (if parts \<noteq> [] \<and> g_coverage_reasons (last parts) = rs
        then map_last (\<lambda>p. p\<lparr>g_obs := g_obs p @ [b]\<rparr>) parts
        else parts @ [g\<lparr>g_obs := [a, b], g_coverage_blocked := rs \<noteq> [], g_coverage_reasons := rs\<rparr>])
       (b # vs))"
| "cover_parts ixs g parts _ = parts"

definition finish_part :: "group \<Rightarrow> nat \<times> group \<Rightarrow> group" where
  "finish_part g ip = (case ip of (i, p) \<Rightarrow>
     (let start = v_at (hd (g_obs p)); until = v_at (last (g_obs p))
      in p\<lparr>g_id := g_id g @ '':coverage:'' @ digits i, g_boundary := start,
           g_rejected := filter (\<lambda>r. start < v_at r \<and> v_at r \<le> until) (g_rejected g),
           g_manual := (if i > 0 then None else g_manual p),
           g_reason := (if g_coverage_blocked p then Coverage_unknown
                        else if i > 0 then After_unknown_boundary else g_reason p)\<rparr>))"

definition cover_group :: "(cov_reason \<times> coverage_index) list \<Rightarrow> group \<Rightarrow> group list" where
  "cover_group ixs g =
    (if length (g_obs g) < 2 \<or> g_discontinuous g then [g] else
     (let parts = cover_parts ixs g [] (g_obs g)
      in if length parts = 1 \<and> \<not> g_coverage_blocked (hd parts) then [g]
         else map (finish_part g) (List.enumerate 0 parts)))"

definition partition_coverage :: "group list \<Rightarrow> cov_issue list \<Rightarrow> group list" where
  "partition_coverage groups issues = concat (map (cover_group (coverage_indexes issues)) groups)"

subsection \<open>The index is right\<close>

lemma running_max_nth:
  "i < length es \<Longrightarrow> a < running_max m es ! i \<longleftrightarrow>
    (case m of None \<Rightarrow> False | Some x \<Rightarrow> a < x) \<or> (\<exists>j \<le> i. a < es ! j)"
proof (induction es arbitrary: i m)
  case (Cons e es)
  show ?case
  proof (cases i)
    case 0
    then show ?thesis by (auto simp: Let_def less_max_iff_disj split: option.split)
  next
    case (Suc k)
    have ex: "(\<exists>j \<le> Suc k. a < (e # es) ! j) = (a < e \<or> (\<exists>j \<le> k. a < es ! j))"
      by (metis Suc_le_mono le_SucE not0_implies_Suc nth_Cons_0 nth_Cons_Suc zero_le)
    show ?thesis
      using Cons.prems unfolding Suc ex
      by (simp add: Let_def Cons.IH less_max_iff_disj split: option.split)
  qed
qed simp

lemma length_running_max [simp]: "length (running_max m es) = length es"
  by (induction m es rule: running_max.induct) (simp_all add: Let_def)

lemma bisect_right_count: "sorted xs \<Longrightarrow> bisect_right xs x = length (filter (\<lambda>y. y \<le> x) xs)"
  using take_bisect_right [of "\<lambda>y. y" xs x] bisect_right_spec(1) [of xs x] by (metis length_take list.map_ident min.absorb2)

lemma touches_points:
  assumes "a < b" "sorted ps"
  shows "bisect_right ps a < bisect_right ps b \<longleftrightarrow> (\<exists>p \<in> set ps. a < p \<and> p \<le> b)"
proof -
  have "length (filter (\<lambda>y. y \<le> b) ps) = length (filter (\<lambda>y. y \<le> a) ps) + length (filter (\<lambda>y. a < y \<and> y \<le> b) ps)"
    using assms(1) by (induction ps) auto
  then show ?thesis
    by (auto simp: bisect_right_count [OF assms(2)] filter_empty_conv)
qed

lemma touches_spans:
  assumes "sorted (map fst ss)"
  shows "(let n = bisect_left (map fst ss) b in n \<ge> 1 \<and> a < running_max None (map snd ss) ! (n - 1)) \<longleftrightarrow>
    (\<exists>(s, e) \<in> set ss. s < b \<and> a < e)"
proof -
  let ?n = "bisect_left (map fst ss) b"
  have n: "?n \<le> length ss" using bisect_left_spec(1) [OF assms, of b] by simp
  have tk: "take ?n ss = filter (\<lambda>x. fst x < b) ss" by (rule take_bisect_left [OF assms])
  have "(?n \<ge> 1 \<and> a < running_max None (map snd ss) ! (?n - 1)) = (\<exists>x \<in> set (take ?n ss). a < snd x)"
  proof (cases "?n = 0")
    case False
    then have i: "?n - 1 < length (map snd ss)" using n by simp
    have "(a < running_max None (map snd ss) ! (?n - 1)) = (\<exists>j < ?n. a < snd (ss ! j))"
    proof -
      have "(j \<le> ?n - 1) = (j < ?n)" for j using False by auto
      moreover have "j < ?n \<Longrightarrow> map snd ss ! j = snd (ss ! j)" for j using n by simp
      ultimately show ?thesis unfolding running_max_nth [OF i] by auto
    qed
    also have "\<dots> = (\<exists>x \<in> set (take ?n ss). a < snd x)"
      unfolding nth_image [OF n, symmetric] by auto
    finally show ?thesis using False by simp
  qed simp
  then show ?thesis by (auto simp: tk)
qed

lemma touches_index_of:
  assumes "a < b"
  shows "touches (index_of items) a b \<longleftrightarrow>
    (\<exists>(s, e) \<in> set items. s < e \<and> s < b \<and> a < e \<or> s = e \<and> a < s \<and> s \<le> b)"
proof -
  let ?ss = "sort (filter (\<lambda>(s, e). s < e) items)"
  let ?ps = "sort (map fst (filter (\<lambda>(s, e). s = e) items))"
  have "sorted (map fst ?ss)" by (rule sorted_map_fst_sort) simp
  note sp = touches_spans [OF this]
  have "touches (index_of items) a b = ((\<exists>(s, e) \<in> set ?ss. s < b \<and> a < e) \<or> (\<exists>p \<in> set ?ps. a < p \<and> p \<le> b))"
    using touches_points [OF assms, of ?ps] sp [of b a] by (simp add: touches_def index_of_def Let_def)
  then show ?thesis by auto
qed

lemma edge_reasons_iff:
  assumes "a < b"
  shows "r \<in> set (edge_reasons (coverage_indexes issues) a b) \<longleftrightarrow>
    (\<exists>(q, s, e) \<in> set (gaps issues). q = r \<and> (s < e \<and> s < b \<and> a < e \<or> s = e \<and> a < s \<and> s \<le> b))"
proof -
  have "r \<in> set (edge_reasons (coverage_indexes issues) a b) \<longleftrightarrow>
      (\<exists>items. (r, items) \<in> set (buckets fst (gaps issues)) \<and> touches (index_of (map snd items)) a b)"
    by (force simp: edge_reasons_def coverage_indexes_def)
  also have "\<dots> \<longleftrightarrow> (\<exists>x \<in> set (filter (\<lambda>g. fst g = r) (gaps issues)).
      case snd x of (s, e) \<Rightarrow> s < e \<and> s < b \<and> a < e \<or> s = e \<and> a < s \<and> s \<le> b)"
  proof
    assume "\<exists>items. (r, items) \<in> set (buckets fst (gaps issues)) \<and> touches (index_of (map snd items)) a b"
    then show "\<exists>x \<in> set (filter (\<lambda>g. fst g = r) (gaps issues)).
        case snd x of (s, e) \<Rightarrow> s < e \<and> s < b \<and> a < e \<or> s = e \<and> a < s \<and> s \<le> b"
      by (auto simp: touches_index_of [OF assms] dest!: buckets_memberD) blast+
  next
    assume ex: "\<exists>x \<in> set (filter (\<lambda>g. fst g = r) (gaps issues)).
        case snd x of (s, e) \<Rightarrow> s < e \<and> s < b \<and> a < e \<or> s = e \<and> a < s \<and> s \<le> b"
    then have "r \<in> fst ` set (buckets fst (gaps issues))" by (force simp: keys_buckets)
    then obtain items where m: "(r, items) \<in> set (buckets fst (gaps issues))" by auto
    from buckets_memberD [OF m] ex have "touches (index_of (map snd items)) a b"
      by (auto simp: touches_index_of [OF assms])
    with m show "\<exists>items. (r, items) \<in> set (buckets fst (gaps issues)) \<and> touches (index_of (map snd items)) a b" by blast
  qed
  finally show ?thesis unfolding Bex_def set_filter mem_Collect_eq split_beta by (simp only: conj_assoc)
qed

subsection \<open>The parts are the group\<close>

definition part_ok :: "(cov_reason \<times> coverage_index) list \<Rightarrow> group \<Rightarrow> bool" where
  "part_ok ixs p = (2 \<le> length (g_obs p) \<and> g_coverage_blocked p = (g_coverage_reasons p \<noteq> []) \<and>
     (\<forall>(a, b) \<in> set (edges (g_obs p)). edge_reasons ixs (v_at a) (v_at b) = g_coverage_reasons p))"

lemma cover_parts_facts:
  assumes "\<forall>p \<in> set parts. part_ok ixs p" "parts \<noteq> [] \<Longrightarrow> vs \<noteq> [] \<Longrightarrow> last (g_obs (last parts)) = hd vs"
  shows "(\<forall>p \<in> set (cover_parts ixs g parts vs). part_ok ixs p) \<and>
    concat (map (\<lambda>p. edges (g_obs p)) (cover_parts ixs g parts vs)) =
      concat (map (\<lambda>p. edges (g_obs p)) parts) @ edges vs"
  using assms
proof (induction ixs g parts vs rule: cover_parts.induct)
  case (1 ixs g parts a b vs)
  let ?rs = "edge_reasons ixs (v_at a) (v_at b)"
  show ?case
  proof (cases "parts \<noteq> [] \<and> g_coverage_reasons (last parts) = ?rs")
    case True
    then obtain ps l where ps: "parts = ps @ [l]" by (cases parts rule: rev_cases) auto
    let ?l = "l\<lparr>g_obs := g_obs l @ [b]\<rparr>"
    have l: "part_ok ixs l" "last (g_obs l) = a" "g_obs l \<noteq> []" "g_coverage_reasons l = ?rs"
      using "1.prems" True ps by (auto simp: part_ok_def)
    have eq: "(if parts \<noteq> [] \<and> g_coverage_reasons (last parts) = ?rs
        then map_last (\<lambda>p. p\<lparr>g_obs := g_obs p @ [b]\<rparr>) parts
        else parts @ [g\<lparr>g_obs := [a, b], g_coverage_blocked := ?rs \<noteq> [], g_coverage_reasons := ?rs\<rparr>]) = ps @ [?l]"
      using True ps by (simp add: map_last_def)
    have ok: "\<forall>p \<in> set (ps @ [?l]). part_ok ixs p"
      using "1.prems"(1) ps l by (auto simp: part_ok_def edges_snoc)
    have "(\<forall>p \<in> set (cover_parts ixs g (ps @ [?l]) (b # vs)). part_ok ixs p) \<and>
      concat (map (\<lambda>p. edges (g_obs p)) (cover_parts ixs g (ps @ [?l]) (b # vs))) =
      concat (map (\<lambda>p. edges (g_obs p)) (ps @ [?l])) @ edges (b # vs)"
      by (rule "1.IH" [OF refl, unfolded eq]) (use ok in simp_all)
    then show ?thesis using ps l eq by (simp add: Let_def edges_snoc)
  next
    case False
    let ?l = "g\<lparr>g_obs := [a, b], g_coverage_blocked := ?rs \<noteq> [], g_coverage_reasons := ?rs\<rparr>"
    have eq: "(if parts \<noteq> [] \<and> g_coverage_reasons (last parts) = ?rs
        then map_last (\<lambda>p. p\<lparr>g_obs := g_obs p @ [b]\<rparr>) parts else parts @ [?l]) = parts @ [?l]"
      using False by auto
    have ok: "\<forall>p \<in> set (parts @ [?l]). part_ok ixs p"
      using "1.prems"(1) by (auto simp: part_ok_def)
    have "(\<forall>p \<in> set (cover_parts ixs g (parts @ [?l]) (b # vs)). part_ok ixs p) \<and>
      concat (map (\<lambda>p. edges (g_obs p)) (cover_parts ixs g (parts @ [?l]) (b # vs))) =
      concat (map (\<lambda>p. edges (g_obs p)) (parts @ [?l])) @ edges (b # vs)"
      by (rule "1.IH" [OF refl, unfolded eq]) (use ok in simp_all)
    then show ?thesis using eq by (simp add: Let_def)
  qed
qed auto

section \<open>Estimates\<close>

datatype 'b estimate_reason = No_consumption | Cost_unconfirmed | Percent_out_of_range | Blocked_by 'b

record 'b estimate =
  es_usd :: "rat option"
  es_per_percent :: "rat option"
  es_sensitivity :: "(rat \<times> rat) option"
  es_reasons :: "'b estimate_reason list"

definition estimate :: "rat option \<Rightarrow> rat \<Rightarrow> rat \<Rightarrow> 'b estimate_reason list \<Rightarrow> 'b estimate" where
  "estimate cost delta n blocked =
    (let reasons = blocked @
       (if delta \<le> 0 then [No_consumption] else []) @
       (case cost of None \<Rightarrow> [Cost_unconfirmed] | Some c \<Rightarrow> if c < 0 then [Cost_unconfirmed] else []) @
       (if \<not> (0 \<le> n \<and> n \<le> 100) then [Percent_out_of_range] else [])
     in case (reasons, cost) of
       ([], Some c) \<Rightarrow> \<lparr>es_usd = Some (c / delta * n), es_per_percent = Some (c / delta),
          es_sensitivity = (if delta > 1 then Some (c / (delta + 1) * n, c / (delta - 1) * n) else None),
          es_reasons = []\<rparr>
     | _ \<Rightarrow> \<lparr>es_usd = None, es_per_percent = None, es_sensitivity = None, es_reasons = rev (remdups (rev reasons))\<rparr>)"

lemma estimate_sensitivity:
  assumes "es_sensitivity (estimate cost delta n blocked) = Some (lo, hi)"
  shows "\<exists>u. es_usd (estimate cost delta n blocked) = Some u \<and> 0 \<le> lo \<and> lo \<le> u \<and> u \<le> hi"
proof -
  obtain c where c: "cost = Some c" "0 \<le> c" "0 < delta" "0 \<le> n" "blocked = []" "1 < delta"
      "lo = c / (delta + 1) * n" "hi = c / (delta - 1) * n"
    using assms by (auto simp: estimate_def Let_def split: option.splits if_splits list.splits)
  then have "es_usd (estimate cost delta n blocked) = Some (c / delta * n)"
    using assms by (auto simp: estimate_def Let_def split: if_splits)
  moreover have "c / (delta + 1) \<le> c / delta" "c / delta \<le> c / (delta - 1)"
    using c by (auto intro!: divide_left_mono mult_pos_pos)
  then have "lo \<le> c / delta * n" "c / delta * n \<le> hi"
    unfolding c(7,8) using c(4) by (blast intro: mult_right_mono)+
  moreover have "0 \<le> lo" unfolding c(7) using c by simp
  ultimately show ?thesis by blast
qed

section \<open>Further properties\<close>

text \<open>
  Cutting a group at coverage discrepancies keeps every observation edge exactly once and in order, and all
  edges of a part have exactly the part's reasons.
\<close>

theorem coverage_parts_partition:
  "list_all (part_ok ixs) (cover_parts ixs g [] (g_obs g)) \<and>
   concat (map (\<lambda>p. edges (g_obs p)) (cover_parts ixs g [] (g_obs g))) = edges (g_obs g)"
  using cover_parts_facts [of "[]" ixs "g_obs g" g] by (simp add: list_all_iff)

text \<open>
  Where a sensitivity interval is given, the estimate lies in it and its lower end is not negative.
\<close>

theorem sensitivity_brackets:
  assumes "es_sensitivity (estimate cost delta n blocked) = Some (lo, hi)"
  shows "\<exists>u. es_usd (estimate cost delta n blocked) = Some u \<and> 0 \<le> lo \<and> lo \<le> u \<and> u \<le> hi"
  using assms by (rule estimate_sensitivity)

theorem sensitivity_brackets_witness:
  "\<exists>u. es_usd (estimate (Some 10) 4 100 ([] :: cov_reason estimate_reason list)) = Some u \<and> 0 \<le> u"
proof -
  have "es_sensitivity (estimate (Some 10) 4 100 ([] :: cov_reason estimate_reason list)) = Some (200, 1000 / 3)"
    by (simp add: estimate_def)
  from sensitivity_brackets [OF this] show ?thesis by fastforce
qed

section \<open>Claims\<close>

text \<open>
  C4: Every calibration group that the splitting of the observations yields, the marked discontinuous tails
  apart, is a run in time order of one account, plan, bucket and window in which the used percentage never
  falls, without contradictory or isolated observations.
\<close>

theorem split_groups_monotone:
  "list_all (group_ok (\<lambda>r. v_at r \<notin> set (conflicts (sort_key (\<lambda>r. (v_at r, v_id r)) (identified observations))) \<and>
      v_id r \<notin> set (isolated manual (sort_key (\<lambda>r. (v_at r, v_id r)) (identified observations)))))
    (split_cycles observations manual)"
  by (simp add: list_all_iff split_cycles_groups)

text \<open>
  C33: The indexed coverage test (running maxima and bisection) blocks an observation edge for exactly the
  reasons of the evidenced gaps that intersect it.
\<close>

theorem coverage_lookup_exact:
  assumes "a < b"
  shows "r \<in> set (edge_reasons (coverage_indexes issues) a b) \<longleftrightarrow>
    (\<exists>(q, s, e) \<in> set (gaps issues). q = r \<and> (s < e \<and> s < b \<and> a < e \<or> s = e \<and> a < s \<and> s \<le> b))"
  using assms by (rule edge_reasons_iff)

theorem coverage_lookup_exact_witness:
  "Counter_increase [] \<in> set (edge_reasons (coverage_indexes [\<lparr>ci_reason = Counter_increase ''x'', ci_start = Some 3, ci_end = Some 5\<rparr>]) 1 4)"
  unfolding coverage_lookup_exact [of 1 4, simplified] by (simp add: gaps_def gap_of_def List.map_filter_def)

end
