(* ===== verification/Values.thy ===== *)
theory Values
  imports Scope Cycles
begin

text \<open>
  The value of the allowance: \<open>quota_statistics\<close> of \<open>cachemonitor/quota_cycles.py\<close>. Korean display strings that the code compares are their UTF-8
  bytes. Quantiles are exact, where the code rounds.
\<close>

section \<open>Texts\<close>

definition other_account :: string where \<comment> \<open>another account\<close>
  "other_account = [CHR 0xEB, CHR 0x8B, CHR 0xA4, CHR 0xEB, CHR 0xA5, CHR 0xB8, CHR 0x20, CHR 0xEA, CHR 0xB3,
     CHR 0x84, CHR 0xEC, CHR 0xA0, CHR 0x95, CHR 0xEC, CHR 0x9D, CHR 0x98, CHR 0x20, CHR 0xEA,
     CHR 0xB4, CHR 0x80, CHR 0xEC, CHR 0xB8, CHR 0xA1, CHR 0x20, CHR 0xEA, CHR 0xB5, CHR 0xAC,
     CHR 0xEA, CHR 0xB0, CHR 0x84]"

definition collection :: string where \<comment> \<open>collection\<close>
  "collection = [CHR 0xEC, CHR 0x88, CHR 0x98, CHR 0xEC, CHR 0xA7, CHR 0x91]"

definition awaiting :: string where \<comment> \<open>waiting\<close>
  "awaiting = [CHR 0xEB, CHR 0x8C, CHR 0x80, CHR 0xEA, CHR 0xB8, CHR 0xB0]"

definition no_change :: string where \<comment> \<open>no change of the consumption: waiting for the next observation\<close>
  "no_change = [CHR 0xEC, CHR 0x86, CHR 0x8C, CHR 0xEB, CHR 0xAA, CHR 0xA8, CHR 0xEC, CHR 0x9C, CHR 0xA8,
     CHR 0x20, CHR 0xEB, CHR 0xB3, CHR 0x80, CHR 0xED, CHR 0x99, CHR 0x94, CHR 0x20, CHR 0xEC,
     CHR 0x97, CHR 0x86, CHR 0xEC, CHR 0x9D, CHR 0x8C, CHR 0x3A, CHR 0x20, CHR 0xEB, CHR 0x8B,
     CHR 0xA4, CHR 0xEC, CHR 0x9D, CHR 0x8C, CHR 0x20, CHR 0xEA, CHR 0xB4, CHR 0x80, CHR 0xEC,
     CHR 0xB8, CHR 0xA1, CHR 0x20, CHR 0xEB, CHR 0x8C, CHR 0x80, CHR 0xEA, CHR 0xB8, CHR 0xB0]"

definition change_text :: string where \<comment> \<open>change of the consumption\<close>
  "change_text = [CHR 0xEC, CHR 0x86, CHR 0x8C, CHR 0xEB, CHR 0xAA, CHR 0xA8, CHR 0xEC, CHR 0x9C, CHR 0xA8,
     CHR 0x20, CHR 0xEB, CHR 0xB3, CHR 0x80, CHR 0xED, CHR 0x99, CHR 0x94]"

definition no_call :: string where \<comment> \<open>no model call\<close>
  "no_call = [CHR 0xEB, CHR 0x8C, CHR 0x80, CHR 0xEC, CHR 0x9D, CHR 0x91, CHR 0xED, CHR 0x95, CHR 0x98,
     CHR 0xEB, CHR 0x8A, CHR 0x94, CHR 0x20, CHR 0xEB, CHR 0xAA, CHR 0xA8, CHR 0xEB, CHR 0x8D,
     CHR 0xB8, CHR 0x20, CHR 0xED, CHR 0x98, CHR 0xB8, CHR 0xEC, CHR 0xB6, CHR 0x9C, CHR 0x20,
     CHR 0xEC, CHR 0x97, CHR 0x86, CHR 0xEC, CHR 0x9D, CHR 0x8C]"

definition no_cost :: string where \<comment> \<open>cost unconfirmed\<close>
  "no_cost = [CHR 0xEA, CHR 0xB5, CHR 0xAC, CHR 0xEB, CHR 0x8F, CHR 0x85, CHR 0x20, CHR 0xEA, CHR 0xB0,
     CHR 0x80, CHR 0xEC, CHR 0xB9, CHR 0x98, CHR 0x20, CHR 0xED, CHR 0x99, CHR 0x98, CHR 0xEC,
     CHR 0x82, CHR 0xB0, CHR 0xEC, CHR 0x95, CHR 0xA1, CHR 0x20, CHR 0xEB, CHR 0xAF, CHR 0xB8,
     CHR 0xED, CHR 0x99, CHR 0x95, CHR 0xEC, CHR 0x9D, CHR 0xB8]"

definition out_of_range :: string where \<comment> \<open>n out of range\<close>
  "out_of_range = [CHR 0x6E, CHR 0xEC, CHR 0x9D, CHR 0x80, CHR 0x20, CHR 0x30, CHR 0x7E, CHR 0x31, CHR 0x30,
     CHR 0x30, CHR 0x20, CHR 0xEB, CHR 0xB2, CHR 0x94, CHR 0xEC, CHR 0x9C, CHR 0x84, CHR 0xEC,
     CHR 0x97, CHR 0xAC, CHR 0xEC, CHR 0x95, CHR 0xBC, CHR 0x20, CHR 0xED, CHR 0x95, CHR 0xA9,
     CHR 0xEB, CHR 0x8B, CHR 0x88, CHR 0xEB, CHR 0x8B, CHR 0xA4]"

definition mode_unknown :: string where \<comment> \<open>request mode unconfirmed\<close>
  "mode_unknown = [CHR 0xEC, CHR 0x9A, CHR 0x94, CHR 0xEC, CHR 0xB2, CHR 0xAD, CHR 0x20, CHR 0xEB, CHR 0xAA,
     CHR 0xA8, CHR 0xEB, CHR 0x93, CHR 0x9C, CHR 0x20, CHR 0xEB, CHR 0xAF, CHR 0xB8, CHR 0xED,
     CHR 0x99, CHR 0x95, CHR 0xEC, CHR 0x9D, CHR 0xB8]"

definition st_provisional :: string where \<comment> \<open>provisional\<close>
  "st_provisional = [CHR 0xEC, CHR 0x9E, CHR 0xA0, CHR 0xEC, CHR 0xA0, CHR 0x95]"

definition st_used :: string where \<comment> \<open>used\<close>
  "st_used = [CHR 0xEC, CHR 0x82, CHR 0xAC, CHR 0xEC, CHR 0x9A, CHR 0xA9]"

definition st_collecting :: string where \<comment> \<open>waiting for collection\<close>
  "st_collecting = [CHR 0xEC, CHR 0x88, CHR 0x98, CHR 0xEC, CHR 0xA7, CHR 0x91, CHR 0x20, CHR 0xEB, CHR 0x8C,
     CHR 0x80, CHR 0xEA, CHR 0xB8, CHR 0xB0]"

definition st_assumed :: string where \<comment> \<open>needs an assumption\<close>
  "st_assumed = [CHR 0xEA, CHR 0xB0, CHR 0x80, CHR 0xEC, CHR 0xA0, CHR 0x95, CHR 0x20, CHR 0xED, CHR 0x95,
     CHR 0x84, CHR 0xEC, CHR 0x9A, CHR 0x94]"

definition st_accumulating :: string where \<comment> \<open>accumulating\<close>
  "st_accumulating = [CHR 0xEB, CHR 0x88, CHR 0x84, CHR 0xEC, CHR 0xA0, CHR 0x81, CHR 0x20, CHR 0xEB, CHR 0x8C,
     CHR 0x80, CHR 0xEA, CHR 0xB8, CHR 0xB0]"

definition st_excluded :: string where \<comment> \<open>excluded\<close>
  "st_excluded = [CHR 0xEC, CHR 0xA0, CHR 0x9C, CHR 0xEC, CHR 0x99, CHR 0xB8]"

definition contains :: "string \<Rightarrow> string \<Rightarrow> bool" where
  "contains s t = list_ex (\<lambda>i. take (length s) (drop i t) = s) [0..<length t + 1]"

definition begins_with :: "string \<Rightarrow> string \<Rightarrow> bool" where
  "begins_with s t = (take (length s) t = s)"

fun reason_text :: "string estimate_reason \<Rightarrow> string" where
  "reason_text No_consumption = no_change"
| "reason_text Cost_unconfirmed = no_cost"
| "reason_text Percent_out_of_range = out_of_range"
| "reason_text (Blocked_by s) = s"

text \<open>\<open>list(dict.fromkeys(xs))\<close>\<close>

definition first_occurrences :: "'a list \<Rightarrow> 'a list" where
  "first_occurrences xs = rev (remdups (rev xs))"

definition reasons_of :: "string estimate \<Rightarrow> string list" where
  "reasons_of e = first_occurrences (map reason_text (es_reasons e))"

fun joined :: "string list \<Rightarrow> string" where
  "joined [] = []"
| "joined [s] = s"
| "joined (s # ss) = s @ '', '' @ joined ss"

section \<open>Statistics\<close>

definition sorted_quantile :: "rat list \<Rightarrow> rat \<Rightarrow> rat option" where
  "sorted_quantile values q =
    (if values = [] then None
     else (let position = of_nat (length values - 1) * q; i = nat \<lfloor>position\<rfloor>
           in Some (values ! i + (values ! min (i + 1) (length values - 1) - values ! i) * (position - of_nat i))))"

definition quantile :: "rat list \<Rightarrow> rat \<Rightarrow> rat option" where
  "quantile values q = sorted_quantile (sort values) q"

text \<open>An interval with what the statistics add to it.\<close>

record interval =
  iv_cycle :: cycle
  iv_per_percent :: "rat option"
  iv_excluded :: "string list"
  iv_sensitivity :: "(rat \<times> rat) option"
  iv_status :: string
  iv_assumed :: "rat option"
  iv_calls :: nat

definition blockers :: "string \<Rightarrow> cycle \<Rightarrow> string list" where
  "blockers account c = y_blocked c @
    (if account \<noteq> [] \<and> y_account c \<noteq> [] \<and> y_account c \<noteq> account then [other_account] else [])"

definition waits :: "string \<Rightarrow> cycle \<Rightarrow> bool" where
  "waits account c = (y_pending c \<or> y_reset_pending c \<or>
    list_ex (\<lambda>r. contains collection r \<and> contains awaiting r) (blockers account c))"

definition kept_reasons :: "string \<Rightarrow> cycle \<Rightarrow> string list" where
  "kept_reasons account c =
    (if y_forward_tracking c \<and> y_delta c = 0 \<and> blockers account c = [] then []
     else reasons_of (estimate (y_cost c) (y_delta c) 1 (map Blocked_by (blockers account c))))"

definition assumed_estimate :: "string \<Rightarrow> cycle \<Rightarrow> string estimate" where
  "assumed_estimate account c = estimate (y_mode_standard_cost c) (y_delta c) 1
    (map Blocked_by (filter (\<lambda>r. \<not> begins_with mode_unknown r) (blockers account c)))"

definition assumption_only :: "string \<Rightarrow> cycle \<Rightarrow> bool" where
  "assumption_only account c = (y_unknown_mode_calls c \<noteq> 0 \<and> es_reasons (assumed_estimate account c) = [])"

definition insufficient :: "string \<Rightarrow> cycle \<Rightarrow> bool" where
  "insufficient account c = (y_delta c = 0 \<and>
    list_all (\<lambda>r. contains change_text r \<or> r = no_call \<or> r = no_cost) (kept_reasons account c))"

definition interval_status :: "string \<Rightarrow> cycle \<Rightarrow> string" where
  "interval_status account c =
    (if y_forward_tracking c then joined (y_assumptions c)
     else if kept_reasons account c = [] then (if y_provisional c then st_provisional else st_used)
     else if waits account c then st_collecting
     else if assumption_only account c then st_assumed
     else if insufficient account c then st_accumulating else st_excluded)"

definition interval_calls :: "cycle \<Rightarrow> nat" where
  "interval_calls c = sum_list (map me_calls (filter (\<lambda>m. \<not> me_separate m) (y_models c))) + y_pending_usage_calls c"

definition interval_of :: "string \<Rightarrow> cycle \<Rightarrow> interval" where
  "interval_of account c =
    (let result = estimate (y_cost c) (y_delta c) 1 (map Blocked_by (blockers account c))
     in \<lparr>iv_cycle = c, iv_per_percent = es_per_percent result, iv_excluded = kept_reasons account c,
         iv_sensitivity = es_sensitivity result, iv_status = interval_status account c,
         iv_assumed = (if assumption_only account c then es_per_percent (assumed_estimate account c) else None),
         iv_calls = interval_calls c\<rparr>)"

definition valid_interval :: "interval \<Rightarrow> bool" where
  "valid_interval r = (iv_per_percent r \<noteq> None \<or>
    y_forward_tracking (iv_cycle r) \<and> y_delta (iv_cycle r) = 0 \<and> y_cost (iv_cycle r) \<noteq> None \<and> iv_excluded r = [])"

definition observed_interval :: "string \<Rightarrow> interval \<Rightarrow> bool" where
  "observed_interval account r = (\<not> y_forward_tracking (iv_cycle r) \<or> account = [] \<or> y_account (iv_cycle r) = account)"

record attribution =
  at_idle_delta :: rat
  at_pending_delta :: rat
  at_unmatched_calls :: nat
  at_pending_windows :: nat

definition attribution_of :: "diagnostics list \<Rightarrow> attribution" where
  "attribution_of ds = \<lparr>at_idle_delta = sum_list (map d_idle_delta ds), at_pending_delta = sum_list (map d_pending_delta ds),
     at_unmatched_calls = sum_list (map d_unmatched_calls ds), at_pending_windows = sum_list (map d_pending_windows ds)\<rparr>"

text \<open>Costs of which the absent ones do not count.\<close>

definition cost_sum :: "interval list \<Rightarrow> rat" where
  "cost_sum rs = sum_list (known_costs (map (\<lambda>r. y_cost (iv_cycle r)) rs))"

definition forward_cost :: "value_report \<Rightarrow> bool \<Rightarrow> attribution \<Rightarrow> interval list \<Rightarrow> rat option" where
  "forward_cost report removed_all a observed =
    (if observed = [] \<and> at_pending_windows a \<noteq> 0 then None
     else if known_costs (map (\<lambda>r. y_cost (iv_cycle r)) observed) \<noteq> [] then Some (cost_sum observed)
     else if observed = [] \<and> (vr_tracking report = Some True \<or> removed_all) then Some 0 else None)"

definition measured :: "interval list \<Rightarrow> rat" where
  "measured rs = sum_list (map (\<lambda>r. max 0 (y_delta (iv_cycle r))) rs)"

record distribution =
  ds_n :: nat
  ds_mean :: "rat option"
  ds_p10 :: "rat option"
  ds_q1 :: "rat option"
  ds_median :: "rat option"
  ds_q3 :: "rat option"
  ds_p90 :: "rat option"
  ds_points :: "rat list"

definition distribution_of :: "rat list \<Rightarrow> distribution" where
  "distribution_of values = \<lparr>ds_n = length values,
     ds_mean = (if values = [] then None else Some (sum_list values / of_nat (length values))),
     ds_p10 = quantile values (1/10), ds_q1 = quantile values (1/4), ds_median = quantile values (1/2),
     ds_q3 = quantile values (3/4), ds_p90 = quantile values (9/10),
     ds_points = (if length values < 10 then values else [])\<rparr>"

record statistics =
  st_per_percent :: "rat option"
  st_cost :: "rat option"
  st_delta :: rat
  st_valid :: nat
  st_total :: nat
  st_precision_range :: "(rat \<times> rat) option"
  st_excluded_count :: nat
  st_calls :: nat
  st_historical :: nat
  st_intervals :: "interval list"
  st_pending :: nat
  st_provisional_count :: nat
  st_assumed_count :: nat
  st_assumed_per_percent :: "rat option"
  st_insufficient :: nat
  st_observed_calls :: nat
  st_observed_priced_calls :: nat
  st_boundary_excluded_calls :: nat
  st_observed_delta :: rat
  st_observed_cost :: "rat option"
  st_distribution :: distribution
  st_account_delta :: rat
  st_attribution :: attribution

definition count_status :: "string \<Rightarrow> interval list \<Rightarrow> nat" where
  "count_status s rs = length (filter (\<lambda>r. iv_status r = s) rs)"

definition assumed_cost :: "rat option \<Rightarrow> interval list \<Rightarrow> rat" where
  "assumed_cost base additional = (case base of None \<Rightarrow> 0 | Some v \<Rightarrow> v) +
    sum_list (map (\<lambda>r. let c = iv_cycle r; standard = (case y_mode_standard_cost c of None \<Rightarrow> 0 | Some v \<Rightarrow> v)
      in if y_forward_tracking c then standard - (case y_cost c of None \<Rightarrow> 0 | Some v \<Rightarrow> v) else standard) additional)"

definition assumed_delta :: "rat \<Rightarrow> interval list \<Rightarrow> rat" where
  "assumed_delta base additional = base +
    sum_list (map (\<lambda>r. y_delta (iv_cycle r)) (filter (\<lambda>r. \<not> y_forward_tracking (iv_cycle r)) additional))"

definition model_cost :: "interval \<Rightarrow> rat" where
  "model_cost r = sum_list (map (\<lambda>m. case me_cost m of None \<Rightarrow> 0 | Some v \<Rightarrow> v)
     (filter (\<lambda>m. \<not> me_separate m) (y_models (iv_cycle r))))"

definition precision_range :: "nat \<Rightarrow> rat option \<Rightarrow> rat \<Rightarrow> (rat \<times> rat) option" where
  "precision_range n cost delta =
    (case cost of None \<Rightarrow> None
     | Some v \<Rightarrow> if n \<noteq> 0 \<and> of_nat n < delta then Some (v / (delta + of_nat n), v / (delta - of_nat n)) else None)"

definition value_summary :: "value_report \<Rightarrow> bool \<Rightarrow> scope_result \<Rightarrow> statistics" where
  "value_summary report assume_modes scoped =
    (let account = current_account report;
         attribution = attribution_of (sc_diagnostics scoped);
         removed_all = (vr_cycles report \<noteq> [] \<and> q_exclusions report \<noteq> [] \<and> sc_observed scoped = 0);
         intervals = map (interval_of account) (sc_parts scoped);
         valid = filter valid_interval intervals;
         observed = filter (observed_interval account) intervals;
         forward = (vr_tracking report \<noteq> None);
         total_cost = (if forward then forward_cost report removed_all attribution observed else Some (cost_sum valid));
         total_delta = (if forward then measured observed else sum_list (map (\<lambda>r. y_delta (iv_cycle r)) valid));
         values = List.map_filter iv_per_percent valid;
         additional = (if assume_modes then filter (\<lambda>r. iv_assumed r \<noteq> None) intervals else [])
     in \<lparr>st_per_percent = (if total_delta \<noteq> 0 then map_option (\<lambda>v. v / total_delta) total_cost else None),
         st_cost = total_cost, st_delta = total_delta, st_valid = length valid, st_total = length intervals,
         st_precision_range = precision_range (length valid) total_cost total_delta,
         st_excluded_count = length intervals - length valid, st_calls = sum_list (map iv_calls valid),
         st_historical = length (filter (\<lambda>r. \<not> y_live (iv_cycle r)) valid), st_intervals = intervals,
         st_pending = count_status st_collecting intervals, st_provisional_count = count_status st_provisional intervals,
         st_assumed_count = length additional,
         st_assumed_per_percent = (if additional \<noteq> [] \<and> assumed_delta total_delta additional \<noteq> 0
           then Some (assumed_cost total_cost additional / assumed_delta total_delta additional) else None),
         st_insufficient = count_status st_accumulating intervals,
         st_observed_calls = sum_list (map iv_calls observed),
         st_observed_priced_calls = sum_list (map (\<lambda>r. y_priced_calls (iv_cycle r)) observed),
         st_boundary_excluded_calls = sum_list (map (\<lambda>r. y_boundary_excluded_calls (iv_cycle r)) observed),
         st_observed_delta = measured observed,
         st_observed_cost = (if forward then total_cost else Some (sum_list (map model_cost observed))),
         st_distribution = distribution_of values, st_account_delta = sum_list (sc_deltas scoped),
         st_attribution = attribution\<rparr>)"

definition quota_statistics ::
  "bool \<Rightarrow> 'd prepared option \<Rightarrow> (bool \<times> request list) option \<Rightarrow> bool \<Rightarrow> value_report \<Rightarrow> rat option \<Rightarrow> rat option \<Rightarrow> bool \<Rightarrow>
   scope_cache option \<Rightarrow> statistics \<times> scope_cache option" where
  "quota_statistics native prepared requests readonly report start stop assume_modes cache =
    (case (case prepared of
         Some p \<Rightarrow> prepared_scope p native requests readonly report start stop cache
       | None \<Rightarrow> quota_scope native requests readonly report start stop cache)
     of (scoped, cache1) \<Rightarrow> (value_summary report assume_modes scoped, cache1))"

section \<open>Attributed consumption is reported\<close>

text \<open>A cycle whose bounds and consumption are those of its endpoints.\<close>

definition consistent :: "cycle \<Rightarrow> bool" where
  "consistent c = (sorted_wrt (<) (map fst (y_endpoints c)) \<and> sorted (map snd (y_endpoints c)) \<and>
    (y_endpoints c \<noteq> [] \<longrightarrow> y_start c = fst (hd (y_endpoints c)) \<and> y_end c = fst (last (y_endpoints c))) \<and>
    (if length (y_endpoints c) < 2 then y_delta c \<le> 0
     else y_delta c = snd (last (y_endpoints c)) - snd (hd (y_endpoints c))))"

lemma clip_delta:
  "clip_quota_interval c a b None = Some d \<Longrightarrow> y_delta d = snd (last (y_endpoints d)) - snd (hd (y_endpoints d))"
proof -
  let ?E = "filter (\<lambda>p. in_points a b (fst p)) (y_endpoints c)"
  assume d: "clip_quota_interval c a b None = Some d"
  then have "\<not> length ?E < 2" by (auto simp: clip_quota_interval_def)
  with d show ?thesis by (simp add: clip_quota_interval_def Let_def) (erule subst, simp)
qed

lemma clip_consistent: "consistent c \<Longrightarrow> clip_quota_interval c a b None = Some d \<Longrightarrow> consistent d"
  using clip_None [of c a b d] clip_delta [of c a b d]
  by (auto simp: consistent_def sorted_wrt_map_filter sorted_filter)

lemma clip_forward: "clip_quota_interval c a b None = Some d \<Longrightarrow> y_forward_tracking d = y_forward_tracking c"
proof -
  let ?E = "filter (\<lambda>p. in_points a b (fst p)) (y_endpoints c)"
  assume d: "clip_quota_interval c a b None = Some d"
  then have "\<not> length ?E < 2" by (auto simp: clip_quota_interval_def)
  with d show ?thesis by (simp add: clip_quota_interval_def Let_def) (erule subst, simp)
qed

lemma consistent_id [simp]:
  "consistent (c\<lparr>y_id := i, y_observation_gaps_excluded := b\<rparr>) = consistent c"
  "consistent (c\<lparr>y_id := i, y_user_exclusions_applied := b\<rparr>) = consistent c"
  by (simp_all add: consistent_def)

lemma continuous_consistent: "consistent c \<Longrightarrow> d \<in> set (continuous_cycle native c) \<Longrightarrow> consistent d"
  by (auto simp: continuous_cycle_def Let_def set_map_filter plain_clip_def dest: clip_consistent split: if_splits)

lemma retained_consistent: "consistent c \<Longrightarrow> d \<in> set (retained_cycle plain_clip report c) \<Longrightarrow> consistent d"
  by (auto simp: retained_cycle_def Let_def set_map_filter plain_clip_def dest: clip_consistent split: if_splits)

lemma trim_consistent: "consistent c \<Longrightarrow> trim start stop c = Some d \<Longrightarrow> consistent d"
  by (auto simp: trim_def split: if_splits dest: clip_consistent)

lemma scoped_consistent:
  assumes "list_all consistent (vr_cycles report)"
  shows "list_all consistent (scoped_cycles native report start stop)"
  using assms
  by (auto simp: list_all_iff scoped_cycles_def set_map_filter retained_intervals_def continuous_quota_intervals_def
      dest!: trim_consistent [rotated] retained_consistent [rotated] continuous_consistent [rotated])

lemma bounds_of_row:
  assumes "bounds_of ts (py_time s) (PFloat e) False = Some (lo, hi)" "sorted ts"
  shows "ts ! lo < e" "e \<le> ts ! hi" "s = Some x \<Longrightarrow> ts ! lo \<le> x"
proof -
  obtain q where q: "q \<le> e" "bisect_left ts q \<ge> 1" "bisect_left ts e < length ts" "lo = bisect_left ts q - 1"
    "hi = min (length ts - 1) (bisect_left ts e + 1)" "lo < hi" "s = None \<longrightarrow> q = e" "\<And>x. s = Some x \<Longrightarrow> q = x"
    using assms(1) by (cases s) (auto simp: bounds_of_def py_time_def Let_def split: if_splits)
  have "ts ! lo < q" using bisect_left_spec(2) [OF assms(2), of lo q] q by simp
  with q show "ts ! lo < e" "s = Some x \<Longrightarrow> ts ! lo \<le> x" by auto
  have "bisect_left ts e \<le> hi" "hi < length ts" using q by auto
  then show "e \<le> ts ! hi" by (rule bisect_left_spec(3) [OF assms(2)])
qed

lemma accepted_row:
  assumes "(sp, r) \<in> set (accepted_rows c requests)" "sorted (map fst (y_endpoints c))"
  shows "map fst (y_endpoints c) ! fst sp < row_ts r" "row_ts r \<le> map fst (y_endpoints c) ! snd sp"
    "row_start r = Some x \<Longrightarrow> map fst (y_endpoints c) ! fst sp \<le> x" "row_cost r \<noteq> None" "r \<in> set (eligible_rows c)"
    "fst sp < snd sp" "snd sp < length (y_endpoints c)"
proof -
  let ?ts = "map fst (y_endpoints c)"
  from assms(1) obtain p sp0 where m: "(r, p) \<in> set (zip (eligible_rows c) (row_placements c))" "candidate_span p = Some sp0"
    "sp = accept_span ?ts (blocked_ranges c requests) r sp0" by (auto simp: accepted_rows_def set_map_filter)
  have p: "p = place_row ?ts r" using m(1) by (auto simp: row_placements_def set_zip)
  show "r \<in> set (eligible_rows c)" using m(1) by (rule set_zip_leftD)
  from m(2) p have b: "bounds_of ?ts (py_time (row_start r)) (PFloat (row_ts r)) False = Some sp0" and "row_cost r \<noteq> None"
    by (auto simp: place_row_def split: option.splits if_splits)
  then show "row_cost r \<noteq> None" by blast
  obtain lo hi where sp0: "sp0 = (lo, hi)" by (cases sp0) auto
  note bb = bounds_of_row [OF b [unfolded sp0] assms(2)] bounds_of_proper [OF b [unfolded sp0]]
  have len: "span_ok (length (y_endpoints c)) sp0" using bb(4,5) by (simp add: span_ok_def sp0)
  note within = accept_span_within [OF len, of ?ts "blocked_ranges c requests" r]
  then show "fst sp < snd sp" "snd sp < length (y_endpoints c)" by (simp_all add: m(3) span_ok_def)
  have fst: "fst sp = lo" using within by (simp add: m(3) sp0)
  then show "?ts ! fst sp < row_ts r" "row_start r = Some x \<Longrightarrow> ?ts ! fst sp \<le> x" using bb by simp_all
  have "snd sp = hi \<or> snd sp = bisect_left ?ts (row_ts r)"
    by (auto simp: m(3) sp0 accept_span_def Let_def)
  then show "row_ts r \<le> ?ts ! snd sp"
  proof
    assume "snd sp = bisect_left ?ts (row_ts r)"
    then show ?thesis using bisect_left_spec(3) [OF assms(2), of "row_ts r" "snd sp"] \<open>snd sp < length (y_endpoints c)\<close> by simp
  qed (use bb in simp)
qed

lemma apart_cases: "apart rs \<Longrightarrow> p \<in> set rs \<Longrightarrow> q \<in> set rs \<Longrightarrow> p \<noteq> q \<Longrightarrow> snd p < fst q \<or> snd q < fst p"
  by (induction rs) (auto simp: apart_def)

lemma merged_contains:
  assumes "sp \<in> set (merged_ranges rs)" "\<forall>r \<in> set rs. fst r < (snd r :: nat)"
  shows "\<exists>r \<in> set rs. fst r = fst sp \<and> snd r \<le> snd sp"
proof -
  from merged_ranges_endpoints [OF assms(1)] obtain r where r: "r \<in> set rs" "fst r = fst sp" by fastforce
  have proper: "fst sp < snd sp" using merged_ranges_proper [OF assms(2)] assms(1) by auto
  have "snd r \<le> snd sp"
  proof (rule ccontr)
    assume "\<not> snd r \<le> snd sp"
    then have "fst r \<le> snd sp \<and> snd sp < snd r" using r(2) proper by simp
    with r(1) have "snd sp \<in> steps rs" unfolding steps_ex by blast
    then have "snd sp \<in> steps (merged_ranges rs)" by simp
    then obtain q where q: "q \<in> set (merged_ranges rs)" "fst q \<le> snd sp" "snd sp < snd q" unfolding steps_ex by blast
    then have "q \<noteq> sp" by auto
    moreover have "apart (merged_ranges rs)" by (rule merged_ranges_apart)
    ultimately have "snd q < fst sp \<or> snd sp < fst q"
      using assms(1) q(1) apart_cases by blast
    with q proper show False by auto
  qed
  with r show ?thesis by blast
qed

lemma filter_segment:
  assumes "a \<le> b" "b < length xs" "\<And>i. i < length xs \<Longrightarrow> P (xs ! i) \<longleftrightarrow> a \<le> i \<and> i \<le> b"
  shows "filter P xs = drop a (take (Suc b) xs)"
proof -
  have "filter P (take a xs) = []" using assms by (auto simp: filter_empty_conv in_set_conv_nth)
  moreover have "filter P (drop a (take (Suc b) xs)) = drop a (take (Suc b) xs)"
    using assms by (auto simp: filter_id_conv in_set_conv_nth)
  moreover have "filter P (drop (Suc b) xs) = []" using assms by (auto simp: filter_empty_conv in_set_conv_nth)
  moreover have "xs = take a xs @ drop a (take (Suc b) xs) @ drop (Suc b) xs"
    by (metis append.assoc append_take_drop_id assms(1) le_SucI min.absorb1 take_take)
  ultimately show ?thesis by (metis append_Nil append_Nil2 filter_append)
qed

lemma clip_span:
  assumes "sorted_wrt (<) (map fst (y_endpoints c))" "lo < hi" "hi < length (y_endpoints c)"
  shows "\<exists>d. plain_clip c (fst (y_endpoints c ! lo)) (fst (y_endpoints c ! hi)) = Some d \<and>
    y_delta d = snd (y_endpoints c ! hi) - snd (y_endpoints c ! lo) \<and>
    y_endpoints d = drop lo (take (Suc hi) (y_endpoints c))"
proof -
  let ?E = "y_endpoints c" and ?P = "\<lambda>p. in_points (Some (fst (y_endpoints c ! lo))) (Some (fst (y_endpoints c ! hi))) (fst p)"
  have mono: "fst (?E ! i) < fst (?E ! j)" if "i < j" "j < length ?E" for i j
    using assms(1) that by (simp add: sorted_wrt_iff_nth_less)
  have "?P (?E ! i) \<longleftrightarrow> lo \<le> i \<and> i \<le> hi" if "i < length ?E" for i
    using mono [of i lo] mono [of lo i] mono [of hi i] mono [of i hi] that assms(2,3)
    by (cases "i < lo"; cases "hi < i"; cases "i = lo"; cases "i = hi") (auto simp: in_points_def)
  then have E: "filter ?P ?E = drop lo (take (Suc hi) ?E)" using assms(2,3) by (intro filter_segment) auto
  then have two: "\<not> length (filter ?P ?E) < 2" using assms(2,3) by simp
  then obtain d where d: "plain_clip c (fst (?E ! lo)) (fst (?E ! hi)) = Some d"
    by (simp add: plain_clip_def clip_quota_interval_def Let_def)
  have pts: "y_endpoints d = drop lo (take (Suc hi) ?E)"
    using clip_None [OF d [unfolded plain_clip_def]] E by simp
  moreover have "last (drop lo (take (Suc hi) ?E)) = ?E ! hi"
    using assms(2,3) by (simp add: last_drop) (simp add: take_Suc_conv_app_nth)
  moreover have "hd (drop lo (take (Suc hi) ?E)) = ?E ! lo" using assms(2,3) by (simp add: hd_drop_conv_nth)
  ultimately show ?thesis using d clip_delta [OF d [unfolded plain_clip_def]] by auto
qed

lemma set_drop_take_span: "lo < hi \<Longrightarrow> hi < length xs \<Longrightarrow> p \<in> set (drop lo (take (Suc hi) xs)) \<Longrightarrow> p \<in> set xs"
  by (auto dest: in_set_dropD in_set_takeD)

text \<open>Every range of accepted rows becomes a part with the consumption of the range.\<close>

definition range_part :: "cycle \<Rightarrow> request list \<Rightarrow> index_range \<Rightarrow> cycle option" where
  "range_part c requests sp =
    (case plain_clip (local_source c (map snd (accepted_rows c requests))) (fst (y_endpoints c ! fst sp)) (fst (y_endpoints c ! snd sp)) of
       None \<Rightarrow> None
     | Some part \<Rightarrow> if y_priced_calls part \<noteq> 0 then Some (local_part c sp part) else None)"

lemma local_scope_parts:
  assumes "2 \<le> length (y_endpoints c)"
  shows "fst (local_scope native c requests) = List.map_filter (range_part c requests) (merged_ranges (map fst (accepted_rows c requests)))"
  unfolding local_scope_def local_request_intervals_def Let_def range_part_def [abs_def] clipper_plain using assms by simp

lemma member_length: "n = length xs \<Longrightarrow> x \<in> set xs \<Longrightarrow> n \<noteq> 0"
  by auto

lemma clipped_priced:
  "y_priced_calls (c\<lparr>y_cost_complete := v1, y_pending_usage_times := v2, y_pending_usage_calls := v3, y_start := v4, y_end := v5,
      y_delta := v6, y_models := v7, y_endpoints := v8, y_cost_rows := v9, y_used_start := v10, y_used_end := v11,
      y_cost := v12, y_priced_calls := v13, y_boundary_excluded_calls := v14, y_mode_standard_cost := v15\<rparr>) = v13"
  by simp

lemma clip_priced:
  assumes "plain_clip c a b = Some d" "r \<in> set (y_cost_rows c)" "fst (hd (y_endpoints d)) < row_ts r"
    "row_ts r \<le> fst (last (y_endpoints d))" "case w_request_start r of None \<Rightarrow> True | Some s \<Rightarrow> fst (hd (y_endpoints d)) \<le> s"
    "\<not> separate c r" "row_cost r \<noteq> None"
  shows "y_priced_calls d \<noteq> 0"
proof -
  let ?E = "filter (\<lambda>p. in_points (Some a) (Some b) (fst p)) (y_endpoints c)"
  have E: "y_endpoints d = ?E" "\<not> length ?E < 2" using clip_None [OF assms(1) [unfolded plain_clip_def]] by auto
  let ?rows = "filter (\<lambda>r. case w_request_start r of None \<Rightarrow> True | Some s \<Rightarrow> fst (hd ?E) \<le> s)
    (filter (\<lambda>r. fst (hd ?E) < row_ts r \<and> row_ts r \<le> fst (last ?E)) (y_cost_rows c))"
  have "y_priced_calls d = length (filter (\<lambda>r. row_cost r \<noteq> None) (filter (\<lambda>r. \<not> separate c r) ?rows))"
    using assms(1) unfolding plain_clip_def clip_quota_interval_def Let_def option.case
    by (simp only: E(2) if_False option.inject) (erule subst, simp only: clipped_priced)
  moreover have "r \<in> set (filter (\<lambda>r. row_cost r \<noteq> None) (filter (\<lambda>r. \<not> separate c r) ?rows))"
    unfolding set_filter mem_Collect_eq using assms(2-7) unfolding E(1) by blast
  ultimately show ?thesis by (rule member_length)
qed

lemma range_part_some:
  assumes "consistent c" "sp \<in> set (merged_ranges (map fst (accepted_rows c requests)))"
  shows "\<exists>d. range_part c requests sp = Some d \<and> y_delta d = snd (y_endpoints c ! snd sp) - snd (y_endpoints c ! fst sp) \<and>
    y_account d = y_account c \<and> y_forward_tracking d = y_forward_tracking c"
proof -
  let ?E = "y_endpoints c" and ?src = "local_source c (map snd (accepted_rows c requests))"
  have strict: "sorted_wrt (<) (map fst ?E)" using assms(1) by (simp add: consistent_def)
  then have sorted: "sorted (map fst ?E)" by (rule strict_sorted_imp_sorted)
  have spans: "\<forall>q \<in> set (map fst (accepted_rows c requests)). fst q < snd q \<and> snd q < length ?E"
    using accepted_row(6,7) [OF _ sorted] by auto
  from merged_contains [OF assms(2)] spans obtain q where q: "q \<in> set (map fst (accepted_rows c requests))" "fst q = fst sp" "snd q \<le> snd sp"
    by blast
  then obtain r where r: "(q, r) \<in> set (accepted_rows c requests)" by auto
  note row = accepted_row [OF r sorted]
  have sp: "fst sp < snd sp" "snd sp < length ?E"
  proof -
    show "fst sp < snd sp" using row(6) q by simp
    show "snd sp < length ?E" using merged_ranges_endpoints [OF assms(2)] spans by auto
  qed
  have src: "y_endpoints ?src = ?E" by (simp add: local_source_def)
  from clip_span [of ?src "fst sp" "snd sp"] strict sp obtain d where
    d: "plain_clip ?src (fst (?E ! fst sp)) (fst (?E ! snd sp)) = Some d" "y_delta d = snd (?E ! snd sp) - snd (?E ! fst sp)"
      "y_endpoints d = drop (fst sp) (take (Suc (snd sp)) ?E)" unfolding src by blast
  have ends: "hd (y_endpoints d) = ?E ! fst sp" "last (y_endpoints d) = ?E ! snd sp"
    using sp unfolding d(3) by (simp add: hd_drop_conv_nth, simp add: last_drop take_Suc_conv_app_nth)
  let ?r = "r\<lparr>w_request_start := row_start r\<rparr>"
  have "y_priced_calls d \<noteq> 0"
  proof (rule clip_priced [OF d(1), where r = ?r])
    show "?r \<in> set (y_cost_rows ?src)" using r by (force simp: local_source_def)
    show "fst (hd (y_endpoints d)) < row_ts ?r" using row(1,6,7) q(2) by (simp add: ends row_ts_def)
    have "fst (?E ! snd q) \<le> fst (?E ! snd sp)" using sorted q(3) sp(2) by (simp add: sorted_iff_nth_mono)
    then show "row_ts ?r \<le> fst (last (y_endpoints d))" using row(2,7) by (simp add: ends row_ts_def)
    show "case w_request_start ?r of None \<Rightarrow> True | Some s \<Rightarrow> fst (hd (y_endpoints d)) \<le> s"
      using row(3,6,7) q(2) by (auto simp: ends split: option.split)
    have "separate ?src ?r = separate c r" by (simp add: separate_def local_source_def split: option.split)
    then show "\<not> separate ?src ?r" using row(5) by (simp add: eligible_rows_def)
    show "row_cost ?r \<noteq> None" using row(4) by (simp add: row_cost_def)
  qed
  moreover have "y_account d = y_account c" using clip_None [OF d(1) [unfolded plain_clip_def]] by (simp add: local_source_def)
  moreover have "y_forward_tracking d = y_forward_tracking c"
    using clip_forward [OF d(1) [unfolded plain_clip_def]] by (simp add: local_source_def)
  ultimately show ?thesis using d(1,2) by (simp add: range_part_def local_part_def)
qed

lemma map_filter_all:
  assumes "\<And>x. x \<in> set xs \<Longrightarrow> \<exists>y. f x = Some y \<and> g y = h x"
  shows "map g (List.map_filter f xs) = map h xs"
  using assms by (induction xs) (fastforce simp: List.map_filter_def)+

lemma local_scope_delta:
  assumes "consistent c"
  shows "sum_list (map (\<lambda>d. max 0 (y_delta d)) (fst (local_scope native c requests))) +
      d_idle_delta (snd (local_scope native c requests)) + d_pending_delta (snd (local_scope native c requests)) = max 0 (y_delta c)"
    and "0 \<le> d_idle_delta (snd (local_scope native c requests))" "0 \<le> d_pending_delta (snd (local_scope native c requests))"
proof -
  show "sum_list (map (\<lambda>d. max 0 (y_delta d)) (fst (local_scope native c requests))) +
      d_idle_delta (snd (local_scope native c requests)) + d_pending_delta (snd (local_scope native c requests)) = max 0 (y_delta c)"
    "0 \<le> d_idle_delta (snd (local_scope native c requests))" "0 \<le> d_pending_delta (snd (local_scope native c requests))"
  proof (atomize (full), cases "length (y_endpoints c) < 2")
    case True
    with assms show "sum_list (map (\<lambda>d. max 0 (y_delta d)) (fst (local_scope native c requests))) +
      d_idle_delta (snd (local_scope native c requests)) + d_pending_delta (snd (local_scope native c requests)) = max 0 (y_delta c) \<and>
      0 \<le> d_idle_delta (snd (local_scope native c requests)) \<and> 0 \<le> d_pending_delta (snd (local_scope native c requests))"
      by (simp add: local_scope_def local_request_intervals_def consistent_def)
  next
    case False
    then have two: "2 \<le> length (y_endpoints c)" by simp
    let ?ranges = "merged_ranges (map fst (accepted_rows c requests))"
    have "map (\<lambda>d. max 0 (y_delta d)) (fst (local_scope native c requests)) =
        map (\<lambda>(lo, hi). max 0 (snd (y_endpoints c ! hi) - snd (y_endpoints c ! lo))) ?ranges"
      unfolding local_scope_parts [OF two] by (rule map_filter_all) (use range_part_some [OF assms] in fastforce)
    then have used: "sum_list (map (\<lambda>d. max 0 (y_delta d)) (fst (local_scope native c requests))) = delta_of (y_endpoints c) ?ranges"
      by (simp add: delta_of_def)
    have so: "sorted (map snd (y_endpoints c))" and dl: "y_delta c = snd (last (y_endpoints c)) - snd (hd (y_endpoints c))"
      using assms two by (simp_all add: consistent_def)
    obtain parts d where res: "local_scope native c requests = (parts, d)" by (cases "local_scope native c requests") auto
    note cons = local_delta_conserved [OF two so dl res [unfolded local_scope_def]]
    have "0 \<le> y_delta c" using cons by linarith
    with cons used show "sum_list (map (\<lambda>d. max 0 (y_delta d)) (fst (local_scope native c requests))) +
      d_idle_delta (snd (local_scope native c requests)) + d_pending_delta (snd (local_scope native c requests)) = max 0 (y_delta c) \<and>
      0 \<le> d_idle_delta (snd (local_scope native c requests)) \<and> 0 \<le> d_pending_delta (snd (local_scope native c requests))"
      by (simp add: res)
  qed
qed

text \<open>The same for the statistics of a report.\<close>

lemma local_scope_kept:
  assumes "consistent c" "d \<in> set (fst (local_scope native c requests))"
  shows "y_account d = y_account c" "y_forward_tracking d = y_forward_tracking c"
proof -
  have two: "2 \<le> length (y_endpoints c)"
  proof (rule ccontr)
    assume "\<not> 2 \<le> length (y_endpoints c)"
    then have "fst (local_scope native c requests) = []" by (simp add: local_scope_def local_request_intervals_def)
    with assms(2) show False by simp
  qed
  from assms(2) obtain sp where "sp \<in> set (merged_ranges (map fst (accepted_rows c requests)))" "range_part c requests sp = Some d"
    unfolding local_scope_parts [OF two] by (auto simp: set_map_filter)
  with range_part_some [OF assms(1)] show "y_account d = y_account c" "y_forward_tracking d = y_forward_tracking c"
    by fastforce+
qed

lemma sum_list_split:
  "(\<And>x. x \<in> set xs \<Longrightarrow> f x + g x + h x = (k x :: rat)) \<Longrightarrow>
    sum_list (map f xs) + sum_list (map g xs) + sum_list (map h xs) = sum_list (map k xs)"
proof (induction xs)
  case (Cons x xs)
  have "f x + g x + h x = k x" "sum_list (map f xs) + sum_list (map g xs) + sum_list (map h xs) = sum_list (map k xs)"
    using Cons by simp_all
  then show ?case by simp
qed simp

lemma sum_list_concat_map: "sum_list (map f (concat xss)) = sum_list (map (\<lambda>xs. sum_list (map f xs)) xss)"
  by (induction xss) simp_all

lemma summary_conserves:
  fixes assume_modes :: bool
  assumes "list_all consistent (vr_cycles report)" "vr_tracking report \<noteq> None"
    "scoped = fst (quota_scope native requests readonly report start stop None)"
  defines "s \<equiv> value_summary report assume_modes scoped"
  shows "st_delta s + at_idle_delta (st_attribution s) + at_pending_delta (st_attribution s) = st_account_delta s"
    and "0 \<le> at_idle_delta (st_attribution s)" "0 \<le> at_pending_delta (st_attribution s)" "0 \<le> st_delta s"
proof -
  let ?own = "filter (own_account report) (scoped_cycles native report start stop)"
  let ?loc = "\<lambda>c. local_scope native c (window_requests native (index_for report requests) c)"
  obtain t where tracked: "vr_tracking report = Some t" using assms(2) by auto
  have scoped: "sc_parts scoped = concat (map (\<lambda>c. fst (?loc c)) ?own)" "sc_diagnostics scoped = map (\<lambda>c. snd (?loc c)) ?own"
    "sc_deltas scoped = map (\<lambda>c. max 0 (y_delta c)) ?own"
    using tracked unfolding assms(3) by (simp_all add: quota_scope_def Let_def attribute_cycles_plain index_for_def)
  have ok: "consistent c" if "c \<in> set ?own" for c
    using scoped_consistent [OF assms(1), of native start stop] that by (simp add: list_all_iff)
  have mine: "observed_interval (current_account report) (interval_of (current_account report) d)" if d: "d \<in> set (sc_parts scoped)" for d
  proof -
    from d obtain c where c: "c \<in> set ?own" "d \<in> set (fst (?loc c))" unfolding scoped by auto
    then have "own_account report c" by simp
    with local_scope_kept(1) [OF ok [OF c(1)] c(2)] show ?thesis
      by (simp add: observed_interval_def interval_of_def Let_def own_account_def)
  qed
  let ?intervals = "map (interval_of (current_account report)) (sc_parts scoped)"
  have "filter (observed_interval (current_account report)) ?intervals = ?intervals"
    using mine by (auto simp: filter_id_conv)
  then have delta: "st_delta s = measured ?intervals" using assms(2) by (simp add: s_def value_summary_def Let_def)
  also have "\<dots> = sum_list (map (\<lambda>d. max 0 (y_delta d)) (sc_parts scoped))"
    by (simp add: measured_def interval_of_def Let_def comp_def)
  also have "\<dots> = sum_list (map (\<lambda>c. sum_list (map (\<lambda>d. max 0 (y_delta d)) (fst (?loc c)))) ?own)"
    by (simp add: scoped sum_list_concat_map comp_def)
  finally have delta: "st_delta s = sum_list (map (\<lambda>c. sum_list (map (\<lambda>d. max 0 (y_delta d)) (fst (?loc c)))) ?own)" .
  have idle: "at_idle_delta (st_attribution s) = sum_list (map (\<lambda>c. d_idle_delta (snd (?loc c))) ?own)"
    and pending: "at_pending_delta (st_attribution s) = sum_list (map (\<lambda>c. d_pending_delta (snd (?loc c))) ?own)"
    by (simp_all add: s_def value_summary_def Let_def attribution_of_def scoped comp_def)
  have "st_account_delta s = sum_list (map (\<lambda>c. max 0 (y_delta c)) ?own)"
    by (simp add: s_def value_summary_def Let_def scoped)
  then show "st_delta s + at_idle_delta (st_attribution s) + at_pending_delta (st_attribution s) = st_account_delta s"
    unfolding delta idle pending using sum_list_split [of ?own] local_scope_delta(1) [OF ok] by simp
  show "0 \<le> at_idle_delta (st_attribution s)" unfolding idle by (rule sum_list_nonneg) (use local_scope_delta(2) [OF ok] in auto)
  show "0 \<le> at_pending_delta (st_attribution s)" unfolding pending by (rule sum_list_nonneg) (use local_scope_delta(3) [OF ok] in auto)
  show "0 \<le> st_delta s" unfolding delta by (rule sum_list_nonneg) (auto intro!: sum_list_nonneg)
qed

lemma quota_statistics_direct: "fst (quota_statistics native None requests readonly report start stop assume_modes cache) =
    value_summary report assume_modes (fst (quota_scope native requests readonly report start stop cache))"
  by (simp add: quota_statistics_def split: prod.split)

lemma summary_prices:
  "st_precision_range (value_summary report assume_modes scoped) = precision_range (st_valid (value_summary report assume_modes scoped))
     (st_cost (value_summary report assume_modes scoped)) (st_delta (value_summary report assume_modes scoped))"
  "st_per_percent (value_summary report assume_modes scoped) = (if st_delta (value_summary report assume_modes scoped) \<noteq> 0
     then map_option (\<lambda>v. v / st_delta (value_summary report assume_modes scoped)) (st_cost (value_summary report assume_modes scoped)) else None)"
  by (simp_all only: value_summary_def Let_def statistics.simps)

section \<open>Examples\<close>

lemma sample_interval_consistent: "consistent sample_interval"
  by (simp add: consistent_def sample_interval_def sample_cycle_def)

section \<open>Further properties\<close>

text \<open>
  The statistics of any part of a report and any period are the same from prepared intervals with a cache as
  from the direct calculation.
\<close>

theorem prepared_statistics_transparent:
  assumes "digest_ok digest" and "list_all (\<lambda>(r, _). report_ok issued r) (history @ [(report, requests)])"
    and "prepare_statistics_all digest native (history @ [(report, requests)]) = Some p" and "set cs \<subseteq> set (vr_cycles report)"
  shows "fst (quota_statistics native (Some p) (Some requests) readonly (report\<lparr>vr_cycles := cs, q_exclusions := exclusions\<rparr>) start stop assume_modes (Some [])) =
    fst (quota_statistics native (None :: unit prepared option) (Some requests) readonly (report\<lparr>vr_cycles := cs, q_exclusions := exclusions\<rparr>) start stop assume_modes None)"
proof -
  have empty: "scope_cache_ok native []" by (simp add: scope_cache_ok_def cache_weight_def)
  have report: "report_ok issued report" and before: "list_all (\<lambda>(r, _). report_ok issued r) history" using assms(2) by simp_all
  have p: "p = prepare_statistics digest native report (Some requests) (prepare_statistics_all digest native history)"
    using assms(3) by (simp add: prepare_statistics_all_def)
  from prepared_scope_exact [OF assms(1) report prepare_statistics_all_ok [OF before] empty assms(4), where exclusions = exclusions and readonly = readonly and start = start and stop = stop and requests = requests]
  show ?thesis unfolding p quota_statistics_direct by (auto simp: quota_statistics_def split: prod.split)
qed

theorem prepared_statistics_transparent_witness:
  "\<exists>p. prepare_statistics_all sample_digest True ([(sample_report, False, [])] @ [(sample_report, False, [])]) = Some p \<and>
    fst (quota_statistics True (Some p) (Some (False, [])) False (sample_report\<lparr>vr_cycles := [sample_interval], q_exclusions := []\<rparr>) None None True (Some [])) =
    fst (quota_statistics True (None :: unit prepared option) (Some (False, [])) False (sample_report\<lparr>vr_cycles := [sample_interval], q_exclusions := []\<rparr>) None None True None)"
proof -
  obtain p where p: "prepare_statistics_all sample_digest True ([(sample_report, False, [])] @ [(sample_report, False, [])]) = Some p"
    by (simp add: prepare_statistics_all_def)
  have "digest_ok sample_digest" by (simp add: digest_ok_def sample_digest_def)
  have "list_all (\<lambda>(r, _). report_ok (\<lambda>_. signed sample_interval) r) ([(sample_report, False, [])] @ [(sample_report, False, [])])"
    "set [sample_interval] \<subseteq> set (vr_cycles sample_report)"
    by (simp_all add: sample_report_ok) (simp add: sample_report_def)
  from prepared_statistics_transparent [OF \<open>digest_ok sample_digest\<close> this(1) p this(2)] p show ?thesis by blast
qed

text \<open>
  The sensitivity range shown for a value that is not negative contains the value, and it does not go below
  zero.
\<close>

theorem precision_brackets_value:
  assumes "st_precision_range s = Some (lo, hi)" and "st_per_percent s = Some v" and "0 \<le> v"
    and "s = fst (quota_statistics native prepared requests readonly report start stop assume_modes cache)"
  shows "0 \<le> lo \<and> lo \<le> v \<and> v \<le> hi"
proof -
  obtain scoped where s: "s = value_summary report assume_modes scoped"
    unfolding assms(4) quota_statistics_def by (metis (no_types, lifting) case_prod_beta fst_conv)
  have prec: "precision_range (st_valid s) (st_cost s) (st_delta s) = Some (lo, hi)"
    and per: "(if st_delta s \<noteq> 0 then map_option (\<lambda>v. v / st_delta s) (st_cost s) else None) = Some v"
    using assms(1,2) unfolding s by (simp_all only: summary_prices)
  then obtain c where c: "st_cost s = Some c" "of_nat (st_valid s) < st_delta s"
    "lo = c / (st_delta s + of_nat (st_valid s))" "hi = c / (st_delta s - of_nat (st_valid s))" "v = c / st_delta s"
    by (auto simp: precision_range_def split: option.splits if_splits)
  have pos: "0 < st_delta s" using c(2) of_nat_0_le_iff [of "st_valid s"] by (rule le_less_trans [rotated])
  then have "0 \<le> c" using assms(3) by (simp add: c(5) zero_le_divide_iff)
  with pos c(2) show ?thesis unfolding c(3-5) by (auto intro!: divide_left_mono mult_pos_pos divide_nonneg_nonneg add_pos_nonneg)
qed

theorem precision_brackets_value_witness:
  "let s = fst (quota_statistics False (None :: unit prepared option) (Some (False, [])) False sample_report None None False None)
   in st_precision_range s = Some (1/3, 1/2) \<and> 1/3 \<le> (2/5 :: rat) \<and> (2/5 :: rat) \<le> 1/2"
proof -
  let ?s = "fst (quota_statistics False (None :: unit prepared option) (Some (False, [])) False sample_report None None False None)"
  have "st_precision_range ?s = Some (1/3, 1/2)" by code_simp
  moreover have "st_per_percent ?s = Some (2/5)" by code_simp
  ultimately show ?thesis using precision_brackets_value [OF _ _ _ refl, of False "None :: unit prepared option" "Some (False, [])" False sample_report None None False None "1/3" "1/2" "2/5"]
    by (simp add: Let_def)
qed

section \<open>Claims\<close>

text \<open>
  C6: The statistics of a tracked report account for the allowance: the consumption of the attributed
  intervals, the consumption without local requests and the one still waiting for a request add up to the
  consumption of the account, and none of them is negative.
\<close>

theorem statistics_conserve_allowance:
  assumes "list_all consistent (vr_cycles report)" and "vr_tracking report \<noteq> None"
    and "s = fst (quota_statistics native (None :: unit prepared option) requests readonly report start stop assume_modes None)"
  shows "st_delta s + at_idle_delta (st_attribution s) + at_pending_delta (st_attribution s) = st_account_delta s \<and>
    0 \<le> st_delta s \<and> 0 \<le> at_idle_delta (st_attribution s) \<and> 0 \<le> at_pending_delta (st_attribution s)"
  using summary_conserves [OF assms(1,2) refl, where native = native and requests = requests and readonly = readonly and start = start and stop = stop and assume_modes = assume_modes]
  by (simp add: assms(3) quota_statistics_direct)

theorem statistics_conserve_allowance_witness:
  "let s = fst (quota_statistics True (None :: unit prepared option) None False sample_report (Some 0) (Some 30) False None)
   in st_delta s + at_idle_delta (st_attribution s) + at_pending_delta (st_attribution s) = st_account_delta s"
proof -
  have "list_all consistent (vr_cycles sample_report)" "vr_tracking sample_report \<noteq> None"
    using sample_interval_consistent by (simp_all add: sample_report_def)
  from statistics_conserve_allowance [OF this refl, of True None False "Some 0" "Some 30" False] show ?thesis by (simp add: Let_def)
qed

end
