(* ===== verification/Charts.thy ===== *)
theory Charts
  imports Values
begin

text \<open>
  The charted value of the allowance: \<open>_quota_value_rows\<close> and \<open>quota_value_history\<close> of
  \<open>cachemonitor/quota_cycles.py\<close>, without the cache of periods and the deferred rows.
\<close>

section \<open>Chart rows\<close>

record history_row =
  hr_at :: rat
  hr_account :: string
  hr_reset_kind :: string
  hr_measurement_reset :: bool

record history_group =
  hg_start :: rat
  hg_reset_kind :: string
  hg_partial :: bool
  hg_rows :: "history_row list"

text \<open>The priced calls that the loop over the endpoints has passed.\<close>

record tally =
  ty_rest :: "(rat \<times> rat option) list"
  ty_position :: nat
  ty_subtotal :: rat
  ty_priced :: nat
  ty_missing :: nat

definition count_cost :: "rat option \<Rightarrow> tally \<Rightarrow> tally" where
  "count_cost v t = (case v of
     None \<Rightarrow> t\<lparr>ty_missing := ty_missing t + 1, ty_position := ty_position t + 1\<rparr>
   | Some x \<Rightarrow> t\<lparr>ty_subtotal := ty_subtotal t + x, ty_priced := ty_priced t + 1, ty_position := ty_position t + 1\<rparr>)"

fun absorb :: "rat \<Rightarrow> (rat \<times> rat option) list \<Rightarrow> tally \<Rightarrow> tally" where
  "absorb a [] t = t\<lparr>ty_rest := []\<rparr>"
| "absorb a (r # rs) t = (if fst r \<le> a then absorb a rs (count_cost (snd r) t) else t\<lparr>ty_rest := r # rs\<rparr>)"

definition interval_costs :: "cycle \<Rightarrow> (rat \<times> rat option) list" where
  "interval_costs c = sort_key fst (map (\<lambda>r. (row_ts r, row_cost r))
     (filter (\<lambda>r. y_start c < row_ts r \<and> row_ts r \<le> y_end c \<and> \<not> separate c r) (y_cost_rows c)))"

definition interval_endpoints :: "cycle \<Rightarrow> (rat \<times> rat) list" where
  "interval_endpoints c =
    (let ps = filter (\<lambda>p. y_start c \<le> fst p \<and> fst p \<le> y_end c) (y_endpoints c)
     in if ps = [] then [(y_end c, y_used_end c)] else ps)"

definition collected_by :: "cycle \<Rightarrow> rat \<Rightarrow> bool" where
  "collected_by c a = (case y_cost_complete_at c of None \<Rightarrow> y_cost_complete c | Some None \<Rightarrow> False | Some (Some t) \<Rightarrow> a \<le> t)"

definition point_cost :: "bool \<Rightarrow> cycle \<Rightarrow> tally \<Rightarrow> rat \<Rightarrow> rat \<Rightarrow> rat option" where
  "point_cost forward c t a delta =
    (let cost = (if ty_priced t \<noteq> 0 then Some (ty_subtotal t)
       else if ty_position t = 0 \<and> delta = 0 \<and> collected_by c a \<and> \<not> list_ex (\<lambda>q. q \<le> a) (y_pending_usage_times c)
         then Some 0 else None)
     in if \<not> forward \<and> (ty_missing t \<noteq> 0 \<or> ty_priced t = 0) then None else cost)"

text \<open>Cost, consumption and whether the cost is known, from the start of the interval to an endpoint.\<close>

definition point_value :: "bool \<Rightarrow> cycle \<Rightarrow> rat \<Rightarrow> tally \<Rightarrow> rat \<times> rat \<Rightarrow> rat \<times> rat \<times> int" where
  "point_value forward c first t p =
    (let delta0 = max 0 (snd p - first);
         cost = (if fst p = y_end c then y_cost c else point_cost forward c t (fst p) delta0);
         delta = (if fst p = y_end c then max 0 (y_delta c) else delta0);
         valid = (forward \<or> es_reasons (estimate cost delta 1 (map Blocked_by (y_blocked c))) = []);
         known = (valid \<and> cost \<noteq> None)
     in (if known then (case cost of None \<Rightarrow> 0 | Some v \<Rightarrow> v) else 0, if valid then delta else 0, if known then 1 else 0))"

type_synonym value_event = "rat \<times> rat \<times> rat \<times> int"

fun endpoint_events :: "bool \<Rightarrow> cycle \<Rightarrow> rat \<Rightarrow> tally \<Rightarrow> rat \<times> rat \<times> int \<Rightarrow> (rat \<times> rat) list \<Rightarrow> value_event list" where
  "endpoint_events forward c first t old [] = []"
| "endpoint_events forward c first t old (p # ps) =
    (let t1 = absorb (fst p) (ty_rest t) t; new = point_value forward c first t1 p
     in (fst p, fst new - fst old, fst (snd new) - fst (snd old), snd (snd new) - snd (snd old)) #
        endpoint_events forward c first t1 new ps)"

definition first_tally :: "cycle \<Rightarrow> tally" where
  "first_tally c = \<lparr>ty_rest = interval_costs c, ty_position = 0, ty_subtotal = 0, ty_priced = 0, ty_missing = 0\<rparr>"

definition interval_events :: "bool \<Rightarrow> cycle \<Rightarrow> value_event list" where
  "interval_events forward c =
    (let ps = interval_endpoints c in endpoint_events forward c (snd (hd ps)) (first_tally c) (0, 0, 0) ps)"

definition all_events :: "bool \<Rightarrow> cycle list \<Rightarrow> value_event list" where
  "all_events forward cs = sort_key fst (concat (map (interval_events forward) cs))"

record value_row =
  vw_row :: history_row
  vw_cycle_start :: rat
  vw_cost :: "rat option"
  vw_value :: "rat option"
  vw_delta :: rat
  vw_confirmed_cost :: rat
  vw_confirmed_delta :: rat
  vw_held :: bool
  vw_local_observed :: bool
  vw_local_range :: nat
  vw_excluded :: bool
  vw_exclusion_end :: bool
  vw_exclusions :: "exclusion list"
  vw_partial :: bool

record chart =
  ch_display :: nat
  ch_events :: "value_event list"
  ch_cost :: rat
  ch_delta :: rat
  ch_known :: int
  ch_confirmed_cost :: rat
  ch_confirmed_delta :: rat
  ch_last_ratio :: "rat option"

function skip_ranges :: "(rat \<times> rat) list \<Rightarrow> rat \<Rightarrow> nat \<Rightarrow> nat" where
  "skip_ranges ranges a i = (if i < length ranges \<and> snd (ranges ! i) < a then skip_ranges ranges a (i + 1) else i)"
  by pat_completeness auto
termination
  by (relation "measure (\<lambda>(ranges, a, i). length ranges - i)") auto

declare skip_ranges.simps [simp del]

fun take_events :: "rat \<Rightarrow> value_event list \<Rightarrow> chart \<Rightarrow> chart" where
  "take_events a [] h = h\<lparr>ch_events := []\<rparr>"
| "take_events a ((b, x, d, k) # es) h =
    (if b \<le> a then take_events a es (h\<lparr>ch_cost := ch_cost h + x, ch_delta := ch_delta h + d, ch_known := ch_known h + k\<rparr>)
     else h\<lparr>ch_events := (b, x, d, k) # es\<rparr>)"

text \<open>What the rows of one group have in common.\<close>

record chart_context =
  cc_group :: history_group
  cc_summary_cost :: "rat option"
  cc_no_intervals :: bool
  cc_ranges :: "(rat \<times> rat) list"
  cc_exclusions :: "exclusion list"
  cc_account :: string
  cc_forward :: bool

definition row_cost_of :: "chart_context \<Rightarrow> history_row \<Rightarrow> chart \<Rightarrow> rat option" where
  "row_cost_of x row h =
    (let matches = (cc_account x = [] \<or> hr_account row = cc_account x);
         value = (if ch_known h \<noteq> 0 \<and> matches then Some (max 0 (ch_cost h)) else None);
         value1 = (if cc_exclusions x \<noteq> [] \<and> matches \<and> cc_no_intervals x \<and> cc_summary_cost x = Some 0 then Some 0 else value)
     in if hr_reset_kind row \<noteq> [] \<and> matches then Some 0 else value1)"

definition ratio_of :: "rat option \<Rightarrow> rat \<Rightarrow> rat option" where
  "ratio_of cost delta = (case cost of None \<Rightarrow> None | Some v \<Rightarrow> if 0 < delta then Some (v / delta * 100) else None)"

definition chart_row :: "chart_context \<Rightarrow> history_row \<Rightarrow> chart \<Rightarrow> value_row \<times> chart" where
  "chart_row x row h0 =
    (let a = hr_at row; display = skip_ranges (cc_ranges x) a (ch_display h0);
         local_observed = (hr_measurement_reset row \<or> \<not> cc_forward x \<or>
           display < length (cc_ranges x) \<and> fst (cc_ranges x ! display) \<le> a \<and> a \<le> snd (cc_ranges x ! display));
         excluded = filter (\<lambda>r. x_start r < a \<and> a \<le> x_end r) (cc_exclusions x);
         h = (take_events a (ch_events h0) h0)\<lparr>ch_display := display\<rparr>;
         matches = (cc_account x = [] \<or> hr_account row = cc_account x);
         value = row_cost_of x row h;
         ratio = ratio_of value (ch_delta h);
         held = (ratio = None \<and> ch_last_ratio h \<noteq> None \<and> matches);
         h1 = (case ratio of None \<Rightarrow> h
           | Some r \<Rightarrow> h\<lparr>ch_last_ratio := Some r, ch_confirmed_cost := (case value of None \<Rightarrow> 0 | Some v \<Rightarrow> v),
               ch_confirmed_delta := ch_delta h\<rparr>)
     in (\<lparr>vw_row = row, vw_cycle_start = hg_start (cc_group x), vw_cost = value,
          vw_value = (if ratio = None then (if matches then ch_last_ratio h else None) else ratio),
          vw_delta = ch_delta h, vw_confirmed_cost = ch_confirmed_cost h1, vw_confirmed_delta = ch_confirmed_delta h1,
          vw_held = held, vw_local_observed = local_observed, vw_local_range = display, vw_excluded = (excluded \<noteq> []),
          vw_exclusion_end = (excluded \<noteq> [] \<and> list_all (\<lambda>r. x_end r = a) excluded), vw_exclusions = excluded,
          vw_partial = hg_partial (cc_group x)\<rparr>, h1))"

fun chart_rows :: "chart_context \<Rightarrow> history_row list \<Rightarrow> chart \<Rightarrow> value_row list" where
  "chart_rows x [] h = []"
| "chart_rows x (row # rows) h = (case chart_row x row h of (r, h1) \<Rightarrow> r # chart_rows x rows h1)"

definition new_chart :: "value_event list \<Rightarrow> chart" where
  "new_chart events = \<lparr>ch_display = 0, ch_events = events, ch_cost = 0, ch_delta = 0, ch_known = 0, ch_confirmed_cost = 0,
     ch_confirmed_delta = 0, ch_last_ratio = None\<rparr>"

definition quota_value_rows :: "chart_context \<Rightarrow> cycle list \<Rightarrow> value_row list" where
  "quota_value_rows x intervals =
    chart_rows x (hg_rows (cc_group x)) (new_chart (all_events (cc_forward x) intervals))"

section \<open>Periods\<close>

fun group_rows :: "history_group option \<Rightarrow> history_row list \<Rightarrow> history_group list" where
  "group_rows g [] = (case g of None \<Rightarrow> [] | Some h \<Rightarrow> [h])"
| "group_rows g (row # rows) =
    (case g of
       None \<Rightarrow> group_rows (Some \<lparr>hg_start = hr_at row, hg_reset_kind = hr_reset_kind row,
          hg_partial = (hr_reset_kind row = []), hg_rows = [row]\<rparr>) rows
     | Some h \<Rightarrow>
         if hr_reset_kind row \<noteq> []
         then h # group_rows (Some \<lparr>hg_start = hr_at row, hg_reset_kind = hr_reset_kind row,
            hg_partial = (hr_reset_kind row = []), hg_rows = [row]\<rparr>) rows
         else group_rows (Some (h\<lparr>hg_rows := hg_rows h @ [row]\<rparr>)) rows)"

fun neighbors :: "'a list \<Rightarrow> ('a \<times> 'a option) list" where
  "neighbors [] = []"
| "neighbors [g] = [(g, None)]"
| "neighbors (g # h # gs) = (g, Some h) # neighbors (h # gs)"

record period =
  pd_start :: rat
  pd_end :: rat
  pd_reset_kind :: string
  pd_partial :: bool
  pd_current :: bool
  pd_cost :: "rat option"
  pd_delta :: rat
  pd_priced_calls :: nat
  pd_calls :: nat
  pd_percent_value :: "rat option"
  pd_intervals :: "interval list"

definition own_intervals :: "string \<Rightarrow> statistics \<Rightarrow> interval list" where
  "own_intervals account s = filter (\<lambda>r. account = [] \<or> y_account (iv_cycle r) = [] \<or> y_account (iv_cycle r) = account) (st_intervals s)"

definition interval_ranges :: "interval list \<Rightarrow> (rat \<times> rat) list" where
  "interval_ranges rs = sort (map (\<lambda>r. (y_start (iv_cycle r), y_end (iv_cycle r))) rs)"

text \<open>\<open>before\<close> is \<open>math.nextafter\<close> towards minus infinity.\<close>

definition group_end :: "(rat \<Rightarrow> rat) \<Rightarrow> history_group \<Rightarrow> history_group option \<Rightarrow> rat" where
  "group_end before g following = (case following of Some h \<Rightarrow> before (hg_start h) | None \<Rightarrow> hr_at (last (hg_rows g)))"

definition group_report :: "value_report \<Rightarrow> rat \<Rightarrow> rat \<Rightarrow> value_report" where
  "group_report report start stop = report\<lparr>q_account := current_account report,
     vr_cycles := filter (\<lambda>c. start \<le> y_end c \<and> y_start c \<le> stop) (vr_cycles report)\<rparr>"

definition value_period :: "history_group \<Rightarrow> history_group option \<Rightarrow> statistics \<Rightarrow> exclusion list \<Rightarrow> interval list \<Rightarrow> period" where
  "value_period g following s exclusions intervals =
    \<lparr>pd_start = hg_start g, pd_end = hr_at (last (hg_rows g)), pd_reset_kind = hg_reset_kind g, pd_partial = hg_partial g,
     pd_current = (following = None),
     pd_cost = (if st_total s \<noteq> 0 \<or> exclusions \<noteq> [] then st_cost s else if hg_reset_kind g \<noteq> [] then Some 0 else None),
     pd_delta = st_delta s, pd_priced_calls = st_observed_priced_calls s, pd_calls = st_observed_calls s,
     pd_percent_value = map_option (\<lambda>v. v * 100) (st_per_percent s), pd_intervals = intervals\<rparr>"

definition value_group ::
  "bool \<Rightarrow> (rat \<Rightarrow> rat) \<Rightarrow> 'd prepared option \<Rightarrow> (bool \<times> request list) option \<Rightarrow> value_report \<Rightarrow> history_group \<times> history_group option \<Rightarrow>
   scope_cache option \<Rightarrow> (value_row list \<times> period option) \<times> scope_cache option" where
  "value_group native before prepared requests report gf cache =
    (let g = fst gf; following = snd gf; account = current_account report;
         exclusions = active_exclusions (quota_report.truncate report) (Some account);
         start = hg_start g; stop = group_end before g following; r = group_report report start stop
     in case quota_statistics native prepared requests False r (Some start) (Some stop) False cache of
       (s, cache1) \<Rightarrow>
         (let intervals = own_intervals account s
          in case (if exclusions \<noteq> []
                then (case quota_statistics native prepared requests False (r\<lparr>q_exclusions := []\<rparr>) (Some start) (Some stop) False cache1 of
                    (original, cache2) \<Rightarrow> (interval_ranges (st_intervals original), cache2))
                else (interval_ranges intervals, cache1)) of
            (ranges, cache2) \<Rightarrow>
              ((quota_value_rows \<lparr>cc_group = g, cc_summary_cost = st_cost s, cc_no_intervals = (intervals = []), cc_ranges = ranges,
                   cc_exclusions = exclusions, cc_account = account, cc_forward = (vr_tracking report \<noteq> None)\<rparr> (map iv_cycle intervals),
                if list_ex (\<lambda>row. account = [] \<or> hr_account row = account) (hg_rows g)
                then Some (value_period g following s exclusions intervals) else None), cache2)))"

fun value_groups ::
  "bool \<Rightarrow> (rat \<Rightarrow> rat) \<Rightarrow> 'd prepared option \<Rightarrow> (bool \<times> request list) option \<Rightarrow> value_report \<Rightarrow>
   (history_group \<times> history_group option) list \<Rightarrow> scope_cache option \<Rightarrow> value_row list \<times> period list" where
  "value_groups native before prepared requests report [] cache = ([], [])"
| "value_groups native before prepared requests report (g # gs) cache =
    (case value_group native before prepared requests report g cache of
       ((rows, period), cache1) \<Rightarrow>
         (case value_groups native before prepared requests report gs cache1 of
            (rest, periods) \<Rightarrow> (rows @ rest, (case period of None \<Rightarrow> [] | Some p \<Rightarrow> [p]) @ periods)))"

definition quota_value_history ::
  "bool \<Rightarrow> (rat \<Rightarrow> rat) \<Rightarrow> 'd prepared option \<Rightarrow> (bool \<times> request list) option \<Rightarrow> value_report \<Rightarrow> history_row list \<Rightarrow>
   scope_cache option \<Rightarrow> value_row list \<times> period list" where
  "quota_value_history native before prepared requests report rows cache =
    (let requests1 = (if vr_tracking report \<noteq> None \<and> requests = None then Some (vr_request_windows report) else requests)
     in value_groups native before prepared requests1 report (neighbors (group_rows None rows)) cache)"

section \<open>The chart against a direct calculation\<close>

definition tally_at :: "cycle \<Rightarrow> rat \<Rightarrow> tally" where
  "tally_at c a = absorb a (interval_costs c) (first_tally c)"

lemma absorb_rest: "absorb b rs (t\<lparr>ty_rest := x\<rparr>) = absorb b rs t"
proof (induction rs arbitrary: t)
  case (Cons r rs)
  have "count_cost v (t\<lparr>ty_rest := x\<rparr>) = (count_cost v t)\<lparr>ty_rest := x\<rparr>" for v
    by (simp add: count_cost_def split: option.split)
  with Cons show ?case by simp
qed simp

lemma absorb_absorb:
  "a \<le> b \<Longrightarrow> absorb b (ty_rest (absorb a rs t)) (absorb a rs t) = absorb b rs t"
  by (induction rs arbitrary: t) (auto simp: absorb_rest)

text \<open>What an interval has contributed when the chart reaches a time.\<close>

definition charted :: "bool \<Rightarrow> cycle \<Rightarrow> rat \<Rightarrow> rat \<times> rat \<times> int" where
  "charted forward c a =
    (let ps = interval_endpoints c; before = filter (\<lambda>p. fst p \<le> a) ps
     in if before = [] then (0, 0, 0) else point_value forward c (snd (hd ps)) (tally_at c (fst (last before))) (last before))"

definition events_until :: "rat \<Rightarrow> value_event list \<Rightarrow> value_event list" where
  "events_until a es = filter (\<lambda>e. fst e \<le> a) es"

definition summed :: "value_event list \<Rightarrow> rat \<times> rat \<times> int" where
  "summed es = (sum_list (map (\<lambda>e. fst (snd e)) es), sum_list (map (\<lambda>e. fst (snd (snd e))) es), sum_list (map (\<lambda>e. snd (snd (snd e))) es))"

definition plus3 :: "rat \<times> rat \<times> int \<Rightarrow> rat \<times> rat \<times> int \<Rightarrow> rat \<times> rat \<times> int" where
  "plus3 x y = (fst x + fst y, fst (snd x) + fst (snd y), snd (snd x) + snd (snd y))"

lemma summed_simps [simp]: "summed [] = (0, 0, 0)" "summed ((a, x) # es) = plus3 x (summed es)"
  "summed (es @ fs) = plus3 (summed es) (summed fs)"
  by (simp_all add: summed_def plus3_def)

lemma plus3_laws [simp]: "plus3 x (0, 0, 0) = x" "plus3 (0, 0, 0) x = x" "plus3 (plus3 x y) z = plus3 x (plus3 y z)"
  by (cases x; cases y; cases z; simp add: plus3_def)+

lemma events_until_simps [simp]: "events_until a [] = []" "events_until a (e # es) = (if fst e \<le> a then e # events_until a es else events_until a es)"
  "events_until a (es @ fs) = events_until a es @ events_until a fs"
  by (simp_all add: events_until_def)

lemma endpoint_events_times: "map fst (endpoint_events forward c first t old ps) = map fst ps"
  by (induction ps arbitrary: t old) (simp_all add: Let_def)

lemma endpoint_events_sum:
  assumes "sorted (map fst ps)" "\<forall>p \<in> set ps. b \<le> fst p" "t = absorb b rs t0"
  shows "plus3 old (summed (events_until a (endpoint_events forward c first t old ps))) =
    (let before = filter (\<lambda>p. fst p \<le> a) ps
     in if before = [] then old else point_value forward c first (absorb (fst (last before)) rs t0) (last before))"
  using assms
proof (induction ps arbitrary: t old b)
  case (Cons p ps)
  let ?t = "absorb (fst p) (ty_rest t) t"
  have t: "?t = absorb (fst p) rs t0" using Cons.prems by (simp add: absorb_absorb)
  let ?new = "point_value forward c first ?t p"
  have step: "plus3 old (fst ?new - fst old, fst (snd ?new) - fst (snd old), snd (snd ?new) - snd (snd old)) = ?new"
    by (cases ?new) (simp add: plus3_def)
  have IH: "plus3 ?new (summed (events_until a (endpoint_events forward c first ?t ?new ps))) =
    (let before = filter (\<lambda>p. fst p \<le> a) ps
     in if before = [] then ?new else point_value forward c first (absorb (fst (last before)) rs t0) (last before))"
    by (rule Cons.IH [of "fst p" ?t ?new]) (use Cons.prems t in auto)
  show ?case
  proof (cases "fst p \<le> a")
    case True
    have "plus3 old (summed (events_until a (endpoint_events forward c first t old (p # ps)))) =
        plus3 ?new (summed (events_until a (endpoint_events forward c first ?t ?new ps)))"
      using True by (simp add: Let_def step del: plus3_laws add: plus3_laws(3) [symmetric])
    then show ?thesis unfolding IH using True t by (simp add: Let_def)
  next
    case False
    then have "filter (\<lambda>p. fst p \<le> a) ps = []" using Cons.prems(1) by (auto simp: filter_empty_conv)
    moreover have "events_until a (endpoint_events forward c first ?t ?new ps) = []"
    proof -
      have "set (map fst (endpoint_events forward c first ?t ?new ps)) = set (map fst ps)" unfolding endpoint_events_times ..
      then have "fst e \<notin> {..a}" if "e \<in> set (endpoint_events forward c first ?t ?new ps)" for e
        using that \<open>filter (\<lambda>p. fst p \<le> a) ps = []\<close> by (fastforce simp: filter_empty_conv)
      then show ?thesis by (auto simp: events_until_def filter_empty_conv)
    qed
    ultimately show ?thesis using False by (simp add: Let_def)
  qed
qed simp

lemma interval_endpoints_sorted: "sorted (map fst (y_endpoints c)) \<Longrightarrow> sorted (map fst (interval_endpoints c))"
  by (simp add: interval_endpoints_def Let_def sorted_filter)

lemma interval_events_sum:
  assumes "sorted (map fst (y_endpoints c))"
  shows "summed (events_until a (interval_events forward c)) = charted forward c a"
proof -
  let ?ps = "interval_endpoints c"
  have sorted: "sorted (map fst ?ps)" by (rule interval_endpoints_sorted) (rule assms)
  have "\<exists>b. (\<forall>p \<in> set ?ps. b \<le> fst p) \<and> (\<forall>r \<in> set (interval_costs c). b < fst r)"
  proof -
    let ?S = "insert 0 (fst ` set ?ps \<union> fst ` set (interval_costs c))"
    have "Min ?S - 1 < x" if x: "x \<in> ?S" for x
    proof -
      have "Min ?S \<le> x" by (rule Min_le) (use x in simp_all)
      then show ?thesis by linarith
    qed
    then show ?thesis by (intro exI [of _ "Min ?S - 1"]) (auto intro: less_imp_le)
  qed
  then obtain b where b: "\<forall>p \<in> set ?ps. b \<le> fst p" "\<forall>r \<in> set (interval_costs c). b < fst r" by blast
  have "first_tally c = absorb b (interval_costs c) (first_tally c)"
    using b(2) by (cases "interval_costs c") (auto simp: first_tally_def)
  from endpoint_events_sum [OF sorted b(1) this, of "(0, 0, 0)" a forward c "snd (hd ?ps)"]
  show ?thesis by (simp add: interval_events_def charted_def tally_at_def Let_def)
qed


lemma summed_concat: "summed (concat ess) = foldr plus3 (map summed ess) (0, 0, 0)"
  by (induction ess) simp_all

lemma upto_concat: "events_until a (concat ess) = concat (map (events_until a) ess)"
  by (induction ess) simp_all

lemma sum_list_sort_key: "sum_list (map g (sort_key f xs)) = (sum_list (map g xs) :: 'z :: comm_monoid_add)"
  by (metis mset_map mset_sort sum_mset_sum_list)

lemma summed_sort: "summed (sort_key f es) = summed es"
  by (simp add: summed_def sum_list_sort_key)

definition charted_sum :: "bool \<Rightarrow> cycle list \<Rightarrow> rat \<Rightarrow> rat \<times> rat \<times> int" where
  "charted_sum forward cs a = foldr plus3 (map (\<lambda>c. charted forward c a) cs) (0, 0, 0)"

lemma all_events_sum:
  assumes "\<forall>c \<in> set cs. sorted (map fst (y_endpoints c))"
  shows "summed (events_until a (all_events forward cs)) = charted_sum forward cs a"
proof -
  have "summed (events_until a (all_events forward cs)) = summed (events_until a (concat (map (interval_events forward) cs)))"
    by (simp add: all_events_def events_until_def filter_sort summed_sort)
  also have "\<dots> = foldr plus3 (map (\<lambda>c. summed (events_until a (interval_events forward c))) cs) (0, 0, 0)"
    by (simp add: upto_concat summed_concat comp_def)
  also have "map (\<lambda>c. summed (events_until a (interval_events forward c))) cs = map (\<lambda>c. charted forward c a) cs"
    using assms by (simp add: interval_events_sum)
  finally show ?thesis by (simp add: charted_sum_def)
qed

definition position_of :: "chart \<Rightarrow> rat \<times> rat \<times> int" where
  "position_of h = (ch_cost h, ch_delta h, ch_known h)"

lemma take_events_sorted:
  assumes "sorted (map fst es)"
  shows "position_of (take_events a es h) = plus3 (position_of h) (summed (events_until a es))"
    and "ch_events (take_events a es h) = filter (\<lambda>e. a < fst e) es"
  using assms
proof (induction es arbitrary: h)
  case (Cons e es)
  obtain b x d k where e: "e = (b, x, d, k)" by (cases e) auto
  { case 1
    show ?case
    proof (cases "b \<le> a")
      case True
      with Cons(1) 1 show ?thesis by (simp add: e position_of_def plus3_def)
    next
      case False
      with 1 have "events_until a es = []" by (fastforce simp: events_until_def filter_empty_conv e)
      with False show ?thesis by (simp add: e position_of_def)
    qed }
  { case 2
    show ?case
    proof (cases "b \<le> a")
      case True
      with Cons(2) 2 show ?thesis by (simp add: e)
    next
      case False
      with 2 have "filter (\<lambda>e. a < fst e) es = es" by (fastforce simp: filter_id_conv e)
      with False show ?thesis by (simp add: e)
    qed }
qed (simp_all add: position_of_def)

lemma take_events_last [simp]:
  "ch_last_ratio (take_events a es h) = ch_last_ratio h" "ch_confirmed_cost (take_events a es h) = ch_confirmed_cost h"
  "ch_confirmed_delta (take_events a es h) = ch_confirmed_delta h"
  by (induction a es h rule: take_events.induct) simp_all

text \<open>The chart after the rows up to a time.\<close>

definition chart_at :: "value_event list \<Rightarrow> rat \<Rightarrow> chart \<Rightarrow> bool" where
  "chart_at events a h = (ch_events h = filter (\<lambda>e. a < fst e) events \<and> position_of h = summed (events_until a events))"

lemma filter_later: "a \<le> b \<Longrightarrow> filter (\<lambda>e. b < fst e) (filter (\<lambda>e. a < fst e) es) = filter (\<lambda>e. (b :: rat) < fst e) es"
  by (simp add: filter_filter) (rule filter_cong [OF refl], auto)

lemma upto_split: "sorted (map fst es) \<Longrightarrow> a \<le> b \<Longrightarrow> events_until b es = events_until a es @ events_until b (filter (\<lambda>e. a < fst e) es)"
proof (induction es)
  case (Cons e es)
  show ?case
  proof (cases "fst e \<le> a")
    case True
    with Cons show ?thesis by simp
  next
    case False
    then have "events_until a es = []" using Cons.prems(1) by (fastforce simp: events_until_def filter_empty_conv)
    with False Cons show ?thesis by simp
  qed
qed simp

lemma take_events_chart:
  assumes "sorted (map fst events)" "chart_at events a h" "a \<le> b"
  shows "chart_at events b (take_events b (ch_events h) h)"
proof -
  have sorted: "sorted (map fst (ch_events h))" using assms(1,2) by (simp add: chart_at_def sorted_filter)
  have "ch_events (take_events b (ch_events h) h) = filter (\<lambda>e. b < fst e) events"
    using take_events_sorted(2) [OF sorted] assms(2) filter_later [OF assms(3)] by (simp add: chart_at_def del: filter_filter)
  moreover have "position_of (take_events b (ch_events h) h) = summed (events_until b events)"
    using take_events_sorted(1) [OF sorted] assms upto_split [OF assms(1,3)] by (simp add: chart_at_def)
  ultimately show ?thesis by (simp add: chart_at_def)
qed


definition chart_with :: "rat \<times> rat \<times> int \<Rightarrow> chart" where
  "chart_with q = (new_chart [])\<lparr>ch_cost := fst q, ch_delta := fst (snd q), ch_known := snd (snd q)\<rparr>"

definition direct_cost :: "chart_context \<Rightarrow> cycle list \<Rightarrow> history_row \<Rightarrow> rat option" where
  "direct_cost x cs row = row_cost_of x row (chart_with (charted_sum (cc_forward x) cs (hr_at row)))"

definition direct_delta :: "chart_context \<Rightarrow> cycle list \<Rightarrow> history_row \<Rightarrow> rat" where
  "direct_delta x cs row = fst (snd (charted_sum (cc_forward x) cs (hr_at row)))"

definition direct_ratio :: "chart_context \<Rightarrow> cycle list \<Rightarrow> history_row \<Rightarrow> rat option" where
  "direct_ratio x cs row = ratio_of (direct_cost x cs row) (direct_delta x cs row)"

fun latest :: "'a option \<Rightarrow> 'a option list \<Rightarrow> 'a option" where
  "latest v [] = v"
| "latest v (w # ws) = latest (if w = None then v else w) ws"

definition row_matches :: "chart_context \<Rightarrow> history_row \<Rightarrow> bool" where
  "row_matches x row = (cc_account x = [] \<or> hr_account row = cc_account x)"

lemma row_cost_cong: "position_of h = q \<Longrightarrow> row_cost_of x row h = row_cost_of x row (chart_with q)"
  unfolding row_cost_of_def chart_with_def new_chart_def position_of_def Let_def by (erule subst) auto

lemma position_display [simp]: "position_of (h\<lparr>ch_display := i\<rparr>) = position_of h" "chart_at es a (h\<lparr>ch_display := i\<rparr>) = chart_at es a h"
  by (simp_all add: position_of_def chart_at_def)

lemma chart_row_direct:
  assumes "chart_at (all_events (cc_forward x) cs) (hr_at row) (take_events (hr_at row) (ch_events h) h)"
    and "\<forall>c \<in> set cs. sorted (map fst (y_endpoints c))" and "chart_row x row h = (r, h1)"
  shows "vw_row r = row" "vw_cost r = direct_cost x cs row" "vw_delta r = direct_delta x cs row"
    and "ch_last_ratio h1 = latest (ch_last_ratio h) [direct_ratio x cs row]"
    and "vw_value r = (if row_matches x row then ch_last_ratio h1 else None)"
    and "chart_at (all_events (cc_forward x) cs) (hr_at row) h1"
    and "vw_confirmed_cost r = ch_confirmed_cost h1" "vw_confirmed_delta r = ch_confirmed_delta h1"
    and "direct_ratio x cs row = None \<Longrightarrow> ch_confirmed_cost h1 = ch_confirmed_cost h \<and> ch_confirmed_delta h1 = ch_confirmed_delta h"
    and "direct_ratio x cs row \<noteq> None \<Longrightarrow> Some (ch_confirmed_cost h1) = direct_cost x cs row \<and> ch_confirmed_delta h1 = direct_delta x cs row"
proof -
  let ?a = "hr_at row" and ?g = "take_events (hr_at row) (ch_events h) h"
  have pos: "position_of ?g = charted_sum (cc_forward x) cs ?a"
    using assms(1) all_events_sum [OF assms(2)] by (simp add: chart_at_def)
  then have delta: "ch_delta ?g = direct_delta x cs row"
    by (simp add: direct_delta_def) (simp only: pos [symmetric] position_of_def fst_conv snd_conv)
  have cost: "row_cost_of x row (?g\<lparr>ch_display := i\<rparr>) = direct_cost x cs row" for i
    using row_cost_cong [of "?g\<lparr>ch_display := i\<rparr>"] pos by (simp add: direct_cost_def)
  have unmatched: "direct_ratio x cs row = None" if "\<not> row_matches x row"
    using that by (simp add: direct_ratio_def ratio_of_def direct_cost_def row_cost_of_def row_matches_def Let_def)
  have split: "r = fst (chart_row x row h)" "h1 = snd (chart_row x row h)" using assms(3) by simp_all
  have row: "h1 = (case direct_ratio x cs row of None \<Rightarrow> ?g\<lparr>ch_display := skip_ranges (cc_ranges x) ?a (ch_display h)\<rparr>
      | Some q \<Rightarrow> ?g\<lparr>ch_display := skip_ranges (cc_ranges x) ?a (ch_display h), ch_last_ratio := Some q,
          ch_confirmed_cost := (case direct_cost x cs row of None \<Rightarrow> 0 | Some v \<Rightarrow> v), ch_confirmed_delta := direct_delta x cs row\<rparr>)"
    and r: "vw_row r = row" "vw_cost r = direct_cost x cs row" "vw_delta r = direct_delta x cs row"
      "vw_value r = (case direct_ratio x cs row of None \<Rightarrow> if row_matches x row then ch_last_ratio h else None | Some q \<Rightarrow> Some q)"
      "vw_confirmed_cost r = ch_confirmed_cost h1" "vw_confirmed_delta r = ch_confirmed_delta h1"
    unfolding split
    by (simp_all add: chart_row_def Let_def cost delta direct_ratio_def [symmetric] row_matches_def
        split: option.split cong del: if_weak_cong)
  show "vw_row r = row" "vw_cost r = direct_cost x cs row" "vw_delta r = direct_delta x cs row"
    using row r by (auto split: option.splits cong del: if_weak_cong)
  show "ch_last_ratio h1 = latest (ch_last_ratio h) [direct_ratio x cs row]"
    using row r by (auto split: option.splits cong del: if_weak_cong)
  then show "vw_value r = (if row_matches x row then ch_last_ratio h1 else None)"
    using row r unmatched by (auto simp: row_matches_def split: option.splits cong del: if_weak_cong)
  show "chart_at (all_events (cc_forward x) cs) (hr_at row) h1"
    using row r assms(1) by (auto simp: chart_at_def position_of_def split: option.splits)
  show "vw_confirmed_cost r = ch_confirmed_cost h1" "vw_confirmed_delta r = ch_confirmed_delta h1"
    using row r by (auto split: option.splits cong del: if_weak_cong)
  show "direct_ratio x cs row = None \<Longrightarrow> ch_confirmed_cost h1 = ch_confirmed_cost h \<and> ch_confirmed_delta h1 = ch_confirmed_delta h"
    using row r by (auto split: option.splits cong del: if_weak_cong)
  assume known: "direct_ratio x cs row \<noteq> None"
  then obtain v where "direct_cost x cs row = Some v" by (auto simp: direct_ratio_def ratio_of_def split: option.splits)
  with known show "Some (ch_confirmed_cost h1) = direct_cost x cs row \<and> ch_confirmed_delta h1 = direct_delta x cs row"
    using row r by (auto split: option.splits cong del: if_weak_cong)
qed


text \<open>A state from which every row of the group still reads the events up to its time.\<close>

definition chart_ready :: "value_event list \<Rightarrow> history_row list \<Rightarrow> chart \<Rightarrow> bool" where
  "chart_ready events rows h = list_all (\<lambda>row. chart_at events (hr_at row) (take_events (hr_at row) (ch_events h) h)) rows"

lemma all_events_sorted: "sorted (map fst (all_events forward cs))"
  by (simp add: all_events_def)

lemma new_chart_ready: "chart_ready (all_events forward cs) rows (new_chart (all_events forward cs))"
proof -
  have "chart_at (all_events forward cs) a (take_events a (all_events forward cs) (new_chart (all_events forward cs)))" for a
    using take_events_sorted [OF all_events_sorted] by (simp add: chart_at_def new_chart_def position_of_def)
  then show ?thesis by (simp add: chart_ready_def list_all_iff new_chart_def)
qed

lemma chart_ready_step:
  assumes "chart_ready (all_events (cc_forward x) cs) (row # rows) h" "sorted (map hr_at (row # rows))"
    and "\<forall>c \<in> set cs. sorted (map fst (y_endpoints c))" and "chart_row x row h = (r, h1)"
  shows "chart_at (all_events (cc_forward x) cs) (hr_at row) (take_events (hr_at row) (ch_events h) h)"
    and "chart_ready (all_events (cc_forward x) cs) rows h1"
proof -
  show here: "chart_at (all_events (cc_forward x) cs) (hr_at row) (take_events (hr_at row) (ch_events h) h)"
    using assms(1) by (simp add: chart_ready_def)
  have "chart_at (all_events (cc_forward x) cs) (hr_at row) h1" by (rule chart_row_direct(6) [OF here assms(3,4)])
  from take_events_chart [OF all_events_sorted this] assms(2) show "chart_ready (all_events (cc_forward x) cs) rows h1"
    by (simp add: chart_ready_def list_all_iff)
qed

lemma chart_rows_direct:
  assumes "chart_ready (all_events (cc_forward x) cs) rows h" "sorted (map hr_at rows)"
    and "\<forall>c \<in> set cs. sorted (map fst (y_endpoints c))"
  shows "map (\<lambda>r. (vw_row r, vw_cost r, vw_delta r)) (chart_rows x rows h) = map (\<lambda>row. (row, direct_cost x cs row, direct_delta x cs row)) rows"
    and "i < length rows \<Longrightarrow> vw_value (chart_rows x rows h ! i) =
      (if row_matches x (rows ! i) then latest (ch_last_ratio h) (map (direct_ratio x cs) (take (Suc i) rows)) else None)"
  using assms(1,2)
proof (induction rows arbitrary: h i)
  case (Cons row rows)
  { case (1 h)
    obtain r h1 where r: "chart_row x row h = (r, h1)" by (cases "chart_row x row h") auto
    note step = chart_ready_step [OF 1(1,2) assms(3) r]
    from Cons.IH(1) [OF step(2)] 1(2) show ?case
      using chart_row_direct(1-3) [OF step(1) assms(3) r] by (simp add: r) }
  { case (2 h i)
    obtain r h1 where r: "chart_row x row h = (r, h1)" by (cases "chart_row x row h") auto
    note step = chart_ready_step [OF 2(2,3) assms(3) r]
    note now = chart_row_direct(4,5) [OF step(1) assms(3) r]
    show ?case
    proof (cases i)
      case 0
      with now show ?thesis by (simp add: r)
    next
      case (Suc j)
      with 2 Cons.IH(2) [OF _ step(2), of j] now(1) show ?thesis by (simp add: r)
    qed }
qed simp_all

text \<open>The charted ratio is that of the confirmed cost and consumption.\<close>

definition confirmed :: "chart \<Rightarrow> bool" where
  "confirmed h = (case ch_last_ratio h of None \<Rightarrow> True
     | Some v \<Rightarrow> 0 < ch_confirmed_delta h \<and> v = ch_confirmed_cost h / ch_confirmed_delta h * 100 \<and> 0 \<le> ch_confirmed_cost h)"

lemma row_cost_nonneg: "row_cost_of x row h = Some v \<Longrightarrow> 0 \<le> v"
  by (auto simp: row_cost_of_def Let_def split: if_splits)

lemma chart_row_confirmed:
  assumes "confirmed h" "chart_row x row h = (r, h1)"
  shows "confirmed h1" "vw_value r = Some v \<Longrightarrow> ch_last_ratio h1 = Some v"
    "vw_confirmed_cost r = ch_confirmed_cost h1" "vw_confirmed_delta r = ch_confirmed_delta h1"
  using assms row_cost_nonneg
  by (auto simp: chart_row_def Let_def confirmed_def ratio_of_def split: option.splits if_splits)

lemma chart_rows_confirmed:
  assumes "confirmed h" "r \<in> set (chart_rows x rows h)" "vw_value r = Some v"
  shows "0 < vw_confirmed_delta r \<and> v = vw_confirmed_cost r / vw_confirmed_delta r * 100 \<and> 0 \<le> v"
  using assms
proof (induction rows arbitrary: h)
  case (Cons row rows)
  obtain q h1 where q: "chart_row x row h = (q, h1)" by (cases "chart_row x row h") auto
  note now = chart_row_confirmed [OF Cons.prems(1) q]
  show ?case
  proof (cases "r = q")
    case True
    with now Cons.prems(3) show ?thesis by (auto simp: confirmed_def)
  next
    case False
    with Cons.prems(2) q have "r \<in> set (chart_rows x rows h1)" by simp
    with Cons.IH [OF now(1)] Cons.prems(3) show ?thesis by blast
  qed
qed simp


section \<open>The chart and the period\<close>

lemma local_scope_shape:
  assumes "sorted (map fst (y_endpoints c))" "d \<in> set (fst (local_scope native c requests))"
  shows "y_endpoints d \<noteq> []" "y_start d = fst (hd (y_endpoints d))" "y_end d = fst (last (y_endpoints d))"
    "set (y_endpoints d) \<subseteq> set (y_endpoints c)" "sorted (map fst (y_endpoints d))"
proof -
  have two: "2 \<le> length (y_endpoints c)"
  proof (rule ccontr)
    assume "\<not> 2 \<le> length (y_endpoints c)"
    then have "fst (local_scope native c requests) = []" by (simp add: local_scope_def local_request_intervals_def)
    with assms(2) show False by simp
  qed
  from assms(2) obtain sp where "range_part c requests sp = Some d"
    unfolding local_scope_parts [OF two] by (auto simp: set_map_filter)
  then obtain e a b where e: "plain_clip (local_source c (map snd (accepted_rows c requests))) a b = Some e" "d = local_part c sp e"
    by (auto simp: range_part_def split: option.splits if_splits)
  have "y_endpoints (local_source c xs) = y_endpoints c" for xs by (simp add: local_source_def)
  with clip_None [OF e(1) [unfolded plain_clip_def]] assms(1)
  show "y_endpoints d \<noteq> []" "y_start d = fst (hd (y_endpoints d))" "y_end d = fst (last (y_endpoints d))"
    "set (y_endpoints d) \<subseteq> set (y_endpoints c)" "sorted (map fst (y_endpoints d))"
    by (auto simp: e(2) local_part_def sorted_filter)
qed

lemma sorted_ends:
  assumes "sorted (map fst ps)" "ps \<noteq> []" "p \<in> set ps"
  shows "fst (hd ps) \<le> fst p" "fst p \<le> fst (last ps)"
proof -
  obtain i where i: "i < length ps" "p = ps ! i" using assms(3) by (auto simp: in_set_conv_nth)
  have "map fst ps ! 0 \<le> map fst ps ! i" using i by (intro sorted_nth_mono [OF assms(1)]) auto
  then show "fst (hd ps) \<le> fst p" using i assms(2) by (simp add: hd_conv_nth)
  have "map fst ps ! i \<le> map fst ps ! (length ps - 1)" using i by (intro sorted_nth_mono [OF assms(1)]) auto
  then show "fst p \<le> fst (last ps)" using i assms(2) by (simp add: last_conv_nth)
qed

text \<open>After its end, an interval counts with its whole consumption and its known cost.\<close>

lemma charted_end:
  assumes "y_endpoints c \<noteq> []" "y_start c = fst (hd (y_endpoints c))" "y_end c = fst (last (y_endpoints c))"
    "sorted (map fst (y_endpoints c))" "y_end c \<le> a"
  shows "charted True c a = (case y_cost c of None \<Rightarrow> 0 | Some v \<Rightarrow> v, max 0 (y_delta c), if y_cost c = None then 0 else 1)"
proof -
  have ps: "interval_endpoints c = y_endpoints c"
    using sorted_ends [OF assms(4,1)] assms(1-3) by (simp add: interval_endpoints_def Let_def filter_id_conv)
  moreover have "filter (\<lambda>p. fst p \<le> a) (y_endpoints c) = y_endpoints c"
    using sorted_ends(2) [OF assms(4,1)] assms(3,5) by (fastforce simp: filter_id_conv)
  ultimately show ?thesis using assms(1,3)
    by (simp add: charted_def point_value_def Let_def split: option.split)
qed

lemma foldr_plus3:
  "foldr plus3 qs (0, 0, 0) = (sum_list (map fst qs), sum_list (map (\<lambda>q. fst (snd q)) qs), sum_list (map (\<lambda>q. snd (snd q)) qs))"
  by (induction qs) (simp_all add: plus3_def)

lemma known_sum: "sum_list (map (\<lambda>c. case f c of None \<Rightarrow> 0 | Some v \<Rightarrow> v) cs) = sum_list (known_costs (map f cs))"
  by (induction cs) (auto simp: known_costs_def List.map_filter_def split: option.split)

lemma known_number: "sum_list (map (\<lambda>c. if f c = None then 0 else 1) cs) = int (length (known_costs (map f cs)))"
  by (induction cs) (auto simp: known_costs_def List.map_filter_def split: option.split)

lemma charted_sum_end:
  assumes "\<And>c. c \<in> set cs \<Longrightarrow> charted True c a =
    (case y_cost c of None \<Rightarrow> 0 | Some v \<Rightarrow> v, max 0 (y_delta c), if y_cost c = None then 0 else 1)"
  shows "charted_sum True cs a = (sum_list (known_costs (map y_cost cs)), sum_list (map (\<lambda>c. max 0 (y_delta c)) cs),
    int (length (known_costs (map y_cost cs))))"
proof -
  have "map (\<lambda>c. charted True c a) cs = map (\<lambda>c.
    (case y_cost c of None \<Rightarrow> 0 | Some v \<Rightarrow> v, max 0 (y_delta c), if y_cost c = None then 0 else 1)) cs"
    using assms by simp
  then show ?thesis
    by (simp only: charted_sum_def foldr_plus3) (simp add: comp_def known_sum known_number)
qed


lemma trim_before:
  assumes "consistent c" "trim start (Some b) c = Some d" "p \<in> set (y_endpoints d)"
  shows "fst p \<le> b"
proof (cases "d = c \<and> y_end c \<le> b")
  case True
  have "y_endpoints c \<noteq> []" "sorted (map fst (y_endpoints c))" using True assms by (auto simp: consistent_def strict_sorted_imp_sorted)
  with True sorted_ends(2) [of "y_endpoints c" p] assms show ?thesis by (simp add: consistent_def)
next
  case False
  with assms(2) have "clip_quota_interval c start (Some b) None = Some d" by (auto simp: trim_def split: if_splits option.splits)
  from clip_None [OF this] assms(3) show ?thesis by (auto simp: in_points_def)
qed

text \<open>The parts of a period lie in it.\<close>

lemma tracked_parts:
  assumes "list_all consistent (vr_cycles report)" "vr_tracking report \<noteq> None"
    "scoped = fst (quota_scope native requests readonly report start (Some b) None)" "d \<in> set (sc_parts scoped)"
  shows "y_endpoints d \<noteq> [] \<and> y_start d = fst (hd (y_endpoints d)) \<and> y_end d = fst (last (y_endpoints d)) \<and>
    sorted (map fst (y_endpoints d)) \<and> y_end d \<le> b" and "own_account report d"
proof -
  let ?own = "filter (own_account report) (scoped_cycles native report start (Some b))"
  let ?loc = "\<lambda>c. local_scope native c (window_requests native (index_for report requests) c)"
  have "sc_parts scoped = concat (map (\<lambda>c. fst (?loc c)) ?own)"
    using assms(2) unfolding assms(3) by (auto simp: quota_scope_def Let_def attribute_cycles_plain index_for_def)
  with assms(4) obtain c where c: "c \<in> set ?own" "d \<in> set (fst (?loc c))" by auto
  have ok: "consistent c" using scoped_consistent [OF assms(1), of native start "Some b"] c(1) by (simp add: list_all_iff)
  have sorted: "sorted (map fst (y_endpoints c))" using ok by (simp add: consistent_def strict_sorted_imp_sorted)
  note shape = local_scope_shape [OF sorted c(2)]
  obtain e where e: "consistent e" "trim start (Some b) e = Some c"
    using c(1) assms(1)
    by (auto simp: scoped_cycles_def set_map_filter list_all_iff retained_intervals_def continuous_quota_intervals_def
        dest: retained_consistent [rotated] continuous_consistent [rotated])
  have "last (y_endpoints d) \<in> set (y_endpoints c)" using shape(1,4) last_in_set by blast
  then have "fst (last (y_endpoints d)) \<le> b" by (rule trim_before [OF e])
  then have "y_end d \<le> b" by (simp only: shape(3))
  with shape show "y_endpoints d \<noteq> [] \<and> y_start d = fst (hd (y_endpoints d)) \<and> y_end d = fst (last (y_endpoints d)) \<and>
    sorted (map fst (y_endpoints d)) \<and> y_end d \<le> b" by simp
  show "own_account report d" using c(1) local_scope_kept(1) [OF ok c(2)] by (simp add: own_account_def)
qed

lemma current_account_group: "current_account (group_report report start stop) = current_account report"
proof (cases "current_account report = []")
  case True
  then have none: "filter (\<lambda>c. y_account c \<noteq> []) (vr_cycles report) = []"
    by (cases "filter (\<lambda>c. y_account c \<noteq> []) (vr_cycles report)") (auto simp: current_account_def dest: filter_eq_ConsD split: if_splits)
  then have "filter (\<lambda>c. y_account c \<noteq> []) (filter (\<lambda>c. start \<le> y_end c \<and> y_start c \<le> stop) (vr_cycles report)) = []"
    by (auto simp: filter_empty_conv)
  with True show ?thesis by (simp add: group_report_def current_account_def del: filter_filter)
next
  case False
  then show ?thesis by (simp add: group_report_def current_account_def)
qed

lemma row_exists: "chart_rows x rows h \<noteq> [] \<longleftrightarrow> rows \<noteq> []"
  by (cases rows) (auto split: prod.split)

lemma last_map_eq: "map f xs = map g ys \<Longrightarrow> xs \<noteq> [] \<Longrightarrow> f (last xs) = g (last ys)"
  by (metis last_map map_is_Nil_conv)


lemma paired_case: "(case q of (r, x) \<Rightarrow> ((f r, v), x)) = ((y, w), z) \<Longrightarrow> \<exists>r. y = f r \<and> v = w"
  by (cases q) auto

lemma value_group_parts:
  assumes "vr_tracking report \<noteq> None"
    and "value_group native before (None :: 'd prepared option) requests report (g, None) None = ((charted_rows, Some p), cache)"
  defines "a \<equiv> hr_at (last (hg_rows g))"
  shows "\<exists>x s. cc_group x = g \<and> cc_forward x \<and> cc_account x = current_account report \<and>
    s = fst (quota_statistics native (None :: 'd prepared option) requests False (group_report report (hg_start g) a) (Some (hg_start g)) (Some a) False None) \<and>
    cc_no_intervals x = (own_intervals (current_account report) s = []) \<and>
    charted_rows = quota_value_rows x (map iv_cycle (own_intervals (current_account report) s)) \<and>
    p = value_period g None s (active_exclusions (quota_report.truncate report) (Some (current_account report)))
      (own_intervals (current_account report) s)"
proof -
  obtain s c1 where S: "quota_statistics native (None :: 'd prepared option) requests False (group_report report (hg_start g) a)
      (Some (hg_start g)) (Some a) False None = (s, c1)"
    by (cases "quota_statistics native (None :: 'd prepared option) requests False (group_report report (hg_start g) a)
      (Some (hg_start g)) (Some a) False None")
  note step = assms(2) [unfolded value_group_def Let_def fst_conv snd_conv group_end_def option.case a_def [symmetric] S prod.case]
  from paired_case [OF step] show ?thesis
  proof (elim exE conjE)
    fix ranges
    assume "charted_rows = quota_value_rows \<lparr>cc_group = g, cc_summary_cost = st_cost s,
        cc_no_intervals = own_intervals (current_account report) s = [], cc_ranges = ranges,
        cc_exclusions = active_exclusions (quota_report.truncate report) (Some (current_account report)),
        cc_account = current_account report, cc_forward = vr_tracking report \<noteq> None\<rparr>
        (map iv_cycle (own_intervals (current_account report) s))"
      and "(if list_ex (\<lambda>row. current_account report = [] \<or> hr_account row = current_account report) (hg_rows g)
        then Some (value_period g None s (active_exclusions (quota_report.truncate report) (Some (current_account report)))
          (own_intervals (current_account report) s)) else None) = Some p"
    note shown = this
    let ?x = "\<lparr>cc_group = g, cc_summary_cost = st_cost s,
        cc_no_intervals = own_intervals (current_account report) s = [], cc_ranges = ranges,
        cc_exclusions = active_exclusions (quota_report.truncate report) (Some (current_account report)),
        cc_account = current_account report, cc_forward = vr_tracking report \<noteq> None\<rparr>"
    have "cc_group ?x = g" "cc_forward ?x" "cc_account ?x = current_account report"
      "cc_no_intervals ?x = (own_intervals (current_account report) s = [])" using assms(1) by simp_all
    moreover have "p = value_period g None s (active_exclusions (quota_report.truncate report) (Some (current_account report)))
      (own_intervals (current_account report) s)" using shown(2) by (simp split: if_splits)
    ultimately show ?thesis using shown(1) unfolding S fst_conv by blast
  qed
qed


lemma st_intervals_summary: "st_intervals (value_summary report assume_modes scoped) = map (interval_of (current_account report)) (sc_parts scoped)"
  by (simp add: value_summary_def Let_def)

lemma iv_cycle_interval [simp]: "iv_cycle (interval_of account c) = c"
  by (simp add: interval_of_def Let_def)

text \<open>With all parts of one account, the summary counts all of them.\<close>

lemma tracked_summary:
  assumes "\<And>d. d \<in> set (sc_parts scoped) \<Longrightarrow> own_account report d" "vr_tracking report \<noteq> None"
  shows "own_intervals (current_account report) (value_summary report assume_modes scoped) =
      map (interval_of (current_account report)) (sc_parts scoped)"
    and "st_delta (value_summary report assume_modes scoped) = sum_list (map (\<lambda>d. max 0 (y_delta d)) (sc_parts scoped))"
    and "sc_parts scoped \<noteq> [] \<Longrightarrow> st_cost (value_summary report assume_modes scoped) =
      (if known_costs (map y_cost (sc_parts scoped)) = [] then None else Some (sum_list (known_costs (map y_cost (sc_parts scoped)))))"
    and "st_total (value_summary report assume_modes scoped) = length (sc_parts scoped)"
proof -
  have "filter (observed_interval (current_account report)) (map (interval_of (current_account report)) (sc_parts scoped)) =
      map (interval_of (current_account report)) (sc_parts scoped)"
    using assms(1) by (auto simp: filter_id_conv observed_interval_def own_account_def)
  note observed = this
  show "own_intervals (current_account report) (value_summary report assume_modes scoped) =
      map (interval_of (current_account report)) (sc_parts scoped)"
    using assms(1) by (auto simp: own_intervals_def st_intervals_summary filter_id_conv own_account_def)
  show "st_delta (value_summary report assume_modes scoped) = sum_list (map (\<lambda>d. max 0 (y_delta d)) (sc_parts scoped))"
    using assms(2) by (simp add: value_summary_def Let_def observed measured_def comp_def)
  show "st_cost (value_summary report assume_modes scoped) =
      (if known_costs (map y_cost (sc_parts scoped)) = [] then None else Some (sum_list (known_costs (map y_cost (sc_parts scoped)))))"
    if "sc_parts scoped \<noteq> []"
    using that assms(2) by (simp add: value_summary_def Let_def observed forward_cost_def cost_sum_def comp_def)
  show "st_total (value_summary report assume_modes scoped) = length (sc_parts scoped)"
    by (simp add: value_summary_def Let_def)
qed


lemma value_group_ends:
  assumes "list_all consistent (vr_cycles report)" "vr_tracking report \<noteq> None"
    and "hg_rows g \<noteq> []" "sorted (map hr_at (hg_rows g))"
    and "value_group native before (None :: 'd prepared option) requests report (g, None) None = ((charted_rows, Some p), cache)"
  shows "vw_row (last charted_rows) = last (hg_rows g)" "vw_delta (last charted_rows) = pd_delta p"
    and "hr_reset_kind (last (hg_rows g)) = [] \<Longrightarrow> hr_account (last (hg_rows g)) = current_account report \<Longrightarrow>
      pd_intervals p \<noteq> [] \<Longrightarrow> vw_cost (last charted_rows) = map_option (max 0) (pd_cost p)"
proof -
  let ?row = "last (hg_rows g)" and ?a = "hr_at (last (hg_rows g))"
  let ?r = "group_report report (hg_start g) ?a"
  let ?scoped = "fst (quota_scope native requests False ?r (Some (hg_start g)) (Some ?a) None)"
  let ?s = "value_summary ?r False ?scoped" and ?parts = "sc_parts (fst (quota_scope native requests False (group_report report (hg_start g) (hr_at (last (hg_rows g)))) (Some (hg_start g)) (Some (hr_at (last (hg_rows g)))) None))"
  from value_group_parts [OF assms(2,5)] obtain x where x: "cc_group x = g" "cc_forward x" "cc_account x = current_account report"
      "cc_no_intervals x = (own_intervals (current_account report) ?s = [])"
      "charted_rows = quota_value_rows x (map iv_cycle (own_intervals (current_account report) ?s))"
      "p = value_period g None ?s (active_exclusions (quota_report.truncate report) (Some (current_account report)))
        (own_intervals (current_account report) ?s)"
    unfolding quota_statistics_direct by blast
  have tracked: "vr_tracking ?r \<noteq> None" and consistent: "list_all consistent (vr_cycles ?r)"
    using assms(1,2) by (auto simp: group_report_def list_all_iff)
  note parts = tracked_parts [OF consistent tracked refl, of _ native requests False "Some (hg_start g)" ?a]
  note summary = tracked_summary [OF parts(2) tracked, unfolded current_account_group, of ?scoped False]
  have own: "own_intervals (current_account report) ?s = map (interval_of (current_account report)) ?parts"
    by (rule summary(1)) simp
  have cs: "map iv_cycle (own_intervals (current_account report) ?s) = ?parts" unfolding own by (simp add: comp_def)
  have sorted: "\<forall>c \<in> set ?parts. sorted (map fst (y_endpoints c))" using parts(1) by blast
  have rows: "charted_rows = chart_rows x (hg_rows g) (new_chart (all_events (cc_forward x) ?parts))"
    unfolding x(5) cs quota_value_rows_def x(1) ..
  have "charted_rows \<noteq> []" unfolding rows row_exists by (rule assms(3))
  from last_map_eq [OF chart_rows_direct(1) [OF new_chart_ready assms(4) sorted, of x] this [unfolded rows]]
  have final: "vw_row (last charted_rows) = ?row" "vw_cost (last charted_rows) = direct_cost x ?parts ?row"
    "vw_delta (last charted_rows) = direct_delta x ?parts ?row" unfolding rows by simp_all
  have sum: "charted_sum True ?parts ?a = (sum_list (known_costs (map y_cost ?parts)), sum_list (map (\<lambda>c. max 0 (y_delta c)) ?parts),
      int (length (known_costs (map y_cost ?parts))))"
    by (rule charted_sum_end, rule charted_end) (use parts(1) in blast)+
  show "vw_row (last charted_rows) = ?row" by (rule final)
  have "pd_delta p = sum_list (map (\<lambda>c. max 0 (y_delta c)) ?parts)"
    unfolding x(6) value_period_def period.simps by (rule summary(2)) simp
  then show "vw_delta (last charted_rows) = pd_delta p"
    unfolding final direct_delta_def using x(2) sum by simp
  assume plain: "hr_reset_kind ?row = []" "hr_account ?row = current_account report" "pd_intervals p \<noteq> []"
  then have nonempty: "?parts \<noteq> []" unfolding x(6) value_period_def period.simps own by simp
  have "st_total ?s = length ?parts" by (rule summary(4)) simp
  then have "pd_cost p = st_cost ?s" using nonempty unfolding x(6) value_period_def period.simps by simp
  also have "\<dots> = (if known_costs (map y_cost ?parts) = [] then None else Some (sum_list (known_costs (map y_cost ?parts))))"
    by (rule summary(3)) (use nonempty in simp_all)
  finally have cost: "pd_cost p = (if known_costs (map y_cost ?parts) = [] then None else Some (sum_list (known_costs (map y_cost ?parts))))" .
  have "\<not> cc_no_intervals x" unfolding x(4) own using nonempty by simp
  then show "vw_cost (last charted_rows) = map_option (max 0) (pd_cost p)"
    unfolding final direct_cost_def cost using x(2,3) plain(1,2) sum
    by (simp add: row_cost_of_def chart_with_def Let_def)
qed

section \<open>Groups of rows\<close>

lemma group_rows_concat: "concat (map hg_rows (group_rows g rows)) = (case g of None \<Rightarrow> [] | Some h \<Rightarrow> hg_rows h) @ rows"
  by (induction g rows rule: group_rows.induct) (auto split: option.split)

definition group_ok :: "history_group \<Rightarrow> bool" where
  "group_ok h = (hg_rows h \<noteq> [] \<and> hg_start h = hr_at (hd (hg_rows h)) \<and> hg_reset_kind h = hr_reset_kind (hd (hg_rows h)) \<and>
    hg_partial h = (hg_reset_kind h = []) \<and> list_all (\<lambda>r. hr_reset_kind r = []) (List.tl (hg_rows h)))"

lemma group_rows_ok: "(case g of None \<Rightarrow> True | Some h \<Rightarrow> group_ok h) \<Longrightarrow> list_all group_ok (group_rows g rows)"
  by (induction g rows rule: group_rows.induct) (auto simp: group_ok_def split: option.split)

lemma group_rows_resets:
  "\<exists>h hs. group_rows (Some g) rows = h # hs \<and> hg_start h = hg_start g \<and> list_all (\<lambda>h. hg_reset_kind h \<noteq> []) hs"
proof (induction rows arbitrary: g)
  case (Cons row rows)
  show ?case
  proof (cases "hr_reset_kind row = []")
    case True
    with Cons [of "g\<lparr>hg_rows := hg_rows g @ [row]\<rparr>"] show ?thesis by simp
  next
    case False
    let ?h = "\<lparr>hg_start = hr_at row, hg_reset_kind = hr_reset_kind row, hg_partial = (hr_reset_kind row = []), hg_rows = [row]\<rparr>"
    have kind: "group_rows (Some k) rows = h # hs \<Longrightarrow> hg_reset_kind h = hg_reset_kind k" for k h hs
      by (induction rows arbitrary: k) (auto split: if_splits)
    from Cons [of ?h] False kind [of ?h] show ?thesis by auto
  qed
qed simp

section \<open>Examples\<close>

definition sample_row :: "rat \<Rightarrow> string \<Rightarrow> history_row" where
  "sample_row a kind = \<lparr>hr_at = a, hr_account = ''a'', hr_reset_kind = kind, hr_measurement_reset = False\<rparr>"

definition sample_group :: history_group where
  "sample_group = \<lparr>hg_start = 0, hg_reset_kind = ''reset'', hg_partial = False,
     hg_rows = [sample_row 0 ''reset'', sample_row 12 [], sample_row 25 []]\<rparr>"

definition sample_context :: chart_context where
  "sample_context = \<lparr>cc_group = sample_group, cc_summary_cost = Some 2, cc_no_intervals = False, cc_ranges = [(0, 20)],
     cc_exclusions = [], cc_account = ''a'', cc_forward = True\<rparr>"

section \<open>Further properties\<close>

text \<open>
  Every value in the chart, also a held one, is the quotient of the confirmed cost and a positive confirmed
  consumption of its row.
\<close>

theorem chart_value_confirmed:
  assumes "r \<in> set (quota_value_rows x intervals)" and "vw_value r = Some v"
  shows "0 < vw_confirmed_delta r \<and> v = vw_confirmed_cost r / vw_confirmed_delta r * 100 \<and> 0 \<le> v"
  by (rule chart_rows_confirmed [OF _ assms(1) [unfolded quota_value_rows_def] assms(2)]) (simp add: confirmed_def new_chart_def)

theorem chart_value_confirmed_witness:
  "let r = last (quota_value_rows sample_context [sample_interval]) in vw_value r = Some 40 \<and> 0 < vw_confirmed_delta r"
proof -
  let ?r = "last (quota_value_rows sample_context [sample_interval])"
  have v: "vw_value ?r = Some 40" by code_simp
  have "?r \<in> set (quota_value_rows sample_context [sample_interval])"
    unfolding quota_value_rows_def by (rule last_in_set) (simp only: row_exists, simp add: sample_context_def sample_group_def)
  from chart_value_confirmed [OF this v] v show ?thesis by (simp add: Let_def)
qed

text \<open>
  Grouping loses, repeats and reorders no row, and a reset starts a new period.
\<close>

theorem rows_grouped_at_resets:
  "concat (map hg_rows (group_rows None rows)) = rows \<and>
    (\<forall>h \<in> set (group_rows None rows). hg_start h = hr_at (hd (hg_rows h)) \<and> list_all (\<lambda>r. hr_reset_kind r = []) (List.tl (hg_rows h)))"
  using group_rows_concat [of None rows] group_rows_ok [of None rows]
  by (auto simp: list_all_iff group_ok_def)

theorem rows_grouped_at_resets_witness:
  "concat (map hg_rows (group_rows None [sample_row 0 [], sample_row 5 ''reset'', sample_row 9 []])) =
    [sample_row 0 [], sample_row 5 ''reset'', sample_row 9 []]"
  using rows_grouped_at_resets [of "[sample_row 0 [], sample_row 5 ''reset'', sample_row 9 []]"] by blast

section \<open>Claims\<close>

text \<open>
  C5: The chart walks once over the sorted events of all intervals; every row shows the cost, the consumption
  and the value that a direct calculation from the intervals gives at the time of the row, with the last known
  value held where the row has none of its own.
\<close>

theorem chart_equals_direct:
  assumes "sorted (map hr_at (hg_rows (cc_group x)))" and "\<forall>c \<in> set intervals. sorted (map fst (y_endpoints c))"
  shows "map (\<lambda>r. (vw_row r, vw_cost r, vw_delta r, vw_value r)) (quota_value_rows x intervals) =
    map (\<lambda>i. let row = hg_rows (cc_group x) ! i
      in (row, direct_cost x intervals row, direct_delta x intervals row,
        if row_matches x row then latest None (map (direct_ratio x intervals) (take (Suc i) (hg_rows (cc_group x)))) else None))
      [0..<length (hg_rows (cc_group x))]"
proof (rule nth_equalityI)
  let ?rows = "hg_rows (cc_group x)"
  note direct = chart_rows_direct [where x = x and cs = intervals, OF new_chart_ready assms, folded quota_value_rows_def]
  have length: "length (quota_value_rows x intervals) = length ?rows"
    using arg_cong [OF direct(1), of length] by simp
  then show "length (map (\<lambda>r. (vw_row r, vw_cost r, vw_delta r, vw_value r)) (quota_value_rows x intervals)) =
    length (map (\<lambda>i. let row = ?rows ! i
      in (row, direct_cost x intervals row, direct_delta x intervals row,
        if row_matches x row then latest None (map (direct_ratio x intervals) (take (Suc i) ?rows)) else None)) [0..<length ?rows])"
    by simp
  fix i
  assume "i < length (map (\<lambda>r. (vw_row r, vw_cost r, vw_delta r, vw_value r)) (quota_value_rows x intervals))"
  then have i: "i < length ?rows" using length by simp
  have start: "ch_last_ratio (new_chart es) = None" for es by (simp add: new_chart_def)
  have "map (\<lambda>r. (vw_row r, vw_cost r, vw_delta r)) (quota_value_rows x intervals) ! i =
      map (\<lambda>row. (row, direct_cost x intervals row, direct_delta x intervals row)) ?rows ! i" unfolding direct(1) ..
  with direct(2) [OF i] i length show "map (\<lambda>r. (vw_row r, vw_cost r, vw_delta r, vw_value r)) (quota_value_rows x intervals) ! i =
    map (\<lambda>i. let row = ?rows ! i
      in (row, direct_cost x intervals row, direct_delta x intervals row,
        if row_matches x row then latest None (map (direct_ratio x intervals) (take (Suc i) ?rows)) else None)) [0..<length ?rows] ! i"
    by (simp add: Let_def start)
qed

theorem chart_equals_direct_witness:
  "map (\<lambda>r. (vw_row r, vw_cost r, vw_delta r, vw_value r)) (quota_value_rows sample_context [sample_interval]) =
    map (\<lambda>i. let row = hg_rows (cc_group sample_context) ! i
      in (row, direct_cost sample_context [sample_interval] row, direct_delta sample_context [sample_interval] row,
        if row_matches sample_context row then latest None (map (direct_ratio sample_context [sample_interval]) (take (Suc i) (hg_rows (cc_group sample_context)))) else None))
      [0..<length (hg_rows (cc_group sample_context))]"
  by (rule chart_equals_direct)
    (simp_all add: sample_context_def sample_group_def sample_row_def sample_interval_def sample_cycle_def)



end
