(* ===== verification/Control.thy ===== *)
theory Control
  imports Pybase
begin

text \<open>
  Small controllers with a lock or a clock: the exit decision of
  \<open>cachemonitor/shutdown_state.py\<close>, the polling schedule of
  \<open>cachemonitor/quota_polling.py\<close> and the failure protection of
  \<open>cachemonitor/proxy_supervisor.py\<close>. Every method runs under its object's lock, so a
  concurrent execution is a sequence of method calls.
\<close>

section \<open>Exit control\<close>

record exit_control =
  x_committed :: bool
  x_cancelled :: bool
  x_force_requested :: bool

definition exit_init :: exit_control where
  "exit_init = \<lparr>x_committed = False, x_cancelled = False, x_force_requested = False\<rparr>"

definition request_cancel :: "exit_control \<Rightarrow> bool \<times> exit_control" where
  "request_cancel x = (if x_committed x then (False, x) else (True, x\<lparr>x_cancelled := True\<rparr>))"

definition request_force :: "exit_control \<Rightarrow> bool \<times> exit_control" where
  "request_force x = (if x_cancelled x then (False, x) else (True, x\<lparr>x_force_requested := True\<rparr>))"

datatype exit_error = ExitCancelled | PersistFailed

definition checkpoint :: "exit_control \<Rightarrow> exit_error + unit" where
  "checkpoint x = (if x_cancelled x then Inl ExitCancelled else Inr ())"

text \<open>
  \<open>commit\<close>: the optional callback persists the decision; it is given by whether it
  returns (\<open>Some True\<close>) or raises (\<open>Some False\<close>). The result names the callback runs.
\<close>

definition commit :: "bool option \<Rightarrow> exit_control \<Rightarrow> (exit_error + unit) \<times> nat \<times> exit_control" where
  "commit callback x =
    (if x_cancelled x then (Inl ExitCancelled, 0, x)
     else if x_committed x then (Inr (), 0, x)
     else case callback of
       None \<Rightarrow> (Inr (), 0, x\<lparr>x_committed := True\<rparr>)
     | Some True \<Rightarrow> (Inr (), 1, x\<lparr>x_committed := True\<rparr>)
     | Some False \<Rightarrow> (Inl PersistFailed, 1, x))"

text \<open>Calls from the GUI thread and the shutdown worker, in any interleaving.\<close>

inductive exit_step :: "exit_control \<Rightarrow> exit_control \<Rightarrow> bool" where
  cancel: "request_cancel x = (r, y) \<Longrightarrow> exit_step x y"
| force: "request_force x = (r, y) \<Longrightarrow> exit_step x y"
| commit: "commit c x = (r, n, y) \<Longrightarrow> exit_step x y"

inductive exit_reachable :: "exit_control \<Rightarrow> bool" where
  start: "exit_reachable exit_init"
| step: "exit_reachable x \<Longrightarrow> exit_step x y \<Longrightarrow> exit_reachable y"

inductive_cases exit_stepE: "exit_step x y"

lemmas exit_defs = request_cancel_def request_force_def commit_def

lemma exit_step_effect:
  "exit_step x y \<Longrightarrow>
    (x_committed x \<longrightarrow> x_committed y) \<and> (x_cancelled x \<longrightarrow> x_cancelled y) \<and>
    (x_force_requested x \<longrightarrow> x_force_requested y) \<and>
    (x_committed y \<and> \<not> x_committed x \<longrightarrow> \<not> x_cancelled x \<and> \<not> x_cancelled y) \<and>
    (x_cancelled y \<and> \<not> x_cancelled x \<longrightarrow> \<not> x_committed x \<and> \<not> x_committed y)"
  by (erule exit_stepE) (auto simp: exit_defs split: if_splits option.splits bool.splits)

lemma exit_exclusive: "exit_reachable x \<Longrightarrow> \<not> (x_committed x \<and> x_cancelled x)"
proof (induction rule: exit_reachable.induct)
  case (step x y)
  then show ?case using exit_step_effect [of x y] by blast
qed (simp add: exit_init_def)

lemma commit_persists_once:
  assumes "commit c x = (r, n, y)" and "x_committed x"
  shows "n = 0"
  using assms by (auto simp: commit_def split: if_splits)

section \<open>Polling schedule\<close>

text \<open>\<open>float('-inf')\<close> is \<open>None\<close>; the two clocks (monotonic \<open>now\<close>, wall) are arguments.\<close>

definition ACTIVE :: rat where "ACTIVE = 15"
definition IDLE :: rat where "IDLE = 60"
definition MINIMUM :: rat where "MINIMUM = 5"
definition RETRIES :: "rat list" where "RETRIES = [15, 30, 60, 120, 300]"

record 'sig polling =
  p_next_read :: rat
  p_last_attempt :: "rat option"
  p_last_activity :: "rat option"
  p_signature :: "'sig option"
  p_failures :: nat
  p_last_wall :: "rat option"
  p_active :: bool

definition polling_init :: "'sig polling" where
  "polling_init = \<lparr>p_next_read = 0, p_last_attempt = None, p_last_activity = None,
     p_signature = None, p_failures = 0, p_last_wall = None, p_active = False\<rparr>"

definition tick :: "rat \<Rightarrow> rat \<Rightarrow> 'sig polling \<Rightarrow> bool \<times> 'sig polling" where
  "tick now wall p =
    (let resumed = (case p_last_wall p of None \<Rightarrow> False | Some w \<Rightarrow> wall - w > 120 \<or> wall < w - 1);
         q = p\<lparr>p_last_wall := Some wall\<rparr>
     in (resumed, if resumed then q\<lparr>p_next_read := now, p_failures := 0\<rparr> else q))"

definition activity :: "'sig option \<Rightarrow> bool \<Rightarrow> rat \<Rightarrow> 'sig polling \<Rightarrow> 'sig polling" where
  "activity sig active now p =
    (let changed = (sig \<noteq> p_signature p);
         q = p\<lparr>p_signature := sig, p_active := active,
               p_last_activity := (if changed then Some now else p_last_activity p)\<rparr>
     in if p_failures q = 0 \<and> (changed \<or> active)
        then let delay = (if changed then MINIMUM else ACTIVE);
                 earliest = (case p_last_attempt q of None \<Rightarrow> now | Some a \<Rightarrow> max now (a + delay))
             in q\<lparr>p_next_read := min (p_next_read q) earliest\<rparr>
        else q)"

definition ready :: "rat \<Rightarrow> 'sig polling \<Rightarrow> bool" where
  "ready now p = (now \<ge> p_next_read p)"

text \<open>
  \<open>resets\<close> are the reset times of the quota's windows (\<open>None\<close> and 0 are skipped); no quota
  or no wall clock is \<open>None\<close>.
\<close>

definition finish :: "rat \<Rightarrow> bool \<Rightarrow> (rat option list \<times> rat) option \<Rightarrow> 'sig polling \<Rightarrow> 'sig polling" where
  "finish now success quota p =
    (let failures = (if success then 0 else p_failures p + 1);
         delay =
          (if failures > 0 then RETRIES ! (min (failures - 1) (length RETRIES - 1))
           else
            (let d = (if p_active p \<or> (case p_last_activity p of None \<Rightarrow> False | Some a \<Rightarrow> now - a < 60)
                      then ACTIVE else IDLE)
             in case quota of None \<Rightarrow> d
                | Some (resets, wall) \<Rightarrow>
                   (let future = List.map_filter (\<lambda>r. case r of
                          Some t \<Rightarrow> if t \<noteq> 0 \<and> t > wall then Some (t - wall + 1) else None
                        | None \<Rightarrow> None) resets
                    in if future \<noteq> [] then max MINIMUM (min d (Min (set future))) else d)))
     in p\<lparr>p_last_attempt := Some now, p_failures := failures, p_next_read := now + delay\<rparr>)"

lemmas polling_defs = ACTIVE_def IDLE_def MINIMUM_def RETRIES_def

lemma retry_delay_cases:
  "RETRIES ! (min n (length RETRIES - 1)) = (if n = 0 then 15 else if n = 1 then 30 else if n = 2 then 60
     else if n = 3 then 120 else 300)"
proof -
  have "n = 0 \<or> n = 1 \<or> n = 2 \<or> n = 3 \<or> 4 \<le> n" by arith
  then show ?thesis by (auto simp: RETRIES_def min_def numeral_eq_Suc)
qed

lemma finish_failure_delay:
  assumes "\<not> success"
  shows "p_next_read (finish now success quota p) - now = RETRIES ! (min (p_failures p) (length RETRIES - 1))"
  using assms by (simp add: finish_def Let_def)

lemma clamp_delay: "d \<in> {ACTIVE, IDLE} \<Longrightarrow> 5 \<le> max MINIMUM (min d m) \<and> max MINIMUM (min d m) \<le> 60"
  by (auto simp: polling_defs max_def min_def)

lemma finish_success_delay:
  "\<exists>d m. d \<in> {ACTIVE, IDLE} \<and>
    p_next_read (finish now True quota p) - now \<in> {d, max MINIMUM (min d m)}"
proof -
  obtain d where d: "d = (if p_active p \<or> (case p_last_activity p of None \<Rightarrow> False | Some a \<Rightarrow> now - a < 60) then ACTIVE else IDLE)"
    by simp
  have "d \<in> {ACTIVE, IDLE}" by (simp add: d)
  moreover have "\<exists>m. p_next_read (finish now True quota p) - now \<in> {d, max MINIMUM (min d m)}"
    by (cases quota) (auto simp: finish_def Let_def d split: prod.split)
  ultimately show ?thesis by blast
qed

lemma finish_bounds:
  "now + 5 \<le> p_next_read (finish now success quota p) \<and>
   p_next_read (finish now success quota p) \<le> now + (if success then 60 else 300)"
proof (cases success)
  case True
  obtain d m where d: "d \<in> {ACTIVE, IDLE}"
    and n: "p_next_read (finish now True quota p) - now \<in> {d, max MINIMUM (min d m)}"
    using finish_success_delay by blast
  from d have "5 \<le> d \<and> d \<le> 60" by (auto simp: polling_defs)
  with n clamp_delay [OF d, of m] True show ?thesis by auto
next
  case False
  then show ?thesis
    using finish_failure_delay [OF False, of now quota p] unfolding retry_delay_cases
    by (auto split: if_splits)
qed

lemma finish_last_attempt [simp]: "p_last_attempt (finish now success quota p) = Some now"
  by (simp add: finish_def Let_def)

text \<open>
  The request interval promised by the module: between a finished attempt and the next
  moment a read is ready there are at least \<open>MINIMUM\<close> seconds, unless the clock jumped
  (\<open>tick\<close> reports a resume). The invariant below is kept by every method but a resume.
\<close>

definition spaced :: "'sig polling \<Rightarrow> bool" where
  "spaced p = (case p_last_attempt p of None \<Rightarrow> True | Some a \<Rightarrow> a + MINIMUM \<le> p_next_read p)"

lemma spaced_init: "spaced polling_init"
  by (simp add: spaced_def polling_init_def)

lemma spaced_activity: "spaced p \<Longrightarrow> spaced (activity sig active now p)"
  by (cases "p_last_attempt p") (auto simp: spaced_def activity_def Let_def polling_defs)

lemma spaced_finish: "spaced (finish now success quota p)"
  using finish_bounds [of now success quota p]
  by (simp add: spaced_def MINIMUM_def)

lemma spaced_tick: "spaced p \<Longrightarrow> tick now wall p = (False, q) \<Longrightarrow> spaced q"
  by (cases "p_last_attempt p") (auto simp: spaced_def tick_def Let_def)

text \<open>While failures last, activity cannot pull the next read forward (back-off is kept).\<close>

lemma activity_keeps_backoff:
  "p_failures p > 0 \<Longrightarrow> p_next_read (activity sig active now p) = p_next_read p"
  by (simp add: activity_def Let_def)

datatype 'sig poll_event = Tick rat rat | Activity "'sig option" bool rat | Finish rat bool "(rat option list \<times> rat) option"

fun poll_step :: "'sig polling \<Rightarrow> 'sig poll_event \<Rightarrow> 'sig polling" where
  "poll_step p (Tick now wall) = snd (tick now wall p)"
| "poll_step p (Activity s a now) = activity s a now p"
| "poll_step p (Finish now ok quota) = finish now ok quota p"

fun poll_run :: "'sig polling \<Rightarrow> 'sig poll_event list \<Rightarrow> 'sig polling" where
  "poll_run p [] = p"
| "poll_run p (e # es) = poll_run (poll_step p e) es"

text \<open>No event of the run reports a resume.\<close>

fun steady :: "'sig polling \<Rightarrow> 'sig poll_event list \<Rightarrow> bool" where
  "steady p [] = True"
| "steady p (e # es) = ((case e of Tick now wall \<Rightarrow> \<not> fst (tick now wall p) | _ \<Rightarrow> True) \<and> steady (poll_step p e) es)"

lemma spaced_step:
  "spaced p \<Longrightarrow> (case e of Tick now wall \<Rightarrow> \<not> fst (tick now wall p) | _ \<Rightarrow> True) \<Longrightarrow> spaced (poll_step p e)"
  by (cases e) (auto intro: spaced_activity spaced_finish spaced_tick [OF _ prod_eqI])

lemma spaced_run: "spaced p \<Longrightarrow> steady p es \<Longrightarrow> spaced (poll_run p es)"
proof (induction es arbitrary: p)
  case (Cons e es)
  then have "spaced (poll_step p e)" by (intro spaced_step) auto
  with Cons show ?case by simp
qed simp

section \<open>Failure protection\<close>

datatype probe = Refused | Identity_mismatch | Healthy | Other_probe
datatype problem = P_refused | P_identity | P_storage | P_internal | P_exit

record health =
  hl_storage_streak :: int
  hl_internal_streak :: int

record protection =
  pr_problem :: "problem option"
  pr_last :: rat
  pr_count :: nat

definition protection_init :: protection where
  "protection_init = \<lparr>pr_problem = None, pr_last = 0, pr_count = 0\<rparr>"

definition problem_of :: "health option \<Rightarrow> probe \<Rightarrow> problem option" where
  "problem_of h probe =
    (let p0 = (case probe of Refused \<Rightarrow> Some P_refused | Identity_mismatch \<Rightarrow> Some P_identity | _ \<Rightarrow> None);
         p1 = (case h of Some v \<Rightarrow> if hl_storage_streak v \<ge> 3 then Some P_storage else p0 | None \<Rightarrow> p0)
     in case h of Some v \<Rightarrow> if hl_internal_streak v \<ge> 3 then Some P_internal else p1 | None \<Rightarrow> p1)"

text \<open>\<open>observe\<close>: the returned reason (here the problem it words) is given only on a trip.\<close>

definition protect :: "rat \<Rightarrow> health option \<Rightarrow> probe \<Rightarrow> bool \<Rightarrow> protection \<Rightarrow> problem option \<times> protection" where
  "protect now h probe exited s =
    (if exited then (Some P_exit, s\<lparr>pr_problem := Some P_exit\<rparr>)
     else case problem_of h probe of
       None \<Rightarrow> (None, s\<lparr>pr_problem := None, pr_count := 0\<rparr>)
     | Some p \<Rightarrow>
        if Some p \<noteq> pr_problem s then (None, s\<lparr>pr_problem := Some p, pr_count := 1, pr_last := now\<rparr>)
        else if now - pr_last s < 5 then (None, s)
        else (let t = s\<lparr>pr_last := now, pr_count := pr_count s + 1\<rparr>
              in if pr_count t < 3 then (None, t) else (Some p, t)))"

text \<open>
  \<open>streak ts p s\<close>: \<open>s\<close> counts observations of \<open>p\<close> at the times \<open>ts\<close> (newest first), each at
  least five seconds after the one before.
\<close>

definition streak_times :: "rat list \<Rightarrow> bool" where
  "streak_times ts = sorted_wrt (\<lambda>a b. b + 5 \<le> a) ts"

definition streak :: "rat list \<Rightarrow> problem \<Rightarrow> protection \<Rightarrow> bool" where
  "streak ts p s = (pr_problem s = Some p \<and> pr_count s = length ts \<and> ts \<noteq> [] \<and> hd ts = pr_last s \<and> streak_times ts)"

lemma protect_trip_needs_repetition:
  assumes trip: "protect now h probe False s = (Some p, t)" and st: "streak ts q s"
  shows "p = q \<and> streak (now # ts) p t \<and> 3 \<le> length (now # ts) \<and> problem_of h probe = Some p"
proof -
  from trip st have p: "problem_of h probe = Some p" "p = q" and gap: "pr_last s + 5 \<le> now"
    and t: "t = s\<lparr>pr_last := now, pr_count := pr_count s + 1\<rparr>" "3 \<le> pr_count s + 1"
    by (auto simp: protect_def streak_def Let_def split: if_splits option.splits)
  from st have ts: "ts \<noteq> []" "hd ts = pr_last s" "streak_times ts" "pr_count s = length ts" "pr_problem s = Some q"
    by (simp_all add: streak_def)
  have "\<forall>b \<in> set ts. b + 5 \<le> now"
  proof
    fix b assume "b \<in> set ts"
    with ts(1-3) have "b \<le> pr_last s"
      by (cases ts) (auto simp: streak_times_def)
    with gap show "b + 5 \<le> now" by simp
  qed
  with ts p t show ?thesis by (simp add: streak_def streak_times_def)
qed

lemma protect_streak_kept:
  assumes run: "protect now h probe False s = (None, t)" and st: "streak ts q s" and p: "problem_of h probe = Some p"
  shows "\<exists>us. streak us p t \<and> (us = ts \<and> p = q \<or> us = now # ts \<and> p = q \<or> us = [now])"
proof (cases "p = q")
  case False
  with run st p have "t = s\<lparr>pr_problem := Some p, pr_count := 1, pr_last := now\<rparr>"
    by (simp add: protect_def streak_def)
  then have "streak [now] p t" by (simp add: streak_def streak_times_def)
  then show ?thesis by blast
next
  case True
  show ?thesis
  proof (cases "now - pr_last s < 5")
    case early: True
    with run st p True have "t = s" by (simp add: protect_def streak_def)
    with st True show ?thesis by blast
  next
    case False
    then have gap: "pr_last s + 5 \<le> now" by simp
    from False run st p True have t: "t = s\<lparr>pr_last := now, pr_count := pr_count s + 1\<rparr>"
      by (auto simp: protect_def streak_def Let_def split: if_splits)
    from st have ts: "ts \<noteq> []" "hd ts = pr_last s" "streak_times ts" by (simp_all add: streak_def)
    have "\<forall>b \<in> set ts. b + 5 \<le> now"
      using ts gap by (cases ts) (auto simp: streak_times_def)
    with t st True ts have "streak (now # ts) p t" by (simp add: streak_def streak_times_def)
    with True show ?thesis by blast
  qed
qed

section \<open>Further properties\<close>

text \<open>
  In every interleaving of cancellation, forced exit and commit, an exit is never both committed and
  cancelled, and a commit after the decision runs the persistence callback no more.
\<close>

theorem exit_decided_once:
  assumes "exit_reachable x"
  shows "\<not> (x_committed x \<and> x_cancelled x) \<and>
    (x_committed x \<longrightarrow> fst (request_cancel x) = False \<and> fst (snd (commit c x)) = 0) \<and>
    (x_cancelled x \<longrightarrow> fst (commit c x) = Inl ExitCancelled)"
  using exit_exclusive [OF assms] by (auto simp: request_cancel_def commit_def)

theorem exit_decided_once_witness:
  "exit_reachable \<lparr>x_committed = True, x_cancelled = False, x_force_requested = False\<rparr> \<and>
   fst (request_cancel \<lparr>x_committed = True, x_cancelled = False, x_force_requested = False\<rparr>) = False"
proof -
  have "commit (Some True) exit_init = (Inr (), 1, \<lparr>x_committed = True, x_cancelled = False, x_force_requested = False\<rparr>)"
    by (simp add: commit_def exit_init_def)
  then have r: "exit_reachable \<lparr>x_committed = True, x_cancelled = False, x_force_requested = False\<rparr>"
    by (rule exit_reachable.step [OF exit_reachable.start exit_step.commit])
  show ?thesis using exit_decided_once [OF r, of None] r by simp
qed

text \<open>
  The next quota read is due 5 to 60 seconds after a success and at most 300 after a failure, and without a
  clock jump no run of ticks, activity and finished reads brings a read closer than the minimum interval to
  the last attempt.
\<close>

theorem poll_interval_kept:
  assumes "steady polling_init es"
  shows "spaced (poll_run polling_init es) \<and>
    now + 5 \<le> p_next_read (finish now success quota (poll_run polling_init es)) \<and>
    p_next_read (finish now success quota (poll_run polling_init es)) \<le> now + (if success then 60 else 300)"
  using spaced_run [OF spaced_init assms] finish_bounds [of now success quota "poll_run polling_init es"] by blast

theorem poll_interval_kept_witness:
  "spaced (poll_run polling_init [Tick 0 100, Finish 0 True None, Activity (Some (1::nat)) True 3])"
  using poll_interval_kept [of "[Tick 0 100, Finish 0 True None, Activity (Some (1::nat)) True 3]" 0 True None]
  by (simp add: tick_def polling_init_def Let_def)

text \<open>
  Protection trips only on repetition: at the trip the same problem has been seen at three or more readings of
  the clock, each at least five seconds after the one before, and it is seen now.
\<close>

theorem protection_needs_repetition:
  assumes "protect now h probe False s = (Some p, t)" "streak ts q s"
  shows "p = q \<and> streak_times (now # ts) \<and> 3 \<le> length (now # ts) \<and> problem_of h probe = Some p"
  using protect_trip_needs_repetition [OF assms] unfolding streak_def by blast

theorem protection_needs_repetition_witness:
  "problem_of None Refused = Some P_refused"
proof -
  have "protect 20 None Refused False \<lparr>pr_problem = Some P_refused, pr_last = 10, pr_count = 2\<rparr> =
      (Some P_refused, \<lparr>pr_problem = Some P_refused, pr_last = 20, pr_count = 3\<rparr>)"
    by (simp add: protect_def problem_of_def Let_def)
  moreover have "streak [10, 0] P_refused \<lparr>pr_problem = Some P_refused, pr_last = 10, pr_count = 2\<rparr>"
    by (simp add: streak_def streak_times_def)
  ultimately show ?thesis using protection_needs_repetition by blast
qed


end
