(* ===== verification/Evidence.thy ===== *)
theory Evidence
  imports Complex_Main
begin

text \<open>
  The hand-over of observations to the storage thread: \<open>cachemonitor/evidence_writer.py\<close>.
  The relay's event loop calls \<open>write\<close>, \<open>prepare\<close>, \<open>close\<close> and \<open>status\<close>; the storage thread
  runs its loop, cut here into the steps between which the event loop may run. The store
  itself is SQLite: every call of it may fail. An observation is identified by a number
  and carries the time it was made. The queue's capacity is positive (it is 1024 by
  default; Python's queues take 0 as unbounded).
\<close>

section \<open>State\<close>

record evidence =
  ev_id :: nat
  ev_ts :: rat

datatype item = Record evidence | Preparation | Stop

type_synonym gap = "rat \<times> rat"

text \<open>What the thread goes on with after the pending gap is stored.\<close>

datatype after = Then_write evidence | Then_loop | Then_end

datatype place = At_loop | Have item | Flush after gap | Clear after gap | Write evidence | Done

record writer =
  ew_capacity :: nat
  ew_queue :: "item list"
  ew_gap :: "gap option"
  ew_errors :: nat
  ew_dropped :: nat
  ew_written :: nat
  ew_streak :: nat
  ew_preparing :: nat
  ew_closed :: bool
  ew_stopping :: bool
  ew_open :: bool
  ew_place :: place
  ew_offered :: "evidence list"    \<comment> \<open>all observations given to \<open>write\<close>\<close>
  ew_stored :: "evidence list"
  ew_gaps :: "gap list"            \<comment> \<open>gaps in the store\<close>

definition new_writer :: "nat \<Rightarrow> writer" where
  "new_writer capacity = \<lparr>ew_capacity = capacity, ew_queue = [], ew_gap = None, ew_errors = 0, ew_dropped = 0,
     ew_written = 0, ew_streak = 0, ew_preparing = 0, ew_closed = False, ew_stopping = False, ew_open = False,
     ew_place = At_loop, ew_offered = [], ew_stored = [], ew_gaps = []\<rparr>"

section \<open>The event loop's side\<close>

definition lost :: "rat \<Rightarrow> evidence \<Rightarrow> writer \<Rightarrow> writer" where
  "lost now r s = s\<lparr>ew_gap := Some (case ew_gap s of None \<Rightarrow> (ev_ts r, now)
       | Some (lo, hi) \<Rightarrow> (min (ev_ts r) lo, max now hi)), ew_dropped := ew_dropped s + 1\<rparr>"

definition has_room :: "writer \<Rightarrow> bool" where
  "has_room s = (length (ew_queue s) < ew_capacity s)"

definition write_evidence :: "rat \<Rightarrow> evidence \<Rightarrow> writer \<Rightarrow> bool \<times> writer" where
  "write_evidence now r s0 =
    (let s = s0\<lparr>ew_offered := ew_offered s0 @ [r]\<rparr>
     in if ew_closed s \<or> \<not> has_room s then (False, lost now r s)
        else (True, s\<lparr>ew_queue := ew_queue s @ [Record r]\<rparr>))"

datatype prepare_result = Queued | Closed_error | Not_started

definition prepare_storage :: "writer \<Rightarrow> prepare_result \<times> writer" where
  "prepare_storage s =
    (if ew_closed s then (Closed_error, s)
     else if has_room s then (Queued, s\<lparr>ew_queue := ew_queue s @ [Preparation], ew_preparing := ew_preparing s + 1\<rparr>)
     else (Not_started, s\<lparr>ew_errors := ew_errors s + 1, ew_streak := ew_streak s + 1\<rparr>))"

definition close_writer :: "writer \<Rightarrow> writer" where
  "close_writer s =
    (if ew_closed s then s
     else s\<lparr>ew_closed := True, ew_stopping := True,
            ew_queue := (if has_room s then ew_queue s @ [Stop] else ew_queue s)\<rparr>)"

text \<open>The result of \<open>close\<close> once the thread was joined.\<close>

definition closed_cleanly :: "writer \<Rightarrow> bool" where
  "closed_cleanly s = (ew_place s = Done \<and> ew_gap s = None)"

section \<open>The storage thread\<close>

definition go_on :: "after \<Rightarrow> writer \<Rightarrow> writer" where
  "go_on k s = s\<lparr>ew_place := (case k of Then_write r \<Rightarrow> Write r | Then_loop \<Rightarrow> At_loop | Then_end \<Rightarrow> Done)\<rparr>"

definition begin_flush :: "after \<Rightarrow> writer \<Rightarrow> writer" where
  "begin_flush k s = (case ew_gap s of None \<Rightarrow> go_on k s | Some g \<Rightarrow> s\<lparr>ew_place := Flush k g\<rparr>)"

definition failed :: "rat \<Rightarrow> evidence \<Rightarrow> writer \<Rightarrow> writer" where
  "failed now r s = (lost now r (s\<lparr>ew_errors := ew_errors s + 1, ew_streak := ew_streak s + 1\<rparr>))\<lparr>ew_place := At_loop\<rparr>"

text \<open>
  One step; \<open>ok\<close> says whether the call of the store in it succeeds. At the head of the loop
  an empty queue blocks the thread, except that a pending gap wakes it after a second.
\<close>

definition thread_step :: "bool \<Rightarrow> rat \<Rightarrow> writer \<Rightarrow> writer" where
  "thread_step ok now s = (case ew_place s of
      At_loop \<Rightarrow>
        (case ew_queue s of
           x # q \<Rightarrow> s\<lparr>ew_queue := q, ew_place := Have x\<rparr>
         | [] \<Rightarrow>
            if ew_stopping s then (if ew_open s then begin_flush Then_end s else s\<lparr>ew_place := Done\<rparr>)
            else if ew_open s \<and> ew_gap s \<noteq> None then begin_flush Then_loop s else s)
    | Have Stop \<Rightarrow> s\<lparr>ew_place := At_loop\<rparr>
    | Have Preparation \<Rightarrow>
        (if ew_open s \<or> ok then s\<lparr>ew_open := True, ew_preparing := ew_preparing s - 1, ew_place := At_loop\<rparr>
         else s\<lparr>ew_errors := ew_errors s + 1, ew_streak := ew_streak s + 1, ew_preparing := ew_preparing s - 1,
                ew_place := At_loop\<rparr>)
    | Have (Record r) \<Rightarrow> if ew_open s \<or> ok then begin_flush (Then_write r) (s\<lparr>ew_open := True\<rparr>) else failed now r s
    | Flush k g \<Rightarrow>
        (if ok then s\<lparr>ew_gaps := ew_gaps s @ [g], ew_place := Clear k g\<rparr>
         else case k of Then_write r \<Rightarrow> failed now r s
            | Then_loop \<Rightarrow> s\<lparr>ew_place := At_loop\<rparr>
            | Then_end \<Rightarrow> s\<lparr>ew_errors := ew_errors s + 1, ew_place := Done\<rparr>)
    | Clear k g \<Rightarrow> go_on k (if ew_gap s = Some g then s\<lparr>ew_gap := None\<rparr> else s)
    | Write r \<Rightarrow>
        (if ok then s\<lparr>ew_stored := ew_stored s @ [r], ew_written := ew_written s + 1, ew_streak := 0, ew_place := At_loop\<rparr>
         else failed now r s)
    | Done \<Rightarrow> s)"

section \<open>Executions\<close>

text \<open>An observation is written after it was made.\<close>

inductive ew_step :: "writer \<Rightarrow> writer \<Rightarrow> bool" where
  offer: "ev_ts r \<le> now \<Longrightarrow> write_evidence now r s = (ok, t) \<Longrightarrow> ew_step s t"
| prepares: "prepare_storage s = (res, t) \<Longrightarrow> ew_step s t"
| closes: "ew_step s (close_writer s)"
| runs: "list_all (\<lambda>r. ev_ts r \<le> now) (ew_offered s) \<Longrightarrow> ew_step s (thread_step ok now s)"

inductive ew_reachable :: "nat \<Rightarrow> writer \<Rightarrow> bool" for capacity where
  start: "ew_reachable capacity (new_writer capacity)"
| step: "ew_reachable capacity s \<Longrightarrow> ew_step s t \<Longrightarrow> ew_reachable capacity t"

inductive_cases ew_stepE: "ew_step s t"

definition in_gap :: "evidence \<Rightarrow> gap \<Rightarrow> bool" where
  "in_gap r g = (fst g \<le> ev_ts r \<and> ev_ts r \<le> snd g)"

fun in_hand :: "place \<Rightarrow> evidence list" where
  "in_hand (Have (Record r)) = [r]"
| "in_hand (Flush (Then_write r) g) = [r]"
| "in_hand (Clear (Then_write r) g) = [r]"
| "in_hand (Write r) = [r]"
| "in_hand _ = []"

fun records :: "item list \<Rightarrow> evidence list" where
  "records [] = []"
| "records (Record r # q) = r # records q"
| "records (_ # q) = records q"

definition accounted :: "writer \<Rightarrow> evidence \<Rightarrow> bool" where
  "accounted s r = (r \<in> set (ew_stored s) \<or> r \<in> set (records (ew_queue s)) \<or> r \<in> set (in_hand (ew_place s)) \<or>
     list_ex (in_gap r) (ew_gaps s) \<or> (case ew_gap s of None \<Rightarrow> False | Some g \<Rightarrow> in_gap r g))"

definition ending :: "writer \<Rightarrow> bool" where
  "ending s = (ew_stopping s \<and> records (ew_queue s) = [])"

fun gap_kept :: "writer \<Rightarrow> place \<Rightarrow> bool" where
  "gap_kept s (Clear k g) = (g \<in> set (ew_gaps s) \<and> (k = Then_end \<longrightarrow> ending s))"
| "gap_kept s (Flush k g) = (k = Then_end \<longrightarrow> ending s)"
| "gap_kept s _ = True"

definition writer_ok :: "writer \<Rightarrow> bool" where
  "writer_ok s = (list_all (accounted s) (ew_offered s) \<and>
     set (records (ew_queue s)) \<subseteq> set (ew_offered s) \<and> set (in_hand (ew_place s)) \<subseteq> set (ew_offered s) \<and>
     gap_kept s (ew_place s) \<and>
     length (ew_offered s) = ew_written s + ew_dropped s + length (records (ew_queue s)) + length (in_hand (ew_place s)) \<and>
     ew_written s = length (ew_stored s) \<and> (ew_stopping s \<longrightarrow> ew_closed s) \<and>
     (ew_place s = Done \<longrightarrow> ew_stopping s \<and> records (ew_queue s) = []) \<and>
     length (ew_queue s) \<le> ew_capacity s)"

lemma records_append [simp]: "records (p @ q) = records p @ records q"
  by (induction p rule: records.induct) auto

lemma lost_fields [simp]:
  "ew_queue (lost now r s) = ew_queue s" "ew_place (lost now r s) = ew_place s" "ew_offered (lost now r s) = ew_offered s"
  "ew_stored (lost now r s) = ew_stored s" "ew_gaps (lost now r s) = ew_gaps s" "ew_written (lost now r s) = ew_written s"
  "ew_dropped (lost now r s) = Suc (ew_dropped s)" "ew_closed (lost now r s) = ew_closed s"
  "ew_stopping (lost now r s) = ew_stopping s" "ew_capacity (lost now r s) = ew_capacity s" "ew_open (lost now r s) = ew_open s"
  by (simp_all add: lost_def)

lemma lost_gap:
  "\<exists>g. ew_gap (lost now r s) = Some g \<and> (ev_ts r \<le> now \<longrightarrow> in_gap r g) \<and>
    (\<forall>x. (case ew_gap s of None \<Rightarrow> False | Some h \<Rightarrow> in_gap x h) \<longrightarrow> in_gap x g)"
  by (auto simp: lost_def in_gap_def split: option.split prod.split)

lemma lost_accounted: "accounted s x \<Longrightarrow> accounted (lost now r s) x"
  using lost_gap [of now r s] by (auto simp: accounted_def)

lemma lost_accounts: "ev_ts r \<le> now \<Longrightarrow> accounted (lost now r s) r"
  using lost_gap [of now r s] by (auto simp: accounted_def)

lemma accounted_more:
  assumes "accounted s x"
    and "set (ew_stored s) \<subseteq> set (ew_stored t)" and "set (records (ew_queue s)) \<subseteq> set (records (ew_queue t)) \<union> set (in_hand (ew_place t)) \<union> set (ew_stored t)"
    and "set (in_hand (ew_place s)) \<subseteq> set (in_hand (ew_place t)) \<union> set (ew_stored t)" and "set (ew_gaps s) \<subseteq> set (ew_gaps t)"
    and "\<And>g. ew_gap s = Some g \<Longrightarrow> ew_gap t = Some g \<or> g \<in> set (ew_gaps t)"
  shows "accounted t x"
  using assms unfolding accounted_def list_ex_iff by (auto split: option.splits)

lemma in_hand_go [simp]: "in_hand (ew_place (go_on k s)) = (case k of Then_write r \<Rightarrow> [r] | _ \<Rightarrow> [])"
  by (cases k) (simp_all add: go_on_def)

lemma in_hand_flush [simp]: "in_hand (Flush k g) = (case k of Then_write r \<Rightarrow> [r] | _ \<Rightarrow> [])"
  by (cases k) simp_all

lemma in_hand_clear [simp]: "in_hand (Clear k g) = (case k of Then_write r \<Rightarrow> [r] | _ \<Rightarrow> [])"
  by (cases k) simp_all

lemma go_on_fields [simp]:
  "ew_queue (go_on k s) = ew_queue s" "ew_gap (go_on k s) = ew_gap s" "ew_offered (go_on k s) = ew_offered s"
  "ew_stored (go_on k s) = ew_stored s" "ew_gaps (go_on k s) = ew_gaps s" "ew_written (go_on k s) = ew_written s"
  "ew_dropped (go_on k s) = ew_dropped s" "ew_closed (go_on k s) = ew_closed s" "ew_stopping (go_on k s) = ew_stopping s"
  "ew_capacity (go_on k s) = ew_capacity s" "ew_open (go_on k s) = ew_open s"
  by (simp_all add: go_on_def)

lemma flush_fields [simp]:
  "ew_queue (begin_flush k s) = ew_queue s" "ew_gap (begin_flush k s) = ew_gap s" "ew_offered (begin_flush k s) = ew_offered s"
  "ew_stored (begin_flush k s) = ew_stored s" "ew_gaps (begin_flush k s) = ew_gaps s" "ew_written (begin_flush k s) = ew_written s"
  "ew_dropped (begin_flush k s) = ew_dropped s" "ew_closed (begin_flush k s) = ew_closed s"
  "ew_stopping (begin_flush k s) = ew_stopping s" "ew_capacity (begin_flush k s) = ew_capacity s" "ew_open (begin_flush k s) = ew_open s"
  "in_hand (ew_place (begin_flush k s)) = (case k of Then_write r \<Rightarrow> [r] | _ \<Rightarrow> [])"
  by (simp_all add: begin_flush_def split: option.split)

lemma go_on_place: "ew_place (go_on k s) = Done \<longleftrightarrow> k = Then_end"
  by (cases k) (simp_all add: go_on_def)

lemma flush_place: "ew_place (begin_flush k s) = Done \<Longrightarrow> k = Then_end"
  by (simp add: begin_flush_def go_on_place split: option.splits)

lemma gap_kept_go [simp]: "gap_kept s (ew_place (go_on k t))"
  by (cases k) (simp_all add: go_on_def)

lemma gap_kept_flush: "(k = Then_end \<longrightarrow> ending s) \<Longrightarrow> gap_kept s (ew_place (begin_flush k t))"
  by (simp add: begin_flush_def split: option.split)

text \<open>A step that keeps what the invariant counts.\<close>

lemma writer_ok_step:
  assumes s: "writer_ok s"
    and acc: "\<And>x. x \<in> set (ew_offered s) \<Longrightarrow> accounted s x \<Longrightarrow> accounted t x"
    and f: "ew_offered t = ew_offered s" "set (records (ew_queue t)) \<subseteq> set (ew_offered s)" "set (in_hand (ew_place t)) \<subseteq> set (ew_offered s)"
    and g: "gap_kept t (ew_place t)"
    and n: "ew_written t + ew_dropped t + length (records (ew_queue t)) + length (in_hand (ew_place t)) =
      ew_written s + ew_dropped s + length (records (ew_queue s)) + length (in_hand (ew_place s))"
    and w: "ew_written t = length (ew_stored t)" and c: "ew_stopping t \<longrightarrow> ew_closed t"
    and d: "ew_place t = Done \<longrightarrow> ew_stopping t \<and> records (ew_queue t) = []"
    and q: "length (ew_queue t) \<le> ew_capacity t"
  shows "writer_ok t"
  using assms unfolding writer_ok_def by (auto simp: list_all_iff)

lemma writer_okD:
  assumes "writer_ok s"
  shows "set (records (ew_queue s)) \<subseteq> set (ew_offered s)" "set (in_hand (ew_place s)) \<subseteq> set (ew_offered s)"
    "gap_kept s (ew_place s)" "ew_written s = length (ew_stored s)" "ew_stopping s \<longrightarrow> ew_closed s"
    "length (ew_queue s) \<le> ew_capacity s" "ew_place s = Done \<longrightarrow> ew_stopping s \<and> records (ew_queue s) = []"
  using assms by (auto simp: writer_ok_def)

lemma failed_fields [simp]:
  "ew_queue (failed now r s) = ew_queue s" "ew_place (failed now r s) = At_loop" "ew_offered (failed now r s) = ew_offered s"
  "ew_stored (failed now r s) = ew_stored s" "ew_gaps (failed now r s) = ew_gaps s" "ew_written (failed now r s) = ew_written s"
  "ew_dropped (failed now r s) = Suc (ew_dropped s)" "ew_closed (failed now r s) = ew_closed s"
  "ew_stopping (failed now r s) = ew_stopping s" "ew_capacity (failed now r s) = ew_capacity s"
  by (simp_all add: failed_def)

lemma failed_accounted:
  assumes "accounted s x" "in_hand (ew_place s) = [r]" "ev_ts r \<le> now"
  shows "accounted (failed now r s) x"
proof -
  let ?u = "s\<lparr>ew_errors := ew_errors s + 1, ew_streak := ew_streak s + 1, ew_place := At_loop\<rparr>"
  have e: "accounted (failed now r s) y = accounted (lost now r ?u) y" for y
    by (simp add: accounted_def failed_def lost_def)
  show ?thesis
  proof (cases "x = r")
    case True
    with lost_accounts [OF assms(3), of ?u] show ?thesis by (simp add: e)
  next
    case False
    with assms(1,2) have "accounted ?u x" by (auto simp: accounted_def)
    then show ?thesis by (simp add: e lost_accounted)
  qed
qed

lemma failed_ok:
  assumes s: "writer_ok s" and h: "in_hand (ew_place s) = [r]" and now: "list_all (\<lambda>r. ev_ts r \<le> now) (ew_offered s)"
  shows "writer_ok (failed now r s)"
proof (rule writer_ok_step [OF s])
  have "r \<in> set (ew_offered s)" using writer_okD(2) [OF s] h by simp
  with now have "ev_ts r \<le> now" by (simp add: list_all_iff)
  then show "accounted (failed now r s) x" if "accounted s x" for x using failed_accounted [OF that h] by blast
qed (use writer_okD [OF s] h in auto)

lemma gap_kept_other:
  assumes "writer_ok s" and "ew_gaps t = ew_gaps s" and "ending s \<longrightarrow> ending t"
  shows "gap_kept t (ew_place s)"
  using writer_okD(3) [OF assms(1)] assms(2,3) by (cases "ew_place s") auto

lemma offer_ok:
  assumes s: "writer_ok s" and ts: "ev_ts r \<le> now"
  shows "writer_ok (snd (write_evidence now r s))"
proof -
  let ?s = "s\<lparr>ew_offered := ew_offered s @ [r]\<rparr>"
  have keep: "accounted ?s x" if "accounted s x" for x using that by (simp add: accounted_def)
  note place = gap_kept_other [OF s]
  show ?thesis
  proof (cases "ew_closed s \<or> \<not> has_room s")
    case True
    have a: "accounted (lost now r ?s) x" if "x \<in> set (ew_offered s @ [r])" for x
      using that lost_accounts [OF ts, of ?s] lost_accounted [OF keep, of x now r] s
      by (auto simp: writer_ok_def list_all_iff)
    moreover have "snd (write_evidence now r s) = lost now r ?s"
      using True by (simp add: write_evidence_def Let_def has_room_def)
    ultimately show ?thesis using s place [of "lost now r ?s"]
      by (auto simp: writer_ok_def list_all_iff ending_def)
  next
    case False
    let ?t = "?s\<lparr>ew_queue := ew_queue s @ [Record r]\<rparr>"
    have a: "accounted ?t x" if "x \<in> set (ew_offered s @ [r])" for x
      using that s by (auto simp: writer_ok_def list_all_iff accounted_def)
    have "ew_place s \<noteq> Done" using False writer_okD(5,7) [OF s] by blast
    moreover have "snd (write_evidence now r s) = ?t"
      using False by (simp add: write_evidence_def Let_def has_room_def)
    ultimately show ?thesis using False s a place [of ?t] writer_okD(5) [OF s]
      by (auto simp: writer_ok_def list_all_iff has_room_def ending_def)
  qed
qed

lemma prepares_ok: "writer_ok s \<Longrightarrow> writer_ok (snd (prepare_storage s))"
proof -
  assume s: "writer_ok s"
  note place = gap_kept_other [OF s]
  show ?thesis
    by (rule writer_ok_step [OF s]) (use writer_okD [OF s] place in \<open>auto simp: prepare_storage_def accounted_def has_room_def ending_def\<close>)
qed

lemma closes_ok: "writer_ok s \<Longrightarrow> writer_ok (close_writer s)"
proof -
  assume s: "writer_ok s"
  note place = gap_kept_other [OF s]
  show ?thesis
    by (rule writer_ok_step [OF s]) (use writer_okD [OF s] place in \<open>auto simp: close_writer_def accounted_def has_room_def ending_def\<close>)
qed

lemma take_ok:
  assumes s: "writer_ok s" and p: "ew_place s = At_loop" and q: "ew_queue s = x # q"
  shows "writer_ok (s\<lparr>ew_queue := q, ew_place := Have x\<rparr>)"
proof (rule writer_ok_step [OF s])
  show "accounted (s\<lparr>ew_queue := q, ew_place := Have x\<rparr>) y" if "accounted s y" for y
    using that p q by (cases x) (auto simp: accounted_def)
qed (use writer_okD [OF s] p q in \<open>cases x; auto\<close>)+

lemma flush_ok:
  assumes s: "writer_ok s" and h: "in_hand (ew_place s) = (case k of Then_write r \<Rightarrow> [r] | _ \<Rightarrow> [])"
    and d: "k = Then_end \<Longrightarrow> ew_stopping s \<and> records (ew_queue s) = []"
  shows "writer_ok (begin_flush k s)"
proof (rule writer_ok_step [OF s])
  show "accounted (begin_flush k s) y" if "accounted s y" for y
    using that h by (simp add: accounted_def)
  show "set (in_hand (ew_place (begin_flush k s))) \<subseteq> set (ew_offered s)"
    using writer_okD(2) [OF s] h by simp
  show "gap_kept (begin_flush k s) (ew_place (begin_flush k s))"
    by (rule gap_kept_flush) (use d in \<open>simp add: ending_def\<close>)
  show "ew_place (begin_flush k s) = Done \<longrightarrow> ew_stopping (begin_flush k s) \<and> records (ew_queue (begin_flush k s)) = []"
    using d flush_place by auto
qed (use writer_okD [OF s] h in auto)

lemma thread_ok:
  assumes s: "writer_ok s" and now: "list_all (\<lambda>r. ev_ts r \<le> now) (ew_offered s)"
  shows "writer_ok (thread_step ok now s)"
proof (cases "ew_place s")
  case At_loop
  show ?thesis
  proof (cases "ew_queue s")
    case Nil
    have d: "writer_ok (s\<lparr>ew_place := Done\<rparr>)" if "ew_stopping s"
      by (rule writer_ok_step [OF s]) (use writer_okD [OF s] At_loop Nil that in \<open>auto simp: accounted_def\<close>)
    have "writer_ok (begin_flush k s)" if "k = Then_end \<and> ew_stopping s \<or> k = Then_loop" for k
      by (rule flush_ok [OF s]) (use that At_loop Nil in auto)
    with d s show ?thesis by (simp add: thread_step_def At_loop Nil)
  next
    case (Cons x q)
    with take_ok [OF s At_loop] show ?thesis by (simp add: thread_step_def At_loop)
  qed
next
  case (Have x)
  show ?thesis
  proof (cases x)
    case (Record r)
    have o: "writer_ok (s\<lparr>ew_open := True\<rparr>)"
      by (rule writer_ok_step [OF s]) (use writer_okD [OF s] Have Record in \<open>auto simp: accounted_def\<close>)
    have "writer_ok (begin_flush (Then_write r) (s\<lparr>ew_open := True\<rparr>))"
      by (rule flush_ok [OF o]) (use Have Record in auto)
    moreover have "writer_ok (failed now r s)"
      by (rule failed_ok [OF s _ now]) (use Have Record in simp)
    ultimately show ?thesis by (simp add: thread_step_def Have Record)
  next
    case Preparation
    show ?thesis
      by (rule writer_ok_step [OF s])
        (use writer_okD [OF s] Have Preparation in \<open>auto simp: accounted_def thread_step_def\<close>)
  next
    case Stop
    show ?thesis
      by (rule writer_ok_step [OF s])
        (use writer_okD [OF s] Have Stop in \<open>auto simp: accounted_def thread_step_def\<close>)
  qed
next
  case (Flush k g)
  have ok: "writer_ok (s\<lparr>ew_gaps := ew_gaps s @ [g], ew_place := Clear k g\<rparr>)"
    by (rule writer_ok_step [OF s]) (use writer_okD [OF s] Flush in \<open>auto simp: accounted_def ending_def\<close>)
  have "writer_ok (case k of Then_write r \<Rightarrow> failed now r s | Then_loop \<Rightarrow> s\<lparr>ew_place := At_loop\<rparr>
            | Then_end \<Rightarrow> s\<lparr>ew_errors := ew_errors s + 1, ew_place := Done\<rparr>)"
  proof (cases k)
    case (Then_write r)
    have "writer_ok (failed now r s)" by (rule failed_ok [OF s _ now]) (use Flush Then_write in simp)
    with Then_write show ?thesis by simp
  next
    case Then_loop
    show ?thesis
      by (rule writer_ok_step [OF s]) (use writer_okD [OF s] Flush Then_loop in \<open>auto simp: accounted_def\<close>)
  next
    case Then_end
    show ?thesis
      by (rule writer_ok_step [OF s]) (use writer_okD [OF s] Flush Then_end in \<open>auto simp: accounted_def ending_def\<close>)
  qed
  with ok show ?thesis by (simp add: thread_step_def Flush)
next
  case (Clear k g)
  let ?t = "go_on k (if ew_gap s = Some g then s\<lparr>ew_gap := None\<rparr> else s)"
  have g: "g \<in> set (ew_gaps s)" "k = Then_end \<longrightarrow> ending s" using writer_okD(3) [OF s] Clear by auto
  have "writer_ok ?t"
  proof (rule writer_ok_step [OF s])
    show "accounted ?t x" if "accounted s x" for x
      by (rule accounted_more [OF that]) (use g(1) Clear in \<open>auto split: after.splits\<close>)
  qed (use writer_okD [OF s] Clear g in \<open>auto simp: go_on_place ending_def split: after.splits\<close>)
  then show ?thesis by (simp add: thread_step_def Clear)
next
  case (Write r)
  have "writer_ok (s\<lparr>ew_stored := ew_stored s @ [r], ew_written := ew_written s + 1, ew_streak := 0, ew_place := At_loop\<rparr>)"
    by (rule writer_ok_step [OF s]) (use writer_okD [OF s] Write in \<open>auto simp: accounted_def\<close>)
  moreover have "writer_ok (failed now r s)" by (rule failed_ok [OF s _ now]) (use Write in simp)
  ultimately show ?thesis by (simp add: thread_step_def Write)
next
  case Done
  with s show ?thesis by (simp add: thread_step_def)
qed

lemma ew_step_ok: "ew_step s t \<Longrightarrow> writer_ok s \<Longrightarrow> writer_ok t"
proof (erule ew_stepE)
  fix r now ok assume "writer_ok s" "ev_ts r \<le> now" "write_evidence now r s = (ok, t)"
  then show "writer_ok t" using offer_ok [of s r now] by simp
next
  fix res assume "writer_ok s" "prepare_storage s = (res, t)"
  then show "writer_ok t" using prepares_ok [of s] by simp
qed (auto intro: closes_ok thread_ok)

lemma ew_reachable_ok: "ew_reachable capacity s \<Longrightarrow> writer_ok s"
proof (induction rule: ew_reachable.induct)
  case start
  show ?case by (simp add: writer_ok_def new_writer_def)
next
  case (step s t)
  then show ?case using ew_step_ok by blast
qed

section \<open>The thread ends\<close>

fun place_rank :: "place \<Rightarrow> nat" where
  "place_rank (Have x) = 9"
| "place_rank (Flush k g) = (if k = Then_end then 3 else 8)"
| "place_rank (Clear k g) = (if k = Then_end then 2 else 7)"
| "place_rank (Write r) = 6"
| "place_rank At_loop = 4"
| "place_rank Done = 0"

definition remaining_steps :: "writer \<Rightarrow> nat" where
  "remaining_steps s = 6 * length (ew_queue s) + place_rank (ew_place s)"

lemma go_on_rank: "place_rank (ew_place (go_on k s)) \<le> (if k = Then_end then 0 else 6)"
  by (cases k) (simp_all add: go_on_def)

lemma flush_rank: "place_rank (ew_place (begin_flush k s)) \<le> (if k = Then_end then 3 else 8)"
  using go_on_rank [of k s] by (cases "ew_gap s") (simp_all add: begin_flush_def split: if_splits)

lemma thread_step_progress:
  assumes "ew_stopping s" and "ew_place s \<noteq> Done"
  shows "remaining_steps (thread_step ok now s) < remaining_steps s"
proof (cases "ew_place s")
  case At_loop
  with assms flush_rank [of Then_end s] show ?thesis
    by (cases "ew_queue s") (auto simp: thread_step_def remaining_steps_def)
next
  case (Have x)
  have "place_rank (ew_place (begin_flush (Then_write r) (s\<lparr>ew_open := True\<rparr>))) < 9" for r
    using flush_rank [of "Then_write r" "s\<lparr>ew_open := True\<rparr>"] by simp
  with Have show ?thesis by (cases x) (auto simp: thread_step_def remaining_steps_def)
next
  case (Flush k g)
  then show ?thesis by (cases k) (auto simp: thread_step_def remaining_steps_def)
next
  case (Clear k g)
  then show ?thesis by (cases k) (auto simp: thread_step_def remaining_steps_def go_on_def)
qed (use assms in \<open>auto simp: thread_step_def remaining_steps_def\<close>)

fun run_thread :: "(bool \<times> rat) list \<Rightarrow> writer \<Rightarrow> writer" where
  "run_thread [] s = s"
| "run_thread ((ok, now) # es) s = run_thread es (thread_step ok now s)"

lemma thread_step_stopping [simp]: "ew_stopping (thread_step ok now s) = ew_stopping s"
  by (auto simp: thread_step_def split: place.split item.split after.split list.split)

lemma run_thread_done: "ew_place s = Done \<Longrightarrow> ew_place (run_thread es s) = Done"
  by (induction es s rule: run_thread.induct) (simp_all add: thread_step_def)

lemma run_thread_ends:
  "ew_stopping s \<Longrightarrow> remaining_steps s \<le> length es \<Longrightarrow> ew_place (run_thread es s) = Done"
proof (induction es s rule: run_thread.induct)
  case (1 s)
  then show ?case by (cases "ew_place s") (auto simp: remaining_steps_def split: if_splits)
next
  case (2 ok now es s)
  show ?case
  proof (cases "ew_place s = Done")
    case True
    then show ?thesis by (rule run_thread_done)
  next
    case False
    with thread_step_progress [OF 2(2), of ok now] 2 show ?thesis by simp
  qed
qed

section \<open>Examples\<close>

lemma thread_step_offered: "ew_offered (thread_step ok now s) = ew_offered s"
  by (auto simp: thread_step_def split: place.split item.split after.split list.split)

lemma run_thread_reachable:
  "ew_reachable c s \<Longrightarrow> list_all (\<lambda>(ok, now). list_all (\<lambda>r. ev_ts r \<le> now) (ew_offered s)) es \<Longrightarrow>
    ew_reachable c (run_thread es s)"
proof (induction es s rule: run_thread.induct)
  case (2 ok now es s)
  have "ew_reachable c (thread_step ok now s)"
    by (rule ew_reachable.step [OF 2(2)]) (use 2(3) in \<open>auto intro: ew_step.runs\<close>)
  moreover have "ew_offered (thread_step ok now s) = ew_offered s" by (rule thread_step_offered)
  ultimately show ?case using 2 by simp
qed simp

section \<open>Further properties\<close>

text \<open>
  Once close was called the storage thread ends within six steps for every queued item and nine more,
  whichever calls of the store fail.
\<close>

theorem storage_thread_ends:
  assumes "ew_stopping s" and "6 * length (ew_queue s) + 9 \<le> length outcomes"
  shows "ew_place (run_thread outcomes s) = Done"
proof (rule run_thread_ends [OF assms(1)])
  have "place_rank (ew_place s) \<le> 9" by (cases "ew_place s") auto
  with assms(2) show "remaining_steps s \<le> length outcomes" by (simp add: remaining_steps_def)
qed

theorem storage_thread_ends_witness:
  "ew_place (run_thread (replicate 21 (False, 3))
     (close_writer (snd (write_evidence 3 \<lparr>ev_id = 0, ev_ts = 1\<rparr> (new_writer 4))))) = Done"
  by (rule storage_thread_ends) code_simp+

section \<open>Claims\<close>

text \<open>
  C23: No observation handed to the storage thread disappears: at every moment of every interleaving, and
  whatever calls of the store fail, it is stored, in the queue, in the thread's hands, or its time lies in a
  gap that is stored or pending; and the counters add up to the number of observations.
\<close>

theorem observation_accounted:
  assumes "ew_reachable capacity s"
  shows "list_all (accounted s) (ew_offered s) \<and>
    length (ew_offered s) = ew_written s + ew_dropped s + length (records (ew_queue s)) + length (in_hand (ew_place s))"
  using ew_reachable_ok [OF assms] by (simp add: writer_ok_def)

theorem observation_accounted_witness:
  "\<exists>s. ew_reachable 1 s \<and> ew_dropped s = 1 \<and> list_all (accounted s) (ew_offered s) \<and> length (ew_offered s) = 2"
proof -
  let ?a = "\<lparr>ev_id = 0, ev_ts = 1\<rparr>" and ?b = "\<lparr>ev_id = 1, ev_ts = 2\<rparr>"
  let ?s = "snd (write_evidence 3 ?a (new_writer 1))"
  let ?t = "snd (write_evidence 3 ?b ?s)"
  have "ew_reachable 1 ?s"
    by (rule ew_reachable.step [OF ew_reachable.start ew_step.offer [OF _ prod.collapse [symmetric]]]) simp
  then have t: "ew_reachable 1 ?t"
    by (rule ew_reachable.step [OF _ ew_step.offer [OF _ prod.collapse [symmetric]]]) simp
  have "ew_dropped ?t = 1" "length (ew_offered ?t) = 2" by code_simp+
  with observation_accounted [OF t] t show ?thesis by blast
qed

text \<open>
  C24: When close reports success, every observation that was ever offered is in the store or lies in a gap
  that is in the store.
\<close>

theorem clean_close_complete:
  assumes "ew_reachable capacity s" and "closed_cleanly s" and "r \<in> set (ew_offered s)"
  shows "r \<in> set (ew_stored s) \<or> list_ex (in_gap r) (ew_gaps s)"
proof -
  from ew_reachable_ok [OF assms(1)] assms(3) have "accounted s r" "ew_place s = Done \<longrightarrow> records (ew_queue s) = []"
    by (auto simp: writer_ok_def list_all_iff)
  with assms(2) show ?thesis by (auto simp: closed_cleanly_def accounted_def)
qed

theorem clean_close_complete_witness:
  "\<exists>s r. ew_reachable 1 s \<and> closed_cleanly s \<and> r \<in> set (ew_offered s) \<and> r \<in> set (ew_stored s)"
proof -
  let ?a = "\<lparr>ev_id = 0, ev_ts = 1\<rparr>"
  let ?s = "close_writer (snd (write_evidence 3 ?a (new_writer 1)))"
  let ?t = "run_thread (replicate 4 (True, 3)) ?s"
  have "ew_reachable 1 (snd (write_evidence 3 ?a (new_writer 1)))"
    by (rule ew_reachable.step [OF ew_reachable.start ew_step.offer [OF _ prod.collapse [symmetric]]]) simp
  then have s: "ew_reachable 1 ?s" by (rule ew_reachable.step [OF _ ew_step.closes])
  have t: "ew_reachable 1 ?t" by (rule run_thread_reachable [OF s]) code_simp
  have c: "closed_cleanly ?t" by code_simp
  have o: "?a \<in> set (ew_offered ?t)" by code_simp
  from clean_close_complete [OF t c o] have "?a \<in> set (ew_stored ?t) \<or> list_ex (in_gap ?a) (ew_gaps ?t)" .
  moreover have "ew_gaps ?t = []" by code_simp
  ultimately show ?thesis using t c o by auto
qed

end
