(* ===== verification/History.thy ===== *)
theory History
  imports Bisect
begin

text \<open>
  Rows kept in compressed blocks: \<open>_PackedRows\<close> and \<open>_PackedHistory\<close> of
  \<open>cachemonitor/quota_cycles.py\<close>. A \<open>codec\<close> holds what the standard library does: \<open>dumped\<close> is
  \<open>zlib.compress(pickle.dumps(rows), 1)\<close>, \<open>loaded\<close> is its inverse, \<open>as_json\<close> the canonical text
  of a cut block and \<open>digest\<close> the hash over the header and the length-prefixed payloads. The first
  part models construction and reading, the second relates a packed object to the list it stands
  for, the third does so for the time-indexed history.
\<close>

section \<open>Model\<close>

record ('r, 'p, 'd) codec =
  dumped :: "'r list \<Rightarrow> 'p"
  loaded :: "'p \<Rightarrow> 'r list"
  compressed :: "'p \<Rightarrow> nat"
  values_of :: "'r \<Rightarrow> pyval list"
  at_of :: "'r \<Rightarrow> rat"
  as_json :: "'r list \<Rightarrow> 'p"
  digest :: "(nat \<times> nat) option \<times> 'p list \<Rightarrow> 'd"

record ('r, 'p) packed =
  pk_blocks :: "'p list"
  pk_ends :: "nat list"
  pk_times :: "rat list"
  pk_time_ends :: "rat list"
  pk_timestamped :: bool
  pk_count :: nat
  pk_cache :: "(nat \<times> 'r list) list"

fun text_weight :: "pyval \<Rightarrow> nat" where
  "text_weight (PStr s) = 4 * length s"
| "text_weight _ = 0"

definition packed_weight :: "('r, 'p, 'd) codec \<Rightarrow> 'r \<Rightarrow> nat" where
  "packed_weight c row = 512 + sum_list (map text_weight (values_of c row))"

definition last_or :: "'a \<Rightarrow> 'a list \<Rightarrow> 'a" where
  "last_or d xs = (if xs = [] then d else last xs)"

definition append_block :: "('r, 'p, 'd) codec \<Rightarrow> 'r list \<Rightarrow> ('r, 'p) packed \<Rightarrow> ('r, 'p) packed" where
  "append_block c rows p = p
    \<lparr>pk_blocks := pk_blocks p @ [dumped c rows],
     pk_ends := pk_ends p @ [last_or 0 (pk_ends p) + length rows],
     pk_time_ends := (if pk_timestamped p then pk_time_ends p @ [at_of c (last rows)] else pk_time_ends p)\<rparr>"

text \<open>The loop of \<open>_pack\<close>; the head of the list is the end of \<open>pending\<close>.\<close>

function pack_loop :: "('r, 'p, 'd) codec \<Rightarrow> 'r list list \<Rightarrow> ('r, 'p) packed \<Rightarrow> ('r, 'p) packed" where
  "pack_loop c [] p = p"
| "pack_loop c (rows # pending) p =
    (if compressed c (dumped c rows) > 64 * 1024 \<and> length rows > 1 then
       pack_loop c (take (length rows div 2) rows # drop (length rows div 2) rows # pending) p
     else pack_loop c pending (append_block c rows p))"
  by pat_completeness auto
termination
  by (relation "measures [\<lambda>(c, pending, p). sum_list (map (\<lambda>rows. 2 * length rows - 1) pending),
      \<lambda>(c, pending, p). length pending]") auto

declare pack_loop.simps(2) [simp del]

definition pack :: "('r, 'p, 'd) codec \<Rightarrow> 'r list \<Rightarrow> ('r, 'p) packed \<Rightarrow> ('r, 'p) packed" where
  "pack c batch p = pack_loop c [batch] p"

definition empty_packed :: "bool \<Rightarrow> ('r, 'p) packed" where
  "empty_packed timestamps = \<lparr>pk_blocks = [], pk_ends = [], pk_times = [], pk_time_ends = [],
     pk_timestamped = timestamps, pk_count = 0, pk_cache = []\<rparr>"

definition flush_batch :: "('r, 'p, 'd) codec \<Rightarrow> ('r, 'p) packed \<times> 'r list \<times> nat \<Rightarrow> ('r, 'p) packed \<times> 'r list \<times> nat" where
  "flush_batch c s = (case s of (p, batch, w) \<Rightarrow> (pack c batch p, [], 0))"

definition counted :: "('r, 'p, 'd) codec \<Rightarrow> 'r \<Rightarrow> ('r, 'p) packed \<Rightarrow> ('r, 'p) packed" where
  "counted c row p = p\<lparr>pk_count := pk_count p + 1,
     pk_times := (if pk_timestamped p \<and> (pk_times p = [] \<or> last (pk_times p) \<noteq> at_of c row)
       then pk_times p @ [at_of c row] else pk_times p)\<rparr>"

definition add_row ::
  "('r, 'p, 'd) codec \<Rightarrow> ('r, 'p) packed \<times> 'r list \<times> nat \<Rightarrow> 'r \<Rightarrow> ('r, 'p) packed \<times> 'r list \<times> nat" where
  "add_row c s row =
    (case (if fst (snd s) \<noteq> [] \<and> (512 \<le> length (fst (snd s)) \<or> snd (snd s) + packed_weight c row > 2 * 1024 * 1024)
           then flush_batch c s else s)
     of (p, batch, w) \<Rightarrow> (counted c row p, batch @ [row], w + packed_weight c row))"

definition packed :: "('r, 'p, 'd) codec \<Rightarrow> bool \<Rightarrow> 'r list \<Rightarrow> ('r, 'p) packed" where
  "packed c timestamps rows =
    (case foldl (add_row c) (empty_packed timestamps, [], 0) rows of
       (p, batch, w) \<Rightarrow> if batch \<noteq> [] then pack c batch p else p)"

definition rows_of :: "('r, 'p, 'd) codec \<Rightarrow> ('r, 'p) packed \<Rightarrow> 'r list" where
  "rows_of c p = concat (map (loaded c) (pk_blocks p))"

fun keep_two :: "'a list \<Rightarrow> 'a list" where
  "keep_two (x # y # z # r) = keep_two (y # z # r)"
| "keep_two xs = xs"

text \<open>\<open>_block\<close>: the two most recently used blocks stay decoded; \<open>None\<close> is the \<open>IndexError\<close>.\<close>

definition block ::
  "('r, 'p, 'd) codec \<Rightarrow> nat \<Rightarrow> ('r, 'p) packed \<Rightarrow> ('r list \<times> ('r, 'p) packed) option" where
  "block c b p =
    (case map_of (pk_cache p) b of
       Some rows \<Rightarrow> Some (rows, p\<lparr>pk_cache := keep_two (filter (\<lambda>e. fst e \<noteq> b) (pk_cache p) @ [(b, rows)])\<rparr>)
     | None \<Rightarrow>
         if b < length (pk_blocks p) then
           (let rows = loaded c (pk_blocks p ! b)
            in Some (rows, p\<lparr>pk_cache := keep_two (pk_cache p @ [(b, rows)])\<rparr>))
         else None)"

text \<open>A Python slice \<open>xs[lo:hi]\<close> whose bounds may be negative or too large.\<close>

definition clamp :: "nat \<Rightarrow> int \<Rightarrow> nat" where
  "clamp n i = nat (if i < 0 then max (i + int n) 0 else min i (int n))"

definition py_slice :: "'a list \<Rightarrow> int \<Rightarrow> int \<Rightarrow> 'a list" where
  "py_slice xs lo hi = drop (clamp (length xs) lo) (take (clamp (length xs) hi) xs)"

definition block_base :: "('r, 'p) packed \<Rightarrow> nat \<Rightarrow> nat" where
  "block_base p b = (if b \<noteq> 0 then pk_ends p ! (b - 1) else 0)"

definition cut :: "('r, 'p) packed \<Rightarrow> nat \<Rightarrow> nat \<Rightarrow> nat \<Rightarrow> 'r list \<Rightarrow> 'r list" where
  "cut p start stop b rows =
    py_slice rows (max 0 (int start - int (block_base p b))) (int stop - int (block_base p b))"

fun slice_blocks ::
  "('r, 'p, 'd) codec \<Rightarrow> nat \<Rightarrow> nat \<Rightarrow> nat list \<Rightarrow> ('r, 'p) packed \<Rightarrow> ('r list \<times> ('r, 'p) packed) option" where
  "slice_blocks c start stop [] p = Some ([], p)"
| "slice_blocks c start stop (b # bs) p =
    (case block c b p of
       None \<Rightarrow> None
     | Some (rows, p1) \<Rightarrow>
         (case slice_blocks c start stop bs p1 of
            None \<Rightarrow> None
          | Some (rest, p2) \<Rightarrow> Some (cut p start stop b rows @ rest, p2)))"

definition touched_blocks :: "('r, 'p) packed \<Rightarrow> nat \<Rightarrow> nat \<Rightarrow> nat list" where
  "touched_blocks p start stop = [bisect_right (pk_ends p) start ..< bisect_left (pk_ends p) stop + 1]"

definition get_range ::
  "('r, 'p, 'd) codec \<Rightarrow> nat \<Rightarrow> nat \<Rightarrow> ('r, 'p) packed \<Rightarrow> ('r list \<times> ('r, 'p) packed) option" where
  "get_range c start stop p =
    (if start \<ge> stop then Some ([], p) else slice_blocks c start stop (touched_blocks p start stop) p)"

definition get_item :: "('r, 'p, 'd) codec \<Rightarrow> int \<Rightarrow> ('r, 'p) packed \<Rightarrow> ('r \<times> ('r, 'p) packed) option" where
  "get_item c i p =
    (let i = (if i < 0 then i + int (pk_count p) else i)
     in if i < 0 \<or> int (pk_count p) \<le> i then None
        else (let n = nat i; b = bisect_right (pk_ends p) n
              in case block c b p of
                   None \<Rightarrow> None
                 | Some (rows, p1) \<Rightarrow>
                     let k = n - block_base p b
                     in if k < length rows then Some (rows ! k, p1) else None))"

fun get_items ::
  "('r, 'p, 'd) codec \<Rightarrow> int list \<Rightarrow> ('r, 'p) packed \<Rightarrow> ('r list \<times> ('r, 'p) packed) option" where
  "get_items c [] p = Some ([], p)"
| "get_items c (i # is) p =
    (case get_item c i p of
       None \<Rightarrow> None
     | Some (row, p1) \<Rightarrow>
         (case get_items c is p1 of None \<Rightarrow> None | Some (rest, p2) \<Rightarrow> Some (row # rest, p2)))"

text \<open>\<open>slice.indices\<close> and \<open>range\<close> of the standard library; \<open>None\<close> is the error for a zero step.\<close>

definition slice_bound :: "int \<Rightarrow> int \<Rightarrow> int \<Rightarrow> int \<Rightarrow> int option \<Rightarrow> int" where
  "slice_bound n lower upper absent b =
    (case b of None \<Rightarrow> absent | Some i \<Rightarrow> if i < 0 then max (i + n) lower else min i upper)"

definition slice_indices :: "nat \<Rightarrow> int option \<Rightarrow> int option \<Rightarrow> int option \<Rightarrow> (int \<times> int \<times> int) option" where
  "slice_indices n start stop step =
    (let k = (case step of None \<Rightarrow> 1 | Some k \<Rightarrow> k); lower = (if k < 0 then - 1 else 0);
         upper = (if k < 0 then int n - 1 else int n)
     in if k = 0 then None
        else Some (slice_bound (int n) lower upper (if k < 0 then upper else lower) start,
                   slice_bound (int n) lower upper (if k < 0 then lower else upper) stop, k))"

definition py_range :: "int \<Rightarrow> int \<Rightarrow> int \<Rightarrow> int list" where
  "py_range start stop step =
    map (\<lambda>j. start + int j * step)
      [0 ..< nat (if step > 0 then (stop - start + step - 1) div step else (start - stop - step - 1) div (- step))]"

definition get_slice ::
  "('r, 'p, 'd) codec \<Rightarrow> int option \<Rightarrow> int option \<Rightarrow> int option \<Rightarrow> ('r, 'p) packed \<Rightarrow>
   ('r list \<times> ('r, 'p) packed) option" where
  "get_slice c start stop step p =
    (case slice_indices (pk_count p) start stop step of
       None \<Rightarrow> None
     | Some (lo, hi, k) \<Rightarrow>
         if k \<noteq> 1 then get_items c (py_range lo hi k) p else get_range c (nat lo) (nat hi) p)"

text \<open>\<open>signature\<close>: blocks that lie inside the range enter as they are stored, the others as text.\<close>

definition block_payload ::
  "('r, 'p, 'd) codec \<Rightarrow> nat \<Rightarrow> nat \<Rightarrow> nat \<Rightarrow> ('r, 'p) packed \<Rightarrow> ('p \<times> ('r, 'p) packed) option" where
  "block_payload c start stop b p =
    (if length (pk_ends p) \<le> b then None
     else if start \<le> block_base p b \<and> pk_ends p ! b \<le> stop then Some (pk_blocks p ! b, p)
     else case block c b p of
       None \<Rightarrow> None
     | Some (rows, p1) \<Rightarrow> Some (as_json c (cut p start stop b rows), p1))"

fun signature_blocks ::
  "('r, 'p, 'd) codec \<Rightarrow> nat \<Rightarrow> nat \<Rightarrow> nat list \<Rightarrow> ('r, 'p) packed \<Rightarrow> ('p list \<times> ('r, 'p) packed) option" where
  "signature_blocks c start stop [] p = Some ([], p)"
| "signature_blocks c start stop (b # bs) p =
    (case block_payload c start stop b p of
       None \<Rightarrow> None
     | Some (payload, p1) \<Rightarrow>
         (case signature_blocks c start stop bs p1 of
            None \<Rightarrow> None | Some (rest, p2) \<Rightarrow> Some (payload # rest, p2)))"

definition rows_signature ::
  "('r, 'p, 'd) codec \<Rightarrow> nat \<Rightarrow> nat option \<Rightarrow> ('r, 'p) packed \<Rightarrow> ('d \<times> ('r, 'p) packed) option" where
  "rows_signature c start stop p =
    (let stop = (case stop of None \<Rightarrow> pk_count p | Some n \<Rightarrow> n); first = bisect_right (pk_ends p) start
     in if start < stop then
          (case signature_blocks c start stop (touched_blocks p start stop) p of
             None \<Rightarrow> None
           | Some (payloads, p1) \<Rightarrow>
               Some (digest c (Some (start - block_base p first, stop - start), payloads), p1))
        else Some (digest c (None, []), p))"

subsection \<open>The time-indexed history\<close>

definition iter_from :: "('r, 'p, 'd) codec \<Rightarrow> rat \<Rightarrow> ('r, 'p) packed \<Rightarrow> 'r list" where
  "iter_from c t p =
    filter (\<lambda>r. t \<le> at_of c r) (concat (map (loaded c) (drop (bisect_left (pk_time_ends p) t) (pk_blocks p))))"

definition range_blocks :: "rat \<Rightarrow> rat \<Rightarrow> ('r, 'p) packed \<Rightarrow> ('r, 'p) packed" where
  "range_blocks start stop p =
    (let first = bisect_left (pk_time_ends p) start;
         last' = min (length (pk_blocks p)) (bisect_right (pk_time_ends p) stop + 1);
         ends = map (\<lambda>v. v - block_base p first) (drop first (take last' (pk_ends p)))
     in (empty_packed True)
        \<lparr>pk_blocks := drop first (take last' (pk_blocks p)), pk_ends := ends, pk_count := last_or 0 ends,
         pk_time_ends := drop first (take last' (pk_time_ends p))\<rparr>)"

definition retained :: "('r, 'p, 'd) codec \<Rightarrow> rat \<Rightarrow> ('r, 'p) packed \<Rightarrow> 'r list" where
  "retained c t p =
    (let b = bisect_left (pk_time_ends p) t
     in if b < length (pk_blocks p) then filter (\<lambda>r. at_of c r < t) (loaded c (pk_blocks p ! b)) else [])"

definition with_suffix :: "('r, 'p, 'd) codec \<Rightarrow> rat \<Rightarrow> 'r list \<Rightarrow> ('r, 'p) packed \<Rightarrow> ('r, 'p) packed" where
  "with_suffix c t rows p =
    (let b = bisect_left (pk_time_ends p) t; tail = packed c True (retained c t p @ rows); n = block_base p b
     in (empty_packed True)
        \<lparr>pk_blocks := take b (pk_blocks p) @ pk_blocks tail,
         pk_ends := take b (pk_ends p) @ map (\<lambda>v. n + v) (pk_ends tail),
         pk_count := n + pk_count tail,
         pk_time_ends := take b (pk_time_ends p) @ pk_time_ends tail,
         pk_times := take (bisect_left (pk_times p) t) (pk_times p) @
           drop (bisect_left (pk_times tail) t) (pk_times tail)\<rparr>)"

section \<open>Packed rows stand for a list\<close>

definition ends_of :: "nat \<Rightarrow> 'r list list \<Rightarrow> nat list" where
  "ends_of n chunks = map (\<lambda>i. n + length (concat (take (Suc i) chunks))) [0..<length chunks]"

definition codec_ok :: "('r, 'p, 'd) codec \<Rightarrow> bool" where
  "codec_ok c = (\<forall>rows. loaded c (dumped c rows) = rows)"

definition cache_ok :: "('r, 'p, 'd) codec \<Rightarrow> ('r, 'p) packed \<Rightarrow> bool" where
  "cache_ok c p = (distinct (map fst (pk_cache p)) \<and> length (pk_cache p) \<le> 2 \<and>
    (\<forall>(b, rows) \<in> set (pk_cache p). b < length (pk_blocks p) \<and> rows = loaded c (pk_blocks p ! b)))"

definition chunked :: "('r, 'p, 'd) codec \<Rightarrow> 'r list list \<Rightarrow> ('r, 'p) packed \<Rightarrow> bool" where
  "chunked c chunks p = (pk_blocks p = map (dumped c) chunks \<and> [] \<notin> set chunks \<and>
    pk_ends p = ends_of 0 chunks \<and>
    pk_time_ends p = (if pk_timestamped p then map (\<lambda>rs. at_of c (last rs)) chunks else []))"

definition packed_ok :: "('r, 'p, 'd) codec \<Rightarrow> ('r, 'p) packed \<Rightarrow> bool" where
  "packed_ok c p = ((\<exists>chunks. chunked c chunks p) \<and> pk_count p = length (rows_of c p) \<and> cache_ok c p)"

lemma length_ends_of [simp]: "length (ends_of n chunks) = length chunks"
  by (simp add: ends_of_def)

lemma ends_of_nth [simp]: "i < length chunks \<Longrightarrow> ends_of n chunks ! i = n + length (concat (take (Suc i) chunks))"
  by (simp add: ends_of_def)

lemma ends_of_snoc [simp]: "ends_of n (chunks @ [rs]) = ends_of n chunks @ [n + length (concat chunks) + length rs]"
  by (auto simp: ends_of_def)

lemma ends_of_Nil [simp]: "ends_of n [] = []"
  by (simp add: ends_of_def)

lemma last_ends_of: "last_or n (ends_of n chunks) = n + length (concat chunks)"
  by (induction chunks rule: rev_induct) (auto simp: last_or_def)

lemma length_concat_take_mono: "i \<le> j \<Longrightarrow> length (concat (take i xs)) \<le> length (concat (take j xs))"
proof -
  assume "i \<le> j"
  then obtain k where "j = i + k" using le_Suc_ex by blast
  then show ?thesis by (simp add: take_add)
qed

lemma sorted_ends_of: "sorted (ends_of n chunks)"
  by (rule sorted_iff_nth_mono [THEN iffD2]) (auto simp: length_concat_take_mono simp del: length_concat)

lemma rows_of_chunked: "codec_ok c \<Longrightarrow> chunked c chunks p \<Longrightarrow> rows_of c p = concat chunks"
  by (simp add: rows_of_def chunked_def codec_ok_def comp_def)

lemma block_base_chunked:
  "chunked c chunks p \<Longrightarrow> b \<le> length chunks \<Longrightarrow> block_base p b = length (concat (take b chunks))"
  by (cases b) (auto simp: block_base_def chunked_def simp del: length_concat)

subsection \<open>Construction\<close>

text \<open>What \<open>_pack\<close> leaves alone, and that it appends the chunks of its batch.\<close>

definition appends :: "('r, 'p, 'd) codec \<Rightarrow> 'r list \<Rightarrow> ('r, 'p) packed \<Rightarrow> ('r, 'p) packed \<Rightarrow> bool" where
  "appends c rows p q = (\<forall>chunks. chunked c chunks p \<longrightarrow>
    (\<exists>more'. chunked c (chunks @ more') q \<and> concat more' = rows) \<and>
    pk_count q = pk_count p \<and> pk_times q = pk_times p \<and> pk_timestamped q = pk_timestamped p \<and> pk_cache q = pk_cache p)"

lemma appends_trans:
  assumes "appends c xs p q" "appends c ys q r"
  shows "appends c (xs @ ys) p r"
  unfolding appends_def
proof (intro allI impI)
  fix chunks assume "chunked c chunks p"
  with assms(1) obtain m where m: "chunked c (chunks @ m) q" "concat m = xs"
    "pk_count q = pk_count p" "pk_times q = pk_times p" "pk_timestamped q = pk_timestamped p" "pk_cache q = pk_cache p"
    unfolding appends_def by blast
  with assms(2) obtain k where k: "chunked c ((chunks @ m) @ k) r" "concat k = ys"
    "pk_count r = pk_count q" "pk_times r = pk_times q" "pk_timestamped r = pk_timestamped q" "pk_cache r = pk_cache q"
    unfolding appends_def by blast
  from m k have "chunked c (chunks @ (m @ k)) r \<and> concat (m @ k) = xs @ ys" by simp
  with m k show "(\<exists>more'. chunked c (chunks @ more') r \<and> concat more' = xs @ ys) \<and>
    pk_count r = pk_count p \<and> pk_times r = pk_times p \<and> pk_timestamped r = pk_timestamped p \<and> pk_cache r = pk_cache p"
    by metis
qed

lemma append_block_extends:
  assumes "rows \<noteq> []"
  shows "appends c rows p (append_block c rows p)"
  unfolding appends_def
proof (intro allI impI)
  fix chunks assume ok: "chunked c chunks p"
  then have "last_or 0 (pk_ends p) = length (concat chunks)" using last_ends_of [of 0 chunks] by (simp add: chunked_def)
  with ok assms have "chunked c (chunks @ [rows]) (append_block c rows p)"
    by (simp add: chunked_def append_block_def)
  then show "(\<exists>more'. chunked c (chunks @ more') (append_block c rows p) \<and> concat more' = rows) \<and>
    pk_count (append_block c rows p) = pk_count p \<and> pk_times (append_block c rows p) = pk_times p \<and>
    pk_timestamped (append_block c rows p) = pk_timestamped p \<and> pk_cache (append_block c rows p) = pk_cache p"
    by (intro conjI exI [of _ "[rows]"]) (simp_all add: append_block_def)
qed

lemma pack_loop_extends:
  "[] \<notin> set pending \<Longrightarrow> appends c (concat pending) p (pack_loop c pending p)"
proof (induction c pending p rule: pack_loop.induct)
  case (1 c p)
  then show ?case by (auto simp: appends_def intro!: exI [of _ "[]"])
next
  case (2 c rows pending p)
  show ?case
  proof (cases "compressed c (dumped c rows) > 64 * 1024 \<and> length rows > 1")
    case True
    have "[] \<notin> set (take (length rows div 2) rows # drop (length rows div 2) rows # pending)"
      using True 2(3) by auto
    from 2(1) [OF True this]
    have "appends c (rows @ concat pending) p
        (pack_loop c (take (length rows div 2) rows # drop (length rows div 2) rows # pending) p)"
      by (simp only: concat.simps append_assoc [symmetric] append_take_drop_id)
    then show ?thesis using True by (simp only: pack_loop.simps(2) [of c rows] simp_thms if_True concat.simps)
  next
    case False
    have "[] \<notin> set pending" and "rows \<noteq> []" using 2(3) by auto
    from appends_trans [OF append_block_extends [OF this(2)] 2(2) [OF False this(1)]]
    show ?thesis using False by (simp only: pack_loop.simps(2) [of c rows] if_False concat.simps)
  qed
qed

lemma pack_extends: "batch \<noteq> [] \<Longrightarrow> appends c batch p (pack c batch p)"
  using pack_loop_extends [of "[batch]" c p] by (simp add: pack_def)

text \<open>The loop of the constructor, with the rows it has read so far.\<close>

definition loading :: "('r, 'p, 'd) codec \<Rightarrow> bool \<Rightarrow> 'r list \<Rightarrow> ('r, 'p) packed \<times> 'r list \<times> nat \<Rightarrow> bool" where
  "loading c ts rows s = ((\<exists>chunks. chunked c chunks (fst s) \<and> concat chunks @ fst (snd s) = rows) \<and>
    pk_count (fst s) = length rows \<and> pk_timestamped (fst s) = ts \<and> pk_cache (fst s) = [] \<and>
    pk_times (fst s) = (if ts then remdups_adj (map (at_of c) rows) else []))"

lemma remdups_adj_snoc:
  "remdups_adj (xs @ [x]) = (if xs = [] \<or> last xs \<noteq> x then remdups_adj xs @ [x] else remdups_adj xs)"
  by (induction xs rule: remdups_adj.induct) auto

lemma counted_simps [simp]:
  "pk_blocks (counted c r p) = pk_blocks p" "pk_ends (counted c r p) = pk_ends p"
  "pk_time_ends (counted c r p) = pk_time_ends p" "pk_timestamped (counted c r p) = pk_timestamped p"
  "pk_count (counted c r p) = Suc (pk_count p)" "pk_cache (counted c r p) = pk_cache p"
  by (simp_all add: counted_def)

lemma counted_chunked [simp]: "chunked c chunks (counted d r p) = chunked c chunks p"
  by (simp add: chunked_def)

lemma flush_loading:
  assumes "loading c ts rows s" "fst (snd s) \<noteq> []"
  shows "loading c ts rows (flush_batch c s)"
proof -
  obtain p batch w where s: "s = (p, batch, w)" by (cases s) auto
  with assms obtain chunks where ch: "chunked c chunks p" "concat chunks @ batch = rows"
    by (auto simp: loading_def)
  from pack_extends [of batch c p] assms s
  have "appends c batch p (pack c batch p)" by simp
  with ch obtain m where "chunked c (chunks @ m) (pack c batch p)" "concat m = batch"
    and rest: "pk_count (pack c batch p) = pk_count p" "pk_times (pack c batch p) = pk_times p"
      "pk_timestamped (pack c batch p) = pk_timestamped p" "pk_cache (pack c batch p) = pk_cache p"
    unfolding appends_def by blast
  with ch have "chunked c (chunks @ m) (pack c batch p) \<and> concat (chunks @ m) @ [] = rows" by simp
  with rest assms(1) s show ?thesis unfolding loading_def flush_batch_def by (auto intro: exI [of _ "chunks @ m"])
qed

lemma counted_loading:
  assumes "loading c ts rows (p, batch, w)"
  shows "loading c ts (rows @ [row]) (counted c row p, batch @ [row], w')"
proof -
  from assms obtain chunks where "chunked c chunks p" "concat chunks @ batch = rows" by (auto simp: loading_def)
  then have "chunked c chunks (counted c row p) \<and> concat chunks @ (batch @ [row]) = rows @ [row]" by simp
  moreover have "pk_times (counted c row p) = (if ts then remdups_adj (map (at_of c) (rows @ [row])) else [])"
    using assms by (auto simp: loading_def counted_def remdups_adj_snoc last_map)
  ultimately show ?thesis using assms unfolding loading_def by auto
qed

lemma add_row_loading:
  assumes "loading c ts rows s"
  shows "loading c ts (rows @ [row]) (add_row c s row)"
proof -
  let ?s = "if fst (snd s) \<noteq> [] \<and> (512 \<le> length (fst (snd s)) \<or> snd (snd s) + packed_weight c row > 2 * 1024 * 1024)
    then flush_batch c s else s"
  have "loading c ts rows ?s" using flush_loading [OF assms] assms by simp
  moreover obtain p batch w where s: "?s = (p, batch, w)" using prod_cases3 by blast
  ultimately have "loading c ts rows (p, batch, w)" by simp
  from counted_loading [OF this]
  have "loading c ts (rows @ [row]) (counted c row p, batch @ [row], w + packed_weight c row)" .
  then show ?thesis unfolding add_row_def s by simp
qed

lemma foldl_add_row_loading:
  "loading c ts rows s \<Longrightarrow> loading c ts (rows @ rs) (foldl (add_row c) s rs)"
proof (induction rs arbitrary: rows s)
  case (Cons r rs)
  from Cons.IH [OF add_row_loading [OF Cons.prems]] show ?case by simp
qed simp

lemma empty_loading: "loading c ts [] (empty_packed ts, [], 0)"
  by (auto simp: loading_def empty_packed_def chunked_def intro!: exI [of _ "[]"])

lemma packed_loading: "\<exists>w. loading c ts rows (packed c ts rows, [], w)"
proof -
  obtain p batch w where s: "foldl (add_row c) (empty_packed ts, [], 0) rows = (p, batch, w)"
    using prod_cases3 by blast
  have l: "loading c ts rows (p, batch, w)"
    using foldl_add_row_loading [OF empty_loading, of c ts rows] s by simp
  show ?thesis
  proof (cases "batch = []")
    case True
    with l s show ?thesis by (auto simp: packed_def)
  next
    case False
    with flush_loading [OF l] s show ?thesis by (auto simp: packed_def flush_batch_def)
  qed
qed

lemma packed_spec:
  assumes "codec_ok c"
  shows "packed_ok c (packed c ts rows)" "rows_of c (packed c ts rows) = rows"
    "pk_timestamped (packed c ts rows) = ts" "pk_cache (packed c ts rows) = []"
    "pk_times (packed c ts rows) = (if ts then remdups_adj (map (at_of c) rows) else [])"
proof -
  from packed_loading obtain w where l: "loading c ts rows (packed c ts rows, [], w)" by blast
  then obtain chunks where ch: "chunked c chunks (packed c ts rows)" "concat chunks = rows"
    by (auto simp: loading_def)
  then show r: "rows_of c (packed c ts rows) = rows" using rows_of_chunked [OF assms] by blast
  from l show "pk_timestamped (packed c ts rows) = ts" "pk_cache (packed c ts rows) = []"
    "pk_times (packed c ts rows) = (if ts then remdups_adj (map (at_of c) rows) else [])"
    by (auto simp: loading_def)
  from l ch r show "packed_ok c (packed c ts rows)" by (auto simp: packed_ok_def loading_def cache_ok_def)
qed

subsection \<open>Reading\<close>

definition read_ok :: "('r, 'p, 'd) codec \<Rightarrow> ('r, 'p) packed \<Rightarrow> ('r, 'p) packed \<Rightarrow> bool" where
  "read_ok c p q = (cache_ok c q \<and> q\<lparr>pk_cache := []\<rparr> = p\<lparr>pk_cache := []\<rparr>)"

lemma keep_two_drop: "keep_two xs = drop (length xs - 2) xs"
  by (induction xs rule: keep_two.induct) (auto simp: Suc_diff_le)

lemma read_ok_fields:
  assumes "read_ok c p q"
  shows "pk_blocks q = pk_blocks p" "pk_ends q = pk_ends p" "pk_count q = pk_count p"
    "pk_time_ends q = pk_time_ends p" "pk_times q = pk_times p" "pk_timestamped q = pk_timestamped p" "cache_ok c q"
  using assms by (cases p; cases q; auto simp: read_ok_def)+

lemma read_ok_trans: "read_ok c p q \<Longrightarrow> read_ok c q r \<Longrightarrow> read_ok c p r"
  by (simp add: read_ok_def)

lemma read_ok_refl: "cache_ok c p \<Longrightarrow> read_ok c p p"
  by (simp add: read_ok_def)

lemma read_ok_chunked [simp]: "read_ok c p q \<Longrightarrow> chunked c chunks q = chunked c chunks p"
  by (simp add: chunked_def read_ok_fields)

lemma read_ok_rows: "read_ok c p q \<Longrightarrow> rows_of c q = rows_of c p"
  by (simp add: rows_of_def read_ok_fields)

lemma read_ok_packed: "read_ok c p q \<Longrightarrow> packed_ok c p \<Longrightarrow> packed_ok c q"
  by (auto simp: packed_ok_def read_ok_fields read_ok_rows)

lemma read_ok_base [simp]: "read_ok c p q \<Longrightarrow> block_base q b = block_base p b"
  by (simp add: block_base_def read_ok_fields)

lemma cache_ok_evict:
  assumes "cache_ok c p" "b < length (pk_blocks p)" "b \<notin> fst ` set k" "set k \<subseteq> set (pk_cache p)" "distinct (map fst k)"
  shows "cache_ok c (p\<lparr>pk_cache := keep_two (k @ [(b, loaded c (pk_blocks p ! b))])\<rparr>)"
proof -
  let ?k = "k @ [(b, loaded c (pk_blocks p ! b))]"
  have "distinct (map fst ?k)" using assms(3,5) by simp
  then have "distinct (map fst (keep_two ?k))" unfolding keep_two_drop drop_map [symmetric] by (rule distinct_drop)
  moreover have "set (keep_two ?k) \<subseteq> set ?k" unfolding keep_two_drop by (rule set_drop_subset)
  moreover have "length (keep_two ?k) \<le> 2" by (simp add: keep_two_drop)
  moreover have "\<forall>(i, rows) \<in> set ?k. i < length (pk_blocks p) \<and> rows = loaded c (pk_blocks p ! i)"
    using assms(1,2,4) by (auto simp: cache_ok_def)
  ultimately have "\<forall>(i, rows) \<in> set (keep_two ?k). i < length (pk_blocks p) \<and> rows = loaded c (pk_blocks p ! i)"
    by (rule_tac ballI) (drule (1) subsetD, erule bspec [rotated])
  then show ?thesis using \<open>distinct (map fst (keep_two ?k))\<close> \<open>length (keep_two ?k) \<le> 2\<close> by (simp add: cache_ok_def)
qed

lemma block_read:
  assumes "cache_ok c p" "b < length (pk_blocks p)"
  shows "\<exists>q. block c b p = Some (loaded c (pk_blocks p ! b), q) \<and> read_ok c p q"
proof (cases "map_of (pk_cache p) b")
  case None
  then have "b \<notin> fst ` set (pk_cache p)" by (simp add: map_of_eq_None_iff)
  moreover have "distinct (map fst (pk_cache p))" using assms by (simp add: cache_ok_def)
  ultimately have "cache_ok c (p\<lparr>pk_cache := keep_two (pk_cache p @ [(b, loaded c (pk_blocks p ! b))])\<rparr>)"
    using cache_ok_evict [OF assms, of "pk_cache p"] by simp
  then show ?thesis using None assms(2) by (simp add: block_def read_ok_def Let_def)
next
  case (Some rows)
  let ?k = "filter (\<lambda>e. fst e \<noteq> b) (pk_cache p)"
  have rows: "rows = loaded c (pk_blocks p ! b)" using assms(1) map_of_SomeD [OF Some] by (auto simp: cache_ok_def)
  have "distinct (map fst ?k)" using assms by (simp add: cache_ok_def distinct_map_filter)
  moreover have "b \<notin> fst ` set ?k" and "set ?k \<subseteq> set (pk_cache p)" by auto
  ultimately have "cache_ok c (p\<lparr>pk_cache := keep_two (?k @ [(b, loaded c (pk_blocks p ! b))])\<rparr>)"
    using cache_ok_evict [OF assms, of ?k] by simp
  with Some rows show ?thesis by (simp add: block_def read_ok_def)
qed

lemma block_missing: "cache_ok c p \<Longrightarrow> length (pk_blocks p) \<le> b \<Longrightarrow> block c b p = None"
  by (auto simp: block_def cache_ok_def split: option.split dest: map_of_SomeD)

text \<open>A list is the concatenation of what a range leaves of its chunks.\<close>

definition part :: "nat \<Rightarrow> nat \<Rightarrow> 'a list list \<Rightarrow> nat \<Rightarrow> 'a list" where
  "part start stop chunks b =
    drop (start - length (concat (take b chunks))) (take (stop - length (concat (take b chunks))) (chunks ! b))"

lemma concat_parts:
  "concat (map (part start stop chunks) [0..<length chunks]) = drop start (take stop (concat chunks))"
proof (induction chunks rule: rev_induct)
  case (snoc rs chunks)
  let ?n = "length (concat chunks)"
  have old: "map (part start stop (chunks @ [rs])) [0..<length chunks] = map (part start stop chunks) [0..<length chunks]"
    by (rule map_cong) (auto simp: part_def nth_append)
  have new: "part start stop (chunks @ [rs]) (length chunks) = drop (start - ?n) (take (stop - ?n) rs)"
    by (simp add: part_def)
  have tail: "drop (start - min ?n stop) (take (stop - ?n) rs) = drop (start - ?n) (take (stop - ?n) rs)"
    by (cases "?n \<le> stop") (simp_all add: min_def)
  have "concat (map (part start stop (chunks @ [rs])) [0..<length (chunks @ [rs])]) =
      drop start (take stop (concat chunks)) @ drop (start - ?n) (take (stop - ?n) rs)"
    using snoc by (simp only: length_append_singleton upt_Suc_append [OF le0] map_append concat_append old) (simp add: new)
  then show ?case using tail by (simp del: length_concat)
qed simp

lemma part_outside:
  assumes "b < length chunks"
    "length (concat (take (Suc b) chunks)) \<le> start \<or> stop \<le> length (concat (take b chunks))"
  shows "part start stop chunks b = []"
  using assms by (auto simp: part_def take_Suc_conv_app_nth)

lemma concat_map_upt_Nil:
  assumes "a \<le> b" "b \<le> n" "\<And>i. i < a \<Longrightarrow> f i = []" "\<And>i. b \<le> i \<Longrightarrow> i < n \<Longrightarrow> f i = []"
  shows "concat (map f [a..<b]) = concat (map f [0..<n])"
proof -
  have split: "[0..<n] = [0..<a] @ [a..<b] @ [b..<n]"
    using assms(1,2) upt_add_eq_append [of 0 b "n - b"] upt_add_eq_append [of 0 a "b - a"] by simp
  have a: "concat (map f [0..<a]) = []" using assms(3) by simp
  have b: "concat (map f [b..<n]) = []" using assms(4) by simp
  show ?thesis by (simp only: split map_append concat_append a b append_Nil append_Nil2)
qed

lemma clamp_simps [simp]:
  "clamp n (int k) = min k n" "clamp n (max 0 (int k - int m)) = min (k - m) n"
  by (auto simp: clamp_def min_def max_def)

lemma py_slice_nat: "m \<le> hi \<Longrightarrow> py_slice xs (max 0 (int lo - int m)) (int hi - int m) = drop (lo - m) (take (hi - m) xs)"
proof -
  assume "m \<le> hi"
  then have "int hi - int m = int (hi - m)" by simp
  then show ?thesis by (simp add: py_slice_def min_def del: of_nat_diff)
qed

lemma cut_part:
  assumes "chunked c chunks p" "b < length chunks" "block_base p b \<le> stop"
  shows "cut p start stop b (chunks ! b) = part start stop chunks b"
  using assms block_base_chunked [OF assms(1), of b] by (simp add: cut_def part_def py_slice_nat del: length_concat)

lemma slice_blocks_read:
  assumes "codec_ok c" "chunked c chunks p" "cache_ok c p" "\<forall>b \<in> set bs. b < length chunks \<and> block_base p b \<le> stop"
  shows "\<exists>q. slice_blocks c start stop bs p = Some (concat (map (part start stop chunks) bs), q) \<and> read_ok c p q"
  using assms(2-)
proof (induction bs arbitrary: p)
  case Nil
  then show ?case by (simp add: read_ok_refl)
next
  case (Cons b bs)
  have b: "b < length (pk_blocks p)" "loaded c (pk_blocks p ! b) = chunks ! b"
    using Cons.prems assms(1) by (simp_all add: chunked_def codec_ok_def)
  from block_read [OF Cons.prems(2) b(1)] b(2)
  obtain q where q: "block c b p = Some (chunks ! b, q)" "read_ok c p q" by auto
  have "\<exists>r. slice_blocks c start stop bs q = Some (concat (map (part start stop chunks) bs), r) \<and> read_ok c q r"
    by (rule Cons.IH) (use Cons.prems q(2) in \<open>simp_all add: read_ok_fields\<close>)
  then obtain r where r: "slice_blocks c start stop bs q = Some (concat (map (part start stop chunks) bs), r)"
    "read_ok c q r" by blast
  have "cut p start stop b (chunks ! b) = part start stop chunks b"
    using Cons.prems by (intro cut_part) auto
  with q r read_ok_trans [OF q(2) r(2)] show ?case by simp
qed

lemma touched_range:
  assumes "chunked c chunks p" "start < stop" "stop \<le> length (concat chunks)"
  shows "bisect_right (pk_ends p) start \<le> bisect_left (pk_ends p) stop" (is ?le)
    and "bisect_left (pk_ends p) stop < length chunks" (is ?in)
    and "i < bisect_right (pk_ends p) start \<Longrightarrow> length (concat (take (Suc i) chunks)) \<le> start"
    and "i \<ge> bisect_right (pk_ends p) start \<Longrightarrow> i < length chunks \<Longrightarrow> start < length (concat (take (Suc i) chunks))"
    and "i < bisect_left (pk_ends p) stop \<Longrightarrow> length (concat (take (Suc i) chunks)) < stop"
    and "i \<ge> bisect_left (pk_ends p) stop \<Longrightarrow> i < length chunks \<Longrightarrow> stop \<le> length (concat (take (Suc i) chunks))"
proof -
  have ends: "pk_ends p = ends_of 0 chunks" using assms by (simp add: chunked_def)
  note s = sorted_ends_of [of 0 chunks]
  note R = bisect_right_spec [OF s, where x = start] and L = bisect_left_spec [OF s, where x = stop]
  show 3: "i < bisect_right (pk_ends p) start \<Longrightarrow> length (concat (take (Suc i) chunks)) \<le> start" for i
    using R(1) R(2) [where i = i] unfolding ends by (simp del: length_concat take_Suc)
  show 4: "i \<ge> bisect_right (pk_ends p) start \<Longrightarrow> i < length chunks \<Longrightarrow> start < length (concat (take (Suc i) chunks))" for i
    using R(3) [where i = i] unfolding ends by (simp del: length_concat)
  show 5: "i < bisect_left (pk_ends p) stop \<Longrightarrow> length (concat (take (Suc i) chunks)) < stop" for i
    using L(1) L(2) [where i = i] unfolding ends by (simp del: length_concat)
  show "i \<ge> bisect_left (pk_ends p) stop \<Longrightarrow> i < length chunks \<Longrightarrow> stop \<le> length (concat (take (Suc i) chunks))" for i
    using L(3) [where i = i] unfolding ends by (simp del: length_concat)
  have nonempty: "chunks \<noteq> []" using assms(2,3) by auto
  show ?in
  proof (rule ccontr)
    assume "\<not> ?in"
    then have "length chunks - 1 < bisect_left (pk_ends p) stop" using nonempty by (cases chunks) auto
    from 5 [OF this] nonempty assms(3) show False by simp
  qed
  show ?le
  proof (rule ccontr)
    assume "\<not> ?le"
    then have lt: "bisect_left (pk_ends p) stop < bisect_right (pk_ends p) start" by simp
    from 3 [OF this] have "length (concat (take (Suc (bisect_left (pk_ends p) stop)) chunks)) \<le> start" .
    moreover have "stop \<le> length (concat (take (Suc (bisect_left (pk_ends p) stop)) chunks))"
      using L(3) [where i = "bisect_left (pk_ends p) stop"] \<open>?in\<close> unfolding ends by (simp del: length_concat)
    ultimately show False using assms(2) by simp
  qed
qed

lemma base_below_stop:
  assumes "chunked c chunks p" "start < stop" "stop \<le> length (concat chunks)" "b \<le> bisect_left (pk_ends p) stop"
  shows "block_base p b \<le> stop"
proof (cases b)
  case 0
  then show ?thesis by (simp add: block_base_def)
next
  case (Suc n)
  with assms(4) have "n < bisect_left (pk_ends p) stop" by simp
  from touched_range(5) [OF assms(1-3) this] Suc block_base_chunked [OF assms(1), of b]
    touched_range(2) [OF assms(1-3)] assms(4)
  show ?thesis by simp
qed

lemma touched_parts:
  assumes "chunked c chunks p" "start < stop" "stop \<le> length (concat chunks)"
  shows "concat (map (part start stop chunks) (touched_blocks p start stop)) = drop start (take stop (concat chunks))"
proof -
  note t = touched_range [OF assms]
  have "concat (map (part start stop chunks) (touched_blocks p start stop)) =
      concat (map (part start stop chunks) [0..<length chunks])"
    unfolding touched_blocks_def
  proof (rule concat_map_upt_Nil)
    show "bisect_right (pk_ends p) start \<le> bisect_left (pk_ends p) stop + 1" using t(1) by simp
    show "bisect_left (pk_ends p) stop + 1 \<le> length chunks" using t(2) by simp
  next
    fix i assume "i < bisect_right (pk_ends p) start"
    with t(1,2,3) show "part start stop chunks i = []" by (intro part_outside) auto
  next
    fix i assume i: "bisect_left (pk_ends p) stop + 1 \<le> i" "i < length chunks"
    then have "stop \<le> length (concat (take (Suc (i - 1)) chunks))" by (intro t(6)) auto
    with i show "part start stop chunks i = []" by (intro part_outside) auto
  qed
  then show ?thesis by (simp add: concat_parts)
qed

lemma touched_ok:
  assumes "chunked c chunks p" "start < stop" "stop \<le> length (concat chunks)"
  shows "\<forall>b \<in> set (touched_blocks p start stop). b < length chunks \<and> block_base p b \<le> stop"
  using touched_range(2) [OF assms] base_below_stop [OF assms] by (auto simp: touched_blocks_def)

lemma get_range_read:
  assumes "codec_ok c" "packed_ok c p" "stop \<le> length (rows_of c p)"
  shows "\<exists>q. get_range c start stop p = Some (drop start (take stop (rows_of c p)), q) \<and> read_ok c p q"
proof (cases "start < stop")
  case False
  with assms show ?thesis by (auto simp: get_range_def packed_ok_def read_ok_refl)
next
  case True
  from assms(2) obtain chunks where ch: "chunked c chunks p" and cache: "cache_ok c p" by (auto simp: packed_ok_def)
  have rows: "rows_of c p = concat chunks" by (rule rows_of_chunked [OF assms(1) ch])
  have le: "stop \<le> length (concat chunks)" using assms(3) by (simp only: rows)
  from slice_blocks_read [OF assms(1) ch cache touched_ok [OF ch True le], of start] touched_parts [OF ch True le]
  show ?thesis using True by (simp add: get_range_def rows)
qed

lemma nth_middle:
  "length xs \<le> m \<Longrightarrow> m < length xs + length ys \<Longrightarrow> (xs @ ys @ zs) ! m = ys ! (m - length xs)"
  by (auto simp: nth_append)

lemma get_item_read:
  assumes "codec_ok c" "packed_ok c p"
  shows "let n = int (length (rows_of c p)); j = (if i < 0 then i + n else i)
    in if 0 \<le> j \<and> j < n then \<exists>q. get_item c i p = Some (rows_of c p ! nat j, q) \<and> read_ok c p q
       else get_item c i p = None"
proof -
  from assms(2) obtain chunks where ch: "chunked c chunks p" and cache: "cache_ok c p"
    and count: "pk_count p = length (rows_of c p)" by (auto simp: packed_ok_def)
  have rows: "rows_of c p = concat chunks" by (rule rows_of_chunked [OF assms(1) ch])
  let ?n = "length (concat chunks)"
  have inside: "\<exists>q. get_item c i p = Some (concat chunks ! m, q) \<and> read_ok c p q"
    if m: "m < ?n" and i: "(if i < 0 then i + int ?n else i) = int m" for m
  proof -
    let ?b = "bisect_right (pk_ends p) m"
    have le: "m + 1 \<le> length (concat chunks)" using m by simp
    note t = touched_range [OF ch less_add_one [of m] le]
    have b: "?b < length chunks" using t(1,2) by simp
    have base: "block_base p ?b = length (concat (take ?b chunks))" by (rule block_base_chunked [OF ch]) (use b in simp)
    have low: "length (concat (take ?b chunks)) \<le> m"
    proof (cases ?b)
      case (Suc k)
      then show ?thesis using t(3) [of k] by simp
    qed simp
    have high: "m < length (concat (take ?b chunks)) + length (chunks ! ?b)"
      using t(4) [of ?b] b by (simp add: take_Suc_conv_app_nth)
    have split: "concat chunks = concat (take ?b chunks) @ chunks ! ?b @ concat (drop (Suc ?b) chunks)"
      by (metis append_take_drop_id b concat.simps(2) concat_append Cons_nth_drop_Suc)
    have nth: "concat chunks ! m = chunks ! ?b ! (m - block_base p ?b)"
      unfolding base using nth_middle [OF low high, of "concat (drop (Suc ?b) chunks)"] split by metis
    have blk: "?b < length (pk_blocks p)" "loaded c (pk_blocks p ! ?b) = chunks ! ?b"
      using b ch assms(1) by (simp_all add: chunked_def codec_ok_def)
    from block_read [OF cache blk(1)] blk(2)
    obtain q where q: "block c ?b p = Some (chunks ! ?b, q)" "read_ok c p q" by auto
    have "m - block_base p ?b < length (chunks ! ?b)" using low high base by simp
    with q i m show ?thesis unfolding get_item_def count rows by (simp add: Let_def nth del: length_concat)
  qed
  obtain j where j: "j = (if i < 0 then i + int ?n else i)" by blast
  have "if 0 \<le> j \<and> j < int ?n then \<exists>q. get_item c i p = Some (concat chunks ! nat j, q) \<and> read_ok c p q
      else get_item c i p = None"
  proof (cases "0 \<le> j \<and> j < int ?n")
    case True
    then have "nat j < ?n" by (simp add: nat_less_iff del: length_concat)
    moreover have "(if i < 0 then i + int ?n else i) = int (nat j)" using True by (simp only: j [symmetric] int_nat_eq if_True)
    ultimately have "\<exists>q. get_item c i p = Some (concat chunks ! nat j, q) \<and> read_ok c p q" by (rule inside)
    with True show ?thesis by (simp del: length_concat)
  next
    case False
    then have "j < 0 \<or> int ?n \<le> j" by auto
    then have "get_item c i p = None" unfolding get_item_def count rows Let_def j by (simp only: if_True)
    with False show ?thesis by (simp only: if_False)
  qed
  then show ?thesis unfolding rows Let_def j .
qed

lemma get_items_read:
  assumes "codec_ok c" "packed_ok c p" "\<forall>i \<in> set is. 0 \<le> i \<and> i < int (length (rows_of c p))"
  shows "\<exists>q. get_items c is p = Some (map (\<lambda>i. rows_of c p ! nat i) is, q) \<and> read_ok c p q"
  using assms(2,3)
proof (induction "is" arbitrary: p)
  case Nil
  then show ?case by (simp add: packed_ok_def read_ok_refl)
next
  case (Cons i "is")
  from Cons.prems have "0 \<le> i \<and> i < int (length (rows_of c p))" by simp
  then obtain q where q: "get_item c i p = Some (rows_of c p ! nat i, q)" "read_ok c p q"
    using get_item_read [OF assms(1) Cons.prems(1), of i] by (auto simp: Let_def)
  have "\<exists>r. get_items c is q = Some (map (\<lambda>i. rows_of c q ! nat i) is, r) \<and> read_ok c q r"
    by (rule Cons.IH) (use Cons.prems q(2) read_ok_packed read_ok_rows in \<open>auto simp: read_ok_rows\<close>)
  then obtain r where "get_items c is q = Some (map (\<lambda>i. rows_of c p ! nat i) is, r)" "read_ok c q r"
    using read_ok_rows [OF q(2)] by auto
  with q read_ok_trans [OF q(2)] show ?case by auto
qed

text \<open>What Python's lists do for the same slice.\<close>

definition list_slice :: "'a list \<Rightarrow> int option \<Rightarrow> int option \<Rightarrow> int option \<Rightarrow> 'a list option" where
  "list_slice xs start stop step =
    map_option (\<lambda>(lo, hi, k). map (\<lambda>i. xs ! nat i) (py_range lo hi k)) (slice_indices (length xs) start stop step)"

lemma range_forward: "0 < k \<Longrightarrow> i \<in> set (py_range lo hi k) \<Longrightarrow> lo \<le> i \<and> i < hi"
proof -
  assume k: "0 < k" and i: "i \<in> set (py_range lo hi k)"
  then obtain j where j: "i = lo + int j * k" "int j < (hi - lo + k - 1) div k"
    by (auto simp: py_range_def)
  from j(2) have "int j + 1 \<le> (hi - lo + k - 1) div k" by simp
  then have "(int j + 1) * k \<le> (hi - lo + k - 1) div k * k" using k by (simp add: mult_right_mono)
  also have "\<dots> \<le> hi - lo + k - 1" using k minus_mod_eq_div_mult [of "hi - lo + k - 1" k] pos_mod_sign [of k "hi - lo + k - 1"] by linarith
  finally have "int j * k + 1 \<le> hi - lo" by (simp add: distrib_right)
  with j(1) k show ?thesis by simp
qed

lemma range_backward: "k < 0 \<Longrightarrow> i \<in> set (py_range lo hi k) \<Longrightarrow> hi < i \<and> i \<le> lo"
proof -
  assume k: "k < 0" and i: "i \<in> set (py_range lo hi k)"
  then obtain j where j: "i = lo + int j * k" "int j < (lo - hi - k - 1) div (- k)"
    by (auto simp: py_range_def)
  from j(2) have "int j + 1 \<le> (lo - hi - k - 1) div (- k)" by simp
  then have "(int j + 1) * (- k) \<le> (lo - hi - k - 1) div (- k) * (- k)" using k by (intro mult_right_mono) auto
  also have "\<dots> \<le> lo - hi - k - 1" using k minus_mod_eq_div_mult [of "lo - hi - k - 1" "- k"] pos_mod_sign [of "- k" "lo - hi - k - 1"] by linarith
  finally have "int j * (- k) + 1 \<le> lo - hi" by (simp add: algebra_simps)
  with j(1) k show ?thesis by (auto simp: mult_nonneg_nonpos)
qed

lemma slice_indices_inside:
  assumes "slice_indices n start stop step = Some (lo, hi, k)" "i \<in> set (py_range lo hi k)"
  shows "0 \<le> i \<and> i < int n"
proof -
  let ?k = "case step of None \<Rightarrow> 1 | Some k \<Rightarrow> k"
  from assms(1) have k: "k = ?k" "k \<noteq> 0" by (auto simp: slice_indices_def Let_def split: if_splits)
  show ?thesis
  proof (cases "k < 0")
    case True
    then have "lo \<le> int n - 1 \<and> - 1 \<le> hi" using assms(1) k(1)
      by (auto simp: slice_indices_def slice_bound_def Let_def split: option.splits)
    with range_backward [OF True assms(2)] show ?thesis by auto
  next
    case False
    then have "0 \<le> lo \<and> hi \<le> int n" using assms(1) k
      by (auto simp: slice_indices_def slice_bound_def Let_def split: option.splits)
    with range_forward [of k i lo hi] False k(2) assms(2) show ?thesis by auto
  qed
qed

lemma map_nth_range: "b \<le> length xs \<Longrightarrow> map (\<lambda>j. xs ! (a + j)) [0..<b - a] = drop a (take b xs)"
  by (rule nth_equalityI) auto

lemma unit_range: "0 \<le> lo \<Longrightarrow> hi \<le> int (length xs) \<Longrightarrow>
  map (\<lambda>i. xs ! nat i) (py_range lo hi 1) = drop (nat lo) (take (nat hi) xs)"
proof -
  assume "0 \<le> lo" "hi \<le> int (length xs)"
  then obtain a where a: "lo = int a" using nonneg_int_cases by blast
  have "nat (hi - lo) = nat hi - a" using a by simp
  moreover have "nat (int a + int j) = a + j" for j by simp
  ultimately show ?thesis using map_nth_range [of "nat hi" xs a] \<open>hi \<le> int (length xs)\<close> a
    by (simp add: py_range_def comp_def nat_le_iff)
qed

lemma get_slice_read:
  assumes "codec_ok c" "packed_ok c p"
  shows "case list_slice (rows_of c p) start stop step of
      None \<Rightarrow> get_slice c start stop step p = None
    | Some rows \<Rightarrow> \<exists>q. get_slice c start stop step p = Some (rows, q) \<and> read_ok c p q"
proof (cases "slice_indices (length (rows_of c p)) start stop step")
  case None
  with assms show ?thesis by (simp add: get_slice_def list_slice_def packed_ok_def)
next
  case (Some v)
  then obtain lo hi k where v: "slice_indices (length (rows_of c p)) start stop step = Some (lo, hi, k)"
    by (cases v) auto
  have count: "pk_count p = length (rows_of c p)" using assms by (simp add: packed_ok_def)
  show ?thesis
  proof (cases "k = 1")
    case False
    with v count get_items_read [OF assms, of "py_range lo hi k"] slice_indices_inside [OF v]
    show ?thesis by (simp add: get_slice_def list_slice_def)
  next
    case True
    with v have "0 \<le> lo \<and> hi \<le> int (length (rows_of c p))"
      by (auto simp: slice_indices_def slice_bound_def Let_def split: option.splits if_splits)
    with v count True unit_range [of lo hi "rows_of c p"] get_range_read [OF assms, of "nat hi" "nat lo"]
    show ?thesis by (simp add: get_slice_def list_slice_def nat_le_iff)
  qed
qed

subsection \<open>Signatures\<close>

text \<open>The payload of a block with the rows it stands for.\<close>

definition enters :: "('r, 'p, 'd) codec \<Rightarrow> 'r list \<Rightarrow> 'p \<Rightarrow> bool" where
  "enters c rows payload = (payload = dumped c rows \<or> payload = as_json c rows)"

definition text_ok :: "('r, 'p, 'd) codec \<Rightarrow> bool" where
  "text_ok c = (inj (as_json c) \<and> (\<forall>rs ts. dumped c rs \<noteq> as_json c ts) \<and> inj (digest c))"

lemma enters_unique: "codec_ok c \<Longrightarrow> text_ok c \<Longrightarrow> enters c rs x \<Longrightarrow> enters c ts x \<Longrightarrow> rs = ts"
  unfolding codec_ok_def text_ok_def enters_def by (metis injD)

lemma enters_list_unique:
  "codec_ok c \<Longrightarrow> text_ok c \<Longrightarrow> list_all2 (enters c) rss xs \<Longrightarrow> list_all2 (enters c) tss xs \<Longrightarrow> rss = tss"
proof (induction xs arbitrary: rss tss)
  case (Cons x xs)
  then show ?case using enters_unique [OF Cons.prems(1,2)] by (auto simp: list_all2_Cons2)
qed simp

lemma part_whole:
  assumes "b < length chunks" "start \<le> length (concat (take b chunks))" "length (concat (take (Suc b) chunks)) \<le> stop"
  shows "part start stop chunks b = chunks ! b"
proof -
  have "length (chunks ! b) \<le> stop - length (concat (take b chunks))"
    using assms(1,3) by (simp add: take_Suc_conv_app_nth)
  with assms(2) show ?thesis by (simp add: part_def)
qed

lemma signature_blocks_read:
  assumes "codec_ok c" "chunked c chunks p" "cache_ok c p" "\<forall>b \<in> set bs. b < length chunks \<and> block_base p b \<le> stop"
  shows "\<exists>xs q. signature_blocks c start stop bs p = Some (xs, q) \<and> read_ok c p q \<and>
    list_all2 (enters c) (map (part start stop chunks) bs) xs"
  using assms(2-)
proof (induction bs arbitrary: p)
  case Nil
  then show ?case by (simp add: read_ok_refl)
next
  case (Cons b bs)
  have b: "b < length chunks" "b < length (pk_blocks p)" "pk_blocks p ! b = dumped c (chunks ! b)" "b < length (pk_ends p)"
    "loaded c (pk_blocks p ! b) = chunks ! b" "pk_ends p ! b = length (concat (take (Suc b) chunks))"
    using Cons.prems assms(1) by (simp_all add: chunked_def codec_ok_def)
  have base: "block_base p b = length (concat (take b chunks))"
    by (rule block_base_chunked [OF Cons.prems(1)]) (use b in simp)
  obtain x q where q: "block_payload c start stop b p = Some (x, q)"
    and rq: "read_ok c p q" and x: "enters c (part start stop chunks b) x"
  proof (cases "start \<le> block_base p b \<and> pk_ends p ! b \<le> stop")
    case True
    show thesis
    proof (rule that)
      show "block_payload c start stop b p = Some (pk_blocks p ! b, p)" using True b(4) by (simp add: block_payload_def)
      show "read_ok c p p" by (rule read_ok_refl [OF Cons.prems(2)])
      have "part start stop chunks b = chunks ! b" using True base b(1,6) by (intro part_whole) simp_all
      then show "enters c (part start stop chunks b) (pk_blocks p ! b)" using b(3) by (simp add: enters_def)
    qed
  next
    case False
    have cut: "cut p start stop b (chunks ! b) = part start stop chunks b"
      using Cons.prems by (intro cut_part) auto
    from block_read [OF Cons.prems(2) b(2)] b(5)
    obtain q where q: "block c b p = Some (chunks ! b, q)" "read_ok c p q" by auto
    show thesis
    proof (rule that)
      show "block_payload c start stop b p = Some (as_json c (part start stop chunks b), q)"
        using False b(4) q(1) cut by (simp only: block_payload_def) simp
      show "enters c (part start stop chunks b) (as_json c (part start stop chunks b))" by (simp add: enters_def)
    qed (rule q(2))
  qed
  have "\<exists>xs r. signature_blocks c start stop bs q = Some (xs, r) \<and> read_ok c q r \<and>
      list_all2 (enters c) (map (part start stop chunks) bs) xs"
    by (rule Cons.IH) (use Cons.prems rq in \<open>simp_all add: read_ok_fields\<close>)
  then obtain xs r where "signature_blocks c start stop bs q = Some (xs, r)" "read_ok c q r"
      "list_all2 (enters c) (map (part start stop chunks) bs) xs" by blast
  with q x read_ok_trans [OF rq]
  have "signature_blocks c start stop (b # bs) p = Some (x # xs, r)" "read_ok c p r"
    "list_all2 (enters c) (map (part start stop chunks) (b # bs)) (x # xs)" by simp_all
  then show ?case by blast
qed

lemma signature_read:
  assumes "codec_ok c" "packed_ok c p" "start < stop" "stop \<le> length (rows_of c p)"
  shows "\<exists>k rss xs q. rows_signature c start (Some stop) p = Some (digest c (Some (k, stop - start), xs), q) \<and>
    list_all2 (enters c) rss xs \<and> concat rss = drop start (take stop (rows_of c p)) \<and> read_ok c p q"
proof -
  from assms(2) obtain chunks where ch: "chunked c chunks p" and cache: "cache_ok c p" by (auto simp: packed_ok_def)
  have rows: "rows_of c p = concat chunks" by (rule rows_of_chunked [OF assms(1) ch])
  have le: "stop \<le> length (concat chunks)" using assms(4) by (simp only: rows)
  from signature_blocks_read [OF assms(1) ch cache touched_ok [OF ch assms(3) le], of start]
  obtain xs q where "signature_blocks c start stop (touched_blocks p start stop) p = Some (xs, q)" "read_ok c p q"
    "list_all2 (enters c) (map (part start stop chunks) (touched_blocks p start stop)) xs" by blast
  with touched_parts [OF ch assms(3) le] assms(3) rows show ?thesis
    by (intro exI [of _ "start - block_base p (bisect_right (pk_ends p) start)"]
        exI [of _ "map (part start stop chunks) (touched_blocks p start stop)"] exI [of _ xs] exI [of _ q])
      (simp add: rows_signature_def Let_def)
qed

lemma signatures_agree:
  assumes "codec_ok c" "text_ok c" "packed_ok c p" "packed_ok c q"
    and "start < stop" "stop \<le> length (rows_of c p)" "start' < stop'" "stop' \<le> length (rows_of c q)"
    and "map_option fst (rows_signature c start (Some stop) p) = map_option fst (rows_signature c start' (Some stop') q)"
  shows "drop start (take stop (rows_of c p)) = drop start' (take stop' (rows_of c q))"
proof -
  from signature_read [OF assms(1,3,5,6)] obtain k rss xs p' where
    p: "rows_signature c start (Some stop) p = Some (digest c (Some (k, stop - start), xs), p')"
      "list_all2 (enters c) rss xs" "concat rss = drop start (take stop (rows_of c p))" by blast
  from signature_read [OF assms(1,4,7,8)] obtain k' tss ys q' where
    q: "rows_signature c start' (Some stop') q = Some (digest c (Some (k', stop' - start'), ys), q')"
      "list_all2 (enters c) tss ys" "concat tss = drop start' (take stop' (rows_of c q))" by blast
  from assms(2,9) p(1) q(1) have "xs = ys" by (auto simp: text_ok_def dest: injD)
  with enters_list_unique [OF assms(1,2) p(2)] q(2) have "rss = tss" by simp
  with p(3) q(3) show ?thesis by simp
qed

section \<open>The time-indexed history\<close>

definition time_ordered :: "('r, 'p, 'd) codec \<Rightarrow> 'r list \<Rightarrow> bool" where
  "time_ordered c rows = sorted (map (at_of c) rows)"

definition history_ok :: "('r, 'p, 'd) codec \<Rightarrow> ('r, 'p) packed \<Rightarrow> bool" where
  "history_ok c p = (packed_ok c p \<and> pk_timestamped p \<and> time_ordered c (rows_of c p) \<and>
    pk_times p = remdups_adj (map (at_of c) (rows_of c p)))"

text \<open>Where the time index cuts the chunks.\<close>

lemma concat_take_drop: "concat xss = concat (take n xss) @ concat (drop n xss)"
  by (metis append_take_drop_id concat_append)

lemma in_concat_nth: "r \<in> set (concat xss) \<longleftrightarrow> (\<exists>i < length xss. r \<in> set (xss ! i))"
  unfolding set_concat by (metis UN_iff in_set_conv_nth)

lemma ordered_concatD:
  assumes "time_ordered c (concat chunks)" "i < j" "j < length chunks" "r \<in> set (chunks ! i)" "q \<in> set (chunks ! j)"
  shows "at_of c r \<le> at_of c q"
proof -
  have "concat chunks = concat (take j chunks) @ concat (drop j chunks)" by (metis append_take_drop_id concat_append)
  moreover have "r \<in> set (concat (take j chunks))"
  proof -
    have "chunks ! i \<in> set (take j chunks)" using assms(2,3) by (metis in_set_conv_nth length_take less_trans min_less_iff_conj nth_take)
    with assms(4) show ?thesis by auto
  qed
  moreover have "q \<in> set (concat (drop j chunks))"
    using assms(3,5) by (metis UN_iff append_Cons hd_drop_conv_nth hd_in_set list.sel(1) drop_eq_Nil not_le set_concat)
  ultimately show ?thesis using assms(1) by (auto simp: time_ordered_def sorted_append)
qed

lemma ordered_chunkD:
  assumes "time_ordered c (concat chunks)" "i < length chunks" "r \<in> set (chunks ! i)"
  shows "at_of c r \<le> at_of c (last (chunks ! i))"
proof -
  have "time_ordered c (chunks ! i)"
  proof -
    have "concat chunks = concat (take i chunks) @ chunks ! i @ concat (drop (Suc i) chunks)"
      by (metis append_take_drop_id assms(2) concat.simps(2) concat_append Cons_nth_drop_Suc)
    with assms(1) show ?thesis by (simp add: time_ordered_def sorted_append)
  qed
  moreover have "chunks ! i = butlast (chunks ! i) @ [last (chunks ! i)]" using assms(3) by (cases "chunks ! i") auto
  moreover have "r \<in> set (butlast (chunks ! i)) \<or> r = last (chunks ! i)"
    using assms(3) calculation(2) by (metis UnE empty_iff empty_set insert_iff list.simps(15) set_append)
  ultimately show ?thesis unfolding time_ordered_def
    by (metis (no_types, lifting) list.set_intros(1) map_append nth_map order_refl set_map imageI sorted_append list.simps(9))
qed

definition time_ends :: "('r, 'p, 'd) codec \<Rightarrow> 'r list list \<Rightarrow> rat list" where
  "time_ends c chunks = map (\<lambda>rs. at_of c (last rs)) chunks"

lemma sorted_time_ends:
  assumes "time_ordered c (concat chunks)" "[] \<notin> set chunks"
  shows "sorted (time_ends c chunks)"
proof (rule sorted_iff_nth_mono [THEN iffD2], intro allI impI)
  fix i j assume ij: "i \<le> j" "j < length (time_ends c chunks)"
  then have "chunks ! i \<noteq> []" "chunks ! j \<noteq> []" using assms(2) by (auto simp: time_ends_def in_set_conv_nth)
  with ij ordered_concatD [OF assms(1), of i j] show "time_ends c chunks ! i \<le> time_ends c chunks ! j"
    by (cases "i = j") (auto simp: time_ends_def)
qed

lemma early_chunks:
  assumes "time_ordered c (concat chunks)" "[] \<notin> set chunks" "r \<in> set (concat (take (bisect_left (time_ends c chunks) t) chunks))"
  shows "at_of c r < t"
proof -
  note L = bisect_left_spec [OF sorted_time_ends [OF assms(1,2)], where x = t]
  from assms(3) obtain i where i: "i < bisect_left (time_ends c chunks) t" "i < length chunks" "r \<in> set (chunks ! i)"
    unfolding in_concat_nth by auto
  with L(2) [OF i(1)] ordered_chunkD [OF assms(1) i(2,3)] show ?thesis by (simp add: time_ends_def)
qed

lemma late_chunks:
  assumes "time_ordered c (concat chunks)" "[] \<notin> set chunks" "bisect_left (time_ends c chunks) t \<le> i" "i < j" "j < length chunks"
    "r \<in> set (chunks ! j)"
  shows "t \<le> at_of c r"
proof -
  note L = bisect_left_spec [OF sorted_time_ends [OF assms(1,2)], where x = t]
  have i: "i < length chunks" using assms(4,5) by simp
  then have "chunks ! i \<noteq> []" using assms(2) by (metis nth_mem)
  with ordered_concatD [OF assms(1,4,5) _ assms(6), of "last (chunks ! i)"] L(3) [OF assms(3)] i
  show ?thesis by (simp add: time_ends_def)
qed

lemma past_chunks:
  assumes "time_ordered c (concat chunks)" "[] \<notin> set chunks" "bisect_right (time_ends c chunks) t \<le> i" "i < j" "j < length chunks"
    "r \<in> set (chunks ! j)"
  shows "t < at_of c r"
proof -
  note L = bisect_right_spec [OF sorted_time_ends [OF assms(1,2)], where x = t]
  have i: "i < length chunks" using assms(4,5) by simp
  then have "chunks ! i \<noteq> []" using assms(2) by (metis nth_mem)
  with ordered_concatD [OF assms(1,4,5) _ assms(6), of "last (chunks ! i)"] L(3) [OF assms(3)] i
  show ?thesis by (simp add: time_ends_def)
qed

lemma history_chunks:
  assumes "codec_ok c" "history_ok c p"
  obtains chunks where "chunked c chunks p" "rows_of c p = concat chunks" "time_ordered c (concat chunks)"
    "[] \<notin> set chunks" "pk_time_ends p = time_ends c chunks"
proof -
  from assms(2) obtain chunks where ch: "chunked c chunks p" by (auto simp: history_ok_def packed_ok_def)
  with rows_of_chunked [OF assms(1) ch] assms(2) that [of chunks] show ?thesis
    by (simp add: history_ok_def chunked_def time_ends_def)
qed

lemma loaded_blocks: "codec_ok c \<Longrightarrow> chunked c chunks p \<Longrightarrow> map (loaded c) (pk_blocks p) = chunks"
  by (simp add: chunked_def codec_ok_def comp_def)

lemma iter_from_rows:
  assumes "codec_ok c" "history_ok c p"
  shows "iter_from c t p = filter (\<lambda>r. t \<le> at_of c r) (rows_of c p)"
proof -
  obtain chunks where ch: "chunked c chunks p" "rows_of c p = concat chunks" "time_ordered c (concat chunks)"
    "[] \<notin> set chunks" "pk_time_ends p = time_ends c chunks" by (rule history_chunks [OF assms])
  let ?b = "bisect_left (time_ends c chunks) t"
  have "filter (\<lambda>r. t \<le> at_of c r) (concat (take ?b chunks)) = []"
    using early_chunks [OF ch(3,4), of _ t] by (fastforce simp: filter_empty_conv)
  then have "filter (\<lambda>r. t \<le> at_of c r) (concat chunks) = filter (\<lambda>r. t \<le> at_of c r) (concat (drop ?b chunks))"
    by (metis append_Nil append_take_drop_id concat_append filter_append)
  then show ?thesis using loaded_blocks [OF assms(1) ch(1)] ch(2,5) by (simp add: iter_from_def drop_map [symmetric])
qed

subsection \<open>Replaying one period\<close>

lemma ends_of_segment:
  assumes "first \<le> length chunks"
  shows "map (\<lambda>v. v - length (concat (take first chunks))) (drop first (take stop (ends_of 0 chunks))) =
    ends_of 0 (drop first (take stop chunks))"
proof (rule nth_equalityI)
  fix i assume "i < length (map (\<lambda>v. v - length (concat (take first chunks))) (drop first (take stop (ends_of 0 chunks))))"
  then have i: "first + i < length chunks" "first + i < stop" "i < length (drop first (take stop chunks))" by auto
  have "take (Suc (first + i)) chunks = take first chunks @ take (Suc i) (drop first chunks)"
    by (metis add_Suc_right take_add)
  moreover have "take (Suc i) (drop first (take stop chunks)) = take (Suc i) (drop first chunks)"
    using i by (simp add: drop_take)
  ultimately show "map (\<lambda>v. v - length (concat (take first chunks))) (drop first (take stop (ends_of 0 chunks))) ! i =
      ends_of 0 (drop first (take stop chunks)) ! i"
    using i by (simp del: length_concat take_Suc)
qed simp

lemma range_blocks_chunked:
  assumes "chunked c chunks p" "pk_timestamped p"
  shows "chunked c (drop (bisect_left (pk_time_ends p) start)
      (take (min (length chunks) (bisect_right (pk_time_ends p) stop + 1)) chunks)) (range_blocks start stop p)"
proof -
  have "[] \<notin> set (drop m (take n chunks))" for m n using assms(1)
    by (meson chunked_def in_set_dropD in_set_takeD)
  moreover have "block_base p (bisect_left (pk_time_ends p) start) = length (concat (take (bisect_left (pk_time_ends p) start) chunks))"
    if "bisect_left (pk_time_ends p) start \<le> length chunks" by (rule block_base_chunked [OF assms(1) that])
  ultimately show ?thesis using assms ends_of_segment
    by (cases "bisect_left (pk_time_ends p) start \<le> length chunks")
      (auto simp: chunked_def range_blocks_def empty_packed_def Let_def drop_map take_map)
qed

lemma filter_outside: "\<forall>r \<in> set xs \<union> set zs. \<not> P r \<Longrightarrow> filter P (xs @ ys @ zs) = filter P ys"
  by (simp add: filter_empty_conv)

lemma range_blocks_rows:
  assumes "codec_ok c" "history_ok c p"
  shows "packed_ok c (range_blocks start stop p)"
    and "filter (\<lambda>r. start \<le> at_of c r \<and> at_of c r \<le> stop) (rows_of c (range_blocks start stop p)) =
      filter (\<lambda>r. start \<le> at_of c r \<and> at_of c r \<le> stop) (rows_of c p)"
proof -
  obtain chunks where ch: "chunked c chunks p" "rows_of c p = concat chunks" "time_ordered c (concat chunks)"
    "[] \<notin> set chunks" "pk_time_ends p = time_ends c chunks" by (rule history_chunks [OF assms])
  let ?P = "\<lambda>r. start \<le> at_of c r \<and> at_of c r \<le> stop"
  let ?a = "bisect_left (time_ends c chunks) start" and ?z = "bisect_right (time_ends c chunks) stop + 1"
  let ?n = "min (length chunks) ?z" and ?q = "range_blocks start stop p"
  have q: "chunked c (drop ?a (take ?n chunks)) ?q"
    using range_blocks_chunked [OF ch(1)] assms(2) ch(5) by (simp add: history_ok_def)
  have rows: "rows_of c ?q = concat (drop ?a (take ?n chunks))" by (rule rows_of_chunked [OF assms(1) q])
  have "pk_count ?q = last_or 0 (pk_ends ?q)" and cache: "pk_cache ?q = []"
    by (simp_all add: range_blocks_def empty_packed_def Let_def)
  then have "pk_count ?q = length (rows_of c ?q)"
    using q rows last_ends_of [of 0 "drop ?a (take ?n chunks)"] by (simp add: chunked_def)
  with q cache show "packed_ok c ?q" by (auto simp: packed_ok_def cache_ok_def)
  have late: "\<not> ?P r" if "r \<in> set (concat (drop ?n chunks))" for r
  proof -
    from that [unfolded in_concat_nth] obtain k where k: "k < length (drop ?n chunks)" "r \<in> set (drop ?n chunks ! k)"
      by blast
    then have r: "?n + k < length chunks" "r \<in> set (chunks ! (?n + k))"
      by (simp_all only: length_drop nth_drop [OF min.cobounded1] less_diff_conv add.commute)
    then have "bisect_right (time_ends c chunks) stop < ?n + k" by (auto simp: min_def split: if_splits)
    from past_chunks [OF ch(3,4) order_refl this r] show ?thesis by simp
  qed
  have early: "\<not> ?P r" if "r \<in> set (concat (take ?a (take ?n chunks)))" for r
  proof -
    have "set (take ?a (take ?n chunks)) \<subseteq> set (take ?a chunks)" by (simp add: set_take_subset_set_take)
    with that have "r \<in> set (concat (take ?a chunks))" by auto
    from early_chunks [OF ch(3,4) this] show ?thesis by simp
  qed
  have whole: "concat chunks = concat (take ?a (take ?n chunks)) @ concat (drop ?a (take ?n chunks)) @ concat (drop ?n chunks)"
    using concat_take_drop [of chunks ?n] concat_take_drop [of "take ?n chunks" ?a] by (simp only: append_assoc)
  have "\<forall>r \<in> set (concat (take ?a (take ?n chunks))) \<union> set (concat (drop ?n chunks)). \<not> ?P r"
    using early late by blast
  from filter_outside [OF this, of "concat (drop ?a (take ?n chunks))"] whole
  show "filter ?P (rows_of c ?q) = filter ?P (rows_of c p)" by (simp only: rows ch(2))
qed

subsection \<open>Replacing a suffix\<close>

lemma retained_rows:
  assumes "codec_ok c" "history_ok c p"
  shows "concat (map (loaded c) (take (bisect_left (pk_time_ends p) t) (pk_blocks p))) @ retained c t p =
    filter (\<lambda>r. at_of c r < t) (rows_of c p)"
proof -
  obtain chunks where ch: "chunked c chunks p" "rows_of c p = concat chunks" "time_ordered c (concat chunks)"
    "[] \<notin> set chunks" "pk_time_ends p = time_ends c chunks" by (rule history_chunks [OF assms])
  let ?b = "bisect_left (time_ends c chunks) t" and ?P = "\<lambda>r. at_of c r < t"
  have blocks: "map (loaded c) (pk_blocks p) = chunks" by (rule loaded_blocks [OF assms(1) ch(1)])
  then have len: "length (pk_blocks p) = length chunks" by (metis length_map)
  have early: "filter ?P (concat (take ?b chunks)) = concat (take ?b chunks)"
    using early_chunks [OF ch(3,4)] by (simp add: filter_id_conv)
  have "filter ?P (concat (drop ?b chunks)) = retained c t p"
  proof (cases "?b < length chunks")
    case False
    then show ?thesis using len ch(5) by (simp add: retained_def)
  next
    case True
    have "\<not> ?P r" if r: "r \<in> set (concat (drop (Suc ?b) chunks))" for r
    proof -
      from r [unfolded in_concat_nth] obtain k where k: "k < length (drop (Suc ?b) chunks)" "r \<in> set (drop (Suc ?b) chunks ! k)"
        by blast
      from k(1) have j: "Suc ?b + k < length chunks" by simp
      with k(2) have rk: "r \<in> set (chunks ! (Suc ?b + k))" by simp
      have "?b < Suc ?b + k" by simp
      from late_chunks [OF ch(3,4) order_refl this j rk] show ?thesis by simp
    qed
    then have "filter ?P (concat (drop (Suc ?b) chunks)) = []" by (simp only: filter_empty_conv) blast
    moreover have "loaded c (pk_blocks p ! ?b) = chunks ! ?b" using blocks True len by (metis nth_map)
    ultimately show ?thesis using True len ch(5)
      by (simp only: Cons_nth_drop_Suc [OF True, symmetric] concat.simps filter_append) (simp add: retained_def)
  qed
  moreover have "concat chunks = concat (take ?b chunks) @ concat (drop ?b chunks)"
    by (metis append_take_drop_id concat_append)
  ultimately show ?thesis using early blocks ch(2,5) by (simp add: take_map [symmetric])
qed

lemma last_or_map_add: "xs \<noteq> [] \<Longrightarrow> last_or 0 (map (\<lambda>v. n + v) xs) = n + last_or 0 xs"
  by (simp add: last_or_def last_map)

lemma ends_of_append: "ends_of n (xs @ ys) = ends_of n xs @ ends_of (n + length (concat xs)) ys"
  by (induction ys rule: rev_induct) (simp_all add: append_assoc [symmetric] del: append_assoc length_concat)

lemma ends_of_shift: "map (\<lambda>v. n + v) (ends_of m chunks) = ends_of (n + m) chunks"
  by (simp add: ends_of_def add.assoc comp_def)

lemma take_ends_of: "take b (ends_of n chunks) = ends_of n (take b chunks)"
proof (rule nth_equalityI)
  fix i assume "i < length (take b (ends_of n chunks))"
  then have i: "i < b" "i < length chunks" by simp_all
  then have "take (Suc i) (take b chunks) = take (Suc i) chunks" by (simp add: min_def)
  with i show "take b (ends_of n chunks) ! i = ends_of n (take b chunks) ! i" by (simp del: length_concat take_take)
qed simp

lemma with_suffix_chunked:
  assumes "codec_ok c" "history_ok c p"
  shows "\<exists>chunks. chunked c chunks (with_suffix c t rows p)"
    and "rows_of c (with_suffix c t rows p) = filter (\<lambda>r. at_of c r < t) (rows_of c p) @ rows"
    and "pk_count (with_suffix c t rows p) = length (rows_of c (with_suffix c t rows p))"
proof -
  obtain chunks where ch: "chunked c chunks p" "rows_of c p = concat chunks" "time_ordered c (concat chunks)"
    "[] \<notin> set chunks" "pk_time_ends p = time_ends c chunks" by (rule history_chunks [OF assms])
  let ?b = "bisect_left (time_ends c chunks) t" and ?t = "packed c True (retained c t p @ rows)"
  let ?q = "with_suffix c t rows p"
  have b: "?b \<le> length chunks" using bisect_left_spec(1) [OF sorted_time_ends [OF ch(3,4)], of t] by (simp add: time_ends_def)
  note tail = packed_spec [OF assms(1), of True "retained c t p @ rows"]
  from tail(1) obtain ts where ts: "chunked c ts ?t" and count: "pk_count ?t = length (rows_of c ?t)"
    by (auto simp: packed_ok_def)
  have tr: "rows_of c ?t = concat ts" by (rule rows_of_chunked [OF assms(1) ts])
  have base: "block_base p ?b = length (concat (take ?b chunks))" by (rule block_base_chunked [OF ch(1) b])
  have "pk_time_ends ?t = time_ends c ts" using ts tail(3) by (simp add: chunked_def time_ends_def)
  moreover have "[] \<notin> set (take ?b chunks @ ts)" using ch(4) ts by (auto simp: chunked_def dest: in_set_takeD)
  moreover have "take ?b (pk_ends p) @ map (\<lambda>v. length (concat (take ?b chunks)) + v) (pk_ends ?t) = ends_of 0 (take ?b chunks @ ts)"
    using ch(1) ts ends_of_shift [of "length (concat (take ?b chunks))" 0 ts]
    by (simp only: chunked_def ends_of_append take_ends_of add_0 add_0_right)
  ultimately have q: "chunked c (take ?b chunks @ ts) ?q"
    using ch(1,5) ts base by (simp add: chunked_def with_suffix_def empty_packed_def time_ends_def Let_def take_map del: length_concat)
  then show "\<exists>chunks. chunked c chunks ?q" by blast
  have rows: "rows_of c ?q = concat (take ?b chunks) @ concat ts" using rows_of_chunked [OF assms(1) q] by simp
  then show "rows_of c ?q = filter (\<lambda>r. at_of c r < t) (rows_of c p) @ rows"
    using retained_rows [OF assms, of t] loaded_blocks [OF assms(1) ch(1)] tail(2) tr ch(5) by (simp add: take_map [symmetric])
  have "pk_count ?q = length (concat (take ?b chunks)) + pk_count ?t"
    using base ch(5) by (simp add: with_suffix_def empty_packed_def Let_def del: length_concat)
  then show "pk_count ?q = length (rows_of c ?q)" using rows count tr by simp
qed

lemma sorted_remdups_adj: "sorted xs \<Longrightarrow> sorted (remdups_adj xs)"
  by (induction xs rule: remdups_adj.induct) auto

lemma remdups_adj_parts:
  "\<forall>x \<in> set xs. x < t \<Longrightarrow> \<forall>y \<in> set ys. t \<le> (y :: 'a :: linorder) \<Longrightarrow> remdups_adj (xs @ ys) = remdups_adj xs @ remdups_adj ys"
proof (induction xs rule: remdups_adj.induct)
  case (2 x)
  then show ?case by (cases ys) auto
qed auto

lemma take_times:
  assumes "sorted xs" "sorted ys" "\<forall>x \<in> set xs. x < t" "\<forall>y \<in> set ys. t \<le> y"
  shows "take (bisect_left (remdups_adj (xs @ ys)) t) (remdups_adj (xs @ ys)) = remdups_adj xs"
    and "drop (bisect_left (remdups_adj (xs @ ys)) t) (remdups_adj (xs @ ys)) = remdups_adj ys"
proof -
  have "sorted (xs @ ys)" using assms by (fastforce simp: sorted_append)
  then have s: "sorted (map id (remdups_adj (xs @ ys)))" by (simp add: sorted_remdups_adj)
  note split = remdups_adj_parts [OF assms(3,4)]
  show "take (bisect_left (remdups_adj (xs @ ys)) t) (remdups_adj (xs @ ys)) = remdups_adj xs"
    using take_bisect_left [OF s, of t] assms(3,4) unfolding split
    by (auto simp: filter_empty_conv filter_id_conv)
  show "drop (bisect_left (remdups_adj (xs @ ys)) t) (remdups_adj (xs @ ys)) = remdups_adj ys"
    using drop_bisect_left [OF s, of t] assms(3,4) unfolding split
    by (auto simp: filter_empty_conv filter_id_conv not_le)
qed

lemma with_suffix_ok:
  assumes "codec_ok c" "history_ok c p" "time_ordered c rows" "\<forall>r \<in> set rows. t \<le> at_of c r"
  shows "history_ok c (with_suffix c t rows p)"
proof -
  let ?q = "with_suffix c t rows p" and ?old = "filter (\<lambda>r. at_of c r < t) (rows_of c p)"
  note q = with_suffix_chunked [OF assms(1,2), of t rows]
  have fields: "pk_timestamped ?q" "pk_cache ?q = []" by (simp_all add: with_suffix_def empty_packed_def Let_def)
  from assms(2) have old: "time_ordered c ?old" "time_ordered c (rows_of c p)" "pk_times p = remdups_adj (map (at_of c) (rows_of c p))"
    by (simp_all add: history_ok_def time_ordered_def sorted_filter)
  have order: "time_ordered c (?old @ rows)" using assms(3,4) old(1) by (fastforce simp: time_ordered_def sorted_append)
  have "rows_of c p = ?old @ filter (\<lambda>r. t \<le> at_of c r) (rows_of c p)"
    using take_bisect_left [of "at_of c" "rows_of c p" t] drop_bisect_left [of "at_of c" "rows_of c p" t] old(2)
    by (metis append_take_drop_id time_ordered_def)
  then have parts: "pk_times p = remdups_adj (map (at_of c) ?old @ map (at_of c) (filter (\<lambda>r. t \<le> at_of c r) (rows_of c p)))"
    using old(3) by (metis map_append)
  have first: "take (bisect_left (pk_times p) t) (pk_times p) = remdups_adj (map (at_of c) ?old)"
    unfolding parts by (rule take_times(1)) (use old in \<open>auto simp: time_ordered_def sorted_filter\<close>)
  let ?t = "packed c True (retained c t p @ rows)"
  have kept: "time_ordered c (retained c t p)" "\<forall>r \<in> set (retained c t p). at_of c r < t"
  proof -
    have "?old = concat (map (loaded c) (take (bisect_left (pk_time_ends p) t) (pk_blocks p))) @ retained c t p"
      by (rule retained_rows [OF assms(1,2), symmetric])
    with old(1) show "time_ordered c (retained c t p)" by (simp add: time_ordered_def sorted_append)
    show "\<forall>r \<in> set (retained c t p). at_of c r < t" by (simp add: retained_def Let_def)
  qed
  have times: "pk_times ?t = remdups_adj (map (at_of c) (retained c t p) @ map (at_of c) rows)"
    using packed_spec(5) [OF assms(1), of True "retained c t p @ rows"] by simp
  have second: "drop (bisect_left (pk_times ?t) t) (pk_times ?t) = remdups_adj (map (at_of c) rows)"
    unfolding times by (rule take_times(2)) (use kept assms(3,4) in \<open>auto simp: time_ordered_def\<close>)
  have "pk_times ?q = take (bisect_left (pk_times p) t) (pk_times p) @ drop (bisect_left (pk_times ?t) t) (pk_times ?t)"
    by (simp add: with_suffix_def empty_packed_def Let_def)
  also have "\<dots> = remdups_adj (map (at_of c) (?old @ rows))"
    unfolding first second map_append by (rule remdups_adj_parts [symmetric, where t = t]) (use assms(4) in auto)
  finally show ?thesis using q fields order by (auto simp: history_ok_def packed_ok_def cache_ok_def)
qed

section \<open>Sequences of operations\<close>

text \<open>Reading an index or a slice of a packed object, one after the other.\<close>

datatype read = Index int | Slice "int option" "int option" "int option"

fun read_answer :: "('r, 'p, 'd) codec \<Rightarrow> read \<Rightarrow> ('r, 'p) packed \<Rightarrow> ('r list \<times> ('r, 'p) packed) option" where
  "read_answer c (Index i) p = map_option (\<lambda>(row, q). ([row], q)) (get_item c i p)"
| "read_answer c (Slice start stop step) p = get_slice c start stop step p"

fun read_answers :: "('r, 'p, 'd) codec \<Rightarrow> read list \<Rightarrow> ('r, 'p) packed \<Rightarrow> 'r list option list" where
  "read_answers c [] p = []"
| "read_answers c (r # rs) p =
    (case read_answer c r p of
       None \<Rightarrow> None # read_answers c rs p
     | Some (rows, q) \<Rightarrow> Some rows # read_answers c rs q)"

fun list_answer :: "'r list \<Rightarrow> read \<Rightarrow> 'r list option" where
  "list_answer rows (Index i) =
    (let j = (if i < 0 then i + int (length rows) else i)
     in if 0 \<le> j \<and> j < int (length rows) then Some [rows ! nat j] else None)"
| "list_answer rows (Slice start stop step) = list_slice rows start stop step"

lemma read_answer_spec:
  assumes "codec_ok c" "packed_ok c p"
  shows "case list_answer (rows_of c p) r of
      None \<Rightarrow> read_answer c r p = None
    | Some rows \<Rightarrow> \<exists>q. read_answer c r p = Some (rows, q) \<and> read_ok c p q"
proof (cases r)
  case (Index i)
  with get_item_read [OF assms, of i] show ?thesis by (auto simp: Let_def split: if_splits)
next
  case (Slice start stop step)
  with get_slice_read [OF assms, of start stop step] show ?thesis by (simp split: option.splits)
qed

lemma read_answers_as_list:
  assumes "codec_ok c"
  shows "packed_ok c p \<Longrightarrow> read_answers c rs p = map (list_answer (rows_of c p)) rs"
proof (induction rs arbitrary: p)
  case (Cons r rs)
  show ?case
  proof (cases "list_answer (rows_of c p) r")
    case None
    with read_answer_spec [OF assms Cons.prems, of r] Cons.IH [OF Cons.prems] show ?thesis by simp
  next
    case (Some rows)
    with read_answer_spec [OF assms Cons.prems, of r] obtain q where q: "read_answer c r p = Some (rows, q)" "read_ok c p q" by auto
    from Cons.IH [OF read_ok_packed [OF q(2) Cons.prems]] q Some read_ok_rows [OF q(2)] show ?thesis by simp
  qed
qed simp

text \<open>Replacing suffixes, one after the other.\<close>

definition replaced :: "('r, 'p, 'd) codec \<Rightarrow> 'r list \<Rightarrow> rat \<times> 'r list \<Rightarrow> 'r list" where
  "replaced c rows u = filter (\<lambda>r. at_of c r < fst u) rows @ snd u"

definition suffix_ok :: "('r, 'p, 'd) codec \<Rightarrow> rat \<times> 'r list \<Rightarrow> bool" where
  "suffix_ok c u = (time_ordered c (snd u) \<and> list_all (\<lambda>r. fst u \<le> at_of c r) (snd u))"

definition revised :: "('r, 'p, 'd) codec \<Rightarrow> ('r, 'p) packed \<Rightarrow> (rat \<times> 'r list) list \<Rightarrow> ('r, 'p) packed" where
  "revised c p us = foldl (\<lambda>p u. with_suffix c (fst u) (snd u) p) p us"

lemma revised_rows:
  assumes "codec_ok c" "history_ok c p" "list_all (suffix_ok c) us"
  shows "history_ok c (revised c p us) \<and> rows_of c (revised c p us) = foldl (replaced c) (rows_of c p) us"
  using assms(2,3)
proof (induction us arbitrary: p)
  case (Cons u us)
  then have "history_ok c (with_suffix c (fst u) (snd u) p)"
    by (intro with_suffix_ok [OF assms(1)]) (auto simp: suffix_ok_def list_all_iff)
  from Cons.IH [OF this] Cons.prems with_suffix_chunked(2) [OF assms(1) Cons.prems(1), of "fst u" "snd u"]
  show ?case by (simp add: revised_def replaced_def)
qed (simp add: revised_def)

lemma packed_history: "codec_ok c \<Longrightarrow> time_ordered c rows \<Longrightarrow> history_ok c (packed c True rows)"
  using packed_spec [of c True rows] by (simp add: history_ok_def)

section \<open>Examples\<close>

text \<open>Sample rows: a time and a reading. Blocks are kept as they are, tagged apart from their text.\<close>

definition sample_codec :: "(rat \<times> nat, bool \<times> (rat \<times> nat) list, (nat \<times> nat) option \<times> (bool \<times> (rat \<times> nat) list) list) codec" where
  "sample_codec = \<lparr>dumped = Pair True, loaded = snd, compressed = (\<lambda>p. 30000 * length (snd p)),
     values_of = (\<lambda>r. [PFloat (fst r)]), at_of = fst, as_json = Pair False, digest = id\<rparr>"

lemma sample_codec_ok: "codec_ok sample_codec" "text_ok sample_codec"
  by (auto simp: codec_ok_def text_ok_def sample_codec_def inj_def)

definition sample_rows :: "(rat \<times> nat) list" where
  "sample_rows = [(1, 10), (2, 11), (2, 12), (5, 13), (9, 14)]"

lemma sample_rows_ordered: "time_ordered sample_codec sample_rows"
  by (simp add: time_ordered_def sample_codec_def sample_rows_def)

lemma sample_signature:
  "map_option fst (rows_signature sample_codec 1 (Some 3) (packed sample_codec False [x, y, z])) =
    Some (Some (0, 2), [(True, [y, z])])"
proof -
  have "packed sample_codec False [x, y, z] =
      (empty_packed False)\<lparr>pk_blocks := [(True, [x]), (True, [y, z])], pk_ends := [1, 3], pk_count := 3\<rparr>"
    by (simp add: packed_def add_row_def counted_def flush_batch_def pack_def pack_loop.simps(2) append_block_def empty_packed_def
        sample_codec_def packed_weight_def last_or_def)
  then show ?thesis
    by (simp add: rows_signature_def touched_blocks_def bisect_right_def bisect_right_loop.simps bisect_left_def
        bisect_left_loop.simps block_payload_def block_base_def sample_codec_def empty_packed_def)
qed

section \<open>Further properties\<close>

text \<open>
  Iterating over a packed object yields exactly the rows it was built from, in order, and its length is their
  number, however the batches were split.
\<close>

theorem packed_iterates_rows:
  assumes "codec_ok c"
  shows "rows_of c (packed c timestamps rows) = rows \<and> pk_count (packed c timestamps rows) = length rows"
  using packed_spec(1,2) [OF assms, of timestamps rows] by (simp add: packed_ok_def)

theorem packed_iterates_rows_witness:
  "rows_of sample_codec (packed sample_codec False sample_rows) = sample_rows \<and>
    pk_count (packed sample_codec False sample_rows) = length sample_rows"
  by (rule packed_iterates_rows [OF sample_codec_ok(1)])

text \<open>
  The blocks kept for one display period hold every row of the period, in order.
\<close>

theorem period_replay_complete:
  assumes "codec_ok c" and "time_ordered c rows" and "list_all (suffix_ok c) updates"
  shows "filter (\<lambda>r. start \<le> at_of c r \<and> at_of c r \<le> stop)
      (rows_of c (range_blocks start stop (revised c (packed c True rows) updates))) =
    filter (\<lambda>r. start \<le> at_of c r \<and> at_of c r \<le> stop) (foldl (replaced c) rows updates)"
  using revised_rows [OF assms(1) packed_history [OF assms(1,2)] assms(3)] packed_spec(2) [OF assms(1)]
  by (simp add: range_blocks_rows(2) [OF assms(1)])

theorem period_replay_complete_witness:
  "filter (\<lambda>r. 2 \<le> at_of sample_codec r \<and> at_of sample_codec r \<le> 5)
      (rows_of sample_codec (range_blocks 2 5 (revised sample_codec (packed sample_codec True sample_rows) [(4, [(6, 23)])]))) =
    filter (\<lambda>r. 2 \<le> at_of sample_codec r \<and> at_of sample_codec r \<le> 5) (foldl (replaced sample_codec) sample_rows [(4, [(6, 23)])])"
  by (rule period_replay_complete [OF sample_codec_ok(1) sample_rows_ordered])
    (simp add: suffix_ok_def time_ordered_def sample_codec_def)

text \<open>
  Two ranges of packed objects with the same signature hold the same rows, although complete blocks enter as
  they are stored and cut blocks as text.
\<close>

theorem equal_signatures_equal_rows:
  assumes "codec_ok c" and "text_ok c"
    and "start < stop" and "stop \<le> length rows" and "start' < stop'" and "stop' \<le> length rows'"
    and "map_option fst (rows_signature c start (Some stop) (packed c timestamps rows)) =
      map_option fst (rows_signature c start' (Some stop') (packed c timestamps' rows'))"
  shows "drop start (take stop rows) = drop start' (take stop' rows')"
  using signatures_agree [OF assms(1,2) packed_spec(1) [OF assms(1)] packed_spec(1) [OF assms(1)] assms(3) _ assms(5) _ assms(7)]
    assms(4,6) packed_spec(2) [OF assms(1)] by simp

theorem equal_signatures_equal_rows_witness:
  "drop 1 (take 3 [(7 :: rat, 7), (2, 11), (2, 12)]) = drop 1 (take 3 [(1, 10), (2, 11), (2, 12 :: nat)])"
  by (rule equal_signatures_equal_rows [OF sample_codec_ok, where timestamps = False and timestamps' = False])
    (simp_all only: sample_signature, simp_all)

section \<open>Claims\<close>

text \<open>
  C18: A packed object answers every sequence of index and slice reads, with negative bounds and any step, as
  the list of its rows would; the cache of decoded blocks never shows.
\<close>

theorem packed_reads_as_list:
  assumes "codec_ok c"
  shows "read_answers c reads (packed c timestamps rows) = map (list_answer rows) reads"
  using read_answers_as_list [OF assms packed_spec(1) [OF assms], of reads timestamps rows] packed_spec(2) [OF assms] by simp

theorem packed_reads_as_list_witness:
  "read_answers sample_codec [Index (- 1), Slice (Some 1) (Some 4) None, Index 7] (packed sample_codec False sample_rows) =
    map (list_answer sample_rows) [Index (- 1), Slice (Some 1) (Some 4) None, Index 7]"
  by (rule packed_reads_as_list [OF sample_codec_ok(1)])

text \<open>
  C36: After any sequence of suffix replacements, a packed history holds the rows before each cut followed by
  the new rows, its time index lists their distinct times, and reading from a time yields the rows at or after
  it.
\<close>

theorem suffixes_replace_rows:
  assumes "codec_ok c" and "time_ordered c rows" and "list_all (suffix_ok c) updates"
  shows "rows_of c (revised c (packed c True rows) updates) = foldl (replaced c) rows updates \<and>
    iter_from c t (revised c (packed c True rows) updates) =
      filter (\<lambda>r. t \<le> at_of c r) (foldl (replaced c) rows updates) \<and>
    pk_times (revised c (packed c True rows) updates) = remdups_adj (map (at_of c) (foldl (replaced c) rows updates))"
  using revised_rows [OF assms(1) packed_history [OF assms(1,2)] assms(3)] packed_spec(2) [OF assms(1)]
  by (auto simp: iter_from_rows [OF assms(1)] history_ok_def)

theorem suffixes_replace_rows_witness:
  "rows_of sample_codec (revised sample_codec (packed sample_codec True sample_rows) [(2, [(2, 21), (3, 22)]), (4, [(6, 23)])]) =
    foldl (replaced sample_codec) sample_rows [(2, [(2, 21), (3, 22)]), (4, [(6, 23)])]"
  by (rule conjunct1 [OF suffixes_replace_rows [OF sample_codec_ok(1) sample_rows_ordered, of _ 0]])
    (simp add: suffix_ok_def time_ordered_def sample_codec_def)

end
