(* ===== verification/Headers.thy ===== *)
theory Headers
  imports Pybase "HOL-Library.Char_ord"
begin

text \<open>\<open>session_lineage\<close> of \<open>cachemonitor/core.py\<close>: who started a session, read from its own header.\<close>

section \<open>Session headers\<close>

record lineage =
  l_parent :: string
  l_agent_path :: "string option"
  l_nickname :: "string option"
  l_depth :: "int option"

definition letter_or_digit :: "char \<Rightarrow> bool" where
  "letter_or_digit ch = ((CHR ''A'' \<le> ch \<and> ch \<le> CHR ''Z'') \<or> (CHR ''a'' \<le> ch \<and> ch \<le> CHR ''z'') \<or>
     (CHR ''0'' \<le> ch \<and> ch \<le> CHR ''9''))"

text \<open>\<open>[A-Za-z0-9_.:-]{1,128}\<close> and \<open>/[A-Za-z0-9_/-]{1,256}\<close>\<close>

definition thread_name :: "string \<Rightarrow> bool" where
  "thread_name s = (1 \<le> length s \<and> length s \<le> 128 \<and> list_all (\<lambda>ch. letter_or_digit ch \<or> ch \<in> set ''_.:-'') s)"

definition agent_path_name :: "string \<Rightarrow> bool" where
  "agent_path_name s = (case s of [] \<Rightarrow> False
     | ch # r \<Rightarrow> ch = CHR ''/'' \<and> 1 \<le> length r \<and> length r \<le> 256 \<and> list_all (\<lambda>ch. letter_or_digit ch \<or> ch \<in> set ''_/-'') r)"

definition dict_or_none :: "pyval \<Rightarrow> pydict option" where
  "dict_or_none v = (case v of PDict d \<Rightarrow> Some d | _ \<Rightarrow> None)"

definition or_value :: "pyval \<Rightarrow> pyval \<Rightarrow> pyval" where
  "or_value a b = (if truthy a then a else b)"

definition session_lineage :: "pyval \<Rightarrow> string \<Rightarrow> lineage option" where
  "session_lineage payload thread_id =
    (case payload of PDict p \<Rightarrow>
       if dget p ''id'' \<noteq> PStr thread_id then None else
       (let subagent = (case dget p ''source'' of PDict s \<Rightarrow> dget s ''subagent'' | _ \<Rightarrow> PNone);
            spawn = (case subagent of PDict a \<Rightarrow> (case dget a ''thread_spawn'' of PDict t \<Rightarrow> t | _ \<Rightarrow> []) | _ \<Rightarrow> []);
            direct = dget p ''parent_thread_id''; nested = dget spawn ''parent_thread_id''
        in if truthy direct \<and> truthy nested \<and> direct \<noteq> nested then None else
        (case or_value direct nested of PStr parent \<Rightarrow>
           if parent = thread_id \<or> \<not> thread_name parent then None else
           Some \<lparr>l_parent = parent,
             l_agent_path = (case dget spawn ''agent_path'' of PStr s \<Rightarrow> if agent_path_name s then Some s else None | _ \<Rightarrow> None),
             l_nickname = (case or_value (dget p ''agent_nickname'') (dget spawn ''agent_nickname'') of
                PStr s \<Rightarrow> if 0 < length s \<and> length s \<le> 128 \<and> CHR 0x0A \<notin> set s \<and> CHR 0x0D \<notin> set s then Some s else None
              | _ \<Rightarrow> None),
             l_depth = (case dget spawn ''depth'' of PInt d \<Rightarrow> if d > 0 then Some d else None | _ \<Rightarrow> None)\<rparr>
         | _ \<Rightarrow> None))
     | _ \<Rightarrow> None)"

end
