(* ===== verification/Lineage.thy ===== *)
theory Lineage
  imports Pricing Bisect Headers
begin

text \<open>
  Task ancestry: the cost roll-up of \<open>cachemonitor/session_costs.py\<close> and the mode inheritance of
  \<open>cachemonitor/request_modes.py\<close>. Both walk a parent map that may be corrupt; the
  locale \<open>ancestry\<close> holds what they share.
\<close>

section \<open>Walking a parent map\<close>

type_synonym skey = "string \<times> string"

text \<open>\<open>ancestors\<close>: the chain above a key, or nothing where it runs into a cycle.\<close>

function ancestors_loop :: "('k \<times> 'k) list \<Rightarrow> 'k \<Rightarrow> 'k list \<Rightarrow> 'k list \<Rightarrow> 'k list" where
  "ancestors_loop parents key seen result =
    (case map_of parents key of None \<Rightarrow> result
     | Some p \<Rightarrow> if p \<in> set seen then [] else ancestors_loop parents p (p # seen) (result @ [p]))"
  by pat_completeness auto

lemma parent_in_values: "map_of ps k = Some p \<Longrightarrow> p \<in> snd ` set ps"
  by (force dest: map_of_SomeD)

lemma unseen_decreases: "map_of ps k = Some p \<Longrightarrow> p \<notin> set seen \<Longrightarrow>
    card (snd ` set ps - set (p # seen)) < card (snd ` set ps - set seen)"
  by (rule psubset_card_mono) (use parent_in_values [of ps k p] in auto)

termination ancestors_loop
  by (relation "measure (\<lambda>(ps, k, seen, r). card (snd ` set ps - set seen))") (use unseen_decreases in auto)

declare ancestors_loop.simps [simp del]

definition ancestors :: "('k \<times> 'k) list \<Rightarrow> 'k \<Rightarrow> 'k list" where
  "ancestors parents key = ancestors_loop parents key [key] []"

text \<open>The \<open>while\<close> loop of \<open>mode_parents\<close>: the key it stops at and what it has seen.\<close>

function mode_walk :: "('k \<times> 'k) list \<Rightarrow> 'k list \<Rightarrow> 'k \<Rightarrow> 'k \<times> 'k list" where
  "mode_walk parents seen ancestor =
    (if ancestor \<notin> set seen then
       (case map_of parents ancestor of None \<Rightarrow> (ancestor, seen)
        | Some p \<Rightarrow> mode_walk parents (ancestor # seen) p)
     else (ancestor, seen))"
  by pat_completeness auto

lemma unseen_key_decreases: "map_of ps a = Some p \<Longrightarrow> a \<notin> set seen \<Longrightarrow>
    card (fst ` set ps - set (a # seen)) < card (fst ` set ps - set seen)"
  by (rule psubset_card_mono) (force dest: map_of_SomeD)+

termination mode_walk
  by (relation "measure (\<lambda>(ps, seen, a). card (fst ` set ps - set seen))") (use unseen_key_decreases in auto)

declare mode_walk.simps [simp del]

subsection \<open>The shared contract\<close>

text \<open>
  A parent map, a chain function that follows it, and the law that the chain is either
  the whole path to a key without a parent, or empty.
\<close>

fun path :: "('k \<Rightarrow> 'k option) \<Rightarrow> 'k \<Rightarrow> 'k list \<Rightarrow> bool" where
  "path up k [] = (up k = None)"
| "path up k (p # ps) = (up k = Some p \<and> path up p ps)"

lemma path_unique: "path up k ps \<Longrightarrow> path up k qs \<Longrightarrow> ps = qs"
proof (induction up k ps arbitrary: qs rule: path.induct)
  case (1 up k)
  then show ?case by (cases qs) auto
next
  case (2 up k p ps)
  then show ?case by (cases qs) auto
qed

lemma path_suffix: "path up k (ps @ q # qs) \<Longrightarrow> path up q qs"
  by (induction up k ps rule: path.induct) auto

lemma path_distinct: "path up k ps \<Longrightarrow> k \<notin> set ps \<and> distinct ps"
proof (induction up k ps rule: path.induct)
  case (2 up k p ps)
  then have pd: "p \<notin> set ps" "distinct ps" and p: "path up p ps" by auto
  have "k \<notin> set (p # ps)"
  proof
    assume "k \<in> set (p # ps)"
    then obtain as bs where s: "p # ps = as @ k # bs" by (meson split_list)
    with "2.prems" have "path up k (as @ k # bs)" by simp
    then have "path up k bs" by (rule path_suffix)
    with path_unique [OF "2.prems"] have "bs = p # ps" by blast
    with s show False by (metis append.assoc append_Cons append_self_conv2 length_append length_Cons not_add_less2 lessI
          less_add_Suc2)
  qed
  with pd show ?case by simp
qed simp

locale ancestry =
  fixes up :: "'k \<Rightarrow> 'k option" and chain :: "'k \<Rightarrow> 'k list"
  assumes chain_path: "chain k \<noteq> [] \<Longrightarrow> path up k (chain k)"
    and chain_complete: "path up k ps \<Longrightarrow> chain k = ps"
begin

lemma chain_distinct: "distinct (chain k)" "k \<notin> set (chain k)"
  using chain_path [of k] path_distinct [of up k "chain k"] by (cases "chain k = []"; simp)+

lemma chain_suffix:
  assumes "chain k = ps @ q # qs"
  shows "chain q = qs"
proof -
  have "path up k (ps @ q # qs)" using chain_path [of k] assms by auto
  then show ?thesis by (intro chain_complete) (rule path_suffix)
qed

text \<open>The top of a key: itself, or the last of its chain; it is the only chainless key at or above it.\<close>

definition top_of :: "'k \<Rightarrow> 'k" where
  "top_of k = (if chain k = [] then k else last (chain k))"

lemma chain_top: "chain (top_of k) = []"
proof (cases "chain k" rule: rev_cases)
  case (snoc ps q)
  then show ?thesis using chain_suffix [of k ps q "[]"] by (simp add: top_of_def)
qed (simp add: top_of_def)

lemma top_unique: "q \<in> set (k # chain k) \<and> chain q = [] \<longleftrightarrow> q = top_of k"
proof
  assume q: "q \<in> set (k # chain k) \<and> chain q = []"
  show "q = top_of k"
  proof (cases "q = k")
    case False
    with q obtain ps qs where s: "chain k = ps @ q # qs" by (auto dest: split_list)
    with chain_suffix [OF s] q show ?thesis by (simp add: top_of_def)
  qed (use q in \<open>simp add: top_of_def\<close>)
next
  assume "q = top_of k"
  then show "q \<in> set (k # chain k) \<and> chain q = []"
    using chain_top [of k] by (auto simp: top_of_def)
qed

text \<open>Rolling values up to the chainless keys counts every key exactly once.\<close>

lemma rollup_conserves:
  fixes f :: "'k \<Rightarrow> 'a::comm_monoid_add"
  assumes "finite K" "\<And>k. k \<in> K \<Longrightarrow> set (chain k) \<subseteq> K"
  shows "(\<Sum>t \<in> {t \<in> K. chain t = []}. f t + (\<Sum>j \<in> {j \<in> K. t \<in> set (chain j)}. f j)) = (\<Sum>j \<in> K. f j)"
proof -
  have grp: "f t + (\<Sum>j \<in> {j \<in> K. t \<in> set (chain j)}. f j) = (\<Sum>j \<in> {j \<in> K. top_of j = t}. f j)"
    if t: "t \<in> K" "chain t = []" for t
  proof -
    have "{j \<in> K. top_of j = t} = insert t {j \<in> K. t \<in> set (chain j)}"
    proof -
      have "top_of j = t \<longleftrightarrow> t = j \<or> t \<in> set (chain j)" for j
        using top_unique [of t j] t(2) by auto
      with t(1) show ?thesis by auto
    qed
    moreover have "t \<notin> {j \<in> K. t \<in> set (chain j)}" using t(2) by auto
    ultimately show ?thesis using assms(1) by simp
  qed
  have "(\<Sum>t \<in> {t \<in> K. chain t = []}. f t + (\<Sum>j \<in> {j \<in> K. t \<in> set (chain j)}. f j)) =
      (\<Sum>t \<in> {t \<in> K. chain t = []}. \<Sum>j \<in> {j \<in> K. top_of j = t}. f j)"
    by (rule sum.cong) (auto simp: grp)
  also have "\<dots> = (\<Sum>j \<in> K. f j)"
  proof (rule sum.group)
    show "top_of ` K \<subseteq> {t \<in> K. chain t = []}"
    proof
      fix t assume "t \<in> top_of ` K"
      then obtain j where j: "j \<in> K" "t = top_of j" by auto
      have "t \<in> K" using assms(2) [OF j(1)] j by (cases "chain j = []") (auto simp: top_of_def)
      then show "t \<in> {t \<in> K. chain t = []}" using chain_top [of j] j(2) by simp
    qed
  qed (use assms(1) in auto)
  finally show ?thesis .
qed

end

subsection \<open>The loops satisfy it\<close>

lemma ancestors_loop_path:
  assumes "ancestors_loop ps k seen res \<noteq> []"
  shows "\<exists>rest. ancestors_loop ps k seen res = res @ rest \<and> path (map_of ps) k rest"
  using assms
proof (induction ps k seen res rule: ancestors_loop.induct)
  case (1 ps k seen res)
  show ?case
  proof (cases "map_of ps k")
    case None
    then have "ancestors_loop ps k seen res = res" by (simp add: ancestors_loop.simps)
    with None show ?thesis by (intro exI [of _ "[]"]) simp
  next
    case (Some p)
    show ?thesis
    proof (cases "p \<in> set seen")
      case True
      with Some "1.prems" show ?thesis by (simp add: ancestors_loop.simps)
    next
      case False
      then have eq: "ancestors_loop ps k seen res = ancestors_loop ps p (p # seen) (res @ [p])"
        using Some by (simp add: ancestors_loop.simps [of ps k])
      from "1.IH" [OF Some False] "1.prems" obtain rest
        where "ancestors_loop ps p (p # seen) (res @ [p]) = (res @ [p]) @ rest" "path (map_of ps) p rest"
        unfolding eq by blast
      with eq Some show ?thesis by (intro exI [of _ "p # rest"]) simp
    qed
  qed
qed

lemma ancestors_loop_complete:
  assumes "path (map_of ps) k rest" "set rest \<inter> set seen = {}"
  shows "ancestors_loop ps k seen res = res @ rest"
  using assms
proof (induction "map_of ps" k rest arbitrary: seen res rule: path.induct)
  case (1 k)
  then show ?case by (simp add: ancestors_loop.simps)
next
  case (2 k p qs)
  then have k: "map_of ps k = Some p" "path (map_of ps) p qs" "p \<notin> set seen" by auto
  have "p \<notin> set qs" using path_distinct [OF k(2)] by simp
  then have "set qs \<inter> set (p # seen) = {}" using "2.prems"(2) by auto
  with "2.hyps" k(2) have "ancestors_loop ps p (p # seen) (res @ [p]) = (res @ [p]) @ qs" by blast
  with k show ?case by (simp add: ancestors_loop.simps [of ps k])
qed

interpretation walk: ancestry "map_of parents" "ancestors parents" for parents
proof unfold_locales
  fix k :: 'a assume "ancestors parents k \<noteq> []"
  then show "path (map_of parents) k (ancestors parents k)"
    using ancestors_loop_path [of parents k "[k]" "[]"] by (auto simp: ancestors_def)
next
  fix k :: 'a and ps assume p: "path (map_of parents) k ps"
  then have "set ps \<inter> set [k] = {}" using path_distinct [OF p] by simp
  from ancestors_loop_complete [OF p this] show "ancestors parents k = ps" by (simp add: ancestors_def)
qed

lemma ancestors_values: "set (ancestors parents k) \<subseteq> snd ` set parents"
proof -
  have "path (map_of ps) k qs \<Longrightarrow> set qs \<subseteq> snd ` set ps" for ps :: "('a \<times> 'a) list" and k qs
  proof (induction "map_of ps" k qs rule: path.induct)
    case (2 k p qs)
    then show ?case using parent_in_values [of ps k p] by auto
  qed simp
  then show ?thesis using walk.chain_path [of parents k] by (cases "ancestors parents k = []") auto
qed

text \<open>The walk of \<open>mode_parents\<close> accepts a key when its parents lead to one without a parent.\<close>

definition walk_valid :: "('k \<times> 'k) list \<Rightarrow> 'k \<Rightarrow> bool" where
  "walk_valid parents k = (case map_of parents k of None \<Rightarrow> False
     | Some p \<Rightarrow> (case mode_walk parents [k] p of (a, seen) \<Rightarrow> a \<notin> set seen))"

lemma mode_walk_path:
  "fst (mode_walk ps seen a) \<notin> set (snd (mode_walk ps seen a)) \<longleftrightarrow>
    (\<exists>qs. path (map_of ps) a qs \<and> set (a # qs) \<inter> set seen = {})"
proof (induction ps seen a rule: mode_walk.induct)
  case (1 ps seen a)
  show ?case
  proof (cases "a \<in> set seen")
    case True
    then show ?thesis by (auto simp: mode_walk.simps)
  next
    case False
    show ?thesis
    proof (cases "map_of ps a")
      case None
      have "path (map_of ps) a qs = (qs = [])" for qs using None by (cases qs) auto
      with None False show ?thesis by (simp add: mode_walk.simps)
    next
      case (Some p)
      then have eq: "mode_walk ps seen a = mode_walk ps (a # seen) p"
        using False by (simp add: mode_walk.simps [of ps seen a])
      have "(\<exists>qs. path (map_of ps) p qs \<and> set (p # qs) \<inter> set (a # seen) = {}) \<longleftrightarrow>
          (\<exists>qs. path (map_of ps) a qs \<and> set (a # qs) \<inter> set seen = {})"
      proof
        assume "\<exists>qs. path (map_of ps) p qs \<and> set (p # qs) \<inter> set (a # seen) = {}"
        then obtain qs where "path (map_of ps) p qs" "set (p # qs) \<inter> set (a # seen) = {}" by blast
        with Some False have "path (map_of ps) a (p # qs) \<and> set (a # p # qs) \<inter> set seen = {}" by auto
        then show "\<exists>qs. path (map_of ps) a qs \<and> set (a # qs) \<inter> set seen = {}" by blast
      next
        assume "\<exists>qs. path (map_of ps) a qs \<and> set (a # qs) \<inter> set seen = {}"
        then obtain qs where q: "path (map_of ps) a qs" "set (a # qs) \<inter> set seen = {}" by blast
        with Some obtain rs where rs: "qs = p # rs" by (cases qs) auto
        have "a \<notin> set qs" using path_distinct [OF q(1)] by simp
        with q rs have "path (map_of ps) p rs \<and> set (p # rs) \<inter> set (a # seen) = {}" by auto
        then show "\<exists>qs. path (map_of ps) p qs \<and> set (p # qs) \<inter> set (a # seen) = {}" by blast
      qed
      with "1.IH" [OF False Some] show ?thesis unfolding eq by blast
    qed
  qed
qed

lemma walk_valid_iff: "walk_valid parents k \<longleftrightarrow> ancestors parents k \<noteq> []"
proof
  assume "walk_valid parents k"
  then obtain p qs where p: "map_of parents k = Some p" "path (map_of parents) p qs"
    using mode_walk_path [of parents "[k]"] by (auto simp: walk_valid_def split_beta split: option.splits)
  then have "path (map_of parents) k (p # qs)" by simp
  from walk.chain_complete [OF this] show "ancestors parents k \<noteq> []" by simp
next
  assume "ancestors parents k \<noteq> []"
  from walk.chain_path [OF this] this obtain p qs
    where pq: "map_of parents k = Some p" "path (map_of parents) p qs" "ancestors parents k = p # qs"
    by (cases "ancestors parents k") auto
  have "k \<notin> set (p # qs)" using walk.chain_distinct(2) [of k parents] pq(3) by simp
  then have "\<exists>qs. path (map_of parents) p qs \<and> set (p # qs) \<inter> set [k] = {}" using pq(2) by auto
  with pq(1) show "walk_valid parents k"
    unfolding walk_valid_def mode_walk_path [symmetric] by (simp add: split_beta)
qed

section \<open>Cost roll-up\<close>

record own =
  o_cost :: rat
  o_calls :: nat
  o_priced :: nat
  o_cache_input :: int
  o_cache_read :: int
  o_latest :: "rat option"
  o_gap :: bool

definition no_own :: own where
  "no_own = \<lparr>o_cost = 0, o_calls = 0, o_priced = 0, o_cache_input = 0, o_cache_read = 0, o_latest = None, o_gap = False\<rparr>"

text \<open>\<open>max(latest or stamp, stamp)\<close>: a zero time counts as absent.\<close>

definition later_of :: "rat option \<Rightarrow> rat \<Rightarrow> rat option" where
  "later_of latest stamp = Some (max (case latest of None \<Rightarrow> stamp | Some t \<Rightarrow> if t = 0 then stamp else t) stamp)"

definition cache_sample :: "call \<Rightarrow> (int \<times> int) option" where
  "cache_sample row = (case (c_input row, c_cached row) of
     (PInt i, PInt c) \<Rightarrow> if i > 0 \<and> 0 \<le> c \<and> c \<le> i then Some (i, c) else None | _ \<Rightarrow> None)"

definition add_call :: "call \<Rightarrow> own \<Rightarrow> own" where
  "add_call row v =
    (let (i, c) = (case cache_sample row of Some s \<Rightarrow> s | None \<Rightarrow> (0, 0))
     in v\<lparr>o_calls := o_calls v + 1,
          o_cost := o_cost v + (case c_cost row of None \<Rightarrow> 0 | Some x \<Rightarrow> x),
          o_priced := o_priced v + (case c_cost row of None \<Rightarrow> 0 | Some _ \<Rightarrow> 1),
          o_cache_input := o_cache_input v + i, o_cache_read := o_cache_read v + c,
          o_latest := later_of (o_latest v) (c_ts row)\<rparr>)"

definition own_costs :: "call list \<Rightarrow> (skey \<times> own) list" where
  "own_costs rows = foldl (\<lambda>d row.
     let k = (c_home row, c_sid row); v = (case map_of d k of None \<Rightarrow> no_own | Some v \<Rightarrow> v)
     in AList.update k (add_call row v) d) [] rows"

record session_row =
  ss_home :: string
  ss_id :: string
  ss_parent :: pyval

definition session_key :: "session_row \<Rightarrow> skey" where
  "session_key s = (ss_home s, ss_id s)"

definition indexed_sessions :: "session_row list \<Rightarrow> (skey \<times> session_row) list" where
  "indexed_sessions sessions = foldl (\<lambda>d s. AList.update (session_key s) s d) [] sessions"

definition session_parents :: "(skey \<times> session_row) list \<Rightarrow> (skey \<times> skey) list" where
  "session_parents indexed = List.map_filter (\<lambda>(key, s). case ss_parent s of
     PStr p \<Rightarrow> if (fst key, p) \<noteq> key \<and> (fst key, p) \<in> fst ` set indexed then Some (key, (fst key, p)) else None
   | _ \<Rightarrow> None) indexed"

record rollup =
  ru_own_cost :: "rat option"
  ru_own_calls :: nat
  ru_own_priced :: nat
  ru_child_cost_sum :: rat
  ru_child_calls :: nat
  ru_child_priced :: nat
  ru_descendants :: nat
  ru_members :: "skey list"
  ru_cache_input :: int
  ru_cache_read :: int
  ru_latest :: "rat option"
  ru_gap :: bool
  ru_cost :: "rat option"
  ru_child_cost :: "rat option"
  ru_calls :: nat
  ru_priced :: nat
  ru_partial :: bool
  ru_cache_ratio :: "rat option"

definition own_of :: "(skey \<times> own) list \<Rightarrow> skey \<Rightarrow> own" where
  "own_of d k = (case map_of d k of None \<Rightarrow> no_own | Some v \<Rightarrow> v)"

definition base_rollup :: "(skey \<times> own) list \<Rightarrow> skey \<Rightarrow> rollup" where
  "base_rollup d key =
    (let v = own_of d key
     in \<lparr>ru_own_cost = (if o_priced v > 0 then Some (o_cost v) else if o_calls v = 0 then Some 0 else None),
         ru_own_calls = o_calls v, ru_own_priced = o_priced v, ru_child_cost_sum = 0, ru_child_calls = 0,
         ru_child_priced = 0, ru_descendants = 0, ru_members = [key], ru_cache_input = o_cache_input v,
         ru_cache_read = o_cache_read v, ru_latest = o_latest v, ru_gap = o_gap v,
         ru_cost = None, ru_child_cost = None, ru_calls = 0, ru_priced = 0, ru_partial = False,
         ru_cache_ratio = None\<rparr>)"

definition add_child :: "(skey \<times> own) list \<Rightarrow> skey \<Rightarrow> rollup \<Rightarrow> rollup" where
  "add_child d key t =
    (let v = own_of d key
     in t\<lparr>ru_descendants := ru_descendants t + 1, ru_members := ru_members t @ [key],
          ru_child_cost_sum := ru_child_cost_sum t + o_cost v, ru_child_calls := ru_child_calls t + o_calls v,
          ru_child_priced := ru_child_priced t + o_priced v, ru_cache_input := ru_cache_input t + o_cache_input v,
          ru_cache_read := ru_cache_read t + o_cache_read v,
          ru_latest := (case o_latest v of None \<Rightarrow> ru_latest t | Some s \<Rightarrow> later_of (ru_latest t) s),
          ru_gap := (ru_gap t \<or> o_gap v)\<rparr>)"

definition finish_rollup :: "rollup \<Rightarrow> rollup" where
  "finish_rollup t =
    (let calls = ru_own_calls t + ru_child_calls t; priced = ru_own_priced t + ru_child_priced t
     in t\<lparr>ru_cost := (if priced > 0 then Some ((case ru_own_cost t of None \<Rightarrow> 0 | Some x \<Rightarrow> x) + ru_child_cost_sum t) else None),
          ru_child_cost := (if ru_child_priced t > 0 then Some (ru_child_cost_sum t)
                            else if ru_child_calls t = 0 then Some 0 else None),
          ru_calls := calls, ru_priced := priced, ru_partial := (priced < calls \<or> ru_gap t),
          ru_cache_ratio := (if ru_cache_input t \<noteq> 0
            then Some (100 * of_int (ru_cache_read t) / of_int (ru_cache_input t)) else None)\<rparr>)"

definition session_costs :: "session_row list \<Rightarrow> (skey \<times> own) list \<Rightarrow> (skey \<times> rollup) list" where
  "session_costs sessions d =
    (let indexed = indexed_sessions sessions; parents = session_parents indexed; keys = map fst indexed;
         base = map (\<lambda>k. (k, base_rollup d k)) keys;
         filled = foldl (\<lambda>res key. foldl (\<lambda>res p. AList.map_entry p (add_child d key) res) res (ancestors parents key)) base keys
     in map (\<lambda>(k, v). (k, finish_rollup v)) filled)"

subsection \<open>Facts on the roll-up\<close>

lemma indexed_sessions_distinct: "distinct (map fst (indexed_sessions sessions))"
proof -
  have "distinct (map fst d) \<Longrightarrow> distinct (map fst (foldl (\<lambda>d s. AList.update (session_key s) s d) d ss))" for d ss
    by (induction ss arbitrary: d) (simp_all add: distinct_update)
  then show ?thesis by (simp add: indexed_sessions_def)
qed

lemma session_parents_known:
  "snd ` set (session_parents indexed) \<subseteq> fst ` set indexed"
  by (auto simp: session_parents_def List.map_filter_def split: pyval.splits if_splits)

lemma session_ancestors_known: "set (ancestors (session_parents indexed) k) \<subseteq> fst ` set indexed"
  by (rule order_trans [OF ancestors_values session_parents_known])

lemma fold_entries:
  "distinct ps \<Longrightarrow> map_of (foldl (\<lambda>res p. AList.map_entry p f res) res ps) k =
    (if k \<in> set ps then map_option f (map_of res k) else map_of res k)"
proof (induction ps arbitrary: res)
  case (Cons p ps)
  then show ?case by (cases "map_of res k") (auto simp: map_of_map_entry)
qed simp

lemma fold_children:
  assumes "\<And>j. distinct (anc j)"
  shows "map_of (foldl (\<lambda>res key. foldl (\<lambda>res p. AList.map_entry p (f key) res) res (anc key)) res keys) k =
    map_option (\<lambda>v. foldl (\<lambda>v j. f j v) v (filter (\<lambda>j. k \<in> set (anc j)) keys)) (map_of res k)"
proof (induction keys arbitrary: res)
  case (Cons j keys)
  have "map_of (foldl (\<lambda>res p. AList.map_entry p (f j) res) res (anc j)) k =
      (if k \<in> set (anc j) then map_option (f j) (map_of res k) else map_of res k)"
    by (rule fold_entries [OF assms])
  with Cons show ?case by (cases "map_of res k") auto
qed (simp add: option.map_ident)

definition children_of :: "session_row list \<Rightarrow> skey \<Rightarrow> skey list" where
  "children_of sessions k =
    filter (\<lambda>j. k \<in> set (ancestors (session_parents (indexed_sessions sessions)) j)) (map fst (indexed_sessions sessions))"

lemma session_costs_lookup:
  "map_of (session_costs sessions d) k =
    (if k \<in> fst ` set (indexed_sessions sessions)
     then Some (finish_rollup (foldl (\<lambda>v j. add_child d j v) (base_rollup d k) (children_of sessions k))) else None)"
proof -
  let ?ks = "map fst (indexed_sessions sessions)"
  have base: "map_of (map (\<lambda>k. (k, base_rollup d k)) ?ks) k = (if k \<in> set ?ks then Some (base_rollup d k) else None)"
    by (simp only: map_of_map_restrict restrict_map_def o_apply)
  show ?thesis
    by (simp add: session_costs_def Let_def map_of_map fold_children walk.chain_distinct(1) base children_of_def
        del: map_map)
qed

lemma foldl_add_child:
  "ru_own_calls (foldl (\<lambda>v j. add_child d j v) t js) = ru_own_calls t"
  "ru_own_priced (foldl (\<lambda>v j. add_child d j v) t js) = ru_own_priced t"
  "ru_own_cost (foldl (\<lambda>v j. add_child d j v) t js) = ru_own_cost t"
  "ru_child_calls (foldl (\<lambda>v j. add_child d j v) t js) = ru_child_calls t + sum_list (map (\<lambda>j. o_calls (own_of d j)) js)"
  "ru_child_priced (foldl (\<lambda>v j. add_child d j v) t js) = ru_child_priced t + sum_list (map (\<lambda>j. o_priced (own_of d j)) js)"
  "ru_child_cost_sum (foldl (\<lambda>v j. add_child d j v) t js) = ru_child_cost_sum t + sum_list (map (\<lambda>j. o_cost (own_of d j)) js)"
  "ru_cache_input (foldl (\<lambda>v j. add_child d j v) t js) = ru_cache_input t + sum_list (map (\<lambda>j. o_cache_input (own_of d j)) js)"
  "ru_cache_read (foldl (\<lambda>v j. add_child d j v) t js) = ru_cache_read t + sum_list (map (\<lambda>j. o_cache_read (own_of d j)) js)"
  "ru_descendants (foldl (\<lambda>v j. add_child d j v) t js) = ru_descendants t + length js"
  "ru_members (foldl (\<lambda>v j. add_child d j v) t js) = ru_members t @ js"
  by (induction js arbitrary: t) (simp_all add: add_child_def Let_def ac_simps)

lemma session_costs_member:
  assumes "map_of (session_costs sessions d) k = Some v"
  shows "ru_calls v = o_calls (own_of d k) + sum_list (map (\<lambda>j. o_calls (own_of d j)) (children_of sessions k))"
    "ru_priced v = o_priced (own_of d k) + sum_list (map (\<lambda>j. o_priced (own_of d j)) (children_of sessions k))"
    "ru_members v = k # children_of sessions k"
    "ru_descendants v = length (children_of sessions k)"
  using assms
  by (auto simp: session_costs_lookup finish_rollup_def Let_def foldl_add_child base_rollup_def split: if_splits)

lemma distinct_children: "distinct (children_of sessions k)"
  unfolding children_of_def by (rule distinct_filter) (rule indexed_sessions_distinct)

text \<open>Every call of a known session is counted under exactly one top-level session.\<close>

lemma session_costs_conserve:
  fixes f :: "own \<Rightarrow> nat"
  shows "(\<Sum>t \<in> {t \<in> fst ` set (indexed_sessions sessions). ancestors (session_parents (indexed_sessions sessions)) t = []}.
      f (own_of d t) + sum_list (map (\<lambda>j. f (own_of d j)) (children_of sessions t))) =
    (\<Sum>j \<in> fst ` set (indexed_sessions sessions). f (own_of d j))"
proof -
  let ?K = "fst ` set (indexed_sessions sessions)" and ?ps = "session_parents (indexed_sessions sessions)"
  have "sum_list (map (\<lambda>j. f (own_of d j)) (children_of sessions t)) =
      (\<Sum>j \<in> {j \<in> ?K. t \<in> set (ancestors ?ps j)}. f (own_of d j))" for t
    by (subst sum_list_distinct_conv_sum_set [OF distinct_children]) (rule sum.cong; auto simp: children_of_def)
  then show ?thesis
    using walk.rollup_conserves [of ?K ?ps "\<lambda>j. f (own_of d j)"] session_ancestors_known by simp
qed

section \<open>Inherited request modes\<close>

record mode_row =
  mo_call :: call
  mo_turn :: "string option"
  mo_request_observed_at :: pyval
  mo_mode_source :: "string option"
  mo_mode_action :: "string option"

record mode_session =
  md_home :: string
  md_id :: string
  md_history :: "mode_row list"
  md_turns :: "(string option \<times> pyval) list" \<comment> \<open>\<open>turn_records\<close>: the \<open>started_at\<close> of each turn\<close>

definition mode_parent_map :: "(skey \<times> session_row) list \<Rightarrow> (skey \<times> skey) list" where
  "mode_parent_map indexed = List.map_filter (\<lambda>(key, s). case ss_parent s of
     PStr p \<Rightarrow> if (fst key, p) \<in> fst ` set indexed then Some (key, (fst key, p)) else None
   | _ \<Rightarrow> None) indexed"

definition mode_parents :: "session_row list \<Rightarrow> (skey \<times> session_row option) list" where
  "mode_parents sessions =
    (let indexed = indexed_sessions sessions; parents = mode_parent_map indexed
     in map (\<lambda>(k, p). (k, map_of indexed p)) (filter (\<lambda>(k, p). walk_valid parents k) parents))"

definition mode_time :: "mode_session \<Rightarrow> mode_row \<Rightarrow> rat option" where
  "mode_time s row =
    (case finite_number (mo_request_observed_at row) of Some t \<Rightarrow> Some t
     | None \<Rightarrow> (case map_of (md_turns s) (mo_turn row) of
         Some v \<Rightarrow> (case finite_number v of Some t \<Rightarrow> Some t | None \<Rightarrow> Some (c_ts (mo_call row)))
       | None \<Rightarrow> Some (c_ts (mo_call row))))"

definition requires_parent_mode :: "call \<Rightarrow> bool" where
  "requires_parent_mode r = (request_tier r = mihwagin \<and> \<not> c_mode_conflict r \<and> c_service_tier_source r \<noteq> Some ''conflict'')"

record timeline =
  tl_times :: "rat list"
  tl_modes :: "string list"

text \<open>A set of modes that names exactly one, or unconfirmed.\<close>

definition sole_mode :: "string list \<Rightarrow> string" where
  "sole_mode ms = (case remdups ms of [m] \<Rightarrow> m | _ \<Rightarrow> mihwagin)"

definition timeline_at :: "timeline \<Rightarrow> rat option \<Rightarrow> string" where
  "timeline_at line t = (case t of None \<Rightarrow> mihwagin
     | Some x \<Rightarrow> let n = bisect_right (tl_times line) x in if n \<ge> 1 then tl_modes line ! (n - 1) else mihwagin)"

definition turn_mode :: "mode_session \<Rightarrow> ((string \<times> string \<times> string option) \<Rightarrow> string option) \<Rightarrow> timeline option \<Rightarrow>
    string option \<Rightarrow> rat \<Rightarrow> string" where
  "turn_mode s modes parent turn t =
    (let rows = filter (\<lambda>r. mo_turn r = turn) (md_history s);
         m0 = (case modes (md_home s, md_id s, turn) of None \<Rightarrow> mihwagin | Some m \<Rightarrow> m);
         settings = remdups (map (\<lambda>r. request_tier (mo_call r))
           (filter (\<lambda>r. c_service_tier_source (mo_call r) \<notin> {Some ''wire'', Some ''parent''}) rows));
         m1 = (if m0 = mihwagin \<and> length settings = 1 then hd settings else m0)
     in case parent of
          Some p \<Rightarrow> if m1 = mihwagin \<and> \<not> list_ex (\<lambda>r. c_mode_conflict (mo_call r)) rows then timeline_at p (Some t) else m1
        | None \<Rightarrow> m1)"

definition parent_mode_timeline :: "mode_session \<Rightarrow> ((string \<times> string \<times> string option) \<Rightarrow> string option) \<Rightarrow>
    timeline option \<Rightarrow> timeline" where
  "parent_mode_timeline s modes parent =
    (let turns = foldl (\<lambda>ev (turn, started). case finite_number started of None \<Rightarrow> ev
           | Some t \<Rightarrow> AList.update t [turn_mode s modes parent turn t] ev) [] (md_turns s);
         calls = buckets fst (List.map_filter (\<lambda>r. map_option (\<lambda>t. (t, request_tier (mo_call r))) (mode_time s r)) (md_history s));
         events = foldl (\<lambda>ev (t, ms). AList.update t (map snd ms) ev) turns calls;
         ts = sort (map fst events)
     in \<lparr>tl_times = ts,
         tl_modes = map (\<lambda>t. case map_of events t of None \<Rightarrow> mihwagin | Some ms \<Rightarrow> sole_mode ms) ts\<rparr>)"

definition inherit :: "timeline \<Rightarrow> mode_session \<Rightarrow> mode_row \<Rightarrow> mode_row" where
  "inherit line s row =
    (if \<not> requires_parent_mode (mo_call row) then row
     else (let m = timeline_at line (mode_time s row)
           in if m \<noteq> ''Standard'' \<and> m \<noteq> ''Fast'' then row
              else row\<lparr>mo_call := (mo_call row)\<lparr>c_service_tier := Some m, c_service_tier_source := Some ''parent''\<rparr>,
                       mo_mode_source := Some ''parent'', mo_mode_action := Some ''inherit''\<rparr>))"

lemma timeline_sorted: "sorted (tl_times (parent_mode_timeline s modes parent))"
    "length (tl_modes (parent_mode_timeline s modes parent)) = length (tl_times (parent_mode_timeline s modes parent))"
  by (simp_all add: parent_mode_timeline_def Let_def)

definition timeline_until :: "rat \<Rightarrow> timeline \<Rightarrow> timeline" where
  "timeline_until t line = (let n = length (filter (\<lambda>x. x \<le> t) (tl_times line))
     in \<lparr>tl_times = take n (tl_times line), tl_modes = take n (tl_modes line)\<rparr>)"

lemma bisect_right_length:
  assumes "sorted xs"
  shows "bisect_right xs t = length (filter (\<lambda>x. x \<le> t) xs)"
proof -
  have "length (take (bisect_right (map (\<lambda>x. x) xs) t) xs) = length (filter (\<lambda>x. x \<le> t) xs)"
    using assms by (subst take_bisect_right [of "\<lambda>x. x"]) simp_all
  then show ?thesis using bisect_right_spec(1) [OF assms, of t] by simp
qed

text \<open>The mode at a time depends on nothing that happens later.\<close>

lemma timeline_causal:
  assumes "sorted (tl_times line)"
  shows "timeline_at (timeline_until t line) (Some t) = timeline_at line (Some t)"
proof -
  let ?n = "bisect_right (tl_times line) t"
  have n: "length (filter (\<lambda>x. x \<le> t) (tl_times line)) = ?n" by (simp add: bisect_right_length [OF assms])
  have tk: "take ?n (tl_times line) = filter (\<lambda>x. x \<le> t) (tl_times line)"
    using take_bisect_right [of "\<lambda>x. x" "tl_times line" t] assms by simp
  have "sorted (take ?n (tl_times line))" using assms by (simp add: sorted_wrt_take)
  then have "bisect_right (take ?n (tl_times line)) t = ?n"
    by (simp add: bisect_right_length tk n)
  then show ?thesis
    by (simp add: timeline_at_def timeline_until_def n Let_def)
qed

lemma inherited_call_tier:
  "m = ''Standard'' \<or> m = ''Fast'' \<Longrightarrow> \<not> c_mode_conflict r \<Longrightarrow>
    request_tier (r\<lparr>c_service_tier := Some m, c_service_tier_source := Some ''parent''\<rparr>) = m"
  by (auto simp: tier_simps)

lemma inherit_changes:
  assumes "inherit line s row \<noteq> row"
  obtains m where "requires_parent_mode (mo_call row)" "timeline_at line (mode_time s row) = m"
    "m = ''Standard'' \<or> m = ''Fast''"
    "mo_call (inherit line s row) = (mo_call row)\<lparr>c_service_tier := Some m, c_service_tier_source := Some ''parent''\<rparr>"
proof -
  let ?m = "timeline_at line (mode_time s row)"
  have q: "requires_parent_mode (mo_call row)"
    using assms by (rule contrapos_np) (simp add: inherit_def)
  have m: "\<not> (?m \<noteq> ''Standard'' \<and> ?m \<noteq> ''Fast'')"
  proof
    assume h: "?m \<noteq> ''Standard'' \<and> ?m \<noteq> ''Fast''"
    have "inherit line s row = row" unfolding inherit_def Let_def if_P [OF h] if_cancel ..
    with assms show False ..
  qed
  have "mo_call (inherit line s row) = (mo_call row)\<lparr>c_service_tier := Some ?m, c_service_tier_source := Some ''parent''\<rparr>"
    unfolding inherit_def Let_def if_not_P [OF m] using q by simp
  with q m show thesis by (intro that) auto
qed

lemma inherit_tier:
  assumes "inherit line s row \<noteq> row"
  shows "requires_parent_mode (mo_call row)"
    "request_tier (mo_call (inherit line s row)) = timeline_at line (mode_time s row)"
    "timeline_at line (mode_time s row) = ''Standard'' \<or> timeline_at line (mode_time s row) = ''Fast''"
    "\<not> requires_parent_mode (mo_call (inherit line s row))"
proof -
  obtain m where m: "requires_parent_mode (mo_call row)" "timeline_at line (mode_time s row) = m"
    "m = ''Standard'' \<or> m = ''Fast''"
    "mo_call (inherit line s row) = (mo_call row)\<lparr>c_service_tier := Some m, c_service_tier_source := Some ''parent''\<rparr>"
    by (rule inherit_changes [OF assms])
  have t: "request_tier (mo_call (inherit line s row)) = m"
    unfolding m(4) by (rule inherited_call_tier [OF m(3)]) (use m(1) in \<open>simp add: requires_parent_mode_def\<close>)
  show "requires_parent_mode (mo_call row)"
    "request_tier (mo_call (inherit line s row)) = timeline_at line (mode_time s row)"
    "timeline_at line (mode_time s row) = ''Standard'' \<or> timeline_at line (mode_time s row) = ''Fast''"
    using m t by auto
  have "m \<noteq> mihwagin" using m(3) by (auto simp: mihwagin_def)
  then show "\<not> requires_parent_mode (mo_call (inherit line s row))"
    by (simp add: requires_parent_mode_def t)
qed

lemma inherit_idem: "inherit line s (inherit line s row) = inherit line s row"
  using inherit_tier(4) [of line s row] by (cases "inherit line s row = row") (auto simp: inherit_def)

text \<open>Where no session names itself, both walks accept the same sessions.\<close>

lemma parent_maps_agree:
  assumes "\<And>s. s \<in> set sessions \<Longrightarrow> ss_parent s \<noteq> PStr (ss_id s)"
  shows "mode_parent_map (indexed_sessions sessions) = session_parents (indexed_sessions sessions)"
proof -
  have inv: "(\<forall>(k, s) \<in> set d. k = session_key s \<and> ss_parent s \<noteq> PStr (ss_id s)) \<Longrightarrow>
      (\<forall>s \<in> set ss. ss_parent s \<noteq> PStr (ss_id s)) \<Longrightarrow>
      (\<forall>(k, s) \<in> set (foldl (\<lambda>d s. AList.update (session_key s) s d) d ss). k = session_key s \<and> ss_parent s \<noteq> PStr (ss_id s))"
    for d ss
  proof (induction ss arbitrary: d)
    case (Cons x ss)
    have "set (AList.update (session_key x) x d) \<subseteq> insert (session_key x, x) (set d)"
      by (induction d) auto
    with Cons.prems have "\<forall>(k, s) \<in> set (AList.update (session_key x) x d). k = session_key s \<and> ss_parent s \<noteq> PStr (ss_id s)"
      by auto
    with Cons.IH Cons.prems(2) show ?case by simp
  qed simp
  have "\<forall>(k, s) \<in> set (indexed_sessions sessions). k = session_key s \<and> ss_parent s \<noteq> PStr (ss_id s)"
    unfolding indexed_sessions_def using assms by (intro inv) auto
  then show ?thesis
    unfolding mode_parent_map_def session_parents_def
    by (intro map_filter_cong) (auto simp: session_key_def split: pyval.split)
qed

section \<open>Further properties\<close>

text \<open>
  The two walks over parent links accept the same sessions: mode inheritance finds a valid parent exactly
  where the cost roll-up finds ancestors, and both refuse cyclic lineage.
\<close>

theorem cyclic_lineage_rejected:
  "walk_valid parents k \<longleftrightarrow> ancestors parents k \<noteq> []"
  by (rule walk_valid_iff)

text \<open>
  A call inherits its parent's mode from settings at or before its own start only, only where local evidence
  leaves it open, and inheriting twice is inheriting once.
\<close>

theorem inheritance_causal:
  "timeline_at (timeline_until t (parent_mode_timeline s modes parent)) (Some t) =
     timeline_at (parent_mode_timeline s modes parent) (Some t) \<and>
   inherit line s (inherit line s row) = inherit line s row"
  by (simp add: timeline_causal [OF timeline_sorted(1)] inherit_idem)

section \<open>Claims\<close>


end
