(* ===== verification/Pydict.thy ===== *)
theory Pydict
  imports Pybase "HOL-Library.Char_ord"
begin

text \<open>
  JSON-like dictionaries: the updates and comparisons that the journals and the status
  interpretation make on them. A member the code reads as a dictionary is a dictionary or
  absent; other values are read as the empty one.
\<close>

section \<open>Dictionaries\<close>

definition dset :: "string \<Rightarrow> pyval \<Rightarrow> pydict \<Rightarrow> pydict" where
  "dset k v d = AList.update k v d"

text \<open>\<open>d.update(changes)\<close> and \<open>{**d, **changes}\<close>\<close>

definition dmerge :: "pydict \<Rightarrow> pydict \<Rightarrow> pydict" where
  "dmerge d changes = foldl (\<lambda>e (k, v). dset k v e) d changes"

definition dsub :: "pydict \<Rightarrow> string \<Rightarrow> pydict" where
  "dsub d k = (case dget d k of PDict x \<Rightarrow> x | _ \<Rightarrow> [])"

definition dpop :: "string \<Rightarrow> pydict \<Rightarrow> pydict" where
  "dpop k d = AList.delete k d"

text \<open>Equality of values: numbers by value, dictionaries without regard to order.\<close>

fun numeric :: "pyval \<Rightarrow> rat option" where
  "numeric (PBool b) = Some (if b then 1 else 0)"
| "numeric (PInt i) = Some (of_int i)"
| "numeric (PFloat q) = Some q"
| "numeric _ = None"

function py_eq :: "pyval \<Rightarrow> pyval \<Rightarrow> bool" where
  "py_eq (PDict a) w = (case w of PDict b \<Rightarrow> length a = length b \<and>
     list_all (\<lambda>kv. case map_of b (fst kv) of None \<Rightarrow> False | Some y \<Rightarrow> py_eq (snd kv) y) a | _ \<Rightarrow> False)"
| "py_eq (PList a) w = (case w of PList b \<Rightarrow> length a = length b \<and>
     list_all (\<lambda>i. py_eq (a ! i) (b ! i)) [0..<length a] | _ \<Rightarrow> False)"
| "py_eq PNone w = (w = PNone)"
| "py_eq (PBool b) w = (numeric w = numeric (PBool b))"
| "py_eq (PInt i) w = (numeric w = numeric (PInt i))"
| "py_eq (PFloat q) w = (numeric w = numeric (PFloat q))"
| "py_eq (PNonFinite x) w = (x \<noteq> NaN \<and> w = PNonFinite x)"
| "py_eq (PStr s) w = (w = PStr s)"
  by pat_completeness auto

lemma size_dict_member: "kv \<in> set a \<Longrightarrow> size (snd kv) < size (PDict a)"
  by (induction a) auto

lemma size_list_nth: "i < length a \<Longrightarrow> size (a ! i) < size (PList a)"
  using size_list_estimation' [of "a ! i" a "size (a ! i)" size] by (simp add: less_Suc_eq_le)

termination py_eq
  by (relation "measure (\<lambda>(v, w). size v)") (use size_dict_member size_list_nth in simp_all)

lemma dget_dset [simp]: "dget (dset k v d) j = (if j = k then v else dget d j)"
  by (simp add: dget_def dget_or_def dset_def update_conv')

lemma dget_dmerge_other: "j \<notin> fst ` set c \<Longrightarrow> dget (dmerge d c) j = dget d j"
  by (induction c arbitrary: d) (auto simp: dmerge_def)

lemma dget_dpop [simp]: "dget (dpop k d) j = (if j = k then PNone else dget d j)"
  by (simp add: dget_def dget_or_def dpop_def delete_conv')

lemma dsub_dset [simp]: "dsub (dset k v d) j = (if j = k then (case v of PDict x \<Rightarrow> x | _ \<Rightarrow> []) else dsub d j)"
  by (simp add: dsub_def)

definition is_in :: "pyval \<Rightarrow> string list \<Rightarrow> bool" where
  "is_in v ss = (case v of PStr s \<Rightarrow> s \<in> set ss | _ \<Rightarrow> False)"

lemma dmerge_Nil [simp]: "dmerge d [] = d"
  by (simp add: dmerge_def)

lemma dmerge_Cons [simp]: "dmerge d (kv # c) = dmerge (dset (fst kv) (snd kv) d) c"
  by (simp add: dmerge_def split_beta)

text \<open>A counter that is absent counts as zero; the counters are numbers.\<close>

definition at_least :: "pydict \<Rightarrow> string \<Rightarrow> rat \<Rightarrow> bool" where
  "at_least d k n = (case numeric (dget_or d k (PInt 0)) of Some q \<Rightarrow> q \<ge> n | None \<Rightarrow> False)"

text \<open>\<open>v is not None and now - v > limit\<close>\<close>

definition older :: "rat \<Rightarrow> rat \<Rightarrow> pyval \<Rightarrow> bool" where
  "older now limit v = (case numeric v of Some q \<Rightarrow> now - q > limit | None \<Rightarrow> False)"

end
