(* ===== verification/Chunks.thy ===== *)
theory Chunks
  imports Main
begin

text \<open>
  Readers that are fed a byte stream in pieces. The contract: feeding a piece and then the next
  one leaves the reader in the same observable state as feeding both at once. Empty pieces are
  outside the contract, because one reader of the program treats them as input.
\<close>

locale chunked_reader =
  fixes feed :: "'b list \<Rightarrow> 's \<Rightarrow> 's" and same :: "'s \<Rightarrow> 's \<Rightarrow> bool" and ok :: "'s \<Rightarrow> bool"
  assumes same_refl: "same s s"
    and same_trans: "same s t \<Longrightarrow> same t u \<Longrightarrow> same s u"
    and same_feed: "same s t \<Longrightarrow> same (feed b s) (feed b t)"
    and ok_feed: "ok s \<Longrightarrow> ok (feed b s)"
    and feed_append: "ok s \<Longrightarrow> a \<noteq> [] \<Longrightarrow> b \<noteq> [] \<Longrightarrow> same (feed (a @ b) s) (feed b (feed a s))"
begin

lemma feed_chunks:
  assumes "ok s" "cs \<noteq> []" "[] \<notin> set cs"
  shows "same (feed (concat cs) s) (foldl (\<lambda>t c. feed c t) s cs)"
  using assms(2,3)
proof (induction cs rule: rev_induct)
  case (snoc c cs)
  show ?case
  proof (cases "cs = []")
    case True
    then show ?thesis by (simp add: same_refl)
  next
    case False
    then have ne: "concat cs \<noteq> []" using snoc.prems by (cases cs) auto
    have "same (feed (concat cs @ c) s) (feed c (feed (concat cs) s))"
      using ne snoc.prems assms(1) by (intro feed_append) auto
    moreover have "same (feed c (feed (concat cs) s)) (feed c (foldl (\<lambda>t d. feed d t) s cs))"
      using snoc.prems False by (intro same_feed snoc.IH) auto
    ultimately show ?thesis by (auto intro: same_trans)
  qed
qed simp

lemma feed_ok: "ok s \<Longrightarrow> ok (foldl (\<lambda>t c. feed c t) s cs)"
  by (induction cs arbitrary: s) (auto intro: ok_feed)

text \<open>Two ways of cutting the same stream agree, whatever is read off the state.\<close>

lemma chunking_irrelevant:
  assumes "ok s" "concat cs = concat ds" "cs \<noteq> []" "ds \<noteq> []" "[] \<notin> set cs" "[] \<notin> set ds"
    and out: "\<And>s t. same s t \<Longrightarrow> out s = out t"
  shows "out (foldl (\<lambda>t c. feed c t) s cs) = out (foldl (\<lambda>t c. feed c t) s ds)"
  using feed_chunks [OF assms(1,3,5)] feed_chunks [OF assms(1,4,6)] assms(2) out by metis

end

end
