(* ===== verification/Projection.thy ===== *)
theory Projection
  imports Pydict Chunks
begin

text \<open>
  The JSONL reader of the collector, \<open>cachemonitor/event_stream.py\<close>: the incremental projection
  of one event onto the selected metadata fields, and the reader of event lines around it. Bytes
  are characters. \<open>json.loads\<close> of one token is the parameter \<open>loads\<close> (\<open>None\<close>: it raises).
\<close>

section \<open>The schema\<close>

datatype schema = Leaf | Fields "(string \<times> schema) list"

definition leaves :: "string list \<Rightarrow> (string \<times> schema) list" where
  "leaves ks = map (\<lambda>k. (k, Leaf)) ks"

definition USAGE :: schema where
  "USAGE = Fields (leaves [''input_tokens'', ''cached_input_tokens'', ''cache_write_input_tokens'', ''output_tokens'',
      ''reasoning_output_tokens'', ''total_tokens''] @
     [(''input_tokens_details'', Fields (leaves [''cached_tokens'', ''cache_write_tokens''])),
      (''output_tokens_details'', Fields (leaves [''reasoning_tokens'']))])"

definition LIMIT_WINDOW :: schema where
  "LIMIT_WINDOW = Fields (leaves [''used_percent'', ''resets_at'', ''window_minutes''])"

definition SCHEMA :: schema where
  "SCHEMA = Fields [(''type'', Leaf), (''timestamp'', Leaf), (''payload'', Fields
     (leaves [''id'', ''cwd'', ''source'', ''type'', ''turn_id'', ''thread_id'', ''response_id'', ''model'', ''effort'',
        ''reasoning_effort'', ''service_tier'', ''parent_thread_id'', ''agent_path'', ''agent_nickname'', ''spawn_depth''] @
      [(''usage'', USAGE), (''thread_token_usage'', USAGE),
       (''collaboration_mode'', Fields [(''settings'', Fields (leaves [''reasoning_effort'']))]),
       (''thread_settings'', Fields (leaves [''service_tier''])),
       (''info'', Fields [(''total_token_usage'', USAGE), (''last_token_usage'', USAGE)]),
       (''rate_limits'', Fields (leaves [''limit_id'', ''plan_type''] @
          [(''primary'', LIMIT_WINDOW), (''secondary'', LIMIT_WINDOW), (''unlimited_windows'', Leaf)]))]))]"

section \<open>State\<close>

definition MAX_SELECTED :: nat where "MAX_SELECTED = 16 * 1024 * 1024"
definition MAX_DEPTH :: nat where "MAX_DEPTH = 128"

datatype projection_error =
    Multiple_values | Value_expected | Metadata_limit | Nesting_limit | Unexpected_close | Incomplete_container
  | Unexpected_colon | Unexpected_comma | Key_expected | Token_error | Incomplete_event

datatype phase = Ph_value | Ph_first | Ph_key_first | Ph_key | Ph_colon | Ph_comma

datatype collected = Nothing | Collected_object pydict | Collected_array "pyval list"

record frame =
  fr_object :: bool
  fr_schema :: "schema option"
  fr_value :: collected
  fr_phase :: phase
  fr_key :: "string option"

record projection =
  ep_stack :: "frame list"  \<comment> \<open>the innermost frame first\<close>
  ep_result :: pyval
  ep_done :: bool
  ep_string :: bool
  ep_escape :: bool
  ep_token :: string
  ep_capture :: bool
  ep_key_token :: bool
  ep_primitive :: bool
  ep_selected :: nat

definition new_projection :: projection where
  "new_projection = \<lparr>ep_stack = [], ep_result = PNone, ep_done = False, ep_string = False, ep_escape = False, ep_token = [],
     ep_capture = False, ep_key_token = False, ep_primitive = False, ep_selected = 0\<rparr>"

section \<open>Operations\<close>

definition member_schema :: "schema option \<Rightarrow> string option \<Rightarrow> schema option" where
  "member_schema sc k = (case sc of Some (Fields fs) \<Rightarrow> (case k of None \<Rightarrow> None | Some x \<Rightarrow> map_of fs x) | _ \<Rightarrow> sc)"

definition next_schema :: "projection \<Rightarrow> projection_error + schema option" where
  "next_schema p = (case ep_stack p of
     [] \<Rightarrow> if ep_done p then Inl Multiple_values else Inr (Some SCHEMA)
   | f # _ \<Rightarrow>
      if fr_phase f \<noteq> Ph_value \<and> fr_phase f \<noteq> Ph_first then Inl Value_expected
      else if \<not> fr_object f then Inr (fr_schema f) else Inr (member_schema (fr_schema f) (fr_key f)))"

definition keeps_member :: "frame \<Rightarrow> bool" where
  "keeps_member f = (case fr_key f of None \<Rightarrow> False
     | Some k \<Rightarrow> (case fr_schema f of Some (Fields fs) \<Rightarrow> k \<in> fst ` set fs | Some Leaf \<Rightarrow> True | None \<Rightarrow> False))"

definition add_value :: "pyval \<Rightarrow> frame \<Rightarrow> collected" where
  "add_value v f = (case fr_value f of
     Nothing \<Rightarrow> Nothing
   | Collected_object d \<Rightarrow> (if keeps_member f then Collected_object (dset (the (fr_key f)) v d) else Collected_object d)
   | Collected_array vs \<Rightarrow> (if (v = PStr ''weekly'' \<or> v = PStr ''five_hour'') \<and> v \<notin> set vs
       then Collected_array (vs @ [v]) else Collected_array vs))"

definition accept_value :: "pyval \<Rightarrow> projection \<Rightarrow> projection" where
  "accept_value v p = (case ep_stack p of
     [] \<Rightarrow> p\<lparr>ep_result := v, ep_done := True\<rparr>
   | f # fs \<Rightarrow> p\<lparr>ep_stack := f\<lparr>fr_value := add_value v f, fr_phase := Ph_comma\<rparr> # fs\<rparr>)"

definition append_part :: "string \<Rightarrow> projection \<Rightarrow> projection_error + projection" where
  "append_part part p =
    (if \<not> ep_capture p then Inr p
     else if ep_key_token p \<and> length (ep_token p) + length part > 256 then Inr (p\<lparr>ep_capture := False, ep_token := []\<rparr>)
     else let p1 = (if ep_key_token p then p else p\<lparr>ep_selected := ep_selected p + length part\<rparr>)
       in if ep_selected p1 > MAX_SELECTED then Inl Metadata_limit
          else Inr (p1\<lparr>ep_token := ep_token p1 @ part\<rparr>))"

definition key_text :: "pyval \<Rightarrow> string option" where
  "key_text v = (case v of PStr k \<Rightarrow> Some k | _ \<Rightarrow> None)"

definition close_token :: "pyval \<Rightarrow> projection \<Rightarrow> projection" where
  "close_token v p =
    (let p1 = (if ep_key_token p
         then (case ep_stack p of [] \<Rightarrow> p
           | f # fs \<Rightarrow> p\<lparr>ep_stack := f\<lparr>fr_key := key_text v, fr_phase := Ph_colon\<rparr> # fs\<rparr>)
         else accept_value v p)
     in p1\<lparr>ep_token := [], ep_string := False, ep_primitive := False\<rparr>)"

definition finish_token :: "(string \<Rightarrow> pyval option) \<Rightarrow> projection \<Rightarrow> projection_error + projection" where
  "finish_token loads p =
    (if ep_capture p then (case loads (ep_token p) of None \<Rightarrow> Inl Token_error | Some v \<Rightarrow> Inr (close_token v p))
     else Inr (close_token PNone p))"

definition special :: "char \<Rightarrow> bool" where
  "special ch = (ch = CHR 0x22 \<or> ch = CHR 0x5C)"

definition delimiter :: "char \<Rightarrow> bool" where
  "delimiter ch = (ch \<in> set ([CHR 0x20, CHR 0x09, CHR 0x0A, CHR 0x0D, CHR 0x0B, CHR 0x0C] @ ''{}[],:'' @ [CHR 0x22]))"

definition collected_value :: "collected \<Rightarrow> pyval" where
  "collected_value c = (case c of Nothing \<Rightarrow> PNone | Collected_object d \<Rightarrow> PDict d | Collected_array vs \<Rightarrow> PList vs)"

definition open_container :: "bool \<Rightarrow> projection \<Rightarrow> projection_error + projection" where
  "open_container is_object p = bindE (next_schema p) (\<lambda>sc.
     if length (ep_stack p) \<ge> MAX_DEPTH then Inl Nesting_limit
     else Inr (p\<lparr>ep_stack := \<lparr>fr_object = is_object, fr_schema = sc,
         fr_value = (if sc = None then Nothing else if is_object then Collected_object [] else Collected_array []),
         fr_phase = (if is_object then Ph_key_first else Ph_first), fr_key = None\<rparr> # ep_stack p\<rparr>))"

definition close_container :: "bool \<Rightarrow> projection \<Rightarrow> projection_error + projection" where
  "close_container is_object p = (case ep_stack p of
     [] \<Rightarrow> Inl Unexpected_close
   | f # fs \<Rightarrow>
      if fr_object f \<noteq> is_object \<or> fr_phase f \<notin> {Ph_key_first, Ph_first, Ph_comma} then Inl Incomplete_container
      else Inr (accept_value (collected_value (fr_value f)) (p\<lparr>ep_stack := fs\<rparr>)))"

definition read_colon :: "projection \<Rightarrow> projection_error + projection" where
  "read_colon p = (case ep_stack p of
     [] \<Rightarrow> Inl Unexpected_colon
   | f # fs \<Rightarrow> if fr_phase f \<noteq> Ph_colon then Inl Unexpected_colon
       else Inr (p\<lparr>ep_stack := f\<lparr>fr_phase := Ph_value\<rparr> # fs\<rparr>))"

definition read_comma :: "projection \<Rightarrow> projection_error + projection" where
  "read_comma p = (case ep_stack p of
     [] \<Rightarrow> Inl Unexpected_comma
   | f # fs \<Rightarrow> if fr_phase f \<noteq> Ph_comma then Inl Unexpected_comma
       else Inr (p\<lparr>ep_stack := f\<lparr>fr_phase := (if fr_object f then Ph_key else Ph_value)\<rparr> # fs\<rparr>))"

definition expects_key :: "projection \<Rightarrow> bool" where
  "expects_key p = (case ep_stack p of [] \<Rightarrow> False
     | f # _ \<Rightarrow> fr_object f \<and> (fr_phase f = Ph_key \<or> fr_phase f = Ph_key_first))"

definition open_token :: "char \<Rightarrow> projection \<Rightarrow> projection_error + projection" where
  "open_token ch p =
    (let key = expects_key p in
     if key \<and> ch \<noteq> CHR 0x22 then Inl Key_expected
     else bindE (if key then Inr True else bindE (next_schema p) (\<lambda>sc. Inr (sc \<noteq> None))) (\<lambda>capture.
       bindE (append_part [ch] (p\<lparr>ep_key_token := key, ep_capture := capture, ep_token := []\<rparr>)) (\<lambda>p1.
         Inr (p1\<lparr>ep_string := (ch = CHR 0x22), ep_primitive := (ch \<noteq> CHR 0x22)\<rparr>))))"

definition read_byte :: "char \<Rightarrow> projection \<Rightarrow> projection_error + projection" where
  "read_byte ch p =
    (if ch = CHR 0x20 \<or> ch = CHR 0x09 \<or> ch = CHR 0x0D then Inr p
     else if ch = CHR ''{'' then open_container True p
     else if ch = CHR ''['' then open_container False p
     else if ch = CHR ''}'' then close_container True p
     else if ch = CHR '']'' then close_container False p
     else if ch = CHR '':'' then read_colon p
     else if ch = CHR '','' then read_comma p
     else open_token ch p)"

lemma finish_token_primitive: "finish_token loads p = Inr q \<Longrightarrow> \<not> ep_primitive q \<and> \<not> ep_string q"
  by (auto simp: finish_token_def close_token_def Let_def split: if_splits option.splits list.splits)

function feed_projection :: "(string \<Rightarrow> pyval option) \<Rightarrow> string \<Rightarrow> projection \<Rightarrow> projection_error + projection" where
  "feed_projection loads data p =
    (if data = [] then Inr p
     else if ep_string p then
       (if ep_escape p
        then bindE (append_part [hd data] p) (\<lambda>q. feed_projection loads (tl data) (q\<lparr>ep_escape := False\<rparr>))
        else bindE (append_part (takeWhile (\<lambda>ch. \<not> special ch) data) p) (\<lambda>q.
          (case dropWhile (\<lambda>ch. \<not> special ch) data of
             [] \<Rightarrow> Inr q
           | ch # rest \<Rightarrow> bindE (append_part [ch] q) (\<lambda>r.
               if ch = CHR 0x5C then feed_projection loads rest (r\<lparr>ep_escape := True\<rparr>)
               else bindE (finish_token loads r) (\<lambda>t. feed_projection loads rest t)))))
     else if ep_primitive p then
       bindE (append_part (takeWhile (\<lambda>ch. \<not> delimiter ch) data) p) (\<lambda>q.
         (case dropWhile (\<lambda>ch. \<not> delimiter ch) data of
            [] \<Rightarrow> Inr q
          | ch # rest \<Rightarrow> bindE (finish_token loads q) (\<lambda>t. feed_projection loads (ch # rest) t)))
     else bindE (read_byte (hd data) p) (\<lambda>q. feed_projection loads (tl data) q))"
  by pat_completeness auto
termination
proof (relation "measures [\<lambda>(loads, data, p). length data, \<lambda>(loads, data, p). if ep_primitive p then 1 else 0]", goal_cases)
  case 1
  show ?case by simp
next
  case (2 loads data p q)
  then show ?case by (cases data) auto
next
  case (3 loads data p q ch rest r)
  then have "length (ch # rest) \<le> length data" by (metis length_dropWhile_le)
  then show ?case by simp
next
  case (4 loads data p q ch rest r t)
  then have "length (ch # rest) \<le> length data" by (metis length_dropWhile_le)
  then show ?case by simp
next
  case (5 loads data p q ch rest t)
  then have "length (ch # rest) \<le> length data" by (metis length_dropWhile_le)
  moreover have "\<not> ep_primitive t" using 5 finish_token_primitive by blast
  ultimately show ?case using 5 by auto
next
  case (6 loads data p q)
  then show ?case by (cases data) auto
qed

declare feed_projection.simps [simp del]

definition finish_projection :: "(string \<Rightarrow> pyval option) \<Rightarrow> projection \<Rightarrow> projection_error + pyval" where
  "finish_projection loads p =
    bindE (if ep_primitive p then finish_token loads p else Inr p) (\<lambda>q.
      if ep_string q \<or> ep_stack q \<noteq> [] \<or> \<not> ep_done q then Inl Incomplete_event else Inr (ep_result q))"

section \<open>Bounds\<close>

text \<open>What the projection keeps of one event is bounded, whatever the event is.\<close>

definition in_limits :: "projection \<Rightarrow> bool" where
  "in_limits p = (ep_selected p \<le> MAX_SELECTED \<and> length (ep_stack p) \<le> MAX_DEPTH \<and>
     (ep_capture p \<and> ep_key_token p \<longrightarrow> length (ep_token p) \<le> 256))"

lemma bindE_Inr [simp]: "bindE m Inr = m"
  by (cases m) simp_all

lemma in_limits_escape [simp]: "in_limits (p\<lparr>ep_escape := b\<rparr>) = in_limits p"
  by (simp add: in_limits_def)

lemma append_part_Nil: "in_limits p \<Longrightarrow> append_part [] p = Inr p"
  by (auto simp: append_part_def in_limits_def)

lemma append_part_append:
  "in_limits p \<Longrightarrow> append_part (x @ y) p = bindE (append_part x p) (append_part y)"
  by (auto simp: append_part_def in_limits_def Let_def)

lemma append_part_limits: "in_limits p \<Longrightarrow> append_part x p = Inr q \<Longrightarrow> in_limits q"
  by (auto simp: append_part_def in_limits_def Let_def split: if_splits)

lemma append_part_mode:
  "append_part x p = Inr q \<Longrightarrow> ep_string q = ep_string p \<and> ep_escape q = ep_escape p \<and> ep_primitive q = ep_primitive p"
  by (auto simp: append_part_def Let_def split: if_splits)

lemma accept_value_bounds [simp]:
  "ep_selected (accept_value v p) = ep_selected p" "length (ep_stack (accept_value v p)) = length (ep_stack p)"
  "ep_capture (accept_value v p) = ep_capture p" "ep_key_token (accept_value v p) = ep_key_token p"
  "ep_token (accept_value v p) = ep_token p"
  by (simp_all add: accept_value_def split: list.split)

lemma finish_token_limits: "in_limits p \<Longrightarrow> finish_token loads p = Inr q \<Longrightarrow> in_limits q"
  by (auto simp: finish_token_def close_token_def in_limits_def Let_def split: if_splits option.splits list.splits)

lemma read_byte_limits:
  assumes "in_limits p" "read_byte ch p = Inr q"
  shows "in_limits q"
proof -
  have "open_container b p = Inr q \<Longrightarrow> in_limits q" for b
    using assms(1) by (auto simp: open_container_def in_limits_def bindE_Inr_conv split: if_splits)
  moreover have "close_container b p = Inr q \<Longrightarrow> in_limits q" for b
    using assms(1) by (auto simp: close_container_def in_limits_def split: list.splits if_splits)
  moreover have "read_colon p = Inr q \<Longrightarrow> in_limits q" "read_comma p = Inr q \<Longrightarrow> in_limits q"
    using assms(1) by (auto simp: read_colon_def read_comma_def in_limits_def split: list.splits if_splits)
  moreover have "open_token ch p = Inr q \<Longrightarrow> in_limits q"
  proof -
    have w: "in_limits (p\<lparr>ep_key_token := k, ep_capture := c, ep_token := []\<rparr>)" for k c
      using assms(1) by (simp add: in_limits_def)
    assume "open_token ch p = Inr q"
    then obtain k c r where r: "append_part [ch] (p\<lparr>ep_key_token := k, ep_capture := c, ep_token := []\<rparr>) = Inr r"
        and q: "q = r\<lparr>ep_string := (ch = CHR 0x22), ep_primitive := (ch \<noteq> CHR 0x22)\<rparr>"
      by (auto simp: open_token_def Let_def bindE_Inr_conv split: if_splits)
    have "in_limits r" by (rule append_part_limits [OF w r])
    then show "in_limits q" by (simp add: q in_limits_def)
  qed
  ultimately show ?thesis using assms by (auto simp: read_byte_def split: if_splits)
qed

section \<open>One byte at a time\<close>

lemma feed_Nil [simp]: "feed_projection loads [] = Inr"
  by (rule ext) (simp add: feed_projection.simps)

lemma feed_escape:
  "ep_string p \<Longrightarrow> ep_escape p \<Longrightarrow>
   feed_projection loads (c # cs) p = bindE (append_part [c] p) (\<lambda>q. feed_projection loads cs (q\<lparr>ep_escape := False\<rparr>))"
  by (subst feed_projection.simps) simp

lemma feed_string:
  "ep_string p \<Longrightarrow> \<not> ep_escape p \<Longrightarrow> in_limits p \<Longrightarrow>
   feed_projection loads data p = bindE (append_part (takeWhile (\<lambda>ch. \<not> special ch) data) p) (\<lambda>q.
     (case dropWhile (\<lambda>ch. \<not> special ch) data of
        [] \<Rightarrow> Inr q
      | ch # rest \<Rightarrow> bindE (append_part [ch] q) (\<lambda>r.
          if ch = CHR 0x5C then feed_projection loads rest (r\<lparr>ep_escape := True\<rparr>)
          else bindE (finish_token loads r) (\<lambda>t. feed_projection loads rest t))))"
  by (cases "data = []") (simp add: append_part_Nil, subst feed_projection.simps, simp)

lemma feed_literal:
  "\<not> ep_string p \<Longrightarrow> ep_primitive p \<Longrightarrow> in_limits p \<Longrightarrow>
   feed_projection loads data p = bindE (append_part (takeWhile (\<lambda>ch. \<not> delimiter ch) data) p) (\<lambda>q.
     (case dropWhile (\<lambda>ch. \<not> delimiter ch) data of
        [] \<Rightarrow> Inr q
      | ch # rest \<Rightarrow> bindE (finish_token loads q) (\<lambda>t. feed_projection loads (ch # rest) t)))"
  by (cases "data = []") (simp add: append_part_Nil, subst feed_projection.simps, simp)

lemma feed_special:
  "ep_string p \<Longrightarrow> \<not> ep_escape p \<Longrightarrow> special c \<Longrightarrow> in_limits p \<Longrightarrow>
   feed_projection loads (c # cs) p = bindE (append_part [c] p) (\<lambda>r.
     if c = CHR 0x5C then feed_projection loads cs (r\<lparr>ep_escape := True\<rparr>)
     else bindE (finish_token loads r) (feed_projection loads cs))"
  by (simp add: feed_string append_part_Nil)

lemma feed_text:
  assumes "ep_string p" "\<not> ep_escape p" "\<not> special c" "in_limits p"
  shows "feed_projection loads (c # cs) p = bindE (append_part [c] p) (feed_projection loads cs)"
proof (cases "append_part [c] p")
  case (Inl e)
  then show ?thesis using assms append_part_append [OF assms(4), of "[c]" "takeWhile (\<lambda>ch. \<not> special ch) cs"]
    by (simp add: feed_string)
next
  case (Inr q)
  have "ep_string q" "\<not> ep_escape q" "in_limits q"
    using append_part_mode [OF Inr] append_part_limits [OF assms(4) Inr] assms by auto
  then show ?thesis using assms Inr append_part_append [OF assms(4), of "[c]" "takeWhile (\<lambda>ch. \<not> special ch) cs"]
    by (simp add: feed_string)
qed

lemma feed_delimiter:
  "\<not> ep_string p \<Longrightarrow> ep_primitive p \<Longrightarrow> delimiter c \<Longrightarrow> in_limits p \<Longrightarrow>
   feed_projection loads (c # cs) p = bindE (finish_token loads p) (feed_projection loads (c # cs))"
  by (simp add: feed_literal append_part_Nil)

lemma feed_primitive:
  assumes "\<not> ep_string p" "ep_primitive p" "\<not> delimiter c" "in_limits p"
  shows "feed_projection loads (c # cs) p = bindE (append_part [c] p) (feed_projection loads cs)"
proof (cases "append_part [c] p")
  case (Inl e)
  then show ?thesis using assms append_part_append [OF assms(4), of "[c]" "takeWhile (\<lambda>ch. \<not> delimiter ch) cs"]
    by (simp add: feed_literal)
next
  case (Inr q)
  have "\<not> ep_string q" "ep_primitive q" "in_limits q"
    using append_part_mode [OF Inr] append_part_limits [OF assms(4) Inr] assms by auto
  then show ?thesis using assms Inr append_part_append [OF assms(4), of "[c]" "takeWhile (\<lambda>ch. \<not> delimiter ch) cs"]
    by (simp add: feed_literal)
qed

lemma feed_structure:
  "\<not> ep_string p \<Longrightarrow> \<not> ep_primitive p \<Longrightarrow>
   feed_projection loads (c # cs) p = bindE (read_byte c p) (feed_projection loads cs)"
  by (subst feed_projection.simps) simp

text \<open>The first byte of a piece is read as a piece of its own.\<close>

lemma feed_first:
  assumes "in_limits p"
  shows "feed_projection loads (c # cs) p = bindE (feed_projection loads [c] p) (feed_projection loads cs)"
proof -
  consider "ep_string p" "ep_escape p" | "ep_string p" "\<not> ep_escape p" "special c"
    | "ep_string p" "\<not> ep_escape p" "\<not> special c" | "\<not> ep_string p" "ep_primitive p" "delimiter c"
    | "\<not> ep_string p" "ep_primitive p" "\<not> delimiter c" | "\<not> ep_string p" "\<not> ep_primitive p" by blast
  then show ?thesis
  proof cases
    case 1
    then show ?thesis by (simp add: feed_escape bindE_assoc)
  next
    case 2
    then show ?thesis using assms by (cases "append_part [c] p") (auto simp: feed_special bindE_assoc)
  next
    case 3
    then show ?thesis using assms by (simp add: feed_text)
  next
    case 4
    show ?thesis
    proof (cases "finish_token loads p")
      case (Inr t)
      then show ?thesis using 4 assms finish_token_primitive [OF Inr] feed_structure [of t loads]
        by (simp add: feed_delimiter [of p])
    qed (use 4 assms in \<open>simp add: feed_delimiter\<close>)
  next
    case 5
    then show ?thesis using assms by (simp add: feed_primitive)
  next
    case 6
    then show ?thesis by (simp add: feed_structure)
  qed
qed

lemma feed_byte_limits:
  assumes "in_limits p" "feed_projection loads [c] p = Inr q"
  shows "in_limits q"
proof -
  consider "ep_string p" "ep_escape p" | "ep_string p" "\<not> ep_escape p" "special c"
    | "ep_string p" "\<not> ep_escape p" "\<not> special c" | "\<not> ep_string p" "ep_primitive p" "delimiter c"
    | "\<not> ep_string p" "ep_primitive p" "\<not> delimiter c" | "\<not> ep_string p" "\<not> ep_primitive p" by blast
  then show ?thesis
  proof cases
    case 1
    then show ?thesis using assms append_part_limits by (auto simp: feed_escape bindE_Inr_conv)
  next
    case 2
    then obtain r where r: "append_part [c] p = Inr r"
        and q: "(if c = CHR 0x5C then Inr (r\<lparr>ep_escape := True\<rparr>) else finish_token loads r) = Inr q"
      using assms by (auto simp: feed_special bindE_Inr_conv cong: if_cong)
    have "in_limits r" by (rule append_part_limits [OF assms(1) r])
    then show ?thesis using q finish_token_limits [of r loads q] by (auto split: if_splits)
  next
    case 3
    then show ?thesis using assms append_part_limits by (auto simp: feed_text)
  next
    case 4
    then obtain t where t: "finish_token loads p = Inr t" "feed_projection loads [c] t = Inr q"
      using assms by (auto simp: feed_delimiter [of p] bindE_Inr_conv)
    then have "read_byte c t = Inr q" using finish_token_primitive [OF t(1)] by (simp add: feed_structure)
    then show ?thesis by (rule read_byte_limits [OF finish_token_limits [OF assms(1) t(1)]])
  next
    case 5
    then show ?thesis using assms append_part_limits by (auto simp: feed_primitive)
  next
    case 6
    then show ?thesis using assms read_byte_limits by (auto simp: feed_structure)
  qed
qed

lemma feed_append: "in_limits p \<Longrightarrow>
  feed_projection loads (a @ b) p = bindE (feed_projection loads a p) (feed_projection loads b)"
proof (induction a arbitrary: p)
  case (Cons c cs)
  show ?case
  proof (cases "feed_projection loads [c] p")
    case (Inr q)
    then have "in_limits q" using feed_byte_limits Cons.prems by blast
    then show ?thesis using Cons Inr by (simp add: feed_first [of p loads c "cs @ b"] feed_first [of p loads c cs])
  qed (use Cons.prems in \<open>simp add: feed_first [of p loads c "cs @ b"] feed_first [of p loads c cs]\<close>)
qed simp

lemma feed_limits: "in_limits p \<Longrightarrow> feed_projection loads a p = Inr q \<Longrightarrow> in_limits q"
proof (induction a arbitrary: p)
  case (Cons c cs)
  then obtain r where "feed_projection loads [c] p = Inr r" "feed_projection loads cs r = Inr q"
    by (auto simp: feed_first [of p loads c cs] bindE_Inr_conv)
  then show ?case using Cons feed_byte_limits by blast
qed simp

lemma new_projection_limits: "in_limits new_projection"
  by (simp add: in_limits_def new_projection_def)

text \<open>A reader whose piece raised stays failed: the caller drops the projection.\<close>

definition projection_piece :: "(string \<Rightarrow> pyval option) \<Rightarrow> string \<Rightarrow> projection_error + projection \<Rightarrow> projection_error + projection" where
  "projection_piece loads part r = bindE r (feed_projection loads part)"

definition result_limits :: "projection_error + projection \<Rightarrow> bool" where
  "result_limits r = (case r of Inl _ \<Rightarrow> True | Inr p \<Rightarrow> in_limits p)"

interpretation pieces: chunked_reader "projection_piece loads" "(=)" result_limits
  by unfold_locales
    (auto simp: projection_piece_def result_limits_def feed_append bindE_assoc bindE_def feed_limits split: sum.splits)

section \<open>Examples\<close>

text \<open>A token reader for concrete instances: the token itself.\<close>

definition Some_text :: "string \<Rightarrow> pyval option" where
  "Some_text token = Some (PStr token)"

section \<open>Claims\<close>

text \<open>
  C15: The projection of one event does not depend on how its bytes arrive: for any two ways of cutting the
  line into non-empty pieces the result is the same, error or value, escapes and tokens split between pieces
  included.
\<close>

theorem projection_chunking:
  assumes "concat cs = concat ds" "cs \<noteq> []" "ds \<noteq> []" "[] \<notin> set cs" "[] \<notin> set ds"
  shows "bindE (foldl (\<lambda>r c. projection_piece loads c r) (Inr new_projection) cs) (finish_projection loads) =
    bindE (foldl (\<lambda>r c. projection_piece loads c r) (Inr new_projection) ds) (finish_projection loads)"
  by (rule pieces.chunking_irrelevant [OF _ assms]) (simp_all add: result_limits_def new_projection_limits)

theorem projection_chunking_witness:
  "bindE (foldl (\<lambda>r c. projection_piece Some_text c r) (Inr new_projection) [CHR ''{'' # [CHR 0x22], ''type'' @ [CHR 0x22], '':1}''])
     (finish_projection Some_text) =
   bindE (foldl (\<lambda>r c. projection_piece Some_text c r) (Inr new_projection) [CHR ''{'' # [CHR 0x22], ''ty'', ''pe'' @ [CHR 0x22, CHR '':''], ''1}''])
     (finish_projection Some_text)"
  by (rule projection_chunking) simp_all



end
