(* ===== verification/Lines.thy ===== *)
theory Lines
  imports Projection
begin

text \<open>
  \<open>EventLines\<close> of \<open>cachemonitor/event_stream.py\<close> and the native line scan
  \<open>native/src/index_scan.rs\<close>. A digest is the bytes it has been updated with; an event is the raw
  line, the projection that is dumped, or the marker of a broken line. Reading \<open>n\<close> bytes of the
  source file returns as many as are left, up to \<open>n\<close>.
\<close>

section \<open>State\<close>

datatype line_event = Raw string | Projected pyval | Broken

record lines =
  el_read :: nat
  el_committed :: nat
  el_line_start :: nat
  el_digest :: string
  el_committed_digest :: string
  el_prefix :: string
  el_selected :: "bool option"
  el_projection :: "projection option"
  el_error :: bool
  el_header_only :: bool
  el_bytes_read :: nat
  el_event_end :: "nat option"

type_synonym emitted = "nat \<times> line_event"

definition new_lines :: "nat \<Rightarrow> string \<Rightarrow> lines" where
  "new_lines offset digest = \<lparr>el_read = offset, el_committed = offset, el_line_start = offset, el_digest = digest,
     el_committed_digest = digest, el_prefix = [], el_selected = None, el_projection = None, el_error = False,
     el_header_only = False, el_bytes_read = 0, el_event_end = None\<rparr>"

definition EVENT_MARKERS :: "string list" where
  "EVENT_MARKERS = map (\<lambda>m. [CHR 0x22] @ m @ [CHR 0x22])
     [''turn_context'', ''token_usage_record'', ''event_msg'', ''compacted'', ''session_meta'']"

fun occurs :: "string \<Rightarrow> string \<Rightarrow> bool" where
  "occurs x [] = (x = [])"
| "occurs x (ch # cs) = (take (length x) (ch # cs) = x \<or> occurs x cs)"

definition marked :: "string \<Rightarrow> bool" where
  "marked prefix = list_ex (\<lambda>m. occurs m prefix) EVENT_MARKERS"

section \<open>One part of a line\<close>

definition pass_on :: "(string \<Rightarrow> pyval option) \<Rightarrow> string \<Rightarrow> lines \<Rightarrow> lines \<times> bool" where
  "pass_on loads part s = (case el_projection s of
     None \<Rightarrow> (s, False)
   | Some p \<Rightarrow> (case feed_projection loads part p of Inl _ \<Rightarrow> (s, True) | Inr q \<Rightarrow> (s\<lparr>el_projection := Some q\<rparr>, False)))"

text \<open>\<open>feed\<close>; the flag says that it raised.\<close>

definition feed_line :: "(string \<Rightarrow> pyval option) \<Rightarrow> string \<Rightarrow> bool \<Rightarrow> lines \<Rightarrow> lines \<times> bool" where
  "feed_line loads part whole s =
    (if el_selected s \<noteq> None then pass_on loads part s
     else
      (let count = min (250 - length (el_prefix s)) (length part);
           prefix = el_prefix s @ take count part; part1 = drop count part
       in if length prefix = 250 \<or> whole then
            (let sel = marked prefix; header = (el_line_start s = 0 \<and> \<not> sel);
                 s1 = s\<lparr>el_prefix := prefix, el_header_only := header, el_selected := Some (sel \<or> header)\<rparr>
             in if sel \<or> header then
                  (case feed_projection loads prefix new_projection of
                     Inl _ \<Rightarrow> (s1\<lparr>el_projection := Some new_projection\<rparr>, True)
                   | Inr p \<Rightarrow> pass_on loads part1 (s1\<lparr>el_projection := Some p, el_prefix := []\<rparr>))
                else pass_on loads part1 (s1\<lparr>el_prefix := []\<rparr>))
          else pass_on loads part1 (s\<lparr>el_prefix := prefix\<rparr>)))"

definition session_header :: "pyval option \<Rightarrow> bool" where
  "session_header v = (case v of Some (PDict d) \<Rightarrow> dget d ''type'' = PStr ''session_meta'' | _ \<Rightarrow> False)"

definition clean :: "lines \<Rightarrow> bool" where
  "clean s = (el_selected s = None \<and> el_prefix s = [])"

definition reset_line :: "lines \<Rightarrow> lines" where
  "reset_line s = s\<lparr>el_committed := el_read s, el_committed_digest := el_digest s, el_line_start := el_read s,
     el_prefix := [], el_selected := None, el_projection := None, el_error := False, el_header_only := False\<rparr>"

text \<open>The event of a complete line, before the header check; \<open>Inl\<close> is an exception, \<open>PNone\<close> is no event.\<close>

definition line_result :: "(string \<Rightarrow> pyval option) \<Rightarrow> bool \<Rightarrow> string \<Rightarrow> lines \<Rightarrow> unit + line_event option" where
  "line_result loads direct part s =
    (if el_error s then Inl ()
     else (case el_projection s of
         Some p \<Rightarrow> (case finish_projection loads p of Inl _ \<Rightarrow> Inl ()
           | Inr v \<Rightarrow> Inr (if v = PNone then None else Some (Projected v)))
       | None \<Rightarrow> Inr (if direct \<and> (marked (take 250 part) \<or> (el_line_start s = 0 \<and> session_header (loads part)))
           then Some (Raw part) else None)))"

definition header_result :: "bool \<Rightarrow> lines \<Rightarrow> unit + line_event option \<Rightarrow> line_event option" where
  "header_result first_record s r = (case r of
     Inl _ \<Rightarrow> if el_header_only s \<and> \<not> first_record then None else Some Broken
   | Inr (Some (Projected v)) \<Rightarrow> if el_header_only s \<and> \<not> session_header (Some v) then None else Some (Projected v)
   | Inr e \<Rightarrow> if el_header_only s then None else e)"

text \<open>The body of the inner loop: one line, or the beginning of one. A direct line is not projected.\<close>

definition whole_line :: "string \<Rightarrow> bool" where
  "whole_line part = (part \<noteq> [] \<and> last part = CHR 0x0A)"

definition direct_line :: "bool \<Rightarrow> string \<Rightarrow> lines \<Rightarrow> bool" where
  "direct_line first_record part s = (whole_line part \<and> clean s \<and> \<not> first_record)"

definition part_state :: "(string \<Rightarrow> pyval option) \<Rightarrow> bool \<Rightarrow> string \<Rightarrow> lines \<Rightarrow> lines" where
  "part_state loads first_record part s =
    (let s1 = s\<lparr>el_digest := el_digest s @ part, el_read := el_read s + length part\<rparr>
     in if direct_line first_record part s then s1
        else (case feed_line loads (if whole_line part then butlast part else part) (whole_line part) s1 of
            (t, raised) \<Rightarrow> if raised then t\<lparr>el_error := True, el_projection := None\<rparr> else t))"

definition take_part :: "(string \<Rightarrow> pyval option) \<Rightarrow> bool \<Rightarrow> string \<Rightarrow> lines \<Rightarrow> lines \<times> emitted list" where
  "take_part loads first_record part s =
    (let t = part_state loads first_record part s
     in if \<not> whole_line part then (t, [])
        else (case header_result first_record t (line_result loads (direct_line first_record part s) part t) of
            None \<Rightarrow> (reset_line t, [])
          | Some event \<Rightarrow> ((reset_line t)\<lparr>el_event_end := Some (el_read t)\<rparr>, [(el_line_start t, event)])))"

section \<open>The native scan\<close>

fun scan_lines :: "nat \<Rightarrow> string \<Rightarrow> string \<Rightarrow> nat \<times> (nat \<times> nat) list" where
  "scan_lines consumed line [] = (consumed, [])"
| "scan_lines consumed line (ch # cs) =
    (if ch = CHR 0x0A
     then (let end = consumed + length line + 1; (n, found) = scan_lines end [] cs
           in (n, if marked (take 250 (line @ [ch])) then (consumed, end) # found else found))
     else scan_lines consumed (line @ [ch]) cs)"

definition scan_event_lines :: "string \<Rightarrow> nat \<times> (nat \<times> nat) list" where
  "scan_event_lines data = scan_lines 0 [] data"

definition first_line :: "string \<Rightarrow> string" where \<comment> \<open>up to its LF, or everything\<close>
  "first_line block = (let text = takeWhile (\<lambda>ch. ch \<noteq> CHR 0x0A) block in take (length text + 1) block)"

definition slice :: "nat \<times> nat \<Rightarrow> string \<Rightarrow> string" where
  "slice r block = take (snd r - fst r) (drop (fst r) block)"

definition native_block :: "(string \<Rightarrow> pyval option) \<Rightarrow> string \<Rightarrow> lines \<Rightarrow> nat \<times> lines \<times> emitted list" where
  "native_block loads block s =
    (case scan_event_lines block of (consumed, found) \<Rightarrow>
      (let start = el_read s; n = length (first_line block);
           found1 = (if start = 0 \<and> (found = [] \<or> fst (hd found) \<noteq> 0) \<and> session_header (loads (first_line block))
                     then (0, n) # found else found);
           s1 = s\<lparr>el_digest := el_digest s @ take consumed block, el_read := start + consumed\<rparr>;
           s2 = s1\<lparr>el_committed := el_read s1, el_line_start := el_read s1, el_committed_digest := el_digest s1,
                   el_event_end := (if found1 = [] then el_event_end s1 else Some (start + snd (last found1)))\<rparr>
       in (consumed, s2, map (\<lambda>r. (start + fst r, Raw (slice r block))) found1)))"

function take_block :: "(string \<Rightarrow> pyval option) \<Rightarrow> bool \<Rightarrow> bool \<Rightarrow> string \<Rightarrow> lines \<Rightarrow> lines \<times> emitted list \<times> bool" where
  "take_block loads native first_record block s =
    (if block = [] then (s, [], False)
     else if native \<and> clean s \<and> fst (scan_event_lines block) \<noteq> 0 then
       (case native_block loads block s of (consumed, s1, events) \<Rightarrow>
         (case take_block loads native first_record (drop consumed block) s1 of (s2, later, stop) \<Rightarrow> (s2, events @ later, stop)))
     else
       (let part = first_line block; rest = drop (length part) block; (s1, events) = take_part loads first_record part s
        in if first_record \<and> last part = CHR 0x0A then (s1, events, True)
           else (case take_block loads native first_record rest s1 of (s2, later, stop) \<Rightarrow> (s2, events @ later, stop))))"
  by pat_completeness auto
termination
  by (relation "measure (\<lambda>(loads, native, first_record, block, s). length block)")
    (auto simp: native_block_def first_line_def Let_def split: prod.splits)

declare take_block.simps [simp del]

section \<open>Reading a file\<close>

definition READ_CHUNK :: nat where "READ_CHUNK = 16 * 1024 * 1024"

definition read_block :: "string \<Rightarrow> bool \<Rightarrow> nat \<Rightarrow> lines \<Rightarrow> string" where
  "read_block file first_record left s =
    (let data = drop (el_read s) file
     in if first_record then take (min (min READ_CHUNK left) (2 * 1024 * 1024)) (first_line data)
        else take (min READ_CHUNK left) data)"

text \<open>
  The end of the file in the middle of the first record. The collector reads a first record from
  offset 0 with a new reader only, where the projection exists.
\<close>

definition finish_record :: "(string \<Rightarrow> pyval option) \<Rightarrow> lines \<Rightarrow> lines \<times> emitted list" where
  "finish_record loads s =
    (let (s1, raised) = (if el_error s then (s, True) else feed_line loads [] True s);
         event = (if raised then Some Broken
           else (case el_projection s1 of
               None \<Rightarrow> None
             | Some p \<Rightarrow> (case finish_projection loads p of Inl _ \<Rightarrow> None | Inr v \<Rightarrow> Some (Projected v))))
     in case event of None \<Rightarrow> (s1, [])
        | Some e \<Rightarrow> (s1\<lparr>el_event_end := Some (el_read s1), el_committed := el_read s1, el_committed_digest := el_digest s1\<rparr>,
            [(el_line_start s1, e)]))"

function read_lines :: "(string \<Rightarrow> pyval option) \<Rightarrow> bool \<Rightarrow> bool \<Rightarrow> string \<Rightarrow> nat \<Rightarrow> lines \<Rightarrow> lines \<times> emitted list" where
  "read_lines loads native first_record file left s =
    (if left = 0 then (s, [])
     else
      (let block = read_block file first_record left s
       in if block = [] then
            (if first_record \<and> el_read s > el_committed s then finish_record loads s else (s, []))
          else
            (case take_block loads (native \<and> \<not> first_record) first_record block (s\<lparr>el_bytes_read := el_bytes_read s + length block\<rparr>) of
               (s1, events, stop) \<Rightarrow>
                 if stop then (s1, events)
                 else (case read_lines loads native first_record file (left - length block) s1 of (s2, later) \<Rightarrow> (s2, events @ later)))))"
  by pat_completeness auto
termination
  by (relation "measure (\<lambda>(loads, native, first_record, file, left, s). left)") (auto simp: Let_def)

declare read_lines.simps [simp del]

section \<open>The native scan finds the same events\<close>

text \<open>A reader between two lines.\<close>

definition between_lines :: "lines \<Rightarrow> bool" where
  "between_lines s = (clean s \<and> el_projection s = None \<and> \<not> el_error s \<and> \<not> el_header_only s \<and>
     el_line_start s = el_read s \<and> el_committed s = el_read s \<and> el_committed_digest s = el_digest s)"

definition advance :: "string \<Rightarrow> lines \<Rightarrow> lines" where
  "advance text s = s\<lparr>el_digest := el_digest s @ text, el_committed_digest := el_digest s @ text,
     el_read := el_read s + length text, el_committed := el_read s + length text, el_line_start := el_read s + length text\<rparr>"

definition shown_line :: "(string \<Rightarrow> pyval option) \<Rightarrow> nat \<Rightarrow> string \<Rightarrow> bool" where
  "shown_line loads start line = (marked (take 250 line) \<or> (start = 0 \<and> session_header (loads line)))"

definition ended :: "nat option \<Rightarrow> lines \<Rightarrow> lines" where
  "ended e s = (case e of None \<Rightarrow> s | Some n \<Rightarrow> s\<lparr>el_event_end := Some n\<rparr>)"

lemma between_advance [simp]: "between_lines s \<Longrightarrow> between_lines (advance text s)"
  by (simp add: between_lines_def advance_def clean_def)

lemma between_ended [simp]: "between_lines (ended e s) = between_lines s"
  by (simp add: between_lines_def ended_def clean_def split: option.split)

lemma reset_line_between:
  assumes "between_lines s"
  shows "reset_line (s\<lparr>el_digest := el_digest s @ text, el_read := el_read s + length text\<rparr>) = advance text s"
  using assms by (cases s) (simp add: reset_line_def advance_def between_lines_def clean_def)

lemma take_part_line:
  assumes s: "between_lines s" and line: "line \<noteq> []" "last line = CHR 0x0A"
  shows "take_part loads False line s =
    (if shown_line loads (el_read s) line
     then (ended (Some (el_read s + length line)) (advance line s), [(el_read s, Raw line)])
     else (advance line s, []))"
proof -
  have e: "\<not> el_error s" "el_projection s = None" "\<not> el_header_only s" "el_line_start s = el_read s" "clean s"
    using s by (simp_all add: between_lines_def)
  show ?thesis
    using e line
    by (simp add: take_part_def part_state_def direct_line_def whole_line_def Let_def line_result_def header_result_def
      shown_line_def reset_line_between [OF s] ended_def)
qed

lemma scan_lines_text:
  "CHR 0x0A \<notin> set x \<Longrightarrow> scan_lines n line (x @ cs) = scan_lines n (line @ x) cs"
  by (induction x arbitrary: line) auto

lemma scan_lines_shift:
  "scan_lines (k + n) line cs = (case scan_lines n line cs of (m, found) \<Rightarrow> (k + m, map (\<lambda>(a, b). (k + a, k + b)) found))"
proof (induction cs arbitrary: n line)
  case (Cons ch cs)
  have "scan_lines (k + (n + length line + 1)) [] cs =
      (case scan_lines (n + length line + 1) [] cs of (m, found) \<Rightarrow> (k + m, map (\<lambda>(a, b). (k + a, k + b)) found))"
    by (rule Cons.IH)
  then show ?case using Cons.IH by (auto simp: Let_def add.assoc split: prod.split)
qed simp

lemma scan_cons:
  assumes "CHR 0x0A \<notin> set x"
  shows "scan_event_lines (x @ CHR 0x0A # cs) =
    (case scan_event_lines cs of (m, found) \<Rightarrow>
      (length x + 1 + m, (if marked (take 250 (x @ [CHR 0x0A])) then [(0, length x + 1)] else []) @
         map (\<lambda>(a, b). (length x + 1 + a, length x + 1 + b)) found))"
  using scan_lines_shift [of "length x + 1" 0 "[]" cs] scan_lines_text [OF assms, of 0 "[]"]
  by (auto simp: scan_event_lines_def Let_def split: prod.split)

lemma scan_open: "CHR 0x0A \<notin> set x \<Longrightarrow> scan_event_lines x = (0, [])"
  using scan_lines_text [of x 0 "[]" "[]"] by (simp add: scan_event_lines_def)

lemma first_line_closed: "CHR 0x0A \<notin> set x \<Longrightarrow> first_line (x @ CHR 0x0A # cs) = x @ [CHR 0x0A]"
proof -
  assume "CHR 0x0A \<notin> set x"
  then have "takeWhile (\<lambda>ch. ch \<noteq> CHR 0x0A) (x @ CHR 0x0A # cs) = x" by (subst takeWhile_append2) auto
  then show ?thesis by (simp add: first_line_def)
qed

lemma first_line_open: "CHR 0x0A \<notin> set x \<Longrightarrow> first_line x = x"
proof -
  assume "CHR 0x0A \<notin> set x"
  then have "takeWhile (\<lambda>ch. ch \<noteq> CHR 0x0A) x = x" by (subst takeWhile_eq_all_conv) auto
  then show ?thesis unfolding first_line_def Let_def by (metis le_add1 take_all)
qed

lemma native_block_open:
  assumes "between_lines s" "el_read s \<noteq> 0" "CHR 0x0A \<notin> set block"
  shows "native_block loads block s = (0, s, [])"
  using assms by (cases s) (simp add: native_block_def scan_open Let_def between_lines_def)

lemma slice_shift: "slice (length u + a, length u + b) (u @ v) = slice (a, b) v"
  by (simp add: slice_def)

lemma native_block_line:
  assumes s: "between_lines s" and x: "CHR 0x0A \<notin> set x" and line: "line = x @ [CHR 0x0A]"
    and s1: "take_part loads False line s = (s1, ev)"
  shows "native_block loads (line @ rest) s =
    (case native_block loads rest s1 of (n, s2, later) \<Rightarrow> (length line + n, s2, ev @ later))"
proof -
  obtain m found where sc: "scan_event_lines rest = (m, found)" by fastforce
  let ?L = "length line" and ?sh = "\<lambda>(a, b). (length line + a, length line + b)"
  let ?shown = "shown_line loads (el_read s) line"
  have L: "?L = Suc (length x)" "0 < ?L" by (simp_all add: line)
  have sc2: "scan_event_lines (line @ rest) =
      (?L + m, (if marked (take 250 line) then [(0, ?L)] else []) @ map ?sh found)"
    using scan_cons [OF x, of rest] sc by (simp add: line)
  have fl: "first_line (line @ rest) = line" using first_line_closed [OF x, of rest] by (simp add: line)
  let ?f0 = "(if marked (take 250 line) then [(0, ?L)] else []) @ map ?sh found"
  let ?f1 = "(if ?shown then [(0, ?L)] else []) @ map ?sh found"
  have f1: "(if el_read s = 0 \<and> (?f0 = [] \<or> fst (hd ?f0) \<noteq> 0) \<and> session_header (loads line) then (0, ?L) # ?f0 else ?f0) = ?f1"
    using L by (cases found) (auto simp: shown_line_def)
  have s1': "s1 = ended (if ?shown then Some (el_read s + ?L) else None) (advance line s)"
      and ev: "ev = (if ?shown then [(el_read s, Raw line)] else [])"
    using s1 take_part_line [OF s, of line] by (auto simp: line ended_def)
  have flds: "el_read s1 = el_read s + ?L" "el_digest s1 = el_digest s @ line"
    by (auto simp: s1' ended_def advance_def)
  have evs: "map (\<lambda>r. (el_read s + fst r, Raw (slice r (line @ rest)))) ?f1 =
      ev @ map (\<lambda>r. (el_read s1 + fst r, Raw (slice r rest))) found"
    by (auto simp: ev flds slice_shift add.assoc) (simp_all add: slice_def)
  have last: "found \<noteq> [] \<Longrightarrow> snd (last (map ?sh found)) = ?L + snd (last found)"
    by (simp add: last_map split: prod.split)
  show ?thesis
    unfolding native_block_def sc sc2 prod.case fl Let_def f1
    using L evs last flds s
    by (cases "found = []") (auto simp: s1' ended_def advance_def between_lines_def add.assoc)
qed

lemma block_split:
  obtains (open_block) "CHR 0x0A \<notin> set block"
  | (lines) x rest where "block = (x @ [CHR 0x0A]) @ rest" "CHR 0x0A \<notin> set x"
  using split_list_first [of "CHR 0x0A" block] by fastforce

lemma take_block_Nil [simp]: "take_block loads native fr [] s = (s, [], False)"
  by (simp add: take_block.simps)

lemma take_block_step:
  "block \<noteq> [] \<Longrightarrow> take_block loads False fr block s =
    (case take_part loads fr (first_line block) s of (s1, events) \<Rightarrow>
      if fr \<and> last (first_line block) = CHR 0x0A then (s1, events, True)
      else (case take_block loads False fr (drop (length (first_line block)) block) s1 of
         (s2, later, stop) \<Rightarrow> (s2, events @ later, stop)))"
  by (subst take_block.simps) (simp add: Let_def)

lemmas take_block_python = take_block_step [of _ _ False, simplified]

lemma take_block_native:
  assumes "clean s" "fst (scan_event_lines block) \<noteq> 0" "block \<noteq> []"
  shows "take_block loads True False block s = (case native_block loads block s of (n, s1, events) \<Rightarrow>
      (case take_block loads True False (drop n block) s1 of (s2, later, stop) \<Rightarrow> (s2, events @ later, stop)))"
  using assms by (subst take_block.simps) simp

lemma native_block_consumed: "fst (native_block loads block s) = fst (scan_event_lines block)"
  by (simp add: native_block_def Let_def split: prod.split)

lemma take_part_between:
  assumes "between_lines s" "line \<noteq> []" "last line = CHR 0x0A" "take_part loads False line s = (s1, ev)"
  shows "between_lines s1 \<and> el_read s1 = el_read s + length line"
  using assms take_part_line [OF assms(1-3)] by (auto simp: ended_def advance_def between_lines_def clean_def split: if_splits)

text \<open>One native call on a block does what the Python loop does line by line.\<close>

lemma take_block_one:
  assumes s: "between_lines s" and b: "block = (x @ [CHR 0x0A]) @ rest" "CHR 0x0A \<notin> set x"
    and s1: "take_part loads False (x @ [CHR 0x0A]) s = (s1, ev)"
  shows "take_block loads True False block s =
    (case take_block loads True False rest s1 of (s2, later, stop) \<Rightarrow> (s2, ev @ later, stop))"
proof -
  let ?line = "x @ [CHR 0x0A]"
  have b1: "between_lines s1" "el_read s1 \<noteq> 0" using take_part_between [OF s _ _ s1] by auto
  have c: "clean s" "clean s1" using s b1 by (auto simp: between_lines_def)
  have n: "native_block loads block s = (case native_block loads rest s1 of (n, s2, later) \<Rightarrow> (length ?line + n, s2, ev @ later))"
    unfolding b(1) by (rule native_block_line [OF s b(2) refl s1])
  obtain m s2 later where m: "native_block loads rest s1 = (m, s2, later)" by (metis prod.collapse)
  have nz: "fst (scan_event_lines block) \<noteq> 0" "block \<noteq> []"
    using n m native_block_consumed [of loads block s] b(1) by auto
  have whole: "take_block loads True False block s =
      (case take_block loads True False (drop m rest) s2 of (s3, more', stop) \<Rightarrow> (s3, (ev @ later) @ more', stop))"
    using take_block_native [OF c(1) nz, of loads] n m b(1) by simp
  show ?thesis
  proof (cases "fst (scan_event_lines rest) = 0")
    case True
    have "m = 0" using native_block_consumed [of loads rest s1] m True by simp
    have "CHR 0x0A \<notin> set rest"
    proof (cases rest rule: block_split)
      case (lines y r)
      then show ?thesis using scan_cons [of y r] True by (simp split: prod.splits)
    qed
    then have "s2 = s1" "later = []" using native_block_open [OF b1, of rest loads] m by auto
    then show ?thesis using whole \<open>m = 0\<close> by simp
  next
    case False
    then have "rest \<noteq> []" by (auto simp: scan_open)
    then show ?thesis using whole take_block_native [OF c(2) False, of loads] m by (simp split: prod.split)
  qed
qed

lemma take_block_native_python:
  "between_lines s \<Longrightarrow> take_block loads True False block s = take_block loads False False block s"
proof (induction block arbitrary: s rule: length_induct)
  case (1 block)
  note s = 1(2)
  show ?case
  proof (cases block rule: block_split)
    case open_block
    show ?thesis
    proof (cases "block = []")
      case False
      then show ?thesis using open_block
        by (subst (1 2) take_block.simps) (simp add: scan_open first_line_open Let_def)
    qed simp
  next
    case (lines x rest)
    let ?line = "x @ [CHR 0x0A]"
    obtain s1 ev where s1: "take_part loads False ?line s = (s1, ev)" by fastforce
    have fl: "first_line block = ?line" using first_line_closed [OF lines(2), of rest] lines(1) by simp
    have "between_lines s1" using take_part_between [OF s _ _ s1] by simp
    then have ih: "take_block loads True False rest s1 = take_block loads False False rest s1"
      using 1(1) lines(1) by simp
    have "block \<noteq> []" using lines(1) by simp
    then have "take_block loads False False block s =
        (case take_block loads False False rest s1 of (s2, later, stop) \<Rightarrow> (s2, ev @ later, stop))"
      using take_block_python [of block loads s] fl s1 lines(1) by simp
    then show ?thesis using take_block_one [OF s lines s1] ih by simp
  qed
qed

text \<open>Reading a file: a reader is between two lines or in the middle of one.\<close>

definition sane :: "lines \<Rightarrow> bool" where
  "sane s = (clean s \<longrightarrow> between_lines s)"

lemma pass_on_keeps: "el_selected (fst (pass_on loads part s)) = el_selected s \<and> el_prefix (fst (pass_on loads part s)) = el_prefix s"
  by (simp add: pass_on_def split: option.split sum.split)

lemma feed_line_started: "part \<noteq> [] \<Longrightarrow> \<not> clean (fst (feed_line loads part whole s))"
proof -
  assume ne: "part \<noteq> []"
  let ?p = "el_prefix s @ take (min (250 - length (el_prefix s)) (length part)) part"
  have p: "?p \<noteq> []" using ne by (cases "el_prefix s = []") auto
  show ?thesis
    using p by (auto simp: feed_line_def clean_def pass_on_keeps Let_def split: sum.split)
qed

lemma between_reset [simp]: "between_lines (reset_line s)" "between_lines ((reset_line s)\<lparr>el_event_end := e\<rparr>)"
  by (simp_all add: between_lines_def reset_line_def clean_def)

lemma take_part_sane:
  assumes "part \<noteq> []" "take_part loads first_record part s = (s1, ev)"
  shows "sane s1 \<and> (last part = CHR 0x0A \<longrightarrow> between_lines s1)"
proof (cases "last part = CHR 0x0A")
  case True
  then show ?thesis using assms by (auto simp: take_part_def whole_line_def Let_def sane_def split: option.splits)
next
  case False
  let ?s = "s\<lparr>el_digest := el_digest s @ part, el_read := el_read s + length part\<rparr>"
  obtain u r where u: "feed_line loads part False ?s = (u, r)" by fastforce
  have "\<not> clean u" using feed_line_started [OF assms(1), of loads False ?s] u by simp
  then have "\<not> clean s1" using assms(2) u False
    by (auto simp: take_part_def part_state_def direct_line_def whole_line_def Let_def clean_def split: if_splits)
  then show ?thesis using False by (simp add: sane_def)
qed

lemma first_line_rest:
  "block \<noteq> [] \<Longrightarrow> first_line block \<noteq> [] \<and>
   (last (first_line block) \<noteq> CHR 0x0A \<longrightarrow> drop (length (first_line block)) block = [])"
  by (cases block rule: block_split) (auto simp: first_line_open first_line_closed)

lemma take_block_scan:
  assumes "sane s"
  shows "take_block loads True False block s = take_block loads False False block s"
proof (cases "between_lines s \<or> block = []")
  case True
  then show ?thesis using take_block_native_python by auto
next
  case False
  then have c: "\<not> clean s" "block \<noteq> []" using assms by (auto simp: sane_def)
  obtain s1 ev where s1: "take_part loads False (first_line block) s = (s1, ev)" by fastforce
  have "take_block loads True False (drop (length (first_line block)) block) s1 =
      take_block loads False False (drop (length (first_line block)) block) s1"
    using first_line_rest [OF c(2)] take_part_sane [OF _ s1] take_block_native_python [of s1 loads]
    by (cases "last (first_line block) = CHR 0x0A") auto
  then show ?thesis using c s1 by (subst (1 2) take_block.simps) (simp add: Let_def)
qed

lemma take_block_sane:
  "sane s \<Longrightarrow> take_block loads False first_record block s = (s1, ev, stop) \<Longrightarrow> sane s1"
proof (induction block arbitrary: s s1 ev stop rule: length_induct)
  case (1 block)
  show ?case
  proof (cases "block = []")
    case True
    then show ?thesis using 1 by simp
  next
    case False
    obtain t e where t: "take_part loads first_record (first_line block) s = (t, e)" by fastforce
    have "sane t" using take_part_sane [OF _ t] first_line_rest [OF False] by blast
    moreover have "length (drop (length (first_line block)) block) < length block"
      using first_line_rest [OF False] False by simp
    ultimately have ih: "take_block loads False first_record (drop (length (first_line block)) block) t = (u, f, st) \<Longrightarrow> sane u"
      for u f st using 1(1) by blast
    show ?thesis using 1(3) t ih \<open>sane t\<close> take_block_step [OF False, of loads first_record s]
      by (auto split: if_splits prod.splits)
  qed
qed

lemma read_lines_scan:
  "sane s \<Longrightarrow> read_lines loads True False file left s = read_lines loads False False file left s"
proof (induction left arbitrary: s rule: less_induct)
  case (less left)
  let ?block = "read_block file False left s"
  let ?s = "s\<lparr>el_bytes_read := el_bytes_read s + length ?block\<rparr>"
  have s: "sane ?s" using less.prems by (simp add: sane_def between_lines_def clean_def)
  obtain s1 ev stop where tb: "take_block loads False False ?block ?s = (s1, ev, stop)" by (metis prod.collapse)
  have s1: "sane s1" by (rule take_block_sane [OF s tb])
  show ?case
  proof (cases "left = 0 \<or> ?block = []")
    case True
    then show ?thesis by (subst (1 2) read_lines.simps) auto
  next
    case False
    then have "read_lines loads True False file (left - length ?block) s1 = read_lines loads False False file (left - length ?block) s1"
      using less.IH [OF _ s1] by simp
    then show ?thesis using False tb take_block_scan [OF s]
      by (subst (1 2) read_lines.simps) (simp add: Let_def)
  qed
qed

lemma new_lines_between [simp]: "between_lines (new_lines offset digest)"
  by (simp add: new_lines_def between_lines_def clean_def)

section \<open>Where reading can resume\<close>

text \<open>
  Reading of \<open>file\<close> began at offset \<open>base\<close> with digest \<open>d\<close>: the committed position is a line
  boundary and its digest covers exactly the bytes up to it.
\<close>

definition boundary_at :: "string \<Rightarrow> nat \<Rightarrow> nat \<Rightarrow> bool" where
  "boundary_at file base n = (n = base \<or> file ! (n - 1) = CHR 0x0A)"

definition anchored :: "string \<Rightarrow> nat \<Rightarrow> string \<Rightarrow> lines \<Rightarrow> bool" where
  "anchored file base d s =
    (base \<le> el_committed s \<and> el_committed s \<le> el_read s \<and> el_read s \<le> length file \<and>
     el_line_start s = el_committed s \<and> (clean s \<longrightarrow> el_read s = el_committed s) \<and>
     el_digest s = d @ slice (base, el_read s) file \<and> el_committed_digest s = d @ slice (base, el_committed s) file \<and>
     boundary_at file base (el_committed s))"

definition emitted_ok :: "string \<Rightarrow> nat \<Rightarrow> emitted \<Rightarrow> bool" where
  "emitted_ok file base e =
    (base \<le> fst e \<and> boundary_at file base (fst e) \<and>
     (case snd e of Raw line \<Rightarrow> line \<noteq> [] \<and> last line = CHR 0x0A \<and> slice (fst e, fst e + length line) file = line | _ \<Rightarrow> True))"

lemma pass_on_fields:
  "el_read (fst (pass_on loads part s)) = el_read s" "el_committed (fst (pass_on loads part s)) = el_committed s"
  "el_line_start (fst (pass_on loads part s)) = el_line_start s" "el_digest (fst (pass_on loads part s)) = el_digest s"
  "el_committed_digest (fst (pass_on loads part s)) = el_committed_digest s"
  by (simp_all add: pass_on_def split: option.split sum.split)

lemma feed_line_fields:
  "el_read (fst (feed_line loads part whole s)) = el_read s" "el_committed (fst (feed_line loads part whole s)) = el_committed s"
  "el_line_start (fst (feed_line loads part whole s)) = el_line_start s" "el_digest (fst (feed_line loads part whole s)) = el_digest s"
  "el_committed_digest (fst (feed_line loads part whole s)) = el_committed_digest s"
  by (simp_all add: feed_line_def pass_on_fields Let_def split: sum.split)

lemma part_state_fields:
  "el_read (part_state loads fr part s) = el_read s + length part"
  "el_digest (part_state loads fr part s) = el_digest s @ part"
  "el_committed (part_state loads fr part s) = el_committed s"
  "el_line_start (part_state loads fr part s) = el_line_start s"
  "el_committed_digest (part_state loads fr part s) = el_committed_digest s"
proof -
  let ?s = "s\<lparr>el_digest := el_digest s @ part, el_read := el_read s + length part\<rparr>"
  let ?p = "if whole_line part then butlast part else part"
  obtain u r where u: "feed_line loads ?p (whole_line part) ?s = (u, r)" by fastforce
  have f: "el_read u = el_read s + length part" "el_digest u = el_digest s @ part" "el_committed u = el_committed s"
    "el_line_start u = el_line_start s" "el_committed_digest u = el_committed_digest s"
    using feed_line_fields [of loads ?p "whole_line part" ?s] u by simp_all
  have e: "part_state loads fr part s =
      (if direct_line fr part s then ?s else if r then u\<lparr>el_error := True, el_projection := None\<rparr> else u)"
    unfolding part_state_def Let_def u by simp
  show "el_read (part_state loads fr part s) = el_read s + length part"
    "el_digest (part_state loads fr part s) = el_digest s @ part"
    "el_committed (part_state loads fr part s) = el_committed s"
    "el_line_start (part_state loads fr part s) = el_line_start s"
    "el_committed_digest (part_state loads fr part s) = el_committed_digest s"
    unfolding e using f by simp_all
qed

lemma raw_result:
  "header_result fr t (line_result loads direct part u) = Some (Raw line) \<Longrightarrow> line = part \<and> direct"
  by (auto simp: header_result_def line_result_def split: sum.splits option.splits line_event.splits if_splits)

text \<open>What \<open>take_part\<close> does to the positions, without the parsing.\<close>

lemma take_part_open:
  assumes "take_part loads fr part s = (s1, ev)" "\<not> whole_line part"
  shows "s1 = part_state loads fr part s" "ev = []"
  using assms by (simp_all add: take_part_def Let_def)

lemma take_part_whole:
  assumes "take_part loads fr part s = (s1, ev)" "whole_line part"
  shows "\<exists>e. s1 = ended e (reset_line (part_state loads fr part s))"
    and "\<forall>e \<in> set ev. fst e = el_line_start s \<and> (\<forall>line. snd e = Raw line \<longrightarrow> line = part \<and> clean s)"
proof -
  let ?t = "part_state loads fr part s"
  let ?r = "header_result fr ?t (line_result loads (direct_line fr part s) part ?t)"
  have e: "(s1, ev) = (case ?r of None \<Rightarrow> (reset_line ?t, [])
      | Some event \<Rightarrow> (ended (Some (el_read ?t)) (reset_line ?t), [(el_line_start ?t, event)]))"
    using assms by (simp add: take_part_def Let_def ended_def split: option.splits)
  show "\<exists>e. s1 = ended e (reset_line ?t)"
    using e by (cases ?r) (auto simp: ended_def intro: exI [of _ None] exI [of _ "Some n" for n])
  show "\<forall>e \<in> set ev. fst e = el_line_start s \<and> (\<forall>line. snd e = Raw line \<longrightarrow> line = part \<and> clean s)"
    using e raw_result [of fr ?t loads "direct_line fr part s" part ?t]
    by (cases ?r) (auto simp: part_state_fields direct_line_def)
qed

lemma slice_append: "a \<le> b \<Longrightarrow> b \<le> c \<Longrightarrow> slice (a, b) xs @ slice (b, c) xs = slice (a, c) xs"
  using take_add [of "b - a" "c - b" "drop a xs"] by (simp add: slice_def)

lemma slice_last: "slice (a, a + n) xs = part \<Longrightarrow> part \<noteq> [] \<Longrightarrow> a + n \<le> length xs \<Longrightarrow> last part = xs ! (a + n - 1)"
  by (auto simp: slice_def last_conv_nth nth_append)

lemma take_part_anchored:
  assumes a: "anchored file base d s" and part: "part \<noteq> []" "slice (el_read s, el_read s + length part) file = part"
    and len: "el_read s + length part \<le> length file" and tp: "take_part loads fr part s = (s1, ev)"
  shows "anchored file base d s1 \<and> el_read s1 = el_read s + length part \<and> (\<forall>e \<in> set ev. emitted_ok file base e)"
proof -
  have dig: "el_digest s @ part = d @ slice (base, el_read s + length part) file"
    using slice_append [where xs = "file", of base "el_read s" "el_read s + length part"] a part(2) by (simp add: anchored_def)
  show ?thesis
  proof (cases "whole_line part")
    case True
    obtain e where s1: "s1 = ended e (reset_line (part_state loads fr part s))"
      using take_part_whole(1) [OF tp True] by blast
    have "last part = file ! (el_read s + length part - 1)" by (rule slice_last [OF part(2,1) len])
    then have b: "boundary_at file base (el_read s + length part)" using True by (simp add: boundary_at_def whole_line_def)
    have "anchored file base d s1" using a len dig b
      by (auto simp: anchored_def s1 ended_def reset_line_def part_state_fields split: option.split)
    moreover have "el_read s1 = el_read s + length part"
      by (simp add: s1 ended_def reset_line_def part_state_fields split: option.split)
    moreover have "emitted_ok file base e" if "e \<in> set ev" for e
      using take_part_whole(2) [OF tp True] that a part True
      by (auto simp: emitted_ok_def anchored_def whole_line_def split: line_event.split)
    ultimately show ?thesis by blast
  next
    case False
    have s1: "s1 = part_state loads fr part s" "ev = []" using take_part_open [OF tp False] by auto
    have "clean s1 \<longrightarrow> el_read s1 = el_committed s1"
      using take_part_sane [OF part(1) tp] by (auto simp: sane_def between_lines_def)
    then show ?thesis using a len dig by (simp add: anchored_def s1 part_state_fields)
  qed
qed

lemma first_line_slice: "slice (0, length (first_line block)) block = first_line block"
  by (cases block rule: block_split) (auto simp: slice_def first_line_open first_line_closed)

lemma first_line_length: "length (first_line block) \<le> length block"
  by (cases block rule: block_split) (auto simp: first_line_open first_line_closed)

lemma slice_slice: "slice (a, a + n) xs = ys \<Longrightarrow> k \<le> m \<Longrightarrow> m \<le> n \<Longrightarrow> slice (a + k, a + m) xs = slice (k, m) ys"
  by (auto simp: slice_def drop_take min_def add.commute)

lemma take_block_anchored:
  "anchored file base d s \<Longrightarrow> slice (el_read s, el_read s + length block) file = block \<Longrightarrow>
   el_read s + length block \<le> length file \<Longrightarrow> take_block loads False False block s = (s1, ev, stop) \<Longrightarrow>
   anchored file base d s1 \<and> el_read s1 = el_read s + length block \<and> \<not> stop \<and> (\<forall>e \<in> set ev. emitted_ok file base e)"
proof (induction block arbitrary: s s1 ev stop rule: length_induct)
  case (1 block)
  show ?case
  proof (cases "block = []")
    case True
    then show ?thesis using 1 by simp
  next
    case False
    let ?l = "first_line block" and ?rest = "drop (length (first_line block)) block"
    obtain t e where t: "take_part loads False ?l s = (t, e)" by fastforce
    obtain u f st where u: "take_block loads False False ?rest t = (u, f, st)" by (metis prod.collapse)
    have res: "s1 = u" "ev = e @ f" "stop = st" using 1(5) t u take_block_python [OF False, of loads s] by auto
    have ne: "?l \<noteq> []" using first_line_rest [OF False] by blast
    have "slice (el_read s, el_read s + length ?l) file = ?l"
      using slice_slice [OF 1(3), of 0 "length ?l"] first_line_slice [of block] first_line_length [of block] by simp
    then have ta: "anchored file base d t" "el_read t = el_read s + length ?l" "\<forall>x \<in> set e. emitted_ok file base x"
      using take_part_anchored [OF 1(2) ne _ _ t] 1(4) first_line_length [of block] by auto
    have rl: "length ?l + length ?rest = length block" using first_line_length [of block] by simp
    have "slice (el_read t, el_read t + length ?rest) file = slice (length ?l, length block) block"
      using slice_slice [OF 1(3), of "length ?l" "length block"] rl ta(2) by (simp add: add.assoc)
    also have "\<dots> = ?rest" by (simp add: slice_def)
    finally have sr: "slice (el_read t, el_read t + length ?rest) file = ?rest" .
    have "length ?rest < length block" using ne False by simp
    then have "anchored file base d u \<and> el_read u = el_read t + length ?rest \<and> \<not> st \<and> (\<forall>x \<in> set f. emitted_ok file base x)"
      using 1(1) ta(1) sr u ta(2) 1(4) rl by (metis add.assoc)
    then show ?thesis using res ta rl by auto
  qed
qed

lemma read_lines_step:
  "read_lines loads False False file left s =
    (let block = read_block file False left s
     in if left = 0 \<or> block = [] then (s, [])
        else (case take_block loads False False block (s\<lparr>el_bytes_read := el_bytes_read s + length block\<rparr>) of
           (s1, events, stop) \<Rightarrow> if stop then (s1, events)
             else (case read_lines loads False False file (left - length block) s1 of (s2, later) \<Rightarrow> (s2, events @ later))))"
  by (subst read_lines.simps) (simp add: Let_def)

lemma read_lines_anchored:
  "anchored file base d s \<Longrightarrow> read_lines loads False False file left s = (s1, ev) \<Longrightarrow>
   anchored file base d s1 \<and> (\<forall>e \<in> set ev. emitted_ok file base e)"
proof (induction left arbitrary: s s1 ev rule: less_induct)
  case (less left)
  let ?block = "read_block file False left s"
  let ?s = "s\<lparr>el_bytes_read := el_bytes_read s + length ?block\<rparr>"
  show ?case
  proof (cases "left = 0 \<or> ?block = []")
    case True
    then show ?thesis using less.prems read_lines_step [of loads "file" left s] by (auto simp: Let_def)
  next
    case False
    have s: "anchored file base d ?s" using less.prems(1) by (simp add: anchored_def clean_def)
    have len: "el_read s \<le> length file" using less.prems(1) by (simp add: anchored_def)
    obtain t e st where t: "take_block loads False False ?block ?s = (t, e, st)" by (metis prod.collapse)
    have b: "slice (el_read s, el_read s + length ?block) file = ?block" "el_read s + length ?block \<le> length file"
      using len by (auto simp: read_block_def slice_def Let_def min_def)
    have ta: "anchored file base d t" "\<not> st" "\<forall>x \<in> set e. emitted_ok file base x"
      using take_block_anchored [OF s _ _ t] b by auto
    obtain u f where u: "read_lines loads False False file (left - length ?block) t = (u, f)" by fastforce
    have "left - length ?block < left" using False by simp
    then have "anchored file base d u \<and> (\<forall>x \<in> set f. emitted_ok file base x)" using less.IH ta(1) u by blast
    moreover have "s1 = u" "ev = e @ f"
      using less.prems(2) False t u ta(2) read_lines_step [of loads "file" left s] by (simp_all add: Let_def)
    ultimately show ?thesis using ta(3) by auto
  qed
qed

lemma new_lines_anchored: "base \<le> length file \<Longrightarrow> anchored file base d (new_lines base d)"
  by (simp add: anchored_def new_lines_def slice_def boundary_at_def)

section \<open>Further properties\<close>

text \<open>
  After any bounded read the committed position is where reading began or just behind a line feed, its digest
  covers exactly the bytes up to it, and every event was emitted at the start of its line, a raw event being
  that whole line: a later read resumes without losing or repeating a line.
\<close>

theorem resume_at_line_boundary:
  assumes "base \<le> length src" "read_lines loads native False src limit (new_lines base d) = (s, events)"
  shows "boundary_at src base (el_committed s) \<and> base \<le> el_committed s \<and> el_committed s \<le> length src \<and>
    el_committed_digest s = d @ slice (base, el_committed s) src \<and> (\<forall>e \<in> set events. emitted_ok src base e)"
proof -
  have "read_lines loads False False src limit (new_lines base d) = (s, events)"
    using assms(2) read_lines_scan [of "new_lines base d" loads src limit] by (cases native) (simp_all add: sane_def)
  then show ?thesis using read_lines_anchored [OF new_lines_anchored [OF assms(1)], of loads limit d s events]
    by (auto simp: anchored_def)
qed

theorem resume_at_line_boundary_witness:
  "\<exists>s events. read_lines (\<lambda>_. None) True False ''ab'' 2 (new_lines 0 []) = (s, events) \<and> el_committed s \<le> 2"
proof -
  obtain s events where r: "read_lines (\<lambda>_. None) True False ''ab'' 2 (new_lines 0 []) = (s, events)" by fastforce
  have "el_committed s \<le> length ''ab''" using resume_at_line_boundary [OF _ r] by simp
  then show ?thesis using r by simp
qed

section \<open>Claims\<close>


end
