(* ===== verification/Faults.thy ===== *)
theory Faults
  imports Pydict
begin

text \<open>
  Failure classification from source facts: \<open>assess\<close> of \<open>connection_recovery.py\<close> and
  \<open>detect\<close>, \<open>strongest\<close>, \<open>collection_phase\<close> and \<open>ErrorState\<close> of \<open>app_errors.py\<close>. The Korean
  sentences shown to the user are constructors, one per sentence, since the code only
  stores and compares them. The registry keeps its records in the bounded history deque,
  whose dictionaries it shares with the table of open records: a record has an identity
  and a change is visible in both.
\<close>

section \<open>Connection status\<close>

datatype assess_text =
    Exit_interrupted | Exit_unknown_owner | Exit_preparing | Exit_closing
  | Draining_text | Direct_restart | Direct_plain | Switching | Message pyval
  | Proxy_unusable | Relay_failure | Observation_failure | Responding | No_response

record assessment =
  as_code :: string
  as_confirmed :: bool
  as_can_recover :: bool
  as_detail :: assess_text

definition BUSY :: "string list" where
  "BUSY = [''queued'', ''waiting'', ''switching'', ''stopping'', ''starting'', ''verifying'', ''rollback'']"

definition or_val :: "pyval \<Rightarrow> pyval \<Rightarrow> pyval" where
  "or_val v w = (if truthy v then v else w)"

definition service_phase :: "pydict \<Rightarrow> pyval" where
  "service_phase status = or_val (dget status ''service_phase'') (dget status ''phase'')"

definition exiting :: "pydict \<Rightarrow> bool" where
  "exiting status = is_in (service_phase status) [''preparing'', ''closing'']"

definition assess_exit :: "pydict \<Rightarrow> assessment" where
  "assess_exit status =
    (let owner = dget (dsub status ''exit_recovery'') ''owner_state'' in
     if owner = PStr ''dead'' then \<lparr>as_code = ''interrupted_exit'', as_confirmed = False, as_can_recover = True, as_detail = Exit_interrupted\<rparr>
     else if owner = PStr ''unknown'' then \<lparr>as_code = ''exiting'', as_confirmed = False, as_can_recover = False, as_detail = Exit_unknown_owner\<rparr>
     else \<lparr>as_code = ''exiting'', as_confirmed = False, as_can_recover = False,
            as_detail = (if service_phase status = PStr ''preparing'' then Exit_preparing else Exit_closing)\<rparr>)"

definition assess_direct :: "pydict \<Rightarrow> assessment" where
  "assess_direct status =
    (if dget status ''phase'' = PStr ''draining'' \<or> truthy (dget (dsub status ''health'') ''draining'')
     then \<lparr>as_code = ''draining'', as_confirmed = False, as_can_recover = True, as_detail = Draining_text\<rparr>
     else \<lparr>as_code = ''direct'', as_confirmed = False, as_can_recover = True,
            as_detail = (if truthy (dget status ''restart_required'') then Direct_restart else Direct_plain)\<rparr>)"

definition storage_broken :: "pydict \<Rightarrow> bool" where
  "storage_broken health = (at_least health ''storage_failure_streak'' 3 \<or> dget health ''observation_enabled'' = PBool False)"

definition assess_proxy :: "pydict \<Rightarrow> assessment" where
  "assess_proxy status =
    (let update = dsub status ''update''; probe = dget status ''probe_state''; health = dsub status ''health'' in
     if is_in (dget update ''phase'') BUSY \<and> \<not> (probe = PStr ''healthy'' \<and> is_in (dget update ''phase'') [''queued'', ''waiting''])
     then \<lparr>as_code = ''updating'', as_confirmed = False, as_can_recover = True,
            as_detail = (if truthy (dget update ''message'') then Message (dget update ''message'') else Switching)\<rparr>
     else if is_in probe [''refused'', ''identity_mismatch'']
     then \<lparr>as_code = (if probe = PStr ''refused'' then ''refused'' else ''identity_mismatch''), as_confirmed = True,
            as_can_recover = True, as_detail = Proxy_unusable\<rparr>
     else if at_least health ''internal_failure_streak'' 3
     then \<lparr>as_code = ''relay_failure'', as_confirmed = True, as_can_recover = True, as_detail = Relay_failure\<rparr>
     else if storage_broken health
     then \<lparr>as_code = ''observation_failure'', as_confirmed = True, as_can_recover = True, as_detail = Observation_failure\<rparr>
     else if probe = PStr ''healthy''
     then \<lparr>as_code = ''responding'', as_confirmed = False, as_can_recover = True, as_detail = Responding\<rparr>
     else \<lparr>as_code = ''unknown'', as_confirmed = False, as_can_recover = True, as_detail = No_response\<rparr>)"

text \<open>\<open>assess_with c\<close> is the reading of a status whose \<open>configured\<close> member is \<open>c\<close>; the member is
  read only outside an exit, where a missing one raises.\<close>

definition assess_with :: "pyval \<Rightarrow> pydict \<Rightarrow> assessment" where
  "assess_with configured status =
    (if exiting status then assess_exit status
     else if \<not> truthy configured then assess_direct status else assess_proxy status)"

definition assess :: "pydict \<Rightarrow> pyerror + assessment" where
  "assess status =
    (if exiting status \<or> ''configured'' \<in> fst ` set status
     then Inr (assess_with (dget status ''configured'') status) else Inl KeyError)"

section \<open>Faults\<close>

datatype explanation =
    Collector_start | Collector_error | Records_not_saved | Records_not_read | Collector_state_unknown
  | Results_delayed | Analysis_memory | Analyzer_not_running | Query_failed_text | Restore_failed
  | Configuration_failed | Proxy_protected | Proxy_refused | Proxy_identity | Proxy_relay
  | Observation_protected | Observation_unread | Observation_unsaved | Observation_gap_text
  | Exclusion_uncertain | Ledger_failed_text | Saved_not_recomputed | Computation_failed | History_not_saved
  | Account_missing_text | Lookup_timeout | Lookup_failed_text | Release_unknown | Proxy_update_failed | Install_failed

datatype guidance =
    Restart_app_exhausted | Restarting_collector | Check_storage_retry | Check_records_retry | Check_collector
  | Checking_collector | Retry_later | Restarting_analyzer | Restart_app_analyzer | Restart_app_start
  | Checking_analyzer | Retry_kept | Retry_unloaded | Run_recovery | Check_connection | Reopen_client
  | Reopen_client_storage | Check_observation | Check_exclusions | Checking_ledger | Recomputing
  | Retrying_save | Check_storage | Sign_in | Retrying_lookup | Check_update_later | Apply_update

record fault =
  f_kind :: string
  f_code :: pyval
  f_severe :: bool \<comment> \<open>severity is 'error' rather than 'warning'\<close>
  f_explanation :: explanation
  f_guidance :: guidance
  f_notify :: pyval
  f_tray :: bool

datatype title = Kind_title string | Collection_delayed

definition fault_title :: "fault \<Rightarrow> title" where
  "fault_title f = (if f_kind f = ''collection'' \<and> f_code f = PStr ''stale'' then Collection_delayed else Kind_title (f_kind f))"

abbreviation quiet :: "pyval" where
  "quiet \<equiv> PBool False"

definition mk_fault :: "string \<Rightarrow> string \<Rightarrow> bool \<Rightarrow> explanation \<Rightarrow> guidance \<Rightarrow> fault" where
  "mk_fault kind code severe e g = \<lparr>f_kind = kind, f_code = PStr code, f_severe = severe, f_explanation = e, f_guidance = g,
     f_notify = quiet, f_tray = True\<rparr>"

definition flag :: "pydict \<Rightarrow> string \<Rightarrow> bool" where
  "flag v k = truthy (dget v k)"

text \<open>\<open>value.get(k, False)\<close>\<close>

definition raw :: "pydict \<Rightarrow> string \<Rightarrow> pyval" where
  "raw v k = dget_or v k (PBool False)"

definition detect_collection :: "pydict \<Rightarrow> rat \<Rightarrow> fault option" where
  "detect_collection v now =
    (if flag v ''start_failed'' \<or> flag v ''runtime_failed'' then
       Some ((mk_fault ''collection'' (if flag v ''start_failed'' then ''start'' else ''runtime'') True
         (if flag v ''start_failed'' then Collector_start else Collector_error)
         (if flag v ''retry_exhausted'' then Restart_app_exhausted else Restarting_collector)) \<lparr>f_notify := raw v ''retry_exhausted''\<rparr>)
     else if flag v ''read_failed'' \<or> flag v ''save_failed'' then
       Some ((mk_fault ''collection'' (if flag v ''save_failed'' then ''save'' else ''read'') (flag v ''save_failed'')
         (if flag v ''save_failed'' then Records_not_saved else Records_not_read)
         (if flag v ''save_failed'' then Check_storage_retry else Check_records_retry)) \<lparr>f_notify := raw v ''save_failed''\<rparr>)
     else if flag v ''status_failed'' then Some (mk_fault ''collection'' ''status'' False Collector_state_unknown Check_collector)
     else if \<not> flag v ''starting'' \<and> (flag v ''snapshot_stale'' \<or> older now 30 (dget v ''snapshot_at''))
       then Some (mk_fault ''collection'' ''stale'' False Results_delayed Checking_collector)
     else None)"

definition detect_analysis :: "pydict \<Rightarrow> fault option" where
  "detect_analysis v =
    (if flag v ''publication_failed'' then Some (mk_fault ''analysis'' ''publication'' False Analysis_memory Retry_kept)
     else if flag v ''fatal'' \<or> flag v ''start_failed'' \<or> flag v ''process_exited'' then
       Some ((mk_fault ''analysis'' ''process'' (\<not> flag v ''retrying'') Analyzer_not_running
         (if flag v ''retrying'' then Restarting_analyzer else if flag v ''retry_exhausted'' then Restart_app_analyzer
          else if flag v ''start_failed'' then Restart_app_start else Checking_analyzer)) \<lparr>f_notify := raw v ''retry_exhausted''\<rparr>)
     else if flag v ''query_failed'' \<and> py_eq (dget v ''request_id'') (dget v ''current_request_id'') then
       Some ((mk_fault ''analysis'' ''query'' False Query_failed_text
         (if truthy (dget_or v ''retained'' (PBool True)) then Retry_kept else Retry_unloaded)) \<lparr>f_tray := False\<rparr>)
     else None)"

definition detect_connection :: "pydict \<Rightarrow> fault option" where
  "detect_connection v =
    (if dget v ''phase'' = PStr ''recovery_failed'' \<or> flag (dsub v ''incident'') ''recovery_error'' then
       Some ((mk_fault ''connection'' ''restore'' True Restore_failed Run_recovery) \<lparr>f_notify := PBool True\<rparr>)
     else if flag v ''operation_failed'' then
       Some ((mk_fault ''connection'' ''configuration'' False Configuration_failed Check_connection) \<lparr>f_tray := False\<rparr>)
     else if flag v ''protection_stopped'' then
       Some ((mk_fault ''connection'' ''protection'' False Proxy_protected Reopen_client) \<lparr>f_notify := raw v ''notification_confirmed''\<rparr>)
     else (let code = as_code (assess_with (raw v ''configured'') v) in
       if code \<in> {''refused'', ''identity_mismatch'', ''relay_failure''} then
         Some ((mk_fault ''connection'' code True
           (if code = ''refused'' then Proxy_refused else if code = ''identity_mismatch'' then Proxy_identity else Proxy_relay)
           Run_recovery) \<lparr>f_notify := raw v ''notification_confirmed''\<rparr>)
       else None))"

text \<open>\<open>health.get('observation_dropped', 0) > value.get('previous_dropped', 0)\<close> on numbers\<close>

definition more_dropped :: "pydict \<Rightarrow> pydict \<Rightarrow> bool" where
  "more_dropped health v =
    (case (numeric (dget_or health ''observation_dropped'' (PInt 0)), numeric (dget_or v ''previous_dropped'' (PInt 0))) of
       (Some a, Some b) \<Rightarrow> a > b | _ \<Rightarrow> False)"

definition detect_observation :: "pydict \<Rightarrow> fault option" where
  "detect_observation v =
    (let health = (if truthy (dget v ''health'') then dsub v ''health'' else v) in
     if flag v ''protection_stopped'' then
       Some ((mk_fault ''observation'' ''protection'' False Observation_protected Reopen_client_storage)
              \<lparr>f_notify := raw v ''notification_confirmed''\<rparr>)
     else if flag v ''read_failed'' then Some (mk_fault ''observation'' ''read'' False Observation_unread Check_observation)
     else if storage_broken health then Some (mk_fault ''observation'' ''save'' False Observation_unsaved Check_observation)
     else if more_dropped health v then Some (mk_fault ''observation'' ''gap'' False Observation_gap_text Check_observation)
     else None)"

definition detect_quota :: "pydict \<Rightarrow> fault option" where
  "detect_quota v =
    (if flag v ''stale'' then None
     else if flag v ''uncertain'' then Some ((mk_fault ''quota'' ''uncertain'' False Exclusion_uncertain Check_exclusions) \<lparr>f_tray := False\<rparr>)
     else if flag v ''ledger_failed'' then Some (mk_fault ''quota'' ''ledger'' False Ledger_failed_text Checking_ledger)
     else if flag v ''calculation_failed'' then
       Some ((mk_fault ''quota'' ''calculation'' False (if flag v ''saved'' then Saved_not_recomputed else Computation_failed) Recomputing)
              \<lparr>f_tray := False\<rparr>)
     else if flag v ''storage_failed'' then
       Some ((mk_fault ''quota'' ''storage'' (\<not> flag v ''temporary'') History_not_saved
               (if flag v ''temporary'' then Retrying_save else Check_storage)) \<lparr>f_notify := PBool (\<not> flag v ''temporary'')\<rparr>)
     else if flag v ''lookup_failed'' then
       (let code = dget_or v ''reason'' (PStr ''lookup'') in
        Some ((mk_fault ''quota'' [] False
          (if code = PStr ''account_missing'' then Account_missing_text else if code = PStr ''timeout'' then Lookup_timeout
           else Lookup_failed_text)
          (if code = PStr ''account_missing'' then Sign_in else Retrying_lookup))
          \<lparr>f_code := code, f_notify := PBool (code = PStr ''account_missing'')\<rparr>))
     else None)"

definition detect_update :: "pydict \<Rightarrow> fault option" where
  "detect_update v =
    (if flag v ''checking_failed'' then Some ((mk_fault ''update'' ''check'' False Release_unknown Check_update_later) \<lparr>f_tray := False\<rparr>)
     else (let failed = (is_in (dget v ''phase'') [''failed'', ''interrupted''] \<or>
              dget v ''phase'' = PStr ''partial'' \<and> is_in (dget (dsub v ''proxy'') ''phase'') [''failed'', ''recovery_required'']);
            partial = is_in (dget (dsub v ''app'') ''state'') [''verified'', ''current''] in
       if failed \<and> \<not> flag v ''cancel_requested'' then
         Some ((mk_fault ''update'' (if partial then ''proxy'' else ''install'') False
           (if partial then Proxy_update_failed else Install_failed) Apply_update) \<lparr>f_notify := PBool True\<rparr>)
       else None))"

definition detect :: "string \<Rightarrow> pydict \<Rightarrow> rat \<Rightarrow> fault option" where
  "detect kind v now =
    (if flag v ''expected_stop'' \<or> flag v ''disabled'' then None
     else if kind = ''collection'' then detect_collection v now
     else if kind = ''analysis'' then detect_analysis v
     else if kind = ''connection'' then detect_connection v
     else if kind = ''observation'' then detect_observation v
     else if kind = ''quota'' then detect_quota v
     else if kind = ''update'' then detect_update v
     else None)"

definition strongest :: "fault list \<Rightarrow> fault option" where
  "strongest faults =
    (let visible = filter f_tray faults in
     case filter f_severe visible of f # _ \<Rightarrow> Some f | [] \<Rightarrow> (case visible of f # _ \<Rightarrow> Some f | [] \<Rightarrow> None))"

section \<open>Collection phase\<close>

definition stamp_max :: "pyval list \<Rightarrow> pyval" where
  "stamp_max vs = (case List.map_filter numeric vs of [] \<Rightarrow> PNone | q # qs \<Rightarrow> PFloat (fold max qs q))"

definition usage_complete :: "pydict \<Rightarrow> bool" where
  "usage_complete evidence = truthy (dget_or evidence ''usage_collection_complete''
     (dget_or (dsub evidence ''index'') ''usage_complete'' (PBool False)))"

definition collection_publication_at :: "pydict \<Rightarrow> pyval" where
  "collection_publication_at evidence =
    (if dget evidence ''collection_observation'' \<noteq> PNone
     then dget (dsub evidence ''collection_observation'') ''collection_snapshot_at''
     else stamp_max (dget evidence ''collection_snapshot_at'' #
       (if truthy (dget evidence ''collection'') \<or> usage_complete evidence then [dget evidence ''ts''] else [])))"

datatype collection_phase = Ph_stopped | Ph_failed | Ph_delayed | Ph_preparing | Ph_ready

definition collection_failed :: "pydict \<Rightarrow> rat \<Rightarrow> bool" where
  "collection_failed evidence now =
    (let facts = dsub evidence ''collection_fault''; observation = dsub evidence ''collection_observation'' in
     detect ''collection'' (filter (\<lambda>(k, _). k \<noteq> ''snapshot_at'' \<and> k \<noteq> ''snapshot_stale'') facts) now \<noteq> None \<or>
     detect ''collection'' (dsub observation ''collection_fault'') now \<noteq> None \<or>
     detect ''collection'' (dsub observation ''source_fault'') now \<noteq> None \<or>
     dget observation ''source_fault'' = PNone \<and> flag evidence ''usage_errors'')"

definition collection_delayed :: "pydict \<Rightarrow> rat \<Rightarrow> rat option \<Rightarrow> bool" where
  "collection_delayed evidence now started =
    (if collection_publication_at evidence \<noteq> PNone then older now 30 (collection_publication_at evidence)
     else (case started of Some s \<Rightarrow> now - s > 30
       | None \<Rightarrow> flag evidence ''collection_stale'' \<or> flag (dsub evidence ''collection_fault'') ''snapshot_stale''))"

definition collection_phase :: "pydict \<Rightarrow> rat \<Rightarrow> rat option \<Rightarrow> collection_phase" where
  "collection_phase evidence now started =
    (let facts = dsub evidence ''collection_fault'' in
     if flag facts ''expected_stop'' \<or> flag facts ''disabled'' then Ph_stopped
     else if collection_failed evidence now then Ph_failed
     else if collection_delayed evidence now started then Ph_delayed
     else if (flag facts ''starting'' \<or> flag facts ''status_pending'' \<or> flag facts ''handoff_pending'') \<or>
             \<not> usage_complete evidence \<or> flag (dsub evidence ''index'') ''loading'' then Ph_preparing
     else Ph_ready)"

section \<open>The registry of open failures\<close>

datatype resolution = Unresolved | State_changed | Resolved_by string

record error_record =
  er_kind :: string
  er_code :: pyval
  er_source :: string
  er_fault :: fault \<comment> \<open>title, detail, action and page are functions of it\<close>
  er_at :: rat
  er_resolution :: resolution

record error_state =
  es_history :: "nat list" \<comment> \<open>record objects, newest first, at most 50\<close>
  es_sources :: "(string \<times> fault) list"
  es_records :: "(string \<times> nat) list"
  es_heap :: "error_record list" \<comment> \<open>the record objects in order of creation\<close>
  es_revision :: nat

definition SOURCES :: "string list" where
  "SOURCES = [''collection.service'', ''collection.source'', ''collection.freshness'', ''collection.observer'',
     ''analysis.process'', ''analysis.query'', ''quota.ledger'', ''quota.analysis'', ''quota.live'', ''quota.edit'',
     ''quota.calculation'', ''quota.query'', ''connection.status'', ''connection.protection'', ''connection.operation'',
     ''observation.read'', ''observation.health'', ''observation.protection'', ''update.status'', ''update.operation'', ''update.check'']"

definition init_errors :: error_state where
  "init_errors = \<lparr>es_history = [], es_sources = [], es_records = [], es_heap = [], es_revision = 0\<rparr>"

definition resolve_record :: "string \<Rightarrow> resolution \<Rightarrow> error_state \<Rightarrow> error_state" where
  "resolve_record source r s =
    (case map_of (es_records s) source of None \<Rightarrow> s
     | Some i \<Rightarrow> s \<lparr>es_heap := (es_heap s)[i := (es_heap s ! i) \<lparr>er_resolution := r\<rparr>]\<rparr>)"

definition clear_error :: "string \<Rightarrow> string \<Rightarrow> error_state \<Rightarrow> error_state" where
  "clear_error source reason s =
    (let s1 = (case map_of (es_sources s) source of None \<Rightarrow> s | Some _ \<Rightarrow> s \<lparr>es_revision := es_revision s + 1\<rparr>);
         s2 = s1 \<lparr>es_sources := AList.delete source (es_sources s1)\<rparr>;
         s3 = resolve_record source (Resolved_by reason) s2
     in s3 \<lparr>es_records := AList.delete source (es_records s3)\<rparr>)"

definition same_failure :: "fault \<Rightarrow> fault \<Rightarrow> bool" where
  "same_failure f g = (f_kind f = f_kind g \<and> py_eq (f_code f) (f_code g))"

text \<open>A new record, put at the front of the history; the oldest of more than 50 is dropped.\<close>

definition open_record :: "rat \<Rightarrow> string \<Rightarrow> string \<Rightarrow> fault \<Rightarrow> error_state \<Rightarrow> error_state" where
  "open_record now source kind fault s =
    (let i = length (es_heap s) in
     s \<lparr>es_heap := es_heap s @ [\<lparr>er_kind = kind, er_code = f_code fault, er_source = source, er_fault = fault, er_at = now,
           er_resolution = Unresolved\<rparr>],
        es_history := take 50 (i # es_history s), es_records := AList.update source i (es_records s)\<rparr>)"

definition notified_elsewhere :: "string \<Rightarrow> fault \<Rightarrow> (string \<times> fault) list \<Rightarrow> bool" where
  "notified_elsewhere source fault sources =
    list_ex (\<lambda>(k, f). k \<noteq> source \<and> truthy (f_notify f) \<and> same_failure f fault) sources"

text \<open>\<open>current == fault\<close> compares the two values; the facts are plain booleans and strings.\<close>

definition update_error :: "rat \<Rightarrow> string \<Rightarrow> string \<Rightarrow> pydict \<Rightarrow> bool \<Rightarrow> string \<Rightarrow> error_state
    \<Rightarrow> pyerror + fault option \<times> error_state" where
  "update_error now source kind facts healthy reason s =
    (if source \<notin> set SOURCES then Inl (ValueError ''Unknown error source'')
     else (case detect kind facts now of
       None \<Rightarrow> Inr (None, if healthy then clear_error source reason s else s)
     | Some fault \<Rightarrow>
        (let current = map_of (es_sources s) source in
         if current = Some fault then Inr (None, s)
         else (let s1 = s \<lparr>es_revision := es_revision s + 1, es_sources := AList.update source fault (es_sources s)\<rparr>;
                   changed = (case current of None \<Rightarrow> True | Some f \<Rightarrow> \<not> same_failure f fault);
                   s2 = (if changed then Inr (open_record now source kind fault (resolve_record source State_changed s1))
                         else (case map_of (es_records s1) source of None \<Rightarrow> Inl AttributeError
                               | Some i \<Rightarrow> Inr (s1 \<lparr>es_heap := (es_heap s1)[i := (es_heap s1 ! i) \<lparr>er_fault := fault\<rparr>]\<rparr>)));
                   news = (truthy (f_notify fault) \<and> \<not> notified_elsewhere source fault (es_sources s1) \<and>
                     (case current of None \<Rightarrow> True | Some f \<Rightarrow> \<not> truthy (f_notify f) \<or> f_severe f \<noteq> f_severe fault))
               in bindE s2 (\<lambda>s'. Inr (if news then Some fault else None, s'))))))"

definition grouped_step :: "(string \<times> fault) list \<Rightarrow> fault \<Rightarrow> (string \<times> fault) list" where
  "grouped_step groups fault =
    (case map_of groups (f_kind fault) of
       None \<Rightarrow> AList.update (f_kind fault) fault groups
     | Some previous \<Rightarrow> (if f_severe fault \<and> \<not> f_severe previous then AList.update (f_kind fault) fault groups else groups))"

definition grouped :: "error_state \<Rightarrow> (string \<times> fault) list" where
  "grouped s = foldl grouped_step [] (map snd (es_sources s))"

section \<open>Lemmas\<close>

lemma detect_kind: "detect kind v now = Some f \<Longrightarrow> f_kind f = kind"
  by (auto simp: detect_def detect_collection_def detect_analysis_def detect_connection_def detect_observation_def
      detect_quota_def detect_update_def Let_def mk_fault_def split: if_splits)

lemma truthy_raw [simp]: "truthy (raw v k) = flag v k"
  by (simp add: raw_def flag_def dget_def dget_or_def split: option.splits)

lemma notify_severity: "detect ''collection'' v now = Some f \<Longrightarrow> truthy (f_notify f) \<Longrightarrow> f_severe f"
  by (auto simp: detect_def detect_collection_def mk_fault_def split: if_splits)

lemma assess_confirmed:
  "as_confirmed (assess_with c s) \<Longrightarrow> \<not> exiting s \<and> truthy c \<and>
     as_code (assess_with c s) \<in> {''refused'', ''identity_mismatch'', ''relay_failure'', ''observation_failure''}"
  by (auto simp: assess_with_def assess_exit_def assess_direct_def assess_proxy_def Let_def split: if_splits)

lemma strongest_spec:
  "strongest fs = Some f \<Longrightarrow> f \<in> set fs \<and> f_tray f \<and> ((\<exists>g\<in>set fs. f_tray g \<and> f_severe g) \<longrightarrow> f_severe f)"
proof -
  assume a: "strongest fs = Some f"
  show ?thesis
  proof (cases "filter f_severe (filter f_tray fs)")
    case Nil
    then have "\<not> (\<exists>g\<in>set fs. f_tray g \<and> f_severe g)" by (auto simp: filter_empty_conv)
    moreover have "f \<in> set (filter f_tray fs)" using a Nil by (cases "filter f_tray fs") (auto simp: strongest_def Let_def)
    ultimately show ?thesis by auto
  next
    case (Cons g gs)
    then have "g \<in> set (filter f_severe (filter f_tray fs))" by simp
    then show ?thesis using a Cons by (auto simp: strongest_def Let_def)
  qed
qed

lemma strongest_None: "strongest fs = None \<longleftrightarrow> (\<forall>f\<in>set fs. \<not> f_tray f)"
proof -
  have "strongest fs = None \<longleftrightarrow> filter f_tray fs = []"
    by (cases "filter f_severe (filter f_tray fs)"; cases "filter f_tray fs") (auto simp: strongest_def)
  then show ?thesis by (simp add: filter_empty_conv)
qed

text \<open>
  Every open failure has its record object, which carries that failure and is unresolved;
  two sources never share one.
\<close>

definition errors_ok :: "error_state \<Rightarrow> bool" where
  "errors_ok s =
    (dom (map_of (es_sources s)) = dom (map_of (es_records s)) \<and>
     dom (map_of (es_sources s)) \<subseteq> set SOURCES \<and>
     (\<forall>k i f. map_of (es_records s) k = Some i \<longrightarrow> map_of (es_sources s) k = Some f \<longrightarrow>
        i < length (es_heap s) \<and> er_source (es_heap s ! i) = k \<and> er_fault (es_heap s ! i) = f \<and>
        er_resolution (es_heap s ! i) = Unresolved) \<and>
     length (es_history s) \<le> 50)"

lemma errors_ok_init: "errors_ok init_errors"
  by (simp add: errors_ok_def init_errors_def)

lemma map_of_delete_record: "map_of (AList.delete k xs) = (map_of xs)(k := None)"
  by (rule ext) (simp add: delete_conv')

lemma resolve_fields [simp]:
  "es_sources (resolve_record k r s) = es_sources s" "es_records (resolve_record k r s) = es_records s"
  "es_history (resolve_record k r s) = es_history s" "length (es_heap (resolve_record k r s)) = length (es_heap s)"
  by (simp_all add: resolve_record_def split: option.splits)

lemma errors_ok_record:
  "errors_ok s \<Longrightarrow> map_of (es_records s) k = Some i \<Longrightarrow> map_of (es_sources s) k = Some f \<Longrightarrow>
   i < length (es_heap s) \<and> er_source (es_heap s ! i) = k \<and> er_fault (es_heap s ! i) = f \<and>
   er_resolution (es_heap s ! i) = Unresolved"
  by (simp add: errors_ok_def)

lemma resolve_other:
  assumes "errors_ok s" "map_of (es_records s) k = Some i" "k \<noteq> source"
  shows "es_heap (resolve_record source r s) ! i = es_heap s ! i"
proof (cases "map_of (es_records s) source")
  case (Some j)
  have "k \<in> dom (map_of (es_sources s))" and "source \<in> dom (map_of (es_sources s))"
    using assms Some by (auto simp: errors_ok_def)
  then obtain f g where "map_of (es_sources s) k = Some f" "map_of (es_sources s) source = Some g" by auto
  then have "er_source (es_heap s ! i) = k" "er_source (es_heap s ! j) = source"
    using errors_ok_record [OF assms(1,2)] errors_ok_record [OF assms(1) Some] by auto
  then have "i \<noteq> j" using assms(3) by auto
  then show ?thesis by (simp add: resolve_record_def Some)
qed (simp add: resolve_record_def)

lemma clear_sources: "map_of (es_sources (clear_error source reason s)) = (map_of (es_sources s))(source := None)"
  by (auto simp: clear_error_def Let_def map_of_delete_record split: option.splits)

lemma clear_records: "map_of (es_records (clear_error source reason s)) = (map_of (es_records s))(source := None)"
  by (auto simp: clear_error_def Let_def map_of_delete_record split: option.splits)

lemma clear_heap:
  "es_heap (clear_error source reason s) = es_heap (resolve_record source (Resolved_by reason) s)"
  "es_history (clear_error source reason s) = es_history s"
  by (auto simp: clear_error_def Let_def resolve_record_def split: option.splits)

lemma clear_error_ok:
  assumes "errors_ok s"
  shows "errors_ok (clear_error source reason s)"
  unfolding errors_ok_def
proof (intro conjI allI impI)
  show "dom (map_of (es_sources (clear_error source reason s))) = dom (map_of (es_records (clear_error source reason s)))"
    using assms by (simp add: clear_sources clear_records errors_ok_def)
  show "dom (map_of (es_sources (clear_error source reason s))) \<subseteq> set SOURCES"
    using assms by (auto simp: clear_sources errors_ok_def)
  show "length (es_history (clear_error source reason s)) \<le> 50"
    using assms by (simp add: clear_heap errors_ok_def)
  fix k i f
  assume r: "map_of (es_records (clear_error source reason s)) k = Some i"
    and f: "map_of (es_sources (clear_error source reason s)) k = Some f"
  have k: "k \<noteq> source" and r': "map_of (es_records s) k = Some i" and f': "map_of (es_sources s) k = Some f"
    using r f by (auto simp: clear_records clear_sources split: if_splits)
  note h = resolve_other [OF assms r' k, of "Resolved_by reason"]
  show "i < length (es_heap (clear_error source reason s))" "er_source (es_heap (clear_error source reason s) ! i) = k"
    "er_fault (es_heap (clear_error source reason s) ! i) = f"
    "er_resolution (es_heap (clear_error source reason s) ! i) = Unresolved"
    using errors_ok_record [OF assms r' f'] by (simp_all add: clear_heap h)
qed

text \<open>Storing a fault whose class is new: the old record is closed, a new one opened.\<close>

definition reopen :: "rat \<Rightarrow> string \<Rightarrow> string \<Rightarrow> fault \<Rightarrow> error_state \<Rightarrow> error_state" where
  "reopen now source kind fault s =
    open_record now source kind fault (resolve_record source State_changed
      (s \<lparr>es_revision := es_revision s + 1, es_sources := AList.update source fault (es_sources s)\<rparr>))"

definition amend :: "string \<Rightarrow> fault \<Rightarrow> nat \<Rightarrow> error_state \<Rightarrow> error_state" where
  "amend source fault i s =
    s \<lparr>es_revision := es_revision s + 1, es_sources := AList.update source fault (es_sources s),
       es_heap := (es_heap s)[i := (es_heap s ! i) \<lparr>er_fault := fault\<rparr>]\<rparr>"

lemma resolve_heap_cong: "es_heap s = es_heap t \<Longrightarrow> es_records s = es_records t \<Longrightarrow>
    es_heap (resolve_record k r s) = es_heap (resolve_record k r t)"
  by (simp add: resolve_record_def split: option.splits)

lemma reopen_ok:
  assumes "errors_ok s" "source \<in> set SOURCES"
  shows "errors_ok (reopen now source kind fault s)"
proof -
  let ?s = "reopen now source kind fault s"
  let ?r = "resolve_record source State_changed s"
  have heap: "es_heap ?s = es_heap ?r @ [\<lparr>er_kind = kind, er_code = f_code fault, er_source = source, er_fault = fault,
      er_at = now, er_resolution = Unresolved\<rparr>]"
    by (simp add: reopen_def open_record_def Let_def cong: resolve_heap_cong)
  have src: "map_of (es_sources ?s) = (map_of (es_sources s))(source \<mapsto> fault)"
    and rec: "map_of (es_records ?s) = (map_of (es_records s))(source \<mapsto> length (es_heap s))"
    by (simp_all add: reopen_def open_record_def Let_def update_conv')
  show ?thesis
    unfolding errors_ok_def
  proof (intro conjI allI impI)
    show "dom (map_of (es_sources ?s)) = dom (map_of (es_records ?s))" using assms(1) by (simp add: src rec errors_ok_def)
    show "dom (map_of (es_sources ?s)) \<subseteq> set SOURCES" using assms by (auto simp: src errors_ok_def)
    show "length (es_history ?s) \<le> 50" by (simp add: reopen_def open_record_def Let_def)
    fix k i f
    assume r: "map_of (es_records ?s) k = Some i" and f: "map_of (es_sources ?s) k = Some f"
    have "i < length (es_heap ?s) \<and> er_source (es_heap ?s ! i) = k \<and> er_fault (es_heap ?s ! i) = f \<and>
      er_resolution (es_heap ?s ! i) = Unresolved"
    proof (cases "k = source")
      case True
      have eqs: "i = length (es_heap s)" "f = fault" using r f True unfolding src rec by simp_all
      show ?thesis unfolding eqs True heap by (simp add: nth_append)
    next
      case False
      have r': "map_of (es_records s) k = Some i" and f': "map_of (es_sources s) k = Some f"
        using r f False by (simp_all add: src rec)
      show ?thesis using errors_ok_record [OF assms(1) r' f'] resolve_other [OF assms(1) r' False, of State_changed]
        by (simp add: heap nth_append)
    qed
    then show "i < length (es_heap ?s)" "er_source (es_heap ?s ! i) = k" "er_fault (es_heap ?s ! i) = f"
      "er_resolution (es_heap ?s ! i) = Unresolved" by blast+
  qed
qed

lemma amend_ok:
  assumes "errors_ok s" "map_of (es_records s) source = Some i"
  shows "errors_ok (amend source fault i s)"
proof -
  let ?s = "amend source fault i s"
  have src: "map_of (es_sources ?s) = (map_of (es_sources s))(source \<mapsto> fault)" and rec: "es_records ?s = es_records s"
    and heap: "es_heap ?s = (es_heap s)[i := (es_heap s ! i) \<lparr>er_fault := fault\<rparr>]"
    by (simp_all add: amend_def update_conv')
  have dom: "source \<in> dom (map_of (es_sources s))" using assms by (auto simp: errors_ok_def)
  then obtain g where g: "map_of (es_sources s) source = Some g" by auto
  note own = errors_ok_record [OF assms g]
  show ?thesis
    unfolding errors_ok_def
  proof (intro conjI allI impI)
    show "dom (map_of (es_sources ?s)) = dom (map_of (es_records ?s))"
      using assms(1) dom by (simp add: src rec errors_ok_def insert_absorb)
    show "dom (map_of (es_sources ?s)) \<subseteq> set SOURCES" using assms(1) dom by (auto simp: src errors_ok_def)
    show "length (es_history ?s) \<le> 50" using assms(1) by (simp add: amend_def errors_ok_def)
    fix k j f
    assume r: "map_of (es_records ?s) k = Some j" and f: "map_of (es_sources ?s) k = Some f"
    have "j < length (es_heap ?s) \<and> er_source (es_heap ?s ! j) = k \<and> er_fault (es_heap ?s ! j) = f \<and>
      er_resolution (es_heap ?s ! j) = Unresolved"
    proof (cases "k = source")
      case True
      have eqs: "j = i" "f = fault" using r f True assms(2) unfolding src rec by simp_all
      show ?thesis unfolding eqs True heap using own by simp
    next
      case False
      have r': "map_of (es_records s) k = Some j" and f': "map_of (es_sources s) k = Some f"
        using r f False by (simp_all add: src rec)
      have "j \<noteq> i" using errors_ok_record [OF assms(1) r' f'] own False by auto
      then show ?thesis using errors_ok_record [OF assms(1) r' f'] by (simp add: heap)
    qed
    then show "j < length (es_heap ?s)" "er_source (es_heap ?s ! j) = k" "er_fault (es_heap ?s ! j) = f"
      "er_resolution (es_heap ?s ! j) = Unresolved" by blast+
  qed
qed

text \<open>Every outcome of \<open>update_error\<close> on a well-formed registry.\<close>

lemma update_error_cases:
  assumes ok: "errors_ok s" and source: "source \<in> set SOURCES"
  obtains (healthy) "detect kind facts now = None"
      "update_error now source kind facts healthy reason s = Inr (None, if healthy then clear_error source reason s else s)"
    | (same) f where "detect kind facts now = Some f" "map_of (es_sources s) source = Some f"
      "update_error now source kind facts healthy reason s = Inr (None, s)"
    | (new) f news where "detect kind facts now = Some f" "map_of (es_sources s) source \<noteq> Some f"
      "update_error now source kind facts healthy reason s = Inr (news, reopen now source kind f s)"
      "news = Some f \<and> truthy (f_notify f) \<and> \<not> notified_elsewhere source f (AList.update source f (es_sources s)) \<or> news = None"
    | (amended) f news i where "detect kind facts now = Some f" "map_of (es_sources s) source \<noteq> Some f"
      "map_of (es_records s) source = Some i"
      "update_error now source kind facts healthy reason s = Inr (news, amend source f i s)"
      "news = Some f \<and> truthy (f_notify f) \<and> \<not> notified_elsewhere source f (AList.update source f (es_sources s)) \<or> news = None"
proof (cases "detect kind facts now")
  case None
  then show ?thesis using healthy source by (simp add: update_error_def)
next
  case (Some f)
  show ?thesis
  proof (cases "map_of (es_sources s) source = Some f")
    case True
    then show ?thesis using same [OF Some True] source Some by (simp add: update_error_def)
  next
    case False
    show ?thesis
    proof (cases "case map_of (es_sources s) source of None \<Rightarrow> True | Some g \<Rightarrow> \<not> same_failure g f")
      case True
      have "\<exists>news. update_error now source kind facts healthy reason s = Inr (news, reopen now source kind f s) \<and>
          (news = Some f \<and> truthy (f_notify f) \<and> \<not> notified_elsewhere source f (AList.update source f (es_sources s)) \<or> news = None)"
        by (simp add: update_error_def source Some False True Let_def reopen_def)
      then show ?thesis using new [OF Some False] by blast
    next
      case unchanged: False
      then have "source \<in> dom (map_of (es_records s))" using ok by (auto simp: errors_ok_def split: option.splits)
      then obtain i where i: "map_of (es_records s) source = Some i" by auto
      have "\<exists>news. update_error now source kind facts healthy reason s = Inr (news, amend source f i s) \<and>
          (news = Some f \<and> truthy (f_notify f) \<and> \<not> notified_elsewhere source f (AList.update source f (es_sources s)) \<or> news = None)"
        by (simp add: update_error_def source Some False unchanged i Let_def amend_def)
      then show ?thesis using amended [OF Some False i] by blast
    qed
  qed
qed

lemma update_error_ok:
  assumes "errors_ok s" "source \<in> set SOURCES"
  obtains r s' where "update_error now source kind facts healthy reason s = Inr (r, s')" "errors_ok s'"
proof (rule update_error_cases [OF assms, of kind facts now healthy reason], goal_cases)
  case 1
  then show ?thesis using that clear_error_ok [OF assms(1)] assms(1) by auto
next
  case (2 f)
  then show ?thesis using that assms(1) by auto
next
  case (3 f news)
  then show ?thesis using that reopen_ok [OF assms] by auto
next
  case (4 f news i)
  then show ?thesis using that amend_ok [OF assms(1)] by auto
qed

section \<open>Further properties\<close>

text \<open>
  Updating the registry of failures from any source facts returns (the record of an open failure is never
  missing) and keeps every open failure paired with its own unresolved record that carries that failure.
\<close>

theorem registry_consistent:
  assumes "errors_ok s" "source \<in> set SOURCES"
  shows "\<exists>r s'. update_error now source kind facts healthy reason s = Inr (r, s') \<and> errors_ok s' \<and>
    errors_ok (clear_error source reason s')"
  by (rule update_error_ok [OF assms, of now kind facts healthy reason]) (use clear_error_ok in blast)

theorem registry_consistent_witness:
  "\<exists>r s'. update_error 0 ''quota.live'' ''quota'' [(''lookup_failed'', PBool True)] False ''ok'' init_errors = Inr (r, s') \<and> errors_ok s'"
  using registry_consistent [OF errors_ok_init, of "''quota.live''" 0 "''quota''" "[(''lookup_failed'', PBool True)]" False "''ok''"]
  by (auto simp: SOURCES_def)

text \<open>
  Preparation is bounded by real publications: while the collection is shown as preparing or ready, the last
  publication, or with none the start, is at most thirty seconds old.
\<close>

theorem preparation_bounded:
  assumes "collection_phase evidence now started = Ph_preparing \<or> collection_phase evidence now started = Ph_ready"
  shows "case numeric (collection_publication_at evidence) of Some p \<Rightarrow> now - p \<le> 30
    | None \<Rightarrow> collection_publication_at evidence \<noteq> PNone \<or>
        (case started of Some s \<Rightarrow> now - s \<le> 30 | None \<Rightarrow> \<not> flag evidence ''collection_stale'')"
  using assms by (auto simp: collection_phase_def collection_delayed_def older_def Let_def split: if_splits option.splits)

theorem preparation_bounded_witness:
  "case numeric (collection_publication_at []) of Some p \<Rightarrow> 20 - p \<le> (30::rat)
    | None \<Rightarrow> collection_publication_at [] \<noteq> PNone \<or> (20::rat) \<le> 30"
proof -
  have "collection_phase [] 20 (Some 0) = Ph_preparing" by code_simp
  then show ?thesis using preparation_bounded [of "[]" 20 "Some 0"] by (simp only: option.case diff_zero simp_thms)
qed

text \<open>
  The fault shown in the tray is one of the visible ones, an error whenever a visible one is an error, and
  none exactly when none is visible.
\<close>

theorem strongest_fault_shown:
  "case strongest faults of None \<Rightarrow> filter f_tray faults = []
   | Some f \<Rightarrow> f \<in> set (filter f_tray faults) \<and> (f_severe f \<or> filter f_severe (filter f_tray faults) = [])"
proof (cases "strongest faults")
  case None
  then show ?thesis using strongest_None [of faults] by (simp add: filter_empty_conv)
next
  case (Some f)
  then show ?thesis using strongest_spec [OF Some] by (auto simp: filter_empty_conv)
qed


end
