(* ===== verification/Notifications.thy ===== *)
theory Notifications
  imports Faults
begin

text \<open>
  Notification decisions of \<open>notifications.py\<close> (\<open>ConfirmedNotifications\<close>). Every category keeps the
  identities it has handled in a bounded ordered dictionary and raises a floor to the stamp
  of each identity it drops, so that nothing is reported twice. Notification items are
  shared between the deque of records and the open groups and incidents: they live in a
  heap, and an event is the identity of an item. \<open>wall\<close> and \<open>now\<close> are the readings of the wall
  clock and of the monotonic clock in a call. A missing and an empty string are both false
  and are written as the empty string; texts are constructors with their parameters.
\<close>

section \<open>Bounded memory of handled identities\<close>

definition SEEN_LIMIT :: nat where
  "SEEN_LIMIT = 10000"

record 'k memory =
  mm_seen :: "('k \<times> rat) list" \<comment> \<open>oldest first\<close>
  mm_floor :: rat

definition is_seen :: "'k \<Rightarrow> 'k memory \<Rightarrow> bool" where
  "is_seen k m = (k \<in> fst ` set (mm_seen m))"

definition remember :: "'k \<Rightarrow> rat \<Rightarrow> 'k memory \<Rightarrow> 'k memory" where
  "remember k stamp m =
    (let seen = mm_seen m @ [(k, stamp)] in
     if length seen > SEEN_LIMIT
     then m \<lparr>mm_seen := tl seen, mm_floor := max (mm_floor m) (snd (hd seen))\<rparr>
     else m \<lparr>mm_seen := seen\<rparr>)"

text \<open>An identity handled at a stamp is never accepted again: it is still known or below the floor.\<close>

definition handled :: "'k memory \<Rightarrow> 'k \<Rightarrow> rat \<Rightarrow> bool" where
  "handled m k stamp = ((k, stamp) \<in> set (mm_seen m) \<or> stamp \<le> mm_floor m)"

lemma remember_handles: "handled (remember k stamp m) k stamp"
  by (cases "mm_seen m") (auto simp: remember_def handled_def Let_def)

lemma remember_keeps:
  assumes "handled m k stamp"
  shows "handled (remember j s m) k stamp"
  using assms by (cases "mm_seen m") (auto simp: remember_def handled_def Let_def)

lemma remember_bounded: "length (mm_seen m) \<le> SEEN_LIMIT \<Longrightarrow> length (mm_seen (remember k s m)) \<le> SEEN_LIMIT"
  by (auto simp: remember_def Let_def)

lemma remember_floor: "mm_floor m \<le> mm_floor (remember k s m)"
  by (simp add: remember_def Let_def)

lemma remember_seen_distinct:
  "distinct (map fst (mm_seen m)) \<Longrightarrow> \<not> is_seen k m \<Longrightarrow> distinct (map fst (mm_seen (remember k s m)))"
  by (cases "mm_seen m") (auto simp: remember_def is_seen_def Let_def)

lemma remember_known: "is_seen j (remember k s m) \<Longrightarrow> is_seen j m \<or> j = k"
  by (cases "mm_seen m") (auto simp: remember_def is_seen_def Let_def split: if_splits)

section \<open>Items and state\<close>

datatype note_kind = Http_fallback | Cache_miss | Model_note | Proxy_note

datatype note_text =
    Http_text string \<comment> \<open>session title or id\<close>
  | Cache_text string string string bool \<comment> \<open>state, session title, reason, with the provisional remark\<close>
  | Model_text string string string string \<comment> \<open>title, requested, responded, response id\<close>
  | Refused_text pyval | Identity_text | Assessed_text assessment

datatype note_resolution = Model_corrected | Cache_corrected | Cache_recovered | Proxy_off | Proxy_normal

record notice =
  nt_kind :: note_kind
  nt_text :: note_text
  nt_count :: int
  nt_at :: rat
  nt_home :: string
  nt_sid :: string
  nt_observation_at :: "rat option"
  nt_incident_id :: string
  nt_call_id :: string
  nt_response_id :: string
  nt_code :: string
  nt_resolution :: "note_resolution option"

type_synonym scope = "string \<times> string"

type_synonym http_key = "scope \<times> rat \<times> pyval \<times> pyval"

record streak =
  sk_state :: string
  sk_since :: rat
  sk_last :: rat
  sk_count :: nat

record notifier =
  no_heap :: "notice list"
  no_records :: "nat list" \<comment> \<open>newest first, at most 50\<close>
  no_model_enabled :: bool
  no_model_since :: rat
  no_models :: "(string \<times> string) memory"
  no_model_records :: "((string \<times> string) \<times> nat) list"
  no_groups :: "((scope \<times> string \<times> string) \<times> rat \<times> nat) list"
  no_histories :: "(scope \<times> nat) list"
  no_cache_enabled :: bool
  no_cache_since :: rat
  no_cache :: "(scope \<times> string) memory"
  no_incidents :: "(scope \<times> nat) list"
  no_http_enabled :: bool
  no_http_since :: rat
  no_http :: "http_key memory"
  no_proxy_enabled :: bool
  no_streak :: "streak option"
  no_incident :: "nat option"

definition init_notifier :: "rat \<Rightarrow> notifier" where
  "init_notifier wall =
    \<lparr>no_heap = [], no_records = [], no_model_enabled = True, no_model_since = wall,
     no_models = \<lparr>mm_seen = [], mm_floor = wall\<rparr>, no_model_records = [], no_groups = [], no_histories = [],
     no_cache_enabled = True, no_cache_since = wall, no_cache = \<lparr>mm_seen = [], mm_floor = wall\<rparr>, no_incidents = [],
     no_http_enabled = True, no_http_since = wall, no_http = \<lparr>mm_seen = [], mm_floor = wall\<rparr>,
     no_proxy_enabled = True, no_streak = None, no_incident = None\<rparr>"

definition new_note :: "note_kind \<Rightarrow> note_text \<Rightarrow> rat \<Rightarrow> notice" where
  "new_note kind txt wall = \<lparr>nt_kind = kind, nt_text = txt, nt_count = 1, nt_at = wall, nt_home = [], nt_sid = [],
     nt_observation_at = None, nt_incident_id = [], nt_call_id = [], nt_response_id = [], nt_code = [], nt_resolution = None\<rparr>"

text \<open>\<open>record\<close>: the new item is kept in the deque; \<open>alloc\<close> is an item outside it.\<close>

definition alloc :: "notice \<Rightarrow> notifier \<Rightarrow> nat \<times> notifier" where
  "alloc n s = (length (no_heap s), s \<lparr>no_heap := no_heap s @ [n]\<rparr>)"

definition record_note :: "notice \<Rightarrow> notifier \<Rightarrow> nat \<times> notifier" where
  "record_note n s = (let (i, s') = alloc n s in (i, s' \<lparr>no_records := take 50 (i # no_records s')\<rparr>))"

definition amend_note :: "nat \<Rightarrow> (notice \<Rightarrow> notice) \<Rightarrow> notifier \<Rightarrow> notifier" where
  "amend_note i f s = s \<lparr>no_heap := (no_heap s)[i := f (no_heap s ! i)]\<rparr>"

definition resolve_note :: "nat \<Rightarrow> note_resolution \<Rightarrow> notifier \<Rightarrow> notifier" where
  "resolve_note i r s = amend_note i (nt_resolution_update (\<lambda>_. Some r)) s"

section \<open>HTTP fallback\<close>

record http_seen =
  ho_ts :: pyval
  ho_http :: bool \<comment> \<open>kind and evidence are those of an explicit HTTP fallback\<close>
  ho_process :: pyval
  ho_turn :: pyval

record http_session =
  hs_home :: string
  hs_id :: string
  hs_title :: string
  hs_transports :: "http_seen list"
  hs_fallback :: bool \<comment> \<open>the session's own evidence is the HTTP fallback\<close>
  hs_kind_http :: bool
  hs_ts :: pyval

definition enable_http :: "rat \<Rightarrow> bool \<Rightarrow> notifier \<Rightarrow> notifier" where
  "enable_http wall enabled s =
    (if enabled \<noteq> no_http_enabled s then s \<lparr>no_http_since := wall\<rparr> else s) \<lparr>no_http_enabled := enabled\<rparr>"

definition http_observations :: "http_session \<Rightarrow> http_seen list" where
  "http_observations session =
    (if hs_transports session = [] \<and> hs_fallback session
     then [\<lparr>ho_ts = hs_ts session, ho_http = hs_kind_http session, ho_process = PNone, ho_turn = PNone\<rparr>]
     else hs_transports session)"

definition http_fresh :: "rat \<Rightarrow> notifier \<Rightarrow> http_session \<Rightarrow> http_seen \<Rightarrow> (http_key \<times> rat) option" where
  "http_fresh wall s session obs =
    (if \<not> ho_http obs then None
     else (case finite_number (ho_ts obs) of None \<Rightarrow> None
       | Some stamp \<Rightarrow>
          (let key = ((hs_home session, hs_id session), stamp, ho_process obs, ho_turn obs) in
           if mm_floor (no_http s) < stamp \<and> stamp \<le> wall \<and> \<not> is_seen key (no_http s) then Some (key, stamp) else None)))"

definition http_step :: "rat \<Rightarrow> http_session \<Rightarrow> notifier \<times> nat list \<Rightarrow> http_seen \<Rightarrow> notifier \<times> nat list" where
  "http_step wall session acc obs =
    (let (s, events) = acc in
     case http_fresh wall s session obs of
       None \<Rightarrow> (s, events)
     | Some (key, stamp) \<Rightarrow>
        (let s1 = s \<lparr>no_http := remember key stamp (no_http s)\<rparr> in
         if \<not> no_http_enabled s1 \<or> stamp \<le> no_http_since s1 then (s1, events)
         else (let (i, s2) = record_note ((new_note Http_fallback (Http_text (str_or (Some (hs_title session)) (hs_id session))) wall)
                    \<lparr>nt_home := hs_home session, nt_sid := hs_id session, nt_observation_at := Some stamp\<rparr>) s1
               in (s2, events @ [i]))))"

definition http_notes :: "rat \<Rightarrow> http_session list \<Rightarrow> notifier \<Rightarrow> notifier \<times> nat list" where
  "http_notes wall sessions s =
    foldl (\<lambda>acc session. foldl (http_step wall session) acc (http_observations session)) (s, []) sessions"

section \<open>Cache incidents\<close>

record cache_incident =
  ci_id :: string
  ci_ts :: rat
  ci_count :: int
  ci_resolved :: bool
  ci_state :: string
  ci_latest :: string

record cache_session =
  cs_home :: string
  cs_id :: string
  cs_title :: string
  cs_events :: "(string \<times> rat) list" \<comment> \<open>keys and stamps of the misses\<close>
  cs_health :: "(string \<times> cache_incident option) option" \<comment> \<open>reason and incident\<close>

definition INCIDENT_LIMIT :: nat where
  "INCIDENT_LIMIT = 2048"

definition enable_cache :: "rat \<Rightarrow> bool \<Rightarrow> notifier \<Rightarrow> notifier" where
  "enable_cache wall enabled s =
    (if enabled \<noteq> no_cache_enabled s then s \<lparr>no_cache_since := wall, no_cache_enabled := enabled\<rparr> else s)"

definition cache_event :: "scope \<Rightarrow> notifier \<Rightarrow> string \<times> rat \<Rightarrow> notifier" where
  "cache_event scope s call =
    (let identity = (scope, fst call) in
     if is_seen identity (no_cache s) \<or> snd call \<le> mm_floor (no_cache s) then s
     else s \<lparr>no_cache := remember identity (snd call) (no_cache s)\<rparr>)"

fun retext :: "string \<Rightarrow> string \<Rightarrow> note_text \<Rightarrow> note_text" where
  "retext title reason (Cache_text state _ _ _) = Cache_text state title reason False"
| "retext _ _ txt = txt"

definition open_incident_note :: "rat \<Rightarrow> cache_session \<Rightarrow> string \<Rightarrow> cache_incident \<Rightarrow> notifier \<Rightarrow> nat \<times> notifier" where
  "open_incident_note wall session reason c s =
    (let (i, s1) = record_note ((new_note Cache_miss (Cache_text (ci_state c) (cs_title session) reason True) wall)
            \<lparr>nt_home := cs_home session, nt_sid := cs_id session, nt_count := ci_count c, nt_incident_id := ci_id c,
             nt_call_id := ci_latest c, nt_response_id := ci_latest c\<rparr>) s;
         incidents = AList.update (cs_home session, cs_id session) i (no_incidents s1);
         s2 = (if length incidents > INCIDENT_LIMIT
               then s1 \<lparr>no_incidents := tl incidents,
                        no_cache := (no_cache s1) \<lparr>mm_floor := max (mm_floor (no_cache s1)) (nt_at (no_heap s1 ! snd (hd incidents)))\<rparr>\<rparr>
               else s1 \<lparr>no_incidents := incidents\<rparr>)
     in (i, s2))"

definition cache_health_note :: "rat \<Rightarrow> cache_session \<Rightarrow> notifier \<times> nat list \<Rightarrow> notifier \<times> nat list" where
  "cache_health_note wall session acc =
    (let (s, events) = acc in
     case cs_health session of None \<Rightarrow> acc
     | Some (reason, report) \<Rightarrow>
        (let previous = map_of (no_incidents s) (cs_home session, cs_id session) in
         case report of
           None \<Rightarrow> (case previous of None \<Rightarrow> acc | Some i \<Rightarrow> (resolve_note i Cache_corrected s, events))
         | Some c \<Rightarrow>
            (case previous of
               Some i \<Rightarrow>
                 (if nt_incident_id (no_heap s ! i) = ci_id c then
                    (let s1 = amend_note i (\<lambda>n. n \<lparr>nt_count := ci_count c, nt_text := retext (cs_title session) reason (nt_text n)\<rparr>) s
                     in (if ci_resolved c then resolve_note i Cache_recovered s1 else s1, events))
                  else if \<not> ci_resolved c \<and> no_cache_enabled s \<and> ci_ts c > max (no_cache_since s) (mm_floor (no_cache s)) then
                    (let (j, s1) = open_incident_note wall session reason c s in (s1, events @ [j]))
                  else acc)
             | None \<Rightarrow>
                 (if \<not> ci_resolved c \<and> no_cache_enabled s \<and> ci_ts c > max (no_cache_since s) (mm_floor (no_cache s)) then
                    (let (j, s1) = open_incident_note wall session reason c s in (s1, events @ [j]))
                  else acc))))"

definition cache_session_step :: "rat \<Rightarrow> notifier \<times> nat list \<Rightarrow> cache_session \<Rightarrow> notifier \<times> nat list" where
  "cache_session_step wall acc session =
    (let s = foldl (cache_event (cs_home session, cs_id session)) (fst acc) (cs_events session)
     in cache_health_note wall session (s, snd acc))"

definition cache_notes :: "rat \<Rightarrow> cache_session list \<Rightarrow> notifier \<Rightarrow> notifier \<times> nat list" where
  "cache_notes wall sessions s = foldl (cache_session_step wall) (s, []) sessions"

section \<open>Model mismatches\<close>

record model_row =
  mr_confirmed :: bool
  mr_ts :: "rat option"
  mr_observed :: "rat option"
  mr_key :: string
  mr_requested :: string
  mr_responded :: string
  mr_call :: string

text \<open>\<open>ms_object\<close> is the identity of the history list, which \<open>is\<close> compares.\<close>

record model_session =
  ms_home :: string
  ms_id :: string
  ms_title :: string
  ms_object :: nat
  ms_rows :: "model_row list"

definition enable_model :: "rat \<Rightarrow> bool \<Rightarrow> notifier \<Rightarrow> notifier" where
  "enable_model wall enabled s =
    (if enabled \<noteq> no_model_enabled s then s \<lparr>no_model_since := wall, no_histories := []\<rparr> else s) \<lparr>no_model_enabled := enabled\<rparr>"

definition zero_or :: "rat option \<Rightarrow> rat" where
  "zero_or v = (case v of None \<Rightarrow> 0 | Some q \<Rightarrow> q)"

definition model_stamp :: "model_row \<Rightarrow> rat" where
  "model_stamp row = min (zero_or (mr_ts row)) (zero_or (mr_observed row))"

definition dropped_key :: "'k \<Rightarrow> 'k memory \<Rightarrow> 'k option" where
  "dropped_key k m = (if length (mm_seen m) \<ge> SEEN_LIMIT then Some (case mm_seen m of [] \<Rightarrow> k | (j, _) # _ \<Rightarrow> j) else None)"

definition model_fresh :: "rat \<Rightarrow> notifier \<Rightarrow> model_session \<Rightarrow> model_row \<Rightarrow> bool" where
  "model_fresh wall s session row =
    (mr_confirmed row \<and> model_stamp row > max (no_model_since s) (mm_floor (no_models s)) \<and> model_stamp row \<le> wall \<and>
     mr_key row \<noteq> [] \<and> \<not> is_seen (ms_home session, mr_key row) (no_models s))"

definition remember_model :: "string \<times> string \<Rightarrow> rat \<Rightarrow> notifier \<Rightarrow> notifier" where
  "remember_model key stamp s =
    s \<lparr>no_models := remember key stamp (no_models s),
       no_model_records := (case dropped_key key (no_models s) of None \<Rightarrow> no_model_records s
          | Some old \<Rightarrow> AList.delete old (no_model_records s))\<rparr>"

definition model_step :: "rat \<Rightarrow> rat \<Rightarrow> model_session \<Rightarrow> notifier \<times> nat list \<Rightarrow> model_row \<Rightarrow> notifier \<times> nat list" where
  "model_step wall now session acc row =
    (let (s, events) = acc; scope = (ms_home session, ms_id session); key = (ms_home session, mr_key row) in
     if \<not> model_fresh wall s session row then acc
     else (let s1 = remember_model key (model_stamp row) s in
       if \<not> no_model_enabled s1 then (s1, events)
       else (let group = (scope, mr_requested row, mr_responded row);
                 txt = Model_text (ms_title session) (mr_requested row) (mr_responded row) (mr_key row);
                 (i, s2, events') = (case map_of (no_groups s1) group of
                     Some (_, i) \<Rightarrow> (i, amend_note i (\<lambda>n. n \<lparr>nt_count := nt_count n + 1, nt_at := wall, nt_text := txt\<rparr>) s1, events)
                   | None \<Rightarrow> (let (i, s') = record_note (new_note Model_note txt wall) s1
                       in (i, s' \<lparr>no_groups := AList.update group (now, i) (no_groups s')\<rparr>, events @ [i])));
                 s3 = amend_note i (\<lambda>n. n \<lparr>nt_home := ms_home session, nt_sid := ms_id session,
                        nt_call_id := str_or (Some (mr_call row)) (mr_key row)\<rparr>) s2
             in (s3 \<lparr>no_model_records := AList.update key i (no_model_records s3)\<rparr>, events'))))"

definition model_session_step :: "rat \<Rightarrow> rat \<Rightarrow> (notifier \<times> nat list) \<times> (scope \<times> nat) list \<Rightarrow> model_session
    \<Rightarrow> (notifier \<times> nat list) \<times> (scope \<times> nat) list" where
  "model_session_step wall now acc session =
    (let (inner, histories) = acc; scope = (ms_home session, ms_id session);
         histories' = AList.update scope (ms_object session) histories in
     if map_of (no_histories (fst inner)) scope = Some (ms_object session) then (inner, histories')
     else (foldl (model_step wall now session) inner (ms_rows session), histories'))"

definition model_notes :: "rat \<Rightarrow> rat \<Rightarrow> model_session list \<Rightarrow> notifier \<Rightarrow> notifier \<times> nat list" where
  "model_notes wall now sessions s =
    (let s0 = s \<lparr>no_groups := filter (\<lambda>(_, since, _). now - since < 600) (no_groups s)\<rparr>;
         ((s1, events), histories) = foldl (model_session_step wall now) ((s0, []), []) sessions
     in (s1 \<lparr>no_histories := histories\<rparr>, events))"

text \<open>Candidates carry their session; the lists built for them are new objects, from \<open>fresh\<close> on.\<close>

record candidate =
  cd_home :: string
  cd_sid :: string
  cd_title :: string
  cd_row :: model_row

definition candidate_scope :: "candidate \<Rightarrow> scope" where
  "candidate_scope c = (cd_home c, cd_sid c)"

definition correct_candidate :: "notifier \<Rightarrow> candidate \<Rightarrow> notifier" where
  "correct_candidate s c =
    (if mr_confirmed (cd_row c) then s
     else (case map_of (no_model_records s) (cd_home c, mr_key (cd_row c)) of None \<Rightarrow> s | Some i \<Rightarrow> resolve_note i Model_corrected s))"

definition candidate_sessions :: "nat \<Rightarrow> candidate list \<Rightarrow> model_session list" where
  "candidate_sessions fresh candidates =
    map (\<lambda>(object, scope, cs). \<lparr>ms_home = fst scope, ms_id = snd scope, ms_title = cd_title (hd cs), ms_object = object,
           ms_rows = map cd_row cs\<rparr>)
      (enumerate fresh (buckets candidate_scope (filter (\<lambda>c. mr_confirmed (cd_row c)) candidates)))"

definition model_candidates :: "rat \<Rightarrow> rat \<Rightarrow> nat \<Rightarrow> candidate list \<Rightarrow> notifier \<Rightarrow> notifier \<times> nat list" where
  "model_candidates wall now fresh candidates s =
    model_notes wall now (candidate_sessions fresh candidates) (foldl correct_candidate s candidates)"

section \<open>Proxy failures\<close>

definition enable_proxy :: "bool \<Rightarrow> notifier \<Rightarrow> notifier" where
  "enable_proxy enabled s = s \<lparr>no_proxy_enabled := enabled, no_streak := None\<rparr>"

definition proxy_text :: "pydict \<Rightarrow> assessment \<Rightarrow> note_text" where
  "proxy_text res a =
    (if as_code a = ''refused'' then Refused_text (dget res ''url'')
     else if as_code a = ''identity_mismatch'' then Identity_text else Assessed_text a)"

text \<open>The next streak: a new one, an unchanged one, or one more observation.\<close>

definition restarts_streak :: "rat \<Rightarrow> string \<Rightarrow> streak option \<Rightarrow> bool" where
  "restarts_streak now state sk = (case sk of None \<Rightarrow> True | Some k \<Rightarrow> sk_state k \<noteq> state \<or> now - sk_last k > 45)"

definition proxy_failure :: "rat \<Rightarrow> rat \<Rightarrow> bool \<Rightarrow> pydict \<Rightarrow> assessment \<Rightarrow> notifier \<Rightarrow> notifier \<times> nat list" where
  "proxy_failure wall now keep res a s =
    (let state = as_code a in
     if restarts_streak now state (no_streak s)
     then (s \<lparr>no_streak := Some \<lparr>sk_state = state, sk_since = now, sk_last = now, sk_count = 1\<rparr>\<rparr>, [])
     else (case no_streak s of None \<Rightarrow> (s, [])
       | Some k \<Rightarrow>
          (if now - sk_last k < 15 then (s, [])
           else (let k' = k \<lparr>sk_last := now, sk_count := sk_count k + 1\<rparr>; s1 = s \<lparr>no_streak := Some k'\<rparr> in
             if sk_count k' < 3 \<or> now - sk_since k' < 30 then (s1, [])
             else (let n = (new_note Proxy_note (proxy_text res a) wall) \<lparr>nt_code := state\<rparr>;
                       (i, s2) = (if keep then record_note n s1 else alloc n s1)
                   in (s2 \<lparr>no_incident := Some i\<rparr>, [i]))))))"

definition proxy_notes :: "rat \<Rightarrow> rat \<Rightarrow> bool \<Rightarrow> pydict \<Rightarrow> notifier \<Rightarrow> notifier \<times> nat list" where
  "proxy_notes wall now keep res s =
    (let a = assess_with (raw res ''configured'') res; state = as_code a in
     if state = ''direct'' \<or> state = ''responding'' then
       ((case no_incident s of None \<Rightarrow> s
         | Some i \<Rightarrow> resolve_note i (if state = ''direct'' then Proxy_off else Proxy_normal) s)
        \<lparr>no_incident := None, no_streak := None\<rparr>, [])
     else if \<not> no_proxy_enabled s \<or> \<not> as_confirmed a then (s \<lparr>no_streak := None\<rparr>, [])
     else (case no_incident s of
         Some i \<Rightarrow> if nt_code (no_heap s ! i) = state then (s, []) else proxy_failure wall now keep res a s
       | None \<Rightarrow> proxy_failure wall now keep res a s))"

section \<open>Lemmas\<close>

lemma record_note_fields [simp]:
  "no_http (snd (record_note n s)) = no_http s" "no_http_enabled (snd (record_note n s)) = no_http_enabled s"
  "no_http_since (snd (record_note n s)) = no_http_since s" "no_streak (snd (record_note n s)) = no_streak s"
  "no_records (snd (record_note n s)) = take 50 (length (no_heap s) # no_records s)"
  "no_heap (snd (record_note n s)) = no_heap s @ [n]" "fst (record_note n s) = length (no_heap s)"
  by (simp_all add: record_note_def alloc_def)

text \<open>The stamp of a fallback observation is part of its identity.\<close>

definition http_ok :: "notifier \<Rightarrow> bool" where
  "http_ok s = (\<forall>(key, stamp)\<in>set (mm_seen (no_http s)). fst (snd key) = stamp)"

definition http_settled :: "rat \<Rightarrow> notifier \<Rightarrow> http_session \<Rightarrow> http_seen \<Rightarrow> bool" where
  "http_settled wall s session obs = (http_fresh wall s session obs = None)"

lemma http_step_memory:
  "no_http (fst (http_step wall session (s, ev) obs)) =
     (case http_fresh wall s session obs of None \<Rightarrow> no_http s | Some (key, stamp) \<Rightarrow> remember key stamp (no_http s))"
  by (simp add: http_step_def Let_def split_beta split: option.splits)

lemma http_fresh_key: "http_fresh wall s session obs = Some (key, stamp) \<Longrightarrow> fst (snd key) = stamp"
  by (auto simp: http_fresh_def Let_def split: if_splits option.splits)

lemma remember_set: "x \<in> set (mm_seen (remember k st m)) \<Longrightarrow> x \<in> set (mm_seen m) \<or> x = (k, st)"
  by (cases "mm_seen m") (auto simp: remember_def Let_def split: if_splits)

lemma http_step_ok:
  assumes "http_ok s"
  shows "http_ok (fst (http_step wall session (s, ev) obs))"
proof (cases "http_fresh wall s session obs")
  case None
  then show ?thesis using assms by (simp add: http_ok_def http_step_memory)
next
  case (Some x)
  obtain key stamp where x: "x = (key, stamp)" by (cases x)
  show ?thesis using assms http_fresh_key [OF Some [unfolded x]] unfolding http_ok_def http_step_memory Some x
    by (auto dest!: remember_set)
qed

lemma http_settled_handled:
  assumes "http_ok s"
  shows "http_settled wall s session obs \<longleftrightarrow>
    (\<not> ho_http obs \<or> (case finite_number (ho_ts obs) of None \<Rightarrow> True | Some stamp \<Rightarrow>
       stamp > wall \<or> handled (no_http s) ((hs_home session, hs_id session), stamp, ho_process obs, ho_turn obs) stamp))"
proof (cases "finite_number (ho_ts obs)")
  case None
  then show ?thesis by (simp add: http_settled_def http_fresh_def)
next
  case (Some stamp)
  let ?key = "((hs_home session, hs_id session), stamp, ho_process obs, ho_turn obs)"
  have "is_seen ?key (no_http s) \<longleftrightarrow> (?key, stamp) \<in> set (mm_seen (no_http s))"
    using assms by (force simp: is_seen_def http_ok_def)
  then show ?thesis using Some by (auto simp: http_settled_def http_fresh_def handled_def Let_def not_less)
qed

lemma http_step_settles:
  assumes "http_ok s"
  shows "http_settled wall (fst (http_step wall session (s, ev) obs)) session obs"
    and "http_settled wall s other obs' \<Longrightarrow> http_settled wall (fst (http_step wall session (s, ev) obs)) other obs'"
proof -
  note ok = http_step_ok [OF assms, of wall session ev obs]
  let ?m = "no_http (fst (http_step wall session (s, ev) obs))"
  have keep: "handled (no_http s) k st \<Longrightarrow> handled ?m k st" for k st
    by (auto simp: http_step_memory remember_keeps split: option.splits)
  show settles: "http_settled wall s other obs' \<Longrightarrow> http_settled wall (fst (http_step wall session (s, ev) obs)) other obs'"
    for other obs'
    unfolding http_settled_handled [OF assms] http_settled_handled [OF ok] using keep by (auto split: option.splits)
  show "http_settled wall (fst (http_step wall session (s, ev) obs)) session obs"
  proof (cases "http_fresh wall s session obs")
    case None
    then show ?thesis by (intro settles) (simp add: http_settled_def)
  next
    case (Some x)
    obtain key stamp where x: "x = (key, stamp)" by (cases x)
    have key: "key = ((hs_home session, hs_id session), stamp, ho_process obs, ho_turn obs)" "finite_number (ho_ts obs) = Some stamp"
      using Some unfolding x by (auto simp: http_fresh_def Let_def split: if_splits option.splits)
    have "handled ?m key stamp" unfolding http_step_memory Some x by (simp add: remember_handles)
    then show ?thesis unfolding http_settled_handled [OF ok] using key by simp
  qed
qed

lemma http_settled_step: "http_settled wall s session obs \<Longrightarrow> http_step wall session (s, ev) obs = (s, ev)"
  by (simp add: http_step_def http_settled_def)

text \<open>A pass over observations settles each of them and keeps those that were settled.\<close>

definition settled_all :: "rat \<Rightarrow> notifier \<Rightarrow> http_session list \<Rightarrow> bool" where
  "settled_all wall s sessions = (\<forall>x\<in>set sessions. \<forall>obs\<in>set (http_observations x). http_settled wall s x obs)"

lemma http_fold_settles:
  assumes "http_ok (fst acc)"
  shows "http_ok (fst (foldl (http_step wall x) acc obs)) \<and>
    (\<forall>q\<in>set obs. http_settled wall (fst (foldl (http_step wall x) acc obs)) x q) \<and>
    (\<forall>y q. http_settled wall (fst acc) y q \<longrightarrow> http_settled wall (fst (foldl (http_step wall x) acc obs)) y q)"
  using assms
proof (induction obs arbitrary: acc)
  case (Cons a obs)
  obtain s ev where acc: "acc = (s, ev)" by (cases acc)
  let ?acc = "http_step wall x (s, ev) a"
  have ok: "http_ok s" using Cons.prems acc by simp
  note step = Cons.IH [of ?acc, OF http_step_ok [OF ok]]
  note settle = http_step_settles(1) [OF ok, of wall x ev a] http_step_settles(2) [OF ok, where session = x and ev = ev and obs = a]
  show ?case using step settle by (auto simp: acc)
qed simp

lemma http_sessions_settle:
  assumes "http_ok (fst acc)"
  shows "let acc' = foldl (\<lambda>acc x. foldl (http_step wall x) acc (http_observations x)) acc sessions in
    http_ok (fst acc') \<and> settled_all wall (fst acc') sessions \<and>
    (\<forall>y q. http_settled wall (fst acc) y q \<longrightarrow> http_settled wall (fst acc') y q)"
  using assms
proof (induction sessions arbitrary: acc)
  case (Cons a sessions)
  note one = http_fold_settles [OF Cons.prems, of wall a "http_observations a"]
  note rest = Cons.IH [of "foldl (http_step wall a) acc (http_observations a)", OF conjunct1 [OF one]]
  show ?case using one rest by (auto simp: Let_def settled_all_def)
qed (simp add: settled_all_def)

lemma settled_pass: "settled_all wall s sessions \<Longrightarrow>
    foldl (\<lambda>acc x. foldl (http_step wall x) acc (http_observations x)) (s, ev) sessions = (s, ev)"
proof (induction sessions)
  case (Cons a sessions)
  have "\<forall>q\<in>set obs. http_settled wall s a q \<Longrightarrow> foldl (http_step wall a) (s, ev) obs = (s, ev)" for obs
    by (induction obs) (auto simp: http_settled_step)
  then show ?case using Cons by (simp add: settled_all_def)
qed simp

lemma http_idempotent:
  "http_ok s \<Longrightarrow> http_notes wall sessions (fst (http_notes wall sessions s)) = (fst (http_notes wall sessions s), [])"
  using http_sessions_settle [of "(s, [])" wall sessions] by (auto simp: http_notes_def Let_def intro: settled_pass)

lemma http_ok_init: "http_ok (init_notifier wall)"
  by (simp add: http_ok_def init_notifier_def)

section \<open>A proxy failure is reported after repetition only\<close>

text \<open>Readings of the monotonic clock, oldest first, at least \<open>d\<close> apart.\<close>

fun apart_by :: "rat \<Rightarrow> rat list \<Rightarrow> bool" where
  "apart_by d (a # b # ts) = (b - a \<ge> d \<and> apart_by d (b # ts))"
| "apart_by d _ = True"

lemma apart_by_snoc: "apart_by d ts \<Longrightarrow> ts \<noteq> [] \<Longrightarrow> b - last ts \<ge> d \<Longrightarrow> apart_by d (ts @ [b])"
  by (induction d ts rule: apart_by.induct) auto

record proxy_probe =
  pp_wall :: rat
  pp_now :: rat
  pp_result :: pydict

definition probe_state :: "proxy_probe \<Rightarrow> assessment" where
  "probe_state p = assess_with (raw (pp_result p) ''configured'') (pp_result p)"

definition confirmed_at :: "proxy_probe list \<Rightarrow> string \<Rightarrow> rat \<Rightarrow> bool" where
  "confirmed_at ps code t = (\<exists>p\<in>set ps. pp_now p = t \<and> as_confirmed (probe_state p) \<and> as_code (probe_state p) = code)"

definition streak_ok :: "proxy_probe list \<Rightarrow> notifier \<Rightarrow> bool" where
  "streak_ok ps s = (case no_streak s of None \<Rightarrow> True | Some k \<Rightarrow>
     (\<exists>ts. ts \<noteq> [] \<and> length ts = sk_count k \<and> hd ts = sk_since k \<and> last ts = sk_last k \<and> apart_by 15 ts \<and>
        (\<forall>t\<in>set ts. confirmed_at ps (sk_state k) t)))"

definition probe_all :: "bool \<Rightarrow> proxy_probe list \<Rightarrow> notifier \<Rightarrow> notifier" where
  "probe_all keep ps s = foldl (\<lambda>s p. fst (proxy_notes (pp_wall p) (pp_now p) keep (pp_result p) s)) s ps"

lemma confirmed_more: "confirmed_at ps c t \<Longrightarrow> confirmed_at (ps @ qs) c t"
  by (auto simp: confirmed_at_def)

lemma streak_ok_more: "streak_ok ps s \<Longrightarrow> no_streak s' = no_streak s \<Longrightarrow> streak_ok (ps @ qs) s'"
  by (fastforce simp: streak_ok_def intro: confirmed_more split: option.splits)

text \<open>What is known when an event is issued.\<close>

definition repeated :: "proxy_probe list \<Rightarrow> string \<Rightarrow> bool" where
  "repeated ps code = (\<exists>ts. length ts \<ge> 3 \<and> apart_by 15 ts \<and> last ts - hd ts \<ge> 30 \<and> (\<forall>t\<in>set ts. confirmed_at ps code t))"

lemma proxy_failure_ok:
  assumes ok: "streak_ok ps s" and confirmed: "as_confirmed a" and a: "a = probe_state p" and now: "now = pp_now p"
  shows "streak_ok (ps @ [p]) (fst (proxy_failure wall now keep res a s)) \<and>
    (snd (proxy_failure wall now keep res a s) \<noteq> [] \<longrightarrow> repeated (ps @ [p]) (as_code a))"
proof (cases "restarts_streak now (as_code a) (no_streak s)")
  case True
  have "confirmed_at (ps @ [p]) (as_code a) now" using confirmed a now by (simp add: confirmed_at_def)
  then have "streak_ok (ps @ [p]) (fst (proxy_failure wall now keep res a s))"
    using True by (auto simp: streak_ok_def proxy_failure_def Let_def intro: exI [of _ "[now]"])
  then show ?thesis using True by (simp add: proxy_failure_def Let_def)
next
  case False
  then obtain k where k: "no_streak s = Some k" and st: "sk_state k = as_code a"
    by (auto simp: restarts_streak_def split: option.splits)
  obtain ts where ts: "ts \<noteq> []" "length ts = sk_count k" "hd ts = sk_since k" "last ts = sk_last k" "apart_by 15 ts"
    "\<forall>t\<in>set ts. confirmed_at ps (sk_state k) t"
    using ok k by (auto simp: streak_ok_def)
  show ?thesis
  proof (cases "now - sk_last k < 15")
    case True
    then show ?thesis using False k streak_ok_more [OF ok, of s "[p]"] by (simp add: proxy_failure_def Let_def)
  next
    case far: False
    let ?ts = "ts @ [now]"
    have here: "confirmed_at (ps @ [p]) (as_code a) now" using confirmed a now by (simp add: confirmed_at_def)
    have apart: "apart_by 15 ?ts"
      using apart_by_snoc [of 15 ts now] ts far by simp
    have all: "\<forall>t\<in>set ?ts. confirmed_at (ps @ [p]) (as_code a) t" using ts(6) here st by (auto intro: confirmed_more)
    have streak: "no_streak (fst (proxy_failure wall now keep res a s)) = Some (k \<lparr>sk_last := now, sk_count := sk_count k + 1\<rparr>)"
      using False far k by (simp add: proxy_failure_def Let_def split_beta alloc_def)
    have "streak_ok (ps @ [p]) (fst (proxy_failure wall now keep res a s))"
      unfolding streak_ok_def streak using ts apart all st by (auto intro!: exI [of _ ?ts])
    moreover have "repeated (ps @ [p]) (as_code a)" if "snd (proxy_failure wall now keep res a s) \<noteq> []"
    proof -
      have "sk_count k + 1 \<ge> 3" "now - sk_since k \<ge> 30"
        using that False far k by (auto simp: proxy_failure_def Let_def split: if_splits)
      then show ?thesis unfolding repeated_def using apart all ts by (intro exI [of _ ?ts]) simp
    qed
    ultimately show ?thesis by blast
  qed
qed

lemma proxy_notes_ok:
  assumes "streak_ok ps s"
  shows "streak_ok (ps @ [p]) (fst (proxy_notes (pp_wall p) (pp_now p) keep (pp_result p) s)) \<and>
    (snd (proxy_notes (pp_wall p) (pp_now p) keep (pp_result p) s) \<noteq> [] \<longrightarrow> repeated (ps @ [p]) (as_code (probe_state p)))"
proof (cases "as_code (probe_state p) = ''direct'' \<or> as_code (probe_state p) = ''responding'' \<or> \<not> no_proxy_enabled s
    \<or> \<not> as_confirmed (probe_state p)")
  case True
  then show ?thesis by (auto simp: proxy_notes_def Let_def probe_state_def streak_ok_def split: option.splits)
next
  case False
  have fail: "streak_ok (ps @ [p]) (fst (proxy_failure (pp_wall p) (pp_now p) keep (pp_result p) (probe_state p) s)) \<and>
    (snd (proxy_failure (pp_wall p) (pp_now p) keep (pp_result p) (probe_state p) s) \<noteq> [] \<longrightarrow>
       repeated (ps @ [p]) (as_code (probe_state p)))"
    by (rule proxy_failure_ok [OF assms _ refl refl]) (use False in blast)
  show ?thesis using False fail streak_ok_more [OF assms, of s "[p]"]
    by (auto simp: proxy_notes_def Let_def probe_state_def split: option.splits)
qed

lemma probe_all_ok: "streak_ok ps s \<Longrightarrow> streak_ok (ps @ qs) (probe_all keep qs s)"
proof (induction qs arbitrary: ps s)
  case (Cons q qs)
  from Cons.IH [OF conjunct1 [OF proxy_notes_ok [OF Cons.prems, of q keep]]]
  show ?case by (simp add: probe_all_def)
qed (simp add: probe_all_def)

section \<open>Further properties\<close>

text \<open>
  An HTTP fallback observation is reported at most once: a second pass over the same sessions at the same time
  reports nothing and changes nothing, although the memory of handled observations is bounded.
\<close>

theorem fallback_reported_once:
  assumes "http_ok s"
  shows "http_notes wall sessions (fst (http_notes wall sessions s)) = (fst (http_notes wall sessions s), [])"
  using assms by (rule http_idempotent)

theorem fallback_reported_once_witness:
  "let ss = [\<lparr>hs_home = ''h'', hs_id = ''i'', hs_title = [], hs_transports = [], hs_fallback = True, hs_kind_http = True, hs_ts = PInt 5\<rparr>]
   in http_notes 9 ss (fst (http_notes 9 ss (init_notifier 1))) = (fst (http_notes 9 ss (init_notifier 1)), [])"
  unfolding Let_def by (rule fallback_reported_once [OF http_ok_init])

text \<open>
  A proxy failure is announced only after repetition: among the probes made so far there are at least three
  confirmed ones with the announced state, each fifteen seconds or more after the one before, spanning thirty
  seconds or more.
\<close>

theorem proxy_alert_needs_repetition:
  assumes "snd (proxy_notes (pp_wall p) (pp_now p) keep (pp_result p) (probe_all keep ps (init_notifier wall))) \<noteq> []"
  shows "repeated (ps @ [p]) (as_code (probe_state p))"
proof -
  have "streak_ok [] (init_notifier wall)" by (simp add: streak_ok_def init_notifier_def)
  then have "streak_ok ps (probe_all keep ps (init_notifier wall))"
    using probe_all_ok [of "[]" "init_notifier wall" ps keep] by simp
  then show ?thesis using proxy_notes_ok [of ps _ p keep] assms by blast
qed

theorem proxy_alert_needs_repetition_witness:
  "repeated (map (\<lambda>t. \<lparr>pp_wall = t, pp_now = t, pp_result = [(''configured'', PBool True), (''probe_state'', PStr ''refused'')]\<rparr>) [0, 15, 30])
     ''refused''"
proof -
  let ?p = "\<lambda>t. \<lparr>pp_wall = t, pp_now = t, pp_result = [(''configured'', PBool True), (''probe_state'', PStr ''refused'')]\<rparr>"
  have "snd (proxy_notes (pp_wall (?p 30)) (pp_now (?p 30)) True (pp_result (?p 30)) (probe_all True (map ?p [0, 15]) (init_notifier 0))) \<noteq> []"
    by code_simp
  from proxy_alert_needs_repetition [OF this] show ?thesis
    by (simp add: probe_state_def assess_with_def exiting_def service_phase_def or_val_def is_in_def raw_def dget_def dget_or_def
        assess_proxy_def dsub_def)
qed


end
