(* ===== verification/Observer.thy ===== *)
theory Observer
  imports Control "HOL-Library.Sublist" "HOL-Library.Char_ord"
begin

text \<open>
  The reversible Codex configuration of \<open>cachemonitor/observer_control.py\<close>: the state
  file, \<open>set_url\<close>, \<open>health\<close>, \<open>start\<close>, \<open>prepare\<close>, \<open>check_ready\<close>, \<open>enable\<close>,
  \<open>recover_direct\<close>, \<open>turn_on\<close>, \<open>turn_off\<close>, \<open>attach_supervisor\<close> and \<open>status\<close> of
  \<open>ObserverManager\<close>.

  An operation is a function on a world. The world holds the files the class owns
  (\<open>disk\<close>), the list of all disks that ever existed during the run, newest first, and
  the answers the environment will give: for every call of the operating system or
  the task scheduler whether it raises, for every health request what the relay
  answers, the supervisor's runtime file, the cancel flag and the clock. An atomic write either replaces the file
  or raises before that. So the properties hold for every pattern of failures.
\<close>

section \<open>Worlds and actions\<close>

datatype reason = External | Foreign_state | Already_configured | Custom_provider | Custom_server
  | Not_ready | Cancelled | Start_failed | Incompatible | No_rollback | Update_running | App_stopped
  | Wrong_identity | Attach_failed | Recovery_failed

datatype oerror = Os_error | Value_error reason | Runtime_error reason

fun is_runtime :: "oerror \<Rightarrow> bool" where
  "is_runtime (Runtime_error _) = True"
| "is_runtime _ = False"

text \<open>\<open>except (ValueError, OSError)\<close>\<close>

definition unreadable :: "oerror \<Rightarrow> bool" where
  "unreadable e = (\<not> is_runtime e)"

datatype ophase = Ph_starting | Ph_prepared | Ph_validated | Ph_active | Ph_off | Ph_failed | Ph_faulted
  | Ph_recovery_failed | Ph_recovery_required | Ph_draining | Ph_service string

datatype backend = Chatgpt | Openai

record obs_state =
  os_enabled :: bool
  os_pending :: bool
  os_phase :: "ophase option"
  os_upstream :: "backend option"
  os_url :: "string option"
  os_previous_url :: "string option"
  os_previous_startup :: "string option"
  os_managed_startup :: "string option"
  os_proof_at :: "rat option"
  os_proof_instance :: "string option"
  os_last_error :: "oerror option"
  os_incident :: "oerror option"
  os_restart_required :: bool
  os_warning :: bool

definition empty_state :: obs_state where
  "empty_state = \<lparr>os_enabled = False, os_pending = False, os_phase = None, os_upstream = None, os_url = None,
     os_previous_url = None, os_previous_startup = None, os_managed_startup = None, os_proof_at = None,
     os_proof_instance = None, os_last_error = None, os_incident = None, os_restart_required = False,
     os_warning = False\<rparr>"

text \<open>The state file is missing, unusable (damaged or of another home), or holds a state.\<close>

datatype state_file = Absent | Foreign | Stored obs_state

record disk =
  dk_url :: "string option"
  dk_file :: state_file
  dk_startup :: "string option"
  dk_resume :: "bool option"

record reply =
  rp_service :: string
  rp_identity :: string
  rp_status :: string
  rp_instance :: string
  rp_version :: string
  rp_draining :: bool
  rp_observing :: bool
  rp_managed :: bool
  rp_control_id :: "string option"
  rp_pid :: int
  rp_storage_streak :: int
  rp_internal_streak :: int

datatype answer = Reply reply | Refuses | Silent

record runtime_file =
  rt_home :: string
  rt_url :: string
  rt_updated :: rat
  rt_phase :: string
  rt_instance :: string
  rt_pid :: int

record world =
  ow_disk :: disk
  ow_log :: "disk list"
  ow_provider :: "string option"
  ow_tokens :: bool
  ow_service_phase :: "string option"
  ow_cutover :: bool
  ow_busy :: bool
  ow_scheduled :: bool
  ow_health_state :: probe
  ow_faults :: "oerror option list"
  ow_answers :: "answer list"
  ow_runtimes :: "runtime_file option list"
  ow_cancels :: "bool list"
  ow_clock :: "rat list"

record manager =
  mg_url :: string
  mg_home :: string
  mg_identity :: string

type_synonym 'a act = "world \<Rightarrow> (oerror + 'a) \<times> world"

definition ret :: "'a \<Rightarrow> 'a act" where "ret x = (\<lambda>w. (Inr x, w))"
definition throw :: "oerror \<Rightarrow> 'a act" where "throw e = (\<lambda>w. (Inl e, w))"

definition run_then :: "'a act \<Rightarrow> ('a \<Rightarrow> 'b act) \<Rightarrow> 'b act" where
  "run_then m f = (\<lambda>w. case m w of (Inl e, v) \<Rightarrow> (Inl e, v) | (Inr x, v) \<Rightarrow> f x v)"

text \<open>\<open>try m except e: h e\<close>\<close>

definition attempt :: "'a act \<Rightarrow> (oerror \<Rightarrow> 'a act) \<Rightarrow> 'a act" where
  "attempt m h = (\<lambda>w. case m w of (Inl e, v) \<Rightarrow> h e v | (Inr x, v) \<Rightarrow> (Inr x, v))"

text \<open>A call of the system that may raise; its effect is the given function.\<close>

definition io :: "(world \<Rightarrow> world) \<Rightarrow> unit act" where
  "io f = (\<lambda>w. case ow_faults w of
      [] \<Rightarrow> (Inr (), f w)
    | None # fs \<Rightarrow> (Inr (), f (w\<lparr>ow_faults := fs\<rparr>))
    | Some e # fs \<Rightarrow> (Inl e, w\<lparr>ow_faults := fs\<rparr>))"

definition touch :: "unit act" where "touch = io (\<lambda>w. w)"

definition store :: "(disk \<Rightarrow> disk) \<Rightarrow> unit act" where
  "store f = io (\<lambda>w. let d = f (ow_disk w) in w\<lparr>ow_disk := d, ow_log := d # ow_log w\<rparr>)"

definition scheduler :: "bool \<Rightarrow> unit act" where
  "scheduler on = io (\<lambda>w. w\<lparr>ow_scheduled := on\<rparr>)"

definition see :: "(world \<Rightarrow> 'a) \<Rightarrow> 'a act" where "see g = (\<lambda>w. (Inr (g w), w))"

definition is_cancelled :: "bool act" where
  "is_cancelled = (\<lambda>w. case ow_cancels w of [] \<Rightarrow> (Inr False, w) | c # cs \<Rightarrow> (Inr c, w\<lparr>ow_cancels := cs\<rparr>))"

definition time_now :: "rat act" where
  "time_now = (\<lambda>w. case ow_clock w of [] \<Rightarrow> (Inr 0, w) | t # ts \<Rightarrow> (Inr t, w\<lparr>ow_clock := ts\<rparr>))"

definition next_answer :: "answer act" where
  "next_answer = (\<lambda>w. case ow_answers w of [] \<Rightarrow> (Inr Silent, w) | a # rest \<Rightarrow> (Inr a, w\<lparr>ow_answers := rest\<rparr>))"

definition read_runtime :: "runtime_file option act" where
  "read_runtime = (\<lambda>w. case ow_runtimes w of [] \<Rightarrow> (Inr None, w) | a # rest \<Rightarrow> (Inr a, w\<lparr>ow_runtimes := rest\<rparr>))"

definition set_health_state :: "probe \<Rightarrow> unit act" where
  "set_health_state p = (\<lambda>w. (Inr (), w\<lparr>ow_health_state := p\<rparr>))"

lemmas action_defs = ret_def throw_def io_def touch_def store_def scheduler_def see_def is_cancelled_def
  time_now_def next_answer_def read_runtime_def set_health_state_def

section \<open>Reading the surroundings\<close>

definition PROXY_VERSION :: string where "PROXY_VERSION = ''2026.10.29.1''"

fun split_dots :: "string \<Rightarrow> string list" where
  "split_dots [] = [[]]"
| "split_dots (c # cs) = (if c = CHR ''.'' then [] # split_dots cs
     else case split_dots cs of p # ps \<Rightarrow> (c # p) # ps | [] \<Rightarrow> [[c]])"

definition digit :: "char \<Rightarrow> bool" where "digit c = (CHR ''0'' \<le> c \<and> c \<le> CHR ''9'')"

definition decimal :: "string \<Rightarrow> nat" where "decimal s = foldl (\<lambda>n c. 10 * n + (of_char c - 48)) 0 s"

fun tuple_le :: "nat list \<Rightarrow> nat list \<Rightarrow> bool" where
  "tuple_le [] _ = True"
| "tuple_le (x # xs) [] = False"
| "tuple_le (x # xs) (y # ys) = (x < y \<or> x = y \<and> tuple_le xs ys)"

definition proxy_compatible :: "string \<Rightarrow> bool" where
  "proxy_compatible v =
    (if v \<in> set [''2026.10.01.1'', ''2026.10.01.2'', ''2026.10.09.1'', ''2026.10.11.1'', ''2026.10.11.2'', ''2026.10.12.1'',
          ''2026.10.12.3'', ''2026.10.14.1''] then True
     else if v \<in> set [PROXY_VERSION, ''2026.10.20.2'', ''2026.10.10.1'', ''2026.09.26.1'', ''2026.09.25.11'', ''2026.09.25.10'',
          ''2026.09.25.9'', ''2026.09.25.8'', ''2026.09.25.7'', ''2026.09.25.6'', ''2026.09.25.5'', ''2026.09.25.4'',
          ''2026.09.25.3'', ''2026.09.24.6'', ''2026.09.23.3'', ''2026.09.23.7'', ''2026.09.23.9''] then True
     else (let parts = split_dots v
           in if length parts \<noteq> 4 \<or> \<not> list_all (\<lambda>p. p \<noteq> [] \<and> list_all digit p) parts then False
              else tuple_le [2026, 9, 21, 9] (map decimal parts) \<and> tuple_le (map decimal parts) [2026, 9, 23, 2]))"

definition read_state :: "obs_state act" where
  "read_state = run_then (see (\<lambda>w. dk_file (ow_disk w))) (\<lambda>f. case f of
      Absent \<Rightarrow> ret empty_state
    | Foreign \<Rightarrow> run_then touch (\<lambda>_. throw (Value_error Foreign_state))
    | Stored s \<Rightarrow> run_then touch (\<lambda>_. ret s))"

definition write_state :: "obs_state \<Rightarrow> unit act" where
  "write_state s = store (\<lambda>d. d\<lparr>dk_file := Stored s\<rparr>)"

text \<open>The two entries of \<open>config.toml\<close> that are read; \<open>tomlkit\<close> keeps the rest of the file.\<close>

definition read_config :: "(string option \<times> string option) act" where
  "read_config = run_then touch (\<lambda>_. see (\<lambda>w. (dk_url (ow_disk w), ow_provider w)))"

text \<open>
  \<open>set_url\<close>: the first \<open>touch\<close> is the backup, the second the comparison that raises when the
  file was edited meanwhile.
\<close>

definition set_url :: "string option \<Rightarrow> bool act" where
  "set_url v = run_then read_config (\<lambda>(current, _).
     if current = v then ret False
     else run_then touch (\<lambda>_. run_then touch (\<lambda>_. run_then (store (\<lambda>d. d\<lparr>dk_url := v\<rparr>)) (\<lambda>_. ret True))))"

definition get_startup :: "string option act" where
  "get_startup = run_then touch (\<lambda>_. see (\<lambda>w. dk_startup (ow_disk w)))"

definition set_startup :: "string option \<Rightarrow> unit act" where
  "set_startup v = store (\<lambda>d. d\<lparr>dk_startup := v\<rparr>)"

definition probe_health :: "manager \<Rightarrow> reply option act" where
  "probe_health m = run_then (set_health_state Other_probe) (\<lambda>_. run_then next_answer (\<lambda>a. case a of
      Silent \<Rightarrow> ret None
    | Refuses \<Rightarrow> run_then (set_health_state Refused) (\<lambda>_. ret None)
    | Reply r \<Rightarrow>
       if rp_service r = [] \<or> rp_identity r = [] then ret None
       else if rp_service r \<noteq> ''cachemonitor-model-observer'' \<or> rp_identity r \<noteq> mg_identity m
       then run_then (set_health_state Identity_mismatch) (\<lambda>_. throw (Runtime_error Wrong_identity))
       else if rp_status r \<noteq> ''ok'' \<and> rp_status r \<noteq> ''degraded'' \<or> rp_instance r = [] then ret None
       else run_then (set_health_state Healthy) (\<lambda>_. ret (Some r))))"

definition runtime :: "manager \<Rightarrow> runtime_file option act" where
  "runtime m = run_then read_runtime (\<lambda>v. case v of None \<Rightarrow> ret None
    | Some r \<Rightarrow> if rt_home r \<noteq> mg_home m \<or> rt_url r \<noteq> mg_url m then ret None
                else run_then time_now (\<lambda>now. ret (if now - rt_updated r > 10 then None else Some r)))"

definition local_ready :: "reply option \<Rightarrow> bool" where
  "local_ready h = (case h of None \<Rightarrow> False
    | Some r \<Rightarrow> rp_instance r \<noteq> [] \<and> rp_status r = ''ok'' \<and> proxy_compatible (rp_version r) \<and>
                \<not> rp_draining r \<and> rp_observing r)"

definition proof_valid :: "obs_state \<Rightarrow> reply option \<Rightarrow> bool act" where
  "proof_valid s h = (case (os_proof_at s, h) of
      (Some t, Some r) \<Rightarrow>
        if local_ready h \<and> os_proof_instance s = Some (rp_instance r)
        then run_then time_now (\<lambda>now. ret (0 \<le> now - t \<and> now - t < 300)) else ret False
    | _ \<Rightarrow> ret False)"

definition OPENAI_URL :: string where "OPENAI_URL = ''https://api.openai.com/v1''"
definition CHATGPT_URL :: string where "CHATGPT_URL = ''https://chatgpt.com/backend-api/codex''"

text \<open>\<open>upstream\<close>: a server of the user's own is never replaced.\<close>

definition replaceable :: "manager \<Rightarrow> string option \<Rightarrow> bool" where
  "replaceable m current = (current = None \<or> current = Some [] \<or>
     current \<in> {Some (mg_url m), Some OPENAI_URL, Some CHATGPT_URL})"

definition upstream :: "manager \<Rightarrow> backend act" where
  "upstream m = run_then read_config (\<lambda>(current, provider).
     if provider \<noteq> None \<and> provider \<noteq> Some ''openai'' then throw (Value_error Custom_provider)
     else if \<not> replaceable m current then throw (Value_error Custom_server)
     else run_then touch (\<lambda>_. see (\<lambda>w. if ow_tokens w then Chatgpt else Openai)))"

record status_view =
  sv_configured :: bool
  sv_running :: bool
  sv_validated :: bool
  sv_phase :: ophase
  sv_incident :: "oerror option"
  sv_restart_required :: bool
  sv_update_available :: bool
  sv_version_mismatch :: bool

definition status_phase :: "bool \<Rightarrow> obs_state \<Rightarrow> reply option \<Rightarrow> bool \<Rightarrow> runtime_file option \<Rightarrow> string option \<Rightarrow> ophase" where
  "status_phase configured s h valid rt service =
    (let p0 = (if configured then (if os_enabled s \<and> h \<noteq> None then Ph_active else Ph_recovery_required)
               else if valid then Ph_validated else if h \<noteq> None then Ph_prepared else Ph_off);
         p1 = (if os_phase s = Some Ph_recovery_failed then Ph_recovery_failed
               else if \<not> configured \<and> os_phase s \<in> {Some Ph_faulted, Some Ph_failed} then the (os_phase s)
               else if \<not> configured \<and> map_option rt_phase rt = Some ''draining'' then Ph_draining
               else p0)
     in if service \<in> {Some ''preparing'', Some ''closing''} then Ph_service (the service) else p1)"

definition status_of :: "manager \<Rightarrow> obs_state \<Rightarrow> status_view act" where
  "status_of m s =
    run_then read_config (\<lambda>(current, _).
    run_then (set_health_state Other_probe) (\<lambda>_.
    run_then (attempt (probe_health m) (\<lambda>e. if is_runtime e then ret None else throw e)) (\<lambda>h.
    run_then (proof_valid s h) (\<lambda>valid.
    run_then (runtime m) (\<lambda>rt.
    run_then (see ow_service_phase) (\<lambda>service.
      let configured = (current = Some (mg_url m)) in
      ret \<lparr>sv_configured = configured, sv_running = (h \<noteq> None), sv_validated = valid,
           sv_phase = status_phase configured s h valid rt service,
           sv_incident = os_incident s, sv_restart_required = os_restart_required s,
           sv_update_available = (case h of None \<Rightarrow> False | Some r \<Rightarrow> rp_version r \<noteq> PROXY_VERSION),
           sv_version_mismatch = (case h of None \<Rightarrow> False | Some r \<Rightarrow> \<not> proxy_compatible (rp_version r))\<rparr>))))))"

definition status :: "manager \<Rightarrow> status_view act" where
  "status m = run_then (attempt read_state (\<lambda>e. if unreadable e then ret empty_state else throw e)) (status_of m)"

section \<open>Starting and checking the relay\<close>

primrec wait_ready :: "manager \<Rightarrow> nat \<Rightarrow> unit act" where
  "wait_ready m 0 = throw (Runtime_error Start_failed)"
| "wait_ready m (Suc n) = run_then is_cancelled (\<lambda>c. if c then throw (Runtime_error Cancelled)
     else run_then (probe_health m) (\<lambda>h.
       if map_option rp_version h = Some PROXY_VERSION
       then run_then (runtime m) (\<lambda>rt. if map_option rt_phase rt = Some ''ready'' then ret () else wait_ready m n)
       else wait_ready m n))"

definition start :: "manager \<Rightarrow> unit act" where
  "start m = run_then (probe_health m) (\<lambda>h.
     if (case h of None \<Rightarrow> False | Some r \<Rightarrow> \<not> proxy_compatible (rp_version r)) then throw (Runtime_error Incompatible)
     else run_then (scheduler True) (\<lambda>_. wait_ready m 60))"

definition load_or_reset :: "obs_state act" where
  "load_or_reset = attempt read_state (\<lambda>e. if unreadable e
     then run_then (see (\<lambda>w. dk_file (ow_disk w))) (\<lambda>f. if f \<noteq> Absent then run_then touch (\<lambda>_. ret empty_state) else ret empty_state)
     else throw e)"

definition prepare_from :: "manager \<Rightarrow> backend \<Rightarrow> obs_state \<Rightarrow> status_view act" where
  "prepare_from m u s0 =
     run_then (see (\<lambda>w. dk_file (ow_disk w))) (\<lambda>before. run_then (if before = Absent then ret () else touch) (\<lambda>_.
       let s = s0\<lparr>os_enabled := False, os_pending := True, os_phase := Some Ph_starting, os_upstream := Some u,
                  os_proof_at := Some 0, os_proof_instance := None, os_last_error := None, os_incident := None\<rparr> in
       run_then (write_state s) (\<lambda>_.
       run_then (attempt (start m) (\<lambda>e. run_then (store (\<lambda>d. d\<lparr>dk_file := before\<rparr>)) (\<lambda>_. throw e))) (\<lambda>_.
       run_then (write_state (s\<lparr>os_pending := False, os_phase := Some Ph_prepared\<rparr>)) (\<lambda>_. status m)))))"

definition prepare :: "manager \<Rightarrow> status_view act" where
  "prepare m = run_then read_config (\<lambda>(current, _).
     if current = Some (mg_url m) then throw (Runtime_error Already_configured)
     else run_then (upstream m) (\<lambda>u. run_then load_or_reset (prepare_from m u)))"

definition validate :: "manager \<Rightarrow> reply option \<Rightarrow> status_view act" where
  "validate m h = run_then read_state (\<lambda>s. run_then time_now (\<lambda>now.
     run_then (write_state (s\<lparr>os_phase := Some Ph_validated, os_proof_at := Some now,
                              os_proof_instance := map_option rp_instance h\<rparr>)) (\<lambda>_. status m)))"

definition check_from :: "manager \<Rightarrow> string option \<Rightarrow> status_view act" where
  "check_from m before = run_then (probe_health m) (\<lambda>h. run_then read_config (\<lambda>(after, _).
     run_then is_cancelled (\<lambda>c.
       if c then throw (Runtime_error Cancelled)
       else if \<not> (after = before \<and> local_ready h) then throw (Runtime_error Not_ready)
       else validate m h)))"

definition check_ready :: "manager \<Rightarrow> status_view act" where
  "check_ready m = run_then read_config (\<lambda>(before, _). run_then (prepare m) (\<lambda>_. check_from m before))"

section \<open>Switching the route\<close>

text \<open>
  \<open>enable\<close>: the rollback record is written before the shared configuration is changed;
  every exception after that undoes both and is raised again.
\<close>

definition enable_body :: "manager \<Rightarrow> string option \<Rightarrow> backend \<Rightarrow> obs_state \<Rightarrow> unit act" where
  "enable_body m startup u s =
    run_then (write_state (s\<lparr>os_pending := True\<rparr>)) (\<lambda>_.
    run_then (scheduler True) (\<lambda>_.
    run_then is_cancelled (\<lambda>c. if c then throw (Runtime_error Cancelled)
     else run_then (if startup = os_managed_startup s then set_startup None else ret ()) (\<lambda>_.
          run_then (set_url (Some (mg_url m))) (\<lambda>_.
          write_state (s\<lparr>os_enabled := True, os_pending := False, os_phase := Some Ph_active, os_upstream := Some u,
                         os_url := Some (mg_url m), os_restart_required := True\<rparr>))))))"

definition enable_undo :: "manager \<Rightarrow> string option \<Rightarrow> string option \<Rightarrow> obs_state \<Rightarrow> oerror \<Rightarrow> unit act" where
  "enable_undo m current startup s e =
    run_then (set_startup startup) (\<lambda>_.
    run_then (if current \<noteq> Some (mg_url m)
              then run_then read_config (\<lambda>(now, _). if now = Some (mg_url m)
                     then run_then (set_url (os_previous_url s)) (\<lambda>_. ret ()) else ret ())
              else ret ()) (\<lambda>_.
    run_then (write_state s) (\<lambda>_.
    run_then (scheduler True) (\<lambda>_. throw e))))"

definition enable_state :: "manager \<Rightarrow> string option \<Rightarrow> backend \<Rightarrow> obs_state \<Rightarrow> obs_state act" where
  "enable_state m current u s =
    (if os_enabled s \<or> os_pending s then ret s
     else if current = Some (mg_url m) then throw (Value_error No_rollback)
     else run_then get_startup (\<lambda>startup.
       ret (s\<lparr>os_previous_url := current, os_previous_startup := startup, os_upstream := Some u, os_enabled := False\<rparr>)))"

definition enable_from :: "manager \<Rightarrow> string option \<Rightarrow> backend \<Rightarrow> obs_state \<Rightarrow> status_view act" where
  "enable_from m current u s0 = run_then (enable_state m current u s0) (\<lambda>s. run_then get_startup (\<lambda>startup.
     run_then (attempt (enable_body m startup u s) (enable_undo m current startup s)) (\<lambda>_. status m)))"

definition enable_checked :: "manager \<Rightarrow> obs_state \<Rightarrow> status_view act" where
  "enable_checked m s0 = run_then read_config (\<lambda>(current, _). run_then (upstream m) (\<lambda>u.
     run_then (probe_health m) (\<lambda>h. run_then (proof_valid s0 h) (\<lambda>valid.
       if \<not> valid then throw (Runtime_error Not_ready) else enable_from m current u s0))))"

definition enable :: "manager \<Rightarrow> status_view act" where
  "enable m = run_then read_state (enable_checked m)"

definition disable_resume :: "unit act" where
  "disable_resume = run_then (see (\<lambda>w. dk_resume (ow_disk w))) (\<lambda>r. case r of None \<Rightarrow> ret ()
     | Some _ \<Rightarrow> store (\<lambda>d. d\<lparr>dk_resume := Some False\<rparr>))"

text \<open>A scheduler call of which only a \<open>RuntimeError\<close> is caught, as a warning.\<close>

definition warned :: "unit act \<Rightarrow> bool act" where
  "warned a = attempt (run_then a (\<lambda>_. ret False)) (\<lambda>e. if is_runtime e then ret True else throw e)"

definition restored_url :: "string option \<Rightarrow> string option" where
  "restored_url p = (if p \<in> {None, Some OPENAI_URL, Some CHATGPT_URL} then p else None)"

definition own_startup :: "manager \<Rightarrow> obs_state \<Rightarrow> string option \<Rightarrow> bool" where
  "own_startup m s v = (case v of None \<Rightarrow> False | Some c \<Rightarrow> c \<noteq> [] \<and>
     (Some c = os_managed_startup s \<or> sublist ''--model-proxy'' c \<and> sublist (mg_home m) c))"

definition recover_direct :: "manager \<Rightarrow> status_view act" where
  "recover_direct m = run_then disable_resume (\<lambda>_. run_then load_or_reset (\<lambda>s.
     run_then read_config (\<lambda>(current, _).
       let was = (current = Some (mg_url m)) in
       run_then (if was then run_then (set_url (restored_url (os_previous_url s))) (\<lambda>_. ret ()) else ret ()) (\<lambda>_.
       run_then get_startup (\<lambda>startup.
       run_then (if own_startup m s startup then set_startup (os_previous_startup s) else ret ()) (\<lambda>_.
       run_then (warned touch) (\<lambda>w1. run_then (warned (scheduler False)) (\<lambda>w2. run_then (warned touch) (\<lambda>w3.
       run_then (write_state (s\<lparr>os_enabled := False, os_pending := False, os_phase := Some Ph_off, os_proof_at := Some 0,
           os_proof_instance := None, os_restart_required := (was \<or> os_restart_required s), os_warning := (w1 \<or> w2 \<or> w3)\<rparr>))
         (\<lambda>_. status m))))))))))"

definition require_running :: "unit act" where
  "require_running = run_then (see ow_service_phase) (\<lambda>p.
     if p \<in> {Some ''preparing'', Some ''closing'', Some ''stopped'', Some ''failed'', Some ''resuming''}
     then throw (Runtime_error App_stopped) else ret ())"

primrec wait_attached :: "manager \<Rightarrow> string option \<Rightarrow> nat \<Rightarrow> status_view act" where
  "wait_attached m previous 0 = throw (Runtime_error Attach_failed)"
| "wait_attached m previous (Suc n) = run_then is_cancelled (\<lambda>c. if c then throw (Runtime_error Attach_failed)
     else run_then (runtime m) (\<lambda>rt. run_then (probe_health m) (\<lambda>h. case (rt, h) of
         (Some t, Some r) \<Rightarrow>
           if rt_phase t \<in> {''ready'', ''active''} \<and> Some (rt_instance t) \<noteq> previous \<and> rp_status r = ''ok'' \<and>
              \<not> rp_draining r \<and> rp_managed r \<and> rp_version r = PROXY_VERSION \<and> rp_pid r = rt_pid t \<and>
              rp_control_id r = Some (rt_instance t)
           then run_then touch (\<lambda>_. status m) else wait_attached m previous n
       | _ \<Rightarrow> wait_attached m previous n)))"

definition attach_supervisor :: "manager \<Rightarrow> status_view act" where
  "attach_supervisor m = run_then require_running (\<lambda>_. run_then (see ow_busy) (\<lambda>busy.
     if busy then status m
     else run_then read_state (\<lambda>s. run_then read_config (\<lambda>(current, _).
       if \<not> os_enabled s \<or> current \<noteq> Some (mg_url m) then status m
       else run_then (case os_upstream s of None \<Rightarrow> upstream m | Some u \<Rightarrow> ret u) (\<lambda>u.
         run_then (probe_health m) (\<lambda>h. case h of
             Some r \<Rightarrow> if rp_managed r then run_then (scheduler True) (\<lambda>_. status m) else status m
           | None \<Rightarrow> run_then (see ow_health_state) (\<lambda>p.
               if p \<noteq> Refused then status m
               else run_then (runtime m) (\<lambda>rt. run_then (scheduler True) (\<lambda>_.
                 wait_attached m (map_option rt_instance rt) 80)))))))))"

definition turn_on_failed :: "manager \<Rightarrow> oerror \<Rightarrow> status_view act" where
  "turn_on_failed m e = run_then
     (attempt (run_then (recover_direct m) (\<lambda>_. ret ())) (\<lambda>r.
        run_then read_state (\<lambda>s. run_then
          (write_state (s\<lparr>os_phase := Some Ph_recovery_failed, os_last_error := Some e, os_incident := Some r,
                          os_restart_required := True\<rparr>)) (\<lambda>_. throw (Runtime_error Recovery_failed)))))
     (\<lambda>_. run_then read_state (\<lambda>s. run_then is_cancelled (\<lambda>c.
        run_then (write_state (s\<lparr>os_phase := Some (if c then Ph_off else Ph_failed), os_last_error := Some e\<rparr>))
          (\<lambda>_. throw e))))"

definition turn_on :: "manager \<Rightarrow> status_view act" where
  "turn_on m = run_then touch (\<lambda>_. run_then require_running (\<lambda>_. run_then read_config (\<lambda>(current, _).
     if current = Some (mg_url m) then attach_supervisor m
     else attempt (run_then (check_ready m) (\<lambda>_. run_then is_cancelled (\<lambda>c.
            if c then throw (Runtime_error Cancelled)
            else run_then (enable m) (\<lambda>v. run_then is_cancelled (\<lambda>c'.
              if c' then throw (Runtime_error Cancelled) else ret v)))))
          (turn_on_failed m))))"

definition turn_off :: "manager \<Rightarrow> status_view act" where
  "turn_off m = run_then touch (\<lambda>_. run_then (see (\<lambda>w. ow_cutover w \<and> ow_busy w)) (\<lambda>b.
     if b then throw (Runtime_error Update_running)
     else run_then disable_resume (\<lambda>_. recover_direct m)))"

section \<open>Reasoning about actions\<close>

text \<open>
  What the properties look at: the disk, the disks of the run, and how many failures the
  environment still has in store. \<open>vc m Q E v\<close> is the weakest precondition of \<open>m\<close> on
  such views, for the postcondition \<open>Q\<close> and the postcondition \<open>E\<close> of a raised exception.
\<close>

definition failures :: "world \<Rightarrow> nat" where
  "failures w = length (filter (\<lambda>f. f \<noteq> None) (ow_faults w))"

type_synonym view = "disk \<times> disk list \<times> nat"

definition view :: "world \<Rightarrow> view" where
  "view w = (ow_disk w, ow_log w, failures w)"

definition vc :: "'a act \<Rightarrow> ('a \<Rightarrow> view \<Rightarrow> bool) \<Rightarrow> (oerror \<Rightarrow> view \<Rightarrow> bool) \<Rightarrow> view \<Rightarrow> bool" where
  "vc m Q E v = (\<forall>w. view w = v \<longrightarrow> (case m w of (Inl e, w') \<Rightarrow> E e (view w') | (Inr x, w') \<Rightarrow> Q x (view w')))"

lemma vcI: "(\<And>w. view w = v \<Longrightarrow> case m w of (Inl e, w') \<Rightarrow> E e (view w') | (Inr x, w') \<Rightarrow> Q x (view w')) \<Longrightarrow> vc m Q E v"
  by (simp add: vc_def)

lemma vcD_ok: "vc m Q E (view w) \<Longrightarrow> m w = (Inr x, w') \<Longrightarrow> Q x (view w')"
  by (fastforce simp: vc_def)

lemma vcD_error: "vc m Q E (view w) \<Longrightarrow> m w = (Inl e, w') \<Longrightarrow> E e (view w')"
  by (fastforce simp: vc_def)

lemma vc_outcome:
  "vc m Q E v = (\<forall>w. view w = v \<longrightarrow> (\<forall>e w'. m w = (Inl e, w') \<longrightarrow> E e (view w')) \<and> (\<forall>x w'. m w = (Inr x, w') \<longrightarrow> Q x (view w')))"
  (is "_ = ?r")
proof
  assume "vc m Q E v"
  then show ?r using vcD_ok vcD_error by metis
next
  assume r: ?r
  show "vc m Q E v"
  proof (rule vcI)
    fix w assume "view w = v"
    with r have "\<forall>e w'. m w = (Inl e, w') \<longrightarrow> E e (view w')" "\<forall>x w'. m w = (Inr x, w') \<longrightarrow> Q x (view w')" by blast+
    then show "case m w of (Inl e, w') \<Rightarrow> E e (view w') | (Inr x, w') \<Rightarrow> Q x (view w')"
      by (cases "m w"; cases "fst (m w)") auto
  qed
qed

lemma vc_mono:
  "vc m Q E v \<Longrightarrow> (\<And>x u. Q x u \<Longrightarrow> Q' x u) \<Longrightarrow> (\<And>e u. E e u \<Longrightarrow> E' e u) \<Longrightarrow> vc m Q' E' v"
  unfolding vc_outcome by blast

lemma vc_ret: "Q x v \<Longrightarrow> vc (ret x) Q E v"
  by (simp add: vc_def ret_def)

lemma vc_throw: "E e v \<Longrightarrow> vc (throw e) Q E v"
  by (simp add: vc_def throw_def)

lemma vc_run_then: "vc m (\<lambda>x. vc (f x) Q E) E v \<Longrightarrow> vc (run_then m f) Q E v"
proof (rule vcI)
  fix w assume a: "vc m (\<lambda>x. vc (f x) Q E) E v" and w: "view w = v"
  show "case run_then m f w of (Inl e, w') \<Rightarrow> E e (view w') | (Inr x, w') \<Rightarrow> Q x (view w')"
  proof (cases "m w")
    case (Pair r u)
    show ?thesis
    proof (cases r)
      case (Inl e)
      with a w Pair show ?thesis by (simp add: vc_outcome run_then_def)
    next
      case (Inr x)
      with a w Pair have "vc (f x) Q E (view u)" by (simp add: vc_outcome)
      with Inr Pair show ?thesis by (simp add: vc_def [of "f x"] run_then_def)
    qed
  qed
qed

lemma vc_attempt: "vc m Q (\<lambda>e. vc (h e) Q E) v \<Longrightarrow> vc (attempt m h) Q E v"
proof (rule vcI)
  fix w assume a: "vc m Q (\<lambda>e. vc (h e) Q E) v" and w: "view w = v"
  show "case attempt m h w of (Inl e, w') \<Rightarrow> E e (view w') | (Inr x, w') \<Rightarrow> Q x (view w')"
  proof (cases "m w")
    case (Pair r u)
    show ?thesis
    proof (cases r)
      case (Inl e)
      with a w Pair have "vc (h e) Q E (view u)" by (simp add: vc_outcome)
      with Inl Pair show ?thesis by (simp add: vc_def [of "h e"] attempt_def)
    next
      case (Inr x)
      with a w Pair show ?thesis by (simp add: vc_outcome attempt_def)
    qed
  qed
qed

lemma vc_if: "(b \<Longrightarrow> vc m Q E v) \<Longrightarrow> (\<not> b \<Longrightarrow> vc n Q E v) \<Longrightarrow> vc (if b then m else n) Q E v"
  by simp

text \<open>A call of the system: it takes effect, or it uses up a failure.\<close>

lemma vc_io:
  assumes "\<And>w. view w = (d, l, n) \<Longrightarrow> view (f w) = (d', l', n)"
    and "Q () (d', l', n)" and "\<And>e k. k < n \<Longrightarrow> E e (d, l, k)"
  shows "vc (io f) Q E (d, l, n)"
proof (rule vcI)
  fix w assume w: "view w = (d, l, n)"
  show "case io f w of (Inl e, w') \<Rightarrow> E e (view w') | (Inr x, w') \<Rightarrow> Q x (view w')"
  proof (cases "ow_faults w")
    case Nil
    with assms(1) [OF w] assms(2) show ?thesis by (simp add: io_def)
  next
    case (Cons f fs)
    show ?thesis
    proof (cases f)
      case None
      with Cons w have "view (w\<lparr>ow_faults := fs\<rparr>) = (d, l, n)" by (simp add: view_def failures_def)
      from assms(1) [OF this] assms(2) Cons None show ?thesis by (simp add: io_def)
    next
      case (Some e)
      with Cons w have "view (w\<lparr>ow_faults := fs\<rparr>) = (d, l, n - 1)" "0 < n" by (auto simp: view_def failures_def)
      with assms(3) Cons Some show ?thesis by (simp add: io_def)
    qed
  qed
qed

lemma vc_touch: "Q () (d, l, n) \<Longrightarrow> (\<And>e k. k < n \<Longrightarrow> E e (d, l, k)) \<Longrightarrow> vc touch Q E (d, l, n)"
  unfolding touch_def by (rule vc_io) auto

lemma vc_scheduler: "Q () (d, l, n) \<Longrightarrow> (\<And>e k. k < n \<Longrightarrow> E e (d, l, k)) \<Longrightarrow> vc (scheduler b) Q E (d, l, n)"
  unfolding scheduler_def by (rule vc_io) (auto simp: view_def failures_def)

lemma vc_store: "Q () (f d, f d # l, n) \<Longrightarrow> (\<And>e k. k < n \<Longrightarrow> E e (d, l, k)) \<Longrightarrow> vc (store f) Q E (d, l, n)"
  unfolding store_def by (rule vc_io) (auto simp: view_def failures_def Let_def)

text \<open>Observations do not change the view.\<close>

lemma vc_see: "(\<And>w. view w = v \<Longrightarrow> Q (g w) v) \<Longrightarrow> vc (see g) Q E v"
  by (auto simp: vc_def see_def)

lemma vc_is_cancelled: "(\<And>b. Q b v) \<Longrightarrow> vc is_cancelled Q E v"
  by (auto simp: vc_def is_cancelled_def view_def failures_def split: list.split)

lemma vc_time_now: "(\<And>t. Q t v) \<Longrightarrow> vc time_now Q E v"
  by (auto simp: vc_def time_now_def view_def failures_def split: list.split)

lemma vc_next_answer: "(\<And>a. Q a v) \<Longrightarrow> vc next_answer Q E v"
  by (auto simp: vc_def next_answer_def view_def failures_def split: list.split)

lemma vc_read_runtime: "(\<And>a. Q a v) \<Longrightarrow> vc read_runtime Q E v"
  by (auto simp: vc_def read_runtime_def view_def failures_def split: list.split)

lemma vc_set_health_state: "Q () v \<Longrightarrow> vc (set_health_state p) Q E v"
  by (simp add: vc_def set_health_state_def view_def failures_def)

lemmas vc_rules = vc_ret vc_throw vc_run_then vc_attempt vc_if vc_touch vc_scheduler vc_store vc_is_cancelled
  vc_time_now vc_next_answer vc_read_runtime vc_set_health_state

lemma vc_see_disk: "Q (g d) (d, l, n) \<Longrightarrow> vc (see (\<lambda>w. g (ow_disk w))) Q E (d, l, n)"
  by (rule vc_see) (simp add: view_def)

lemma vc_read_config:
  assumes "\<And>p. Q (dk_url d, p) (d, l, n)" and "\<And>e k. k < n \<Longrightarrow> E e (d, l, k)"
  shows "vc read_config Q E (d, l, n)"
  unfolding read_config_def
  by (intro vc_run_then vc_touch assms) (rule vc_see, use assms in \<open>auto simp: view_def\<close>)

lemma vc_read_state:
  assumes "\<And>s. dk_file d = Stored s \<Longrightarrow> Q s (d, l, n)" and "dk_file d = Absent \<Longrightarrow> Q empty_state (d, l, n)"
    and "dk_file d = Foreign \<Longrightarrow> E (Value_error Foreign_state) (d, l, n)"
    and "\<And>e k. k < n \<Longrightarrow> E e (d, l, k)"
  shows "vc read_state Q E (d, l, n)"
  unfolding read_state_def
proof (rule vc_run_then, rule vc_see_disk, cases "dk_file d")
  case Absent
  with assms(2) show "vc (case dk_file d of Absent \<Rightarrow> ret empty_state
      | Foreign \<Rightarrow> run_then touch (\<lambda>_. throw (Value_error Foreign_state)) | Stored s \<Rightarrow> run_then touch (\<lambda>_. ret s)) Q E (d, l, n)"
    by (simp add: vc_ret)
next
  case Foreign
  with assms(3) have "vc (run_then touch (\<lambda>_. throw (Value_error Foreign_state))) Q E (d, l, n)"
    using assms(4) by (intro vc_run_then vc_touch vc_throw) simp_all
  with Foreign show "vc (case dk_file d of Absent \<Rightarrow> ret empty_state
      | Foreign \<Rightarrow> run_then touch (\<lambda>_. throw (Value_error Foreign_state)) | Stored s \<Rightarrow> run_then touch (\<lambda>_. ret s)) Q E (d, l, n)"
    by simp
next
  case (Stored s)
  with assms(1) have "vc (run_then touch (\<lambda>_. ret s)) Q E (d, l, n)"
    by (intro vc_run_then vc_touch vc_ret assms(4)) simp
  with Stored show "vc (case dk_file d of Absent \<Rightarrow> ret empty_state
      | Foreign \<Rightarrow> run_then touch (\<lambda>_. throw (Value_error Foreign_state)) | Stored s \<Rightarrow> run_then touch (\<lambda>_. ret s)) Q E (d, l, n)"
    by simp
qed

lemma vc_probe_health:
  assumes "\<And>h. Q h v" and "E (Runtime_error Wrong_identity) v"
  shows "vc (probe_health m) Q E v"
  unfolding probe_health_def
  by (intro vc_run_then vc_set_health_state vc_next_answer)
    (auto split: answer.split intro!: vc_rules assms)

lemma vc_runtime:
  assumes "\<And>r. Q r v"
  shows "vc (runtime m) Q E v"
  unfolding runtime_def
  by (intro vc_run_then vc_read_runtime) (auto split: option.split intro!: vc_rules assms)

lemma vc_proof_valid:
  assumes "\<And>b. Q b v"
  shows "vc (proof_valid s h) Q E v"
  unfolding proof_valid_def
  by (auto split: option.split intro!: vc_rules assms)

lemma vc_set_url:
  assumes "dk_url d = u \<Longrightarrow> Q False (d, l, n)"
    and "dk_url d \<noteq> u \<Longrightarrow> Q True (d\<lparr>dk_url := u\<rparr>, d\<lparr>dk_url := u\<rparr> # l, n)"
    and "\<And>e k. k < n \<Longrightarrow> E e (d, l, k)"
  shows "vc (set_url u) Q E (d, l, n)"
  unfolding set_url_def
  by (intro vc_run_then vc_read_config) (auto intro!: vc_rules assms)

lemma vc_get_startup:
  assumes "Q (dk_startup d) (d, l, n)" and "\<And>e k. k < n \<Longrightarrow> E e (d, l, k)"
  shows "vc get_startup Q E (d, l, n)"
  unfolding get_startup_def by (intro vc_run_then vc_touch vc_see_disk assms)

lemma vc_set_startup:
  assumes "Q () (d\<lparr>dk_startup := v\<rparr>, d\<lparr>dk_startup := v\<rparr> # l, n)" and "\<And>e k. k < n \<Longrightarrow> E e (d, l, k)"
  shows "vc (set_startup v) Q E (d, l, n)"
  unfolding set_startup_def by (intro vc_store assms)

lemma vc_write_state:
  assumes "Q () (d\<lparr>dk_file := Stored s\<rparr>, d\<lparr>dk_file := Stored s\<rparr> # l, n)" and "\<And>e k. k < n \<Longrightarrow> E e (d, l, k)"
  shows "vc (write_state s) Q E (d, l, n)"
  unfolding write_state_def by (intro vc_store assms)

lemma vc_upstream:
  assumes "\<And>u. replaceable m (dk_url d) \<Longrightarrow> Q u (d, l, n)" and "\<And>e. E e (d, l, n)"
    and "\<And>e k. k < n \<Longrightarrow> E e (d, l, k)"
  shows "vc (upstream m) Q E (d, l, n)"
  unfolding upstream_def
  by (intro vc_run_then vc_read_config) (auto intro!: vc_rules vc_see assms)

text \<open>\<open>status\<close> changes nothing; it fails only when the system does.\<close>

lemma vc_status_of:
  assumes "\<And>x. Q x (d, l, n)" and "\<And>e k. k < n \<Longrightarrow> E e (d, l, k)"
  shows "vc (status_of m s) Q E (d, l, n)"
  unfolding status_of_def Let_def
  by (intro vc_run_then vc_read_config)
    (auto intro!: vc_run_then vc_set_health_state vc_attempt vc_probe_health vc_proof_valid vc_runtime vc_see
          vc_ret assms)

lemma vc_status:
  assumes "\<And>x k. k \<le> n \<Longrightarrow> Q x (d, l, k)" and "\<And>e k. k < n \<Longrightarrow> E e (d, l, k)"
  shows "vc (status m) Q E (d, l, n)"
  unfolding status_def
  by (intro vc_run_then vc_attempt vc_read_state)
    (auto simp: unreadable_def intro!: vc_ret vc_throw vc_status_of assms)

text \<open>\<open>start\<close> writes nothing; whatever it returns or raises, the disk is the one it found.\<close>

lemma vc_wait_ready:
  assumes "Q () v" and "\<And>e. E e v"
  shows "vc (wait_ready m k) Q E v"
  using assms
  by (induction k)
    (auto intro!: vc_throw vc_run_then vc_is_cancelled vc_probe_health vc_runtime vc_ret)

lemma vc_start:
  assumes "Q () (d, l, n)" and "\<And>e k. k \<le> n \<Longrightarrow> E e (d, l, k)"
  shows "vc (start m) Q E (d, l, n)"
  unfolding start_def
  by (auto intro!: vc_run_then vc_throw vc_probe_health vc_scheduler vc_wait_ready assms)

text \<open>The state, or the empty one when it cannot be read.\<close>

lemma vc_load_or_reset:
  assumes "\<And>s. dk_file d = Stored s \<Longrightarrow> Q s (d, l, n)" and "dk_file d \<in> {Absent, Foreign} \<Longrightarrow> Q empty_state (d, l, n)"
    and "\<And>k. k < n \<Longrightarrow> Q empty_state (d, l, k)" and "\<And>e k. k < n \<Longrightarrow> E e (d, l, k)"
  shows "vc load_or_reset Q E (d, l, n)"
  unfolding load_or_reset_def
  by (intro vc_attempt vc_read_state vc_if vc_run_then vc_see_disk vc_touch vc_ret vc_throw)
    (use assms in \<open>auto simp: unreadable_def\<close>)

section \<open>The user's route is never lost\<close>

text \<open>
  \<open>good m orig b d\<close>: on the disk \<open>d\<close> the route is the original one \<open>orig\<close>, or, when \<open>orig\<close> may
  be replaced, its restored form (no entry at all is the other direct form, and only
  after an unreadable state file, \<open>b\<close>), or the local relay with the original recorded for
  the way back.
\<close>

definition loopback :: "manager \<Rightarrow> bool" where
  "loopback m = (mg_url m \<notin> {OPENAI_URL, CHATGPT_URL})"

definition direct_form :: "manager \<Rightarrow> string option \<Rightarrow> bool \<Rightarrow> string option \<Rightarrow> bool" where
  "direct_form m orig b u = (u = orig \<or> replaceable m orig \<and> (u = restored_url orig \<or> b \<and> u = None))"

definition good :: "manager \<Rightarrow> string option \<Rightarrow> bool \<Rightarrow> disk \<Rightarrow> bool" where
  "good m orig b d = (direct_form m orig b (dk_url d) \<or>
     replaceable m orig \<and> dk_url d = Some (mg_url m) \<and> (\<exists>s. dk_file d = Stored s \<and> os_previous_url s = orig))"

fun inv :: "manager \<Rightarrow> string option \<Rightarrow> bool \<Rightarrow> view \<Rightarrow> bool" where
  "inv m orig b (d, l, n) = (good m orig b d \<and> list_all (good m orig b) l \<and> (0 < n \<longrightarrow> b))"

fun routed :: "manager \<Rightarrow> view \<Rightarrow> bool" where
  "routed m (d, l, n) = (dk_url d = Some (mg_url m))"

fun pending_failures :: "view \<Rightarrow> nat" where
  "pending_failures (d, l, n) = n"

lemma restored_direct: "loopback m \<Longrightarrow> restored_url p \<noteq> Some (mg_url m)"
  by (auto simp: restored_url_def loopback_def)

lemma direct_not_routed:
  "loopback m \<Longrightarrow> orig \<noteq> Some (mg_url m) \<Longrightarrow> direct_form m orig b u \<Longrightarrow> u \<noteq> Some (mg_url m)"
  using restored_direct [of m orig] by (auto simp: direct_form_def)

lemma good_routed:
  "loopback m \<Longrightarrow> orig \<noteq> Some (mg_url m) \<Longrightarrow> good m orig b d \<Longrightarrow> dk_url d = Some (mg_url m) \<Longrightarrow>
    replaceable m orig \<and> (\<exists>s. dk_file d = Stored s \<and> os_previous_url s = orig)"
  unfolding good_def using direct_not_routed by metis

lemma good_direct: "dk_url d \<noteq> Some (mg_url m) \<Longrightarrow> good m orig b d = direct_form m orig b (dk_url d)"
  by (simp add: good_def)

lemma good_updates [simp]:
  "good m orig b (d\<lparr>dk_startup := v\<rparr>) = good m orig b d"
  "good m orig b (d\<lparr>dk_resume := r\<rparr>) = good m orig b d"
  by (simp_all add: good_def)

lemma good_set_direct: "direct_form m orig b u \<Longrightarrow> good m orig b (d\<lparr>dk_url := u\<rparr>)"
  by (simp add: good_def)

lemma good_write: "dk_url d \<noteq> Some (mg_url m) \<Longrightarrow> good m orig b d \<Longrightarrow> good m orig b (d\<lparr>dk_file := f\<rparr>)"
  by (simp add: good_def)

lemma good_write_same:
  "good m orig b d \<Longrightarrow> os_previous_url s = orig \<Longrightarrow> good m orig b (d\<lparr>dk_file := Stored s\<rparr>)"
  by (auto simp: good_def)

text \<open>The second half of \<open>recover_direct\<close> runs on a direct route.\<close>

definition recover_rest :: "manager \<Rightarrow> bool \<Rightarrow> obs_state \<Rightarrow> status_view act" where
  "recover_rest m was s = run_then get_startup (\<lambda>startup.
       run_then (if own_startup m s startup then set_startup (os_previous_startup s) else ret ()) (\<lambda>_.
       run_then (warned touch) (\<lambda>w1. run_then (warned (scheduler False)) (\<lambda>w2. run_then (warned touch) (\<lambda>w3.
       run_then (write_state (s\<lparr>os_enabled := False, os_pending := False, os_phase := Some Ph_off, os_proof_at := Some 0,
           os_proof_instance := None, os_restart_required := (was \<or> os_restart_required s), os_warning := (w1 \<or> w2 \<or> w3)\<rparr>))
         (\<lambda>_. status m))))))"

lemma vc_warned_touch:
  assumes "\<And>x k. k \<le> n \<Longrightarrow> Q x (d, l, k)" and "\<And>e k. k < n \<Longrightarrow> E e (d, l, k)"
  shows "vc (warned touch) Q E (d, l, n)"
  unfolding warned_def by (auto intro!: vc_attempt vc_run_then vc_touch vc_ret vc_throw assms)

lemma vc_warned_scheduler:
  assumes "\<And>x k. k \<le> n \<Longrightarrow> Q x (d, l, k)" and "\<And>e k. k < n \<Longrightarrow> E e (d, l, k)"
  shows "vc (warned (scheduler c)) Q E (d, l, n)"
  unfolding warned_def by (auto intro!: vc_attempt vc_run_then vc_scheduler vc_ret vc_throw assms)

definition settled_off :: "disk \<Rightarrow> bool" where
  "settled_off d = (\<exists>s. dk_file d = Stored s \<and> \<not> os_enabled s \<and> \<not> os_pending s \<and> os_phase s = Some Ph_off)"

lemma vc_recover_rest:
  assumes v: "inv m orig b (d, l, n)" "dk_url d \<noteq> Some (mg_url m)"
  shows "vc (recover_rest m was s)
    (\<lambda>_ (d', l', k). inv m orig b (d', l', k) \<and> k \<le> n \<and> dk_url d' = dk_url d \<and> dk_resume d' = dk_resume d \<and> settled_off d')
    (\<lambda>_ (d', l', k). inv m orig b (d', l', k) \<and> k < n \<and> dk_url d' = dk_url d) (d, l, n)"
  unfolding recover_rest_def
  by (intro vc_run_then vc_get_startup vc_if vc_set_startup vc_warned_touch vc_warned_scheduler vc_write_state vc_status vc_ret)
    (use v in \<open>auto simp: good_direct settled_off_def\<close>)

definition recover_from :: "manager \<Rightarrow> obs_state \<Rightarrow> status_view act" where
  "recover_from m s = run_then read_config (\<lambda>(current, _).
     run_then (if current = Some (mg_url m) then run_then (set_url (restored_url (os_previous_url s))) (\<lambda>_. ret ()) else ret ()) (\<lambda>_.
     recover_rest m (current = Some (mg_url m)) s))"

lemma recover_direct_from:
  "recover_direct m = run_then disable_resume (\<lambda>_. run_then load_or_reset (recover_from m))"
  by (simp add: recover_direct_def recover_from_def [abs_def] recover_rest_def Let_def)

definition resumes_off :: "disk \<Rightarrow> bool" where
  "resumes_off d = (dk_resume d \<noteq> Some True)"

fun recovered :: "manager \<Rightarrow> string option \<Rightarrow> bool \<Rightarrow> nat \<Rightarrow> view \<Rightarrow> bool" where
  "recovered m orig b n (d, l, k) = (inv m orig b (d, l, k) \<and> k \<le> n \<and> dk_url d \<noteq> Some (mg_url m) \<and> resumes_off d \<and> settled_off d)"

fun spent :: "manager \<Rightarrow> string option \<Rightarrow> bool \<Rightarrow> nat \<Rightarrow> view \<Rightarrow> bool" where
  "spent m orig b n (d, l, k) = (inv m orig b (d, l, k) \<and> k < n)"

lemma recovered_mono: "k \<le> n \<Longrightarrow> recovered m orig b k v \<Longrightarrow> recovered m orig b n v"
  by (cases v) auto

lemma spent_mono: "k \<le> n \<Longrightarrow> spent m orig b k v \<Longrightarrow> spent m orig b n v"
  by (cases v) auto

lemma vc_recover_from:
  assumes m: "loopback m" "orig \<noteq> Some (mg_url m)" and v: "inv m orig b (d, l, n)" and r: "resumes_off d"
    and s: "dk_url d = Some (mg_url m) \<Longrightarrow> os_previous_url s = orig \<or> b \<and> os_previous_url s = None"
  shows "vc (recover_from m s) (\<lambda>_. recovered m orig b n) (\<lambda>_. spent m orig b n) (d, l, n)"
proof -
  have rest: "vc (recover_rest m was s) (\<lambda>_. recovered m orig b n) (\<lambda>_. spent m orig b n) (e, x, n)"
    if "inv m orig b (e, x, n)" "dk_url e \<noteq> Some (mg_url m)" "resumes_off e" for e x was
    by (rule vc_mono [OF vc_recover_rest [OF that(1,2)]]) (use that in \<open>auto simp: resumes_off_def\<close>)
  show ?thesis
  proof (cases "dk_url d = Some (mg_url m)")
    case True
    from good_routed [OF m _ True] v have rep: "replaceable m orig" by auto
    with s [OF True] have f: "direct_form m orig b (restored_url (os_previous_url s))"
      by (auto simp: direct_form_def restored_url_def)
    have ne: "restored_url (os_previous_url s) \<noteq> Some (mg_url m)" by (rule restored_direct [OF m(1)])
    let ?d = "d\<lparr>dk_url := restored_url (os_previous_url s)\<rparr>"
    have "vc (recover_rest m True s) (\<lambda>_. recovered m orig b n) (\<lambda>_. spent m orig b n) (?d, ?d # l, n)"
      by (rule rest) (use ne r v f in \<open>auto simp: resumes_off_def good_set_direct\<close>)
    with ne [symmetric] True show ?thesis
      unfolding recover_from_def
      by (intro vc_run_then vc_read_config) (use v in \<open>auto intro!: vc_run_then vc_set_url vc_ret\<close>)
  next
    case False
    have "vc (recover_rest m False s) (\<lambda>_. recovered m orig b n) (\<lambda>_. spent m orig b n) (d, l, n)"
      by (rule rest) (use v r False in auto)
    with False show ?thesis
      unfolding recover_from_def
      by (intro vc_run_then vc_read_config) (use v in \<open>auto intro!: vc_run_then vc_ret\<close>)
  qed
qed

lemma vc_recover_loaded:
  assumes m: "loopback m" "orig \<noteq> Some (mg_url m)" and v: "inv m orig b (d, l, n)" and r: "resumes_off d"
  shows "vc (run_then load_or_reset (recover_from m)) (\<lambda>_. recovered m orig b n) (\<lambda>_. spent m orig b n) (d, l, n)"
proof -
  from v have g: "good m orig b d" by simp
  have stored: "vc (recover_from m s) (\<lambda>_. recovered m orig b n) (\<lambda>_. spent m orig b n) (d, l, n)" if "dk_file d = Stored s" for s
    by (rule vc_recover_from [OF m v r]) (use good_routed [OF m g] that in auto)
  have absent: "vc (recover_from m empty_state) (\<lambda>_. recovered m orig b n) (\<lambda>_. spent m orig b n) (d, l, n)"
    if "dk_file d \<in> {Absent, Foreign}"
    by (rule vc_recover_from [OF m v r]) (use good_routed [OF m g] that in auto)
  have reset: "vc (recover_from m empty_state) (\<lambda>_. recovered m orig b n) (\<lambda>_. spent m orig b n) (d, l, k)" if "k < n" for k
  proof (rule vc_mono [OF vc_recover_from [OF m _ r, of b l k empty_state]])
    from v that show "inv m orig b (d, l, k)" by auto
    show "os_previous_url empty_state = orig \<or> b \<and> os_previous_url empty_state = None"
      using v that by (auto simp: empty_state_def)
  qed (use that in \<open>auto intro: recovered_mono spent_mono less_imp_le\<close>)
  show ?thesis
    by (intro vc_run_then vc_load_or_reset stored absent reset) (use v in auto)
qed

lemma vc_recover_direct:
  assumes m: "loopback m" "orig \<noteq> Some (mg_url m)" and v: "inv m orig b (d, l, n)"
  shows "vc (recover_direct m) (\<lambda>_. recovered m orig b n) (\<lambda>_. spent m orig b n) (d, l, n)"
proof (cases "dk_resume d")
  case None
  with vc_recover_loaded [OF m v] show ?thesis
    unfolding recover_direct_from disable_resume_def
    by (intro vc_run_then vc_see_disk) (simp add: vc_ret resumes_off_def)
next
  case (Some r)
  with vc_recover_loaded [OF m, of b "d\<lparr>dk_resume := Some False\<rparr>" "d\<lparr>dk_resume := Some False\<rparr> # l" n] v
  show ?thesis
    unfolding recover_direct_from disable_resume_def
    by (intro vc_run_then vc_see_disk) (auto simp: resumes_off_def intro!: vc_store)
qed

text \<open>Preparation and the readiness check leave the route alone.\<close>

definition idle :: "disk \<Rightarrow> bool" where
  "idle d = (\<forall>s. dk_file d = Stored s \<longrightarrow> \<not> os_enabled s \<and> \<not> os_pending s)"

fun unrouted :: "manager \<Rightarrow> string option \<Rightarrow> bool \<Rightarrow> nat \<Rightarrow> view \<Rightarrow> bool" where
  "unrouted m orig b n (d, l, k) = (inv m orig b (d, l, k) \<and> k \<le> n \<and> dk_url d = orig)"

fun prepared :: "manager \<Rightarrow> string option \<Rightarrow> bool \<Rightarrow> nat \<Rightarrow> view \<Rightarrow> bool" where
  "prepared m orig b n (d, l, k) = (unrouted m orig b n (d, l, k) \<and> idle d)"

lemma good_original: "dk_url d = orig \<Longrightarrow> good m orig b d"
  by (simp add: good_def direct_form_def)

lemma unrouted_less: "unrouted m orig b n (d, l, n) \<Longrightarrow> k \<le> n \<Longrightarrow> unrouted m orig b n (d, l, k)"
  by auto

lemma vc_prepare_from:
  assumes v: "unrouted m orig b n (d, l, j)"
  shows "vc (prepare_from m u s) (\<lambda>_. prepared m orig b n) (\<lambda>_. unrouted m orig b n) (d, l, j)"
  unfolding prepare_from_def Let_def
  by (intro vc_run_then vc_see_disk vc_if vc_ret vc_touch vc_write_state vc_attempt vc_start vc_store vc_throw vc_status)
    (use v in \<open>auto simp: good_original idle_def\<close>)

lemma vc_prepare:
  assumes o: "orig \<noteq> Some (mg_url m)" and v: "unrouted m orig b n (d, l, n)"
  shows "vc (prepare m) (\<lambda>_. prepared m orig b n) (\<lambda>_. unrouted m orig b n) (d, l, n)"
proof -
  have less: "unrouted m orig b n (d, l, k)" if "k \<le> n" for k using v that by auto
  have u: "dk_url d \<noteq> Some (mg_url m)" using v o by simp
  show ?thesis
    unfolding prepare_def
    by (intro vc_run_then vc_read_config)
      (auto simp: u simp del: unrouted.simps prepared.simps
        intro!: vc_run_then vc_upstream vc_load_or_reset vc_prepare_from less less_imp_le)
qed

lemma vc_validate:
  assumes "prepared m orig b n v"
  shows "vc (validate m h) (\<lambda>_. prepared m orig b n) (\<lambda>_. unrouted m orig b n) v"
proof (cases v)
  case (fields d l k)
  with assms have i: "idle d" and u: "unrouted m orig b n (d, l, k)" by simp_all
  show ?thesis
    unfolding fields validate_def
    by (intro vc_run_then vc_read_state vc_time_now vc_write_state vc_status)
      (use i u in \<open>auto simp: good_original idle_def empty_state_def\<close>)
qed

lemma vc_check_from:
  assumes "prepared m orig b n v"
  shows "vc (check_from m before) (\<lambda>_. prepared m orig b n) (\<lambda>_. unrouted m orig b n) v"
proof (cases v)
  case (fields d l k)
  with assms have p: "prepared m orig b n (d, l, k)" and u: "unrouted m orig b n (d, l, k)" by simp_all
  have less: "unrouted m orig b n (d, l, j)" if "j < k" for j using u that by auto
  show ?thesis
    unfolding fields check_from_def
    by (intro vc_run_then vc_probe_health vc_read_config)
      (auto simp del: prepared.simps unrouted.simps intro!: vc_run_then vc_is_cancelled vc_throw vc_validate p u less)
qed

lemma vc_check_ready:
  assumes o: "orig \<noteq> Some (mg_url m)" and v: "unrouted m orig b n (d, l, n)"
  shows "vc (check_ready m) (\<lambda>_. prepared m orig b n) (\<lambda>_. unrouted m orig b n) (d, l, n)"
proof -
  have less: "unrouted m orig b n (d, l, k)" if "k < n" for k using v that by auto
  show ?thesis
    unfolding check_ready_def
    by (intro vc_run_then vc_read_config)
      (auto simp del: prepared.simps unrouted.simps
        intro!: vc_run_then vc_mono [OF vc_prepare [OF o v]] vc_check_from less)
qed

text \<open>
  \<open>enable\<close>: after an exception the relay is the route only if the system failed once more
  while the change was being undone.
\<close>

fun undone :: "manager \<Rightarrow> string option \<Rightarrow> bool \<Rightarrow> nat \<Rightarrow> view \<Rightarrow> bool" where
  "undone m orig b n (d, l, k) = (inv m orig b (d, l, k) \<and> k \<le> n \<and> (dk_url d = Some (mg_url m) \<longrightarrow> k < n))"

fun switched :: "manager \<Rightarrow> string option \<Rightarrow> bool \<Rightarrow> nat \<Rightarrow> view \<Rightarrow> bool" where
  "switched m orig b n (d, l, k) = (inv m orig b (d, l, k) \<and> k \<le> n \<and> dk_url d = Some (mg_url m) \<and>
     (\<exists>s. dk_file d = Stored s \<and> os_enabled s \<and> \<not> os_pending s \<and> os_phase s = Some Ph_active \<and> os_previous_url s = orig))"

lemma good_switch [simp]:
  "replaceable m orig \<Longrightarrow> (case dk_file d of Stored s \<Rightarrow> os_previous_url s = orig | _ \<Rightarrow> False) \<Longrightarrow>
    good m orig b (d\<lparr>dk_url := Some (mg_url m)\<rparr>)"
  by (auto simp: good_def split: state_file.splits)

lemma good_switched [simp]:
  "replaceable m orig \<Longrightarrow> os_previous_url s = orig \<Longrightarrow> good m orig b (d\<lparr>dk_url := Some (mg_url m), dk_file := Stored s\<rparr>)"
  by (auto simp: good_def)

lemma good_set_original [simp]: "good m orig b (d\<lparr>dk_url := orig\<rparr>)"
  by (simp add: good_original)

lemma vc_enable_undo:
  assumes o: "os_previous_url s \<noteq> Some (mg_url m)" and v: "undone m (os_previous_url s) b n (d, l, k)"
  shows "vc (enable_undo m (os_previous_url s) startup s e) Q (\<lambda>_. undone m (os_previous_url s) b n) (d, l, k)"
  unfolding enable_undo_def
  by (intro vc_run_then vc_set_startup vc_if vc_read_config)
    (use v o in \<open>auto intro!: vc_run_then vc_set_url vc_ret vc_write_state vc_scheduler vc_throw good_write_same\<close>)

lemma vc_enable_switch:
  assumes o: "os_previous_url s \<noteq> Some (mg_url m)" and r: "replaceable m (os_previous_url s)"
    and v: "unrouted m (os_previous_url s) b n (d, l, k)"
  shows "vc (attempt (enable_body m startup u s) (enable_undo m (os_previous_url s) startup s))
    (\<lambda>_. switched m (os_previous_url s) b n) (\<lambda>_. undone m (os_previous_url s) b n) (d, l, k)"
  unfolding enable_body_def
  by (intro vc_attempt vc_run_then vc_write_state vc_scheduler vc_is_cancelled)
    (use v o r in \<open>auto intro!: vc_run_then vc_set_startup vc_set_url vc_ret vc_write_state vc_throw
      vc_enable_undo good_write_same\<close>)

lemma vc_enable_from:
  assumes o: "orig \<noteq> Some (mg_url m)" and r: "replaceable m orig" and i: "\<not> os_enabled s0" "\<not> os_pending s0"
    and v: "unrouted m orig b n (d, l, k)"
  shows "vc (enable_from m orig u s0) (\<lambda>_. switched m orig b n) (\<lambda>_. undone m orig b n) (d, l, k)"
proof -
  have less: "undone m orig b n (d, l, j)" if "j < k" for j using v o that by auto
  have step: "vc (run_then (attempt (enable_body m startup u s) (enable_undo m orig startup s)) (\<lambda>_. status m))
      (\<lambda>_. switched m orig b n) (\<lambda>_. undone m orig b n) (d, l, k)" if "os_previous_url s = orig" for s startup
  proof (rule vc_run_then, rule vc_mono)
    show "vc (attempt (enable_body m startup u s) (enable_undo m orig startup s))
      (\<lambda>_. switched m orig b n) (\<lambda>_. undone m orig b n) (d, l, k)"
      using vc_enable_switch [of s m b n d l k startup u] that o r v by simp
    show "vc (status m) (\<lambda>_. switched m orig b n) (\<lambda>_. undone m orig b n) w" if "switched m orig b n w" for w
      using that by (cases w) (auto intro!: vc_status)
  qed
  show ?thesis
    unfolding enable_from_def enable_state_def
    using i o by (auto intro!: vc_run_then vc_get_startup vc_ret step less simp del: undone.simps switched.simps)
qed

lemma vc_enable:
  assumes o: "orig \<noteq> Some (mg_url m)" and v: "prepared m orig b n v"
  shows "vc (enable m) (\<lambda>_. switched m orig b n) (\<lambda>_. undone m orig b n) v"
proof (cases v)
  case (fields d l k)
  with v have i: "idle d" and u: "unrouted m orig b n (d, l, k)" and orig: "dk_url d = orig" by simp_all
  have now: "undone m orig b n (d, l, k)" using u o by simp
  have less: "undone m orig b n (d, l, j)" if "j < k" for j using u o that by auto
  have rest: "vc (enable_checked m s0) (\<lambda>_. switched m orig b n) (\<lambda>_. undone m orig b n) (d, l, k)"
    if "\<not> os_enabled s0" "\<not> os_pending s0" for s0
    unfolding enable_checked_def
    by (intro vc_run_then vc_read_config)
      (use that in \<open>auto simp: orig simp del: undone.simps switched.simps unrouted.simps
        intro!: vc_run_then vc_upstream vc_probe_health vc_proof_valid vc_throw now less vc_enable_from [OF o _ _ _ u]\<close>)
  show ?thesis
    unfolding fields enable_def
    by (intro vc_run_then vc_read_state rest) (use i now less in \<open>auto simp: idle_def empty_state_def\<close>)
qed

definition recorded :: "disk \<Rightarrow> bool" where
  "recorded d = (\<exists>s. dk_file d = Stored s \<and> os_phase s = Some Ph_recovery_failed \<and> os_restart_required s)"

fun fail_safe :: "manager \<Rightarrow> string option \<Rightarrow> bool \<Rightarrow> nat \<Rightarrow> view \<Rightarrow> bool" where
  "fail_safe m orig b n (d, l, k) = (inv m orig b (d, l, k) \<and> k \<le> n \<and>
     (dk_url d = Some (mg_url m) \<longrightarrow> recorded d \<or> k + 2 \<le> n))"

lemma vc_record_failure:
  assumes m: "loopback m" "orig \<noteq> Some (mg_url m)" and v: "spent m orig b n (d, l, k)"
  shows "vc (run_then read_state (\<lambda>s. run_then
          (write_state (s\<lparr>os_phase := Some Ph_recovery_failed, os_last_error := Some e, os_incident := Some r,
                          os_restart_required := True\<rparr>)) (\<lambda>_. throw x)))
    Q (\<lambda>_. fail_safe m orig b n) (d, l, k)"
proof (cases "dk_url d = Some (mg_url m)")
  case True
  with good_routed [OF m _ True] v obtain s where "dk_file d = Stored s" "os_previous_url s = orig" by auto
  with v show ?thesis
    by (intro vc_run_then vc_read_state) (auto intro!: vc_write_state vc_throw vc_run_then good_write_same simp: recorded_def)
next
  case False
  with v show ?thesis
    by (intro vc_run_then vc_read_state) (auto intro!: vc_write_state vc_throw vc_run_then good_write)
qed

lemma vc_turn_on_failed:
  assumes m: "loopback m" "orig \<noteq> Some (mg_url m)" and v: "inv m orig b (d, l, k)" "k \<le> n"
  shows "vc (turn_on_failed m e) Q (\<lambda>_. fail_safe m orig b n) (d, l, k)"
proof -
  let ?P = "\<lambda>_. recovered m orig b n"
  have r: "vc (run_then (recover_direct m) (\<lambda>_. ret ())) ?P (\<lambda>_. spent m orig b n) (d, l, k)"
    by (rule vc_run_then, rule vc_mono [OF vc_recover_direct [OF m v(1)]])
      (use v(2) in \<open>auto intro: vc_ret recovered_mono spent_mono\<close>)
  have t: "vc (run_then (recover_direct m) (\<lambda>_. ret ()))
      (\<lambda>_. recovered m orig b n)
      (\<lambda>r. vc (run_then read_state (\<lambda>s. run_then
          (write_state (s\<lparr>os_phase := Some Ph_recovery_failed, os_last_error := Some e, os_incident := Some r,
                          os_restart_required := True\<rparr>)) (\<lambda>_. throw (Runtime_error Recovery_failed))))
         (\<lambda>_. recovered m orig b n) (\<lambda>_. fail_safe m orig b n)) (d, l, k)"
  proof (rule vc_mono [OF r])
    fix x u assume "spent m orig b n u"
    then show "vc (run_then read_state (\<lambda>s. run_then
          (write_state (s\<lparr>os_phase := Some Ph_recovery_failed, os_last_error := Some e, os_incident := Some x,
                          os_restart_required := True\<rparr>)) (\<lambda>_. throw (Runtime_error Recovery_failed))))
         (\<lambda>_. recovered m orig b n) (\<lambda>_. fail_safe m orig b n) u"
      by (cases u) (auto intro: vc_record_failure [OF m] simp del: spent.simps)
  qed
  have last: "vc (run_then read_state (\<lambda>s. run_then is_cancelled (\<lambda>c.
        run_then (write_state (s\<lparr>os_phase := Some (if c then Ph_off else Ph_failed), os_last_error := Some e\<rparr>))
          (\<lambda>_. throw e)))) Q (\<lambda>_. fail_safe m orig b n) w" if "recovered m orig b n w" for w
  proof (cases w)
    case (fields d' l' k')
    with that show ?thesis
      by (auto intro!: vc_run_then vc_read_state vc_is_cancelled vc_write_state vc_throw good_write)
  qed
  show ?thesis
    unfolding turn_on_failed_def
    by (rule vc_run_then, rule vc_mono [OF vc_attempt [OF t]]) (auto intro: last)
qed

lemma vc_turn_on:
  assumes m: "loopback m" "orig \<noteq> Some (mg_url m)" and v: "unrouted m orig b n (d, l, n)"
  shows "vc (turn_on m) (\<lambda>_. switched m orig b n) (\<lambda>_. fail_safe m orig b n) (d, l, n)"
proof -
  have less: "fail_safe m orig b n (d, l, j)" if "j \<le> n" for j using v m that by auto
  have recover: "vc (turn_on_failed m e) (\<lambda>_. switched m orig b n) (\<lambda>_. fail_safe m orig b n) w"
    if "inv m orig b w" "pending_failures w \<le> n" for e w
    using that by (cases w) (simp add: vc_turn_on_failed [OF m] del: inv.simps)
  have failed: "vc (turn_on_failed m e) (\<lambda>_. switched m orig b n) (\<lambda>_. fail_safe m orig b n) w" if "undone m orig b n w" for e w
    by (rule recover) (use that in \<open>cases w, simp\<close>)+
  have cancelled: "vc (turn_on_failed m e) (\<lambda>_. switched m orig b n) (\<lambda>_. fail_safe m orig b n) w" if "switched m orig b n w" for e w
    by (rule recover) (use that in \<open>cases w, simp\<close>)+
  have unrouted_undone: "undone m orig b n w" if "unrouted m orig b n w" for w using that m by (cases w) auto
  have prepared_undone: "undone m orig b n w" if "prepared m orig b n w" for w using that m by (cases w) auto
  have enable: "vc (run_then (enable m) (\<lambda>v. run_then is_cancelled (\<lambda>c'.
              if c' then throw (Runtime_error Cancelled) else ret v)))
     (\<lambda>_. switched m orig b n) (\<lambda>e. vc (turn_on_failed m e) (\<lambda>_. switched m orig b n) (\<lambda>_. fail_safe m orig b n)) w"
    if "prepared m orig b n w" for w
    by (rule vc_run_then, rule vc_mono [OF vc_enable [OF m(2) that]])
      (auto intro!: vc_run_then vc_is_cancelled vc_throw vc_ret intro: failed cancelled
        simp del: switched.simps undone.simps fail_safe.simps)
  have body: "vc (attempt (run_then (check_ready m) (\<lambda>_. run_then is_cancelled (\<lambda>c.
            if c then throw (Runtime_error Cancelled)
            else run_then (enable m) (\<lambda>v. run_then is_cancelled (\<lambda>c'.
              if c' then throw (Runtime_error Cancelled) else ret v)))))
          (turn_on_failed m)) (\<lambda>_. switched m orig b n) (\<lambda>_. fail_safe m orig b n) (d, l, n)"
    by (rule vc_attempt, rule vc_run_then, rule vc_mono [OF vc_check_ready [OF m(2) v]])
      (auto intro!: vc_run_then vc_is_cancelled vc_throw enable intro: failed [OF prepared_undone] failed [OF unrouted_undone]
        simp del: switched.simps undone.simps fail_safe.simps prepared.simps unrouted.simps)
  have now: "fail_safe m orig b n (d, l, n)" by (rule less) simp
  have below: "fail_safe m orig b n (d, l, j)" if "j < n" for j by (rule less) (use that in simp)
  have direct: "dk_url d \<noteq> Some (mg_url m)" using v m by simp
  show ?thesis
    unfolding turn_on_def require_running_def
    by (intro vc_run_then vc_touch)
      (auto simp: direct intro!: vc_run_then vc_see vc_ret vc_throw vc_read_config body now below
        simp del: fail_safe.simps switched.simps)
qed

text \<open>\<open>recover_direct\<close> on any disk, when the system works: the route it leaves.\<close>

definition recorded_previous :: "state_file \<Rightarrow> string option" where
  "recorded_previous f = (case f of Stored s \<Rightarrow> os_previous_url s | _ \<Rightarrow> None)"

definition recovered_url :: "manager \<Rightarrow> disk \<Rightarrow> string option" where
  "recovered_url m d = (if dk_url d = Some (mg_url m) then restored_url (recorded_previous (dk_file d)) else dk_url d)"

lemma vc_recover_rest_settles:
  "vc (recover_rest m was s) (\<lambda>_ (e, l', k). dk_url e = dk_url d \<and> dk_resume e = dk_resume d \<and> settled_off e) (\<lambda>_ _. False) (d, l, 0)"
  unfolding recover_rest_def
  by (intro vc_run_then vc_get_startup vc_if vc_set_startup vc_warned_touch vc_warned_scheduler vc_write_state vc_status vc_ret)
    (auto simp: settled_off_def)

lemma vc_recover_from_settles:
  assumes "resumes_off d"
  shows "vc (recover_from m s) (\<lambda>_ (e, l', k). dk_url e =
       (if dk_url d = Some (mg_url m) then restored_url (os_previous_url s) else dk_url d) \<and> resumes_off e \<and> settled_off e)
     (\<lambda>_ _. False) (d, l, 0)"
  unfolding recover_from_def
  by (intro vc_run_then vc_read_config)
    (use assms in \<open>auto simp: resumes_off_def intro!: vc_run_then vc_set_url vc_ret
      intro: vc_mono [OF vc_recover_rest_settles]\<close>)

lemma vc_recover_loaded_settles:
  assumes "resumes_off d"
  shows "vc (run_then load_or_reset (recover_from m)) (\<lambda>_ (e, l', k). dk_url e = recovered_url m d \<and> resumes_off e \<and> settled_off e)
     (\<lambda>_ _. False) (d, l, 0)"
  by (intro vc_run_then vc_load_or_reset vc_mono [OF vc_recover_from_settles [OF assms]])
    (auto simp: recovered_url_def recorded_previous_def empty_state_def)

lemma vc_recover_settles:
  "vc (recover_direct m) (\<lambda>_ (e, l', k). dk_url e = recovered_url m d \<and> resumes_off e \<and> settled_off e) (\<lambda>_ _. False) (d, l, 0)"
proof (cases "dk_resume d")
  case None
  with vc_recover_loaded_settles [of d m l] show ?thesis
    unfolding recover_direct_from disable_resume_def
    by (intro vc_run_then vc_see_disk) (simp add: vc_ret resumes_off_def)
next
  case (Some r)
  let ?d = "d\<lparr>dk_resume := Some False\<rparr>"
  have "recovered_url m ?d = recovered_url m d" by (simp add: recovered_url_def)
  with Some vc_recover_loaded_settles [of ?d m "?d # l"] show ?thesis
    unfolding recover_direct_from disable_resume_def
    by (intro vc_run_then vc_see_disk) (auto simp: resumes_off_def intro!: vc_store)
qed

lemma turn_on_outcome:
  assumes m: "loopback m" "dk_url (ow_disk w) \<noteq> Some (mg_url m)" and l: "ow_log w = []"
    and run: "turn_on m w = (r, w')"
  shows "case r of Inr _ \<Rightarrow> switched m (dk_url (ow_disk w)) (0 < failures w) (failures w) (view w')
    | Inl _ \<Rightarrow> fail_safe m (dk_url (ow_disk w)) (0 < failures w) (failures w) (view w')"
proof -
  have "unrouted m (dk_url (ow_disk w)) (0 < failures w) (failures w) (view w)"
    using l by (simp add: view_def good_original)
  then have "vc (turn_on m) (\<lambda>_. switched m (dk_url (ow_disk w)) (0 < failures w) (failures w))
      (\<lambda>_. fail_safe m (dk_url (ow_disk w)) (0 < failures w) (failures w)) (view w)"
    unfolding view_def by (intro vc_turn_on [OF m]) simp
  with run show ?thesis
    by (cases r) (auto dest: vcD_ok vcD_error simp del: switched.simps fail_safe.simps)
qed

lemma turn_on_keeps_good:
  assumes "loopback m" "dk_url (ow_disk w) \<noteq> Some (mg_url m)" "ow_log w = []" "turn_on m w = (r, w')"
    and "d \<in> set (ow_disk w' # ow_log w')"
  shows "good m (dk_url (ow_disk w)) (0 < failures w) d"
  using turn_on_outcome [OF assms(1-4)] assms(5)
  by (cases r) (auto simp: view_def list_all_iff)

section \<open>Examples\<close>

text \<open>A relay that answers and a world in which nothing fails, for concrete instances.\<close>

definition demo_manager :: manager where
  "demo_manager = \<lparr>mg_url = ''http://127.0.0.1:8768'', mg_home = ''home'', mg_identity = ''id''\<rparr>"

definition demo_reply :: reply where
  "demo_reply = \<lparr>rp_service = ''cachemonitor-model-observer'', rp_identity = ''id'', rp_status = ''ok'', rp_instance = ''i'',
     rp_version = PROXY_VERSION, rp_draining = False, rp_observing = True, rp_managed = True, rp_control_id = None, rp_pid = 1,
     rp_storage_streak = 0, rp_internal_streak = 0\<rparr>"

definition demo_world :: world where
  "demo_world = \<lparr>ow_disk = \<lparr>dk_url = Some OPENAI_URL, dk_file = Absent, dk_startup = None, dk_resume = None\<rparr>, ow_log = [],
     ow_provider = None, ow_tokens = True, ow_service_phase = None, ow_cutover = False, ow_busy = False, ow_scheduled = False,
     ow_health_state = Other_probe, ow_faults = [], ow_answers = replicate 8 (Reply demo_reply),
     ow_runtimes = [Some \<lparr>rt_home = ''home'', rt_url = ''http://127.0.0.1:8768'', rt_updated = 0, rt_phase = ''ready'',
        rt_instance = ''i'', rt_pid = 1\<rparr>], ow_cancels = [], ow_clock = []\<rparr>"

section \<open>Claims\<close>



text \<open>
  C10: Turning the proxy on either succeeds, and then the route is the relay with the enabled state and the
  original route recorded, or raises, and then the route is not the relay, or the failed recovery is recorded
  for the user, or the system failed at least twice.
\<close>

theorem turn_on_all_or_nothing:
  assumes "loopback m" and "dk_url (ow_disk w) \<noteq> Some (mg_url m)" and "ow_log w = []" and "turn_on m w = (r, w')"
  shows "case r of
      Inr _ \<Rightarrow> dk_url (ow_disk w') = Some (mg_url m) \<and> (\<exists>s. dk_file (ow_disk w') = Stored s \<and> os_enabled s \<and>
        os_phase s = Some Ph_active \<and> os_previous_url s = dk_url (ow_disk w))
    | Inl _ \<Rightarrow> dk_url (ow_disk w') \<noteq> Some (mg_url m) \<or> recorded (ow_disk w') \<or> failures w' + 2 \<le> failures w"
  using turn_on_outcome [OF assms] by (cases r) (auto simp: view_def)

theorem turn_on_all_or_nothing_witness:
  "(\<exists>x w'. turn_on demo_manager demo_world = (Inr x, w') \<and> dk_url (ow_disk w') = Some (mg_url demo_manager)) \<and>
   (\<exists>e w'. turn_on demo_manager (demo_world\<lparr>ow_cancels := [False, True, True]\<rparr>) = (Inl e, w') \<and>
      dk_url (ow_disk w') \<noteq> Some (mg_url demo_manager))"
proof -
  have m: "loopback demo_manager" "dk_url (ow_disk demo_world) \<noteq> Some (mg_url demo_manager)" "ow_log demo_world = []"
    by (simp_all add: demo_world_def demo_manager_def loopback_def OPENAI_URL_def CHATGPT_URL_def)
  obtain r w' where ok: "turn_on demo_manager demo_world = (r, w')" by fastforce
  have "isl (fst (turn_on demo_manager demo_world)) = False" by code_simp
  with ok obtain x where "r = Inr x" by (cases r) auto
  with turn_on_all_or_nothing [OF m ok] ok have 1: "\<exists>x w'. turn_on demo_manager demo_world = (Inr x, w') \<and>
      dk_url (ow_disk w') = Some (mg_url demo_manager)" by auto
  let ?w = "demo_world\<lparr>ow_cancels := [False, True, True]\<rparr>"
  have n: "dk_url (ow_disk ?w) \<noteq> Some (mg_url demo_manager)" "ow_log ?w = []" using m by simp_all
  obtain q v where bad: "turn_on demo_manager ?w = (q, v)" by fastforce
  have "isl (fst (turn_on demo_manager ?w))" by code_simp
  with bad obtain e where e: "q = Inl e" by (cases q) auto
  have "failures ?w = 0" by (simp add: failures_def demo_world_def)
  moreover have "\<not> recorded (ow_disk (snd (turn_on demo_manager ?w)))"
  proof -
    have "(case dk_file (ow_disk (snd (turn_on demo_manager ?w))) of Stored s \<Rightarrow> os_phase s = Some Ph_off | _ \<Rightarrow> False)" by code_simp
    then show ?thesis by (auto simp: recorded_def)
  qed
  ultimately show ?thesis
    using 1 turn_on_all_or_nothing [OF m(1) n bad] bad e by auto
qed

text \<open>
  C21: A server the user configured himself is never replaced, not even for a moment: in every disk of a run
  that turns the proxy on the entry is the user's.
\<close>

theorem custom_server_kept:
  assumes "loopback m" and "\<not> replaceable m (dk_url (ow_disk w))" and "ow_log w = []" and "turn_on m w = (r, w')"
    and "d \<in> set (ow_disk w' # ow_log w')"
  shows "dk_url d = dk_url (ow_disk w)"
proof -
  have "dk_url (ow_disk w) \<noteq> Some (mg_url m)" using assms(2) by (auto simp: replaceable_def)
  from turn_on_keeps_good [OF assms(1) this assms(3-5)] assms(2)
  show ?thesis by (simp add: good_def direct_form_def)
qed

theorem custom_server_kept_witness:
  "dk_url (ow_disk (snd (turn_on demo_manager
      (demo_world\<lparr>ow_disk := \<lparr>dk_url = Some ''https://my.server'', dk_file = Absent, dk_startup = None, dk_resume = Some True\<rparr>\<rparr>))))
    = Some ''https://my.server''"
proof -
  let ?w = "demo_world\<lparr>ow_disk := \<lparr>dk_url = Some ''https://my.server'', dk_file = Absent, dk_startup = None, dk_resume = Some True\<rparr>\<rparr>"
  have m: "loopback demo_manager" "\<not> replaceable demo_manager (dk_url (ow_disk ?w))" "ow_log ?w = []"
    by (simp_all add: demo_world_def demo_manager_def loopback_def replaceable_def OPENAI_URL_def CHATGPT_URL_def)
  obtain r w' where run: "turn_on demo_manager ?w = (r, w')" by fastforce
  from custom_server_kept [OF m run, of "ow_disk w'"] run show ?thesis by simp
qed

text \<open>
  C22: When the system works, recover_direct succeeds on any disk, with a missing or damaged state file too:
  the relay's entry is replaced by the recorded public address or removed, any other entry is left alone, the
  state is off and a later automatic resume is revoked.
\<close>

theorem recover_direct_settles:
  assumes "failures w = 0"
  shows "\<exists>x w'. recover_direct m w = (Inr x, w') \<and> dk_url (ow_disk w') = recovered_url m (ow_disk w) \<and>
    resumes_off (ow_disk w') \<and> settled_off (ow_disk w')"
proof -
  have vc: "vc (recover_direct m) (\<lambda>_ (e, l', k). dk_url e = recovered_url m (ow_disk w) \<and> resumes_off e \<and> settled_off e)
      (\<lambda>_ _. False) (view w)"
    using vc_recover_settles [of m "ow_disk w" "ow_log w"] assms by (simp add: view_def)
  obtain r w' where run: "recover_direct m w = (r, w')" by fastforce
  show ?thesis
  proof (cases r)
    case (Inl e)
    from vcD_error [OF vc run [unfolded Inl]] show ?thesis by simp
  next
    case (Inr x)
    from vcD_ok [OF vc run [unfolded Inr]] run Inr show ?thesis by (simp add: view_def)
  qed
qed

theorem recover_direct_settles_witness:
  "\<exists>x w'. recover_direct demo_manager (demo_world\<lparr>ow_disk := \<lparr>dk_url = Some (mg_url demo_manager), dk_file = Foreign,
      dk_startup = None, dk_resume = Some True\<rparr>\<rparr>) = (Inr x, w') \<and> dk_url (ow_disk w') = None"
proof -
  let ?w = "demo_world\<lparr>ow_disk := \<lparr>dk_url = Some (mg_url demo_manager), dk_file = Foreign, dk_startup = None, dk_resume = Some True\<rparr>\<rparr>"
  have "failures ?w = 0" by (simp add: failures_def demo_world_def)
  from recover_direct_settles [OF this, of demo_manager] obtain x w' where
    "recover_direct demo_manager ?w = (Inr x, w')" "dk_url (ow_disk w') = recovered_url demo_manager (ow_disk ?w)" by blast
  moreover have "recovered_url demo_manager (ow_disk ?w) = None"
    by (simp add: recovered_url_def restored_url_def recorded_previous_def)
  ultimately show ?thesis by (intro exI conjI) (assumption, simp only:)
qed

end
