(* ===== verification/Json.thy ===== *)
theory Json
  imports Pydict "HOL-Library.List_Lexorder"
begin

text \<open>
  Python's \<open>json\<close> module as the codecs use it: \<open>dumps\<close> with the separators \<open>(',', ':')\<close>, with
  and without \<open>ensure_ascii\<close>, and \<open>loads\<close>, of text and of UTF-8 bytes. Text is Latin-1: an
  escape of a larger code point is no text of the model and is rejected like bad input. The
  printing and the reading of floating point numbers are parameters. The limits that CPython
  puts on the nesting depth and on the digits of an integer are not modelled.
\<close>

section \<open>Writing\<close>

definition hex_digit :: "nat \<Rightarrow> char" where
  "hex_digit n = (if n < 10 then char_of (48 + n) else char_of (87 + n))"

definition escape_char :: "bool \<Rightarrow> char \<Rightarrow> string" where
  "escape_char ascii c = (let n = of_char c :: nat in
     if c = CHR 0x22 \<or> c = CHR 0x5C then [CHR 0x5C, c]
     else if n = 10 then [CHR 0x5C, CHR ''n'']
     else if n = 13 then [CHR 0x5C, CHR ''r'']
     else if n = 9 then [CHR 0x5C, CHR ''t'']
     else if n = 12 then [CHR 0x5C, CHR ''f'']
     else if n = 8 then [CHR 0x5C, CHR ''b'']
     else if n < 32 \<or> ascii \<and> n > 126 then
       [CHR 0x5C, CHR ''u'', CHR ''0'', CHR ''0'', hex_digit (n div 16), hex_digit (n mod 16)]
     else [c])"

definition quoted :: "bool \<Rightarrow> string \<Rightarrow> string" where
  "quoted ascii s = CHR 0x22 # concat (map (escape_char ascii) s) @ [CHR 0x22]"

definition int_text :: "int \<Rightarrow> string" where
  "int_text i = (if i < 0 then CHR ''-'' # digits (nat (- i)) else digits (nat i))"

fun dumps :: "bool \<Rightarrow> (rat \<Rightarrow> string) \<Rightarrow> pyval \<Rightarrow> string"
  and dumps_items :: "bool \<Rightarrow> (rat \<Rightarrow> string) \<Rightarrow> pyval list \<Rightarrow> string"
  and dumps_members :: "bool \<Rightarrow> (rat \<Rightarrow> string) \<Rightarrow> pydict \<Rightarrow> string" where
  "dumps a f PNone = ''null''"
| "dumps a f (PBool b) = (if b then ''true'' else ''false'')"
| "dumps a f (PInt i) = int_text i"
| "dumps a f (PFloat q) = f q"
| "dumps a f (PNonFinite x) = (case x of NaN \<Rightarrow> ''NaN'' | PosInf \<Rightarrow> ''Infinity'' | NegInf \<Rightarrow> ''-Infinity'')"
| "dumps a f (PStr s) = quoted a s"
| "dumps a f (PList xs) = CHR ''['' # dumps_items a f xs @ '']''"
| "dumps a f (PDict d) = CHR ''{'' # dumps_members a f d @ ''}''"
| "dumps_items a f [] = []"
| "dumps_items a f [x] = dumps a f x"
| "dumps_items a f (x # y # xs) = dumps a f x @ CHR '','' # dumps_items a f (y # xs)"
| "dumps_members a f [] = []"
| "dumps_members a f [(k, x)] = quoted a k @ CHR '':'' # dumps a f x"
| "dumps_members a f ((k, x) # y # d) = quoted a k @ CHR '':'' # dumps a f x @ CHR '','' # dumps_members a f (y # d)"

section \<open>Reading\<close>

definition is_digit :: "char \<Rightarrow> bool" where
  "is_digit c = (48 \<le> (of_char c :: nat) \<and> (of_char c :: nat) \<le> 57)"

definition is_blank :: "char \<Rightarrow> bool" where
  "is_blank c = (c \<in> {CHR '' '', CHR 0x09, CHR 0x0A, CHR 0x0D})"

definition skip :: "string \<Rightarrow> string" where
  "skip s = dropWhile is_blank s"

definition hex_value :: "char \<Rightarrow> nat option" where
  "hex_value c = (let n = of_char c :: nat in
     if 48 \<le> n \<and> n \<le> 57 then Some (n - 48)
     else if 97 \<le> n \<and> n \<le> 102 then Some (n - 87)
     else if 65 \<le> n \<and> n \<le> 70 then Some (n - 55) else None)"

definition hex4 :: "char \<Rightarrow> char \<Rightarrow> char \<Rightarrow> char \<Rightarrow> nat option" where
  "hex4 a b c d = (case (hex_value a, hex_value b, hex_value c, hex_value d) of
     (Some w, Some x, Some y, Some z) \<Rightarrow> Some (((w * 16 + x) * 16 + y) * 16 + z) | _ \<Rightarrow> None)"

definition simple_escape :: "char \<Rightarrow> char option" where
  "simple_escape c = map_of [(CHR 0x22, CHR 0x22), (CHR 0x5C, CHR 0x5C), (CHR ''/'', CHR ''/''), (CHR ''b'', CHR 0x08),
     (CHR ''f'', CHR 0x0C), (CHR ''n'', CHR 0x0A), (CHR ''r'', CHR 0x0D), (CHR ''t'', CHR 0x09)] c"

text \<open>The rest of a string literal, after its opening quote.\<close>

fun scan_string :: "string \<Rightarrow> (string \<times> string) option" where
  "scan_string [] = None"
| "scan_string (c # s) =
    (if c = CHR 0x22 then Some ([], s)
     else if c = CHR 0x5C then
       (case s of
          [] \<Rightarrow> None
        | e # t \<Rightarrow>
          if e = CHR ''u'' then
            (case t of p # q # v # w # r \<Rightarrow>
               (case hex4 p q v w of
                  Some n \<Rightarrow> if n < 256 then map_option (\<lambda>(x, z). (char_of n # x, z)) (scan_string r) else None
                | None \<Rightarrow> None)
             | _ \<Rightarrow> None)
          else (case simple_escape e of
              Some d \<Rightarrow> map_option (\<lambda>(x, z). (d # x, z)) (scan_string t)
            | None \<Rightarrow> None))
     else if (of_char c :: nat) < 32 then None
     else map_option (\<lambda>(x, z). (c # x, z)) (scan_string s))"

definition lex_natural :: "string \<Rightarrow> (string \<times> string) option" where
  "lex_natural s = (case s of
      c # t \<Rightarrow> if c = CHR ''0'' then Some ([c], t)
               else if is_digit c then Some (c # takeWhile is_digit t, dropWhile is_digit t) else None
    | [] \<Rightarrow> None)"

definition lex_int :: "string \<Rightarrow> (string \<times> string) option" where
  "lex_int s = (case s of
      c # t \<Rightarrow> if c = CHR ''-'' then map_option (\<lambda>(x, r). (c # x, r)) (lex_natural t) else lex_natural s
    | [] \<Rightarrow> None)"

definition lex_fraction :: "string \<Rightarrow> string \<times> string" where
  "lex_fraction s = (case s of
      c # t \<Rightarrow> if c = CHR ''.'' \<and> takeWhile is_digit t \<noteq> [] then (c # takeWhile is_digit t, dropWhile is_digit t) else ([], s)
    | [] \<Rightarrow> ([], s))"

definition exponent_sign :: "string \<Rightarrow> string \<times> string" where
  "exponent_sign t = (case t of d # u \<Rightarrow> if d = CHR ''+'' \<or> d = CHR ''-'' then ([d], u) else ([], t) | [] \<Rightarrow> ([], t))"

definition lex_exponent :: "string \<Rightarrow> string \<times> string" where
  "lex_exponent s = (case s of
      c # t \<Rightarrow>
        (let (sign, u) = exponent_sign t
         in if (c = CHR ''e'' \<or> c = CHR ''E'') \<and> takeWhile is_digit u \<noteq> []
            then (c # sign @ takeWhile is_digit u, dropWhile is_digit u) else ([], s))
    | [] \<Rightarrow> ([], s))"

text \<open>A number: its text, whether it is a floating point number, and the rest.\<close>

definition lex_number :: "string \<Rightarrow> (string \<times> bool \<times> string) option" where
  "lex_number s = (case lex_int s of
      None \<Rightarrow> None
    | Some (i, r) \<Rightarrow>
        (let (f, r1) = lex_fraction r; (e, r2) = lex_exponent r1
         in Some (i @ f @ e, f \<noteq> [] \<or> e \<noteq> [], r2)))"

definition nat_value :: "string \<Rightarrow> nat" where
  "nat_value s = foldl (\<lambda>n c. 10 * n + (of_char c - 48)) 0 s"

definition int_value :: "string \<Rightarrow> int" where
  "int_value s = (case s of
      c # t \<Rightarrow> if c = CHR ''-'' then - int (nat_value t) else int (nat_value s) | [] \<Rightarrow> 0)"

fun strip :: "string \<Rightarrow> string \<Rightarrow> string option" where
  "strip [] s = Some s"
| "strip (p # ps) (c # s) = (if p = c then strip ps s else None)"
| "strip _ [] = None"

fun literal :: "(string \<times> pyval) list \<Rightarrow> string \<Rightarrow> (pyval \<times> string) option" where
  "literal [] s = None"
| "literal ((w, v) # ws) s = (case strip w s of Some r \<Rightarrow> Some (v, r) | None \<Rightarrow> literal ws s)"

definition LITERALS :: "(string \<times> pyval) list" where
  "LITERALS = [(''null'', PNone), (''true'', PBool True), (''false'', PBool False), (''NaN'', PNonFinite NaN),
     (''Infinity'', PNonFinite PosInf), (''-Infinity'', PNonFinite NegInf)]"

definition scalar :: "(string \<Rightarrow> pyval) \<Rightarrow> string \<Rightarrow> (pyval \<times> string) option" where
  "scalar rd s = (case literal LITERALS s of
      Some x \<Rightarrow> Some x
    | None \<Rightarrow> map_option (\<lambda>(t, fl, r). (if fl then rd t else PInt (int_value t), r)) (lex_number s))"

fun jvalue :: "(string \<Rightarrow> pyval) \<Rightarrow> nat \<Rightarrow> string \<Rightarrow> (pyval \<times> string) option"
  and jitems :: "(string \<Rightarrow> pyval) \<Rightarrow> nat \<Rightarrow> string \<Rightarrow> (pyval list \<times> string) option"
  and jmembers :: "(string \<Rightarrow> pyval) \<Rightarrow> nat \<Rightarrow> string \<Rightarrow> (pydict \<times> string) option" where
  "jvalue rd 0 s = None"
| "jvalue rd (Suc n) [] = None"
| "jvalue rd (Suc n) (c # t) =
    (if c = CHR 0x22 then map_option (\<lambda>(x, r). (PStr x, r)) (scan_string t)
     else if c = CHR ''['' then
       (case strip '']'' (skip t) of
          Some r \<Rightarrow> Some (PList [], r)
        | None \<Rightarrow> map_option (\<lambda>(xs, r). (PList xs, r)) (jitems rd n (skip t)))
     else if c = CHR ''{'' then
       (case strip ''}'' (skip t) of
          Some r \<Rightarrow> Some (PDict [], r)
        | None \<Rightarrow> map_option (\<lambda>(d, r). (PDict (dmerge [] d), r)) (jmembers rd n (skip t)))
     else scalar rd (c # t))"
| "jitems rd 0 s = None"
| "jitems rd (Suc n) s =
    (case jvalue rd n s of
       None \<Rightarrow> None
     | Some (x, r) \<Rightarrow>
        (case strip '','' (skip r) of
           Some q \<Rightarrow> map_option (\<lambda>(xs, z). (x # xs, z)) (jitems rd n (skip q))
         | None \<Rightarrow> map_option (\<lambda>q. ([x], q)) (strip '']'' (skip r))))"
| "jmembers rd 0 s = None"
| "jmembers rd (Suc n) s =
    (case strip [CHR 0x22] s of
       None \<Rightarrow> None
     | Some t \<Rightarrow>
        (case scan_string t of
           None \<Rightarrow> None
         | Some (k, r) \<Rightarrow>
            (case strip '':'' (skip r) of
               None \<Rightarrow> None
             | Some q \<Rightarrow>
                (case jvalue rd n (skip q) of
                   None \<Rightarrow> None
                 | Some (x, u) \<Rightarrow>
                    (case strip '','' (skip u) of
                       Some w \<Rightarrow> map_option (\<lambda>(d, z). ((k, x) # d, z)) (jmembers rd n (skip w))
                     | None \<Rightarrow> map_option (\<lambda>w. ([(k, x)], w)) (strip ''}'' (skip u)))))))"

text \<open>\<open>json.loads\<close> of a text; \<open>None\<close> is the \<open>ValueError\<close>.\<close>

definition loads :: "(string \<Rightarrow> pyval) \<Rightarrow> string \<Rightarrow> pyval option" where
  "loads rd s = (case jvalue rd (2 * length s + 1) (skip s) of
      Some (x, r) \<Rightarrow> if skip r = [] then Some x else None
    | None \<Rightarrow> None)"


section \<open>The fuel is enough\<close>

lemma strip_split: "strip p s = Some r \<longleftrightarrow> s = p @ r"
  by (induction p s rule: strip.induct) auto

lemma skip_length: "length (skip s) \<le> length s"
  by (simp add: skip_def length_dropWhile_le)

lemma map_first_Some:
  "map_option (\<lambda>(x, z). (f x, z)) m = Some (y, r) \<longleftrightarrow> (\<exists>x. m = Some (x, r) \<and> y = f x)"
  by (cases m) auto

lemma scan_string_length: "scan_string s = Some (x, r) \<Longrightarrow> length r < length s"
proof (induction "length s" arbitrary: s x r rule: less_induct)
  case less
  have IH: "scan_string t = Some (y, q) \<Longrightarrow> length t < length s \<Longrightarrow> length q < length s" for t y q
    using less.hyps by (meson less_trans)
  show ?case
  proof (cases s)
    case (Cons c u)
    consider "c = CHR 0x22" | "c \<noteq> CHR 0x22" "c = CHR 0x5C" | "c \<noteq> CHR 0x22" "c \<noteq> CHR 0x5C" by blast
    then show ?thesis
    proof cases
      case 1
      with less.prems Cons show ?thesis by simp
    next
      case 2
      with less.prems Cons obtain e v where u: "u = e # v" by (cases u) simp_all
      show ?thesis
      proof (cases "e = CHR ''u''")
        case True
        with less.prems Cons 2 u obtain p q w z t n y where "v = p # q # w # z # t" "scan_string t = Some (y, r)"
          by (auto simp: map_first_Some split: list.splits option.splits if_splits)
        with IH [of t y r] Cons u show ?thesis by simp
      next
        case False
        with less.prems Cons 2 u obtain y where "scan_string v = Some (y, r)"
          by (auto simp: map_first_Some split: option.splits)
        with IH [of v y r] Cons u show ?thesis by simp
      qed
    next
      case 3
      with less.prems Cons obtain y where "scan_string u = Some (y, r)"
        by (auto simp: map_first_Some split: if_splits)
      with IH [of u y r] Cons show ?thesis by simp
    qed
  qed (use less.prems in simp)
qed

lemma literal_Some: "literal ws s = Some (v, r) \<Longrightarrow> \<exists>w. (w, v) \<in> set ws \<and> s = w @ r"
proof (induction ws s rule: literal.induct)
  case (2 w y ws s)
  show ?case
  proof (cases "strip w s")
    case None
    with 2 show ?thesis by auto
  next
    case (Some q)
    with 2(2) have "y = v" "s = w @ r" by (simp_all add: strip_split)
    then show ?thesis by auto
  qed
qed simp

lemma literal_length: "literal LITERALS s = Some (v, r) \<Longrightarrow> length r < length s"
  by (drule literal_Some) (auto simp: LITERALS_def)

lemma lex_natural_length: "lex_natural s = Some (x, r) \<Longrightarrow> length r < length s"
  by (auto simp: lex_natural_def less_Suc_eq_le length_dropWhile_le split: list.splits if_splits)

lemma lex_int_length: "lex_int s = Some (x, r) \<Longrightarrow> length r < length s"
  by (auto simp: lex_int_def map_first_Some dest!: lex_natural_length split: list.splits if_splits)

lemma lex_fraction_length: "length (snd (lex_fraction s)) \<le> length s"
  by (auto simp: lex_fraction_def le_Suc_eq length_dropWhile_le split: list.split)

lemma exponent_sign_length: "length (snd (exponent_sign s)) \<le> length s"
  by (auto simp: exponent_sign_def split: list.split)

lemma lex_exponent_length: "length (snd (lex_exponent s)) \<le> length s"
proof (cases s)
  case (Cons c t)
  have "length (dropWhile is_digit (snd (exponent_sign t))) \<le> length t"
    by (rule le_trans [OF length_dropWhile_le exponent_sign_length])
  with Cons show ?thesis by (auto simp: lex_exponent_def split: prod.split)
qed (simp add: lex_exponent_def)

lemma lex_number_length: "lex_number s = Some (x, b, r) \<Longrightarrow> length r < length s"
proof -
  assume a: "lex_number s = Some (x, b, r)"
  then obtain i q where i: "lex_int s = Some (i, q)" by (auto simp: lex_number_def split: option.splits)
  with a have "r = snd (lex_exponent (snd (lex_fraction q)))"
    by (auto simp: lex_number_def split: prod.splits)
  then have "length r \<le> length q" using lex_exponent_length lex_fraction_length le_trans by blast
  with lex_int_length [OF i] show ?thesis by simp
qed

lemma scalar_length: "scalar rd s = Some (x, r) \<Longrightarrow> length r < length s"
proof -
  assume a: "scalar rd s = Some (x, r)"
  show ?thesis
  proof (cases "literal LITERALS s")
    case None
    with a obtain t b where "lex_number s = Some (t, b, r)" by (auto simp: scalar_def)
    then show ?thesis by (rule lex_number_length)
  next
    case (Some l)
    with a have "literal LITERALS s = Some (x, r)" by (simp add: scalar_def)
    then show ?thesis by (rule literal_length)
  qed
qed

lemma strip1_length: "strip [c] (skip s) = Some r \<Longrightarrow> length r < length s"
  using skip_length [of s] by (simp add: strip_split)

lemma parse_length:
  "jvalue rd n s = Some (x, r) \<Longrightarrow> length r < length s"
  "jitems rd n s = Some (xs, r) \<Longrightarrow> length r < length s"
  "jmembers rd n s = Some (d, r) \<Longrightarrow> length r < length s"
proof (induction rd n s and rd n s and rd n s arbitrary: x r and xs r and d r rule: jvalue_jitems_jmembers.induct)
  case (3 rd n c t)
  consider "c = CHR 0x22" | "c \<noteq> CHR 0x22" "c = CHR ''[''" | "c \<noteq> CHR 0x22" "c \<noteq> CHR ''[''" "c = CHR ''{''"
    | "c \<noteq> CHR 0x22" "c \<noteq> CHR ''[''" "c \<noteq> CHR ''{''" by blast
  then show ?case
  proof cases
    case 1
    with 3(3) show ?thesis by (auto simp: map_first_Some dest: scan_string_length)
  next
    case 2
    show ?thesis
    proof (cases "strip '']'' (skip t)")
      case None
      with 2 3(3) obtain xs where "jitems rd n (skip t) = Some (xs, r)" by (auto simp: map_first_Some)
      with 3(1) [OF 2 None] skip_length [of t] show ?thesis by fastforce
    next
      case (Some q)
      with 2 3(3) strip1_length [OF Some] show ?thesis by simp
    qed
  next
    case c: 3
    show ?thesis
    proof (cases "strip ''}'' (skip t)")
      case None
      with c 3(3) obtain d where "jmembers rd n (skip t) = Some (d, r)" by (auto simp: map_first_Some)
      with 3(2) [OF c None] skip_length [of t] show ?thesis by fastforce
    next
      case (Some q)
      with c 3(3) strip1_length [OF Some] show ?thesis by simp
    qed
  next
    case 4
    with 3(3) have "scalar rd (c # t) = Some (x, r)" by simp
    then show ?thesis by (rule scalar_length)
  qed
next
  case (5 rd n s)
  from 5(3) obtain y u where 1: "jvalue rd n s = Some (y, u)" by (auto split: option.splits)
  have u: "length u < length s" by (rule 5(1) [OF 1])
  show ?case
  proof (cases "strip '','' (skip u)")
    case None
    with 5(3) 1 have "strip '']'' (skip u) = Some r" by auto
    with strip1_length u show ?thesis by fastforce
  next
    case (Some q)
    with 5(3) 1 obtain ys where "jitems rd n (skip q) = Some (ys, r)" by (auto simp: map_first_Some)
    with 5(2) [OF 1 refl Some] strip1_length [OF Some] skip_length [of q] u show ?thesis by fastforce
  qed
next
  case (7 rd n s)
  show ?case
  proof -
    from 7(3) obtain t k q where 1: "strip [CHR 0x22] s = Some t" "scan_string t = Some (k, q)"
      by (auto split: option.splits)
    with 7(3) obtain u y w where 2: "strip '':'' (skip q) = Some u" "jvalue rd n (skip u) = Some (y, w)"
      by (auto split: option.splits)
    have l: "length w < length s"
      using 1(1) scan_string_length [OF 1(2)] strip1_length [OF 2(1)] skip_length [of u] 7(1) [OF 1(1) 1(2) refl 2(1,2)]
      by (simp add: strip_split)
    show ?thesis
    proof (cases "strip '','' (skip w)")
      case None
      with 7(3) 1 2 have "strip ''}'' (skip w) = Some r" by auto
      with strip1_length l show ?thesis by fastforce
    next
      case (Some v)
      with 7(3) 1 2 obtain e where "jmembers rd n (skip v) = Some (e, r)" by auto
      with 7(2) [OF 1(1) 1(2) refl 2 refl Some] strip1_length [OF Some] skip_length [of v] l show ?thesis by fastforce
    qed
  qed
qed simp_all

lemma parse_fuel:
  "(2 * length s < n \<longrightarrow> 2 * length s < m \<longrightarrow> jvalue rd n s = jvalue rd m s) \<and>
   (2 * length s + 1 < n \<longrightarrow> 2 * length s + 1 < m \<longrightarrow> jitems rd n s = jitems rd m s) \<and>
   (2 * length s < n \<longrightarrow> 2 * length s < m \<longrightarrow> jmembers rd n s = jmembers rd m s)"
proof (induction n arbitrary: m s)
  case (Suc n)
  note v = Suc [THEN conjunct1, rule_format] and i = Suc [THEN conjunct2, THEN conjunct1, rule_format]
    and d = Suc [THEN conjunct2, THEN conjunct2, rule_format]
  have 1: "jvalue rd (Suc n) s = jvalue rd m s" if "2 * length s < Suc n" "2 * length s < m"
  proof (cases s)
    case Nil
    with that show ?thesis by (cases m) simp_all
  next
    case (Cons c t)
    with that obtain k where m: "m = Suc k" "2 * length t + 1 < k" "2 * length t + 1 < n" by (cases m) auto
    then have "jitems rd n (skip t) = jitems rd k (skip t)" "jmembers rd n (skip t) = jmembers rd k (skip t)"
      using skip_length [of t] by (auto intro!: i d)
    then show ?thesis by (simp add: m(1) Cons split: option.split)
  qed
  have 2: "jitems rd (Suc n) s = jitems rd m s" if "2 * length s + 1 < Suc n" "2 * length s + 1 < m"
  proof -
    from that obtain k where m: "m = Suc k" "2 * length s < k" "2 * length s < n" by (cases m) auto
    have "jvalue rd n s = jvalue rd k s" by (rule v) (use m in auto)
    moreover have "jitems rd n (skip q) = jitems rd k (skip q)"
      if "jvalue rd k s = Some (y, u)" "strip '','' (skip u) = Some q" for y u q
      by (rule i) (use m parse_length(1) [OF that(1)] strip1_length [OF that(2)] skip_length [of q] in auto)
    ultimately show ?thesis by (auto simp: m(1) split: option.split)
  qed
  have 3: "jmembers rd (Suc n) s = jmembers rd m s" if "2 * length s < Suc n" "2 * length s < m"
  proof -
    from that obtain k where m: "m = Suc k" "2 * length s \<le> k" "2 * length s \<le> n" by (cases m) auto
    have q: "length q < length s" if "strip [CHR 0x22] s = Some u" "scan_string u = Some (x, r)" "strip '':'' (skip r) = Some q"
      for u x r q
      using that(1) scan_string_length [OF that(2)] strip1_length [OF that(3)] by (simp add: strip_split)
    have "jvalue rd n (skip q) = jvalue rd k (skip q)"
      if "strip [CHR 0x22] s = Some u" "scan_string u = Some (x, r)" "strip '':'' (skip r) = Some q" for u x r q
      by (rule v) (use m q [OF that] skip_length [of q] in auto)
    moreover have "jmembers rd n (skip w) = jmembers rd k (skip w)"
      if a: "strip [CHR 0x22] s = Some u" "scan_string u = Some (x, r)" "strip '':'' (skip r) = Some q"
        and b: "jvalue rd k (skip q) = Some (y, z)" "strip '','' (skip z) = Some w" for u x r q y z w
      by (rule d) (use m q [OF a] skip_length [of q] parse_length(1) [OF b(1)] strip1_length [OF b(2)] skip_length [of w] in auto)
    ultimately show ?thesis by (auto simp: m(1) split: option.split)
  qed
  from 1 2 3 show ?case by blast
qed simp

text \<open>More fuel than \<^const>\<open>loads\<close> takes changes nothing.\<close>

lemma loads_fuel:
  "2 * length s < n \<Longrightarrow> loads rd s = (case jvalue rd n (skip s) of
      Some (x, r) \<Rightarrow> if skip r = [] then Some x else None | None \<Rightarrow> None)"
proof -
  assume n: "2 * length s < n"
  have "jvalue rd (2 * length s + 1) (skip s) = jvalue rd n (skip s)"
    using parse_fuel [of "skip s" "2 * length s + 1" n rd] n skip_length [of s] by simp
  then show ?thesis by (simp add: loads_def)
qed

section \<open>Reading what was written\<close>

definition stops :: "string \<Rightarrow> bool" where
  "stops s = (case s of [] \<Rightarrow> True | c # t \<Rightarrow> \<not> is_digit c \<and> c \<noteq> CHR ''.'' \<and> c \<noteq> CHR ''e'' \<and> c \<noteq> CHR ''E'' \<and>
     c \<noteq> CHR ''+'' \<and> c \<noteq> CHR ''-'')"

text \<open>\<open>f\<close> prints a floating point number as Python does: as one number token with the value.\<close>

definition prints_float :: "(string \<Rightarrow> pyval) \<Rightarrow> (rat \<Rightarrow> string) \<Rightarrow> rat \<Rightarrow> bool" where
  "prints_float rd f q = (lex_number (f q) = Some (f q, True, []) \<and> rd (f q) = PFloat q)"

fun json_ok :: "(string \<Rightarrow> pyval) \<Rightarrow> (rat \<Rightarrow> string) \<Rightarrow> pyval \<Rightarrow> bool" where
  "json_ok rd f (PFloat q) = prints_float rd f q"
| "json_ok rd f (PList xs) = list_all (json_ok rd f) xs"
| "json_ok rd f (PDict d) = (distinct (map fst d) \<and> list_all (\<lambda>(k, x). json_ok rd f x) d)"
| "json_ok rd f _ = True"

lemma hex_value_digit [simp]: "n < 16 \<Longrightarrow> hex_value (hex_digit n) = Some n"
  by (simp add: hex_value_def hex_digit_def Let_def)

lemma hex4_byte: "n < 256 \<Longrightarrow> hex4 (CHR ''0'') (CHR ''0'') (hex_digit (n div 16)) (hex_digit (n mod 16)) = Some n"
proof -
  assume "n < 256"
  then have "n div 16 < 16" "n mod 16 < 16" by auto
  moreover have "hex_value (CHR ''0'') = Some 0" by (simp add: hex_value_def)
  ultimately show ?thesis by (simp add: hex4_def)
qed

lemma char_codes:
  "((of_char c :: nat) = 10) = (c = CHR 0x0A)" "((of_char c :: nat) = 13) = (c = CHR 0x0D)"
  "((of_char c :: nat) = 9) = (c = CHR 0x09)" "((of_char c :: nat) = 12) = (c = CHR 0x0C)"
  "((of_char c :: nat) = 8) = (c = CHR 0x08)"
  using of_char_eq_iff [of c "CHR 0x0A", where 'a = nat] of_char_eq_iff [of c "CHR 0x0D", where 'a = nat]
    of_char_eq_iff [of c "CHR 0x09", where 'a = nat] of_char_eq_iff [of c "CHR 0x0C", where 'a = nat]
    of_char_eq_iff [of c "CHR 0x08", where 'a = nat] by simp_all

lemma scan_escape: "scan_string (escape_char a c @ u) = map_option (\<lambda>(x, z). (c # x, z)) (scan_string u)"
proof -
  let ?n = "of_char c :: nat"
  have n: "?n < 256" by simp
  have c: "c = char_of ?n" by simp
  consider "c = CHR 0x22" | "c = CHR 0x5C" | "c \<noteq> CHR 0x22" "c \<noteq> CHR 0x5C" by blast
  then show ?thesis
  proof cases
    case 3
    consider "?n = 10" | "?n = 13" | "?n = 9" | "?n = 12" | "?n = 8"
      | "?n \<noteq> 10" "?n \<noteq> 13" "?n \<noteq> 9" "?n \<noteq> 12" "?n \<noteq> 8" by blast
    then show ?thesis
    proof cases
      case 6
      then show ?thesis
      proof (cases "?n < 32 \<or> a \<and> ?n > 126")
        case True
        with 3 6 n show ?thesis by (simp add: escape_char_def Let_def hex4_byte del: of_char_of)
      qed (use 3 6 in \<open>auto simp: escape_char_def Let_def\<close>)
    qed (simp_all add: char_codes escape_char_def simple_escape_def)
  qed (simp_all add: escape_char_def Let_def simple_escape_def)
qed

lemma scan_quoted: "scan_string (concat (map (escape_char a) s) @ CHR 0x22 # r) = Some (s, r)"
  by (induction s) (simp_all add: scan_escape)

lemma digits_digits: "list_all is_digit (digits n)"
proof (induction n rule: digits.induct)
  case (1 n)
  have d: "is_digit (char_of (48 + k))" if "k < 10" for k :: nat
    using that by (simp add: is_digit_def)
  show ?case by (subst digits.simps) (use 1 d [of n] d [of "n mod 10"] in \<open>simp del: digits.simps\<close>)
qed

lemma digits_Cons: "\<exists>c t. digits n = c # t \<and> is_digit c \<and> (c = CHR ''0'' \<longrightarrow> n = 0 \<and> t = [])"
proof (induction n rule: digits.induct)
  case (1 n)
  show ?case
  proof (cases "n < 10")
    case True
    moreover have "char_of (48 + n) = CHR ''0'' \<Longrightarrow> n = 0"
    proof -
      assume "char_of (48 + n) = CHR ''0''"
      then have "(of_char (char_of (48 + n) :: char) :: nat) = of_char (CHR ''0'')" by (simp only:)
      with True show "n = 0" by simp
    qed
    ultimately show ?thesis by (simp add: is_digit_def)
  next
    case False
    with 1 obtain c t where "digits (n div 10) = c # t" "is_digit c" "c = CHR ''0'' \<longrightarrow> n div 10 = 0 \<and> t = []" by blast
    with False show ?thesis by (subst digits.simps) (auto simp del: digits.simps)
  qed
qed

lemma nat_value_snoc [simp]: "nat_value (s @ [c]) = 10 * nat_value s + (of_char c - 48)"
  by (simp add: nat_value_def)

lemma nat_value_digits: "nat_value (digits n) = n"
proof (induction n rule: digits.induct)
  case (1 n)
  show ?case
  proof (cases "n < 10")
    case True
    then show ?thesis by (simp add: nat_value_def)
  next
    case False
    have "nat_value (digits n) = 10 * nat_value (digits (n div 10)) + n mod 10"
      by (subst digits.simps) (use False in \<open>simp del: digits.simps\<close>)
    with 1 False show ?thesis by (simp del: digits.simps)
  qed
qed

declare digits.simps [simp del]

lemma take_digits: "list_all is_digit s \<Longrightarrow> stops r \<Longrightarrow> takeWhile is_digit (s @ r) = s \<and> dropWhile is_digit (s @ r) = r"
  by (induction s) (auto simp: stops_def split: list.splits)

lemma lex_rest:
  assumes "stops r"
  shows "lex_fraction r = ([], r)" and "lex_exponent r = ([], r)"
  using assms by (auto simp: lex_fraction_def lex_exponent_def stops_def split: list.splits prod.split)

lemma lex_digits: "stops r \<Longrightarrow> lex_natural (digits n @ r) = Some (digits n, r)"
proof -
  assume r: "stops r"
  obtain c t where d: "digits n = c # t" "is_digit c" "c = CHR ''0'' \<longrightarrow> n = 0 \<and> t = []" using digits_Cons by blast
  have "list_all is_digit t" using digits_digits [of n] d(1) by simp
  then show ?thesis using d take_digits [of t r] r by (auto simp: lex_natural_def)
qed

lemma lex_int_text: "stops r \<Longrightarrow> lex_int (int_text i @ r) = Some (int_text i, r)"
proof -
  assume r: "stops r"
  obtain c t where d: "digits (nat i) = c # t" "is_digit c" using digits_Cons by blast
  have "c \<noteq> CHR ''-''" using d(2) by (auto simp: is_digit_def)
  with lex_digits [OF r, of "nat (- i)"] lex_digits [OF r, of "nat i"] d(1) show ?thesis
    by (auto simp: int_text_def lex_int_def)
qed

lemma int_value_text: "int_value (int_text i) = i"
proof (cases "i < 0")
  case True
  then show ?thesis by (simp add: int_text_def int_value_def nat_value_digits)
next
  case False
  obtain c t where d: "digits (nat i) = c # t" "is_digit c" using digits_Cons by blast
  then have "c \<noteq> CHR ''-''" by (auto simp: is_digit_def)
  with False d nat_value_digits [of "nat i"] show ?thesis by (simp add: int_text_def int_value_def)
qed

lemma lex_text_rest:
  assumes "lex_number s = Some (x, b, [])" and "stops r"
  shows "lex_number (s @ r) = Some (x, b, r)"
proof -
  have tw: "takeWhile is_digit (u @ r) = takeWhile is_digit u \<and> dropWhile is_digit (u @ r) = dropWhile is_digit u @ r" for u
    using assms(2) by (induction u) (auto simp: stops_def split: list.splits)
  have nt: "lex_natural (u @ r) = Some (y, q @ r)" if "lex_natural u = Some (y, q)" for u y q
    using that tw by (cases u) (auto simp: lex_natural_def split: if_splits)
  have i: "lex_int (s @ r) = Some (y, q @ r)" if "lex_int s = Some (y, q)" for y q
    using that nt [of s] nt [of "tl s"] by (cases s) (auto simp: lex_int_def map_first_Some split: if_splits)
  have f: "lex_fraction (q @ r) = (fst (lex_fraction q), snd (lex_fraction q) @ r)" for q
  proof (cases q)
    case Nil
    then show ?thesis using lex_rest(1) [OF assms(2)] by (simp add: lex_fraction_def)
  next
    case (Cons c t)
    then show ?thesis using tw [of t] by (auto simp: lex_fraction_def)
  qed
  have sg: "exponent_sign (q @ r) = (fst (exponent_sign q), snd (exponent_sign q) @ r)" for q
    using assms(2) by (cases q) (auto simp: exponent_sign_def stops_def split: list.splits)
  have e: "lex_exponent (q @ r) = (fst (lex_exponent q), snd (lex_exponent q) @ r)" for q
  proof (cases q)
    case Nil
    then show ?thesis using lex_rest(2) [OF assms(2)] by (simp add: lex_exponent_def)
  next
    case (Cons c t)
    then show ?thesis using tw [of "snd (exponent_sign t)"] sg [of t] by (auto simp: lex_exponent_def split: prod.split)
  qed
  from assms(1) i f e show ?thesis by (auto simp: lex_number_def split: option.splits prod.splits)
qed

definition number_start :: "string \<Rightarrow> bool" where
  "number_start s = (case s of c # t \<Rightarrow> is_digit c \<or> c = CHR ''-'' \<and> t \<noteq> [] \<and> is_digit (hd t) | [] \<Rightarrow> False)"

lemma natural_start: "lex_natural s = Some (x, r) \<Longrightarrow> s \<noteq> [] \<and> is_digit (hd s)"
  by (auto simp: lex_natural_def is_digit_def split: list.splits if_splits)

lemma float_start: "lex_number s = Some (x, b, r) \<Longrightarrow> number_start s"
proof -
  assume "lex_number s = Some (x, b, r)"
  then obtain i q where i: "lex_int s = Some (i, q)" by (auto simp: lex_number_def split: option.splits)
  show ?thesis
  proof (cases s)
    case (Cons c t)
    with i natural_start [of s] natural_start [of t] show ?thesis
      by (auto simp: lex_int_def number_start_def map_first_Some split: if_splits)
  qed (use i in \<open>simp add: lex_int_def\<close>)
qed

lemma number_start_cases:
  assumes "number_start s"
  obtains c t where "s = c # t" "is_digit c" | t where "s = CHR ''-'' # t" "t \<noteq> []" "is_digit (hd t)"
  using assms by (auto simp: number_start_def split: list.splits)

lemma digit_not: "is_digit c \<Longrightarrow> \<not> is_digit d \<Longrightarrow> c \<noteq> d"
  by blast

lemma digit_chars:
  assumes "is_digit c"
  shows "c \<noteq> CHR ''n''" "c \<noteq> CHR ''t''" "c \<noteq> CHR ''f''" "c \<noteq> CHR ''N''" "c \<noteq> CHR ''I''" "c \<noteq> CHR ''-''" "c \<noteq> CHR 0x22"
    "c \<noteq> CHR ''[''" "c \<noteq> CHR ''{''" "c \<noteq> CHR '']''" "c \<noteq> CHR ''}''" "\<not> is_blank c"
  using assms by (auto simp: is_digit_def is_blank_def)

text \<open>A number is no literal, and starts with none of the other values' signs.\<close>

lemma number_literal:
  assumes "number_start s"
  shows "literal LITERALS (s @ r) = None"
  using assms
proof (cases rule: number_start_cases)
  case (1 c t)
  then show ?thesis using digit_chars [of c] by (simp add: LITERALS_def)
next
  case (2 t)
  then obtain d u where "t = d # u" "is_digit d" by (cases t) auto
  with 2 digit_chars [of d] show ?thesis by (simp add: LITERALS_def)
qed

definition starts_value :: "string \<Rightarrow> bool" where
  "starts_value s = (case s of c # t \<Rightarrow> \<not> is_blank c \<and> c \<noteq> CHR '']'' \<and> c \<noteq> CHR ''}'' | [] \<Rightarrow> False)"

lemma number_starts_value:
  assumes "number_start s"
  shows "starts_value s"
  using assms
proof (cases rule: number_start_cases)
  case (1 c t)
  then show ?thesis using digit_chars [of c] by (simp add: starts_value_def)
qed (simp add: starts_value_def is_blank_def)

lemma int_text_start: "number_start (int_text i)"
  using digits_Cons [of "nat i"] digits_Cons [of "nat (- i)"] by (auto simp: int_text_def number_start_def)

lemma dumps_start: "json_ok rd f v \<Longrightarrow> starts_value (dumps a f v)"
proof (cases v)
  case (PFloat q)
  assume "json_ok rd f v"
  with PFloat have "lex_number (f q) = Some (f q, True, [])" by (simp add: prints_float_def)
  then show ?thesis using float_start number_starts_value PFloat by simp
next
  case (PInt i)
  then show ?thesis using int_text_start number_starts_value by simp
qed (simp_all add: starts_value_def quoted_def is_blank_def split: nonfinite.split)

lemma skip_starts: "starts_value s \<Longrightarrow> skip (s @ r) = s @ r"
  by (cases s) (simp_all add: skip_def starts_value_def)

lemma skip_sign [simp]: "\<not> is_blank c \<Longrightarrow> skip (c # r) = c # r"
  by (simp add: skip_def)

lemma members_quote: "d \<noteq> [] \<Longrightarrow> \<exists>s. dumps_members a f d = CHR 0x22 # s"
  by (cases "(a, f, d)" rule: dumps_members.cases) (simp_all add: quoted_def)

lemma starts_append: "starts_value s \<Longrightarrow> starts_value (s @ r)"
  by (cases s) (simp_all add: starts_value_def)

lemma items_start: "xs \<noteq> [] \<Longrightarrow> list_all (json_ok rd f) xs \<Longrightarrow> starts_value (dumps_items a f xs)"
proof (cases xs)
  case (Cons x ys)
  assume "list_all (json_ok rd f) xs"
  with Cons have "json_ok rd f x" by simp
  then have "starts_value (dumps a f x)" by (rule dumps_start)
  with Cons show ?thesis by (cases ys) (simp_all add: starts_append)
qed simp

lemma dmerge_distinct: "distinct (map fst (e @ d)) \<Longrightarrow> dmerge e d = e @ d"
proof (induction d arbitrary: e)
  case (Cons kv d)
  obtain k v where kv: "kv = (k, v)" by (cases kv)
  have "dset k v e = e @ [(k, v)]"
    unfolding dset_def using Cons.prems kv by (induction e) auto
  with Cons kv show ?case by simp
qed simp

lemma jvalue_number:
  assumes "number_start s" and "lex_number (s @ r) = Some (t, b, r)"
  shows "jvalue rd (Suc n) (s @ r) = Some (if b then rd t else PInt (int_value t), r)"
  using assms(1)
proof (cases rule: number_start_cases)
  case (1 c u)
  with digit_chars [of c] assms number_literal [OF assms(1), of r] show ?thesis by (simp add: scalar_def)
next
  case (2 u)
  with assms number_literal [OF assms(1), of r] show ?thesis by (simp add: scalar_def)
qed

lemma blanks [simp]: "\<not> is_blank (CHR '','')" "\<not> is_blank (CHR '':'')" "\<not> is_blank (CHR '']'')" "\<not> is_blank (CHR ''}'')"
  "\<not> is_blank (CHR 0x22)"
  by (simp_all add: is_blank_def)

lemma stops_signs [simp]: "stops (CHR '','' # r)" "stops (CHR '']'' # r)" "stops (CHR ''}'' # r)" "stops []"
  by (simp_all add: stops_def is_digit_def)

lemma quoted_append: "quoted a s @ r = CHR 0x22 # concat (map (escape_char a) s) @ CHR 0x22 # r"
  by (simp add: quoted_def)

lemma parse_dumps:
  "json_ok rd f v \<longrightarrow> (\<forall>n r. stops r \<longrightarrow> 2 * length (dumps a f v @ r) < n \<longrightarrow> jvalue rd n (dumps a f v @ r) = Some (v, r))"
  "xs \<noteq> [] \<longrightarrow> list_all (json_ok rd f) xs \<longrightarrow> (\<forall>n r. 2 * length (dumps_items a f xs @ CHR '']'' # r) + 1 < n \<longrightarrow>
     jitems rd n (dumps_items a f xs @ CHR '']'' # r) = Some (xs, r))"
  "d \<noteq> [] \<longrightarrow> list_all (\<lambda>(k, x). json_ok rd f x) d \<longrightarrow> (\<forall>n r. 2 * length (dumps_members a f d @ CHR ''}'' # r) < n \<longrightarrow>
     jmembers rd n (dumps_members a f d @ CHR ''}'' # r) = Some (d, r))"
proof (induction a f v and a f xs and a f d rule: dumps_dumps_items_dumps_members.induct)
  case (2 a f b)
  have "jvalue rd n (dumps a f (PBool b) @ r) = Some (PBool b, r)" if "2 * length (dumps a f (PBool b) @ r) < n" for n r
    using that by (cases n; cases b) (simp_all add: scalar_def LITERALS_def)
  then show ?case by blast
next
  case (3 a f i)
  have "jvalue rd n (dumps a f (PInt i) @ r) = Some (PInt i, r)" if "stops r" "2 * length (dumps a f (PInt i) @ r) < n" for n r
  proof -
    have "lex_number (int_text i @ r) = Some (int_text i, False, r)"
      using lex_int_text [OF that(1)] lex_rest [OF that(1)] by (simp add: lex_number_def)
    from jvalue_number [OF int_text_start this] that(2) show ?thesis by (cases n) (simp_all add: int_value_text)
  qed
  then show ?case by blast
next
  case (4 a f q)
  have "jvalue rd n (f q @ r) = Some (PFloat q, r)" if "prints_float rd f q" "stops r" "2 * length (f q @ r) < n" for n r
  proof -
    from that(1) have l: "lex_number (f q) = Some (f q, True, [])" and v: "rd (f q) = PFloat q" by (simp_all add: prints_float_def)
    from jvalue_number [OF float_start [OF l] lex_text_rest [OF l that(2)]] that(3) v show ?thesis by (cases n) simp_all
  qed
  then show ?case by simp
next
  case (5 a f x)
  have "jvalue rd n (dumps a f (PNonFinite x) @ r) = Some (PNonFinite x, r)"
    if "2 * length (dumps a f (PNonFinite x) @ r) < n" for n r
    using that by (cases n; cases x) (simp_all add: scalar_def LITERALS_def)
  then show ?case by blast
next
  case (6 a f s)
  have "jvalue rd n (dumps a f (PStr s) @ r) = Some (PStr s, r)" if "2 * length (dumps a f (PStr s) @ r) < n" for n r
    using that by (cases n) (simp_all add: quoted_append scan_quoted)
  then show ?case by blast
next
  case (7 a f xs)
  have "jvalue rd n (dumps a f (PList xs) @ r) = Some (PList xs, r)"
    if ok: "list_all (json_ok rd f) xs" and n: "2 * length (dumps a f (PList xs) @ r) < n" for n r
  proof (cases "xs = []")
    case True
    with n show ?thesis by (cases n) simp_all
  next
    case False
    from n obtain m where m: "n = Suc m" "2 * length (dumps_items a f xs @ CHR '']'' # r) + 1 < m" by (cases n) auto
    have s: "starts_value (dumps_items a f xs)" by (rule items_start [OF False ok])
    then have "skip (dumps_items a f xs @ CHR '']'' # r) = dumps_items a f xs @ CHR '']'' # r"
      "strip '']'' (dumps_items a f xs @ CHR '']'' # r) = None"
      by (auto simp: skip_starts starts_value_def split: list.splits)
    moreover have "jitems rd m (dumps_items a f xs @ CHR '']'' # r) = Some (xs, r)" using 7 False ok m(2) by blast
    ultimately show ?thesis by (simp add: m(1))
  qed
  then show ?case by simp
next
  case (8 a f d)
  have "jvalue rd n (dumps a f (PDict d) @ r) = Some (PDict d, r)"
    if ok: "distinct (map fst d)" "list_all (\<lambda>(k, x). json_ok rd f x) d" and n: "2 * length (dumps a f (PDict d) @ r) < n" for n r
  proof (cases "d = []")
    case True
    with n show ?thesis by (cases n) simp_all
  next
    case False
    from n obtain m where m: "n = Suc m" "2 * length (dumps_members a f d @ CHR ''}'' # r) < m" by (cases n) auto
    obtain s where s: "dumps_members a f d = CHR 0x22 # s" using members_quote [OF False] by blast
    have "jmembers rd m (dumps_members a f d @ CHR ''}'' # r) = Some (d, r)" using 8 False ok(2) m(2) by blast
    with s ok(1) show ?thesis using dmerge_distinct [of "[]" d] by (simp add: m(1))
  qed
  then show ?case by simp
next
  case (10 a f x)
  have "jitems rd n (dumps a f x @ CHR '']'' # r) = Some ([x], r)"
    if ok: "json_ok rd f x" and n: "2 * length (dumps a f x @ CHR '']'' # r) + 1 < n" for n r
  proof -
    from n obtain m where m: "n = Suc m" "2 * length (dumps a f x @ CHR '']'' # r) < m" by (cases n) auto
    have "jvalue rd m (dumps a f x @ CHR '']'' # r) = Some (x, CHR '']'' # r)" using 10 ok m(2) by simp
    then show ?thesis by (simp add: m(1))
  qed
  then show ?case by simp
next
  case (11 a f x y xs)
  have "jitems rd n (dumps a f x @ CHR '','' # dumps_items a f (y # xs) @ CHR '']'' # r) = Some (x # y # xs, r)"
    if ok: "json_ok rd f x" "list_all (json_ok rd f) (y # xs)"
      and n: "2 * length (dumps a f x @ CHR '','' # dumps_items a f (y # xs) @ CHR '']'' # r) + 1 < n" for n r
  proof -
    let ?q = "dumps_items a f (y # xs) @ CHR '']'' # r"
    from n obtain m where m: "n = Suc m" "2 * length (dumps a f x @ CHR '','' # ?q) < m" by (cases n) auto
    have "jvalue rd m (dumps a f x @ CHR '','' # ?q) = Some (x, CHR '','' # ?q)" using 11(1) ok(1) m(2) by simp
    moreover have "skip ?q = ?q" by (rule skip_starts [OF items_start [OF _ ok(2)]]) simp
    moreover have "jitems rd m ?q = Some (y # xs, r)" using 11(2) ok(2) m(2) by simp
    ultimately show ?thesis by (simp add: m(1))
  qed
  then show ?case by simp
next
  case (13 a f k x)
  have "jmembers rd n (quoted a k @ CHR '':'' # dumps a f x @ CHR ''}'' # r) = Some ([(k, x)], r)"
    if ok: "json_ok rd f x" and n: "2 * length (quoted a k @ CHR '':'' # dumps a f x @ CHR ''}'' # r) < n" for n r
  proof -
    from n obtain m where m: "n = Suc m" "2 * length (dumps a f x @ CHR ''}'' # r) < m" by (cases n) auto
    have "jvalue rd m (dumps a f x @ CHR ''}'' # r) = Some (x, CHR ''}'' # r)" using 13 ok m(2) by simp
    then show ?thesis
      using skip_starts [OF dumps_start [OF ok]] by (simp add: m(1) quoted_append scan_quoted)
  qed
  then show ?case by simp
next
  case (14 a f k x y d)
  have "jmembers rd n (quoted a k @ CHR '':'' # dumps a f x @ CHR '','' # dumps_members a f (y # d) @ CHR ''}'' # r) =
      Some ((k, x) # y # d, r)"
    if ok: "json_ok rd f x" "list_all (\<lambda>(k, x). json_ok rd f x) (y # d)"
      and n: "2 * length (quoted a k @ CHR '':'' # dumps a f x @ CHR '','' # dumps_members a f (y # d) @ CHR ''}'' # r) < n" for n r
  proof -
    let ?q = "dumps_members a f (y # d) @ CHR ''}'' # r"
    from n obtain m where m: "n = Suc m" "2 * length (dumps a f x @ CHR '','' # ?q) < m" by (cases n) auto
    have "jvalue rd m (dumps a f x @ CHR '','' # ?q) = Some (x, CHR '','' # ?q)" using 14(1) ok(1) m(2) by simp
    moreover obtain s where "dumps_members a f (y # d) = CHR 0x22 # s" using members_quote [of "y # d"] by blast
    then have "skip ?q = ?q" by simp
    moreover have "jmembers rd m ?q = Some (y # d, r)" using 14(2) ok(2) m(2) by simp
    ultimately show ?thesis
      using skip_starts [OF dumps_start [OF ok(1)]] by (simp add: m(1) quoted_append scan_quoted)
  qed
  then show ?case by simp
qed (auto simp: scalar_def LITERALS_def dest!: less_imp_Suc_add)

text \<open>Reading a written value gives the value, whatever follows.\<close>

lemma loads_dumps: "json_ok rd f v \<Longrightarrow> loads rd (dumps a f v) = Some v"
proof -
  assume ok: "json_ok rd f v"
  have "jvalue rd (2 * length (dumps a f v) + 1) (dumps a f v @ []) = Some (v, [])"
    by (rule parse_dumps(1) [rule_format, OF ok]) simp_all
  moreover have "skip (dumps a f v @ []) = dumps a f v @ []" by (rule skip_starts [OF dumps_start [OF ok]])
  ultimately show ?thesis by (simp add: loads_def skip_def)
qed

section \<open>Bytes\<close>

text \<open>\<open>encode('utf-8')\<close> and \<open>decode('utf-8')\<close> of Latin-1 text.\<close>

definition utf8_char :: "char \<Rightarrow> string" where
  "utf8_char c = (let n = of_char c :: nat in
     if n < 128 then [c] else [char_of (192 + n div 64), char_of (128 + n mod 64)])"

definition utf8 :: "string \<Rightarrow> string" where
  "utf8 s = concat (map utf8_char s)"

fun from_utf8 :: "string \<Rightarrow> string option" where
  "from_utf8 [] = Some []"
| "from_utf8 (c # s) =
    (let n = of_char c :: nat
     in if n < 128 then map_option ((#) c) (from_utf8 s)
        else case s of
            d # t \<Rightarrow>
              (let m = of_char d :: nat
               in if (n = 194 \<or> n = 195) \<and> 128 \<le> m \<and> m < 192
                  then map_option ((#) (char_of ((n - 192) * 64 + (m - 128)))) (from_utf8 t) else None)
          | [] \<Rightarrow> None)"

text \<open>\<open>json.loads\<close> of bytes; a zero byte among the first four would select another encoding.\<close>

definition loads_bytes :: "(string \<Rightarrow> pyval) \<Rightarrow> string \<Rightarrow> pyval option" where
  "loads_bytes rd b = (if CHR 0x00 \<in> set (take 4 b) then None else Option.bind (from_utf8 b) (loads rd))"

lemma two_bytes: "128 \<le> n \<Longrightarrow> n < 256 \<Longrightarrow> n div 64 = 2 \<or> n div 64 = (3::nat)"
  using div_le_mono [of 128 n 64] div_less_iff_less_mult [of 64 n 4] by (simp, arith)

lemma code_div: "(of_char c :: nat) div 16 < 16" "(of_char c :: nat) div 64 < 4"
  using nat_of_char_less_256 [of c] by (simp_all add: div_less_iff_less_mult)

lemma from_utf8_char: "from_utf8 (utf8_char c @ s) = map_option ((#) c) (from_utf8 s)"
proof -
  let ?n = "of_char c :: nat"
  have n: "?n < 256" by simp
  show ?thesis
  proof (cases "?n < 128")
    case True
    then show ?thesis by (simp add: utf8_char_def)
  next
    case False
    with n have d: "?n div 64 = 2 \<or> ?n div 64 = 3" by (intro two_bytes) simp_all
    have m: "?n mod 64 < 64" by simp
    have e: "?n = 64 * (?n div 64) + ?n mod 64" by simp
    have "char_of (128 + ?n mod 64) = c" if "?n div 64 = 2"
    proof -
      from e that have "128 + ?n mod 64 = ?n" by simp
      then show ?thesis by (simp only: char_of_char)
    qed
    moreover have "char_of (192 + ?n mod 64) = c" if "?n div 64 = 3"
    proof -
      from e that have "192 + ?n mod 64 = ?n" by simp
      then show ?thesis by (simp only: char_of_char)
    qed
    ultimately show ?thesis using False d m by (auto simp: utf8_char_def Let_def)
  qed
qed

lemma from_utf8_utf8 [simp]: "from_utf8 (utf8 s) = Some s"
  by (induction s) (simp_all add: utf8_def from_utf8_char)

lemma utf8_ascii: "list_all (\<lambda>c. (of_char c :: nat) < 128) s \<Longrightarrow> utf8 s = s"
  by (induction s) (simp_all add: utf8_def utf8_char_def)

definition clean :: "bool \<Rightarrow> char \<Rightarrow> bool" where
  "clean a c = ((of_char c :: nat) \<noteq> 0 \<and> (a \<longrightarrow> (of_char c :: nat) < 128))"

lemma digits_clean: "list_all (clean a) (takeWhile is_digit s)" "list_all is_digit s \<Longrightarrow> list_all (clean a) s"
  by (auto simp: is_digit_def clean_def list_all_iff dest: set_takeWhileD)

lemma hex_digit_clean: "k < 16 \<Longrightarrow> clean a (hex_digit k)"
  by (simp add: hex_digit_def clean_def)

lemma escape_clean: "list_all (clean a) (escape_char a c)"
proof -
  have "clean a (hex_digit ((of_char c :: nat) div 16))" "clean a (hex_digit ((of_char c :: nat) mod 16))"
    using code_div by (simp_all add: hex_digit_clean)
  then show ?thesis by (auto simp: escape_char_def Let_def clean_def)
qed

lemma quoted_clean: "list_all (clean a) (quoted a s)"
  using escape_clean by (induction s) (auto simp: quoted_def clean_def)

lemma int_text_clean: "list_all (clean a) (int_text i)"
  using digits_clean(2) [OF digits_digits] by (auto simp: int_text_def clean_def)

lemma lex_number_clean: "lex_number s = Some (x, b, r) \<Longrightarrow> list_all (clean a) x"
proof -
  assume l: "lex_number s = Some (x, b, r)"
  have n: "list_all (clean a) y" if "lex_natural u = Some (y, q)" for u y q
    using that digits_clean(1) by (auto simp: lex_natural_def is_digit_def clean_def split: list.splits if_splits)
  have i: "list_all (clean a) y" if "lex_int s = Some (y, q)" for y q
    using that n by (auto simp: lex_int_def map_first_Some clean_def split: list.splits if_splits)
  have f: "list_all (clean a) (fst (lex_fraction u))" for u
    using digits_clean(1) by (cases u) (auto simp: lex_fraction_def clean_def)
  have sg: "list_all (clean a) (fst (exponent_sign u))" for u
    by (cases u) (auto simp: exponent_sign_def clean_def)
  have e: "list_all (clean a) (fst (lex_exponent u))" for u
  proof (cases u)
    case (Cons c t)
    with digits_clean(1) sg [of t] show ?thesis by (auto simp: lex_exponent_def clean_def split: prod.split)
  qed (simp add: lex_exponent_def)
  from l obtain y q where y: "lex_int s = Some (y, q)" by (auto simp: lex_number_def split: option.splits)
  with l have "x = y @ fst (lex_fraction q) @ fst (lex_exponent (snd (lex_fraction q)))"
    by (auto simp: lex_number_def split: prod.splits)
  with i [OF y] f e show ?thesis by simp
qed

text \<open>What \<open>dumps\<close> writes has no zero character, and with \<open>ensure_ascii\<close> it is ASCII.\<close>

lemma dumps_clean:
  "json_ok rd f v \<Longrightarrow> list_all (clean a) (dumps a f v)"
  "list_all (json_ok rd f) xs \<Longrightarrow> list_all (clean a) (dumps_items a f xs)"
  "list_all (\<lambda>(k, x). json_ok rd f x) d \<Longrightarrow> list_all (clean a) (dumps_members a f d)"
proof (induction a f v and a f xs and a f d rule: dumps_dumps_items_dumps_members.induct)
  case (4 a f q)
  then show ?case by (auto simp: prints_float_def dest: lex_number_clean)
next
  case (5 a f x)
  show ?case by (cases x) (simp_all add: clean_def)
qed (auto simp: int_text_clean quoted_clean, auto simp: clean_def)

lemma utf8_nonzero: "list_all (clean a) s \<Longrightarrow> list_all (clean False) (utf8 s)"
proof (induction s)
  case (Cons c s)
  have "of_char c div 64 < (4::nat)" "of_char c mod 64 < (64::nat)" using code_div by simp_all
  then have "clean False (char_of (192 + of_char c div 64 :: nat))" "clean False (char_of (128 + of_char c mod 64 :: nat))"
    by (simp_all add: clean_def)
  with Cons show ?case by (auto simp: utf8_def utf8_char_def Let_def clean_def)
qed (simp add: utf8_def)

lemma clean_zero: "list_all (clean a) s \<Longrightarrow> CHR 0x00 \<notin> set s"
  by (auto simp: list_all_iff clean_def)

lemma loads_bytes_dumps: "json_ok rd f v \<Longrightarrow> loads_bytes rd (utf8 (dumps a f v)) = Some v"
proof -
  assume ok: "json_ok rd f v"
  have "CHR 0x00 \<notin> set (utf8 (dumps a f v))" by (rule clean_zero [OF utf8_nonzero [OF dumps_clean(1) [OF ok]]])
  with ok show ?thesis by (auto simp: loads_bytes_def loads_dumps dest: in_set_takeD)
qed

lemma dumps_utf8: "json_ok rd f v \<Longrightarrow> utf8 (dumps True f v) = dumps True f v"
  by (rule utf8_ascii) (use dumps_clean(1) [of rd f v True] in \<open>auto simp: list_all_iff clean_def\<close>)

section \<open>Equality up to the order of members\<close>

text \<open>A value with the members of its dictionaries in key order: what \<open>sort_keys\<close> writes.\<close>

function canon :: "pyval \<Rightarrow> pyval" where
  "canon (PList xs) = PList (map canon xs)"
| "canon (PDict d) = PDict (sort_key fst (map (\<lambda>kv. (fst kv, canon (snd kv))) d))"
| "canon PNone = PNone"
| "canon (PBool b) = PBool b"
| "canon (PInt i) = PInt i"
| "canon (PFloat q) = PFloat q"
| "canon (PNonFinite x) = PNonFinite x"
| "canon (PStr s) = PStr s"
  by pat_completeness auto

termination canon
  by (relation "measure size") (use size_dict_member in \<open>auto simp: less_Suc_eq_le intro: size_list_estimation'\<close>)

lemma sorted_keys_unique:
  fixes xs ys :: "('k::linorder \<times> 'v) list"
  assumes "distinct (map fst xs)" "distinct (map fst ys)" "\<And>k. map_of xs k = map_of ys k"
  shows "sort_key fst xs = sort_key fst ys"
proof -
  have eq: "set xs = set ys"
  proof (rule set_eqI)
    fix p
    show "p \<in> set xs \<longleftrightarrow> p \<in> set ys"
      using map_of_eq_Some_iff [OF assms(1), of "fst p" "snd p"] map_of_eq_Some_iff [OF assms(2), of "fst p" "snd p"]
        assms(3) [of "fst p"] by simp
  qed
  let ?u = "set (sort_key fst xs) \<union> set (sort_key fst ys)"
  have "inj_on fst (set xs)" using assms(1) by (simp add: distinct_map)
  with eq have "inj_on fst ?u" by simp
  then show ?thesis
    by (rule map_sorted_distinct_set_unique)
      (use assms eq in \<open>simp_all add: distinct_map distinct_sort\<close>)
qed

lemma canon_dict_eq:
  assumes "distinct (map fst d)" "distinct (map fst e)" "\<And>k. map_option canon (map_of d k) = map_option canon (map_of e k)"
  shows "canon (PDict d) = canon (PDict e)"
proof -
  have m: "map_of (map (\<lambda>kv. (fst kv, canon (snd kv))) x) k = map_option canon (map_of x k)" for x k
    by (induction x) auto
  have "sort_key fst (map (\<lambda>kv. (fst kv, canon (snd kv))) d) = sort_key fst (map (\<lambda>kv. (fst kv, canon (snd kv))) e)"
    by (rule sorted_keys_unique) (use assms in \<open>simp_all add: m o_def\<close>)
  then show ?thesis by simp
qed

end
