(* ===== verification/Payloads.thy ===== *)
theory Payloads
  imports Json
begin

text \<open>
  Quota observations stored as a shared template and a small delta:
  \<open>cachemonitor/quota_payloads.py\<close>. A \<open>runtime\<close> holds what the Python runtime does: reading and
  printing of floating point numbers, \<open>float()\<close> of an integer, SHA-256, zlib with the dictionary
  of the format and the length of a pickled value. The two time columns of a row are numbers;
  the sign of a negative zero is not part of the model. The table of templates is a list of
  rows; its triggers make rows immutable.
\<close>

section \<open>State\<close>

record 'd runtime =
  rt_read :: "string \<Rightarrow> pyval"
  rt_print :: "rat \<Rightarrow> string"
  rt_float :: "int \<Rightarrow> rat option"
  rt_digest :: "string \<Rightarrow> 'd"
  rt_deflate :: "string \<Rightarrow> string"
  rt_inflate :: "string \<Rightarrow> (string \<times> bool \<times> bool) option"  \<comment> \<open>all output, end reached, data left\<close>
  rt_pickled :: "pyval \<Rightarrow> nat"

datatype column = Int_column int | Float_column rat

datatype payload = Text string | Bytes string

record 'd context_row =
  cx_id :: nat
  cx_digest :: 'd
  cx_data :: string

record observation_row =
  or_data :: payload
  or_context :: "nat option"
  or_requested :: column
  or_received :: column

definition MAX_PAYLOAD_BYTES :: nat where "MAX_PAYLOAD_BYTES = 256 * 1024"
definition CONTEXT_CACHE_BYTES :: nat where "CONTEXT_CACHE_BYTES = 1024 * 1024"
definition CONTEXT_CACHE_ENTRIES :: nat where "CONTEXT_CACHE_ENTRIES = 64"
definition CONTEXT_OVERHEAD_BYTES :: nat where "CONTEXT_OVERHEAD_BYTES = 128"

section \<open>Splitting a value\<close>

definition json_text :: "'d runtime \<Rightarrow> pyval \<Rightarrow> string" where
  "json_text rt v = dumps True (rt_print rt) v"

definition as_float :: "'d runtime \<Rightarrow> column \<Rightarrow> rat option" where
  "as_float rt c = (case c of Int_column i \<Rightarrow> rt_float rt i | Float_column q \<Rightarrow> Some q)"

definition timestamp_reference :: "'d runtime \<Rightarrow> pyval \<Rightarrow> column \<Rightarrow> bool" where
  "timestamp_reference rt v c = (case as_float rt c of
      None \<Rightarrow> False
    | Some stored \<Rightarrow> (case v of PInt i \<Rightarrow> of_int i = stored | PFloat q \<Rightarrow> q = stored | _ \<Rightarrow> False))"

record split_state =
  sp_base :: pydict
  sp_refs :: pydict
  sp_slots :: "string list list"
  sp_changing :: "pyval list"

definition take_member :: "string \<Rightarrow> split_state \<Rightarrow> split_state" where
  "take_member key s = s\<lparr>sp_base := dpop key (sp_base s), sp_slots := sp_slots s @ [[key]],
     sp_changing := sp_changing s @ [dget (sp_base s) key]\<rparr>"

definition take_time :: "'d runtime \<Rightarrow> string \<Rightarrow> string \<Rightarrow> column \<Rightarrow> split_state \<Rightarrow> split_state" where
  "take_time rt key col number s = (case map_of (sp_base s) key of
      None \<Rightarrow> s
    | Some v \<Rightarrow>
        if timestamp_reference rt v number
        then s\<lparr>sp_refs := dset key (PList [PStr col, PStr (case v of PInt i \<Rightarrow> ''int'' | _ \<Rightarrow> ''float'')]) (sp_refs s),
               sp_base := dpop key (sp_base s)\<rparr>
        else take_member key s)"

fun split_windows :: "pydict \<Rightarrow> pydict \<times> string list list \<times> pyval list" where
  "split_windows [] = ([], [], [])"
| "split_windows ((name, w) # ws) =
    (let (ws', slots, changing) = split_windows ws
     in case w of
          PDict d \<Rightarrow> (case map_of d ''used_percent'' of
              Some v \<Rightarrow> ((name, PDict (dpop ''used_percent'' d)) # ws', [''windows'', name, ''used_percent''] # slots, v # changing)
            | None \<Rightarrow> ((name, w) # ws', slots, changing))
        | _ \<Rightarrow> ((name, w) # ws', slots, changing))"

definition take_windows :: "split_state \<Rightarrow> split_state" where
  "take_windows s = (case map_of (sp_base s) ''windows'' of
      Some (PDict ws) \<Rightarrow>
        (let (ws', slots, changing) = split_windows ws
         in s\<lparr>sp_base := dset ''windows'' (PDict ws') (sp_base s), sp_slots := sp_slots s @ slots,
              sp_changing := sp_changing s @ changing\<rparr>)
    | _ \<Rightarrow> s)"

definition take_elapsed :: "split_state \<Rightarrow> split_state" where
  "take_elapsed s = (if map_of (sp_base s) ''elapsed'' \<noteq> None then take_member ''elapsed'' s else s)"

definition split_value :: "'d runtime \<Rightarrow> column \<Rightarrow> column \<Rightarrow> pydict \<Rightarrow> split_state" where
  "split_value rt requested received base =
    take_windows (take_elapsed (take_time rt ''observed_at'' ''received'' received
      (take_time rt ''requested_at'' ''requested'' requested
        \<lparr>sp_base = base, sp_refs = [], sp_slots = [], sp_changing = []\<rparr>)))"

definition template_value :: "split_state \<Rightarrow> pyval" where
  "template_value s = PDict [(''data'', PDict (sp_base s)), (''refs'', PDict (sp_refs s)),
     (''slots'', PList (map (\<lambda>p. PList (map PStr p)) (sp_slots s)))]"

text \<open>\<open>_split\<close>; the text is that of a dictionary.\<close>

definition split_payload :: "'d runtime \<Rightarrow> string \<Rightarrow> column \<Rightarrow> column \<Rightarrow> pyerror + string \<times> string" where
  "split_payload rt raw requested received = (case loads (rt_read rt) raw of
      Some (PDict base) \<Rightarrow>
        (let s = split_value rt requested received base
         in Inr (json_text rt (template_value s), ''Q1'' @ json_text rt (PList (sp_changing s))))
    | Some _ \<Rightarrow> Inl TypeError
    | None \<Rightarrow> Inl (ValueError ''JSON''))"

section \<open>Encoding\<close>

definition unpack_template :: "'d runtime \<Rightarrow> string \<Rightarrow> pyerror + string" where
  "unpack_template rt data =
    (if take 2 data \<noteq> ''T1'' \<or> length data > MAX_PAYLOAD_BYTES then Inl (ValueError ''Invalid quota payload context'')
     else case rt_inflate rt (drop 2 data) of
            None \<Rightarrow> Inl (RuntimeError ''zlib'')
          | Some (raw, ended, left) \<Rightarrow>
              if length raw > MAX_PAYLOAD_BYTES \<or> \<not> ended \<or> left
              then Inl (ValueError ''Invalid or oversized quota payload context'')
              else if list_all (\<lambda>c. (of_char c :: nat) < 128) raw then Inr raw
              else Inl (ValueError ''ascii''))"

definition context_of :: "'d context_row list \<Rightarrow> nat \<Rightarrow> 'd context_row option" where
  "context_of cs i = List.find (\<lambda>c. cx_id c = i) cs"

definition next_id :: "'d context_row list \<Rightarrow> nat" where
  "next_id cs = Suc (Max (insert 0 (set (map cx_id cs))))"

type_synonym 'd encoded = "payload \<times> nat option \<times> 'd context_row list"

definition share :: "'d runtime \<Rightarrow> 'd context_row list \<Rightarrow> string \<Rightarrow> string \<times> string \<Rightarrow> pyerror + 'd encoded" where
  "share rt cs raw = (\<lambda>(template, delta).
     let plain = Inr (Text raw, None, cs)
     in if length template > MAX_PAYLOAD_BYTES \<or> length delta + 16 \<ge> length raw then plain
        else case List.find (\<lambda>c. cx_digest c = rt_digest rt template) cs of
          Some c \<Rightarrow> bindE (unpack_template rt (cx_data c)) (\<lambda>stored.
            if stored \<noteq> template then plain else Inr (Bytes delta, Some (cx_id c), cs))
        | None \<Rightarrow>
            (let packed = ''T1'' @ rt_deflate rt template
             in if length packed + length delta + CONTEXT_OVERHEAD_BYTES \<ge> length raw then plain
                else Inr (Bytes delta, Some (next_id cs),
                          cs @ [\<lparr>cx_id = next_id cs, cx_digest = rt_digest rt template, cx_data = packed\<rparr>])))"

definition encode :: "'d runtime \<Rightarrow> 'd context_row list \<Rightarrow> pydict \<Rightarrow> column \<Rightarrow> column \<Rightarrow> pyerror + 'd encoded" where
  "encode rt cs quota requested received =
    (let raw = json_text rt (PDict quota)
     in if length raw > MAX_PAYLOAD_BYTES \<or> length raw \<le> CONTEXT_OVERHEAD_BYTES then Inr (Text raw, None, cs)
        else bindE (split_payload rt raw requested received) (share rt cs raw))"

section \<open>Decoding\<close>

record reader =
  rd_contexts :: "(nat \<times> pyval \<times> nat) list"   \<comment> \<open>least recently used first\<close>
  rd_bytes :: nat

definition new_reader :: reader where "new_reader = \<lparr>rd_contexts = [], rd_bytes = 0\<rparr>"

fun evict :: "(nat \<times> pyval \<times> nat) list \<Rightarrow> nat \<Rightarrow> (nat \<times> pyval \<times> nat) list \<times> nat" where
  "evict [] b = ([], b)"
| "evict (e # es) b =
    (if b > CONTEXT_CACHE_BYTES \<or> length (e # es) > CONTEXT_CACHE_ENTRIES then evict es (b - snd (snd e)) else (e # es, b))"

definition load_context :: "'d runtime \<Rightarrow> 'd context_row list \<Rightarrow> nat \<Rightarrow> pyerror + pyval" where
  "load_context rt cs i = (case context_of cs i of
      None \<Rightarrow> Inl (ValueError ''Missing quota payload context'')
    | Some c \<Rightarrow> bindE (unpack_template rt (cx_data c)) (\<lambda>t. case loads (rt_read rt) t of
          None \<Rightarrow> Inl (ValueError ''JSON'') | Some v \<Rightarrow> Inr v))"

definition parts :: "'d runtime \<Rightarrow> 'd context_row list \<Rightarrow> nat \<Rightarrow> reader \<Rightarrow> (pyerror + pyval) \<times> reader" where
  "parts rt cs i r = (case map_of (rd_contexts r) i of
      Some (v, w) \<Rightarrow> (Inr v, r\<lparr>rd_contexts := AList.delete i (rd_contexts r) @ [(i, v, w)]\<rparr>)
    | None \<Rightarrow> (case load_context rt cs i of
          Inl e \<Rightarrow> (Inl e, r)
        | Inr v \<Rightarrow>
            (let w = rt_pickled rt v + 192; (es, b) = evict (rd_contexts r @ [(i, v, w)]) (rd_bytes r + w)
             in (Inr v, r\<lparr>rd_contexts := es, rd_bytes := b\<rparr>))))"

definition item :: "pyval \<Rightarrow> string \<Rightarrow> pyerror + pyval" where
  "item v k = (case v of PDict d \<Rightarrow> (case map_of d k of Some x \<Rightarrow> Inr x | None \<Rightarrow> Inl KeyError) | _ \<Rightarrow> Inl TypeError)"

definition set_item :: "string \<Rightarrow> pyval \<Rightarrow> pyval \<Rightarrow> pyerror + pyval" where
  "set_item k x v = (case v of PDict d \<Rightarrow> Inr (PDict (dset k x d)) | _ \<Rightarrow> Inl TypeError)"

fun set_path :: "string list \<Rightarrow> pyval \<Rightarrow> pyval \<Rightarrow> pyerror + pyval" where
  "set_path [] x v = Inl IndexError"
| "set_path [k] x v = set_item k x v"
| "set_path (k # ks) x v = bindE (item v k) (\<lambda>u. bindE (set_path ks x u) (\<lambda>u'. set_item k u' v))"

definition trunc_int :: "rat \<Rightarrow> int" where
  "trunc_int q = (if q < 0 then - \<lfloor>- q\<rfloor> else \<lfloor>q\<rfloor>)"

definition read_time :: "'d runtime \<Rightarrow> observation_row \<Rightarrow> string \<Rightarrow> string \<Rightarrow> pyerror + pyval" where
  "read_time rt row col kind =
    (if col \<notin> {''requested'', ''received''} \<or> kind \<notin> {''int'', ''float''}
     then Inl (ValueError ''Invalid quota timestamp reference'')
     else let c = (if col = ''requested'' then or_requested row else or_received row)
       in if kind = ''int'' then Inr (PInt (case c of Int_column i \<Rightarrow> i | Float_column q \<Rightarrow> trunc_int q))
          else case as_float rt c of Some q \<Rightarrow> Inr (PFloat q) | None \<Rightarrow> Inl (RuntimeError ''OverflowError''))"

fun set_refs :: "'d runtime \<Rightarrow> observation_row \<Rightarrow> pydict \<Rightarrow> pyval \<Rightarrow> pyerror + pyval" where
  "set_refs rt row [] v = Inr v"
| "set_refs rt row ((name, ref) # refs) v =
    (case ref of PList [PStr col, PStr kind] \<Rightarrow>
        bindE (read_time rt row col kind) (\<lambda>x. bindE (set_item name x v) (set_refs rt row refs))
     | _ \<Rightarrow> Inl (ValueError ''unpack''))"

fun path_names :: "pyval \<Rightarrow> string list option" where
  "path_names (PList xs) = those (map (\<lambda>x. case x of PStr s \<Rightarrow> Some s | _ \<Rightarrow> None) xs)"
| "path_names _ = None"

fun set_slots :: "(pyval \<times> pyval) list \<Rightarrow> pyval \<Rightarrow> pyerror + pyval" where
  "set_slots [] v = Inr v"
| "set_slots ((p, x) # ps) v = (case path_names p of
      None \<Rightarrow> Inl TypeError
    | Some path \<Rightarrow> bindE (set_path path x v) (set_slots ps))"

text \<open>Filling a template: \<open>slots\<close> is a list and \<open>refs\<close> a dictionary in what \<open>_split\<close> writes.\<close>

definition fill :: "'d runtime \<Rightarrow> observation_row \<Rightarrow> pyval \<Rightarrow> pyval option \<Rightarrow> pyerror + pyval" where
  "fill rt row p changing =
    bindE (item p ''data'') (\<lambda>value. case changing of None \<Rightarrow> Inl (ValueError ''JSON'') | Some ch \<Rightarrow>
    bindE (item p ''slots'') (\<lambda>slots. bindE (item p ''refs'') (\<lambda>refs.
      case (ch, slots, refs) of
        (PList xs, PList ps, PDict rs) \<Rightarrow>
          if length ps \<noteq> length xs then Inl (ValueError ''Invalid quota observation payload'')
          else bindE (set_refs rt row rs value) (set_slots (zip ps xs))
      | _ \<Rightarrow> Inl (ValueError ''Invalid quota observation payload''))))"

definition decode :: "'d runtime \<Rightarrow> 'd context_row list \<Rightarrow> observation_row \<Rightarrow> reader \<Rightarrow> (pyerror + pyval) \<times> reader" where
  "decode rt cs row r = (case or_data row of
      Text s \<Rightarrow> (case loads (rt_read rt) s of None \<Rightarrow> Inl (ValueError ''JSON'') | Some v \<Rightarrow> Inr v, r)
    | Bytes b \<Rightarrow>
        if take 2 b \<noteq> ''Q1'' then (case loads_bytes (rt_read rt) b of None \<Rightarrow> Inl (ValueError ''JSON'') | Some v \<Rightarrow> Inr v, r)
        else if length b > MAX_PAYLOAD_BYTES then (Inl (ValueError ''Oversized quota observation payload''), r)
        else case or_context row of
            None \<Rightarrow> (Inl (ValueError ''Missing quota payload context''), r)
          | Some i \<Rightarrow> (case parts rt cs i r of (p, r') \<Rightarrow>
              (bindE p (\<lambda>v. fill rt row v (loads_bytes (rt_read rt) (drop 2 b))), r')))"

section \<open>Reading back a split value\<close>

text \<open>A time column as a row stores it: the floating point value, exactly.\<close>

definition stored_as :: "'d runtime \<Rightarrow> column \<Rightarrow> column \<Rightarrow> bool" where
  "stored_as rt c c' = (\<exists>q. c' = Float_column q \<and> as_float rt c = Some q)"

lemma trunc_int_int [simp]: "trunc_int (of_int i) = i"
proof (cases "i < 0")
  case True
  have "\<lfloor>- (of_int i :: rat)\<rfloor> = - i" using floor_of_int [of "- i", where 'a = rat] by simp
  with True show ?thesis by (simp add: trunc_int_def)
qed (simp add: trunc_int_def)

lemma read_reference:
  assumes "timestamp_reference rt v c" and "stored_as rt c c'"
    and "col = ''requested'' \<and> c' = or_requested row \<or> col = ''received'' \<and> c' = or_received row"
  shows "read_time rt row col (case v of PInt i \<Rightarrow> ''int'' | _ \<Rightarrow> ''float'') = Inr v"
proof -
  from assms(2) obtain q where q: "c' = Float_column q" "as_float rt c = Some q" by (auto simp: stored_as_def)
  from assms(1) q(2) have v: "(\<exists>i. v = PInt i \<and> of_int i = q) \<or> v = PFloat q"
    by (cases v) (auto simp: timestamp_reference_def)
  from assms(3) q(1) have "col = ''requested'' \<and> or_requested row = Float_column q \<or>
      col = ''received'' \<and> or_received row = Float_column q" by metis
  with v show ?thesis by (auto simp: read_time_def as_float_def)
qed

lemma delete_mset:
  "distinct (map fst d) \<Longrightarrow> map_of d k = Some v \<Longrightarrow> mset d = add_mset (k, v) (mset (AList.delete k d))"
proof (induction d)
  case (Cons e d)
  show ?case
  proof (cases "fst e = k")
    case True
    with Cons.prems have "AList.delete k d = d" by (intro delete_id) simp
    with True Cons.prems show ?thesis by auto
  next
    case False
    with Cons show ?thesis by auto
  qed
qed simp

lemma dpop_mset:
  "distinct (map fst d) \<Longrightarrow> map_of d k = Some v \<Longrightarrow> mset d = add_mset (k, v) (mset (dpop k d))"
  unfolding dpop_def by (rule delete_mset)

text \<open>
  The members of the value are those of the base, those the row's time columns give, and
  those of the delta, in some order.
\<close>

definition split_of :: "'d runtime \<Rightarrow> observation_row \<Rightarrow> pydict \<Rightarrow> split_state \<Rightarrow> pydict \<Rightarrow> pydict \<Rightarrow> bool" where
  "split_of rt row q s rvals tops = (mset q = mset (sp_base s @ rvals @ tops) \<and>
     map fst (sp_refs s) = map fst rvals \<and>
     (\<forall>d. distinct (map fst (d @ rvals)) \<longrightarrow> set_refs rt row (sp_refs s) (PDict d) = Inr (PDict (d @ rvals))) \<and>
     sp_slots s = map (\<lambda>kv. [fst kv]) tops \<and> sp_changing s = map snd tops)"

lemma split_of_distinct:
  assumes "split_of rt row q s rvals tops" and "distinct (map fst q)"
  shows "distinct (map fst (sp_base s @ rvals @ tops))"
proof -
  from assms(1) have "mset (map fst q) = mset (map fst (sp_base s @ rvals @ tops))"
    by (simp only: split_of_def mset_map)
  from mset_eq_imp_distinct_iff [OF this] assms(2) show ?thesis by simp
qed

lemma take_member_split:
  assumes "split_of rt row q s rvals tops" "distinct (map fst q)" "map_of (sp_base s) key = Some v"
  shows "split_of rt row q (take_member key s) rvals (tops @ [(key, v)])"
proof -
  have "distinct (map fst (sp_base s))" using split_of_distinct [OF assms(1,2)] by simp
  from dpop_mset [OF this assms(3)] assms show ?thesis
    by (simp add: split_of_def take_member_def dget_def dget_or_def)
qed

lemma set_refs_append:
  "set_refs rt row (rs @ rs') v = bindE (set_refs rt row rs v) (set_refs rt row rs')"
proof (induction rt row rs v rule: set_refs.induct)
  case (2 rt row name ref refs v)
  show ?case
  proof (cases "\<exists>col kind. ref = PList [PStr col, PStr kind]")
    case True
    with 2 show ?thesis by (auto simp: bindE_assoc intro!: bindE_cong)
  next
    case False
    then show ?thesis by (auto split: pyval.splits list.splits)
  qed
qed simp

lemma dset_new: "k \<notin> fst ` set d \<Longrightarrow> dset k v d = d @ [(k, v)]"
  unfolding dset_def by (induction d) auto

lemma take_reference_split:
  assumes s: "split_of rt row q s rvals tops" "distinct (map fst q)" and v: "map_of (sp_base s) key = Some v"
    and r: "read_time rt row col kind = Inr v"
  shows "split_of rt row q (s\<lparr>sp_refs := dset key (PList [PStr col, PStr kind]) (sp_refs s), sp_base := dpop key (sp_base s)\<rparr>)
    (rvals @ [(key, v)]) tops"
proof -
  have d: "distinct (map fst (sp_base s @ rvals @ tops))" by (rule split_of_distinct [OF s])
  have "key \<in> fst ` set (sp_base s)" using v by (metis map_of_eq_None_iff option.distinct(1))
  with d have k: "key \<notin> fst ` set rvals" by auto
  have refs: "map fst (sp_refs s) = map fst rvals" using s(1) by (simp add: split_of_def)
  then have "fst ` set (sp_refs s) = fst ` set rvals" by (metis list.set_map)
  with k have n: "dset key (PList [PStr col, PStr kind]) (sp_refs s) = sp_refs s @ [(key, PList [PStr col, PStr kind])]"
    by (intro dset_new) simp
  have "set_refs rt row (sp_refs s @ [(key, PList [PStr col, PStr kind])]) (PDict e) = Inr (PDict (e @ rvals @ [(key, v)]))"
    if "distinct (map fst (e @ rvals @ [(key, v)]))" for e
  proof -
    have "set_refs rt row (sp_refs s) (PDict e) = Inr (PDict (e @ rvals))" using s(1) that by (simp add: split_of_def)
    moreover have "dset key v (e @ rvals) = e @ rvals @ [(key, v)]" using that by (subst dset_new) auto
    ultimately show ?thesis by (simp add: set_refs_append r set_item_def)
  qed
  moreover have "distinct (map fst (sp_base s))" using d by simp
  note dpop_mset [OF this v]
  ultimately show ?thesis using s(1) refs by (simp add: split_of_def n)
qed

lemma take_time_split:
  assumes s: "split_of rt row q s rvals tops" "distinct (map fst q)" and c: "stored_as rt c c'"
    "col = ''requested'' \<and> c' = or_requested row \<or> col = ''received'' \<and> c' = or_received row"
  shows "\<exists>rvals' tops'. split_of rt row q (take_time rt key col c s) rvals' tops'"
proof (cases "map_of (sp_base s) key")
  case None
  with s show ?thesis by (auto simp: take_time_def)
next
  case (Some v)
  show ?thesis
  proof (cases "timestamp_reference rt v c")
    case True
    from take_reference_split [OF s Some read_reference [OF True c]] Some True show ?thesis
      by (auto simp: take_time_def)
  next
    case False
    with take_member_split [OF s Some] Some show ?thesis by (auto simp: take_time_def)
  qed
qed

definition text_path :: "string list \<Rightarrow> pyval" where
  "text_path p = PList (map PStr p)"

lemma path_names_text [simp]: "path_names (text_path p) = Some p"
  by (induction p) (simp_all add: text_path_def)

lemma set_slots_append: "set_slots (xs @ ys) v = bindE (set_slots xs v) (set_slots ys)"
proof (induction xs v rule: set_slots.induct)
  case (2 p x ps v)
  then show ?case by (cases "path_names p") (auto simp: bindE_assoc intro!: bindE_cong)
qed simp

lemma set_slots_append_fun: "set_slots (xs @ ys) = (\<lambda>v. bindE (set_slots xs v) (set_slots ys))"
  by (rule ext) (rule set_slots_append)

lemma set_slots_tops:
  "distinct (map fst (d @ tops)) \<Longrightarrow> set_slots (zip (map (\<lambda>kv. text_path [fst kv]) tops) (map snd tops)) (PDict d) = Inr (PDict (d @ tops))"
proof (induction tops arbitrary: d)
  case (Cons kv tops)
  have "dset (fst kv) (snd kv) d = d @ [kv]" using Cons.prems by (subst dset_new) auto
  with Cons show ?case by (simp add: set_item_def)
qed simp

text \<open>Putting the percentages back into the windows.\<close>

fun refill :: "pydict \<Rightarrow> pydict" where
  "refill [] = []"
| "refill ((name, w) # ws) = (name, (case w of
      PDict d \<Rightarrow> (case map_of d ''used_percent'' of
          Some v \<Rightarrow> PDict (dset ''used_percent'' v (dpop ''used_percent'' d)) | None \<Rightarrow> w) | _ \<Rightarrow> w)) # refill ws"

lemma split_windows_names: "map fst (fst (split_windows ws)) = map fst ws"
  by (induction ws rule: split_windows.induct) (auto simp: Let_def split: prod.split pyval.split option.split)

lemma map_of_middle: "name \<notin> fst ` set pre \<Longrightarrow> ((map_of u)(name \<mapsto> z) ++ map_of pre) name = Some z"
  by (auto simp: map_add_def split: option.split dest: map_of_SomeD intro: rev_image_eqI)

lemma dset_middle: "name \<notin> fst ` set pre \<Longrightarrow> dset name u (pre @ (name, w) # ws) = pre @ (name, u) # ws"
  unfolding dset_def by (induction pre) auto

lemma dset_dset: "dset k u (dset k v d) = dset k u d"
  unfolding dset_def by (induction d) auto

lemma set_slots_windows:
  assumes "split_windows ws = (ws', slots, changing)" and "distinct (map fst (pre @ ws))"
  shows "set_slots (zip (map text_path slots) changing) (PDict (dset ''windows'' (PDict (pre @ ws')) d)) =
    Inr (PDict (dset ''windows'' (PDict (pre @ refill ws)) d))"
  using assms
proof (induction ws arbitrary: pre ws' slots changing)
  case (Cons e ws)
  obtain name w where e: "e = (name, w)" by (cases e)
  obtain u s c where r: "split_windows ws = (u, s, c)" by (cases "split_windows ws")
  have n: "name \<notin> fst ` set pre" using Cons.prems(2) e by auto
  have IH: "set_slots (zip (map text_path s) c) (PDict (dset ''windows'' (PDict (pre @ (name, x) # u)) d)) =
      Inr (PDict (dset ''windows'' (PDict (pre @ (name, x) # refill ws)) d))" for x
    using Cons.IH [OF r, of "pre @ [(name, x)]"] r Cons.prems(2) e by simp
  show ?case
  proof (cases "\<exists>m v. w = PDict m \<and> map_of m ''used_percent'' = Some v")
    case True
    then obtain m v where m: "w = PDict m" "map_of m ''used_percent'' = Some v" by blast
    from Cons.prems(1) e r m have x: "ws' = (name, PDict (dpop ''used_percent'' m)) # u"
      "slots = [''windows'', name, ''used_percent''] # s" "changing = v # c" by auto
    have f: "map_of (dset ''windows'' z d) ''windows'' = Some z" for z by (simp add: dset_def update_conv')
    show ?thesis
      by (simp add: x e m IH set_item_def item_def f map_of_middle [OF n] dset_middle [OF n] dset_dset)
  next
    case False
    with Cons.prems(1) e r have "ws' = (name, w) # u" "slots = s" "changing = c" by (auto split: pyval.splits option.splits)
    with IH False e show ?thesis by (auto split: pyval.split option.split)
  qed
qed simp

lemma dset_dpop_canon:
  assumes "distinct (map fst d)" "map_of d k = Some v"
  shows "canon (PDict (dset k v (dpop k d))) = canon (PDict d)"
proof (rule canon_dict_eq)
  show "distinct (map fst (dset k v (dpop k d)))"
    unfolding dset_def dpop_def by (intro distinct_update distinct_delete assms)
qed (use assms in \<open>simp_all add: dset_def dpop_def update_conv' delete_conv'\<close>)

lemma refill_canon:
  "list_all (\<lambda>(k, x). json_ok rd f x) ws \<Longrightarrow> map (\<lambda>kv. (fst kv, canon (snd kv))) (refill ws) = map (\<lambda>kv. (fst kv, canon (snd kv))) ws"
proof (induction ws rule: refill.induct)
  case (2 name w ws)
  have "canon (case w of PDict d \<Rightarrow> (case map_of d ''used_percent'' of
      Some v \<Rightarrow> PDict (dset ''used_percent'' v (dpop ''used_percent'' d)) | None \<Rightarrow> w) | _ \<Rightarrow> w) = canon w"
    using 2(2) dset_dpop_canon by (auto simp del: canon.simps split: pyval.split option.split)
  with 2 show ?case by simp
qed simp

lemma refill_dict_canon:
  assumes "list_all (\<lambda>(k, x). json_ok rd f x) ws"
  shows "canon (PDict (refill ws)) = canon (PDict ws)"
  using refill_canon [OF assms] by simp

definition refilled :: "'d runtime \<Rightarrow> observation_row \<Rightarrow> split_state \<Rightarrow> pyerror + pyval" where
  "refilled rt row s = bindE (set_refs rt row (sp_refs s) (PDict (sp_base s)))
     (set_slots (zip (map text_path (sp_slots s)) (sp_changing s)))"

lemma refill_tops:
  assumes s: "split_of rt row q s rvals tops" "distinct (map fst q)" and b: "map fst b = map fst (sp_base s)"
  shows "bindE (set_refs rt row (sp_refs s) (PDict b)) (set_slots (zip (map text_path (sp_slots s)) (sp_changing s))) =
    Inr (PDict (b @ rvals @ tops))"
proof -
  have "distinct (map fst b @ map fst rvals @ map fst tops)" using split_of_distinct [OF s] b by simp
  then have d: "distinct (map fst (b @ rvals))" "distinct (map fst ((b @ rvals) @ tops))" by auto
  from s(1) d(1) have "set_refs rt row (sp_refs s) (PDict b) = Inr (PDict (b @ rvals))" by (simp add: split_of_def)
  with set_slots_tops [OF d(2)] s(1) show ?thesis by (simp add: split_of_def o_def)
qed

lemma dset_left: "k \<in> fst ` set b \<Longrightarrow> dset k v (b @ e) = dset k v b @ e"
  unfolding dset_def by (induction b) auto

lemma dset_keys: "k \<in> fst ` set b \<Longrightarrow> map fst (dset k v b) = map fst b"
  unfolding dset_def by (simp add: update_keys)

lemma split_of_map:
  assumes s: "split_of rt row q s rvals tops" "distinct (map fst q)"
  shows "map_of (sp_base s @ rvals @ tops) = map_of q"
proof -
  have "set (sp_base s @ rvals @ tops) = set q" using s(1) unfolding split_of_def by (metis set_mset_mset)
  then show ?thesis using map_of_inject_set [OF split_of_distinct [OF s] s(2)] by blast
qed

lemma split_windows_length: "split_windows ws = (u, sl, ch) \<Longrightarrow> length sl = length ch"
  by (induction ws arbitrary: u sl ch rule: split_windows.induct)
    (auto simp: Let_def split: prod.splits pyval.splits option.splits)

lemma json_ok_member: "json_ok rd f (PDict d) \<Longrightarrow> (k, v) \<in> set d \<Longrightarrow> json_ok rd f v"
  by (fastforce simp: list_all_iff)

lemma refilled_windows:
  assumes s: "split_of rt row q s rvals tops" and ok: "json_ok rd f (PDict q)"
  shows "\<exists>d. refilled rt row (take_windows s) = Inr (PDict d) \<and> canon (PDict d) = canon (PDict q) \<and>
    length (sp_slots (take_windows s)) = length (sp_changing (take_windows s))"
proof -
  have q: "distinct (map fst q)" using ok by simp
  let ?d = "sp_base s @ rvals @ tops"
  have d: "distinct (map fst ?d)" by (rule split_of_distinct [OF s q])
  have m: "map_of ?d = map_of q" by (rule split_of_map [OF s q])
  have l: "length (sp_slots s) = length (sp_changing s)" using s by (simp add: split_of_def)
  show ?thesis
  proof (cases "\<exists>ws. map_of (sp_base s) ''windows'' = Some (PDict ws)")
    case False
    then have e: "take_windows s = s" by (auto simp: take_windows_def split: option.split pyval.split)
    have "refilled rt row s = Inr (PDict ?d)" unfolding refilled_def by (rule refill_tops [OF s q]) simp
    moreover have "canon (PDict ?d) = canon (PDict q)" by (rule canon_dict_eq [OF d q]) (simp only: m)
    ultimately show ?thesis using e l by auto
  next
    case True
    then obtain ws where w: "map_of (sp_base s) ''windows'' = Some (PDict ws)" by blast
    obtain u sl ch where sw: "split_windows ws = (u, sl, ch)" by (cases "split_windows ws")
    have wk: "''windows'' \<in> fst ` set (sp_base s)" using w by (metis map_of_eq_None_iff option.distinct(1))
    have wd: "map_of ?d ''windows'' = Some (PDict ws)" using w by simp
    then have wq: "map_of q ''windows'' = Some (PDict ws)" by (simp only: m)
    have "(''windows'', PDict ws) \<in> set q" using wq by (rule map_of_SomeD)
    from json_ok_member [OF ok this] have "json_ok rd f (PDict ws)" .
    then have ws: "distinct (map fst ([] @ ws))" "list_all (\<lambda>(k, x). json_ok rd f x) ws" by simp_all
    let ?b = "dset ''windows'' (PDict u) (sp_base s)"
    have e: "take_windows s = s\<lparr>sp_base := ?b, sp_slots := sp_slots s @ sl, sp_changing := sp_changing s @ ch\<rparr>"
      by (simp add: take_windows_def w sw)
    have "refilled rt row (take_windows s) =
        bindE (bindE (set_refs rt row (sp_refs s) (PDict ?b)) (set_slots (zip (map text_path (sp_slots s)) (sp_changing s))))
          (set_slots (zip (map text_path sl) ch))"
      using l by (simp add: refilled_def e set_slots_append_fun bindE_assoc)
    also have "\<dots> = set_slots (zip (map text_path sl) ch) (PDict (?b @ rvals @ tops))"
      using refill_tops [OF s q dset_keys [OF wk]] by simp
    also have "?b @ rvals @ tops = dset ''windows'' (PDict ([] @ u)) ?d" using dset_left [OF wk] by simp
    also have "set_slots (zip (map text_path sl) ch) (PDict \<dots>) = Inr (PDict (dset ''windows'' (PDict ([] @ refill ws)) ?d))"
      by (rule set_slots_windows [OF sw ws(1)])
    finally have r: "refilled rt row (take_windows s) = Inr (PDict (dset ''windows'' (PDict (refill ws)) ?d))" by simp
    have "canon (PDict (dset ''windows'' (PDict (refill ws)) ?d)) = canon (PDict q)"
    proof (rule canon_dict_eq [OF _ q])
      show "distinct (map fst (dset ''windows'' (PDict (refill ws)) ?d))"
        unfolding dset_def by (rule distinct_update [OF d])
      show "map_option canon (map_of (dset ''windows'' (PDict (refill ws)) ?d) k) = map_option canon (map_of q k)" for k
        using refill_dict_canon [OF ws(2)] wq by (simp add: dset_def update_conv' m del: canon.simps map_of_append)
    qed
    moreover have "length (sp_slots (take_windows s)) = length (sp_changing (take_windows s))"
      using l split_windows_length [OF sw] by (simp add: e)
    ultimately show ?thesis using r by blast
  qed
qed

lemma split_value_refilled:
  assumes ok: "json_ok rd f (PDict q)"
    and c: "stored_as rt requested (or_requested row)" "stored_as rt received (or_received row)"
  shows "\<exists>d. refilled rt row (split_value rt requested received q) = Inr (PDict d) \<and> canon (PDict d) = canon (PDict q) \<and>
    length (sp_slots (split_value rt requested received q)) = length (sp_changing (split_value rt requested received q))"
proof -
  have q: "distinct (map fst q)" using ok by simp
  have "split_of rt row q \<lparr>sp_base = q, sp_refs = [], sp_slots = [], sp_changing = []\<rparr> [] []" by (simp add: split_of_def)
  from take_time_split [OF this q c(1)]
  obtain r1 t1 where "split_of rt row q (take_time rt ''requested_at'' ''requested'' requested
      \<lparr>sp_base = q, sp_refs = [], sp_slots = [], sp_changing = []\<rparr>) r1 t1" by blast
  from take_time_split [OF this q c(2)]
  obtain r2 t2 s2 where s2: "split_of rt row q s2 r2 t2"
    and e: "split_value rt requested received q = take_windows (take_elapsed s2)" unfolding split_value_def by blast
  have "\<exists>t3. split_of rt row q (take_elapsed s2) r2 t3"
  proof (cases "map_of (sp_base s2) ''elapsed''")
    case None
    with s2 show ?thesis by (auto simp: take_elapsed_def)
  next
    case (Some v)
    from take_member_split [OF s2 q this] Some show ?thesis by (auto simp: take_elapsed_def)
  qed
  then obtain t3 where "split_of rt row q (take_elapsed s2) r2 t3" by blast
  from refilled_windows [OF this ok] show ?thesis unfolding e .
qed

section \<open>The split texts are readable\<close>

definition split_ok :: "(string \<Rightarrow> pyval) \<Rightarrow> (rat \<Rightarrow> string) \<Rightarrow> split_state \<Rightarrow> bool" where
  "split_ok rd f s = (json_ok rd f (PDict (sp_base s)) \<and> json_ok rd f (PDict (sp_refs s)) \<and>
     list_all (json_ok rd f) (sp_changing s))"

lemma json_ok_dict:
  "json_ok rd f (PDict d) \<longleftrightarrow> distinct (map fst d) \<and> (\<forall>k v. map_of d k = Some v \<longrightarrow> json_ok rd f v)"
  by (auto simp: list_all_iff dest: map_of_SomeD)

lemma json_ok_dpop: "json_ok rd f (PDict d) \<Longrightarrow> json_ok rd f (PDict (dpop k d))"
  unfolding json_ok_dict dpop_def by (simp add: delete_conv' distinct_delete)

lemma json_ok_dset: "json_ok rd f (PDict d) \<Longrightarrow> json_ok rd f v \<Longrightarrow> json_ok rd f (PDict (dset k v d))"
  unfolding json_ok_dict dset_def by (simp add: update_conv' distinct_update)

lemma json_ok_map: "json_ok rd f (PDict d) \<Longrightarrow> map_of d k = Some v \<Longrightarrow> json_ok rd f v"
  unfolding json_ok_dict by simp

lemma take_member_ok: "split_ok rd f s \<Longrightarrow> map_of (sp_base s) key \<noteq> None \<Longrightarrow> split_ok rd f (take_member key s)"
  using json_ok_dpop json_ok_map by (auto simp: split_ok_def take_member_def dget_def dget_or_def simp del: json_ok.simps(3))

lemma take_time_ok: "split_ok rd f s \<Longrightarrow> split_ok rd f (take_time rt key col c s)"
proof (cases "map_of (sp_base s) key")
  case (Some v)
  assume s: "split_ok rd f s"
  have "split_ok rd f (s\<lparr>sp_refs := dset key (PList [PStr col, PStr kind]) (sp_refs s), sp_base := dpop key (sp_base s)\<rparr>)" for kind
    using s json_ok_dpop json_ok_dset by (simp add: split_ok_def del: json_ok.simps(3))
  with take_member_ok [OF s] Some show ?thesis by (auto simp: take_time_def)
qed (simp add: take_time_def)

lemma split_windows_ok:
  "json_ok rd f (PDict ws) \<Longrightarrow> split_windows ws = (u, sl, ch) \<Longrightarrow>
    list_all (\<lambda>(k, x). json_ok rd f x) u \<and> list_all (json_ok rd f) ch"
proof (induction ws arbitrary: u sl ch)
  case (Cons e ws)
  obtain name w where e: "e = (name, w)" by (cases e)
  obtain u1 s1 c1 where r: "split_windows ws = (u1, s1, c1)" by (cases "split_windows ws")
  from Cons e r have IH: "list_all (\<lambda>(k, x). json_ok rd f x) u1" "list_all (json_ok rd f) c1" and w: "json_ok rd f w"
    by simp_all
  show ?case
  proof (cases "\<exists>m v. w = PDict m \<and> map_of m ''used_percent'' = Some v")
    case True
    then obtain m v where m: "w = PDict m" "map_of m ''used_percent'' = Some v" by blast
    from Cons.prems(2) e r m IH json_ok_dpop [of rd f m "''used_percent''"] json_ok_map [of rd f m "''used_percent''" v] w
    show ?thesis by (auto simp del: json_ok.simps(3))
  next
    case False
    with Cons.prems(2) e r IH w show ?thesis by (auto split: pyval.splits option.splits)
  qed
qed simp

lemma take_windows_ok: "split_ok rd f s \<Longrightarrow> split_ok rd f (take_windows s)"
proof (cases "\<exists>ws. map_of (sp_base s) ''windows'' = Some (PDict ws)")
  case True
  assume s: "split_ok rd f s"
  from True obtain ws where w: "map_of (sp_base s) ''windows'' = Some (PDict ws)" by blast
  obtain u sl ch where sw: "split_windows ws = (u, sl, ch)" by (cases "split_windows ws")
  have ok: "json_ok rd f (PDict ws)" using s w json_ok_map by (fastforce simp: split_ok_def simp del: json_ok.simps)
  from split_windows_ok [OF ok sw] split_windows_names [of ws] sw ok have "json_ok rd f (PDict u)" by simp
  with json_ok_dset [of rd f "sp_base s" "PDict u" "''windows''"] s split_windows_ok [OF ok sw] show ?thesis
    by (simp add: take_windows_def w sw split_ok_def del: json_ok.simps(3))
next
  case False
  then have "take_windows s = s" by (auto simp: take_windows_def split: option.split pyval.split)
  then show "split_ok rd f s \<Longrightarrow> split_ok rd f (take_windows s)" by simp
qed

lemma take_elapsed_ok: "split_ok rd f s \<Longrightarrow> split_ok rd f (take_elapsed s)"
  using take_member_ok by (simp add: take_elapsed_def)

lemma split_value_ok: "json_ok rd f (PDict q) \<Longrightarrow> split_ok rd f (split_value rt requested received q)"
  unfolding split_value_def
  by (intro take_windows_ok take_elapsed_ok take_time_ok) (simp add: split_ok_def)

lemma path_ok: "json_ok rd f (text_path p)"
  by (induction p) (simp_all add: text_path_def)

lemma template_ok: "split_ok rd f s \<Longrightarrow> json_ok rd f (template_value s)"
  using path_ok [of rd f] by (simp add: split_ok_def template_value_def list_all_iff text_path_def)

section \<open>Templates in storage\<close>

definition inflates :: "'d runtime \<Rightarrow> bool" where
  "inflates rt = (\<forall>t. rt_inflate rt (rt_deflate rt t) = Some (t, True, False))"

lemma unpack_packed:
  assumes "inflates rt" "json_ok (rt_read rt) (rt_print rt) v" "length (json_text rt v) \<le> MAX_PAYLOAD_BYTES"
    "length (''T1'' @ rt_deflate rt (json_text rt v)) \<le> MAX_PAYLOAD_BYTES"
  shows "unpack_template rt (''T1'' @ rt_deflate rt (json_text rt v)) = Inr (json_text rt v)"
proof -
  have "list_all (\<lambda>c. (of_char c :: nat) < 128) (json_text rt v)"
    using dumps_clean(1) [OF assms(2), of True] by (auto simp: json_text_def clean_def list_all_iff)
  with assms show ?thesis by (simp add: unpack_template_def inflates_def)
qed

lemma find_append_None: "List.find P xs = None \<Longrightarrow> List.find P (xs @ [y]) = (if P y then Some y else None)"
  by (induction xs) (auto split: if_splits)

lemma context_of_new: "context_of (cs @ [\<lparr>cx_id = next_id cs, cx_digest = g, cx_data = x\<rparr>]) (next_id cs) =
    Some \<lparr>cx_id = next_id cs, cx_digest = g, cx_data = x\<rparr>"
proof -
  have "cx_id c \<noteq> next_id cs" if "c \<in> set cs" for c
  proof -
    have "cx_id c \<le> Max (insert 0 (set (map cx_id cs)))" by (rule Max_ge) (use that in auto)
    then show ?thesis by (simp add: next_id_def)
  qed
  then have "List.find (\<lambda>c. cx_id c = next_id cs) cs = None" by (auto simp: find_None_iff)
  then have "List.find (\<lambda>c. cx_id c = next_id cs) (cs @ [y]) = (if cx_id y = next_id cs then Some y else None)" for y
    by (rule find_append_None)
  then show ?thesis by (simp add: context_of_def)
qed

lemma context_of_found:
  assumes "distinct (map cx_id cs)" "List.find P cs = Some c"
  shows "context_of cs (cx_id c) = Some c"
proof -
  have "c \<in> set cs" using assms(2) by (auto simp: find_Some_iff)
  with assms(1) show ?thesis unfolding context_of_def by (induction cs) auto
qed

text \<open>What \<open>encode\<close> leaves: plain text, or a delta whose context gives the template.\<close>

lemma share_cases:
  assumes "share rt cs raw (t, d) = Inr (p, ctx, cs')" and raw: "length raw \<le> MAX_PAYLOAD_BYTES"
    and ids: "distinct (map cx_id cs)"
    and new: "length t \<le> MAX_PAYLOAD_BYTES \<Longrightarrow> length (''T1'' @ rt_deflate rt t) \<le> MAX_PAYLOAD_BYTES \<Longrightarrow>
      unpack_template rt (''T1'' @ rt_deflate rt t) = Inr t"
  shows "p = Text raw \<and> ctx = None \<and> cs' = cs \<or>
    (\<exists>i c. p = Bytes d \<and> ctx = Some i \<and> length d \<le> MAX_PAYLOAD_BYTES \<and> context_of cs' i = Some c \<and>
      unpack_template rt (cx_data c) = Inr t)"
proof (cases "length t > MAX_PAYLOAD_BYTES \<or> length d + 16 \<ge> length raw")
  case True
  with assms(1) show ?thesis by (auto simp: share_def)
next
  case n: False
  show ?thesis
  proof (cases "List.find (\<lambda>c. cx_digest c = rt_digest rt t) cs")
    case (Some c)
    from context_of_found [OF ids Some] Some n raw assms(1) show ?thesis
      by (cases "unpack_template rt (cx_data c)") (auto simp: share_def split: if_splits)
  next
    case None
    with assms(1) n raw new context_of_new [of cs "rt_digest rt t" "''T1'' @ rt_deflate rt t"] show ?thesis
      by (auto simp: share_def Let_def split: if_splits)
  qed
qed

lemma encode_cases:
  assumes e: "encode rt cs quota requested received = Inr (p, ctx, cs')" and s: "s = split_value rt requested received quota"
    and ok: "json_ok (rt_read rt) (rt_print rt) (PDict quota)" and z: "inflates rt" and ids: "distinct (map cx_id cs)"
  shows "p = Text (json_text rt (PDict quota)) \<and> ctx = None \<and> cs' = cs \<or>
    (\<exists>i c. p = Bytes (''Q1'' @ json_text rt (PList (sp_changing s))) \<and> ctx = Some i \<and>
      length (''Q1'' @ json_text rt (PList (sp_changing s))) \<le> MAX_PAYLOAD_BYTES \<and> context_of cs' i = Some c \<and>
      unpack_template rt (cx_data c) = Inr (json_text rt (template_value s)))"
proof -
  let ?raw = "json_text rt (PDict quota)" and ?t = "json_text rt (template_value s)"
  have "loads (rt_read rt) ?raw = Some (PDict quota)" unfolding json_text_def by (rule loads_dumps [OF ok])
  then have sp: "split_payload rt ?raw requested received = Inr (?t, ''Q1'' @ json_text rt (PList (sp_changing s)))"
    by (simp add: split_payload_def Let_def s)
  have tok: "json_ok (rt_read rt) (rt_print rt) (template_value s)" unfolding s by (rule template_ok [OF split_value_ok [OF ok]])
  show ?thesis
  proof (cases "length ?raw > MAX_PAYLOAD_BYTES \<or> length ?raw \<le> CONTEXT_OVERHEAD_BYTES")
    case True
    with e show ?thesis by (auto simp: encode_def Let_def)
  next
    case False
    with e sp have sh: "share rt cs ?raw (?t, ''Q1'' @ json_text rt (PList (sp_changing s))) = Inr (p, ctx, cs')"
      by (simp add: encode_def Let_def)
    show ?thesis by (rule share_cases [OF sh _ ids unpack_packed [OF z tok]]) (use False in auto)
  qed
qed

section \<open>The reader's cache\<close>

definition reader_ok :: "'d runtime \<Rightarrow> 'd context_row list \<Rightarrow> reader \<Rightarrow> bool" where
  "reader_ok rt cs r = (distinct (map fst (rd_contexts r)) \<and>
     (\<forall>(i, v, w) \<in> set (rd_contexts r). load_context rt cs i = Inr v) \<and>
     rd_bytes r = sum_list (map (snd \<circ> snd) (rd_contexts r)) \<and>
     rd_bytes r \<le> CONTEXT_CACHE_BYTES \<and> length (rd_contexts r) \<le> CONTEXT_CACHE_ENTRIES)"

lemma evict_suffix: "\<exists>n. fst (evict es b) = drop n es"
proof (induction es b rule: evict.induct)
  case (2 e es b)
  show ?case
  proof (cases "b > CONTEXT_CACHE_BYTES \<or> length (e # es) > CONTEXT_CACHE_ENTRIES")
    case True
    with 2 obtain n where "fst (evict es (b - snd (snd e))) = drop n es" by blast
    then have "fst (evict (e # es) b) = drop (Suc n) (e # es)" using True by simp
    then show ?thesis by blast
  next
    case False
    then have "fst (evict (e # es) b) = drop 0 (e # es)" by simp
    then show ?thesis by blast
  qed
qed simp

lemma evict_bounds:
  "b = sum_list (map (snd \<circ> snd) es) \<Longrightarrow> snd (evict es b) = sum_list (map (snd \<circ> snd) (fst (evict es b))) \<and>
    snd (evict es b) \<le> CONTEXT_CACHE_BYTES \<and> length (fst (evict es b)) \<le> CONTEXT_CACHE_ENTRIES"
  by (induction es b rule: evict.induct) (auto simp: CONTEXT_CACHE_BYTES_def CONTEXT_CACHE_ENTRIES_def)

lemma delete_cached:
  fixes es :: "(nat \<times> pyval \<times> nat) list"
  assumes "distinct (map fst es)" and "map_of es i = Some (v, w)"
  shows "sum_list (map (snd \<circ> snd) (AList.delete i es)) + w = sum_list (map (snd \<circ> snd) es)"
    and "Suc (length (AList.delete i es)) = length es"
proof -
  note m = delete_mset [OF assms]
  have "sum_mset (image_mset (snd \<circ> snd) (mset es)) = w + sum_mset (image_mset (snd \<circ> snd) (mset (AList.delete i es)))"
    by (simp add: m)
  then show "sum_list (map (snd \<circ> snd) (AList.delete i es)) + w = sum_list (map (snd \<circ> snd) es)"
    by (simp flip: mset_map add: sum_mset_sum_list)
  from arg_cong [OF m, of size] show "Suc (length (AList.delete i es)) = length es" by simp
qed

lemma parts_load:
  assumes r: "reader_ok rt cs r"
  shows "fst (parts rt cs i r) = load_context rt cs i" and "reader_ok rt cs (snd (parts rt cs i r))"
proof -
  have both: "fst (parts rt cs i r) = load_context rt cs i \<and> reader_ok rt cs (snd (parts rt cs i r))"
  proof (cases "map_of (rd_contexts r) i")
    case (Some vw)
    obtain v w where vw: "vw = (v, w)" by (cases vw)
    have m: "(i, v, w) \<in> set (rd_contexts r)" using Some vw by (auto dest: map_of_SomeD)
    have "reader_ok rt cs (r\<lparr>rd_contexts := AList.delete i (rd_contexts r) @ [(i, v, w)]\<rparr>)"
      using r m delete_cached [of "rd_contexts r" i v w] Some vw delete_notin_dom [of i "rd_contexts r"]
        distinct_delete [of "rd_contexts r" i]
      by (auto simp: reader_ok_def) (auto simp: AList.delete_eq)
    with r m Some vw show ?thesis by (auto simp: parts_def reader_ok_def)
  next
    case None
    show ?thesis
    proof (cases "load_context rt cs i")
      case (Inl e)
      with None r show ?thesis by (simp add: parts_def)
    next
      case (Inr v)
      let ?w = "rt_pickled rt v + 192"
      let ?es = "rd_contexts r @ [(i, v, ?w)]"
      obtain es b where ev: "evict ?es (rd_bytes r + ?w) = (es, b)" by (cases "evict ?es (rd_bytes r + ?w)")
      have "i \<notin> fst ` set (rd_contexts r)" using None by (simp add: map_of_eq_None_iff)
      then have d: "distinct (map fst ?es)" "\<forall>(j, u, w) \<in> set ?es. load_context rt cs j = Inr u"
        using r Inr by (auto simp: reader_ok_def)
      obtain n where n: "es = drop n ?es" using evict_suffix [of ?es "rd_bytes r + ?w"] ev by auto
      have "distinct (map fst es)" unfolding n drop_map [symmetric] by (rule distinct_drop [OF d(1)])
      moreover have "\<forall>(j, u, w) \<in> set es. load_context rt cs j = Inr u"
        using d(2) unfolding n by (meson in_set_dropD)
      moreover have "rd_bytes r + ?w = sum_list (map (snd \<circ> snd) ?es)" using r by (simp add: reader_ok_def)
      from evict_bounds [OF this] ev have "b = sum_list (map (snd \<circ> snd) es)" "b \<le> CONTEXT_CACHE_BYTES"
        "length es \<le> CONTEXT_CACHE_ENTRIES" by simp_all
      ultimately have "reader_ok rt cs (r\<lparr>rd_contexts := es, rd_bytes := b\<rparr>)" by (simp add: reader_ok_def)
      with None Inr ev show ?thesis by (simp add: parts_def Let_def)
    qed
  qed
  then show "fst (parts rt cs i r) = load_context rt cs i" "reader_ok rt cs (snd (parts rt cs i r))" by simp_all
qed

section \<open>The round trip\<close>

lemma fill_template:
  assumes "refilled rt row s = Inr v" and "length (sp_slots s) = length (sp_changing s)"
  shows "fill rt row (template_value s) (Some (PList (sp_changing s))) = Inr v"
proof -
  have "item (template_value s) ''data'' = Inr (PDict (sp_base s))" "item (template_value s) ''refs'' = Inr (PDict (sp_refs s))"
    "item (template_value s) ''slots'' = Inr (PList (map text_path (sp_slots s)))"
    by (simp_all add: item_def template_value_def text_path_def [abs_def])
  with assms show ?thesis by (simp add: fill_def refilled_def)
qed

lemma decode_delta:
  assumes r: "reader_ok rt cs r" and ok: "json_ok (rt_read rt) (rt_print rt) (PList xs)"
    and row: "or_data row = Bytes (''Q1'' @ json_text rt (PList xs))" "or_context row = Some i"
    and l: "length (''Q1'' @ json_text rt (PList xs)) \<le> MAX_PAYLOAD_BYTES"
  shows "fst (decode rt cs row r) = bindE (load_context rt cs i) (\<lambda>v. fill rt row v (Some (PList xs)))"
    and "reader_ok rt cs (snd (decode rt cs row r))"
proof -
  have "loads_bytes (rt_read rt) (json_text rt (PList xs)) = Some (PList xs)"
    using loads_bytes_dumps [OF ok, of True] dumps_utf8 [OF ok] by (simp add: json_text_def)
  then have d: "decode rt cs row r = (case parts rt cs i r of (p, r') \<Rightarrow>
      (bindE p (\<lambda>v. fill rt row v (Some (PList xs))), r'))"
    using row l by (simp add: decode_def)
  from parts_load [OF r, of i] show "fst (decode rt cs row r) = bindE (load_context rt cs i) (\<lambda>v. fill rt row v (Some (PList xs)))"
    "reader_ok rt cs (snd (decode rt cs row r))" by (simp_all add: d split_beta)
qed

lemma encode_decode:
  assumes z: "inflates rt" and ok: "json_ok (rt_read rt) (rt_print rt) (PDict quota)" and ids: "distinct (map cx_id cs)"
    and e: "encode rt cs quota requested received = Inr (or_data row, or_context row, cs')"
    and c: "stored_as rt requested (or_requested row)" "stored_as rt received (or_received row)"
    and ext: "\<And>i x. context_of cs' i = Some x \<Longrightarrow> context_of db i = Some x"
    and r: "reader_ok rt db r"
  shows "\<exists>v. fst (decode rt db row r) = Inr v \<and> canon v = canon (PDict quota)"
proof -
  let ?s = "split_value rt requested received quota"
  from encode_cases [OF e refl ok z ids] show ?thesis
  proof
    assume "or_data row = Text (json_text rt (PDict quota)) \<and> or_context row = None \<and> cs' = cs"
    then show ?thesis using loads_dumps [OF ok, of True] by (simp add: decode_def json_text_def)
  next
    assume "\<exists>i c. or_data row = Bytes (''Q1'' @ json_text rt (PList (sp_changing ?s))) \<and> or_context row = Some i \<and>
      length (''Q1'' @ json_text rt (PList (sp_changing ?s))) \<le> MAX_PAYLOAD_BYTES \<and> context_of cs' i = Some c \<and>
      unpack_template rt (cx_data c) = Inr (json_text rt (template_value ?s))"
    then obtain i c where row: "or_data row = Bytes (''Q1'' @ json_text rt (PList (sp_changing ?s)))" "or_context row = Some i"
      and l: "length (''Q1'' @ json_text rt (PList (sp_changing ?s))) \<le> MAX_PAYLOAD_BYTES"
      and cx: "context_of cs' i = Some c" "unpack_template rt (cx_data c) = Inr (json_text rt (template_value ?s))" by blast
    note sok = split_value_ok [OF ok, of rt requested received]
    have "loads (rt_read rt) (json_text rt (template_value ?s)) = Some (template_value ?s)"
      unfolding json_text_def by (rule loads_dumps [OF template_ok [OF sok]])
    with ext [OF cx(1)] cx(2) have load: "load_context rt db i = Inr (template_value ?s)" by (simp add: load_context_def)
    from split_value_refilled [OF ok c] obtain d where d: "refilled rt row ?s = Inr (PDict d)"
      "canon (PDict d) = canon (PDict quota)" "length (sp_slots ?s) = length (sp_changing ?s)" by blast
    have "json_ok (rt_read rt) (rt_print rt) (PList (sp_changing ?s))" using sok by (simp add: split_ok_def)
    from decode_delta(1) [OF r this row l] load fill_template [OF d(1,3)] d(2) show ?thesis by auto
  qed
qed

lemma new_reader_ok: "reader_ok rt cs new_reader"
  by (simp add: reader_ok_def new_reader_def)

text \<open>A delta with its share of a new template is shorter than the text it replaces.\<close>

fun payload_length :: "payload \<Rightarrow> nat" where
  "payload_length (Text s) = length s"
| "payload_length (Bytes s) = length s"

lemma share_saves:
  assumes "share rt cs raw (t, d) = Inr (p, ctx, cs')"
  shows "payload_length p + sum_list (map (length \<circ> cx_data) cs') \<le> length raw + sum_list (map (length \<circ> cx_data) cs)"
  using assms unfolding share_def
  by (auto simp: Let_def bindE_Inr_conv split: if_splits option.splits)

lemma encode_saves:
  assumes "encode rt cs quota requested received = Inr (p, ctx, cs')"
  shows "payload_length p + sum_list (map (length \<circ> cx_data) cs') \<le>
    length (json_text rt (PDict quota)) + sum_list (map (length \<circ> cx_data) cs)"
proof (cases "length (json_text rt (PDict quota)) > MAX_PAYLOAD_BYTES \<or> length (json_text rt (PDict quota)) \<le> CONTEXT_OVERHEAD_BYTES")
  case True
  with assms show ?thesis by (auto simp: encode_def Let_def)
next
  case False
  with assms obtain td where "share rt cs (json_text rt (PDict quota)) td = Inr (p, ctx, cs')"
    by (auto simp: encode_def Let_def bindE_Inr_conv)
  then show ?thesis using share_saves by (cases td) blast
qed

section \<open>The migration\<close>

text \<open>
  One batch of \<open>PayloadMigration.step\<close>. The rows are in \<open>seq\<close> order. What the machine decides
  is the \<open>attempt\<close>: free disk space, the state of the log file, the lock, the weight of each row
  (\<open>None\<close> when SQLite refuses a row as too big), whether the deadline has passed after it, and
  how the commit ends. Of the errors of the model the \<open>except\<close> clause names \<open>ValueError\<close> only:
  any other, \<open>zlib.error\<close> of a damaged template among them, leaves the transaction open.
\<close>

definition MIGRATION_ROWS :: nat where "MIGRATION_ROWS = 512"
definition MIGRATION_BYTES :: nat where "MIGRATION_BYTES = 1024 * 1024"

record 'd migration =
  mg_rows :: "(nat \<times> observation_row) list"
  mg_contexts :: "'d context_row list"
  mg_after :: "nat option"
  mg_through :: "nat option"
  mg_done :: bool
  mg_pending :: bool
  mg_in_transaction :: bool

record attempt =
  at_low_disk :: bool
  at_log_busy :: bool
  at_locked :: bool
  at_weight :: "nat \<Rightarrow> nat option"
  at_late :: "nat \<Rightarrow> bool"
  at_commit :: "bool option"       \<comment> \<open>\<open>None\<close> it succeeds, \<open>Some b\<close> it fails, busy or not\<close>

record 'd scan =
  sc_contexts :: "'d context_row list"
  sc_reader :: reader
  sc_prepared :: "(nat \<times> observation_row) list"
  sc_scanned :: nat
  sc_size :: nat
  sc_after :: "nat option"

definition convert :: "'d runtime \<Rightarrow> nat \<Rightarrow> observation_row \<Rightarrow> 'd scan \<Rightarrow> pyerror + 'd scan" where
  "convert rt seq row s = (case or_data row of
      Bytes b \<Rightarrow> Inr s
    | Text t \<Rightarrow> (case loads (rt_read rt) t of
        Some (PDict quota) \<Rightarrow>
          bindE (encode rt (sc_contexts s) quota (or_requested row) (or_received row)) (\<lambda>(data, ctx, cs).
            case ctx of
              None \<Rightarrow> Inr (s\<lparr>sc_contexts := cs\<rparr>)
            | Some i \<Rightarrow>
                let new = row\<lparr>or_data := data, or_context := Some i\<rparr>; (v, r) = decode rt cs new (sc_reader s)
                in bindE v (\<lambda>restored.
                     if canon restored \<noteq> canon (PDict quota) then Inl (ValueError ''Quota payload conversion changed source content'')
                     else Inr (s\<lparr>sc_contexts := cs, sc_reader := r, sc_prepared := sc_prepared s @ [(seq, new)]\<rparr>)))
      | _ \<Rightarrow> Inr s))"

definition row_weight :: "attempt \<Rightarrow> nat \<Rightarrow> nat" where
  "row_weight a seq = (case at_weight a seq of None \<Rightarrow> 0 | Some n \<Rightarrow> n)"

definition visit :: "'d runtime \<Rightarrow> attempt \<Rightarrow> nat \<Rightarrow> observation_row \<Rightarrow> 'd scan \<Rightarrow> pyerror + 'd scan" where
  "visit rt a seq row s =
    (let s1 = s\<lparr>sc_scanned := sc_scanned s + 1, sc_after := Some seq, sc_size := sc_size s + row_weight a seq\<rparr>
     in if at_weight a seq \<noteq> None \<and> row_weight a seq \<le> MIGRATION_BYTES then convert rt seq row s1 else Inr s1)"

fun scan_rows :: "'d runtime \<Rightarrow> attempt \<Rightarrow> (nat \<times> observation_row) list \<Rightarrow> 'd scan \<Rightarrow> pyerror + 'd scan" where
  "scan_rows rt a [] s = Inr s"
| "scan_rows rt a ((seq, row) # rows) s =
    (if sc_scanned s > 0 \<and> sc_size s + row_weight a seq > MIGRATION_BYTES then Inr s
     else bindE (visit rt a seq row s) (\<lambda>s2. if at_late a seq then Inr s2 else scan_rows rt a rows s2))"

definition up_to :: "nat option \<Rightarrow> nat option \<Rightarrow> nat \<Rightarrow> bool" where
  "up_to after through seq = ((case after of None \<Rightarrow> True | Some n \<Rightarrow> n < seq) \<and>
     (case through of None \<Rightarrow> False | Some n \<Rightarrow> seq \<le> n))"

definition batch :: "'d migration \<Rightarrow> (nat \<times> observation_row) list" where
  "batch m = take MIGRATION_ROWS (filter (\<lambda>(seq, row). up_to (mg_after m) (mg_through m) seq) (mg_rows m))"

definition replace_rows :: "(nat \<times> observation_row) list \<Rightarrow> (nat \<times> observation_row) list \<Rightarrow> (nat \<times> observation_row) list" where
  "replace_rows prepared rows = map (\<lambda>(seq, row). (seq, case map_of prepared seq of None \<Rightarrow> row | Some new \<Rightarrow> new)) rows"

definition open_scan :: "'d migration \<Rightarrow> 'd scan" where
  "open_scan m = \<lparr>sc_contexts = mg_contexts m, sc_reader = new_reader, sc_prepared = [], sc_scanned = 0, sc_size = 0,
     sc_after = mg_after m\<rparr>"

definition rows_remain :: "'d scan \<Rightarrow> 'd migration \<Rightarrow> bool" where
  "rows_remain s m = (sc_after s \<noteq> None \<and> (\<exists>(seq, row) \<in> set (mg_rows m). up_to (sc_after s) (mg_through m) seq))"

definition committed :: "'d scan \<Rightarrow> 'd migration \<Rightarrow> 'd migration" where
  "committed s m = m\<lparr>mg_rows := replace_rows (sc_prepared s) (mg_rows m), mg_contexts := sc_contexts s,
     mg_after := sc_after s, mg_done := \<not> rows_remain s m, mg_pending := rows_remain s m\<rparr>"

definition rolled_back :: "pyerror \<Rightarrow> 'd migration \<Rightarrow> (pyerror + nat) \<times> 'd migration" where
  "rolled_back e m = (case e of
      ValueError x \<Rightarrow> (Inr 0, m\<lparr>mg_pending := False\<rparr>)
    | _ \<Rightarrow> (Inl e, m\<lparr>mg_in_transaction := True\<rparr>))"

definition may_start :: "attempt \<Rightarrow> 'd migration \<Rightarrow> bool" where
  "may_start a m = (mg_pending m \<and> \<not> mg_in_transaction m \<and> \<not> at_low_disk a \<and> \<not> at_log_busy a \<and> \<not> at_locked a)"

definition migrate :: "'d runtime \<Rightarrow> attempt \<Rightarrow> 'd migration \<Rightarrow> (pyerror + nat) \<times> 'd migration" where
  "migrate rt a m =
    (if \<not> may_start a m then (Inr 0, m)
     else if mg_done m then (Inr 0, m\<lparr>mg_pending := False\<rparr>)
     else case scan_rows rt a (batch m) (open_scan m) of
            Inl e \<Rightarrow> rolled_back e m
          | Inr s \<Rightarrow> (case at_commit a of
                None \<Rightarrow> (Inr (sc_scanned s), committed s m)
              | Some busy \<Rightarrow> (Inr 0, if busy then m else m\<lparr>mg_pending := False\<rparr>)))"

definition extends :: "'d context_row list \<Rightarrow> 'd context_row list \<Rightarrow> bool" where
  "extends cs db = (distinct (map cx_id db) \<and> (\<forall>i x. context_of cs i = Some x \<longrightarrow> context_of db i = Some x))"

lemma extends_refl: "distinct (map cx_id cs) \<Longrightarrow> extends cs cs"
  by (simp add: extends_def)

lemma extends_trans: "extends a b \<Longrightarrow> extends b c \<Longrightarrow> extends a c"
  by (simp add: extends_def)

lemma next_id_new: "next_id cs \<notin> set (map cx_id cs)"
proof
  assume "next_id cs \<in> set (map cx_id cs)"
  then have "next_id cs \<le> Max (insert 0 (set (map cx_id cs)))" by (intro Max_ge) auto
  then show False by (simp add: next_id_def)
qed

lemma extends_new:
  assumes "distinct (map cx_id cs)"
  shows "extends cs (cs @ [\<lparr>cx_id = next_id cs, cx_digest = g, cx_data = x\<rparr>])"
proof -
  have "context_of (cs @ ys) i = Some c" if "context_of cs i = Some c" for ys i c
    using that unfolding context_of_def by (induction cs) (auto split: if_splits)
  then show ?thesis using assms next_id_new [of cs] by (auto simp: extends_def)
qed

lemma share_extends:
  assumes "share rt cs raw td = Inr (p, ctx, cs')" and "distinct (map cx_id cs)"
  shows "extends cs cs'"
proof -
  obtain t d where td: "td = (t, d)" by (cases td)
  show ?thesis
    using assms extends_refl [OF assms(2)] extends_new [OF assms(2), of "rt_digest rt t" "''T1'' @ rt_deflate rt t"]
    by (auto simp: td share_def Let_def bindE_Inr_conv split: if_splits option.splits)
qed

lemma encode_extends:
  "encode rt cs quota requested received = Inr (p, ctx, cs') \<Longrightarrow> distinct (map cx_id cs) \<Longrightarrow> extends cs cs'"
  using extends_refl share_extends by (auto simp: encode_def Let_def bindE_Inr_conv split: if_splits)

lemma load_context_extends: "extends cs db \<Longrightarrow> load_context rt cs i = Inr v \<Longrightarrow> load_context rt db i = Inr v"
  by (auto simp: load_context_def extends_def split: option.splits)

lemma reader_ok_extends: "reader_ok rt cs r \<Longrightarrow> extends cs db \<Longrightarrow> reader_ok rt db r"
  using load_context_extends by (fastforce simp: reader_ok_def)

text \<open>What a row reads as, without a cache.\<close>

definition reads :: "'d runtime \<Rightarrow> 'd context_row list \<Rightarrow> observation_row \<Rightarrow> pyerror + pyval" where
  "reads rt cs row = fst (decode rt cs row new_reader)"

lemma decode_reads:
  assumes "reader_ok rt cs r"
  shows "fst (decode rt cs row r) = reads rt cs row" and "reader_ok rt cs (snd (decode rt cs row r))"
  using assms parts_load [OF assms] parts_load [OF new_reader_ok, of rt cs]
  by (auto simp: reads_def decode_def split_beta split: payload.split option.split)

lemma reads_extends:
  assumes "extends cs db" and "reads rt cs row = Inr v"
  shows "reads rt db row = Inr v"
proof -
  have l: "fst (parts rt db i new_reader) = Inr x" if "fst (parts rt cs i new_reader) = Inr x" for i x
    using that load_context_extends [OF assms(1)] by (simp add: parts_load(1) [OF new_reader_ok])
  show ?thesis
  proof (cases "or_data row")
    case (Bytes b)
    with assms(2) l show ?thesis
      by (auto simp: reads_def decode_def split_beta bindE_Inr_conv split: option.splits if_splits)
  qed (use assms(2) in \<open>simp add: reads_def decode_def\<close>)
qed

definition scan_ok :: "'d runtime \<Rightarrow> 'd migration \<Rightarrow> 'd scan \<Rightarrow> bool" where
  "scan_ok rt m s = (extends (mg_contexts m) (sc_contexts s) \<and> reader_ok rt (sc_contexts s) (sc_reader s) \<and>
     (\<forall>(seq, new) \<in> set (sc_prepared s). \<exists>row v w. (seq, row) \<in> set (mg_rows m) \<and>
        reads rt (mg_contexts m) row = Inr v \<and> reads rt (sc_contexts s) new = Inr w \<and> canon w = canon v))"

lemma convert_ok:
  assumes s: "scan_ok rt m s" and row: "(seq, row) \<in> set (mg_rows m)" and c: "convert rt seq row s = Inr s'"
  shows "scan_ok rt m s'"
proof (cases "or_data row")
  case (Bytes b)
  with s c show ?thesis by (simp add: convert_def)
next
  case (Text t)
  show ?thesis
  proof (cases "\<exists>quota. loads (rt_read rt) t = Some (PDict quota)")
    case False
    with s c Text show ?thesis by (auto simp: convert_def split: option.splits pyval.splits)
  next
    case True
    then obtain quota where l: "loads (rt_read rt) t = Some (PDict quota)" by blast
    from c Text l obtain data ctx cs where e: "encode rt (sc_contexts s) quota (or_requested row) (or_received row) = Inr (data, ctx, cs)"
      by (auto simp: convert_def bindE_Inr_conv)
    have x: "extends (sc_contexts s) cs"
      by (rule encode_extends [OF e]) (use s in \<open>simp add: scan_ok_def extends_def\<close>)
    then have x': "extends (mg_contexts m) cs" using s extends_trans by (auto simp: scan_ok_def)
    have old: "\<exists>row v w. (seq', row) \<in> set (mg_rows m) \<and> reads rt (mg_contexts m) row = Inr v \<and>
        reads rt cs new = Inr w \<and> canon w = canon v" if "(seq', new) \<in> set (sc_prepared s)" for seq' new
      using that s reads_extends [OF x] unfolding scan_ok_def by fastforce
    have r: "reader_ok rt cs (sc_reader s)" using s x reader_ok_extends by (auto simp: scan_ok_def)
    show ?thesis
    proof (cases ctx)
      case None
      with c Text l e have "s' = s\<lparr>sc_contexts := cs\<rparr>" by (simp add: convert_def)
      with x' r old show ?thesis by (auto simp: scan_ok_def)
    next
      case (Some i)
      let ?new = "row\<lparr>or_data := data, or_context := Some i\<rparr>"
      from c Text l e Some obtain restored where d: "fst (decode rt cs ?new (sc_reader s)) = Inr restored"
        "canon restored = canon (PDict quota)"
        and s': "s' = s\<lparr>sc_contexts := cs, sc_reader := snd (decode rt cs ?new (sc_reader s)),
          sc_prepared := sc_prepared s @ [(seq, ?new)]\<rparr>"
        by (auto simp: convert_def Let_def split_beta bindE_Inr_conv split: if_splits)
      have "reads rt cs ?new = Inr restored" using d(1) decode_reads(1) [OF r] by simp
      moreover have "reads rt (mg_contexts m) row = Inr (PDict quota)" using Text l by (simp add: reads_def decode_def)
      moreover have "reader_ok rt cs (snd (decode rt cs ?new (sc_reader s)))" by (rule decode_reads(2) [OF r])
      ultimately show ?thesis using x' old row d(2) by (fastforce simp: scan_ok_def s')
    qed
  qed
qed

lemma visit_ok:
  assumes s: "scan_ok rt m s" and row: "(seq, row) \<in> set (mg_rows m)" and v: "visit rt a seq row s = Inr s'"
  shows "scan_ok rt m s'"
proof -
  have "scan_ok rt m (s\<lparr>sc_scanned := sc_scanned s + 1, sc_after := Some seq, sc_size := sc_size s + row_weight a seq\<rparr>)"
    using s by (simp add: scan_ok_def)
  with convert_ok [OF this row] v show ?thesis by (auto simp: visit_def Let_def split: if_splits)
qed

lemma scan_rows_ok:
  "scan_ok rt m s \<Longrightarrow> set rows \<subseteq> set (mg_rows m) \<Longrightarrow> scan_rows rt a rows s = Inr s' \<Longrightarrow> scan_ok rt m s'"
proof (induction rt a rows s rule: scan_rows.induct)
  case (2 rt a seq row rows s)
  show ?case
  proof (cases "sc_scanned s > 0 \<and> sc_size s + row_weight a seq > MIGRATION_BYTES")
    case True
    with 2 show ?thesis by simp
  next
    case False
    from 2(4) False obtain s2 where s2: "visit rt a seq row s = Inr s2"
      and r: "(if at_late a seq then Inr s2 else scan_rows rt a rows s2) = Inr s'"
      by (auto simp: bindE_Inr_conv)
    have ok: "scan_ok rt m s2" by (rule visit_ok [OF 2(2) _ s2]) (use 2(3) in simp)
    show ?thesis
    proof (cases "at_late a seq")
      case True
      with r ok show ?thesis by simp
    next
      case late: False
      show ?thesis by (rule 2(1) [OF False s2 late ok]) (use 2(3) r late in auto)
    qed
  qed
qed simp

definition migration_ok :: "'d migration \<Rightarrow> bool" where
  "migration_ok m = (distinct (map cx_id (mg_contexts m)) \<and> sorted (map fst (mg_rows m)) \<and> distinct (map fst (mg_rows m)))"

text \<open>A row that can be read reads the same, up to the order of members, after a batch.\<close>

lemma committed_reads:
  assumes ok: "migration_ok m" and s: "scan_ok rt m s" and row: "(seq, row) \<in> set (mg_rows m)"
    and v: "reads rt (mg_contexts m) row = Inr v"
  shows "\<exists>new w. (seq, new) \<in> set (mg_rows (committed s m)) \<and> reads rt (mg_contexts (committed s m)) new = Inr w \<and> canon w = canon v"
proof (cases "map_of (sc_prepared s) seq")
  case None
  have "(seq, row) \<in> set (replace_rows (sc_prepared s) (mg_rows m))"
    unfolding replace_rows_def by (rule image_set [THEN equalityD1, THEN subsetD], rule image_eqI [OF _ row]) (simp add: None)
  moreover have "reads rt (sc_contexts s) row = Inr v" by (rule reads_extends [OF _ v]) (use s in \<open>simp add: scan_ok_def\<close>)
  ultimately show ?thesis by (auto simp: committed_def)
next
  case (Some new)
  have m: "(seq, new) \<in> set (replace_rows (sc_prepared s) (mg_rows m))"
    unfolding replace_rows_def by (rule image_set [THEN equalityD1, THEN subsetD], rule image_eqI [OF _ row]) (simp add: Some)
  from Some have "(seq, new) \<in> set (sc_prepared s)" by (rule map_of_SomeD)
  with s obtain row' v' w where r: "(seq, row') \<in> set (mg_rows m)" "reads rt (mg_contexts m) row' = Inr v'"
    "reads rt (sc_contexts s) new = Inr w" "canon w = canon v'" by (fastforce simp: scan_ok_def)
  have "row' = row" using r(1) row ok by (auto simp: migration_ok_def dest: eq_key_imp_eq_value)
  with m r v show ?thesis by (auto simp: committed_def)
qed

lemma replace_rows_seqs: "map fst (replace_rows p rows) = map fst rows"
  by (simp add: replace_rows_def o_def split_beta)

lemma committed_ok: "migration_ok m \<Longrightarrow> scan_ok rt m s \<Longrightarrow> migration_ok (committed s m)"
  by (simp add: migration_ok_def committed_def replace_rows_seqs scan_ok_def extends_def)

lemma open_scan_ok: "migration_ok m \<Longrightarrow> scan_ok rt m (open_scan m)"
  by (simp add: scan_ok_def open_scan_def migration_ok_def extends_refl new_reader_ok)

lemma batch_rows: "set (batch m) \<subseteq> set (mg_rows m)"
  unfolding batch_def by (meson filter_is_subset set_take_subset subset_trans)

text \<open>The outcomes of a batch.\<close>

lemma rolled_back_fields [simp]:
  "mg_rows (snd (rolled_back e m)) = mg_rows m" "mg_contexts (snd (rolled_back e m)) = mg_contexts m"
  "mg_after (snd (rolled_back e m)) = mg_after m" "mg_through (snd (rolled_back e m)) = mg_through m"
  "mg_done (snd (rolled_back e m)) = mg_done m"
  by (cases e; simp add: rolled_back_def)+

lemma rolled_back_ends [simp]: "mg_pending (snd (rolled_back e m)) \<Longrightarrow> mg_in_transaction (snd (rolled_back e m))"
  by (cases e) (simp_all add: rolled_back_def)

lemma migrate_cases:
  obtains s where "may_start a m" "\<not> mg_done m" "at_commit a = None" "scan_rows rt a (batch m) (open_scan m) = Inr s"
      "migrate rt a m = (Inr (sc_scanned s), committed s m)"
  | "mg_rows (snd (migrate rt a m)) = mg_rows m" "mg_contexts (snd (migrate rt a m)) = mg_contexts m"
      "mg_after (snd (migrate rt a m)) = mg_after m" "mg_through (snd (migrate rt a m)) = mg_through m"
      "may_start a m \<and> at_commit a = None \<longrightarrow> \<not> mg_pending (snd (migrate rt a m)) \<or> mg_in_transaction (snd (migrate rt a m))"
proof -
  consider "\<not> may_start a m" | "may_start a m" "mg_done m"
    | e where "may_start a m" "\<not> mg_done m" "scan_rows rt a (batch m) (open_scan m) = Inl e"
    | s where "may_start a m" "\<not> mg_done m" "scan_rows rt a (batch m) (open_scan m) = Inr s"
    by (cases "scan_rows rt a (batch m) (open_scan m)") auto
  then show ?thesis
  proof cases
    case 4
    with that show ?thesis by (cases "at_commit a") (simp_all add: migrate_def)
  qed (use that(2) in \<open>auto simp: migrate_def\<close>)
qed

lemma migrate_ok: "migration_ok m \<Longrightarrow> migration_ok (snd (migrate rt a m))"
proof (cases rule: migrate_cases [where rt = rt and a = a and m = m])
  case (1 s)
  assume ok: "migration_ok m"
  from 1 committed_ok [OF ok scan_rows_ok [OF open_scan_ok [OF ok] batch_rows 1(4)]] show ?thesis by simp
qed (simp add: migration_ok_def)

lemma migrate_reads:
  assumes ok: "migration_ok m" and row: "(seq, row) \<in> set (mg_rows m)" and v: "reads rt (mg_contexts m) row = Inr v"
  shows "\<exists>new w. (seq, new) \<in> set (mg_rows (snd (migrate rt a m))) \<and>
    reads rt (mg_contexts (snd (migrate rt a m))) new = Inr w \<and> canon w = canon v"
proof (cases rule: migrate_cases [where rt = rt and a = a and m = m])
  case (1 s)
  from committed_reads [OF ok scan_rows_ok [OF open_scan_ok [OF ok] batch_rows 1(4)] row v] 1(5) show ?thesis by simp
next
  case 2
  with row v show ?thesis by auto
qed

section \<open>The migration ends\<close>

definition waiting :: "'d migration \<Rightarrow> nat" where
  "waiting m = length (filter (\<lambda>(seq, row). up_to (mg_after m) (mg_through m) seq) (mg_rows m))"

lemma convert_after: "convert rt seq row s = Inr s' \<Longrightarrow> sc_after s' = sc_after s"
  by (auto simp: convert_def Let_def bindE_Inr_conv split_beta split: payload.splits option.splits pyval.splits if_splits)

lemma visit_after: "visit rt a seq row s = Inr s' \<Longrightarrow> sc_after s' = Some seq"
  by (auto simp: visit_def Let_def dest: convert_after split: if_splits)

lemma scan_rows_after:
  "scan_rows rt a rows s = Inr s' \<Longrightarrow> sc_after s' = sc_after s \<or> (\<exists>seq \<in> fst ` set rows. sc_after s' = Some seq)"
proof (induction rt a rows s rule: scan_rows.induct)
  case (2 rt a seq row rows s)
  show ?case
  proof (cases "sc_scanned s > 0 \<and> sc_size s + row_weight a seq > MIGRATION_BYTES")
    case False
    with 2(2) obtain s2 where s2: "visit rt a seq row s = Inr s2"
      and r: "(if at_late a seq then Inr s2 else scan_rows rt a rows s2) = Inr s'"
      by (auto simp: bindE_Inr_conv)
    have "sc_after s2 = Some seq" by (rule visit_after [OF s2])
    with 2(1) [OF False s2] r show ?thesis by (cases "at_late a seq") auto
  qed (use 2 in simp)
qed simp

lemma scan_first:
  assumes "scan_rows rt a ((seq, row) # rows) s = Inr s'" and "sc_scanned s = 0"
  shows "\<exists>q \<in> insert seq (fst ` set rows). sc_after s' = Some q"
proof -
  from assms obtain s2 where s2: "visit rt a seq row s = Inr s2"
    and r: "(if at_late a seq then Inr s2 else scan_rows rt a rows s2) = Inr s'"
    by (auto simp: bindE_Inr_conv)
  show ?thesis
  proof (cases "at_late a seq")
    case True
    with r visit_after [OF s2] show ?thesis by simp
  next
    case False
    with r scan_rows_after [of rt a rows s2 s'] visit_after [OF s2] show ?thesis by auto
  qed
qed

lemma fewer_waiting:
  assumes "sorted (map fst rows)" and "filter (\<lambda>(seq, row). up_to after through seq) rows = (q, row) # rest" and "q \<le> p"
  shows "length (filter (\<lambda>(seq, row). up_to (Some p) through seq) rows) < length (filter (\<lambda>(seq, row). up_to after through seq) rows)"
proof -
  let ?f = "filter (\<lambda>(seq, row). up_to after through seq) rows"
  have "sorted (map fst ?f)" using assms(1) by (rule sorted_filter)
  have sub: "filter (\<lambda>(seq, row). up_to (Some p) through seq) rows = filter (\<lambda>(seq, row). p < seq) ?f"
  proof -
    have "(q, row) \<in> set ?f" unfolding assms(2) by simp
    then have "up_to after through q" by simp
    then have "up_to (Some p) through seq \<longleftrightarrow> up_to after through seq \<and> p < seq" for seq
      using assms(3) by (auto simp: up_to_def split: option.splits)
    then show ?thesis by (simp add: filter_filter case_prod_beta' conj_commute)
  qed
  have "length (filter (\<lambda>(seq, row). p < seq) ?f) \<le> length rest" using assms(2,3) by simp
  with sub assms(2) show ?thesis by simp
qed

lemma migrate_progress:
  assumes ok: "migration_ok m" and a: "may_start a m" "at_commit a = None" and p: "mg_pending (snd (migrate rt a m))"
    and t: "\<not> mg_in_transaction (snd (migrate rt a m))"
  shows "waiting (snd (migrate rt a m)) < waiting m"
proof (cases rule: migrate_cases [where rt = rt and a = a and m = m])
  case (1 s)
  from 1(5) p have rem: "rows_remain s m" by (simp add: committed_def)
  let ?f = "filter (\<lambda>(seq, row). up_to (mg_after m) (mg_through m) seq) (mg_rows m)"
  have w: "waiting (snd (migrate rt a m)) = length (filter (\<lambda>(seq, row). up_to (sc_after s) (mg_through m) seq) (mg_rows m))"
  proof -
    have "length (filter (\<lambda>(seq, row). P seq) (replace_rows q rows)) = length (filter (\<lambda>(seq, row). P seq) rows)" for P q rows
      unfolding replace_rows_def by (induction rows) auto
    with 1(5) show ?thesis by (simp add: waiting_def committed_def)
  qed
  show ?thesis
  proof (cases ?f)
    case Nil
    with 1(4) have "sc_after s = mg_after m" by (auto simp: batch_def open_scan_def)
    with rem Nil show ?thesis by (auto simp: rows_remain_def filter_empty_conv)
  next
    case (Cons x rest)
    obtain q row where x: "x = (q, row)" by (cases x)
    have "batch m = (q, row) # take (MIGRATION_ROWS - 1) rest" unfolding batch_def Cons x by (simp add: MIGRATION_ROWS_def)
    with 1(4) have "scan_rows rt a ((q, row) # take (MIGRATION_ROWS - 1) rest) (open_scan m) = Inr s" by simp
    from scan_first [OF this] obtain p where p: "p \<in> insert q (fst ` set (take (MIGRATION_ROWS - 1) rest))" "sc_after s = Some p"
      by (auto simp: open_scan_def)
    then have p: "p \<in> insert q (fst ` set rest)" "sc_after s = Some p" using set_take_subset by fastforce+
    have "sorted (map fst ?f)" using ok by (intro sorted_filter) (simp add: migration_ok_def)
    with Cons x p(1) have "q \<le> p" by auto
    from fewer_waiting [OF _ Cons [unfolded x] this] ok show ?thesis unfolding w p(2) by (simp add: waiting_def migration_ok_def)
  qed
next
  case 2
  with a p t show ?thesis by simp
qed

fun run_migration :: "'d runtime \<Rightarrow> attempt list \<Rightarrow> 'd migration \<Rightarrow> 'd migration" where
  "run_migration rt [] m = m"
| "run_migration rt (a # as) m = run_migration rt as (snd (migrate rt a m))"

definition undisturbed :: "attempt \<Rightarrow> bool" where
  "undisturbed a = (\<not> at_low_disk a \<and> \<not> at_log_busy a \<and> \<not> at_locked a \<and> at_commit a = None)"

lemma run_migration_ended: "\<not> mg_pending m \<or> mg_in_transaction m \<Longrightarrow> run_migration rt as m = m"
  by (induction as arbitrary: m) (auto simp: migrate_def may_start_def)

lemma run_migration_ends:
  "migration_ok m \<Longrightarrow> list_all undisturbed as \<Longrightarrow> waiting m < length as \<Longrightarrow>
    \<not> mg_pending (run_migration rt as m) \<or> mg_in_transaction (run_migration rt as m)"
proof (induction as arbitrary: m)
  case (Cons a as)
  show ?case
  proof (cases "\<not> mg_pending m \<or> mg_in_transaction m \<or>
      \<not> mg_pending (snd (migrate rt a m)) \<or> mg_in_transaction (snd (migrate rt a m))")
    case True
    then show ?thesis using run_migration_ended [of m rt "a # as"] run_migration_ended [of "snd (migrate rt a m)" rt as] by auto
  next
    case False
    with Cons.prems have "may_start a m" "at_commit a = None" by (auto simp: may_start_def undisturbed_def)
    from migrate_progress [OF Cons.prems(1) this, of rt] False Cons.prems(3)
    have "waiting (snd (migrate rt a m)) < length as" by simp
    from Cons.IH [OF migrate_ok [OF Cons.prems(1)] _ this] Cons.prems(2) show ?thesis by simp
  qed
qed simp

section \<open>Examples\<close>

definition sample_runtime :: "nat runtime" where
  "sample_runtime = \<lparr>rt_read = (\<lambda>_. PFloat (25 / 2)), rt_print = (\<lambda>_. ''12.5''), rt_float = (\<lambda>i. Some (of_int i)),
     rt_digest = (\<lambda>_. 0), rt_deflate = (\<lambda>s. s), rt_inflate = (\<lambda>s. Some (s, True, False)), rt_pickled = length \<circ> dumps True (\<lambda>_. [])\<rparr>"

definition sample_quota :: pydict where
  "sample_quota = [(''plan'', PStr (replicate 130 (CHR ''x''))), (''requested_at'', PInt 3), (''elapsed'', PFloat (25 / 2)),
     (''windows'', PDict [(''weekly'', PDict [(''used_percent'', PInt 7), (''resets_at'', PNone)])])]"

definition sample_split :: split_state where
  "sample_split = \<lparr>sp_base = [(''plan'', PStr (replicate 130 (CHR ''x''))), (''windows'', PDict [(''weekly'', PDict [(''resets_at'', PNone)])])],
     sp_refs = [(''requested_at'', PList [PStr ''requested'', PStr ''int''])],
     sp_slots = [[''elapsed''], [''windows'', ''weekly'', ''used_percent'']], sp_changing = [PFloat (25 / 2), PInt 7]\<rparr>"

lemma sample_split: "split_value sample_runtime (Float_column 3) (Float_column 4) sample_quota = sample_split"
  by (simp add: split_value_def take_time_def take_elapsed_def take_windows_def take_member_def sample_quota_def sample_split_def
      timestamp_reference_def as_float_def dpop_def dset_def dget_def dget_or_def)

lemma quoted_copies: "quoted True (replicate n (CHR ''x'')) = CHR 0x22 # replicate n (CHR ''x'') @ [CHR 0x22]"
  by (induction n) (simp_all add: quoted_def escape_char_def)

lemmas sample_text_simps = json_text_def sample_runtime_def int_text_def digits.simps template_value_def sample_split_def

lemma sample_lengths:
  "length (json_text sample_runtime (PDict sample_quota)) \<in> {129..300}"
  "length (json_text sample_runtime (template_value sample_split)) \<le> 400"
  by (simp add: sample_quota_def sample_text_simps quoted_copies, simp add: quoted_def escape_char_def)+

lemma sample_delta_length: "length (json_text sample_runtime (PList (sp_changing sample_split))) \<le> 20"
  by (simp add: sample_text_simps)

definition sample_contexts :: "nat context_row list" where
  "sample_contexts = [\<lparr>cx_id = 4, cx_digest = 0, cx_data = ''T1'' @ json_text sample_runtime (template_value sample_split)\<rparr>]"

lemma sample_inflates: "inflates sample_runtime"
  by (simp add: inflates_def sample_runtime_def)

lemma sample_ok: "json_ok (rt_read sample_runtime) (rt_print sample_runtime) (PDict sample_quota)"
  by (simp add: sample_quota_def sample_runtime_def prints_float_def) code_simp

lemma sample_loads: "loads (rt_read sample_runtime) (json_text sample_runtime (PDict sample_quota)) = Some (PDict sample_quota)"
  unfolding json_text_def by (rule loads_dumps [OF sample_ok])

lemma sample_encode: "encode sample_runtime sample_contexts sample_quota (Float_column 3) (Float_column 4) =
    Inr (Bytes (''Q1'' @ json_text sample_runtime (PList (sp_changing sample_split))), Some 4, sample_contexts)"
proof -
  let ?t = "json_text sample_runtime (template_value sample_split)" and ?raw = "json_text sample_runtime (PDict sample_quota)"
  have "json_ok (rt_read sample_runtime) (rt_print sample_runtime) (template_value sample_split)"
    using template_ok [OF split_value_ok [OF sample_ok]] sample_split by metis
  from unpack_packed [OF sample_inflates this] sample_lengths(2)
  have u: "unpack_template sample_runtime (''T1'' @ ?t) = Inr ?t" by (simp add: sample_runtime_def MAX_PAYLOAD_BYTES_def)
  have "loads (rt_read sample_runtime) ?raw = Some (PDict sample_quota)" unfolding json_text_def by (rule loads_dumps [OF sample_ok])
  then have sp: "split_payload sample_runtime ?raw (Float_column 3) (Float_column 4) =
      Inr (?t, ''Q1'' @ json_text sample_runtime (PList (sp_changing sample_split)))"
    by (simp add: split_payload_def sample_split Let_def)
  have "List.find (\<lambda>c. cx_digest c = rt_digest sample_runtime ?t) sample_contexts = Some (hd sample_contexts)"
    by (simp add: sample_contexts_def) (simp add: sample_runtime_def)
  with sp u sample_lengths sample_delta_length show ?thesis
    by (simp add: encode_def Let_def share_def MAX_PAYLOAD_BYTES_def CONTEXT_OVERHEAD_BYTES_def sample_contexts_def)
qed

definition sample_row :: observation_row where
  "sample_row = \<lparr>or_data = Text (json_text sample_runtime (PDict sample_quota)), or_context = None,
     or_requested = Float_column 3, or_received = Float_column 4\<rparr>"

definition sample_migration :: "nat migration" where
  "sample_migration = \<lparr>mg_rows = [(1, sample_row), (2, sample_row)], mg_contexts = sample_contexts, mg_after = None,
     mg_through = Some 2, mg_done = False, mg_pending = True, mg_in_transaction = False\<rparr>"

definition sample_attempt :: attempt where
  "sample_attempt = \<lparr>at_low_disk = False, at_log_busy = False, at_locked = False, at_weight = (\<lambda>_. Some 500),
     at_late = (\<lambda>_. False), at_commit = None\<rparr>"

lemma sample_migration_ok: "migration_ok sample_migration"
  by (simp add: migration_ok_def sample_migration_def sample_contexts_def)

definition broken_runtime :: "nat runtime" where
  "broken_runtime = sample_runtime\<lparr>rt_inflate := (\<lambda>_. None)\<rparr>"

lemma broken_text: "json_text broken_runtime v = json_text sample_runtime v"
  by (simp add: json_text_def broken_runtime_def)

lemma broken_encode: "encode broken_runtime sample_contexts sample_quota (Float_column 3) (Float_column 4) = Inl (RuntimeError ''zlib'')"
proof -
  let ?t = "json_text sample_runtime (template_value sample_split)" and ?raw = "json_text sample_runtime (PDict sample_quota)"
  have "loads (rt_read broken_runtime) ?raw = Some (PDict sample_quota)"
    using loads_dumps [OF sample_ok, of True] by (simp add: json_text_def broken_runtime_def)
  moreover have "split_value broken_runtime (Float_column 3) (Float_column 4) sample_quota = sample_split"
    by (simp add: split_value_def take_time_def take_elapsed_def take_windows_def take_member_def sample_quota_def sample_split_def
      timestamp_reference_def as_float_def dpop_def dset_def dget_def dget_or_def)
  ultimately have sp: "split_payload broken_runtime ?raw (Float_column 3) (Float_column 4) =
      Inr (?t, ''Q1'' @ json_text sample_runtime (PList (sp_changing sample_split)))"
    by (simp add: split_payload_def broken_text Let_def)
  have f: "List.find (\<lambda>c. cx_digest c = rt_digest broken_runtime ?t) sample_contexts = Some (hd sample_contexts)"
    by (simp add: sample_contexts_def) (simp add: sample_runtime_def broken_runtime_def)
  have u: "unpack_template broken_runtime (cx_data (hd sample_contexts)) = Inl (RuntimeError ''zlib'')"
    using sample_lengths(2) by (simp add: unpack_template_def sample_contexts_def MAX_PAYLOAD_BYTES_def) (simp add: broken_runtime_def)
  from sp f u sample_lengths sample_delta_length show ?thesis
    by (simp add: encode_def Let_def share_def broken_text MAX_PAYLOAD_BYTES_def CONTEXT_OVERHEAD_BYTES_def)
qed

section \<open>Claims\<close>

text \<open>
  C8: Decoding what encode stored for a quota observation gives the observation back, up to the order of
  members: for every observation JSON can write, whatever the hash function, whether the payload was kept as
  text, shared an existing template or made a new one, with any further templates in the table and any state
  of the reader's cache.
\<close>

theorem payload_roundtrip:
  assumes "inflates rt" and "json_ok (rt_read rt) (rt_print rt) (PDict quota)" and "distinct (map cx_id cs)"
    and "encode rt cs quota requested received = Inr (or_data row, or_context row, cs')"
    and "stored_as rt requested (or_requested row)" and "stored_as rt received (or_received row)"
    and "extends cs' db" and "reader_ok rt db r"
  shows "\<exists>v. fst (decode rt db row r) = Inr v \<and> canon v = canon (PDict quota)"
  by (rule encode_decode [OF assms(1-6) _ assms(8)]) (use assms(7) in \<open>simp add: extends_def\<close>)

theorem payload_roundtrip_witness:
  "\<exists>row d v. or_data row = Bytes d \<and> encode sample_runtime sample_contexts sample_quota (Float_column 3) (Float_column 4) =
     Inr (or_data row, or_context row, sample_contexts) \<and>
   fst (decode sample_runtime sample_contexts row new_reader) = Inr v \<and> canon v = canon (PDict sample_quota)"
proof -
  let ?row = "\<lparr>or_data = Bytes (''Q1'' @ json_text sample_runtime (PList (sp_changing sample_split))), or_context = Some 4,
    or_requested = Float_column 3, or_received = Float_column 4\<rparr>"
  have e: "encode sample_runtime sample_contexts sample_quota (Float_column 3) (Float_column 4) =
     Inr (or_data ?row, or_context ?row, sample_contexts)" by (simp add: sample_encode)
  have "\<exists>v. fst (decode sample_runtime sample_contexts ?row new_reader) = Inr v \<and> canon v = canon (PDict sample_quota)"
    by (rule payload_roundtrip [OF sample_inflates sample_ok _ e])
      (simp_all add: sample_contexts_def stored_as_def as_float_def extends_def new_reader_ok)
  with e show ?thesis by (metis observation_row.select_convs(1))
qed

text \<open>
  C25: However the repacking of old rows proceeds (any number of batches, any interruptions, failures and
  damaged templates), a row that could be read before reads the same afterwards.
\<close>

theorem migration_lossless:
  assumes "migration_ok m" and "(seq, row) \<in> set (mg_rows m)" and "reads rt (mg_contexts m) row = Inr v"
  shows "\<exists>new w. (seq, new) \<in> set (mg_rows (run_migration rt as m)) \<and>
    reads rt (mg_contexts (run_migration rt as m)) new = Inr w \<and> canon w = canon v"
  using assms
proof (induction as arbitrary: m row v)
  case (Cons a as)
  from migrate_reads [OF Cons.prems, of a] obtain new w where n: "(seq, new) \<in> set (mg_rows (snd (migrate rt a m)))"
    "reads rt (mg_contexts (snd (migrate rt a m))) new = Inr w" "canon w = canon v" by blast
  from Cons.IH [OF migrate_ok [OF Cons.prems(1)] n(1,2)] n(3) show ?case by simp
qed auto

theorem migration_lossless_witness:
  "\<exists>new w. (1, new) \<in> set (mg_rows (run_migration sample_runtime [sample_attempt, sample_attempt] sample_migration)) \<and>
    reads sample_runtime (mg_contexts (run_migration sample_runtime [sample_attempt, sample_attempt] sample_migration)) new = Inr w \<and>
    canon w = canon (PDict sample_quota)"
  by (rule migration_lossless [OF sample_migration_ok, of 1 sample_row])
    (simp_all add: sample_migration_def sample_row_def reads_def decode_def sample_loads del: dumps.simps)





end
