(* ===== verification/Relay.thy ===== *)
theory Relay
  imports Observer
begin

text \<open>
  The life of the relay process: \<open>Supervisor\<close> of \<open>cachemonitor/proxy_supervisor.py\<close>, which
  starts it, watches it and restores the direct route when it fails, and \<open>ProxyDrain\<close> of
  \<open>cachemonitor/proxy_drain.py\<close>, which ends it without cutting responses off. The
  supervisor works on the worlds of \<open>Observer\<close>; its own fields are a record that the
  actions take and return, with the control orders it has written and the statuses it
  has published.
\<close>

section \<open>The supervisor\<close>

datatype sphase = S_starting | S_conflict | S_stopped | S_ready | S_recovery_failed | S_draining | S_active | S_failed

datatype order = Run string | Drain string | Force string

record published =
  pb_phase :: sphase
  pb_worker :: "int option"
  pb_adopted :: bool
  pb_control :: string
  pb_failed_start :: bool
  pb_legacy_wait :: bool

record supervisor =
  su_instance :: string
  su_control :: string
  su_child :: "int option"
  su_phase :: sphase
  su_adopted :: bool
  su_draining :: bool
  su_failed_start :: bool
  su_publish_failures :: nat
  su_started :: rat
  su_protection :: protection
  su_orders :: "order list"
  su_published :: "published list"

definition control_name :: "string \<Rightarrow> string" where
  "control_name i = ''proxy-control-'' @ i @ ''.json''"

definition new_supervisor :: "string \<Rightarrow> rat \<Rightarrow> supervisor" where
  "new_supervisor i now = \<lparr>su_instance = i, su_control = control_name i, su_child = None, su_phase = S_starting,
     su_adopted = False, su_draining = False, su_failed_start = False, su_publish_failures = 0, su_started = now,
     su_protection = protection_init, su_orders = [], su_published = []\<rparr>"

text \<open>
  \<open>publish\<close>: a file that cannot be written is not a failure of the relay; the heartbeat is
  tried again at the next tick.
\<close>

definition publish :: "reply option \<Rightarrow> bool \<Rightarrow> supervisor \<Rightarrow> supervisor act" where
  "publish h legacy s =
    attempt (run_then touch (\<lambda>_. ret (s\<lparr>su_publish_failures := 0, su_published := su_published s @
       [\<lparr>pb_phase = su_phase s, pb_worker = (case h of Some r \<Rightarrow> Some (rp_pid r) | None \<Rightarrow> su_child s),
         pb_adopted = su_adopted s, pb_control = su_control s, pb_failed_start = su_failed_start s,
         pb_legacy_wait = legacy\<rparr>]\<rparr>)))
     (\<lambda>_. ret (s\<lparr>su_publish_failures := su_publish_failures s + 1\<rparr>))"

definition supervisor_health :: "manager \<Rightarrow> reply option act" where
  "supervisor_health m = attempt (probe_health m) (\<lambda>e. if is_runtime e then ret None else throw e)"

text \<open>
  \<open>begin\<close>: \<open>previous\<close> is the control file named in the runtime file of an earlier supervisor,
  when it lies in the manager's directory; \<open>pid\<close> is the process that a start creates.
\<close>

definition begin_supervision :: "manager \<Rightarrow> string option \<Rightarrow> int \<Rightarrow> supervisor \<Rightarrow> supervisor act" where
  "begin_supervision m previous pid s = run_then (supervisor_health m) (\<lambda>h. case h of
      Some r \<Rightarrow>
        (let old = (case previous of Some p \<Rightarrow> p | None \<Rightarrow> su_control s);
             control = (case rp_control_id r of Some i \<Rightarrow> if i \<noteq> [] \<and> old = control_name i then old else su_control s
                        | None \<Rightarrow> su_control s)
         in publish h False (s\<lparr>su_control := control, su_adopted := True, su_phase := S_ready\<rparr>))
    | None \<Rightarrow> run_then (see ow_health_state) (\<lambda>p.
        if p = Identity_mismatch then publish None False (s\<lparr>su_phase := S_conflict\<rparr>)
        else run_then read_state (\<lambda>state.
          if \<not> os_enabled state \<and> os_phase state \<in> {Some Ph_off, Some Ph_faulted, Some Ph_failed}
          then publish None False (s\<lparr>su_phase := S_stopped\<rparr>)
          else run_then touch (\<lambda>_. run_then touch (\<lambda>_.
            publish None False (s\<lparr>su_orders := su_orders s @ [Run (su_instance s)], su_child := Some pid,
                                 su_phase := S_ready\<rparr>))))))"

text \<open>\<open>trip\<close>: true when the route was recovered. Any \<open>RuntimeError\<close> means another owner has the state.\<close>

definition trip_locked :: "manager \<Rightarrow> oerror \<Rightarrow> supervisor \<Rightarrow> (bool \<times> supervisor) act" where
  "trip_locked m reason s = run_then touch (\<lambda>_. run_then read_state (\<lambda>state.
     if \<not> os_enabled state then ret (False, s)
     else run_then
       (attempt
         (run_then (recover_direct m) (\<lambda>_. run_then read_state (\<lambda>now.
            ret (Inr (now\<lparr>os_phase := Some Ph_faulted, os_incident := Some reason, os_restart_required := True\<rparr>)))))
         (\<lambda>e. ret (Inl (state\<lparr>os_phase := Some Ph_recovery_failed, os_incident := Some e, os_restart_required := True\<rparr>))))
       (\<lambda>outcome. case outcome of
          Inr next \<Rightarrow> run_then (write_state next) (\<lambda>_. ret (True, s))
        | Inl next \<Rightarrow> run_then (write_state next) (\<lambda>_.
            run_then (publish None False (s\<lparr>su_phase := S_recovery_failed\<rparr>)) (\<lambda>t. ret (False, t))))))"

definition trip :: "manager \<Rightarrow> oerror \<Rightarrow> supervisor \<Rightarrow> (bool \<times> supervisor) act" where
  "trip m reason s = attempt (trip_locked m reason s) (\<lambda>e. if is_runtime e then ret (False, s) else throw e)"

definition drain :: "reply option \<Rightarrow> supervisor \<Rightarrow> supervisor act" where
  "drain h s0 =
    (let s = s0\<lparr>su_draining := True, su_phase := S_draining\<rparr>;
         legacy = (case h of Some r \<Rightarrow> rp_control_id r = None \<or> rp_control_id r = Some [] | None \<Rightarrow> False)
     in case h of
          Some r \<Rightarrow> (case rp_control_id r of
              Some i \<Rightarrow> if i \<noteq> [] \<and> su_control s = control_name i
                        then run_then touch (\<lambda>_. publish h legacy (s\<lparr>su_orders := su_orders s @ [Drain i]\<rparr>))
                        else publish h legacy s
            | None \<Rightarrow> publish h legacy s)
        | None \<Rightarrow> publish h legacy s)"

definition drained :: "reply option \<Rightarrow> supervisor \<Rightarrow> (bool \<times> supervisor) act" where
  "drained h s = run_then (drain h s) (\<lambda>t. ret (True, t))"

definition protection_health :: "reply option \<Rightarrow> health option" where
  "protection_health h = map_option (\<lambda>r. \<lparr>hl_storage_streak = rp_storage_streak r, hl_internal_streak = rp_internal_streak r\<rparr>) h"

text \<open>The healthy end of a tick.\<close>

definition carry_on :: "reply option \<Rightarrow> supervisor \<Rightarrow> (bool \<times> supervisor) act" where
  "carry_on h t = (if su_phase t \<noteq> S_recovery_failed
     then run_then (publish h False (t\<lparr>su_phase := S_active\<rparr>)) (\<lambda>u. ret (True, u)) else ret (True, t))"

definition watch :: "manager \<Rightarrow> reply option \<Rightarrow> bool \<Rightarrow> supervisor \<Rightarrow> (bool \<times> supervisor) act" where
  "watch m h exited s = run_then (see ow_health_state) (\<lambda>p.
     run_then (if exited then ret 0 else time_now) (\<lambda>now.
       let (reason, pr) = protect now (protection_health h) p exited (su_protection s);
           s1 = s\<lparr>su_protection := pr\<rparr>
       in if reason \<noteq> None
          then run_then (trip m (Runtime_error External) s1) (\<lambda>(ok, t). if ok then drained h t else carry_on h t)
          else carry_on h s1))"

text \<open>\<open>tick\<close>; \<open>exited\<close> says whether a child was started and has ended.\<close>

definition supervise :: "manager \<Rightarrow> bool \<Rightarrow> supervisor \<Rightarrow> (bool \<times> supervisor) act" where
  "supervise m exited s = run_then read_state (\<lambda>state. run_then read_config (\<lambda>(current, _).
     run_then (supervisor_health m) (\<lambda>h. run_then (see ow_health_state) (\<lambda>p.
       let configured = (current = Some (mg_url m)) in
       if su_draining s
       then (if exited \<or> h = None \<and> p = Refused
             then run_then (publish None False (s\<lparr>su_phase := S_stopped\<rparr>)) (\<lambda>t. ret (False, t))
             else drained h s)
       else if os_enabled state \<and> \<not> configured
       then run_then (attempt (run_then touch (\<lambda>_. run_then (recover_direct m) (\<lambda>_. ret True)))
                        (\<lambda>e. if is_runtime e then ret False else throw e))
              (\<lambda>ok. if ok then drained h s else ret (True, s))
       else if os_phase state \<in> {Some Ph_off, Some Ph_faulted, Some Ph_failed} then drained h s
       else if os_enabled state \<and> configured then watch m h exited s
       else run_then (publish h False (s\<lparr>su_phase := (if h \<noteq> None then S_ready else S_starting)\<rparr>)) (\<lambda>t.
         if exited
         then run_then (publish None False (t\<lparr>su_failed_start := True, su_phase := S_failed\<rparr>)) (\<lambda>u. ret (False, u))
         else run_then time_now (\<lambda>now. if now - su_started t > 120 then drained h t else ret (True, t)))))))"

section \<open>Cooperative shutdown\<close>

text \<open>
  \<open>ProxyDrain.run\<close> looks at the world once per round of its loop: \<open>drain_round\<close> is what a round
  finds out, \<open>drain_step\<close> the round, \<open>drain_run\<close> the loop over the rounds that happen. A \<open>None\<close>
  in \<open>dl_websockets\<close> is a relay that does not report the states of its connections.
\<close>

record sockets =
  ws_responding :: nat
  ws_unknown :: nat
  ws_connecting :: nat
  ws_reserved :: nat

record live_relay =
  dl_instance :: string
  dl_control :: string
  dl_supports_force :: bool
  dl_websockets :: "sockets option"
  dl_http :: nat
  dl_active :: nat
  dl_draining :: bool

record drain_source =
  ds_instance :: string
  ds_control :: string
  ds_processes :: nat

record drain_round =
  dr_allowed :: bool
  dr_stopped :: bool
  dr_released :: bool
  dr_foreign :: bool
  dr_current :: "live_relay option"
  dr_refused :: bool
  dr_force :: bool
  dr_captured :: "(string \<times> string) option"
  dr_before_ok :: bool
  dr_lock_ok :: bool
  dr_exited :: bool
  dr_set_clock :: rat
  dr_check_clock :: rat

datatype drain_message = Waiting nat nat | Switching | Stopping | Finishing nat nat

datatype drain_error = Not_allowed | Other_instance | Force_unsupported | No_control | Foreign_service | Capture_failed | Before_failed | Lock_failed | Exit_timeout

datatype drain_end = Gone | Released | Failed drain_error

record drain_state =
  dn_sent :: bool
  dn_deadline :: "rat option"
  dn_force_sent :: bool
  dn_orders :: "order list"
  dn_messages :: "drain_message list"
  dn_replaced :: bool

definition drain_init :: drain_state where
  "drain_init = \<lparr>dn_sent = False, dn_deadline = None, dn_force_sent = False, dn_orders = [], dn_messages = [], dn_replaced = False\<rparr>"

text \<open>\<open>re.fullmatch('[0-9a-f]{32}', s)\<close>\<close>

definition control_form :: "string \<Rightarrow> bool" where
  "control_form s = (length s = 32 \<and> list_all (\<lambda>c. digit c \<or> CHR ''a'' \<le> c \<and> c \<le> CHR ''f'') s)"

definition can_force :: "drain_source \<Rightarrow> live_relay option \<Rightarrow> bool" where
  "can_force src current = (case current of None \<Rightarrow> False
    | Some r \<Rightarrow> dl_supports_force r \<and> control_form (dl_control r) \<and> dl_control r = ds_control src)"

definition unknown_of :: "live_relay \<Rightarrow> nat" where
  "unknown_of r = (case dl_websockets r of None \<Rightarrow> dl_active r | Some w \<Rightarrow> ws_unknown w)"

definition responding_of :: "live_relay \<Rightarrow> nat" where
  "responding_of r = (case dl_websockets r of None \<Rightarrow> 0 | Some w \<Rightarrow> ws_responding w) + dl_http r"

definition settled :: "drain_round \<Rightarrow> bool" where
  "settled e = (dr_exited e \<or> dr_current e = None \<and> dr_refused e \<or>
    (case dr_current e of None \<Rightarrow> False
     | Some r \<Rightarrow> dl_draining r \<and> (case dl_websockets r of None \<Rightarrow> False
         | Some w \<Rightarrow> ws_responding w = 0 \<and> ws_unknown w = 0 \<and> ws_connecting w = 0 \<and> ws_reserved w = 0) \<and> dl_http r = 0))"

text \<open>The part before the first order: \<open>Inl None\<close> waits for the next round.\<close>

definition send_drain :: "drain_source \<Rightarrow> drain_round \<Rightarrow> live_relay \<Rightarrow> drain_state \<Rightarrow> ((drain_error option \<times> drain_state) + drain_state)" where
  "send_drain src e r s =
    (if unknown_of r \<noteq> 0 \<and> \<not> dr_force e then Inl (None, s\<lparr>dn_messages := dn_messages s @ [Waiting (unknown_of r) (responding_of r)]\<rparr>)
     else if responding_of r \<noteq> 0 \<and> \<not> dr_force e then Inl (None, s\<lparr>dn_messages := dn_messages s @ [Waiting 0 (responding_of r)]\<rparr>)
     else if \<not> control_form (dl_control r) then Inl (Some No_control, s)
     else if dl_control r \<noteq> ds_control src then Inl (Some Other_instance, s)
     else if \<not> dr_before_ok e then Inl (Some Before_failed, s)
     else if ds_processes src > 1 \<and> \<not> dr_lock_ok e then Inl (Some Lock_failed, s\<lparr>dn_messages := dn_messages s @ [Switching]\<rparr>)
     else Inr (s\<lparr>dn_messages := dn_messages s @ [Switching], dn_replaced := (dn_replaced s \<or> ds_processes src > 1),
                 dn_orders := dn_orders s @ [Drain (dl_control r)], dn_sent := True\<rparr>))"

definition send_force :: "drain_round \<Rightarrow> drain_state \<Rightarrow> drain_state" where
  "send_force e s = (case dr_current e of
      Some r \<Rightarrow> if dr_force e \<and> \<not> dn_force_sent s
                then s\<lparr>dn_orders := dn_orders s @ [Force (dl_control r)], dn_force_sent := True,
                       dn_deadline := Some (dr_set_clock e + 30)\<rparr> else s
    | None \<Rightarrow> s)"

definition await_exit :: "drain_round \<Rightarrow> drain_state \<Rightarrow> drain_end option \<times> drain_state" where
  "await_exit e s0 =
    (let s = (if settled e \<and> dn_deadline s0 = None then s0\<lparr>dn_deadline := Some (dr_set_clock e + 30)\<rparr> else s0)
     in case dn_deadline s of
          Some t \<Rightarrow> (let s1 = s\<lparr>dn_messages := dn_messages s @ [Stopping]\<rparr>
                      in if dr_check_clock e \<ge> t then (Some (Failed Exit_timeout), s1) else (None, s1))
        | None \<Rightarrow> (None, s\<lparr>dn_messages := dn_messages s @
             [Finishing (case dr_current e of Some r \<Rightarrow> (case dl_websockets r of None \<Rightarrow> 0 | Some w \<Rightarrow> ws_unknown w) | None \<Rightarrow> 0)
                (case dr_current e of Some r \<Rightarrow> responding_of r | None \<Rightarrow> 0)]\<rparr>))"

definition drain_step :: "bool \<Rightarrow> drain_source \<Rightarrow> drain_round \<Rightarrow> drain_state \<Rightarrow> drain_end option \<times> drain_state" where
  "drain_step allow_missing_flush src e s =
    (if \<not> dr_allowed e then (Some (Failed Not_allowed), s)
     else if dr_stopped e then (Some Gone, s)
     else if allow_missing_flush \<and> dr_released e then (Some Released, s)
     else if dr_foreign e then (Some (Failed Foreign_service), s)
     else if (case dr_current e of Some r \<Rightarrow> dl_instance r \<noteq> ds_instance src | None \<Rightarrow> False) then (Some (Failed Other_instance), s)
     else if dr_force e \<and> dr_current e \<noteq> None \<and> \<not> dn_force_sent s \<and> \<not> can_force src (dr_current e)
     then (Some (Failed Force_unsupported), s)
     else if dr_force e \<and> dr_current e \<noteq> None \<and> \<not> dn_force_sent s \<and> dr_captured e = None then (Some (Failed Capture_failed), s)
     else if dr_force e \<and> dr_current e \<noteq> None \<and> \<not> dn_force_sent s \<and> dr_captured e \<noteq> Some (ds_instance src, ds_control src)
     then (Some (Failed Other_instance), s)
     else (case (if dn_sent s then Inr s else case dr_current e of None \<Rightarrow> Inr s | Some r \<Rightarrow> send_drain src e r s) of
             Inl (err, t) \<Rightarrow> (map_option Failed err, t)
           | Inr t \<Rightarrow> await_exit e (send_force e t)))"

fun drain_run :: "bool \<Rightarrow> drain_source \<Rightarrow> drain_round list \<Rightarrow> drain_state \<Rightarrow> drain_end option \<times> drain_state" where
  "drain_run b src [] s = (None, s)"
| "drain_run b src (e # es) s = (case drain_step b src e s of
      (Some r, t) \<Rightarrow> (Some r, t) | (None, t) \<Rightarrow> drain_run b src es t)"

section \<open>What the orders say\<close>

text \<open>
  Every order is addressed to the relay the shutdown was asked for, there is at most one of
  each kind, and the force order comes last.
\<close>

definition orders_ok :: "drain_source \<Rightarrow> drain_state \<Rightarrow> bool" where
  "orders_ok src s = (dn_orders s = (if dn_sent s then [Drain (ds_control src)] else []) @
      (if dn_force_sent s then [Force (ds_control src)] else []) \<and>
     (dn_force_sent s \<longrightarrow> dn_sent s \<and> dn_deadline s \<noteq> None))"

lemma send_drain_orders:
  assumes "orders_ok src s" "\<not> dn_sent s"
  shows "case send_drain src e r s of Inl (err, t) \<Rightarrow> orders_ok src t \<and> dn_orders t = []
     | Inr t \<Rightarrow> orders_ok src t \<and> dn_sent t \<and> \<not> dn_force_sent t \<and> dl_control r = ds_control src"
  using assms by (auto simp: send_drain_def orders_ok_def)

lemma send_force_orders:
  assumes "orders_ok src s" and "dn_sent s"
    and "dr_force e \<Longrightarrow> \<not> dn_force_sent s \<Longrightarrow> (case dr_current e of Some r \<Rightarrow> dl_control r = ds_control src | None \<Rightarrow> True)"
  shows "orders_ok src (send_force e s)"
  using assms by (cases "dr_current e") (auto simp: send_force_def orders_ok_def)

lemma await_exit_orders:
  "orders_ok src s \<Longrightarrow> orders_ok src (snd (await_exit e s))"
  by (cases "dn_deadline s") (auto simp: await_exit_def orders_ok_def Let_def)

lemma can_force_control: "can_force src (Some r) \<Longrightarrow> dl_control r = ds_control src"
  by (simp add: can_force_def)

text \<open>Why an order may be sent in a round.\<close>

definition drain_cause :: "drain_round \<Rightarrow> bool" where
  "drain_cause e = (case dr_current e of None \<Rightarrow> False
    | Some r \<Rightarrow> dr_force e \<or> unknown_of r = 0 \<and> responding_of r = 0)"

definition force_cause :: "drain_source \<Rightarrow> drain_round \<Rightarrow> bool" where
  "force_cause src e = (dr_force e \<and> can_force src (dr_current e))"

definition round_ok :: "drain_source \<Rightarrow> drain_round \<Rightarrow> drain_state \<Rightarrow> drain_state \<Rightarrow> bool" where
  "round_ok src e s t = (orders_ok src t \<and> (dn_sent t \<and> \<not> dn_sent s \<longrightarrow> drain_cause e) \<and>
     (dn_force_sent t \<and> \<not> dn_force_sent s \<longrightarrow> force_cause src e))"

lemma round_ok_refl: "orders_ok src s \<Longrightarrow> round_ok src e s s"
  by (simp add: round_ok_def)

lemma send_drain_cause: "send_drain src e r s = Inr t \<Longrightarrow> dr_force e \<or> unknown_of r = 0 \<and> responding_of r = 0"
  by (auto simp: send_drain_def split: if_splits)

lemma send_drain_waits:
  "send_drain src e r s = Inl (err, t) \<Longrightarrow> dn_sent t = dn_sent s \<and> dn_force_sent t = dn_force_sent s"
  by (auto simp: send_drain_def split: if_splits)

lemma await_exit_sent [simp]:
  "dn_sent (snd (await_exit e s)) = dn_sent s" "dn_force_sent (snd (await_exit e s)) = dn_force_sent s"
  by (cases "dn_deadline s"; simp add: await_exit_def Let_def)+

lemma send_force_sent [simp]: "dn_sent (send_force e s) = dn_sent s"
  by (cases "dr_current e") (simp_all add: send_force_def)

text \<open>The rest of a round, when the order to drain is out.\<close>

lemma finish_round_ok:
  assumes t: "orders_ok src t" "dn_sent t" and s: "dn_force_sent t = dn_force_sent s" "dn_sent t \<and> \<not> dn_sent s \<longrightarrow> drain_cause e"
    and force: "dr_force e \<Longrightarrow> \<not> dn_force_sent s \<Longrightarrow> dr_current e = None \<or> can_force src (dr_current e)"
  shows "round_ok src e s (snd (await_exit e (send_force e t)))"
proof -
  have "orders_ok src (send_force e t)"
    by (rule send_force_orders [OF t]) (use force s can_force_control in \<open>auto split: option.split\<close>)
  moreover have "dn_force_sent (send_force e t) \<and> \<not> dn_force_sent s \<longrightarrow> force_cause src e"
    using force s by (cases "dr_current e") (auto simp: send_force_def force_cause_def)
  ultimately show ?thesis using s by (simp add: round_ok_def await_exit_orders)
qed

lemma idle_round_ok:
  assumes "orders_ok src s" "dr_current e = None"
  shows "round_ok src e s (snd (await_exit e (send_force e s)))"
  using assms by (simp add: round_ok_def send_force_def await_exit_orders)

lemma drain_round_ok:
  assumes s: "orders_ok src s" and step: "drain_step b src e s = (r, t)"
  shows "round_ok src e s t"
proof (cases "\<not> dr_allowed e \<or> dr_stopped e \<or> b \<and> dr_released e \<or> dr_foreign e \<or>
    (case dr_current e of Some r \<Rightarrow> dl_instance r \<noteq> ds_instance src | None \<Rightarrow> False) \<or>
    dr_force e \<and> dr_current e \<noteq> None \<and> \<not> dn_force_sent s \<and>
      (\<not> can_force src (dr_current e) \<or> dr_captured e \<noteq> Some (ds_instance src, ds_control src))")
  case True
  with step have "t = s" by (auto simp: drain_step_def split: if_splits)
  with s show ?thesis by (simp add: round_ok_refl)
next
  case False
  then have force: "dr_force e \<Longrightarrow> \<not> dn_force_sent s \<Longrightarrow> dr_current e = None \<or> can_force src (dr_current e)" by blast
  from False step have t: "(case (if dn_sent s then Inr s else case dr_current e of None \<Rightarrow> Inr s | Some r \<Rightarrow> send_drain src e r s) of
      Inl (err, t) \<Rightarrow> (map_option Failed err, t) | Inr t \<Rightarrow> await_exit e (send_force e t)) = (r, t)"
    by (auto simp: drain_step_def split: if_splits)
  show ?thesis
  proof (cases "dn_sent s")
    case True
    with t have "t = snd (await_exit e (send_force e s))" by simp
    with finish_round_ok [OF s True _ _ force] True show ?thesis by simp
  next
    case unsent: False
    show ?thesis
    proof (cases "dr_current e")
      case None
      with t unsent have "t = snd (await_exit e (send_force e s))" by simp
      with idle_round_ok [OF s None] show ?thesis by simp
    next
      case (Some live)
      show ?thesis
      proof (cases "send_drain src e live s")
        case (Inl p)
        with t unsent Some have p: "p = (fst p, t)" by (cases p) auto
        with send_drain_orders [OF s unsent, where e = e and r = live] send_drain_waits [where r = live and src = src and e = e and s = s and err = "fst p" and t = t] Inl
        show ?thesis by (auto simp: round_ok_def)
      next
        case (Inr u)
        with send_drain_orders [OF s unsent, where e = e and r = live]
        have u: "orders_ok src u" "dn_sent u" "\<not> dn_force_sent u" by auto
        have "dn_force_sent s = False" using s unsent by (simp add: orders_ok_def)
        moreover have "drain_cause e" using send_drain_cause [OF Inr] Some by (simp add: drain_cause_def)
        moreover have "t = snd (await_exit e (send_force e u))" using t unsent Some Inr by simp
        ultimately show ?thesis using finish_round_ok [OF u(1,2) _ _ force] u by simp
      qed
    qed
  qed
qed

lemma drain_run_ok:
  assumes "orders_ok src s" and "drain_run b src es s = (r, t)"
  shows "orders_ok src t \<and> (dn_sent t \<and> \<not> dn_sent s \<longrightarrow> list_ex drain_cause es) \<and>
    (dn_force_sent t \<and> \<not> dn_force_sent s \<longrightarrow> list_ex (force_cause src) es)"
  using assms
proof (induction es arbitrary: s)
  case (Cons e es)
  obtain q u where step: "drain_step b src e s = (q, u)" by fastforce
  from drain_round_ok [OF Cons.prems(1) step] have ok: "round_ok src e s u" .
  show ?case
  proof (cases q)
    case None
    with Cons.prems(2) step have "drain_run b src es u = (r, t)" by simp
    from Cons.IH [OF _ this] ok show ?thesis by (auto simp: round_ok_def)
  next
    case (Some x)
    with Cons.prems(2) step ok show ?thesis by (auto simp: round_ok_def)
  qed
qed simp

text \<open>A deadline that is set stays, is only replaced by the force order, and ends the loop.\<close>

lemma await_exit_deadline:
  "await_exit e s = (None, t) \<Longrightarrow> dn_deadline t = Some d \<Longrightarrow> dr_check_clock e < d"
  by (cases "dn_deadline s") (auto simp: await_exit_def Let_def split: if_splits)

lemma await_exit_keeps: "dn_deadline s = Some d \<Longrightarrow> dn_deadline (snd (await_exit e s)) = Some d"
  by (simp add: await_exit_def Let_def)

lemma send_force_done: "dn_force_sent s \<Longrightarrow> send_force e s = s"
  by (cases "dr_current e") (simp_all add: send_force_def)

lemma send_force_unasked: "\<not> dr_force e \<Longrightarrow> send_force e s = s"
  by (cases "dr_current e") (simp_all add: send_force_def)

lemma drain_step_deadline:
  assumes "dn_sent s" "dn_force_sent s \<or> \<not> dr_force e" "dn_deadline s = Some d" "drain_step b src e s = (None, t)"
  shows "dr_check_clock e < d \<and> dn_sent t \<and> dn_force_sent t = dn_force_sent s \<and> dn_deadline t = Some d"
proof -
  have "send_force e s = s" using assms(2) send_force_done send_force_unasked by blast
  with assms have t: "await_exit e s = (None, t)"
    by (auto simp: drain_step_def split: if_splits option.splits)
  have k: "dn_deadline t = Some d" using await_exit_keeps [OF assms(3), of e] t by simp
  from await_exit_deadline [OF t k] k await_exit_sent [of e s] assms(1,2) t show ?thesis by simp
qed

lemma drain_run_deadline:
  "dn_sent s \<Longrightarrow> dn_force_sent s \<or> list_all (\<lambda>e. \<not> dr_force e) es \<Longrightarrow> dn_deadline s = Some d \<Longrightarrow>
    drain_run b src es s = (None, t) \<Longrightarrow> list_all (\<lambda>e. dr_check_clock e < d) es"
proof (induction es arbitrary: s)
  case (Cons e es)
  from Cons.prems(4) obtain u where u: "drain_step b src e s = (None, u)" "drain_run b src es u = (None, t)"
    by (auto split: prod.splits option.splits)
  have "dn_force_sent s \<or> \<not> dr_force e" using Cons.prems(2) by auto
  from drain_step_deadline [OF Cons.prems(1) this Cons.prems(3) u(1)] Cons.IH [OF _ _ _ u(2)] Cons.prems(2)
  show ?case by auto
qed simp

section \<open>A live route is not drained\<close>

lemma vc_recover_rest_route:
  "vc (recover_rest m was s) (\<lambda>_ (e, l', k). dk_url e = dk_url d) (\<lambda>_ _. True) (d, l, n)"
  unfolding recover_rest_def
  by (intro vc_run_then vc_get_startup vc_if vc_set_startup vc_warned_touch vc_warned_scheduler vc_write_state vc_status vc_ret)
    auto

lemma vc_recover_from_route:
  assumes "loopback m"
  shows "vc (recover_from m s) (\<lambda>_ (e, l', k). dk_url e \<noteq> Some (mg_url m)) (\<lambda>_ _. True) (d, l, n)"
  unfolding recover_from_def
  by (intro vc_run_then vc_read_config)
    (auto simp: restored_direct [OF assms] intro!: vc_run_then vc_set_url vc_ret intro: vc_mono [OF vc_recover_rest_route])

lemma vc_recover_route:
  assumes "loopback m"
  shows "vc (recover_direct m) (\<lambda>_ (e, l', k). dk_url e \<noteq> Some (mg_url m)) (\<lambda>_ _. True) (d, l, n)"
  unfolding recover_direct_from disable_resume_def
  by (intro vc_run_then vc_see_disk)
    (auto split: option.split intro!: vc_run_then vc_ret vc_store vc_load_or_reset vc_recover_from_route [OF assms])

lemma vc_publish:
  assumes "\<And>t k. k \<le> n \<Longrightarrow> su_draining t = su_draining s \<Longrightarrow> su_phase t = su_phase s \<Longrightarrow> Q t (d, l, k)"
  shows "vc (publish h b s) Q E (d, l, n)"
  unfolding publish_def by (auto intro!: vc_attempt vc_run_then vc_touch vc_ret assms)

lemma vc_drain:
  assumes "\<And>t k. Q t (d, l, k)" and "\<And>e k. E e (d, l, k)"
  shows "vc (drain h s) Q E (d, l, n)"
  unfolding drain_def Let_def
  by (auto split: option.split intro!: vc_run_then vc_touch vc_publish assms)

lemma vc_supervisor_health:
  assumes "\<And>h. Q h v"
  shows "vc (supervisor_health m) Q E v"
  unfolding supervisor_health_def by (auto intro!: vc_attempt vc_probe_health vc_ret assms)

fun unserved :: "manager \<Rightarrow> bool \<times> supervisor \<Rightarrow> view \<Rightarrow> bool" where
  "unserved m (go, s) (d, l, k) = (su_draining s \<longrightarrow> dk_url d \<noteq> Some (mg_url m))"

fun tripped :: "manager \<Rightarrow> bool \<times> supervisor \<Rightarrow> view \<Rightarrow> bool" where
  "tripped m (ok, s) (d, l, k) = (\<not> su_draining s \<and> (ok \<longrightarrow> dk_url d \<noteq> Some (mg_url m)))"

lemma vc_trip:
  assumes m: "loopback m" and s: "\<not> su_draining s"
  shows "vc (trip m reason s) (tripped m) (\<lambda>_ _. True) (d, l, n)"
proof -
  have after: "vc (run_then read_state (\<lambda>now. ret (Inr (f now)))) (\<lambda>r (e, l', k). \<forall>x. r = Inr x \<longrightarrow> dk_url e \<noteq> Some (mg_url m))
      (\<lambda>_ _. True) w" if "case w of (e, l', k) \<Rightarrow> dk_url e \<noteq> Some (mg_url m)" for f w
    using that by (cases w) (auto intro!: vc_run_then vc_read_state vc_ret)
  have trial: "vc (attempt (run_then (recover_direct m) (\<lambda>_. run_then read_state (\<lambda>now. ret (Inr (f now))))) (\<lambda>e. ret (Inl (g e))))
      (\<lambda>r (e, l', k). \<forall>x. r = Inr x \<longrightarrow> dk_url e \<noteq> Some (mg_url m)) (\<lambda>_ _. True) (e, l', k)" for f g e l' k
  proof (rule vc_attempt, rule vc_mono)
    show "vc (run_then (recover_direct m) (\<lambda>_. run_then read_state (\<lambda>now. ret (Inr (f now)))))
      (\<lambda>r (e, l', k). \<forall>x. r = Inr x \<longrightarrow> dk_url e \<noteq> Some (mg_url m)) (\<lambda>_ _. True) (e, l', k)"
      by (rule vc_run_then, rule vc_mono [OF vc_recover_route [OF m]]) (use after in auto)
  qed (auto intro!: vc_ret)
  show ?thesis
    unfolding trip_def trip_locked_def
    by (intro vc_attempt vc_run_then vc_touch vc_read_state vc_if vc_mono [OF trial])
      (use s in \<open>auto split: sum.split intro!: vc_ret vc_throw vc_run_then vc_write_state vc_publish\<close>)
qed

lemma vc_drained:
  assumes "dk_url d \<noteq> Some (mg_url m)"
  shows "vc (drained h s) (unserved m) (\<lambda>_ _. True) (d, l, n)"
  unfolding drained_def by (auto intro!: vc_run_then vc_drain vc_ret simp: assms)

lemma vc_carry_on:
  assumes "\<not> su_draining s"
  shows "vc (carry_on h s) (unserved m) (\<lambda>_ _. True) (d, l, n)"
  unfolding carry_on_def by (auto intro!: vc_run_then vc_publish vc_ret simp: assms)

lemma vc_watch:
  assumes m: "loopback m" and s: "\<not> su_draining s"
  shows "vc (watch m h exited s) (unserved m) (\<lambda>_ _. True) (d, l, n)"
proof -
  have decide: "vc (let (reason, pr) = protect now ph p exited (su_protection s);
           s1 = s\<lparr>su_protection := pr\<rparr>
       in if reason \<noteq> None
          then run_then (trip m (Runtime_error External) s1) (\<lambda>(ok, t). if ok then drained h t else carry_on h t)
          else carry_on h s1) (unserved m) (\<lambda>_ _. True) (d, l, k)" for now ph p k
  proof -
    obtain reason pr where p: "protect now ph p exited (su_protection s) = (reason, pr)" by fastforce
    have "vc (run_then (trip m (Runtime_error External) (s\<lparr>su_protection := pr\<rparr>))
        (\<lambda>(ok, t). if ok then drained h t else carry_on h t)) (unserved m) (\<lambda>_ _. True) (d, l, k)"
      by (rule vc_run_then, rule vc_mono [OF vc_trip [OF m]])
        (use s in \<open>auto intro: vc_drained vc_carry_on simp del: unserved.simps\<close>)
    with s show ?thesis by (simp add: p vc_carry_on Let_def)
  qed
  show ?thesis
    unfolding watch_def
    by (intro vc_run_then vc_see vc_if vc_ret vc_time_now decide)
qed

lemma vc_supervise:
  assumes m: "loopback m" and s: "\<not> su_draining s" and d: "dk_file d = Stored st" "os_enabled st"
    and p: "os_phase st \<notin> {Some Ph_off, Some Ph_faulted, Some Ph_failed}"
  shows "vc (supervise m exited s) (unserved m) (\<lambda>_ _. True) (d, l, n)"
proof -
  have recover: "vc (run_then (attempt (run_then touch (\<lambda>_. run_then (recover_direct m) (\<lambda>_. ret True)))
                        (\<lambda>e. if is_runtime e then ret False else throw e))
              (\<lambda>ok. if ok then drained h s else ret (True, s))) (unserved m) (\<lambda>_ _. True) (d, l, n)" for h
  proof (rule vc_run_then, rule vc_attempt, rule vc_run_then, rule vc_touch, rule vc_run_then)
    show "vc (recover_direct m)
      (\<lambda>_. vc (ret True) (\<lambda>ok. vc (if ok then drained h s else ret (True, s)) (unserved m) (\<lambda>_ _. True))
         (\<lambda>e. vc (if is_runtime e then ret False else throw e)
            (\<lambda>ok. vc (if ok then drained h s else ret (True, s)) (unserved m) (\<lambda>_ _. True)) (\<lambda>_ _. True)))
      (\<lambda>e. vc (if is_runtime e then ret False else throw e)
            (\<lambda>ok. vc (if ok then drained h s else ret (True, s)) (unserved m) (\<lambda>_ _. True)) (\<lambda>_ _. True)) (d, l, n)"
      by (rule vc_mono [OF vc_recover_route [OF m]])
        (use s in \<open>auto intro!: vc_ret vc_throw vc_drained\<close>)
  qed (use s in \<open>auto intro!: vc_ret vc_throw\<close>)
  show ?thesis
    unfolding supervise_def Let_def
    by (intro vc_run_then vc_read_state)
      (use d p s in \<open>auto intro!: vc_run_then vc_read_config vc_supervisor_health vc_see recover vc_watch [OF m s]
        simp del: unserved.simps\<close>)
qed

section \<open>Examples\<close>

text \<open>A running relay whose process has just ended, for concrete instances.\<close>

definition demo_active :: obs_state where
  "demo_active = empty_state\<lparr>os_enabled := True, os_phase := Some Ph_active\<rparr>"

definition demo_watched :: world where
  "demo_watched = demo_world\<lparr>ow_disk := \<lparr>dk_url = Some (mg_url demo_manager), dk_file = Stored demo_active,
     dk_startup = None, dk_resume = None\<rparr>\<rparr>"

definition demo_source :: drain_source where
  "demo_source = \<lparr>ds_instance = ''i'', ds_control = replicate 32 (CHR ''a''), ds_processes = 1\<rparr>"

definition demo_live :: "nat \<Rightarrow> live_relay" where
  "demo_live busy = \<lparr>dl_instance = ''i'', dl_control = replicate 32 (CHR ''a''), dl_supports_force = True,
     dl_websockets = Some \<lparr>ws_responding = busy, ws_unknown = 0, ws_connecting = 0, ws_reserved = 0\<rparr>,
     dl_http = 0, dl_active = busy, dl_draining = False\<rparr>"

definition demo_round :: "bool \<Rightarrow> nat \<Rightarrow> rat \<Rightarrow> drain_round" where
  "demo_round force busy now = \<lparr>dr_allowed = True, dr_stopped = False, dr_released = False, dr_foreign = False,
     dr_current = Some (demo_live busy), dr_refused = False, dr_force = force,
     dr_captured = Some (''i'', replicate 32 (CHR ''a'')), dr_before_ok = True, dr_lock_ok = True, dr_exited = False,
     dr_set_clock = now, dr_check_clock = now\<rparr>"

section \<open>Further properties\<close>

text \<open>
  Once the relay was told to drain and the exit deadline is set, the shutdown loop does not outlive it: as
  long as it goes on, every round read a clock before the deadline (a later force request may set the deadline
  once more, so it is either already sent or not asked for in these rounds).
\<close>

theorem shutdown_deadline:
  assumes "dn_sent s" and "dn_deadline s = Some d" and "dn_force_sent s \<or> list_all (\<lambda>e. \<not> dr_force e) es"
    and "list_ex (\<lambda>e. d \<le> dr_check_clock e) es"
  shows "\<exists>x t. drain_run b src es s = (Some x, t)"
proof -
  obtain r t where run: "drain_run b src es s = (r, t)" by fastforce
  show ?thesis
  proof (cases r)
    case None
    with run have "list_all (\<lambda>e. dr_check_clock e < d) es"
      using drain_run_deadline [OF assms(1,3,2)] by simp
    with assms(4) show ?thesis by (auto simp: list_all_iff list_ex_iff)
  qed (use run in blast)
qed

theorem shutdown_deadline_witness:
  "\<exists>x t. drain_run False demo_source [demo_round False 0 10, demo_round False 0 30]
     (drain_init\<lparr>dn_sent := True, dn_deadline := Some 30\<rparr>) = (Some x, t)"
  by (rule shutdown_deadline) (auto simp: demo_round_def drain_init_def)

section \<open>Claims\<close>





end
