(* ===== verification/Session.thy ===== *)
theory Session
  imports Tokens Headers "HOL-Library.List_Lexorder"
begin

text \<open>
  The session state of \<open>cachemonitor/core.py\<close>: \<open>Session.add_usage\<close>, \<open>resolve_context\<close>,
  \<open>consume\<close>, \<open>trim\<close> and \<open>transport_details\<close>. \<open>unresolved_contexts\<close> holds references to
  the objects of \<open>requests\<close>; the model refers to them by their key, which is unique.
  \<open>stamp\<close> (ISO time parsing) and \<open>str\<close> of a value are the parameters \<open>stp\<close> and \<open>shw\<close>.
\<close>

section \<open>State\<close>

record evidence =
  ev_configured_tier :: pyval
  ev_action :: string
  ev_source :: string

record token_request =
  n_ts :: rat
  n_key :: pyval
  n_usage :: usage
  n_model :: pyval
  n_turn :: pyval
  n_effort :: pyval
  n_tier :: pyval
  n_tier_source :: string
  n_configured_model :: pyval
  n_model_source :: string
  n_configured_tier :: pyval
  n_mode_source :: string
  n_mode_action :: string
  n_epoch :: nat

record transport =
  tp_ts :: rat
  tp_kind :: string
  tp_endpoint :: string
  tp_evidence :: string
  tp_turn :: pyval

datatype turn_state = Progressing | Aborted | Completed

record turn_record =
  tu_turn :: pyval
  tu_state :: turn_state
  tu_started_at :: "rat option"
  tu_ended_at :: "rat option"
  tu_observed_at :: rat

record coverage_gap = cg_start :: rat  cg_end :: rat  cg_tokens :: int

record session =
  sn_id :: string
  sn_model :: pyval
  sn_configured_model :: pyval
  sn_modern :: bool
  sn_total_key :: pydict
  sn_requests :: "token_request list"
  sn_keys :: "pyval list"
  sn_transports :: "transport list"
  sn_running :: bool
  sn_state_ts :: rat
  sn_activity :: rat
  sn_contexts :: "(pyval \<times> pyval \<times> pyval) list"
  sn_unresolved :: "(pyval \<times> pyval list) list"
  sn_revision :: nat
  sn_current_turn :: pyval
  sn_request_state :: "turn_record option"
  sn_turn_records :: "(pyval \<times> turn_record) list"
  sn_current_effort :: pyval
  sn_current_tier :: pyval
  sn_tier_contexts :: "(pyval \<times> pyval) list"
  sn_tier_evidence :: "(pyval \<times> evidence option) list"
  sn_current_evidence :: "evidence option"
  sn_pending_tier :: "(pyval \<times> rat \<times> pyval) option"
  sn_reported :: "usage option"
  sn_reported_ts :: rat
  sn_coverage_total :: int
  sn_coverage_last :: "(rat \<times> int) option"
  sn_coverage_gaps :: "coverage_gap list"
  sn_coverage_initial :: int
  sn_lineage :: lineage
  sn_epoch :: nat

definition blank :: pyval where "blank = PStr ''''"
definition unknown :: pyval where "unknown = PStr mihwagin"

text \<open>\<open>value in (None, '', unconfirmed)\<close>\<close>

definition unset :: "pyval \<Rightarrow> bool" where
  "unset v = (v = PNone \<or> v = blank \<or> v = unknown)"

definition lookup_or :: "('k \<times> 'v) list \<Rightarrow> 'k \<Rightarrow> 'v \<Rightarrow> 'v" where
  "lookup_or d k v = (case map_of d k of None \<Rightarrow> v | Some x \<Rightarrow> x)"

definition has_key :: "pydict \<Rightarrow> string \<Rightarrow> bool" where
  "has_key d k = (k \<in> fst ` set d)"

section \<open>Requests\<close>

definition apply_evidence :: "evidence option \<Rightarrow> token_request \<Rightarrow> token_request" where
  "apply_evidence e r = (case e of None \<Rightarrow> r
     | Some x \<Rightarrow> r\<lparr>n_configured_tier := ev_configured_tier x, n_mode_source := ev_source x, n_mode_action := ev_action x\<rparr>)"

text \<open>A request some field of which a later context of its turn may fill in.\<close>

definition open_fields :: "token_request \<Rightarrow> bool" where
  "open_fields r = (\<not> truthy (n_model r) \<or> unset (n_effort r) \<or> n_tier_source r = ''settings'' \<and> unset (n_tier r))"

definition new_request :: "session \<Rightarrow> rat \<Rightarrow> pyval \<Rightarrow> usage \<Rightarrow> pyval \<Rightarrow> pyval \<Rightarrow> pyval \<Rightarrow> pyval \<Rightarrow> string \<Rightarrow> pyval \<Rightarrow>
    evidence option \<Rightarrow> token_request" where
  "new_request s ts key u model turn effort tier source conf meta = apply_evidence meta
     \<lparr>n_ts = ts, n_key = key, n_usage = u, n_model = model, n_turn = turn, n_effort = effort, n_tier = tier,
      n_tier_source = source, n_configured_model = or_value conf model, n_model_source = ''settings'',
      n_configured_tier = PNone, n_mode_source = ''unknown'', n_mode_action = ''unknown'', n_epoch = sn_epoch s\<rparr>"

definition total_of :: "token_request \<Rightarrow> int" where
  "total_of r = or_zero (u_total (n_usage r))"

text \<open>\<open>d.setdefault(k, []).append(v)\<close>\<close>

definition default_append :: "'k \<Rightarrow> 'v \<Rightarrow> ('k \<times> 'v list) list \<Rightarrow> ('k \<times> 'v list) list" where
  "default_append k v d = AList.update k (lookup_or d k [] @ [v]) d"

definition add_usage :: "rat \<Rightarrow> pyval \<Rightarrow> pyval \<Rightarrow> pyval \<Rightarrow> pyval \<Rightarrow> pyval \<Rightarrow> pyval \<Rightarrow> string \<Rightarrow> pyval \<Rightarrow> evidence option \<Rightarrow>
    session \<Rightarrow> pyerror + session" where
  "add_usage ts key usage_value model turn effort tier source conf meta s =
    (if key \<in> set (sn_keys s) then Inr s
     else bindE (or_empty usage_value) (\<lambda>d. bindE (usage_values d) (\<lambda>u.
       let r = new_request s ts key u model turn effort tier source conf meta
       in Inr (s\<lparr>sn_keys := sn_keys s @ [key], sn_requests := sn_requests s @ [r],
            sn_unresolved := (if truthy turn \<and> open_fields r then default_append turn key (sn_unresolved s) else sn_unresolved s),
            sn_coverage_total := sn_coverage_total s + total_of r,
            sn_activity := max (sn_activity s) ts\<rparr>))))"

text \<open>One request of \<open>resolve_context\<close>: its new value and whether anything changed.\<close>

definition fill_request :: "pyval \<Rightarrow> pyval \<Rightarrow> pyval \<Rightarrow> evidence option \<Rightarrow> bool \<Rightarrow> token_request \<Rightarrow> token_request \<times> bool" where
  "fill_request model effort tier ev include_tier r0 =
    (let c1 = (\<not> truthy (n_model r0) \<and> truthy model);
         r1 = (if c1 then r0\<lparr>n_model := model, n_configured_model := model\<rparr> else r0);
         c2 = (unset (n_effort r1) \<and> \<not> unset effort);
         r2 = (if c2 then r1\<lparr>n_effort := effort\<rparr> else r1);
         c3 = (include_tier \<and> n_tier_source r2 = ''settings'' \<and> unset (n_tier r2) \<and> \<not> unset tier);
         r3 = (if c3 then apply_evidence ev (r2\<lparr>n_tier := tier\<rparr>) else r2)
     in (r3, c1 \<or> c2 \<or> c3))"

fun resolve_keys :: "(token_request \<Rightarrow> token_request \<times> bool) \<Rightarrow> pyval \<Rightarrow> pyval list \<Rightarrow> session \<Rightarrow> session" where
  "resolve_keys f turn [] s = s"
| "resolve_keys f turn (k # ks) s = resolve_keys f turn ks
     (case find (\<lambda>r. n_key r = k) (sn_requests s) of None \<Rightarrow> s
      | Some r \<Rightarrow> (case f r of (r', changed) \<Rightarrow>
          s\<lparr>sn_requests := map (\<lambda>q. if n_key q = k then r' else q) (sn_requests s),
            sn_revision := sn_revision s + (if changed then 1 else 0),
            sn_unresolved := (if open_fields r' then default_append turn k (sn_unresolved s) else sn_unresolved s)\<rparr>))"

definition resolve_context :: "pyval \<Rightarrow> bool \<Rightarrow> session \<Rightarrow> session" where
  "resolve_context turn include_tier s =
    (case lookup_or (sn_contexts s) turn (blank, unknown) of (model, effort) \<Rightarrow>
       resolve_keys (fill_request model effort (lookup_or (sn_tier_contexts s) turn unknown)
           (lookup_or (sn_tier_evidence s) turn None) include_tier)
         turn (lookup_or (sn_unresolved s) turn [])
         (s\<lparr>sn_unresolved := AList.delete turn (sn_unresolved s)\<rparr>))"

section \<open>Events\<close>

definition set_lineage :: "lineage \<Rightarrow> lineage \<Rightarrow> lineage" where
  "set_lineage l old = \<lparr>l_parent = l_parent l,
     l_agent_path = (case l_agent_path l of None \<Rightarrow> l_agent_path old | x \<Rightarrow> x),
     l_nickname = (case l_nickname l of None \<Rightarrow> l_nickname old | x \<Rightarrow> x),
     l_depth = (case l_depth l of None \<Rightarrow> l_depth old | x \<Rightarrow> x)\<rparr>"

definition as_dict :: "pyval \<Rightarrow> pyerror + pydict" where
  "as_dict v = (case v of PDict d \<Rightarrow> Inr d | _ \<Rightarrow> Inl AttributeError)"

text \<open>\<open>effort or reasoning_effort or collaboration_mode.settings.reasoning_effort\<close>\<close>

definition context_effort :: "pydict \<Rightarrow> pyerror + pyval" where
  "context_effort p =
    (if truthy (dget p ''effort'') then Inr (dget p ''effort'')
     else if truthy (dget p ''reasoning_effort'') then Inr (dget p ''reasoning_effort'')
     else bindE (or_empty (dget p ''collaboration_mode'')) (\<lambda>c.
          bindE (as_dict (dget_or c ''settings'' (PDict []))) (\<lambda>t. Inr (dget t ''reasoning_effort''))))"

definition string_or_unknown :: "pyval \<Rightarrow> pyval" where
  "string_or_unknown v = (case v of PStr _ \<Rightarrow> v | _ \<Rightarrow> unknown)"

definition enter_context :: "pydict \<Rightarrow> pydict \<Rightarrow> rat \<Rightarrow> pyval \<Rightarrow> session \<Rightarrow> session" where
  "enter_context event p ts effort s =
    (let conf = or_value (dget p ''model'') blank;
         turn = or_value (dget p ''turn_id'') (sn_current_turn s);
         eff = string_or_unknown effort;
         tiered = has_key p ''service_tier'';
         value = dget p ''service_tier'';
         tier = (if tiered then (if value = PNone then PStr ''Standard'' else value) else sn_current_tier s);
         ev = (if tiered then Some \<lparr>ev_configured_tier = value, ev_action = (if value = PNone then ''clear'' else ''set''),
                 ev_source = ''turn_context''\<rparr> else sn_current_evidence s)
     in s\<lparr>sn_configured_model := conf, sn_model := or_value conf (sn_model s), sn_current_turn := turn,
          sn_current_effort := eff,
          sn_contexts := AList.update turn (conf, eff) (sn_contexts s),
          sn_tier_contexts := AList.update turn tier (sn_tier_contexts s),
          sn_tier_evidence := AList.update turn ev (sn_tier_evidence s),
          sn_pending_tier := (if tiered then None else Some (turn, ts, dget event ''_next_event_id''))\<rparr>)"

definition consume_turn_context :: "pydict \<Rightarrow> pydict \<Rightarrow> rat \<Rightarrow> session \<Rightarrow> pyerror + session" where
  "consume_turn_context event p ts s = bindE (context_effort p) (\<lambda>effort.
     let s1 = enter_context event p ts effort s
     in Inr (if truthy (dget p ''turn_id'') then resolve_context (dget p ''turn_id'') (has_key p ''service_tier'') s1 else s1))"

definition is_legacy :: "pyval \<Rightarrow> bool" where
  "is_legacy key = (case key of PStr s \<Rightarrow> take 7 s = ''legacy:'' | _ \<Rightarrow> False)"

text \<open>The first record of the modern format drops the requests read from the old one.\<close>

definition drop_legacy :: "session \<Rightarrow> session" where
  "drop_legacy s =
    (if \<not> sn_modern s \<and> list_ex (\<lambda>r. is_legacy (n_key r)) (sn_requests s) then
       (let rs = filter (\<lambda>r. \<not> is_legacy (n_key r)) (sn_requests s); ks = map n_key rs
        in s\<lparr>sn_requests := rs, sn_keys := ks, sn_coverage_total := sum_list (map total_of rs),
             sn_unresolved := List.map_filter (\<lambda>(turn, qs). let kept = filter (\<lambda>k. k \<in> set ks) qs
                in if kept = [] then None else Some (turn, kept)) (sn_unresolved s)\<rparr>)
     else s)"

definition event_part :: "(pyval \<Rightarrow> string) \<Rightarrow> pydict \<Rightarrow> session \<Rightarrow> string" where
  "event_part shw event s = (if truthy (dget event ''event_id'') then shw (dget event ''event_id'')
     else if truthy (dget event ''ordinal'') then shw (dget event ''ordinal'') else digits (length (sn_keys s)))"

definition consume_usage_record :: "(pyval \<Rightarrow> string) \<Rightarrow> pydict \<Rightarrow> pydict \<Rightarrow> rat \<Rightarrow> session \<Rightarrow> pyerror + session" where
  "consume_usage_record shw event p ts s0 =
    (let s = (drop_legacy s0)\<lparr>sn_modern := True\<rparr>;
         turn = dget_or p ''turn_id'' blank
     in case lookup_or (sn_contexts s) turn (blank, unknown) of (model, effort) \<Rightarrow>
       bindE (add_usage ts
           (or_value (dget p ''response_id'') (PStr (''record:'' @ event_part shw event s)))
           (dget p ''usage'') model turn effort
           (dget_or p ''service_tier'' (lookup_or (sn_tier_contexts s) turn unknown))
           (if has_key p ''service_tier'' then ''record'' else ''settings'') model
           (lookup_or (sn_tier_evidence s) turn None) s)
         (\<lambda>s1. case dget p ''thread_token_usage'' of
            PDict d \<Rightarrow> if ts \<ge> sn_reported_ts s1
              then bindE (usage_values d) (\<lambda>u. Inr (s1\<lparr>sn_reported := Some u, sn_reported_ts := ts\<rparr>))
              else Inr s1
          | _ \<Rightarrow> Inr s1))"

text \<open>\<open>'service_tier' in settings\<close>, where settings may be any value.\<close>

definition substring :: "string \<Rightarrow> string \<Rightarrow> bool" where
  "substring x s = list_ex (\<lambda>k. take (length x) (drop k s) = x) [0..<length s + 1]"

definition settings_tier :: "pyval \<Rightarrow> pyerror + pyval option" where
  "settings_tier v = (if \<not> truthy v then Inr None else (case v of
     PDict d \<Rightarrow> Inr (if has_key d ''service_tier'' then Some (dget d ''service_tier'') else None)
   | PStr s \<Rightarrow> if substring ''service_tier'' s then Inl TypeError else Inr None
   | PList xs \<Rightarrow> if PStr ''service_tier'' \<in> set xs then Inl TypeError else Inr None
   | _ \<Rightarrow> Inl TypeError))"

definition apply_settings :: "pydict \<Rightarrow> rat \<Rightarrow> (pyval \<times> rat \<times> pyval) option \<Rightarrow> pyval \<Rightarrow> session \<Rightarrow> session" where
  "apply_settings event ts pending value s =
    (let tier = (if value = PNone then PStr ''Standard'' else (case value of PStr t \<Rightarrow> if t = [] then unknown else value | _ \<Rightarrow> unknown));
         ev = \<lparr>ev_configured_tier = value, ev_action = (if value = PNone then ''clear'' else ''set''), ev_source = ''applied_settings''\<rparr>;
         s1 = s\<lparr>sn_current_tier := tier, sn_current_evidence := Some ev\<rparr>
     in case pending of None \<Rightarrow> s1
      | Some (turn, at_ts, next_id) \<Rightarrow>
          if turn = sn_current_turn s1 \<and> at_ts \<le> ts \<and>
             (\<not> truthy (dget event ''event_id'') \<or> next_id = dget event ''event_id'')
          then resolve_context (sn_current_turn s1) True
            (s1\<lparr>sn_tier_contexts := AList.update (sn_current_turn s1) tier (sn_tier_contexts s1),
                sn_tier_evidence := AList.update (sn_current_turn s1) (Some ev) (sn_tier_evidence s1)\<rparr>)
          else s1)"

definition consume_task :: "string \<Rightarrow> pydict \<Rightarrow> rat \<Rightarrow> session \<Rightarrow> session" where
  "consume_task event_type p ts s =
    (let running = (event_type = ''task_started'');
         s1 = s\<lparr>sn_state_ts := ts, sn_running := running, sn_activity := max (sn_activity s) ts\<rparr>;
         turn = dget p ''turn_id'';
         previous = map_of (sn_turn_records s1) turn;
         rec = \<lparr>tu_turn = turn,
                tu_state = (if event_type = ''task_started'' then Progressing
                            else if event_type = ''turn_aborted'' then Aborted else Completed),
                tu_started_at = (if running then Some ts else (case previous of None \<Rightarrow> None | Some r \<Rightarrow> tu_started_at r)),
                tu_ended_at = (if running then None else Some ts), tu_observed_at = ts\<rparr>;
         s2 = (if truthy turn
               then s1\<lparr>sn_request_state := Some rec, sn_turn_records := AList.update turn rec (sn_turn_records s1)\<rparr>
               else s1\<lparr>sn_request_state := None\<rparr>)
     in if running then s2\<lparr>sn_current_turn := dget_or p ''turn_id'' blank, sn_current_effort := unknown\<rparr> else s2)"

definition consume_token_count :: "(pyval \<Rightarrow> string) \<Rightarrow> pydict \<Rightarrow> pydict \<Rightarrow> rat \<Rightarrow> session \<Rightarrow> pyerror + session" where
  "consume_token_count shw event p ts s =
    bindE (or_empty (dget p ''info'')) (\<lambda>info.
    bindE (or_empty (dget info ''total_token_usage'')) (\<lambda>total.
      let fingerprint = sort_key fst total
      in if fingerprint \<noteq> [] \<and> fingerprint \<noteq> sn_total_key s then
           bindE (add_usage ts (PStr (''legacy:'' @ event_part shw event s)) (dget info ''last_token_usage'')
               (sn_configured_model s) (sn_current_turn s) (sn_current_effort s)
               (lookup_or (sn_tier_contexts s) (sn_current_turn s) unknown) ''settings'' blank None
               (s\<lparr>sn_total_key := fingerprint\<rparr>))
             (\<lambda>s1. if ts \<ge> sn_reported_ts s1
               then bindE (usage_values total) (\<lambda>u. Inr (s1\<lparr>sn_reported := Some u, sn_reported_ts := ts\<rparr>)) else Inr s1)
         else Inr s))"

definition TASK_EVENTS :: "string list" where
  "TASK_EVENTS = [''task_started'', ''task_complete'', ''task_completed'', ''turn_aborted'']"

definition consume_event_msg :: "(pyval \<Rightarrow> string) \<Rightarrow> pydict \<Rightarrow> pydict \<Rightarrow> rat \<Rightarrow> (pyval \<times> rat \<times> pyval) option \<Rightarrow>
    session \<Rightarrow> pyerror + session" where
  "consume_event_msg shw event p ts pending s0 =
    (let event_type = (case dget p ''type'' of PStr t \<Rightarrow> t | _ \<Rightarrow> '''')
     in bindE (if event_type = ''thread_settings_applied'' \<and> dget p ''thread_id'' = PStr (sn_id s0)
               then bindE (settings_tier (dget p ''thread_settings'')) (\<lambda>v. Inr (case v of None \<Rightarrow> s0
                      | Some value \<Rightarrow> apply_settings event ts pending value s0))
               else Inr s0)
        (\<lambda>s1. let s2 = (if event_type \<in> set TASK_EVENTS \<and> ts \<ge> sn_state_ts s1 then consume_task event_type p ts s1 else s1)
          in if event_type = ''token_count'' \<and> \<not> sn_modern s2 then consume_token_count shw event p ts s2 else Inr s2))"

definition reported_total :: "session \<Rightarrow> int option" where
  "reported_total s = (case sn_reported s of None \<Rightarrow> None | Some u \<Rightarrow> u_total u)"

text \<open>The last part of \<open>consume\<close>: what a new report says that no request explains.\<close>

definition note_coverage :: "rat \<times> int option \<Rightarrow> session \<Rightarrow> session" where
  "note_coverage previous s =
    (if (sn_reported_ts s, reported_total s) \<noteq> previous then
       (case reported_total s of None \<Rightarrow> s
        | Some t \<Rightarrow> (let residual = t - sn_coverage_total s;
             s1 = (case sn_coverage_last s of None \<Rightarrow> s\<lparr>sn_coverage_initial := max 0 residual\<rparr>
                   | Some (last_ts, last_residual) \<Rightarrow> if residual > last_residual
                       then s\<lparr>sn_coverage_gaps := sn_coverage_gaps s @
                              [\<lparr>cg_start = last_ts, cg_end = sn_reported_ts s, cg_tokens = residual - last_residual\<rparr>]\<rparr>
                       else s)
           in s1\<lparr>sn_coverage_last := Some (sn_reported_ts s1, residual)\<rparr>))
     else s)"

definition finish_event :: "(pyval \<times> rat \<times> pyval) option \<Rightarrow> rat \<times> int option \<Rightarrow> session \<Rightarrow> session" where
  "finish_event pending previous s = note_coverage previous
     (case pending of None \<Rightarrow> s | Some (turn, _, _) \<Rightarrow> resolve_context turn True s)"

definition consume_payload :: "(pyval \<Rightarrow> string) \<Rightarrow> pydict \<Rightarrow> pydict \<Rightarrow> rat \<Rightarrow> session \<Rightarrow> pyerror + session" where
  "consume_payload shw event p ts s0 =
    (let previous = (sn_reported_ts s0, reported_total s0);
         kind = dget event ''type''; pending = sn_pending_tier s0; s = s0\<lparr>sn_pending_tier := None\<rparr>
     in if kind = PStr ''compacted'' \<or> kind = PStr ''event_msg'' \<and> dget p ''type'' = PStr ''context_compacted''
        then Inr (s\<lparr>sn_epoch := sn_epoch s + 1\<rparr>)
        else if kind = PStr ''token_usage_record'' \<and> dget_or p ''thread_id'' (PStr (sn_id s)) \<noteq> PStr (sn_id s) then Inr s
        else bindE
          (if kind = PStr ''session_meta'' then
             Inr (case session_lineage (PDict p) (sn_id s) of None \<Rightarrow> s
                | Some l \<Rightarrow> s\<lparr>sn_lineage := set_lineage l (sn_lineage s)\<rparr>)
           else if kind = PStr ''turn_context'' then consume_turn_context event p ts s
           else if kind = PStr ''token_usage_record'' then consume_usage_record shw event p ts s
           else if kind = PStr ''event_msg'' then consume_event_msg shw event p ts pending s
           else Inr s)
          (\<lambda>s1. Inr (finish_event pending previous s1)))"

definition consume :: "(pyval \<Rightarrow> rat) \<Rightarrow> (pyval \<Rightarrow> string) \<Rightarrow> pydict \<Rightarrow> session \<Rightarrow> pyerror + session" where
  "consume stp shw event s =
    (case (if truthy (dget event ''payload'') then dget event ''payload'' else PDict []) of
       PDict p \<Rightarrow> consume_payload shw event p (stp (dget event ''timestamp'')) s
     | _ \<Rightarrow> Inr s)"

section \<open>Transports\<close>

definition SESSION_TRIM :: rat where "SESSION_TRIM = 1800"

text \<open>\<open>trim\<close>: drop from the left while the second observation is already too old.\<close>

fun trim_transports :: "rat \<Rightarrow> transport list \<Rightarrow> transport list" where
  "trim_transports now (a # b # ts) = (if tp_ts b < now - SESSION_TRIM then trim_transports now (b # ts) else a # b # ts)"
| "trim_transports now ts = ts"

definition trim_session :: "rat \<Rightarrow> session \<Rightarrow> session" where
  "trim_session now s = s\<lparr>sn_transports := trim_transports now (sn_transports s)\<rparr>"

text \<open>\<open>max(..., key=...)\<close> returns the first of the largest.\<close>

fun max_by :: "('a \<Rightarrow> rat) \<Rightarrow> 'a list \<Rightarrow> 'a option" where
  "max_by f [] = None"
| "max_by f (x # xs) = (case max_by f xs of None \<Rightarrow> Some x | Some y \<Rightarrow> if f y > f x then Some y else Some x)"

definition transport_fits :: "token_request \<Rightarrow> transport \<Rightarrow> bool" where
  "transport_fits r t = (tp_ts t \<le> n_ts r \<and> (\<not> truthy (n_turn r) \<or> \<not> truthy (tp_turn t) \<or> n_turn r = tp_turn t))"

record transport_detail =
  td_transport :: string
  td_source :: string
  td_ts :: "rat option"
  td_evidence :: string
  td_endpoint :: string
  td_turn :: pyval

definition KNOWN_TRANSPORTS :: "string list" where "KNOWN_TRANSPORTS = [''WebSocket'', ''HTTP/SSE'']"

definition detail_of :: "transport option \<Rightarrow> transport_detail" where
  "detail_of t = (case t of
     None \<Rightarrow> \<lparr>td_transport = mihwagin, td_source = ''unknown'', td_ts = None, td_evidence = ''no matching record'',
              td_endpoint = '''', td_turn = blank\<rparr>
   | Some x \<Rightarrow> \<lparr>td_transport = (if tp_kind x \<in> set KNOWN_TRANSPORTS then tp_kind x else mihwagin),
              td_source = (if tp_kind x \<in> set KNOWN_TRANSPORTS then ''log_time'' else ''unknown''),
              td_ts = Some (tp_ts x), td_evidence = tp_evidence x, td_endpoint = tp_endpoint x, td_turn = tp_turn x\<rparr>)"

definition transport_details :: "session \<Rightarrow> token_request \<Rightarrow> transport_detail" where
  "transport_details s r = detail_of (max_by tp_ts (filter (transport_fits r) (sn_transports s)))"

lemma max_by_None: "max_by f xs = None \<longleftrightarrow> xs = []"
  by (cases xs) (auto split: option.splits)

lemma max_by_Some: "max_by f xs = Some x \<Longrightarrow> x \<in> set xs \<and> (\<forall>y \<in> set xs. f y \<le> f x)"
proof (induction xs arbitrary: x)
  case (Cons a xs)
  show ?case
  proof (cases "max_by f xs")
    case None
    with Cons.prems show ?thesis by (auto simp: max_by_None)
  next
    case (Some y)
    from Cons.IH [OF this] Cons.prems Some show ?thesis by (fastforce split: if_splits)
  qed
qed simp

text \<open>Trimming does not change the attribution of a request inside the window.\<close>

lemma trim_transports_suffix: "\<exists>zs. ts = zs @ trim_transports now ts"
proof (induction now ts rule: trim_transports.induct)
  case (1 now a b ts)
  then show ?case by (cases "tp_ts b < now - SESSION_TRIM") (auto intro: exI [of _ "a # _"])
qed auto

section \<open>Invariant\<close>

definition core_of :: "token_request \<Rightarrow> pyval \<times> usage \<times> rat \<times> pyval \<times> nat" where
  "core_of r = (n_key r, n_usage r, n_ts r, n_turn r, n_epoch r)"

definition unresolved_ok :: "pyval list \<Rightarrow> (pyval \<times> pyval list) list \<Rightarrow> bool" where
  "unresolved_ok keys d = (\<forall>(turn, ks) \<in> set d. set ks \<subseteq> set keys)"

definition session_ok :: "session \<Rightarrow> bool" where
  "session_ok s = (distinct (map n_key (sn_requests s)) \<and> sn_keys s = map n_key (sn_requests s) \<and>
     sn_coverage_total s = sum_list (map total_of (sn_requests s)) \<and>
     (\<forall>r \<in> set (sn_requests s). usage_ok (n_usage r)) \<and>
     unresolved_ok (sn_keys s) (sn_unresolved s))"

lemma set_alist_update: "set (AList.update k v d) \<subseteq> insert (k, v) (set d)"
  by (induction d) auto

lemma unresolved_lookup: "unresolved_ok keys d \<Longrightarrow> set (lookup_or d turn []) \<subseteq> set keys"
  by (cases "map_of d turn") (auto simp: unresolved_ok_def lookup_or_def dest!: map_of_SomeD)

lemma unresolved_append:
  assumes "unresolved_ok keys d" "k \<in> set keys"
  shows "unresolved_ok keys (default_append turn k d)"
  using assms set_alist_update [of turn "lookup_or d turn [] @ [k]" d] unresolved_lookup [OF assms(1), of turn]
  unfolding unresolved_ok_def default_append_def by fastforce

lemma unresolved_delete: "unresolved_ok keys d \<Longrightarrow> unresolved_ok keys (AList.delete turn d)"
  by (auto simp: unresolved_ok_def AList.delete_eq)

lemma session_ok_iff:
  "session_ok s \<longleftrightarrow> distinct (map (fst \<circ> core_of) (sn_requests s)) \<and> sn_keys s = map (fst \<circ> core_of) (sn_requests s) \<and>
     sn_coverage_total s = sum_list (map (\<lambda>c. or_zero (u_total (fst (snd c)))) (map core_of (sn_requests s))) \<and>
     (\<forall>c \<in> set (map core_of (sn_requests s)). usage_ok (fst (snd c))) \<and> unresolved_ok (sn_keys s) (sn_unresolved s)"
  by (simp add: session_ok_def core_of_def o_def total_of_def [abs_def])

text \<open>What the invariant reads, so that an update elsewhere keeps it.\<close>

lemma session_ok_same:
  assumes "session_ok s" "map core_of (sn_requests t) = map core_of (sn_requests s)" "sn_keys t = sn_keys s"
    "sn_coverage_total t = sn_coverage_total s" "unresolved_ok (sn_keys s) (sn_unresolved t)"
  shows "session_ok t"
proof -
  have "map (fst \<circ> core_of) (sn_requests t) = map (fst \<circ> core_of) (sn_requests s)"
    using assms(2) by (metis map_map)
  then show ?thesis using assms unfolding session_ok_iff by simp
qed

lemma fill_request_core: "fst (fill_request m e t ev i r) = r' \<Longrightarrow> core_of r' = core_of r"
  by (auto simp: fill_request_def Let_def core_of_def apply_evidence_def split: option.splits)

lemma resolve_keys_facts:
  assumes f: "\<And>r. core_of (fst (f r)) = core_of r" and ks: "set ks \<subseteq> set (sn_keys s)"
    and u: "unresolved_ok (sn_keys s) (sn_unresolved s)" and d: "distinct (map n_key (sn_requests s))"
  shows "map core_of (sn_requests (resolve_keys f turn ks s)) = map core_of (sn_requests s) \<and>
    sn_keys (resolve_keys f turn ks s) = sn_keys s \<and>
    sn_coverage_total (resolve_keys f turn ks s) = sn_coverage_total s \<and>
    unresolved_ok (sn_keys s) (sn_unresolved (resolve_keys f turn ks s)) \<and>
    sn_coverage_gaps (resolve_keys f turn ks s) = sn_coverage_gaps s \<and>
    sn_coverage_last (resolve_keys f turn ks s) = sn_coverage_last s \<and>
    sn_reported_ts (resolve_keys f turn ks s) = sn_reported_ts s \<and>
    sn_reported (resolve_keys f turn ks s) = sn_reported s \<and>
    sn_modern (resolve_keys f turn ks s) = sn_modern s"
  using ks u d
proof (induction ks arbitrary: s)
  case (Cons k ks)
  show ?case
  proof (cases "find (\<lambda>r. n_key r = k) (sn_requests s)")
    case None
    with Cons show ?thesis by simp
  next
    case (Some r)
    obtain r' changed where fr: "f r = (r', changed)" by fastforce
    have core: "core_of r' = core_of r" using f [of r] fr by simp
    have r: "r \<in> set (sn_requests s)" "n_key r = k" using Some by (auto simp: find_Some_iff)
    obtain t where t: "t = s\<lparr>sn_requests := map (\<lambda>q. if n_key q = k then r' else q) (sn_requests s),
        sn_revision := sn_revision s + (if changed then 1 else 0),
        sn_unresolved := (if open_fields r' then default_append turn k (sn_unresolved s) else sn_unresolved s)\<rparr>" by simp
    have step: "resolve_keys f turn (k # ks) s = resolve_keys f turn ks t" using Some fr by (simp add: t)
    have same_fields: "sn_keys t = sn_keys s" "sn_coverage_total t = sn_coverage_total s"
      "sn_coverage_gaps t = sn_coverage_gaps s" "sn_coverage_last t = sn_coverage_last s"
      "sn_reported_ts t = sn_reported_ts s" "sn_reported t = sn_reported s" "sn_modern t = sn_modern s" by (simp_all add: t)
    have same: "q = r" if "q \<in> set (sn_requests s)" "n_key q = k" for q
      using Cons.prems(3) that r by (metis distinct_map inj_onD)
    then have cores: "map core_of (sn_requests t) = map core_of (sn_requests s)"
      using core by (auto simp: t intro!: map_cong)
    have keys: "map n_key (sn_requests t) = map n_key (sn_requests s)"
      using arg_cong [OF cores, of "map fst"] by (simp add: core_of_def o_def)
    have un: "unresolved_ok (sn_keys t) (sn_unresolved t)"
      using Cons.prems(1,2) by (auto simp: t intro: unresolved_append)
    have "set ks \<subseteq> set (sn_keys t)" "distinct (map n_key (sn_requests t))"
      using Cons.prems(1,3) keys same_fields by auto
    from Cons.IH [OF this(1) un this(2)] show ?thesis
      unfolding step cores same_fields .
  qed
qed simp

lemma resolve_context_facts:
  assumes ok: "session_ok s"
  shows "session_ok (resolve_context turn inc s)"
    "map core_of (sn_requests (resolve_context turn inc s)) = map core_of (sn_requests s)"
    "sn_coverage_gaps (resolve_context turn inc s) = sn_coverage_gaps s"
    "sn_coverage_last (resolve_context turn inc s) = sn_coverage_last s"
    "sn_reported_ts (resolve_context turn inc s) = sn_reported_ts s"
    "sn_reported (resolve_context turn inc s) = sn_reported s"
    "sn_modern (resolve_context turn inc s) = sn_modern s"
proof -
  let ?s = "s\<lparr>sn_unresolved := AList.delete turn (sn_unresolved s)\<rparr>"
  obtain m e where me: "lookup_or (sn_contexts s) turn (blank, unknown) = (m, e)" by fastforce
  have u: "unresolved_ok (sn_keys s) (sn_unresolved s)" using ok session_ok_iff by blast
  have d: "distinct (map n_key (sn_requests s))" using ok by (simp add: session_ok_def)
  let ?f = "fill_request m e (lookup_or (sn_tier_contexts s) turn unknown) (lookup_or (sn_tier_evidence s) turn None) inc"
  have "core_of (fst (?f r)) = core_of r" for r by (rule fill_request_core) simp
  note rf = resolve_keys_facts [of ?f "lookup_or (sn_unresolved s) turn []" ?s turn, OF this]
  have eq: "resolve_context turn inc s = resolve_keys ?f turn (lookup_or (sn_unresolved s) turn []) ?s"
    by (simp add: resolve_context_def me)
  have all: "map core_of (sn_requests (resolve_context turn inc s)) = map core_of (sn_requests s) \<and>
    sn_keys (resolve_context turn inc s) = sn_keys s \<and>
    sn_coverage_total (resolve_context turn inc s) = sn_coverage_total s \<and>
    unresolved_ok (sn_keys s) (sn_unresolved (resolve_context turn inc s)) \<and>
    sn_coverage_gaps (resolve_context turn inc s) = sn_coverage_gaps s \<and>
    sn_coverage_last (resolve_context turn inc s) = sn_coverage_last s \<and>
    sn_reported_ts (resolve_context turn inc s) = sn_reported_ts s \<and>
    sn_reported (resolve_context turn inc s) = sn_reported s \<and>
    sn_modern (resolve_context turn inc s) = sn_modern s"
    unfolding eq using rf d unresolved_lookup [OF u] unresolved_delete [OF u] by simp
  then show "session_ok (resolve_context turn inc s)" by (intro session_ok_same [OF ok]) auto
  from all show "map core_of (sn_requests (resolve_context turn inc s)) = map core_of (sn_requests s)"
    "sn_coverage_gaps (resolve_context turn inc s) = sn_coverage_gaps s"
    "sn_coverage_last (resolve_context turn inc s) = sn_coverage_last s"
    "sn_reported_ts (resolve_context turn inc s) = sn_reported_ts s"
    "sn_reported (resolve_context turn inc s) = sn_reported s"
    "sn_modern (resolve_context turn inc s) = sn_modern s" by blast+
qed

text \<open>The fields that only reports write.\<close>

definition report_fields :: "session \<Rightarrow> (rat \<times> int) option \<times> coverage_gap list" where
  "report_fields s = (sn_coverage_last s, sn_coverage_gaps s)"

lemma new_request_simps [simp]:
  "n_key (new_request s ts k u m t e ti so c me) = k" "n_usage (new_request s ts k u m t e ti so c me) = u"
  "total_of (new_request s ts k u m t e ti so c me) = or_zero (u_total u)"
  by (simp_all add: new_request_def apply_evidence_def total_of_def split: option.split)

lemma add_usage_facts:
  assumes a: "add_usage ts key uv m turn e ti so c me s = Inr t" and ok: "session_ok s"
  shows "session_ok t" "report_fields t = report_fields s" "sn_reported_ts t = sn_reported_ts s"
    "sn_modern t = sn_modern s" "key \<in> set (sn_keys s) \<Longrightarrow> t = s"
    "\<exists>new. sn_requests t = sn_requests s @ new \<and> map n_key new = (if key \<in> set (sn_keys s) then [] else [key])"
proof -
  have all: "session_ok t \<and> report_fields t = report_fields s \<and> sn_reported_ts t = sn_reported_ts s \<and>
    sn_modern t = sn_modern s \<and> (key \<in> set (sn_keys s) \<longrightarrow> t = s) \<and>
    (\<exists>new. sn_requests t = sn_requests s @ new \<and> map n_key new = (if key \<in> set (sn_keys s) then [] else [key]))"
  proof (cases "key \<in> set (sn_keys s)")
    case True
    with a ok show ?thesis by (simp add: add_usage_def)
  next
    case False
    with a obtain d u where u: "usage_values d = Inr u"
      and t: "t = s\<lparr>sn_keys := sn_keys s @ [key], sn_requests := sn_requests s @ [new_request s ts key u m turn e ti so c me],
         sn_unresolved := (if truthy turn \<and> open_fields (new_request s ts key u m turn e ti so c me)
           then default_append turn key (sn_unresolved s) else sn_unresolved s),
         sn_coverage_total := sn_coverage_total s + total_of (new_request s ts key u m turn e ti so c me),
         sn_activity := max (sn_activity s) ts\<rparr>"
      by (auto simp: add_usage_def bindE_Inr_conv Let_def)
    have ok_u: "usage_ok u" by (rule usage_values_ok [OF u])
    have un: "unresolved_ok (sn_keys s @ [key]) (sn_unresolved s)"
      using ok unfolding session_ok_def unresolved_ok_def by fastforce
    then have "unresolved_ok (sn_keys s @ [key]) (sn_unresolved t)"
      by (simp add: t unresolved_append)
    with ok ok_u False have "session_ok t"
      by (auto simp: session_ok_def t)
    then show ?thesis using False by (simp add: t report_fields_def)
  qed
  then show "session_ok t" "report_fields t = report_fields s" "sn_reported_ts t = sn_reported_ts s"
    "sn_modern t = sn_modern s" "key \<in> set (sn_keys s) \<Longrightarrow> t = s"
    "\<exists>new. sn_requests t = sn_requests s @ new \<and> map n_key new = (if key \<in> set (sn_keys s) then [] else [key])"
    by blast+
qed

lemma drop_legacy_facts:
  assumes ok: "session_ok s"
  shows "session_ok (drop_legacy s)" "report_fields (drop_legacy s) = report_fields s"
    "sn_reported_ts (drop_legacy s) = sn_reported_ts s"
proof -
  show "report_fields (drop_legacy s) = report_fields s" "sn_reported_ts (drop_legacy s) = sn_reported_ts s"
    by (simp_all add: drop_legacy_def Let_def report_fields_def)
  show "session_ok (drop_legacy s)"
  proof (cases "\<not> sn_modern s \<and> list_ex (\<lambda>r. is_legacy (n_key r)) (sn_requests s)")
    case True
    let ?rs = "filter (\<lambda>r. \<not> is_legacy (n_key r)) (sn_requests s)"
    have "distinct (map n_key ?rs)" using ok by (simp add: session_ok_def distinct_map_filter)
    with ok True show ?thesis
      by (auto simp: session_ok_def unresolved_ok_def drop_legacy_def Let_def set_map_filter split: if_splits)
  next
    case False
    show ?thesis unfolding drop_legacy_def if_not_P [OF False] by (rule ok)
  qed
qed

definition coverage_ok :: "session \<Rightarrow> bool" where
  "coverage_ok s = ((\<forall>g \<in> set (sn_coverage_gaps s). 0 < cg_tokens g \<and> cg_start g \<le> cg_end g) \<and>
     (\<forall>t n. sn_coverage_last s = Some (t, n) \<longrightarrow> t \<le> sn_reported_ts s))"

text \<open>The token counts of a modern session are only ever appended to.\<close>

definition grows :: "session \<Rightarrow> session \<Rightarrow> bool" where
  "grows s t = (sn_modern s \<longrightarrow> sn_modern t \<and> (\<exists>new. map core_of (sn_requests t) = map core_of (sn_requests s) @ new))"

lemma grows_refl [simp]: "grows s s"
  by (simp add: grows_def)

lemma grows_trans: "grows s t \<Longrightarrow> grows t u \<Longrightarrow> grows s u"
  by (auto simp: grows_def)

definition step_ok :: "session \<Rightarrow> session \<Rightarrow> bool" where
  "step_ok s t = (session_ok t \<and> report_fields t = report_fields s \<and> sn_reported_ts s \<le> sn_reported_ts t \<and> grows s t)"

lemma step_ok_refl: "session_ok s \<Longrightarrow> step_ok s s"
  by (simp add: step_ok_def)

lemma step_ok_trans: "step_ok s t \<Longrightarrow> step_ok t u \<Longrightarrow> step_ok s u"
  by (auto simp: step_ok_def intro: grows_trans)

lemma step_okD: "step_ok s t \<Longrightarrow> session_ok t"
  by (simp add: step_ok_def)

lemma step_ok_resolve: "session_ok s \<Longrightarrow> step_ok s (resolve_context turn inc s)"
  using resolve_context_facts [of s turn inc] by (simp add: step_ok_def report_fields_def grows_def)

text \<open>Updates of fields the invariant does not read.\<close>

lemma step_ok_plain:
  assumes "session_ok s" "sn_requests t = sn_requests s" "sn_keys t = sn_keys s" "sn_unresolved t = sn_unresolved s"
    "sn_coverage_total t = sn_coverage_total s" "report_fields t = report_fields s" "sn_reported_ts s \<le> sn_reported_ts t"
    "sn_modern s \<longrightarrow> sn_modern t"
  shows "step_ok s t"
proof -
  have "unresolved_ok (sn_keys s) (sn_unresolved t)" using assms(1) unfolding session_ok_def assms(4) by blast
  then have "session_ok t" using assms(2,3,5) by (intro session_ok_same [OF assms(1)]) simp_all
  with assms(2,6-8) show ?thesis by (simp add: step_ok_def grows_def)
qed

lemma add_usage_step:
  assumes "add_usage ts key uv m turn e ti so c me s = Inr t" "session_ok s"
  shows "step_ok s t"
proof -
  obtain new where "sn_requests t = sn_requests s @ new" using add_usage_facts(6) [OF assms] by blast
  then show ?thesis using add_usage_facts(1-4) [OF assms] by (simp add: step_ok_def grows_def)
qed

lemma step_ok_report: "session_ok s \<Longrightarrow> sn_reported_ts s \<le> ts \<Longrightarrow> step_ok s (s\<lparr>sn_reported := u, sn_reported_ts := ts\<rparr>)"
  by (rule step_ok_plain) (simp_all add: report_fields_def)

lemma enter_context_ok: "session_ok s \<Longrightarrow> step_ok s (enter_context event p ts effort s)"
  by (rule step_ok_plain) (simp_all add: enter_context_def Let_def report_fields_def)

lemma consume_turn_context_ok:
  assumes "consume_turn_context event p ts s = Inr t" "session_ok s"
  shows "step_ok s t"
proof -
  obtain effort where t: "t = (if truthy (dget p ''turn_id'')
      then resolve_context (dget p ''turn_id'') (has_key p ''service_tier'') (enter_context event p ts effort s)
      else enter_context event p ts effort s)"
    using assms(1) unfolding consume_turn_context_def bindE_Inr_conv Let_def by auto
  note e = enter_context_ok [OF assms(2), of event p ts effort]
  show ?thesis unfolding t using e step_ok_trans [OF e step_ok_resolve [OF step_okD [OF e]]] by simp
qed

lemma consume_usage_record_ok:
  assumes "consume_usage_record shw event p ts s = Inr t" "session_ok s"
  shows "step_ok s t"
proof -
  let ?s = "(drop_legacy s)\<lparr>sn_modern := True\<rparr>"
  have "grows s (drop_legacy s)" by (auto simp: grows_def drop_legacy_def)
  then have d: "step_ok s (drop_legacy s)" using drop_legacy_facts [OF assms(2)] by (simp add: step_ok_def)
  have "step_ok (drop_legacy s) ?s" by (rule step_ok_plain [OF step_okD [OF d]]) (simp_all add: report_fields_def)
  with d have s0: "step_ok s ?s" using step_ok_trans by blast
  obtain m e where me: "lookup_or (sn_contexts ?s) (dget_or p ''turn_id'' blank) (blank, unknown) = (m, e)" by fastforce
  obtain s1 k uv turn tier so c me where a: "add_usage ts k uv m turn e tier so c me ?s = Inr s1"
    and t: "t = s1 \<or> (\<exists>u. sn_reported_ts s1 \<le> ts \<and> t = s1\<lparr>sn_reported := Some u, sn_reported_ts := ts\<rparr>)"
  proof -
    from assms(1) obtain s1 where a: "add_usage ts (or_value (dget p ''response_id'') (PStr (''record:'' @ event_part shw event ?s)))
        (dget p ''usage'') m (dget_or p ''turn_id'' blank) e
        (dget_or p ''service_tier'' (lookup_or (sn_tier_contexts ?s) (dget_or p ''turn_id'' blank) unknown))
        (if has_key p ''service_tier'' then ''record'' else ''settings'') m
        (lookup_or (sn_tier_evidence ?s) (dget_or p ''turn_id'' blank) None) ?s = Inr s1"
      and r: "(case dget p ''thread_token_usage'' of
            PDict d \<Rightarrow> if ts \<ge> sn_reported_ts s1
              then bindE (usage_values d) (\<lambda>u. Inr (s1\<lparr>sn_reported := Some u, sn_reported_ts := ts\<rparr>))
              else Inr s1
          | _ \<Rightarrow> Inr s1) = Inr t"
      unfolding consume_usage_record_def Let_def me prod.case bindE_Inr_conv by blast
    from r have "t = s1 \<or> (\<exists>u. sn_reported_ts s1 \<le> ts \<and> t = s1\<lparr>sn_reported := Some u, sn_reported_ts := ts\<rparr>)"
      by (auto simp: bindE_Inr_conv split: pyval.splits if_splits)
    with a show thesis by (rule that)
  qed
  have s1: "step_ok ?s s1" by (rule add_usage_step [OF a step_okD [OF s0]])
  from t step_ok_report [OF step_okD [OF s1]] have "step_ok s1 t"
    using step_ok_refl [OF step_okD [OF s1]] by auto
  with s0 s1 show ?thesis using step_ok_trans by blast
qed

lemma apply_settings_ok: "session_ok s \<Longrightarrow> step_ok s (apply_settings event ts pending v s)"
proof -
  assume ok: "session_ok s"
  have plain: "step_ok s (s\<lparr>sn_current_tier := a, sn_current_evidence := b\<rparr>)" for a b
    by (rule step_ok_plain [OF ok]) (simp_all add: report_fields_def)
  have plain2: "step_ok s (s\<lparr>sn_current_tier := a, sn_current_evidence := b, sn_tier_contexts := c, sn_tier_evidence := d\<rparr>)" for a b c d
    by (rule step_ok_plain [OF ok]) (simp_all add: report_fields_def)
  show ?thesis
    unfolding apply_settings_def Let_def
    using plain step_ok_trans [OF plain2 step_ok_resolve [OF step_okD [OF plain2]]]
    by (auto split: option.split)
qed

lemma consume_task_ok: "session_ok s \<Longrightarrow> step_ok s (consume_task ty p ts s)"
  by (rule step_ok_plain) (simp_all add: consume_task_def Let_def report_fields_def)

lemma consume_token_count_ok:
  assumes "consume_token_count shw event p ts s = Inr t" "session_ok s"
  shows "step_ok s t"
proof -
  have s0: "step_ok s (s\<lparr>sn_total_key := k\<rparr>)" for k
    by (rule step_ok_plain [OF assms(2)]) (simp_all add: report_fields_def)
  from assms(1) obtain info total where r: "(if sort_key fst total \<noteq> [] \<and> sort_key fst total \<noteq> sn_total_key s then
           bindE (add_usage ts (PStr (''legacy:'' @ event_part shw event s)) (dget info ''last_token_usage'')
               (sn_configured_model s) (sn_current_turn s) (sn_current_effort s)
               (lookup_or (sn_tier_contexts s) (sn_current_turn s) unknown) ''settings'' blank None
               (s\<lparr>sn_total_key := sort_key fst total\<rparr>))
             (\<lambda>s1. if ts \<ge> sn_reported_ts s1
               then bindE (usage_values total) (\<lambda>u. Inr (s1\<lparr>sn_reported := Some u, sn_reported_ts := ts\<rparr>)) else Inr s1)
         else Inr s) = Inr t"
    unfolding consume_token_count_def Let_def bindE_Inr_conv [of "or_empty _"] by blast
  have "t = s \<or> (\<exists>s1 key k uv m turn e tier so c me.
      add_usage ts k uv m turn e tier so c me (s\<lparr>sn_total_key := key\<rparr>) = Inr s1 \<and>
      (t = s1 \<or> (\<exists>u. sn_reported_ts s1 \<le> ts \<and> t = s1\<lparr>sn_reported := Some u, sn_reported_ts := ts\<rparr>)))"
  proof (cases "sort_key fst total \<noteq> [] \<and> sort_key fst total \<noteq> sn_total_key s")
    case True
    from r [unfolded if_P [OF True] bindE_Inr_conv [of "add_usage _ _ _ _ _ _ _ _ _ _ _"]] obtain s1
      where a: "add_usage ts (PStr (''legacy:'' @ event_part shw event s)) (dget info ''last_token_usage'')
               (sn_configured_model s) (sn_current_turn s) (sn_current_effort s)
               (lookup_or (sn_tier_contexts s) (sn_current_turn s) unknown) ''settings'' blank None
               (s\<lparr>sn_total_key := sort_key fst total\<rparr>) = Inr s1"
        and b: "(if ts \<ge> sn_reported_ts s1
               then bindE (usage_values total) (\<lambda>u. Inr (s1\<lparr>sn_reported := Some u, sn_reported_ts := ts\<rparr>)) else Inr s1) = Inr t"
      by blast
    from b have "t = s1 \<or> (\<exists>u. sn_reported_ts s1 \<le> ts \<and> t = s1\<lparr>sn_reported := Some u, sn_reported_ts := ts\<rparr>)"
      by (auto simp: bindE_Inr_conv split: if_splits)
    with a show ?thesis by blast
  qed (use r in auto)
  then show ?thesis
  proof (elim disjE exE conjE)
    assume "t = s"
    with assms(2) show ?thesis by (simp add: step_ok_refl)
  next
    fix s1 key k uv m turn e tier so c me
    assume a: "add_usage ts k uv m turn e tier so c me (s\<lparr>sn_total_key := key\<rparr>) = Inr s1" and t: "t = s1"
    have "step_ok (s\<lparr>sn_total_key := key\<rparr>) s1"
      by (rule add_usage_step [OF a step_okD [OF s0]])
    with s0 [of key] show ?thesis unfolding t using step_ok_trans by blast
  next
    fix s1 key k uv m turn e tier so c me u
    assume a: "add_usage ts k uv m turn e tier so c me (s\<lparr>sn_total_key := key\<rparr>) = Inr s1"
      and t: "sn_reported_ts s1 \<le> ts" "t = s1\<lparr>sn_reported := Some u, sn_reported_ts := ts\<rparr>"
    have s1: "step_ok (s\<lparr>sn_total_key := key\<rparr>) s1"
      by (rule add_usage_step [OF a step_okD [OF s0]])
    have "step_ok s1 t" unfolding t(2) by (rule step_ok_report [OF step_okD [OF s1] t(1)])
    with s0 [of key] s1 show ?thesis using step_ok_trans by blast
  qed
qed

lemma consume_event_msg_ok:
  assumes "consume_event_msg shw event p ts pending s = Inr t" "session_ok s"
  shows "step_ok s t"
proof -
  obtain s1 s2 where s1: "s1 = s \<or> (\<exists>v. s1 = apply_settings event ts pending v s)"
    and s2: "s2 = s1 \<or> (\<exists>ty. s2 = consume_task ty p ts s1)"
    and t: "t = s2 \<or> consume_token_count shw event p ts s2 = Inr t"
    using assms(1) unfolding consume_event_msg_def Let_def bindE_Inr_conv
    by (auto simp: bindE_Inr_conv split: if_splits option.splits)
  have o1: "step_ok s s1" using s1 apply_settings_ok [OF assms(2)] step_ok_refl [OF assms(2)] by auto
  have o2: "step_ok s1 s2" using s2 consume_task_ok [OF step_okD [OF o1]] step_ok_refl [OF step_okD [OF o1]] by auto
  have o3: "step_ok s2 t" using t consume_token_count_ok [OF _ step_okD [OF o2]] step_ok_refl [OF step_okD [OF o2]] by auto
  show ?thesis using o1 o2 o3 step_ok_trans by blast
qed

lemma session_ok_coverage [simp]:
  "session_ok (s\<lparr>sn_coverage_initial := i\<rparr>) = session_ok s" "session_ok (s\<lparr>sn_coverage_gaps := g\<rparr>) = session_ok s"
  "session_ok (s\<lparr>sn_coverage_last := l\<rparr>) = session_ok s"
  by (simp_all add: session_ok_def)

lemma note_coverage_facts:
  assumes "session_ok s" "coverage_ok s"
  shows "session_ok (note_coverage prev s) \<and> coverage_ok (note_coverage prev s) \<and> grows s (note_coverage prev s)"
proof (cases "(sn_reported_ts s, reported_total s) \<noteq> prev \<and> reported_total s \<noteq> None")
  case True
  then obtain n where n: "reported_total s = Some n" by auto
  let ?r = "n - sn_coverage_total s"
  show ?thesis
  proof (cases "sn_coverage_last s")
    case None
    with True n have "note_coverage prev s = s\<lparr>sn_coverage_initial := max 0 ?r, sn_coverage_last := Some (sn_reported_ts s, ?r)\<rparr>"
      by (simp add: note_coverage_def Let_def)
    with assms show ?thesis by (simp add: coverage_ok_def grows_def)
  next
    case (Some tl)
    obtain t l where tl: "tl = (t, l)" by fastforce
    have le: "t \<le> sn_reported_ts s" using assms(2) Some tl by (simp add: coverage_ok_def)
    show ?thesis
    proof (cases "?r > l")
      case gap: True
      with True n Some tl have "note_coverage prev s = s\<lparr>sn_coverage_gaps := sn_coverage_gaps s @
          [\<lparr>cg_start = t, cg_end = sn_reported_ts s, cg_tokens = ?r - l\<rparr>], sn_coverage_last := Some (sn_reported_ts s, ?r)\<rparr>"
        by (simp add: note_coverage_def Let_def)
      with assms le gap show ?thesis by (auto simp: coverage_ok_def grows_def)
    next
      case False
      with True n Some tl have "note_coverage prev s = s\<lparr>sn_coverage_last := Some (sn_reported_ts s, ?r)\<rparr>"
        by (simp add: note_coverage_def Let_def)
      with assms show ?thesis by (simp add: coverage_ok_def grows_def)
    qed
  qed
next
  case False
  then have "note_coverage prev s = s" by (auto simp: note_coverage_def split: option.split)
  with assms show ?thesis by simp
qed

lemma step_coverage: "step_ok s t \<Longrightarrow> coverage_ok s \<Longrightarrow> coverage_ok t"
  by (force simp: step_ok_def coverage_ok_def report_fields_def)

lemma finish_event_facts:
  assumes "session_ok s" "coverage_ok s"
  shows "session_ok (finish_event pending prev s) \<and> coverage_ok (finish_event pending prev s) \<and>
    grows s (finish_event pending prev s)"
proof -
  let ?t = "case pending of None \<Rightarrow> s | Some (turn, _, _) \<Rightarrow> resolve_context turn True s"
  have "step_ok s ?t" using assms(1) by (auto simp: step_ok_refl step_ok_resolve split: option.split)
  then have t: "session_ok ?t" "coverage_ok ?t" "grows s ?t"
    using assms step_coverage step_okD by (blast, blast, simp add: step_ok_def)
  show ?thesis unfolding finish_event_def using note_coverage_facts [OF t(1,2)] grows_trans [OF t(3)] by blast
qed

text \<open>The invariant of a session, kept by every event that returns.\<close>

lemma consume_payload_ok:
  assumes c: "consume_payload shw event p ts s0 = Inr t" and ok: "session_ok s0" "coverage_ok s0"
  shows "session_ok t \<and> coverage_ok t \<and> grows s0 t"
proof -
  obtain s where s_def: "s = s0\<lparr>sn_pending_tier := None\<rparr>" by simp
  have s: "session_ok s" "coverage_ok s" using ok by (auto simp: session_ok_def coverage_ok_def s_def)
  have g: "grows s0 t" if "grows s t" for t using that by (simp add: grows_def s_def)
  let ?kind = "dget event ''type''" and ?pending = "sn_pending_tier s0"
  show ?thesis
  proof (cases "?kind = PStr ''compacted'' \<or> ?kind = PStr ''event_msg'' \<and> dget p ''type'' = PStr ''context_compacted''")
    case True
    have "t = s\<lparr>sn_epoch := sn_epoch s + 1\<rparr>"
      using c unfolding consume_payload_def Let_def if_P [OF True] s_def by simp
    with s g show ?thesis by (auto simp: session_ok_def coverage_ok_def grows_def)
  next
    case not_compacted: False
    show ?thesis
    proof (cases "?kind = PStr ''token_usage_record'' \<and> dget_or p ''thread_id'' (PStr (sn_id s)) \<noteq> PStr (sn_id s)")
      case True
      have "t = s"
        using c unfolding consume_payload_def Let_def if_not_P [OF not_compacted] s_def [symmetric] if_P [OF True] by simp
      with s g show ?thesis by simp
    next
      case False
      obtain s1 where s1: "(if ?kind = PStr ''session_meta'' then
             Inr (case session_lineage (PDict p) (sn_id s) of None \<Rightarrow> s
                | Some l \<Rightarrow> s\<lparr>sn_lineage := set_lineage l (sn_lineage s)\<rparr>)
           else if ?kind = PStr ''turn_context'' then consume_turn_context event p ts s
           else if ?kind = PStr ''token_usage_record'' then consume_usage_record shw event p ts s
           else if ?kind = PStr ''event_msg'' then consume_event_msg shw event p ts ?pending s
           else Inr s) = Inr s1"
        and t: "t = finish_event ?pending (sn_reported_ts s0, reported_total s0) s1"
        using c unfolding consume_payload_def Let_def if_not_P [OF not_compacted] s_def [symmetric] if_not_P [OF False]
          bindE_Inr_conv by blast
      have li: "step_ok s (s\<lparr>sn_lineage := l\<rparr>)" for l
        by (rule step_ok_plain [OF s(1)]) (simp_all add: report_fields_def)
      consider "s1 = s \<or> (\<exists>l. s1 = s\<lparr>sn_lineage := l\<rparr>)" | "consume_turn_context event p ts s = Inr s1"
        | "consume_usage_record shw event p ts s = Inr s1" | "consume_event_msg shw event p ts ?pending s = Inr s1"
        using s1 by (auto split: if_split_asm option.split_asm)
      then have "step_ok s s1"
      proof cases
        case 1
        then show ?thesis using li step_ok_refl [OF s(1)] by auto
      qed (use s(1) consume_turn_context_ok consume_usage_record_ok consume_event_msg_ok in blast)+
      then have s1: "session_ok s1" "coverage_ok s1" "grows s s1"
        using s(2) step_coverage step_okD by (blast, blast, simp add: step_ok_def)
      show ?thesis unfolding t using finish_event_facts [OF s1(1,2)] g grows_trans [OF s1(3)] by blast
    qed
  qed
qed

lemma consume_ok:
  assumes c: "consume stp shw event s = Inr t" and ok: "session_ok s" "coverage_ok s"
  shows "session_ok t \<and> coverage_ok t \<and> grows s t"
proof (cases "if truthy (dget event ''payload'') then dget event ''payload'' else PDict []")
  case (PDict p)
  then have "consume_payload shw event p (stp (dget event ''timestamp'')) s = Inr t"
    using c by (simp add: consume_def)
  from consume_payload_ok [OF this ok] show ?thesis .
qed (use c ok in \<open>simp_all add: consume_def\<close>)

fun consume_all :: "(pyval \<Rightarrow> rat) \<Rightarrow> (pyval \<Rightarrow> string) \<Rightarrow> pydict list \<Rightarrow> session \<Rightarrow> pyerror + session" where
  "consume_all stp shw [] s = Inr s"
| "consume_all stp shw (e # es) s = bindE (consume stp shw e s) (consume_all stp shw es)"

lemma consume_all_ok:
  assumes "consume_all stp shw es s = Inr t" "session_ok s" "coverage_ok s"
  shows "session_ok t \<and> coverage_ok t \<and> grows s t"
  using assms
proof (induction es arbitrary: s)
  case (Cons e es)
  then obtain u where u: "consume stp shw e s = Inr u" "consume_all stp shw es u = Inr t"
    by (auto simp: bindE_Inr_conv)
  from consume_ok [OF u(1) Cons.prems(2,3)] Cons.IH [OF u(2)] show ?case using grows_trans by blast
qed simp

text \<open>A usage record of another thread, and one already counted.\<close>

lemma consume_foreign:
  assumes "dget event ''type'' = PStr ''token_usage_record''" "dget event ''payload'' = PDict p"
    "dget p ''thread_id'' = PStr other" "other \<noteq> sn_id s"
  shows "consume stp shw event s = Inr (s\<lparr>sn_pending_tier := None\<rparr>)"
proof -
  have "p \<noteq> []" using assms(3) by (auto simp: dget_def dget_or_def)
  moreover have "dget_or p ''thread_id'' (PStr (sn_id s)) = PStr other"
    using assms(3) by (auto simp: dget_def dget_or_def split: option.splits)
  ultimately show ?thesis using assms by (simp add: consume_def consume_payload_def Let_def)
qed

section \<open>Examples\<close>

text \<open>\<open>Session(id, home)\<close>: the defaults of the dataclass.\<close>

definition new_session :: "string \<Rightarrow> session" where
  "new_session sid = \<lparr>sn_id = sid, sn_model = blank, sn_configured_model = blank, sn_modern = False, sn_total_key = [],
     sn_requests = [], sn_keys = [], sn_transports = [], sn_running = False, sn_state_ts = 0, sn_activity = 0,
     sn_contexts = [], sn_unresolved = [], sn_revision = 0, sn_current_turn = blank, sn_request_state = None,
     sn_turn_records = [], sn_current_effort = unknown, sn_current_tier = unknown, sn_tier_contexts = [],
     sn_tier_evidence = [], sn_current_evidence = None, sn_pending_tier = None, sn_reported = None, sn_reported_ts = 0,
     sn_coverage_total = 0, sn_coverage_last = None, sn_coverage_gaps = [], sn_coverage_initial = 0,
     sn_lineage = \<lparr>l_parent = [], l_agent_path = None, l_nickname = None, l_depth = None\<rparr>, sn_epoch = 0\<rparr>"

lemma new_session_ok: "session_ok (new_session sid)" "coverage_ok (new_session sid)"
  by (simp_all add: new_session_def session_ok_def coverage_ok_def unresolved_ok_def)

section \<open>Further properties\<close>

text \<open>
  A usage record of another thread in a forked rollout changes nothing of a session but the pairing window of
  a pending mode.
\<close>

theorem forked_history_ignored:
  assumes "dget event ''type'' = PStr ''token_usage_record''" "dget event ''payload'' = PDict p"
    "dget p ''thread_id'' = PStr other" "other \<noteq> sn_id s"
  shows "consume stp shw event s = Inr (s\<lparr>sn_pending_tier := None\<rparr>)"
  using assms by (rule consume_foreign)

theorem forked_history_ignored_witness:
  "consume (\<lambda>_. 0) (\<lambda>_. []) [(''type'', PStr ''token_usage_record''), (''payload'', PDict [(''thread_id'', PStr ''b''), (''usage'', PDict [])])]
     (new_session ''a'') = Inr ((new_session ''a'')\<lparr>sn_pending_tier := None\<rparr>)"
  by (rule forked_history_ignored [where other = "''b''" and p = "[(''thread_id'', PStr ''b''), (''usage'', PDict [])]"]) (simp_all add: dget_def dget_or_def new_session_def)

section \<open>Claims\<close>



end
