(* ===== verification/Speed.thy ===== *)
theory Speed
  imports Pricing "HOL-Library.Product_Lexorder" "HOL-Library.List_Lexorder" "HOL-Library.Char_ord"
begin

text \<open>
  Slow-response alerts: \<open>cachemonitor/speed_health.py\<close> with the speed measures of
  \<open>cachemonitor/analytics.py\<close>. The full classifier runs over the merged timeline of all sessions;
  the incremental one keeps one replay per pool of comparable calls. Speeds are exact rationals.
\<close>

section \<open>Speed of a call\<close>

record speed_row =
  sr_call :: call
  sr_latency :: pyval
  sr_status :: "string option"
  sr_timing_valid :: bool
  sr_transport :: "string option"
  sr_transport_source :: "string option"
  sr_requested_model :: "string option"
  sr_analysis_model :: "string option"

definition finite_value :: "pyval \<Rightarrow> rat option" where
  "finite_value v = (case finite_number v of Some q \<Rightarrow> if q \<ge> 0 then Some q else None | None \<Rightarrow> None)"

definition output_speed :: "speed_row \<Rightarrow> rat option" where
  "output_speed r =
    (let output = token_number (c_output (sr_call r)); reasoning = token_number (c_reasoning (sr_call r)) in
     if sr_status r \<noteq> Some ''completed'' \<or> \<not> sr_timing_valid r \<or> c_observation_missing (sr_call r) \<or>
        c_model_conflict (sr_call r) \<or> c_output_conflict (sr_call r) \<or> sr_transport_source r = Some ''conflict''
     then None
     else (case (output, finite_value (sr_latency r)) of
         (Some n, Some elapsed) \<Rightarrow>
           if elapsed \<le> 0 \<or> (case reasoning of None \<Rightarrow> False | Some q \<Rightarrow> q > n) then None
           else Some (of_int n / (elapsed / 1000))
       | _ \<Rightarrow> None))"

definition seconds_of :: "speed_row \<Rightarrow> rat" where
  "seconds_of r = (case finite_value (sr_latency r) of None \<Rightarrow> 0 | Some q \<Rightarrow> q / 1000)"

text \<open>The value of \<open>output_speed_summary\<close>.\<close>

definition summary_speed :: "speed_row list \<Rightarrow> rat option" where
  "summary_speed rows =
    (let valid = filter (\<lambda>r. output_speed r \<noteq> None) rows;
         output = sum_list (map (\<lambda>r. num_or0 (c_output (sr_call r))) valid);
         seconds = sum_list (map seconds_of valid)
     in if seconds \<noteq> 0 then Some (of_int output / seconds) else None)"

section \<open>Conditions\<close>

definition MIN_BASELINE :: nat where "MIN_BASELINE = 8"
definition MAX_BASELINE :: nat where "MAX_BASELINE = 30"
definition MAX_AGE :: rat where "MAX_AGE = 7 * 86400"
definition SLOW_CALLS :: nat where "SLOW_CALLS = 3"
definition RECOVERY_CALLS :: nat where "RECOVERY_CALLS = 2"

type_synonym condition = "string \<times> string \<times> string \<times> string \<times> nat \<times> nat \<times> bool"

definition INPUT_LIMITS :: "int list" where
  "INPUT_LIMITS = [10000, 50000, 100000, 200000, 272001]"

definition input_band :: "int \<Rightarrow> nat" where
  "input_band n = length (takeWhile (\<lambda>hi. hi \<le> n) INPUT_LIMITS)"

definition output_band :: "int \<Rightarrow> nat" where
  "output_band n = (if n < 512 then 0 else if n < 2048 then 1 else if n < 8192 then 2 else 3)"

definition unavailable :: string where \<comment> \<open>cannot be checked\<close>
  "unavailable = [CHR 0xED, CHR 0x99, CHR 0x95, CHR 0xEC, CHR 0x9D, CHR 0xB8, CHR 0x20, CHR 0xEB, CHR 0xB6, CHR 0x88,
     CHR 0xEA, CHR 0xB0, CHR 0x80]"

definition known_text :: "string option \<Rightarrow> bool" where
  "known_text v = (v \<notin> {None, Some [], Some mihwagin, Some unavailable})"

definition compared_model :: "speed_row \<Rightarrow> string option" where
  "compared_model r =
    (if sr_requested_model r \<notin> {None, Some []} then sr_requested_model r
     else if sr_analysis_model r \<notin> {None, Some []} then sr_analysis_model r else c_model (sr_call r))"

definition call_scope :: "speed_row \<Rightarrow> condition option" where
  "call_scope r =
    (let c = sr_call r; tier = request_tier c in
     case (output_speed r, token_number (c_input c), token_number (c_output c), token_number (c_cached c)) of
       (Some speed, Some inp, Some outp, Some cached) \<Rightarrow>
         if inp = 0 \<or> outp < 128 \<or> cached > inp \<or> sr_transport_source r \<noteq> Some ''response_id'' \<or>
            c_input_conflict c \<or> c_mode_conflict c \<or> c_cache_policy_conflict c \<or>
            \<not> known_text (compared_model r) \<or> \<not> known_text (c_effort c) \<or> \<not> known_text (Some tier) \<or>
            \<not> known_text (sr_transport r)
         then None
         else Some (the (compared_model r), the (c_effort c), tier, the (sr_transport r), input_band inp, output_band outp,
             of_int cached / of_int inp \<ge> (3 / 4 :: rat))
     | _ \<Rightarrow> None)"

section \<open>Baselines\<close>

text \<open>Only calls with a condition are compared, so their speed exists.\<close>

definition speed_of :: "speed_row \<Rightarrow> rat" where
  "speed_of r = (case output_speed r of Some v \<Rightarrow> v | None \<Rightarrow> 0)"

definition median :: "rat list \<Rightarrow> rat" where
  "median xs = (let ys = sort xs; n = length ys in
     if n mod 2 = 1 then ys ! (n div 2) else (ys ! (n div 2 - 1) + ys ! (n div 2)) / 2)"

datatype baseline_source = From_session | From_peers

record baseline =
  bl_speed :: rat
  bl_threshold :: rat
  bl_count :: nat
  bl_keys :: "string list"
  bl_source :: baseline_source

definition baseline_of :: "baseline_source \<Rightarrow> speed_row list \<Rightarrow> baseline" where
  "baseline_of source rows =
    (let values = map speed_of rows; center = median values; deviation = median (map (\<lambda>v. \<bar>v - center\<bar>) values);
         average = (case summary_speed rows of Some v \<Rightarrow> v | None \<Rightarrow> 0)
     in \<lparr>bl_speed = average, bl_threshold = min (average / 2) (center - 3 * (14826 / 10000) * deviation),
         bl_count = length rows, bl_keys = map (c_key \<circ> sr_call) rows, bl_source = source\<rparr>)"

type_synonym pool = "(string \<times> speed_row) list"

definition row_at :: "speed_row \<Rightarrow> rat" where "row_at r = c_ts (sr_call r)"

definition last_n :: "nat \<Rightarrow> 'a list \<Rightarrow> 'a list" where
  "last_n n xs = drop (length xs - n) xs"

definition find_baseline :: "string \<Rightarrow> rat \<Rightarrow> pool \<Rightarrow> baseline option" where
  "find_baseline sid ts pl =
    (let own = last_n MAX_BASELINE (map snd (filter (\<lambda>(owner, r). owner = sid \<and> row_at r < ts) pl));
         peers = last_n MAX_BASELINE (map snd (filter (\<lambda>(owner, r). owner \<noteq> sid \<and> row_at r < ts) pl))
     in if length own \<ge> MIN_BASELINE then Some (baseline_of From_session own)
        else if length peers \<ge> MIN_BASELINE then Some (baseline_of From_peers peers) else None)"

text \<open>\<open>deque(maxlen=MAX_BASELINE*4).append\<close>.\<close>

definition pool_append :: "pool \<Rightarrow> string \<times> speed_row \<Rightarrow> pool" where
  "pool_append pl e = last_n (MAX_BASELINE * 4) (pl @ [e])"

section \<open>One call of one pool\<close>

record speed_state =
  ss_baseline :: "baseline option"
  ss_recent :: "speed_row list"
  ss_active :: bool
  ss_recovery :: "speed_row list"
  ss_incident :: string

definition fresh_state :: speed_state where
  "fresh_state = \<lparr>ss_baseline = None, ss_recent = [], ss_active = False, ss_recovery = [], ss_incident = []\<rparr>"

record slow_report =
  sl_baseline :: baseline
  sl_recent_speed :: rat
  sl_recent_keys :: "string list"
  sl_drop_percent :: rat
  sl_incident :: string
  sl_call :: string

datatype speed_result = Normal | Slow slow_report

definition slow_result :: "baseline \<Rightarrow> speed_state \<Rightarrow> speed_row \<Rightarrow> speed_result" where
  "slow_result base st row =
    (let average = (case summary_speed (ss_recent st) of Some v \<Rightarrow> v | None \<Rightarrow> 0)
     in Slow \<lparr>sl_baseline = base, sl_recent_speed = average, sl_recent_keys = map (c_key \<circ> sr_call) (ss_recent st),
          sl_drop_percent = max 0 ((1 - average / bl_speed base) * 100), sl_incident = ss_incident st,
          sl_call = c_key (sr_call row)\<rparr>)"

definition expire :: "rat \<Rightarrow> pool \<Rightarrow> pool" where
  "expire ts pl = dropWhile (\<lambda>(owner, r). ts - row_at r > MAX_AGE) pl"

definition is_slow :: "baseline option \<Rightarrow> speed_row \<Rightarrow> bool" where
  "is_slow base row = (case base of None \<Rightarrow> False
     | Some b \<Rightarrow> 0 \<le> speed_of row \<and> speed_of row \<le> bl_threshold b \<and> bl_threshold b > 0)"

text \<open>A call while an alert is open: two recovered calls in a row close it and seed the next baseline.\<close>

definition judge_active :: "baseline \<Rightarrow> string \<Rightarrow> speed_row \<Rightarrow> pool \<Rightarrow> speed_state \<Rightarrow> pool \<times> speed_state \<times> speed_result" where
  "judge_active base sid row pl st =
    (let recovered = speed_of row \<ge> bl_speed base * (8 / 10);
         st1 = st\<lparr>ss_recovery := (if recovered then ss_recovery st @ [row] else []),
                   ss_recent := last_n SLOW_CALLS (ss_recent st @ [row])\<rparr>
     in if length (ss_recovery st1) \<ge> RECOVERY_CALLS
        then (foldl pool_append pl (map (Pair sid) (ss_recovery st1)), fresh_state, Normal)
        else (pl, st1, slow_result base st1 row))"

definition judge_slow :: "baseline \<Rightarrow> speed_row \<Rightarrow> pool \<Rightarrow> speed_state \<Rightarrow> pool \<times> speed_state \<times> speed_result" where
  "judge_slow base row pl st =
    (let st1 = st\<lparr>ss_baseline := Some base, ss_recent := ss_recent st @ [row]\<rparr>
     in if length (ss_recent st1) \<ge> SLOW_CALLS
        then (let st2 = st1\<lparr>ss_active := True, ss_incident := c_key (sr_call (hd (ss_recent st1)))\<rparr>
              in (pl, st2, slow_result base st2 row))
        else (pl, st1, Normal))"

definition judge :: "string \<Rightarrow> speed_row \<Rightarrow> pool \<Rightarrow> speed_state \<Rightarrow> pool \<times> speed_state \<times> speed_result" where
  "judge sid row pl0 st =
    (let ts = row_at row; pl = expire ts pl0;
         base = (case ss_baseline st of Some b \<Rightarrow> Some b | None \<Rightarrow> find_baseline sid ts pl)
     in case (ss_active st, base) of
          (True, Some b) \<Rightarrow> judge_active b sid row pl st
        | (False, Some b) \<Rightarrow> if is_slow base row then judge_slow b row pl st
            else (pool_append pl (sid, row), st\<lparr>ss_baseline := None, ss_recent := []\<rparr>, Normal)
        | (_, None) \<Rightarrow> (pool_append pl (sid, row), st\<lparr>ss_baseline := None, ss_recent := []\<rparr>, Normal))"

section \<open>The full classifier\<close>

type_synonym owner = "string \<times> string"  \<comment> \<open>home and session\<close>
type_synonym event = "owner \<times> speed_row"

datatype call_identity = In_session string string string | In_home string string

definition starts_with :: "string \<Rightarrow> string \<Rightarrow> bool" where
  "starts_with pre s = (take (length pre) s = pre)"

definition identity_of :: "event \<Rightarrow> call_identity" where
  "identity_of e = (case e of ((home, sid), r) \<Rightarrow>
     (let k = c_key (sr_call r) in
      if starts_with ''record:'' k \<or> starts_with ''legacy:'' k then In_session home sid k else In_home home k))"

record classifier =
  cl_seen :: "call_identity list"
  cl_pools :: "string \<times> condition \<Rightarrow> pool"
  cl_scope :: "owner \<Rightarrow> condition option"
  cl_last :: "owner \<Rightarrow> rat option"
  cl_state :: "owner \<Rightarrow> speed_state"
  cl_result :: "owner \<Rightarrow> speed_result"

definition new_classifier :: classifier where
  "new_classifier = \<lparr>cl_seen = [], cl_pools = (\<lambda>_. []), cl_scope = (\<lambda>_. None), cl_last = (\<lambda>_. None),
     cl_state = (\<lambda>_. fresh_state), cl_result = (\<lambda>_. Normal)\<rparr>"

definition leaves_scope :: "condition option \<Rightarrow> rat \<Rightarrow> condition option \<Rightarrow> rat option \<Rightarrow> bool" where
  "leaves_scope condition ts old_scope old_ts =
    (condition \<noteq> old_scope \<or> (case old_ts of None \<Rightarrow> False | Some t \<Rightarrow> ts - t > MAX_AGE))"

definition classify_event :: "classifier \<Rightarrow> event \<Rightarrow> classifier" where
  "classify_event cl e =
    (let owner = fst e; row = snd e; ts = row_at row; condition = call_scope row in
     if identity_of e \<in> set (cl_seen cl) then cl
     else
      (let cl1 = cl\<lparr>cl_seen := identity_of e # cl_seen cl\<rparr>;
           st = (if leaves_scope condition ts (cl_scope cl owner) (cl_last cl owner) then fresh_state else cl_state cl owner)
       in case condition of
            None \<Rightarrow> cl1\<lparr>cl_scope := (cl_scope cl)(owner := None), cl_last := (cl_last cl)(owner := None),
                        cl_state := (cl_state cl)(owner := fresh_state), cl_result := (cl_result cl)(owner := Normal)\<rparr>
          | Some c \<Rightarrow> (case judge (snd owner) row (cl_pools cl (fst owner, c)) st of (pl, st', res) \<Rightarrow>
              cl1\<lparr>cl_scope := (cl_scope cl)(owner := Some c), cl_last := (cl_last cl)(owner := Some ts),
                  cl_pools := (cl_pools cl)((fst owner, c) := pl),
                  cl_state := (cl_state cl)(owner := st'), cl_result := (cl_result cl)(owner := res)\<rparr>)))"

definition timeline_of :: "(owner \<times> speed_row list) list \<Rightarrow> event list" where
  "timeline_of sessions =
    sort_key (\<lambda>e. (row_at (snd e), fst e)) (concat (map (\<lambda>(owner, rows). map (Pair owner) rows) sessions))"

definition classify :: "(owner \<times> speed_row list) list \<Rightarrow> owner \<Rightarrow> speed_result" where
  "classify sessions = cl_result (foldl classify_event new_classifier (timeline_of sessions))"

section \<open>The incremental classifier\<close>

record scope_replay =
  rp_pool :: pool
  rp_states :: "owner \<Rightarrow> speed_state"
  rp_results :: "owner \<Rightarrow> speed_result"

definition new_replay :: scope_replay where
  "new_replay = \<lparr>rp_pool = [], rp_states = (\<lambda>_. fresh_state), rp_results = (\<lambda>_. Normal)\<rparr>"

definition advance_replay :: "event \<Rightarrow> bool \<Rightarrow> scope_replay \<Rightarrow> scope_replay" where
  "advance_replay e reset rp =
    (let owner = fst e; st = (if reset then fresh_state else rp_states rp owner)
     in case judge (snd owner) (snd e) (rp_pool rp) st of (pl, st', res) \<Rightarrow>
          \<lparr>rp_pool = pl, rp_states = (rp_states rp)(owner := st'), rp_results = (rp_results rp)(owner := res)\<rparr>)"

type_synonym prior = "condition option \<times> rat option"

record health_state =
  he_prior :: "owner \<Rightarrow> prior"  \<comment> \<open>condition and time of the owner's last row: its proof\<close>
  he_replays :: "string \<times> condition \<Rightarrow> scope_replay"

definition new_health :: health_state where
  "new_health = \<lparr>he_prior = (\<lambda>_. (None, None)), he_replays = (\<lambda>_. new_replay)\<rparr>"

definition step_reset :: "condition option \<Rightarrow> rat \<Rightarrow> prior \<Rightarrow> bool" where
  "step_reset condition ts p = (case p of (old_scope, old_ts) \<Rightarrow>
     condition \<noteq> old_scope \<or> (case old_ts of None \<Rightarrow> True | Some t \<Rightarrow> ts - t > MAX_AGE))"

definition health_event :: "health_state \<Rightarrow> event \<Rightarrow> health_state" where
  "health_event h e =
    (let owner = fst e; row = snd e; condition = call_scope row; reset = step_reset condition (row_at row) (he_prior h owner);
         h1 = h\<lparr>he_prior := (he_prior h)(owner := (condition, Some (row_at row)))\<rparr>
     in case condition of
          None \<Rightarrow> h1
        | Some c \<Rightarrow> h1\<lparr>he_replays := (he_replays h)((fst owner, c) :=
            advance_replay e reset (he_replays h (fst owner, c)))\<rparr>)"

text \<open>\<open>_finish\<close>: a pool keeps the state of the owners that are in it now.\<close>

definition current_bucket :: "health_state \<Rightarrow> owner \<Rightarrow> (string \<times> condition) option" where
  "current_bucket h owner = (case fst (he_prior h owner) of None \<Rightarrow> None | Some c \<Rightarrow> Some (fst owner, c))"

definition drop_left :: "health_state \<Rightarrow> health_state" where
  "drop_left h = h\<lparr>he_replays := (\<lambda>b. (he_replays h b)
     \<lparr>rp_states := (\<lambda>w. if current_bucket h w = Some b then rp_states (he_replays h b) w else fresh_state),
      rp_results := (\<lambda>w. if current_bucket h w = Some b then rp_results (he_replays h b) w else Normal)\<rparr>)\<rparr>"

definition health_result :: "health_state \<Rightarrow> owner \<Rightarrow> speed_result" where
  "health_result h owner = (case current_bucket h owner of None \<Rightarrow> Normal
     | Some b \<Rightarrow> rp_results (he_replays h b) owner)"

definition collect_events :: "event list \<Rightarrow> health_state \<Rightarrow> health_state" where
  "collect_events es h = drop_left (foldl health_event h es)"

section \<open>Both classifiers agree\<close>

definition owner_agrees :: "classifier \<Rightarrow> health_state \<Rightarrow> owner \<Rightarrow> bool" where
  "owner_agrees cl h w =
    (cl_scope cl w = fst (he_prior h w) \<and>
     (case fst (he_prior h w) of
        None \<Rightarrow> cl_result cl w = Normal
      | Some c \<Rightarrow> cl_last cl w = snd (he_prior h w) \<and> snd (he_prior h w) \<noteq> None \<and>
          cl_state cl w = rp_states (he_replays h (fst w, c)) w \<and>
          cl_result cl w = rp_results (he_replays h (fst w, c)) w))"

definition agrees :: "classifier \<Rightarrow> health_state \<Rightarrow> bool" where
  "agrees cl h = (cl_pools cl = rp_pool \<circ> he_replays h \<and> (\<forall>w. owner_agrees cl h w))"

lemma agrees_new: "agrees new_classifier new_health"
  by (simp add: agrees_def owner_agrees_def new_classifier_def new_health_def new_replay_def comp_def)

lemma owner_agrees_drop_left:
  assumes "owner_agrees cl h w"
  shows "owner_agrees cl (drop_left h) w"
  using assms by (cases "fst (he_prior h w)") (simp_all add: owner_agrees_def drop_left_def current_bucket_def)

lemma agrees_drop_left:
  assumes "agrees cl h"
  shows "agrees cl (drop_left h)"
proof -
  have "rp_pool \<circ> he_replays (drop_left h) = rp_pool \<circ> he_replays h" by (simp add: drop_left_def comp_def)
  then show ?thesis using assms owner_agrees_drop_left by (simp add: agrees_def)
qed

lemma agrees_result:
  assumes "agrees cl h"
  shows "cl_result cl w = health_result h w"
proof -
  have "owner_agrees cl h w" using assms unfolding agrees_def by blast
  then show ?thesis
    by (cases "fst (he_prior h w)") (simp_all add: owner_agrees_def health_result_def current_bucket_def)
qed

text \<open>One call is judged from the same state by both.\<close>

lemma agrees_state:
  assumes "owner_agrees cl h w"
  shows "(if leaves_scope (Some c) ts (cl_scope cl w) (cl_last cl w) then fresh_state else cl_state cl w) =
    (if step_reset (Some c) ts (he_prior h w) then fresh_state else rp_states (he_replays h (fst w, c)) w)"
proof -
  obtain pc pt where p: "he_prior h w = (pc, pt)" by fastforce
  show ?thesis
  proof (cases pc)
    case None
    then show ?thesis using assms p by (simp add: owner_agrees_def leaves_scope_def step_reset_def)
  next
    case (Some c')
    then show ?thesis using assms p
      by (cases "c = c'") (auto simp add: owner_agrees_def leaves_scope_def step_reset_def)
  qed
qed

lemma agrees_event:
  assumes ag: "agrees cl h" and fresh: "identity_of e \<notin> set (cl_seen cl)"
  shows "agrees (classify_event cl e) (health_event h e)"
proof -
  let ?w = "fst e" and ?r = "snd e"
  have w: "owner_agrees cl h v" for v using ag unfolding agrees_def by blast
  have pools: "cl_pools cl b = rp_pool (he_replays h b)" for b using ag by (simp add: agrees_def)
  show ?thesis
  proof (cases "call_scope ?r")
    case None
    then have "owner_agrees (classify_event cl e) (health_event h e) v" for v
      using w [of v] fresh
      by (cases "v = ?w"; cases "fst (he_prior h v)") (simp_all add: classify_event_def health_event_def owner_agrees_def Let_def)
    then show ?thesis using ag fresh None by (simp add: agrees_def classify_event_def health_event_def Let_def)
  next
    case (Some c)
    let ?st = "if step_reset (Some c) (row_at ?r) (he_prior h ?w) then fresh_state else rp_states (he_replays h (fst ?w, c)) ?w"
    obtain pl st' res where j: "judge (snd ?w) ?r (rp_pool (he_replays h (fst ?w, c))) ?st = (pl, st', res)"
      by (metis prod.collapse)
    have adv: "advance_replay e (step_reset (Some c) (row_at ?r) (he_prior h ?w)) (he_replays h (fst ?w, c)) =
        \<lparr>rp_pool = pl, rp_states = (rp_states (he_replays h (fst ?w, c)))(?w := st'),
         rp_results = (rp_results (he_replays h (fst ?w, c)))(?w := res)\<rparr>"
      unfolding advance_replay_def Let_def j by simp
    have cl: "classify_event cl e = cl\<lparr>cl_seen := identity_of e # cl_seen cl, cl_scope := (cl_scope cl)(?w := Some c),
        cl_last := (cl_last cl)(?w := Some (row_at ?r)), cl_pools := (cl_pools cl)((fst ?w, c) := pl),
        cl_state := (cl_state cl)(?w := st'), cl_result := (cl_result cl)(?w := res)\<rparr>"
      unfolding classify_event_def Let_def Some using fresh
      by (simp add: agrees_state [OF w] pools j)
    have he: "health_event h e = h\<lparr>he_prior := (he_prior h)(?w := (Some c, Some (row_at ?r))),
        he_replays := (he_replays h)((fst ?w, c) := \<lparr>rp_pool = pl, rp_states = (rp_states (he_replays h (fst ?w, c)))(?w := st'),
         rp_results = (rp_results (he_replays h (fst ?w, c)))(?w := res)\<rparr>)\<rparr>"
      unfolding health_event_def Let_def Some by (simp add: adv)
    have "owner_agrees (classify_event cl e) (health_event h e) v" for v
      using w [of v] unfolding cl he
      by (cases "v = ?w"; cases "fst (he_prior h v)") (auto simp: owner_agrees_def)
    moreover have "cl_pools (classify_event cl e) = rp_pool \<circ> he_replays (health_event h e)"
      unfolding cl he using pools by (auto simp: fun_eq_iff)
    ultimately show ?thesis by (simp add: agrees_def)
  qed
qed

lemma classify_event_seen:
  "set (cl_seen (classify_event cl e)) = insert (identity_of e) (set (cl_seen cl))"
  by (auto simp: classify_event_def Let_def split: option.split prod.split)

lemma agrees_events:
  assumes "agrees cl h" "distinct (map identity_of es)" "\<forall>e \<in> set es. identity_of e \<notin> set (cl_seen cl)"
  shows "agrees (foldl classify_event cl es) (foldl health_event h es)"
  using assms
proof (induction es arbitrary: cl h)
  case (Cons e es)
  have "agrees (classify_event cl e) (health_event h e)" using Cons.prems by (intro agrees_event) auto
  moreover have "\<forall>x \<in> set es. identity_of x \<notin> set (cl_seen (classify_event cl e))"
    using Cons.prems by (auto simp: classify_event_seen image_iff)
  ultimately show ?case using Cons.IH Cons.prems by simp
qed simp

lemma foldl_seen: "set (cl_seen (foldl classify_event cl es)) = identity_of ` set es \<union> set (cl_seen cl)"
  by (induction es arbitrary: cl) (auto simp: classify_event_seen)

text \<open>Collecting published rows in several rounds is the full classification of all of them.\<close>

lemma agrees_rounds:
  assumes "agrees cl h" "distinct (map identity_of (concat rounds))"
    "\<forall>e \<in> set (concat rounds). identity_of e \<notin> set (cl_seen cl)"
  shows "agrees (foldl classify_event cl (concat rounds)) (foldl (\<lambda>h es. collect_events es h) h rounds)"
  using assms
proof (induction rounds arbitrary: cl h)
  case (Cons es rounds)
  have "agrees (foldl classify_event cl es) (collect_events es h)"
    unfolding collect_events_def using Cons.prems by (intro agrees_drop_left agrees_events) auto
  moreover have "\<forall>e \<in> set (concat rounds). identity_of e \<notin> set (cl_seen (foldl classify_event cl es))"
    using Cons.prems by (auto simp: foldl_seen)
  ultimately show ?case using Cons.IH Cons.prems by simp
qed simp

section \<open>What an alert rests on\<close>

definition base_ok :: "baseline \<Rightarrow> bool" where
  "base_ok b = (MIN_BASELINE \<le> bl_count b \<and> bl_count b \<le> MAX_BASELINE \<and> length (bl_keys b) = bl_count b)"

definition state_ok :: "speed_state \<Rightarrow> bool" where
  "state_ok st =
    ((if ss_active st then ss_baseline st \<noteq> None \<and> length (ss_recent st) = SLOW_CALLS
      else length (ss_recent st) < SLOW_CALLS) \<and>
     (\<forall>b. ss_baseline st = Some b \<longrightarrow> base_ok b \<and> 0 < bl_threshold b))"

definition result_ok :: "speed_result \<Rightarrow> bool" where
  "result_ok r = (case r of Normal \<Rightarrow> True
     | Slow rep \<Rightarrow> base_ok (sl_baseline rep) \<and> 0 < bl_threshold (sl_baseline rep) \<and>
         length (sl_recent_keys rep) = SLOW_CALLS \<and> 0 \<le> sl_drop_percent rep)"

lemma length_last_n: "length (last_n n xs) = min n (length xs)"
  by (simp add: last_n_def)

lemma baseline_of_ok: "length rows \<ge> MIN_BASELINE \<Longrightarrow> length rows \<le> MAX_BASELINE \<Longrightarrow> base_ok (baseline_of src rows)"
  by (simp add: base_ok_def baseline_of_def Let_def)

lemma find_baseline_ok: "find_baseline sid ts pl = Some b \<Longrightarrow> base_ok b"
  by (auto simp: find_baseline_def Let_def length_last_n intro!: baseline_of_ok split: if_splits)

lemma fresh_state_ok [simp]: "state_ok fresh_state"
  by (simp add: state_ok_def fresh_state_def SLOW_CALLS_def)

lemma slow_result_ok:
  "base_ok b \<Longrightarrow> 0 < bl_threshold b \<Longrightarrow> length (ss_recent st) = SLOW_CALLS \<Longrightarrow> result_ok (slow_result b st row)"
  by (simp add: result_ok_def slow_result_def Let_def)

lemma judge_active_ok:
  assumes "state_ok st" "ss_active st" "ss_baseline st = Some b"
  shows "state_ok (fst (snd (judge_active b sid row pl st))) \<and> result_ok (snd (snd (judge_active b sid row pl st)))"
proof -
  have b: "base_ok b" "0 < bl_threshold b" "length (ss_recent st) = SLOW_CALLS" using assms by (auto simp: state_ok_def)
  have n: "length (last_n SLOW_CALLS (ss_recent st @ [row])) = SLOW_CALLS" using b by (simp add: length_last_n)
  let ?rec = "if speed_of row \<ge> bl_speed b * (8 / 10) then ss_recovery st @ [row] else []"
  let ?st = "st\<lparr>ss_recovery := ?rec, ss_recent := last_n SLOW_CALLS (ss_recent st @ [row])\<rparr>"
  have "state_ok ?st" using assms b n by (simp add: state_ok_def)
  moreover have "result_ok (slow_result b ?st row)" using b n by (intro slow_result_ok) simp_all
  moreover have "judge_active b sid row pl st =
      (if length ?rec \<ge> RECOVERY_CALLS then (foldl pool_append pl (map (Pair sid) ?rec), fresh_state, Normal)
       else (pl, ?st, slow_result b ?st row))"
    by (simp add: judge_active_def Let_def)
  moreover have "result_ok Normal" by (simp add: result_ok_def)
  ultimately show ?thesis
    by (cases "length ?rec \<ge> RECOVERY_CALLS") (simp_all only: if_True if_False simp_thms fst_conv snd_conv fresh_state_ok)
qed

lemma judge_slow_ok:
  assumes "state_ok st" "\<not> ss_active st" "base_ok b" "0 < bl_threshold b"
  shows "state_ok (fst (snd (judge_slow b row pl st))) \<and> result_ok (snd (snd (judge_slow b row pl st)))"
proof -
  have n: "length (ss_recent st) < SLOW_CALLS" using assms by (simp add: state_ok_def)
  show ?thesis
  proof (cases "Suc (length (ss_recent st)) = SLOW_CALLS")
    case True
    then show ?thesis using assms slow_result_ok [OF assms(3,4)]
      by (simp add: judge_slow_def Let_def state_ok_def)
  next
    case False
    then have "Suc (length (ss_recent st)) < SLOW_CALLS" using n by simp
    then show ?thesis using assms by (simp add: judge_slow_def Let_def state_ok_def result_ok_def)
  qed
qed

lemma judge_ok:
  assumes "state_ok st" "judge sid row pl st = (pl', st', res)"
  shows "state_ok st' \<and> result_ok res"
proof -
  let ?pl = "expire (row_at row) pl"
  let ?base = "case ss_baseline st of Some b \<Rightarrow> Some b | None \<Rightarrow> find_baseline sid (row_at row) ?pl"
  have idle: "state_ok (st\<lparr>ss_baseline := None, ss_recent := []\<rparr>)" if "\<not> ss_active st"
    using that by (simp add: state_ok_def SLOW_CALLS_def)
  have base: "?base = Some b \<Longrightarrow> base_ok b" for b
    using assms(1) find_baseline_ok by (auto simp: state_ok_def split: option.splits)
  show ?thesis
  proof (cases "ss_active st")
    case True
    then obtain b where b: "ss_baseline st = Some b" using assms(1) by (auto simp: state_ok_def)
    have "judge sid row pl st = judge_active b sid row ?pl st" using True b by (simp add: judge_def Let_def)
    then have "judge_active b sid row ?pl st = (pl', st', res)" using assms(2) by simp
    then show ?thesis using judge_active_ok [OF assms(1) True b, of sid row ?pl] by simp
  next
    case False
    show ?thesis
    proof (cases ?base)
      case None
      then show ?thesis using assms(2) False idle by (auto simp: judge_def Let_def result_ok_def)
    next
      case (Some b)
      show ?thesis
      proof (cases "is_slow ?base row")
        case True
        then have "0 < bl_threshold b" using Some by (simp add: is_slow_def)
        moreover have "judge sid row pl st = judge_slow b row ?pl st"
          using False Some True by (simp add: judge_def Let_def)
        moreover from this have "judge_slow b row ?pl st = (pl', st', res)" using assms(2) by simp
        ultimately show ?thesis using judge_slow_ok [OF assms(1) False base [OF Some], of row ?pl] by simp
      next
        case quick: False
        then have "judge sid row pl st = (pool_append ?pl (sid, row), st\<lparr>ss_baseline := None, ss_recent := []\<rparr>, Normal)"
          using False Some by (simp add: judge_def Let_def)
        then show ?thesis using assms(2) idle [OF False] by (simp add: result_ok_def)
      qed
    qed
  qed
qed

lemma classify_event_ok:
  assumes "\<forall>w. state_ok (cl_state cl w) \<and> result_ok (cl_result cl w)"
  shows "\<forall>w. state_ok (cl_state (classify_event cl e) w) \<and> result_ok (cl_result (classify_event cl e) w)"
proof -
  let ?st = "\<lambda>c ts. if leaves_scope c ts (cl_scope cl (fst e)) (cl_last cl (fst e)) then fresh_state else cl_state cl (fst e)"
  have "state_ok (cl_state cl w)" for w using assms by blast
  then have st: "state_ok (?st c ts)" for c ts by simp
  show ?thesis
  proof (cases "call_scope (snd e)")
    case None
    then show ?thesis using assms by (simp add: classify_event_def Let_def result_ok_def)
  next
    case (Some c)
    obtain pl st' res where j: "judge (snd (fst e)) (snd e) (cl_pools cl (fst (fst e), c)) (?st (Some c) (row_at (snd e))) = (pl, st', res)"
      by (metis prod.collapse)
    then have "state_ok st' \<and> result_ok res" using judge_ok st by blast
    then show ?thesis using assms Some j by (simp add: classify_event_def Let_def)
  qed
qed

lemma classify_ok: "result_ok (classify sessions w)"
proof -
  have "\<forall>w. state_ok (cl_state (foldl classify_event cl es) w) \<and> result_ok (cl_result (foldl classify_event cl es) w)"
    if "\<forall>w. state_ok (cl_state cl w) \<and> result_ok (cl_result cl w)" for cl es
    using that by (induction es arbitrary: cl) (simp_all add: classify_event_ok)
  moreover have "\<forall>w. state_ok (cl_state new_classifier w) \<and> result_ok (cl_result new_classifier w)"
    by (simp add: new_classifier_def result_ok_def)
  ultimately show ?thesis unfolding classify_def by blast
qed

section \<open>Examples\<close>

text \<open>A completed call of the given latency, for concrete instances.\<close>

definition sample_speed :: "int \<Rightarrow> nat \<Rightarrow> speed_row" where
  "sample_speed latency k = \<lparr>sr_call = (sample_call ''gpt-6-sol'' 1000 200 300)\<lparr>c_key := digits k, c_ts := of_nat k\<rparr>,
     sr_latency = PInt latency, sr_status = Some ''completed'', sr_timing_valid = True, sr_transport = Some ''HTTP/SSE'',
     sr_transport_source = Some ''response_id'', sr_requested_model = None, sr_analysis_model = None\<rparr>"

section \<open>Claims\<close>



text \<open>
  C17: A slow-response alert always rests on evidence: a baseline of 8 to 30 calls with a positive threshold,
  three recent calls, and a drop that is not negative.
\<close>

theorem slow_alert_evidence:
  assumes "classify sessions w = Slow rep"
  shows "8 \<le> bl_count (sl_baseline rep) \<and> bl_count (sl_baseline rep) \<le> 30 \<and> 0 < bl_threshold (sl_baseline rep) \<and>
    length (sl_recent_keys rep) = 3 \<and> 0 \<le> sl_drop_percent rep"
  using classify_ok [of sessions w] assms
  by (simp add: result_ok_def base_ok_def MIN_BASELINE_def MAX_BASELINE_def SLOW_CALLS_def)

theorem slow_alert_evidence_witness:
  "\<exists>rep. classify [((''h'', ''s''), map (sample_speed 500) [1..<9] @ map (sample_speed 5000) [9..<12])] (''h'', ''s'') = Slow rep \<and>
     length (sl_recent_keys rep) = 3"
proof -
  let ?r = "classify [((''h'', ''s''), map (sample_speed 500) [1..<9] @ map (sample_speed 5000) [9..<12])] (''h'', ''s'')"
  have "?r \<noteq> Normal" by code_simp
  then obtain rep where r: "?r = Slow rep" by (cases ?r) blast+
  show ?thesis using slow_alert_evidence [OF r] r by blast
qed

end
