(* ===== verification/Stream.thy ===== *)
theory Stream
  imports Pydict Chunks
begin

text \<open>
  The observation readers of \<open>cachemonitor/proxy_observation.py\<close>: the selected JSON fields, the
  framing of server-sent events and the choice between both. Bytes are characters. The incremental
  JSON parser (ijson) is a parameter: a start state, a step that yields events or fails, and a
  close that may fail. A string value is its bytes with its number of characters.
\<close>

section \<open>Selected JSON fields\<close>

definition MAX_OBSERVATION :: nat where "MAX_OBSERVATION = 128 * 1024 * 1024"

definition FIELDS :: "string list" where
  "FIELDS = [''model'', ''stream_id'', ''type'', ''object'', ''id'', ''event_id'', ''response_id'', ''status'', ''generate'',
     ''stream'', ''prompt_cache_retention'', ''service_tier'', ''response.id'', ''response.model'', ''response.status'',
     ''response.service_tier'', ''reasoning.effort'', ''response.reasoning.effort'']"

datatype json_event = Json_string string string nat | Json_boolean string bool | Json_other string

record 'p json_parser =
  jp_start :: 'p
  jp_send :: "string \<Rightarrow> 'p \<Rightarrow> json_event list \<times> 'p option"
  jp_close :: "'p \<Rightarrow> json_event list \<times> bool"  \<comment> \<open>whether closing raises\<close>

datatype json_error = Observation_limit | Invalid_json

record 'p selected_json =
  js_fields :: pydict
  js_error :: "json_error option"
  js_closed :: bool
  js_size :: nat
  js_parser :: 'p

definition new_json :: "'p json_parser \<Rightarrow> 'p selected_json" where
  "new_json P = \<lparr>js_fields = [], js_error = None, js_closed = False, js_size = 0, js_parser = jp_start P\<rparr>"

fun split_dots :: "string \<Rightarrow> string \<Rightarrow> string list" where
  "split_dots acc [] = [acc]"
| "split_dots acc (ch # cs) = (if ch = CHR ''.'' then acc # split_dots [] cs else split_dots (acc @ [ch]) cs)"

text \<open>The parent parts of a selected path are only ever dictionaries.\<close>

fun set_path :: "string list \<Rightarrow> pyval \<Rightarrow> pydict \<Rightarrow> pydict" where
  "set_path [] v d = d"
| "set_path [part] v d = dset part v d"
| "set_path (part # parts) v d = dset part (PDict (set_path parts v (dsub d part))) d"

definition ends_with :: "string \<Rightarrow> string \<Rightarrow> bool" where
  "ends_with suffix s = (length suffix \<le> length s \<and> drop (length s - length suffix) s = suffix)"

fun collect :: "pydict \<Rightarrow> json_event \<Rightarrow> pydict" where
  "collect d (Json_string prefix text chars) =
    (if prefix \<in> set FIELDS \<and> chars \<le> 256 then set_path (split_dots [] prefix) (PStr text) d else d)"
| "collect d (Json_boolean prefix b) =
    (if prefix \<in> set FIELDS \<and> \<not> ends_with ''reasoning.effort'' prefix
     then set_path (split_dots [] prefix) (PBool b) d else d)"
| "collect d (Json_other prefix) = d"

definition json_feed :: "'p json_parser \<Rightarrow> string \<Rightarrow> 'p selected_json \<Rightarrow> 'p selected_json" where
  "json_feed P data j =
    (if data = [] \<or> js_error j \<noteq> None \<or> js_closed j then j
     else let j1 = j\<lparr>js_size := js_size j + length data\<rparr>
       in if js_size j1 > MAX_OBSERVATION then j1\<lparr>js_error := Some Observation_limit\<rparr>
          else (case jp_send P data (js_parser j1) of
              (events, Some q) \<Rightarrow> j1\<lparr>js_fields := foldl collect (js_fields j1) events, js_parser := q\<rparr>
            | (events, None) \<Rightarrow> j1\<lparr>js_fields := foldl collect (js_fields j1) events, js_error := Some Invalid_json\<rparr>))"

definition json_finish :: "'p json_parser \<Rightarrow> 'p selected_json \<Rightarrow> pydict \<times> 'p selected_json" where
  "json_finish P j =
    (let j1 = (if js_closed j then j
         else (case jp_close P (js_parser j) of (events, raised) \<Rightarrow>
           j\<lparr>js_closed := True, js_fields := foldl collect (js_fields j) events,
             js_error := (if raised \<and> js_error j = None then Some Invalid_json else js_error j)\<rparr>))
     in (if js_error j1 \<noteq> None then [] else js_fields j1, j1))"

section \<open>Server-sent events\<close>

datatype sse_field = Data_field | Ignored_field

record 'p event_stream =
  es_callbacks :: "pydict list"  \<comment> \<open>the calls of \<open>callback\<close>, in order\<close>
  es_json :: "'p selected_json"
  es_prefix :: string
  es_field :: "sse_field option"
  es_first_value :: bool
  es_line_nonempty :: bool
  es_had_data :: bool
  es_skip_lf :: bool

definition new_stream :: "'p json_parser \<Rightarrow> 'p event_stream" where
  "new_stream P = \<lparr>es_callbacks = [], es_json = new_json P, es_prefix = [], es_field = None, es_first_value = False,
     es_line_nonempty = False, es_had_data = False, es_skip_lf = False\<rparr>"

fun read_field :: "string \<Rightarrow> 'p event_stream \<Rightarrow> string \<times> 'p event_stream" where
  "read_field [] s = ([], s)"
| "read_field (byte # piece) s =
    (if es_field s \<noteq> None then (byte # piece, s)
     else if byte = CHR '':'' then
       read_field piece (s\<lparr>es_field := Some (if es_prefix s = ''data'' then Data_field else Ignored_field), es_first_value := True\<rparr>)
     else if length (es_prefix s) < 5 then read_field piece (s\<lparr>es_prefix := es_prefix s @ [byte]\<rparr>)
     else read_field piece (s\<lparr>es_field := Some Ignored_field\<rparr>))"

definition data_piece :: "'p json_parser \<Rightarrow> string \<Rightarrow> 'p event_stream \<Rightarrow> 'p event_stream" where
  "data_piece P piece s =
    (if es_first_value s \<and> piece \<noteq> []
     then (let piece1 = (if hd piece = CHR '' '' then tl piece else piece)
           in s\<lparr>es_had_data := True, es_first_value := False, es_json := json_feed P piece1 (es_json s)\<rparr>)
     else s\<lparr>es_had_data := True, es_json := json_feed P piece (es_json s)\<rparr>)"

definition stream_piece :: "'p json_parser \<Rightarrow> string \<Rightarrow> 'p event_stream \<Rightarrow> 'p event_stream" where
  "stream_piece P piece s =
    (if piece = [] then s
     else (case read_field piece (s\<lparr>es_line_nonempty := True\<rparr>) of (rest, s1) \<Rightarrow>
       if es_field s1 = Some Data_field then data_piece P rest s1 else s1))"

definition stream_newline :: "'p json_parser \<Rightarrow> 'p event_stream \<Rightarrow> 'p event_stream" where
  "stream_newline P s =
    (let s1 = (if \<not> es_line_nonempty s then
           (case json_finish P (es_json s) of (found, j) \<Rightarrow>
              s\<lparr>es_callbacks := (if es_had_data s \<and> found \<noteq> [] then es_callbacks s @ [found] else es_callbacks s),
                es_json := new_json P, es_had_data := False\<rparr>)
         else if es_field s = Some Data_field then s\<lparr>es_json := json_feed P [CHR 0x0A] (es_json s)\<rparr> else s)
     in s1\<lparr>es_prefix := [], es_field := None, es_line_nonempty := False, es_first_value := False\<rparr>)"

definition line_end :: "char \<Rightarrow> bool" where
  "line_end ch = (ch = CHR 0x0D \<or> ch = CHR 0x0A)"

function stream_lines :: "'p json_parser \<Rightarrow> string \<Rightarrow> 'p event_stream \<Rightarrow> 'p event_stream" where
  "stream_lines P data s =
    (if data = [] then s
     else (case dropWhile (\<lambda>ch. \<not> line_end ch) data of
         [] \<Rightarrow> stream_piece P data s
       | ch # rest \<Rightarrow>
          (let s1 = stream_newline P (stream_piece P (takeWhile (\<lambda>ch. \<not> line_end ch) data) s)
           in if ch = CHR 0x0D \<and> rest = [] then s1\<lparr>es_skip_lf := True\<rparr>
              else if ch = CHR 0x0D \<and> hd rest = CHR 0x0A then stream_lines P (tl rest) s1
              else stream_lines P rest s1)))"
  by pat_completeness auto
termination
proof (relation "measure (\<lambda>(P, data, s). length data)", goal_cases)
  case (2 P data s ch rest s1)
  then have "length (ch # rest) \<le> length data" by (metis length_dropWhile_le)
  then show ?case by simp
next
  case (3 P data s ch rest s1)
  then have "length (ch # rest) \<le> length data" by (metis length_dropWhile_le)
  then show ?case by simp
qed simp

declare stream_lines.simps [simp del]

definition stream_feed :: "'p json_parser \<Rightarrow> string \<Rightarrow> 'p event_stream \<Rightarrow> 'p event_stream" where
  "stream_feed P data s =
    stream_lines P (if es_skip_lf s \<and> data \<noteq> [] \<and> hd data = CHR 0x0A then tl data else data) (s\<lparr>es_skip_lf := False\<rparr>)"

definition stream_finish :: "'p json_parser \<Rightarrow> 'p event_stream \<Rightarrow> 'p event_stream" where
  "stream_finish P s = s\<lparr>es_json := snd (json_finish P (es_json s))\<rparr>"

section \<open>JSON or events\<close>

datatype 'p reader = Json_reader "'p selected_json" | Sse_reader "'p event_stream"

record 'p response_metadata =
  rm_callbacks :: "pydict list"
  rm_prefix :: string
  rm_reader :: "'p reader option"
  rm_unknown :: bool  \<comment> \<open>\<open>error = 'unknown_format'\<close>\<close>
  rm_error :: "json_error option"

definition new_metadata :: "'p response_metadata" where
  "new_metadata = \<lparr>rm_callbacks = [], rm_prefix = [], rm_reader = None, rm_unknown = False, rm_error = None\<rparr>"

definition MARKERS :: "string list" where
  "MARKERS = [''data:'', ''event:'', '':'', ''id:'', ''retry:'']"

definition BOM :: string where "BOM = [CHR 0xEF, CHR 0xBB, CHR 0xBF]"

definition json_space :: "char \<Rightarrow> bool" where
  "json_space ch = (ch = CHR '' '' \<or> ch = CHR 0x09 \<or> ch = CHR 0x0D \<or> ch = CHR 0x0A)"

definition remove_prefix :: "string \<Rightarrow> string \<Rightarrow> string" where
  "remove_prefix pre s = (if take (length pre) s = pre then drop (length pre) s else s)"

definition starts :: "string \<Rightarrow> string \<Rightarrow> bool" where \<comment> \<open>\<open>s.startswith(pre)\<close>\<close>
  "starts pre s = (take (length pre) s = pre)"

definition reader_feed :: "'p json_parser \<Rightarrow> string \<Rightarrow> 'p reader \<Rightarrow> 'p reader" where
  "reader_feed P data r = (case r of Json_reader j \<Rightarrow> Json_reader (json_feed P data j)
     | Sse_reader e \<Rightarrow> Sse_reader (stream_feed P data e))"

definition open_reader :: "'p json_parser \<Rightarrow> 'p reader \<Rightarrow> string \<Rightarrow> string \<Rightarrow> 'p response_metadata \<Rightarrow> 'p response_metadata" where
  "open_reader P r probe rest m =
    m\<lparr>rm_reader := Some (reader_feed P rest (reader_feed P probe r)), rm_prefix := []\<rparr>"

text \<open>What one more byte of the prefix decides.\<close>

datatype sniff = Sniff_json string | Sniff_sse string | Sniff_more | Sniff_unknown

definition sniff_prefix :: "string \<Rightarrow> sniff" where
  "sniff_prefix prefix =
    (let probe = remove_prefix BOM prefix
     in if prefix = BOM then Sniff_more
        else if probe = ''{'' then Sniff_json probe
        else if probe \<in> set MARKERS then Sniff_sse probe
        else if starts prefix BOM \<or> list_ex (starts probe) MARKERS then Sniff_more
        else Sniff_unknown)"

fun sniff_bytes :: "'p json_parser \<Rightarrow> string \<Rightarrow> 'p response_metadata \<Rightarrow> 'p response_metadata" where
  "sniff_bytes P [] m = m"
| "sniff_bytes P (byte # rest) m =
    (if (rm_prefix m = [] \<or> rm_prefix m = BOM) \<and> json_space byte then sniff_bytes P rest m
     else (let prefix = rm_prefix m @ [byte]; m1 = m\<lparr>rm_prefix := prefix\<rparr>
       in case sniff_prefix prefix of
            Sniff_more \<Rightarrow> sniff_bytes P rest m1
          | Sniff_json probe \<Rightarrow> open_reader P (Json_reader (new_json P)) probe rest m1
          | Sniff_sse probe \<Rightarrow> open_reader P (Sse_reader (new_stream P)) probe rest m1
          | Sniff_unknown \<Rightarrow> m1\<lparr>rm_unknown := True, rm_prefix := []\<rparr>))"

definition metadata_feed :: "'p json_parser \<Rightarrow> string \<Rightarrow> 'p response_metadata \<Rightarrow> 'p response_metadata" where
  "metadata_feed P data m =
    (if rm_unknown m \<or> rm_error m \<noteq> None then m
     else (case rm_reader m of Some r \<Rightarrow> m\<lparr>rm_reader := Some (reader_feed P data r)\<rparr>
       | None \<Rightarrow> sniff_bytes P data m))"

definition metadata_finish :: "'p json_parser \<Rightarrow> 'p response_metadata \<Rightarrow> 'p response_metadata" where
  "metadata_finish P m = (case rm_reader m of
     None \<Rightarrow> m
   | Some (Sse_reader e) \<Rightarrow> m\<lparr>rm_reader := Some (Sse_reader (stream_finish P e))\<rparr>
   | Some (Json_reader j) \<Rightarrow> (case json_finish P j of (found, j1) \<Rightarrow>
       m\<lparr>rm_reader := Some (Json_reader j1), rm_error := js_error j1,
         rm_callbacks := (if found \<noteq> [] then rm_callbacks m @ [found] else rm_callbacks m)\<rparr>))"

text \<open>Everything the reader has reported, the callbacks of its event stream included.\<close>

definition reported :: "'p response_metadata \<Rightarrow> pydict list" where
  "reported m = rm_callbacks m @ (case rm_reader m of Some (Sse_reader e) \<Rightarrow> es_callbacks e | _ \<Rightarrow> [])"

section \<open>Whole messages\<close>

definition CHUNK :: nat where "CHUNK = 65536"

function pieces :: "nat \<Rightarrow> string \<Rightarrow> string list" where
  "pieces n data = (if data = [] \<or> n = 0 then [] else take n data # pieces n (drop n data))"
  by pat_completeness auto
termination by (relation "measure (\<lambda>(n, data). length data)") auto

declare pieces.simps [simp del]

definition python_message_metadata :: "'p json_parser \<Rightarrow> string \<Rightarrow> pydict" where
  "python_message_metadata P data =
    fst (json_finish P (foldl (\<lambda>j piece. json_feed P piece j) (new_json P) (pieces CHUNK data)))"

section \<open>Decoding\<close>

text \<open>
  \<open>DecodedObservation\<close> without compression and with zlib. The decompressor is a parameter: from its
  state and input, a bounded piece of output with the input it did not consume, or an error.
\<close>

record 'd inflater =
  in_step :: "'d \<Rightarrow> string \<Rightarrow> (string \<times> string \<times> 'd) option"
  in_eof :: "'d \<Rightarrow> bool"

datatype decode_error = Unsupported_encoding | Decode_error | Truncated_encoding

record ('d, 's) decoded =
  de_consumer :: 's
  de_decoder :: "'d option"
  de_error :: "decode_error option"
  de_closed :: bool

partial_function (option) inflate ::
    "'d inflater \<Rightarrow> (string \<Rightarrow> 's \<Rightarrow> 's) \<Rightarrow> 'd \<Rightarrow> 's \<Rightarrow> string \<Rightarrow> ('d \<times> 's \<times> bool) option" where
  "inflate D feed d c data =
    (if data = [] then Some (d, c, True)
     else (case in_step D d data of
         None \<Rightarrow> Some (d, c, False)
       | Some (piece, rest, d1) \<Rightarrow> inflate D feed d1 (feed piece c) rest))"

definition decoded_feed :: "'d inflater \<Rightarrow> (string \<Rightarrow> 's \<Rightarrow> 's) \<Rightarrow> string \<Rightarrow> ('d, 's) decoded \<Rightarrow> ('d, 's) decoded option" where
  "decoded_feed D feed data v =
    (if de_error v \<noteq> None then Some v
     else (case de_decoder v of
         None \<Rightarrow> Some (v\<lparr>de_consumer := feed data (de_consumer v)\<rparr>)
       | Some d \<Rightarrow> (case inflate D feed d (de_consumer v) data of
           None \<Rightarrow> None
         | Some (d1, c, ok) \<Rightarrow> Some (v\<lparr>de_decoder := Some d1, de_consumer := c,
             de_error := (if ok then None else Some Decode_error)\<rparr>))))"

definition decoded_finish :: "'d inflater \<Rightarrow> ('s \<Rightarrow> 's) \<Rightarrow> ('d, 's) decoded \<Rightarrow> ('d, 's) decoded" where
  "decoded_finish D finish v =
    (if de_closed v then v
     else v\<lparr>de_closed := True, de_consumer := finish (de_consumer v),
       de_error := (case (de_error v, de_decoder v) of
           (None, Some d) \<Rightarrow> if in_eof D d then None else Some Truncated_encoding
         | (e, _) \<Rightarrow> e)\<rparr>)"

section \<open>Pieces do not matter\<close>

text \<open>Documented behaviour of the parser: it keeps its state between pieces.\<close>

definition incremental :: "'p json_parser \<Rightarrow> bool" where
  "incremental P = (\<forall>a b p. a \<noteq> [] \<longrightarrow> b \<noteq> [] \<longrightarrow>
     (case jp_send P a p of
        (ev, Some q) \<Rightarrow> (case jp_send P b q of
            (ev', Some r) \<Rightarrow> jp_send P (a @ b) p = (ev @ ev', Some r)
          | (_, None) \<Rightarrow> snd (jp_send P (a @ b) p) = None)
      | (_, None) \<Rightarrow> snd (jp_send P (a @ b) p) = None))"

lemma incrementalD:
  assumes "incremental P" "a \<noteq> []" "b \<noteq> []"
  shows "jp_send P a p = (ev, Some q) \<Longrightarrow> jp_send P b q = (ev', Some r) \<Longrightarrow> jp_send P (a @ b) p = (ev @ ev', Some r)"
    and "jp_send P a p = (ev, Some q) \<Longrightarrow> jp_send P b q = (ev', None) \<Longrightarrow> snd (jp_send P (a @ b) p) = None"
    and "jp_send P a p = (ev, None) \<Longrightarrow> snd (jp_send P (a @ b) p) = None"
  using assms(1) [unfolded incremental_def, rule_format, OF assms(2,3), of p] by simp_all

definition json_same :: "'p selected_json \<Rightarrow> 'p selected_json \<Rightarrow> bool" where
  "json_same j k = (js_closed j = js_closed k \<and> (js_error j = None) = (js_error k = None) \<and> (js_error j = None \<longrightarrow> j = k))"

lemma json_same_refl [simp]: "json_same j j"
  by (simp add: json_same_def)

lemma json_same_trans: "json_same i j \<Longrightarrow> json_same j k \<Longrightarrow> json_same i k"
  unfolding json_same_def by metis

lemma json_feed_Nil [simp]: "json_feed P [] j = j"
  by (simp add: json_feed_def)

lemma json_feed_over: "js_error j \<noteq> None \<or> js_closed j \<Longrightarrow> json_feed P d j = j"
  by (auto simp: json_feed_def)

lemma json_feed_same: "json_same j k \<Longrightarrow> json_same (json_feed P d j) (json_feed P d k)"
  by (cases "js_error j = None") (auto simp: json_same_def json_feed_over)

lemma json_finish_same:
  assumes "json_same j k"
  shows "fst (json_finish P j) = fst (json_finish P k) \<and> json_same (snd (json_finish P j)) (snd (json_finish P k))"
proof (cases "js_error j = None")
  case True
  then show ?thesis using assms by (simp add: json_same_def)
next
  case False
  then obtain e f where "js_error j = Some e" "js_error k = Some f" using assms by (auto simp: json_same_def)
  then show ?thesis using assms by (simp add: json_same_def json_finish_def split: prod.split)
qed

lemma json_feed_append:
  assumes P: "incremental P"
  shows "json_same (json_feed P (a @ b) j) (json_feed P b (json_feed P a j))"
proof (cases "a = [] \<or> b = [] \<or> js_error j \<noteq> None \<or> js_closed j")
  case True
  then show ?thesis by (elim disjE) (simp_all add: json_feed_over)
next
  case False
  then have ne: "a \<noteq> []" "b \<noteq> []" "js_error j = None" "\<not> js_closed j" by auto
  show ?thesis
  proof (cases "js_size j + length a > MAX_OBSERVATION")
    case True
    then show ?thesis using ne by (simp add: json_feed_def json_same_def)
  next
    case small: False
    obtain ev q where a: "jp_send P a (js_parser j) = (ev, q)" by fastforce
    show ?thesis
    proof (cases q)
      case None
      then have "snd (jp_send P (a @ b) (js_parser j)) = None" using incrementalD(3) [OF P ne(1,2)] a by simp
      then show ?thesis using ne small a None
        by (auto simp: json_feed_def json_same_def Let_def split: prod.splits option.splits)
    next
      case (Some r)
      obtain ev' t where b: "jp_send P b r = (ev', t)" by fastforce
      show ?thesis
      proof (cases t)
        case None
        then have "snd (jp_send P (a @ b) (js_parser j)) = None"
          using incrementalD(2) [OF P ne(1,2)] a b Some by simp
        then show ?thesis using ne small a b Some None
          by (auto simp: json_feed_def json_same_def Let_def add.assoc split: prod.splits option.splits)
      next
        case (Some u)
        then have "jp_send P (a @ b) (js_parser j) = (ev @ ev', Some u)"
          using incrementalD(1) [OF P ne(1,2)] a b \<open>q = Some r\<close> by simp
        then show ?thesis using ne small a b Some \<open>q = Some r\<close>
          by (auto simp: json_feed_def json_same_def Let_def add.assoc split: prod.splits option.splits)
      qed
    qed
  qed
qed

text \<open>Streams that differ at most in what a failed event has left behind.\<close>

definition stream_same :: "'p event_stream \<Rightarrow> 'p event_stream \<Rightarrow> bool" where
  "stream_same s t = (\<exists>j. json_same (es_json s) j \<and> t = s\<lparr>es_json := j\<rparr>)"

lemma stream_sameI [intro]: "json_same (es_json s) j \<Longrightarrow> stream_same s (s\<lparr>es_json := j\<rparr>)"
  by (auto simp: stream_same_def)

lemma stream_sameE:
  assumes "stream_same s t"
  obtains j where "json_same (es_json s) j" "t = s\<lparr>es_json := j\<rparr>"
  using assms by (auto simp: stream_same_def)

lemma stream_same_refl [simp]: "stream_same s s"
  using stream_sameI [of s "es_json s"] by simp

lemma stream_same_trans: "stream_same s t \<Longrightarrow> stream_same t u \<Longrightarrow> stream_same s u"
  by (elim stream_sameE) (auto intro: json_same_trans stream_sameI)

lemma json_update_late:
  "s\<lparr>es_json := j\<rparr>\<lparr>es_field := f\<rparr> = s\<lparr>es_field := f\<rparr>\<lparr>es_json := j\<rparr>"
  "s\<lparr>es_json := j\<rparr>\<lparr>es_first_value := b\<rparr> = s\<lparr>es_first_value := b\<rparr>\<lparr>es_json := j\<rparr>"
  "s\<lparr>es_json := j\<rparr>\<lparr>es_prefix := p\<rparr> = s\<lparr>es_prefix := p\<rparr>\<lparr>es_json := j\<rparr>"
  "s\<lparr>es_json := j\<rparr>\<lparr>es_line_nonempty := b\<rparr> = s\<lparr>es_line_nonempty := b\<rparr>\<lparr>es_json := j\<rparr>"
  "s\<lparr>es_json := j\<rparr>\<lparr>es_had_data := b\<rparr> = s\<lparr>es_had_data := b\<rparr>\<lparr>es_json := j\<rparr>"
  "s\<lparr>es_json := j\<rparr>\<lparr>es_skip_lf := b\<rparr> = s\<lparr>es_skip_lf := b\<rparr>\<lparr>es_json := j\<rparr>"
  "s\<lparr>es_json := j\<rparr>\<lparr>es_callbacks := cs\<rparr> = s\<lparr>es_callbacks := cs\<rparr>\<lparr>es_json := j\<rparr>"
  by simp_all

lemma read_field_update [simp]:
  "read_field piece (s\<lparr>es_json := j\<rparr>) = (fst (read_field piece s), (snd (read_field piece s))\<lparr>es_json := j\<rparr>)"
  by (induction piece arbitrary: s) (simp_all add: json_update_late)

lemma read_field_keeps [simp]:
  "es_json (snd (read_field piece s)) = es_json s" "es_skip_lf (snd (read_field piece s)) = es_skip_lf s"
  "es_callbacks (snd (read_field piece s)) = es_callbacks s"
  "es_line_nonempty (snd (read_field piece s)) = es_line_nonempty s"
  "es_had_data (snd (read_field piece s)) = es_had_data s"
  by (induction piece s rule: read_field.induct) auto

lemma read_field_append:
  "read_field (a @ b) s = (if fst (read_field a s) = [] then read_field b (snd (read_field a s))
     else (fst (read_field a s) @ b, snd (read_field a s)))"
  by (induction a s rule: read_field.induct) auto

lemma read_field_set: "es_field s \<noteq> None \<Longrightarrow> read_field piece s = (piece, s)"
  by (cases piece) auto

lemma read_field_rest: "fst (read_field a s) \<noteq> [] \<Longrightarrow> es_field (snd (read_field a s)) \<noteq> None"
  by (induction a s rule: read_field.induct) auto

lemma data_piece_append:
  assumes P: "incremental P" and "b \<noteq> []"
  shows "stream_same (data_piece P (a @ b) s) (data_piece P b (data_piece P a s))"
proof (cases "a = []")
  case True
  then show ?thesis using assms(2) by (simp add: data_piece_def Let_def)
next
  case False
  then obtain c a' where a: "a = c # a'" by (cases a) auto
  have "data_piece P b (data_piece P a s) = (data_piece P (a @ b) s)\<lparr>es_json := es_json (data_piece P b (data_piece P a s))\<rparr>"
    by (simp add: data_piece_def a Let_def)
  moreover have "json_same (es_json (data_piece P (a @ b) s)) (es_json (data_piece P b (data_piece P a s)))"
    using json_feed_append [OF P, of a b "es_json s"] json_feed_append [OF P, of a' b "es_json s"]
    by (simp add: data_piece_def a Let_def)
  ultimately show ?thesis by (metis stream_sameI)
qed

lemma stream_same_json: "json_same j k \<Longrightarrow> stream_same (s\<lparr>es_json := j\<rparr>) (s\<lparr>es_json := k\<rparr>)"
  using stream_sameI [of "s\<lparr>es_json := j\<rparr>" k] by simp

lemma data_piece_same: "stream_same s t \<Longrightarrow> stream_same (data_piece P a s) (data_piece P a t)"
  by (elim stream_sameE) (simp add: data_piece_def Let_def json_update_late stream_same_json json_feed_same)

lemma stream_piece_append:
  assumes P: "incremental P" and ne: "a \<noteq> []" "b \<noteq> []"
  shows "stream_same (stream_piece P (a @ b) s) (stream_piece P b (stream_piece P a s))"
proof -
  let ?s = "s\<lparr>es_line_nonempty := True\<rparr>"
  obtain r s1 where a: "read_field a ?s = (r, s1)" by fastforce
  have s1: "es_line_nonempty s1" using read_field_keeps(4) [of a ?s] a by simp
  have keep: "s1\<lparr>es_line_nonempty := True\<rparr> = s1" using s1 by simp
  show ?thesis
  proof (cases "es_field s1")
    case None
    then have "r = []" using read_field_rest [of a ?s] a by auto
    then show ?thesis using a ne None keep by (simp add: stream_piece_def read_field_append)
  next
    case (Some f)
    have ab: "read_field (a @ b) ?s = (r @ b, s1)"
      using a Some by (simp add: read_field_append read_field_set)
    have b: "read_field b s1 = (b, s1)" using Some by (simp add: read_field_set)
    show ?thesis
    proof (cases f)
      case Data_field
      let ?d = "data_piece P r s1"
      have d: "es_field ?d = Some Data_field" "es_line_nonempty ?d" using Some Data_field s1
        by (simp_all add: data_piece_def Let_def)
      have "?d\<lparr>es_line_nonempty := True\<rparr> = ?d" using d(2) by simp
      then have "stream_piece P b ?d = data_piece P b ?d"
        using ne d(1) by (simp add: stream_piece_def read_field_set)
      moreover have "stream_piece P a s = ?d" using a ne Some Data_field by (simp add: stream_piece_def)
      moreover have "stream_piece P (a @ b) s = data_piece P (r @ b) s1"
        using ab ne Some Data_field by (simp add: stream_piece_def)
      ultimately show ?thesis using data_piece_append [OF P ne(2)] by simp
    next
      case Ignored_field
      then show ?thesis using a ab b ne Some keep by (simp add: stream_piece_def)
    qed
  qed
qed

lemma stream_piece_same: "stream_same s t \<Longrightarrow> stream_same (stream_piece P a s) (stream_piece P a t)"
proof (elim stream_sameE)
  fix j assume j: "json_same (es_json s) j" and t: "t = s\<lparr>es_json := j\<rparr>"
  obtain r s1 where a: "read_field a (s\<lparr>es_line_nonempty := True\<rparr>) = (r, s1)" by fastforce
  have s1: "es_json s1 = es_json s" using read_field_keeps(1) [of a "s\<lparr>es_line_nonempty := True\<rparr>"] a by simp
  have "stream_same s1 (s1\<lparr>es_json := j\<rparr>)" using j s1 by (intro stream_sameI) simp
  then show "stream_same (stream_piece P a s) (stream_piece P a t)"
    using a j by (auto simp: t stream_piece_def json_update_late intro: data_piece_same)
qed

lemma stream_newline_same: "stream_same s t \<Longrightarrow> stream_same (stream_newline P s) (stream_newline P t)"
proof (elim stream_sameE)
  fix j assume j: "json_same (es_json s) j" and t: "t = s\<lparr>es_json := j\<rparr>"
  have f: "fst (json_finish P j) = fst (json_finish P (es_json s))" using json_finish_same [OF j] by metis
  show "stream_same (stream_newline P s) (stream_newline P t)"
    using f stream_same_json [OF json_feed_same [OF j]]
    by (cases "es_line_nonempty s")
      (auto simp: t stream_newline_def Let_def json_update_late split: prod.splits intro!: stream_same_json json_feed_same j)
qed

lemma stream_skip_same: "stream_same s t \<Longrightarrow> stream_same (s\<lparr>es_skip_lf := b\<rparr>) (t\<lparr>es_skip_lf := b\<rparr>)"
  by (elim stream_sameE) (auto simp: json_update_late)

lemma data_piece_skip [simp]: "es_skip_lf (data_piece P a s) = es_skip_lf s"
  by (simp add: data_piece_def Let_def)

lemma stream_piece_skip [simp]: "es_skip_lf (stream_piece P a s) = es_skip_lf s"
proof -
  obtain r s1 where a: "read_field a (s\<lparr>es_line_nonempty := True\<rparr>) = (r, s1)" by fastforce
  then have "es_skip_lf s1 = es_skip_lf s"
    using read_field_keeps(2) [of a "s\<lparr>es_line_nonempty := True\<rparr>"] by simp
  then show ?thesis using a by (simp add: stream_piece_def)
qed

lemma stream_newline_skip [simp]: "es_skip_lf (stream_newline P s) = es_skip_lf s"
  by (simp add: stream_newline_def Let_def split: prod.split)

lemma stream_piece_Nil [simp]: "stream_piece P [] s = s"
  by (simp add: stream_piece_def)

lemma stream_lines_Nil [simp]: "stream_lines P [] s = s"
  by (simp add: stream_lines.simps)

lemma stream_lines_open:
  assumes "\<forall>ch \<in> set x. \<not> line_end ch"
  shows "stream_lines P x s = stream_piece P x s"
proof -
  have "dropWhile (\<lambda>ch. \<not> line_end ch) x = []" using assms by simp
  then show ?thesis by (subst stream_lines.simps) (simp only: list.case if_cancel stream_piece_Nil split: if_split, simp)
qed

lemma stream_lines_closed:
  assumes "\<forall>ch \<in> set x. \<not> line_end ch" "line_end c"
  shows "stream_lines P (x @ c # rest) s =
    (let s1 = stream_newline P (stream_piece P x s)
     in if c = CHR 0x0D \<and> rest = [] then s1\<lparr>es_skip_lf := True\<rparr>
        else if c = CHR 0x0D \<and> hd rest = CHR 0x0A then stream_lines P (tl rest) s1
        else stream_lines P rest s1)"
proof -
  have "dropWhile (\<lambda>ch. \<not> line_end ch) (x @ c # rest) = c # rest"
    "takeWhile (\<lambda>ch. \<not> line_end ch) (x @ c # rest) = x" using assms by simp_all
  then show ?thesis by (subst stream_lines.simps) simp
qed

lemma line_split:
  obtains (open_line) "\<forall>ch \<in> set xs. \<not> line_end ch"
  | (closed) x c rest where "xs = x @ c # rest" "\<forall>ch \<in> set x. \<not> line_end ch" "line_end c"
proof (cases "\<forall>ch \<in> set xs. \<not> line_end ch")
  case False
  then have "\<exists>ch \<in> set xs. line_end ch" by blast
  then show thesis using split_list_first_prop [of xs line_end] closed by blast
qed (rule open_line)

lemma stream_lines_same: "stream_same s t \<Longrightarrow> stream_same (stream_lines P d s) (stream_lines P d t)"
proof (induction d arbitrary: s t rule: length_induct)
  case (1 d)
  show ?case
  proof (cases d rule: line_split)
    case open_line
    then show ?thesis using 1(2) by (simp add: stream_lines_open stream_piece_same)
  next
    case (closed x c rest)
    let ?n = "\<lambda>s. stream_newline P (stream_piece P x s)"
    have n: "stream_same (?n s) (?n t)" using 1(2) by (intro stream_newline_same stream_piece_same)
    have "length rest < length d" "length (tl rest) < length d" using closed by auto
    then have "stream_same (stream_lines P rest (?n s)) (stream_lines P rest (?n t))"
      "stream_same (stream_lines P (tl rest) (?n s)) (stream_lines P (tl rest) (?n t))"
      using 1(1) n by blast+
    then show ?thesis using closed n by (simp add: stream_lines_closed Let_def stream_skip_same)
  qed
qed

lemma stream_feed_same: "stream_same s t \<Longrightarrow> stream_same (stream_feed P d s) (stream_feed P d t)"
  by (auto simp: stream_feed_def json_update_late elim!: stream_sameE intro!: stream_lines_same stream_sameI)

lemma stream_feed_plain: "\<not> es_skip_lf s \<Longrightarrow> stream_feed P d s = stream_lines P d s"
proof -
  assume "\<not> es_skip_lf s"
  moreover from this have "s\<lparr>es_skip_lf := False\<rparr> = s" by (cases s) simp
  ultimately show ?thesis by (simp only: stream_feed_def simp_thms if_False)
qed

lemma stream_lines_append:
  assumes P: "incremental P" and b: "b \<noteq> []"
  shows "\<not> es_skip_lf s \<Longrightarrow> stream_same (stream_lines P (a @ b) s) (stream_feed P b (stream_lines P a s))"
proof (induction a arbitrary: s rule: length_induct)
  case (1 a)
  note skip = 1(2)
  show ?case
  proof (cases a rule: line_split)
    case a: open_line
    have fa: "stream_feed P b (stream_lines P a s) = stream_lines P b (stream_piece P a s)"
      using a skip by (simp add: stream_lines_open stream_feed_plain)
    have piece: "stream_same (stream_piece P (a @ x) s) (stream_piece P x (stream_piece P a s))" if "x \<noteq> [] \<or> a = []" for x
      using stream_piece_append [OF P, of a x s] that by (cases "a = []") auto
    show ?thesis
    proof (cases b rule: line_split)
      case open_line
      then have "stream_lines P (a @ b) s = stream_piece P (a @ b) s" using a by (intro stream_lines_open) auto
      then show ?thesis unfolding fa using open_line piece [of b] b by (simp add: stream_lines_open)
    next
      case (closed x c rest)
      have ax: "\<forall>ch \<in> set (a @ x). \<not> line_end ch" using a closed by auto
      have "stream_same (stream_piece P (a @ x) s) (stream_piece P x (stream_piece P a s))"
        using piece [of x] by (cases "x = []") auto
      then have n: "stream_same (stream_newline P (stream_piece P (a @ x) s))
          (stream_newline P (stream_piece P x (stream_piece P a s)))" by (rule stream_newline_same)
      show ?thesis unfolding fa
        using stream_lines_closed [OF ax closed(3), of P rest s] closed n
        by (simp add: stream_lines_closed Let_def stream_lines_same stream_skip_same)
    qed
  next
    case (closed x c rest)
    let ?s = "stream_newline P (stream_piece P x s)"
    have sk: "\<not> es_skip_lf ?s" using skip by simp
    have ab: "stream_lines P (a @ b) s = stream_lines P (x @ c # (rest @ b)) s" using closed by simp
    have len: "length rest < length a" "length (tl rest) < length a" using closed by auto
    have ih: "stream_same (stream_lines P (r @ b) ?s) (stream_feed P b (stream_lines P r ?s))"
      if "r = rest \<or> r = tl rest" for r
      using 1(1) len sk that by blast
    consider "c = CHR 0x0D" "rest = []" | "c = CHR 0x0D" "rest \<noteq> []" "hd rest = CHR 0x0A"
      | "rest = []" "c \<noteq> CHR 0x0D" | "rest \<noteq> []" "c \<noteq> CHR 0x0D \<or> hd rest \<noteq> CHR 0x0A" by blast
    then show ?thesis
    proof cases
      case 1
      have e: "?s\<lparr>es_skip_lf := False\<rparr> = ?s" using sk by (cases ?s) simp
      from 1 show ?thesis unfolding ab
        using closed b by (simp add: stream_lines_closed Let_def stream_feed_def e)
    next
      case 2
      then show ?thesis unfolding ab using closed ih [of "tl rest"] by (simp add: stream_lines_closed Let_def)
    next
      case 3
      then show ?thesis unfolding ab using closed ih [of "[]"] by (simp add: stream_lines_closed Let_def)
    next
      case 4
      then show ?thesis unfolding ab using closed ih [of rest] by (auto simp: stream_lines_closed Let_def)
    qed
  qed
qed

lemma stream_feed_append:
  assumes P: "incremental P" and b: "b \<noteq> []" and a: "a \<noteq> [] \<or> \<not> es_skip_lf s"
  shows "stream_same (stream_feed P (a @ b) s) (stream_feed P b (stream_feed P a s))"
proof -
  let ?cut = "\<lambda>d. if es_skip_lf s \<and> d \<noteq> [] \<and> hd d = CHR 0x0A then tl d else d"
  have "?cut (a @ b) = ?cut a @ b" using a by (cases a) auto
  then show ?thesis unfolding stream_feed_def [of P "a @ b" s] stream_feed_def [of P a s]
    using stream_lines_append [OF P b, of "s\<lparr>es_skip_lf := False\<rparr>" "?cut a"] by simp
qed

subsection \<open>The reader that chooses\<close>

fun reader_same :: "'p reader \<Rightarrow> 'p reader \<Rightarrow> bool" where
  "reader_same (Json_reader j) (Json_reader k) = json_same j k"
| "reader_same (Sse_reader s) (Sse_reader t) = stream_same s t"
| "reader_same _ _ = False"

definition metadata_same :: "'p response_metadata \<Rightarrow> 'p response_metadata \<Rightarrow> bool" where
  "metadata_same m n = (n = m \<or>
     (\<exists>q r. rm_reader m = Some q \<and> reader_same q r \<and> n = m\<lparr>rm_reader := Some r\<rparr>))"

lemma reader_same_refl [simp]: "reader_same r r"
  by (cases r) simp_all

lemma reader_same_trans: "reader_same q r \<Longrightarrow> reader_same r s \<Longrightarrow> reader_same q s"
  by (cases q; cases r; cases s) (auto intro: json_same_trans stream_same_trans)

lemma reader_feed_same: "reader_same r s \<Longrightarrow> reader_same (reader_feed P d r) (reader_feed P d s)"
  by (cases r; cases s) (auto simp: reader_feed_def json_feed_same stream_feed_same)

definition mid_line :: "'p reader \<Rightarrow> bool" where
  "mid_line r = (case r of Json_reader _ \<Rightarrow> True | Sse_reader e \<Rightarrow> \<not> es_skip_lf e)"

lemma reader_feed_append:
  assumes "incremental P" "b \<noteq> []" "a \<noteq> [] \<or> mid_line r"
  shows "reader_same (reader_feed P (a @ b) r) (reader_feed P b (reader_feed P a r))"
  using assms by (cases r) (auto simp: reader_feed_def mid_line_def json_feed_append stream_feed_append)

lemma metadata_same_refl [simp]: "metadata_same m m"
  by (simp add: metadata_same_def)

lemma metadata_sameI: "rm_reader m = Some q \<Longrightarrow> reader_same q r \<Longrightarrow> metadata_same m (m\<lparr>rm_reader := Some r\<rparr>)"
  by (auto simp: metadata_same_def)

lemma metadata_sameE:
  assumes "metadata_same m n"
  obtains (eq) "n = m" | (reader) q r where "rm_reader m = Some q" "reader_same q r" "n = m\<lparr>rm_reader := Some r\<rparr>"
  using assms by (auto simp: metadata_same_def)

lemma metadata_same_trans:
  assumes "metadata_same l m" "metadata_same m n"
  shows "metadata_same l n"
  using assms(1)
proof (cases rule: metadata_sameE)
  case q: (reader q r)
  show ?thesis using assms(2)
  proof (cases rule: metadata_sameE)
    case (reader q' r')
    then have "reader_same q r'" using q by (auto intro: reader_same_trans)
    then show ?thesis using metadata_sameI [OF q(1)] reader q by simp
  qed (use assms in simp)
qed (use assms in simp)

lemma metadata_feed_same:
  assumes "metadata_same m n"
  shows "metadata_same (metadata_feed P d m) (metadata_feed P d n)"
  using assms
proof (cases rule: metadata_sameE)
  case (reader q r)
  have "metadata_same (m\<lparr>rm_reader := Some (reader_feed P d q)\<rparr>) (m\<lparr>rm_reader := Some (reader_feed P d r)\<rparr>)"
    using metadata_sameI [of "m\<lparr>rm_reader := Some (reader_feed P d q)\<rparr>"] reader_feed_same [OF reader(2)] by simp
  then show ?thesis using reader by (cases "rm_unknown m \<or> rm_error m \<noteq> None") (auto simp: metadata_feed_def metadata_same_def)
qed simp

lemma MARKERS_no_line_end: "probe \<in> set MARKERS \<Longrightarrow> \<forall>ch \<in> set probe. \<not> line_end ch"
  unfolding MARKERS_def line_end_def by auto

lemma probe_mid_line: "probe \<in> set MARKERS \<Longrightarrow> mid_line (reader_feed P probe (Sse_reader (new_stream P)))"
  using MARKERS_no_line_end [of probe]
  by (simp add: mid_line_def reader_feed_def stream_feed_plain stream_lines_open new_stream_def)

lemma sniff_sse_marker: "sniff_prefix p = Sniff_sse probe \<Longrightarrow> probe \<in> set MARKERS"
  by (auto simp: sniff_prefix_def Let_def split: if_splits)

lemma open_reader_append:
  assumes P: "incremental P" and b: "b \<noteq> []" and mid: "mid_line (reader_feed P probe r)"
    and m: "\<not> rm_unknown m" "rm_error m = None"
  shows "metadata_same (open_reader P r probe (a @ b) m) (metadata_feed P b (open_reader P r probe a m))"
  using reader_feed_append [OF P b, of a "reader_feed P probe r"] mid m
    metadata_sameI [of "open_reader P r probe (a @ b) m"]
  by (simp add: open_reader_def metadata_feed_def)

lemma sniff_bytes_append:
  assumes P: "incremental P" and b: "b \<noteq> []"
  shows "rm_reader m = None \<Longrightarrow> \<not> rm_unknown m \<Longrightarrow> rm_error m = None \<Longrightarrow>
    metadata_same (sniff_bytes P (a @ b) m) (metadata_feed P b (sniff_bytes P a m))"
proof (induction a arbitrary: m)
  case Nil
  then show ?case by (simp add: metadata_feed_def)
next
  case (Cons byte rest)
  show ?case
  proof (cases "(rm_prefix m = [] \<or> rm_prefix m = BOM) \<and> json_space byte")
    case True
    then show ?thesis using Cons by simp
  next
    case False
    let ?m = "m\<lparr>rm_prefix := rm_prefix m @ [byte]\<rparr>"
    have m: "rm_reader ?m = None" "\<not> rm_unknown ?m" "rm_error ?m = None" using Cons.prems by simp_all
    show ?thesis
    proof (cases "sniff_prefix (rm_prefix m @ [byte])")
      case (Sniff_json probe)
      have "mid_line (reader_feed P probe (Json_reader (new_json P)))" by (simp add: mid_line_def reader_feed_def)
      moreover have "sniff_bytes P (byte # d) m = open_reader P (Json_reader (new_json P)) probe d ?m" for d
        using False Sniff_json by auto
      ultimately show ?thesis using open_reader_append [OF P b _ m(2,3), of probe _ rest] by (simp del: sniff_bytes.simps)
    next
      case (Sniff_sse probe)
      then have "mid_line (reader_feed P probe (Sse_reader (new_stream P)))"
        by (intro probe_mid_line sniff_sse_marker)
      moreover have "sniff_bytes P (byte # d) m = open_reader P (Sse_reader (new_stream P)) probe d ?m" for d
        using False Sniff_sse by auto
      ultimately show ?thesis using open_reader_append [OF P b _ m(2,3), of probe _ rest] by (simp del: sniff_bytes.simps)
    next
      case Sniff_more
      then show ?thesis using False Cons.IH [OF m] by auto
    next
      case Sniff_unknown
      then show ?thesis using False by (auto simp: metadata_feed_def)
    qed
  qed
qed

lemma metadata_feed_append:
  assumes P: "incremental P" and ne: "a \<noteq> []" "b \<noteq> []"
  shows "metadata_same (metadata_feed P (a @ b) m) (metadata_feed P b (metadata_feed P a m))"
proof (cases "rm_unknown m \<or> rm_error m \<noteq> None")
  case True
  then show ?thesis by (simp add: metadata_feed_def)
next
  case False
  show ?thesis
  proof (cases "rm_reader m")
    case None
    then show ?thesis using False sniff_bytes_append [OF P ne(2), of m a] by (simp add: metadata_feed_def)
  next
    case (Some r)
    then show ?thesis using False reader_feed_append [OF P ne(2), of a r] ne(1)
        metadata_sameI [of "m\<lparr>rm_reader := Some (reader_feed P (a @ b) r)\<rparr>"]
      by (auto simp: metadata_feed_def)
  qed
qed

lemma metadata_chunked: "incremental P \<Longrightarrow> chunked_reader (metadata_feed P) metadata_same (\<lambda>_. True)"
  by unfold_locales (auto intro: metadata_same_trans metadata_feed_same metadata_feed_append)

lemma reported_same:
  assumes "metadata_same m n"
  shows "reported (metadata_finish P m) = reported (metadata_finish P n)"
  using assms
proof (cases rule: metadata_sameE)
  case (reader q r)
  show ?thesis
  proof (cases q)
    case (Json_reader j)
    then obtain k where k: "r = Json_reader k" "json_same j k" using reader by (cases r) auto
    then have "fst (json_finish P j) = fst (json_finish P k)" using json_finish_same by blast
    then show ?thesis using reader k Json_reader by (auto simp: metadata_finish_def reported_def split: prod.split)
  next
    case (Sse_reader s)
    then obtain t where t: "r = Sse_reader t" "stream_same s t" using reader by (cases r) auto
    then have "es_callbacks t = es_callbacks s" by (auto elim: stream_sameE)
    then show ?thesis using reader t Sse_reader by (simp add: metadata_finish_def reported_def stream_finish_def)
  qed
qed simp

text \<open>
  A decompressor that always consumes input returns, and what the consumer has seen is the
  concatenation of its pieces, in order.
\<close>

lemma inflate_returns:
  assumes "\<And>d data piece rest d'. data \<noteq> [] \<Longrightarrow> in_step D d data = Some (piece, rest, d') \<Longrightarrow> length rest < length data"
  shows "inflate D feed d c data \<noteq> None"
proof (induction data arbitrary: d c rule: length_induct)
  case (1 data)
  show ?case
  proof (cases "data = [] \<or> in_step D d data = None")
    case True
    then show ?thesis by (subst inflate.simps) auto
  next
    case False
    then obtain piece rest d' where st: "in_step D d data = Some (piece, rest, d')" by auto
    then have "length rest < length data" using assms False by blast
    then have "inflate D feed d' (feed piece c) rest \<noteq> None" using 1 by blast
    then show ?thesis using st False by (subst inflate.simps) simp
  qed
qed

lemma pieces_concat: "0 < n \<Longrightarrow> concat (pieces n data) = data \<and> [] \<notin> set (pieces n data)"
  by (induction n data rule: pieces.induct) (subst (1 2) pieces.simps, auto)

lemma json_pieces:
  assumes P: "incremental P"
  shows "json_same (json_feed P (concat cs) j) (foldl (\<lambda>k c. json_feed P c k) j cs)"
proof (induction cs arbitrary: j)
  case (Cons c cs)
  show ?case using json_same_trans [OF json_feed_append [OF P, of c "concat cs" j] Cons.IH] by simp
qed simp

text \<open>Cutting a message into pieces of 64 KiB does not change what is read from it.\<close>

lemma message_pieces:
  assumes "incremental P"
  shows "python_message_metadata P data = fst (json_finish P (json_feed P data (new_json P)))"
proof -
  have "concat (pieces CHUNK data) = data" using pieces_concat [of CHUNK data] by (simp add: CHUNK_def)
  then show ?thesis
    using json_finish_same [OF json_pieces [OF assms, of "pieces CHUNK data" "new_json P"]]
    by (simp add: python_message_metadata_def)
qed

text \<open>
  A parser for concrete instances, which reports one boolean per byte. Feeding an empty piece between
  CR and LF ends an event early: the two data lines are then reported as two events instead of one.
\<close>

definition byte_parser :: "unit json_parser" where
  "byte_parser = \<lparr>jp_start = (), jp_send = (\<lambda>s p. (map (\<lambda>_. Json_boolean ''stream'' True) s, Some ())), jp_close = (\<lambda>p. ([], False))\<rparr>"

lemma byte_parser_incremental: "incremental byte_parser"
  by (simp add: incremental_def byte_parser_def)

lemma empty_piece_splits_event:
  "length (es_callbacks (foldl (\<lambda>s c. stream_feed byte_parser c s) (new_stream byte_parser)
     [''data:x'' @ [CHR 0x0D], [], CHR 0x0A # ''data:y'' @ [CHR 0x0A, CHR 0x0A]])) = 2 \<and>
   length (es_callbacks (foldl (\<lambda>s c. stream_feed byte_parser c s) (new_stream byte_parser)
     [''data:x'' @ [CHR 0x0D], CHR 0x0A # ''data:y'' @ [CHR 0x0A, CHR 0x0A]])) = 1"
  by (simp add: stream_feed_def stream_lines.simps stream_piece_def stream_newline_def data_piece_def json_feed_def
      json_finish_def byte_parser_def new_stream_def new_json_def line_end_def MAX_OBSERVATION_def FIELDS_def
      ends_with_def dset_def)

section \<open>Claims\<close>

text \<open>
  C14: What the relay observes of a response does not depend on how the network cut it: for any two ways of
  cutting the same bytes into non-empty pieces the reported fields are the same, for JSON bodies and for event
  streams with LF, CR or CR LF line ends. The incremental JSON parser is assumed to keep its state between
  pieces.
\<close>

theorem observation_chunking:
  assumes "incremental P" "concat cs = concat ds" "cs \<noteq> []" "ds \<noteq> []" "[] \<notin> set cs" "[] \<notin> set ds"
  shows "reported (metadata_finish P (foldl (\<lambda>m c. metadata_feed P c m) new_metadata cs)) =
    reported (metadata_finish P (foldl (\<lambda>m c. metadata_feed P c m) new_metadata ds))"
  by (rule chunked_reader.chunking_irrelevant [OF metadata_chunked [OF assms(1)] TrueI assms(2-6) reported_same])

theorem observation_chunking_witness:
  "reported (metadata_finish byte_parser (foldl (\<lambda>m c. metadata_feed byte_parser c m) new_metadata
     [''data'', '': x'' @ [CHR 0x0D], CHR 0x0A # [CHR 0x0A]])) =
   reported (metadata_finish byte_parser (foldl (\<lambda>m c. metadata_feed byte_parser c m) new_metadata
     [''data: x'' @ [CHR 0x0D, CHR 0x0A, CHR 0x0A]]))"
  by (rule observation_chunking [OF byte_parser_incremental]) simp_all

end
