(* ===== verification/Tracking.thy ===== *)
theory Tracking
  imports Pybase
begin

text \<open>
  Forward account observations of \<open>cachemonitor/quota_tracking.py\<close>: the reset classifier
  \<open>ResetTracker\<close> and the measured segments of \<open>TrackingState\<close>. An observation's epoch is
  a non-empty tuple, split into its first element (the account) and the rest.
\<close>

section \<open>Reset classification\<close>

datatype reset_event = Scheduled_reset | Arbitrary_reset

record reset_tracker =
  rt_remaining :: "rat option"
  rt_at :: "rat option"
  rt_scheduled_at :: "rat option"
  rt_consumed_at :: "rat option"
  rt_recovering :: bool

definition reset_init :: reset_tracker where
  "reset_init = \<lparr>rt_remaining = None, rt_at = None, rt_scheduled_at = None, rt_consumed_at = None,
     rt_recovering = False\<rparr>"

definition schedule_of :: "pyval \<Rightarrow> rat option" where
  "schedule_of v = (case finite_number v of None \<Rightarrow> None | Some q \<Rightarrow> if q > 0 then Some q else None)"

definition drop_history :: "bool \<Rightarrow> reset_tracker \<Rightarrow> reset_tracker" where
  "drop_history cont t = (if cont then t
     else t\<lparr>rt_remaining := None, rt_scheduled_at := None, rt_consumed_at := None, rt_recovering := False\<rparr>)"

definition note_decrease :: "rat \<Rightarrow> reset_tracker \<Rightarrow> reset_tracker" where
  "note_decrease remaining t = (case rt_remaining t of
     Some r \<Rightarrow> if remaining < r then t\<lparr>rt_recovering := False\<rparr> else t | None \<Rightarrow> t)"

definition increased :: "rat \<Rightarrow> reset_tracker \<Rightarrow> bool" where
  "increased remaining t = (case rt_remaining t of Some r \<Rightarrow> remaining > r | None \<Rightarrow> False)"

definition classify_increase :: "rat \<Rightarrow> rat \<Rightarrow> reset_tracker \<Rightarrow> reset_event option \<times> reset_tracker" where
  "classify_increase remaining at_time t =
    (if increased remaining t \<and> \<not> rt_recovering t then
       (case rt_scheduled_at t of
          Some s \<Rightarrow>
            if at_time \<ge> s
            then (Some Scheduled_reset, t\<lparr>rt_recovering := True, rt_consumed_at := Some s, rt_scheduled_at := None\<rparr>)
            else (Some Arbitrary_reset, t\<lparr>rt_recovering := True, rt_scheduled_at := None\<rparr>)
        | None \<Rightarrow> (Some Arbitrary_reset, t\<lparr>rt_recovering := True, rt_scheduled_at := None\<rparr>))
     else (None, t))"

definition adopt_schedule :: "rat \<Rightarrow> rat option \<Rightarrow> reset_tracker \<Rightarrow> reset_tracker" where
  "adopt_schedule remaining schedule t = (case schedule of
     None \<Rightarrow> t
   | Some s \<Rightarrow>
      if schedule \<noteq> rt_consumed_at t \<and>
         (case rt_scheduled_at t of None \<Rightarrow> True | Some s' \<Rightarrow> s < s' \<or> remaining = 100)
      then t\<lparr>rt_scheduled_at := schedule\<rparr> else t)"

definition reset_observe :: "rat \<Rightarrow> rat \<Rightarrow> pyval \<Rightarrow> bool \<Rightarrow> reset_tracker \<Rightarrow> reset_event option \<times> reset_tracker" where
  "reset_observe remaining at_time scheduled_at cont t =
    (let t1 = note_decrease remaining (drop_history cont t);
         (event, t2) = classify_increase remaining at_time t1;
         t3 = adopt_schedule remaining (schedule_of scheduled_at) t2
     in (event, t3\<lparr>rt_remaining := Some remaining, rt_at := Some at_time\<rparr>))"

section \<open>Measured segments\<close>

record 'e observation =
  o_sequence :: int
  o_requested_at :: rat
  o_received_at :: rat
  o_remaining :: rat
  o_account :: 'e
  o_rest :: "'e list"
  o_resets_at :: pyval
  o_continuous :: bool

datatype close_reason = By_reset reset_event | Allowance_changed | Observation_gap

record 'e segment =
  g_start :: "'e observation"
  g_end :: "'e observation"
  g_reason :: close_reason
  g_observations :: "'e observation list"

record 'e tracking =
  t_activated_at :: rat
  t_active :: "bool option"
  t_activity_at :: rat
  t_baseline :: "'e observation option"
  t_endpoint :: "'e observation option"
  t_last :: "'e observation option"
  t_generation :: nat
  t_closed :: "'e segment list"
  t_observations :: "'e observation list"
  t_resets :: reset_tracker

definition tracking_init :: "rat \<Rightarrow> 'e tracking" where
  "tracking_init activated_at = \<lparr>t_activated_at = activated_at, t_active = None, t_activity_at = 0,
     t_baseline = None, t_endpoint = None, t_last = None, t_generation = 0, t_closed = [],
     t_observations = [], t_resets = reset_init\<rparr>"

definition track_activity :: "bool \<Rightarrow> rat \<Rightarrow> 'e tracking \<Rightarrow> bool \<times> 'e tracking" where
  "track_activity active at_time s =
    (if at_time < t_activity_at s then (False, s)
     else let changed = (Some active \<noteq> t_active s);
              s' = s\<lparr>t_active := Some active, t_activity_at := at_time\<rparr>
          in (changed, if changed then s'\<lparr>t_generation := t_generation s' + 1\<rparr> else s'))"

definition close_segment :: "close_reason \<Rightarrow> bool \<Rightarrow> 'e tracking \<Rightarrow> 'e tracking" where
  "close_segment reason keep_reset s =
    (let s1 = (case (t_baseline s, t_endpoint s) of
           (Some b, Some e) \<Rightarrow> s\<lparr>t_closed := t_closed s @
              [\<lparr>g_start = b, g_end = e, g_reason = reason, g_observations = t_observations s\<rparr>]\<rparr>
         | _ \<Rightarrow> s);
         s2 = s1\<lparr>t_baseline := None, t_endpoint := None, t_last := None, t_observations := []\<rparr>
     in if keep_reset then s2 else s2\<lparr>t_resets := reset_init\<rparr>)"

definition acceptable :: "bool \<Rightarrow> 'e observation \<Rightarrow> 'e tracking \<Rightarrow> bool" where
  "acceptable fin v s =
    (fin \<and> 0 \<le> o_remaining v \<and> o_remaining v \<le> 100 \<and> o_requested_at v \<le> o_received_at v \<and>
     t_activated_at s \<le> o_requested_at v \<and>
     (case t_last s of None \<Rightarrow> True
      | Some l \<Rightarrow> o_sequence l < o_sequence v \<and> o_received_at l \<le> o_received_at v))"

definition same_epoch :: "'e observation \<Rightarrow> 'e observation \<Rightarrow> bool" where
  "same_epoch a b = (o_account a = o_account b \<and> o_rest a = o_rest b)"

text \<open>Equal epochs, or epochs of at least five elements that differ in the fourth only.\<close>

definition same_limit :: "'e observation option \<Rightarrow> 'e observation \<Rightarrow> bool" where
  "same_limit prev v = (case prev of None \<Rightarrow> True
     | Some l \<Rightarrow> same_epoch l v \<or>
        (length (o_rest v) \<ge> 4 \<and> length (o_rest l) \<ge> 4 \<and>
         o_account l # take 2 (o_rest l) @ drop 3 (o_rest l) = o_account v # take 2 (o_rest v) @ drop 3 (o_rest v)))"

definition same_account :: "'e observation option \<Rightarrow> 'e observation \<Rightarrow> bool" where
  "same_account prev v = (case prev of None \<Rightarrow> True | Some l \<Rightarrow> o_account l = o_account v)"

definition rises :: "'e observation \<Rightarrow> 'e tracking \<Rightarrow> bool" where
  "rises v s = (case t_endpoint s of None \<Rightarrow> False | Some e \<Rightarrow> o_remaining v > o_remaining e)"

definition append_observation :: "'e observation \<Rightarrow> 'e tracking \<Rightarrow> 'e tracking" where
  "append_observation v s = s\<lparr>t_last := Some v,
     t_baseline := (case t_baseline s of None \<Rightarrow> Some v | b \<Rightarrow> b),
     t_endpoint := Some v, t_observations := t_observations s @ [v]\<rparr>"

text \<open>
  \<open>observe\<close>. Where \<open>self.endpoint.remaining\<close> is read without a guard, a missing endpoint
  is the \<open>AttributeError\<close> the code would raise. \<open>fin\<close> says that the reading is a finite number.
\<close>

definition track_observe :: "bool \<Rightarrow> 'e observation \<Rightarrow> 'e tracking \<Rightarrow> pyerror + bool \<times> 'e tracking" where
  "track_observe fin v s0 =
    (if \<not> acceptable fin v s0 then Inr (False, s0)
     else
      (let prev = t_last s0; sl = same_limit prev v;
           (event, rs) = reset_observe (o_remaining v) (o_received_at v) (o_resets_at v)
                           (o_continuous v \<and> sl) (t_resets s0);
           s = s0\<lparr>t_resets := rs\<rparr>
       in case event of
         Some e \<Rightarrow> Inr (True, append_observation v (close_segment (By_reset e) True s))
       | None \<Rightarrow>
          if rt_recovering rs \<and> sl \<and> rises v s then
            Inr (True, s\<lparr>t_baseline := Some v, t_endpoint := Some v, t_last := Some v, t_observations := [v]\<rparr>)
          else if (case prev of None \<Rightarrow> False | Some l \<Rightarrow> \<not> same_epoch l v) then
            (if \<not> sl then Inr (True, append_observation v (close_segment Allowance_changed (same_account prev v) s))
             else if t_endpoint s = None then Inl AttributeError
             else if rises v s then Inr (True, append_observation v (close_segment Allowance_changed (same_account prev v) s))
             else Inr (True, append_observation v s))
          else if rises v s then Inr (True, append_observation v (close_segment Observation_gap True s))
          else Inr (True, append_observation v s)))"

fun track_all :: "'e tracking \<Rightarrow> (bool \<times> 'e observation) list \<Rightarrow> pyerror + 'e tracking" where
  "track_all s [] = Inr s"
| "track_all s ((fin, v) # vs) = bindE (track_observe fin v s) (\<lambda>(_, s'). track_all s' vs)"

section \<open>Facts on resets\<close>

definition reset_inv :: "reset_tracker \<Rightarrow> bool" where
  "reset_inv t = (rt_scheduled_at t = None \<or> rt_scheduled_at t \<noteq> rt_consumed_at t)"

lemmas reset_defs = note_decrease_def drop_history_def classify_increase_def adopt_schedule_def
  increased_def reset_inv_def

lemma reset_observe_inv: "reset_inv t \<Longrightarrow> reset_inv (snd (reset_observe r a s c t))"
  by (auto simp: reset_observe_def Let_def reset_defs split: option.splits prod.splits if_splits)

lemma classify_increase_event:
  assumes "classify_increase r a t = (Some e, t')"
  shows "increased r t \<and> \<not> rt_recovering t \<and> rt_recovering t' \<and>
    (e = Scheduled_reset \<longleftrightarrow> (\<exists>s. rt_scheduled_at t = Some s \<and> s \<le> a)) \<and>
    (e = Scheduled_reset \<longrightarrow> rt_consumed_at t' = rt_scheduled_at t)"
  using assms by (auto simp: classify_increase_def split: if_splits option.splits)

lemma note_decrease_fields [simp]:
  "rt_remaining (note_decrease r t) = rt_remaining t"
  "rt_scheduled_at (note_decrease r t) = rt_scheduled_at t"
  "rt_consumed_at (note_decrease r t) = rt_consumed_at t"
  by (simp_all add: note_decrease_def split: option.split)

lemma drop_history_True [simp]: "drop_history True t = t"
  by (simp add: drop_history_def)

lemma adopt_schedule_fields [simp]:
  "rt_recovering (adopt_schedule r s t) = rt_recovering t"
  "rt_consumed_at (adopt_schedule r s t) = rt_consumed_at t"
  by (simp_all add: adopt_schedule_def split: option.split)

lemma reset_event_cause:
  assumes "reset_observe r a s c t = (Some e, t')"
  shows "c \<and> (\<exists>r0. rt_remaining t = Some r0 \<and> r0 < r) \<and> \<not> rt_recovering t \<and> rt_recovering t' \<and>
    (e = Scheduled_reset \<longleftrightarrow> (\<exists>d. rt_scheduled_at t = Some d \<and> d \<le> a)) \<and>
    (e = Scheduled_reset \<longrightarrow> rt_consumed_at t' = rt_scheduled_at t)"
proof -
  let ?t1 = "note_decrease r (drop_history c t)"
  obtain t2 where ci: "classify_increase r a ?t1 = (Some e, t2)"
      and t': "t' = (adopt_schedule r (schedule_of s) t2)\<lparr>rt_remaining := Some r, rt_at := Some a\<rparr>"
    using assms by (auto simp: reset_observe_def Let_def split: prod.splits)
  note ev = classify_increase_event [OF ci]
  from ev have "increased r ?t1" by simp
  then have c: c and inc: "\<exists>r0. rt_remaining t = Some r0 \<and> r0 < r"
    by (auto simp: increased_def drop_history_def split: option.splits if_splits)
  from inc have "?t1 = t" using c by (auto simp: note_decrease_def drop_history_def)
  with ev t' c inc show ?thesis by simp
qed

text \<open>A deadline that was consumed by a scheduled reset is not scheduled again.\<close>

lemma scheduled_reset_consumes:
  assumes "reset_observe r a s c t = (Some Scheduled_reset, t')"
  shows "rt_scheduled_at t' \<noteq> rt_scheduled_at t"
proof -
  from reset_event_cause [OF assms] obtain d where d: "rt_scheduled_at t = Some d" "rt_consumed_at t' = Some d"
    by auto
  have "reset_inv t'"
  proof -
    obtain t2 where "classify_increase r a (note_decrease r (drop_history c t)) = (Some Scheduled_reset, t2)"
        "t' = (adopt_schedule r (schedule_of s) t2)\<lparr>rt_remaining := Some r, rt_at := Some a\<rparr>"
      using assms by (auto simp: reset_observe_def Let_def split: prod.splits)
    then show ?thesis
      by (auto simp: reset_inv_def classify_increase_def adopt_schedule_def split: if_splits option.splits)
  qed
  with d show ?thesis by (auto simp: reset_inv_def)
qed

section \<open>Invariant of the segments\<close>

text \<open>
  Within a segment the allowance never rises, sequence numbers grow and arrival times
  do not go back; the baseline and the endpoint are its first and last observation.
\<close>

definition follows :: "'e observation \<Rightarrow> 'e observation \<Rightarrow> bool" where
  "follows a b = (o_remaining b \<le> o_remaining a \<and> o_sequence a < o_sequence b \<and> o_received_at a \<le> o_received_at b)"

definition in_range :: "'e observation \<Rightarrow> bool" where
  "in_range v = (0 \<le> o_remaining v \<and> o_remaining v \<le> 100 \<and> o_requested_at v \<le> o_received_at v)"

definition segment_ok :: "'e observation list \<Rightarrow> bool" where
  "segment_ok vs = (sorted_wrt follows vs \<and> (\<forall>v \<in> set vs. in_range v))"

definition closed_ok :: "'e segment \<Rightarrow> bool" where
  "closed_ok g = (segment_ok (g_observations g) \<and> g_observations g \<noteq> [] \<and>
     g_start g = hd (g_observations g) \<and> g_end g = last (g_observations g))"

definition head_option :: "'a list \<Rightarrow> 'a option" where
  "head_option xs = (case xs of [] \<Rightarrow> None | x # _ \<Rightarrow> Some x)"

definition last_option :: "'a list \<Rightarrow> 'a option" where
  "last_option xs = (if xs = [] then None else Some (last xs))"

definition tracking_inv :: "'e tracking \<Rightarrow> bool" where
  "tracking_inv s = (t_baseline s = head_option (t_observations s) \<and>
     t_endpoint s = last_option (t_observations s) \<and> t_last s = last_option (t_observations s) \<and>
     segment_ok (t_observations s) \<and> (\<forall>g \<in> set (t_closed s). closed_ok g))"

lemma head_option_simps [simp]: "head_option [] = None" "head_option (x # xs) = Some x"
  by (simp_all add: head_option_def)

lemma last_option_simps [simp]: "last_option [] = None" "last_option (xs @ [x]) = Some x" "last_option [x] = Some x"
    "last_option (y # xs @ [x]) = Some x"
  by (simp_all add: last_option_def)

lemma tracking_init_inv: "tracking_inv (tracking_init a)"
  by (simp add: tracking_inv_def tracking_init_def segment_ok_def)

lemma tracking_inv_resets [simp]: "tracking_inv (s\<lparr>t_resets := r\<rparr>) = tracking_inv s"
  by (simp add: tracking_inv_def)

lemma close_segment_fields [simp]:
  "t_observations (close_segment r k s) = []" "t_baseline (close_segment r k s) = None"
  "t_endpoint (close_segment r k s) = None" "t_last (close_segment r k s) = None"
  by (simp_all add: close_segment_def Let_def)

lemma close_segment_inv:
  assumes "tracking_inv s"
  shows "tracking_inv (close_segment r k s)"
proof -
  have "\<forall>g \<in> set (t_closed (close_segment r k s)). closed_ok g"
  proof (cases "t_observations s")
    case Nil
    with assms show ?thesis by (auto simp: tracking_inv_def close_segment_def Let_def)
  next
    case (Cons v vs)
    with assms show ?thesis
      by (auto simp: tracking_inv_def close_segment_def Let_def closed_ok_def last_option_def)
  qed
  then show ?thesis by (simp add: tracking_inv_def segment_ok_def)
qed

lemma append_observation_inv:
  assumes inv: "tracking_inv s" and v: "in_range v"
    and f: "\<And>l. t_last s = Some l \<Longrightarrow> follows l v"
  shows "tracking_inv (append_observation v s)"
proof -
  have tr: "\<And>a b c. follows a b \<Longrightarrow> follows b c \<Longrightarrow> follows a c" by (auto simp: follows_def)
  have "\<forall>a \<in> set (t_observations s). follows a v"
  proof
    fix a assume a: "a \<in> set (t_observations s)"
    then obtain xs x where xs: "t_observations s = xs @ [x]" by (cases "t_observations s" rule: rev_cases) auto
    with inv have "t_last s = Some x" by (simp add: tracking_inv_def)
    then have "follows x v" by (rule f)
    moreover have "a = x \<or> follows a x"
      using inv a xs by (auto simp: tracking_inv_def segment_ok_def sorted_wrt_append)
    ultimately show "follows a v" using tr by blast
  qed
  then have "segment_ok (t_observations s @ [v])"
    using inv v by (simp add: tracking_inv_def segment_ok_def sorted_wrt_append)
  with inv show ?thesis
    by (cases "t_observations s") (auto simp: tracking_inv_def append_observation_def)
qed

lemma tracking_rises:
  assumes "tracking_inv s" and "t_last s = Some l"
  shows "rises v s = (o_remaining v > o_remaining l)"
proof -
  have "t_endpoint s = t_last s" using assms(1) by (simp add: tracking_inv_def)
  with assms(2) show ?thesis by (simp add: rises_def)
qed

lemma acceptable_follows:
  "acceptable fin v s \<Longrightarrow> t_last s = Some l \<Longrightarrow> \<not> o_remaining v > o_remaining l \<Longrightarrow> follows l v"
  by (auto simp: acceptable_def follows_def)

lemma acceptable_in_range: "acceptable fin v s \<Longrightarrow> in_range v"
  by (simp add: acceptable_def in_range_def)

lemma track_observe_inv:
  assumes inv: "tracking_inv s0"
  shows "\<exists>b s. track_observe fin v s0 = Inr (b, s) \<and> tracking_inv s \<and> b = acceptable fin v s0 \<and>
    (b \<longrightarrow> t_endpoint s = Some v) \<and> (\<not> b \<longrightarrow> s = s0)"
proof (cases "acceptable fin v s0")
  case False
  then have "track_observe fin v s0 = Inr (False, s0)" by (simp add: track_observe_def)
  with False inv show ?thesis by blast
next
  case acc: True
  let ?sl = "same_limit (t_last s0) v"
  obtain event rs where ro: "reset_observe (o_remaining v) (o_received_at v) (o_resets_at v)
      (o_continuous v \<and> ?sl) (t_resets s0) = (event, rs)" by fastforce
  let ?s = "s0\<lparr>t_resets := rs\<rparr>"
  have i: "tracking_inv ?s" using inv by simp
  have r: "in_range v" using acc by (rule acceptable_in_range)
  have closed: "tracking_inv (append_observation v (close_segment q k ?s))" for q k
    by (rule append_observation_inv [OF close_segment_inv [OF i] r]) simp
  have kept: "\<not> rises v ?s \<Longrightarrow> tracking_inv (append_observation v ?s)"
    using i r acc by (intro append_observation_inv) (auto simp: tracking_rises intro: acceptable_follows)
  have based: "tracking_inv (?s\<lparr>t_baseline := Some v, t_endpoint := Some v, t_last := Some v, t_observations := [v]\<rparr>)"
    using i r by (simp add: tracking_inv_def segment_ok_def)
  have ep: "t_endpoint ?s = None \<Longrightarrow> t_last s0 = None"
    using i by (simp add: tracking_inv_def)
  have e [simp]: "\<And>t. t_endpoint (append_observation v t) = Some v" by (simp add: append_observation_def)
  show ?thesis
    using acc ro closed kept based ep
    by (cases event) (auto simp: track_observe_def Let_def split: option.splits)
qed

lemma track_all_inv:
  assumes "tracking_inv s"
  shows "\<exists>s'. track_all s vs = Inr s' \<and> tracking_inv s'"
  using assms
proof (induction vs arbitrary: s)
  case (Cons w vs)
  obtain fin v where w: "w = (fin, v)" by fastforce
  from track_observe_inv [OF Cons.prems, of fin v] obtain b s1
    where "track_observe fin v s = Inr (b, s1)" "tracking_inv s1" by blast
  with Cons.IH w show ?case by simp
qed simp

lemma closed_consumption:
  assumes "closed_ok g"
  shows "0 \<le> o_remaining (g_start g) - o_remaining (g_end g) \<and> o_remaining (g_start g) - o_remaining (g_end g) \<le> 100"
proof -
  obtain v vs where vs: "g_observations g = v # vs" using assms by (cases "g_observations g") (auto simp: closed_ok_def)
  have "v = last (v # vs) \<or> follows v (last (v # vs))"
    using assms vs by (auto simp: closed_ok_def segment_ok_def)
  moreover have "in_range v" "in_range (last (v # vs))"
    using assms vs by (auto simp: closed_ok_def segment_ok_def)
  ultimately show ?thesis
    using assms vs by (auto simp: closed_ok_def follows_def in_range_def)
qed

section \<open>Further properties\<close>

text \<open>
  A reset is reported only for a continued series whose allowance rose while no recovery was under way; it is
  the scheduled one exactly when the known deadline has passed, and that deadline is then consumed and not
  reported again.
\<close>

theorem reset_has_cause:
  assumes "reset_observe r a s c t = (Some e, t')"
  shows "c \<and> (\<exists>r0. rt_remaining t = Some r0 \<and> r0 < r) \<and> \<not> rt_recovering t \<and> rt_recovering t' \<and>
    (e = Scheduled_reset) = (\<exists>d. rt_scheduled_at t = Some d \<and> d \<le> a) \<and>
    (e = Scheduled_reset \<longrightarrow> rt_consumed_at t' = rt_scheduled_at t \<and> rt_scheduled_at t' \<noteq> rt_scheduled_at t)"
  using reset_event_cause [OF assms] scheduled_reset_consumes [of r a s c t t'] assms by auto

theorem reset_has_cause_witness:
  "\<exists>t'. reset_observe 100 50 (PInt 0) True \<lparr>rt_remaining = Some 20, rt_at = Some 1, rt_scheduled_at = Some 40,
      rt_consumed_at = None, rt_recovering = False\<rparr> = (Some Scheduled_reset, t') \<and> rt_consumed_at t' = Some 40"
proof -
  let ?t = "\<lparr>rt_remaining = Some 20, rt_at = Some 1, rt_scheduled_at = Some 40, rt_consumed_at = None, rt_recovering = False\<rparr>"
  obtain t' where t': "reset_observe 100 50 (PInt 0) True ?t = (Some Scheduled_reset, t')"
    by (simp add: reset_observe_def reset_defs schedule_of_def)
  show ?thesis using reset_has_cause [OF t'] t' by auto
qed

section \<open>Claims\<close>

text \<open>
  C30: Any sequence of observations is tracked without an error, in the resulting state the open segment never
  rises and is within 0 to 100, and every closed segment consumed between 0 and 100 percent from its first to
  its last observation.
\<close>

theorem tracking_never_fails:
  "\<exists>s'. track_all (tracking_init a) vs = Inr s' \<and> tracking_inv s' \<and>
    list_all (\<lambda>g. closed_ok g \<and> 0 \<le> o_remaining (g_start g) - o_remaining (g_end g) \<and>
      o_remaining (g_start g) - o_remaining (g_end g) \<le> 100) (t_closed s')"
proof -
  obtain s' where "track_all (tracking_init a) vs = Inr s'" "tracking_inv s'"
    using track_all_inv [OF tracking_init_inv] by blast
  moreover have "list_all (\<lambda>g. closed_ok g \<and> 0 \<le> o_remaining (g_start g) - o_remaining (g_end g) \<and>
      o_remaining (g_start g) - o_remaining (g_end g) \<le> 100) (t_closed s')"
    using \<open>tracking_inv s'\<close> closed_consumption by (auto simp: tracking_inv_def list_all_iff)
  ultimately show ?thesis by blast
qed

end
