(* ===== verification/Transport.thy ===== *)
theory Transport
  imports Json
begin

text \<open>
  The local transport between the collector and its readers: \<open>cachemonitor/collection_transport.py\<close>.
  A connection is the bytes the peer sends, the bytes sent to it, and what the following
  calls of the socket do: \<open>Some n\<close> transfers at most \<open>n\<close> bytes (none: the peer has closed),
  \<open>None\<close> fails or comes after the deadline; calls beyond the list transfer all they can.
  HMAC-SHA256 and the printing of floating point numbers are parameters.
\<close>

section \<open>Connections\<close>

type_synonym bytes = string

datatype net_error = Net_os | Net_eof | Net_value string | Net_type | Net_struct

record connection =
  cn_in :: bytes
  cn_out :: bytes
  cn_events :: "nat option list"

definition CHUNK :: nat where "CHUNK = 1024 * 1024"
definition REQUEST_LIMIT :: nat where "REQUEST_LIMIT = 64 * 1024"

definition next_event :: "connection \<Rightarrow> nat option" where
  "next_event c = (case cn_events c of [] \<Rightarrow> Some CHUNK | e # es \<Rightarrow> e)"

definition recv :: "nat \<Rightarrow> connection \<Rightarrow> net_error + bytes \<times> connection" where
  "recv n c = (case next_event c of
      None \<Rightarrow> Inl Net_os
    | Some k \<Rightarrow> let m = min k n
        in Inr (take m (cn_in c), c\<lparr>cn_in := drop m (cn_in c), cn_events := tl (cn_events c)\<rparr>))"

text \<open>\<open>_receive\<close>: the loop ends because every piece it goes on with is not empty.\<close>

function receive :: "nat \<Rightarrow> connection \<Rightarrow> net_error + bytes \<times> connection" where
  "receive need c =
    (if need = 0 then Inr ([], c)
     else bindE (recv (min need CHUNK) c) (\<lambda>(chunk, c1).
       if chunk = [] then Inl Net_eof
       else bindE (receive (need - length chunk) c1) (\<lambda>(rest, c2). Inr (chunk @ rest, c2))))"
  by pat_completeness auto

termination
  by (relation "measure fst") auto

declare receive.simps [simp del]

function send_all :: "bytes \<Rightarrow> connection \<Rightarrow> net_error + connection" where
  "send_all v c =
    (if v = [] then Inr c
     else case next_event c of
            None \<Rightarrow> Inl Net_os
          | Some k \<Rightarrow> (let n = min k (min CHUNK (length v))
              in if n = 0 then Inl Net_eof
                 else send_all (drop n v) (c\<lparr>cn_out := cn_out c @ take n v, cn_events := tl (cn_events c)\<rparr>)))"
  by pat_completeness auto

termination
  by (relation "measure (length \<circ> fst)") auto

declare send_all.simps [simp del]

section \<open>Frames\<close>

text \<open>\<open>struct.pack('!Q', n)\<close>: eight bytes, the most significant first.\<close>

fun big_endian :: "nat \<Rightarrow> nat \<Rightarrow> bytes" where
  "big_endian 0 n = []"
| "big_endian (Suc k) n = big_endian k (n div 256) @ [char_of n]"

definition number_of :: "bytes \<Rightarrow> nat" where
  "number_of b = foldl (\<lambda>n c. 256 * n + of_char c) 0 b"

definition frame :: "bytes \<Rightarrow> connection \<Rightarrow> net_error + connection" where
  "frame v c = (if length v \<ge> 2 ^ 64 then Inl Net_struct
     else bindE (send_all (big_endian 8 (length v)) c) (send_all v))"

definition read_frame :: "nat option \<Rightarrow> connection \<Rightarrow> net_error + bytes \<times> connection" where
  "read_frame limit c = bindE (receive 8 c) (\<lambda>(h, c1).
     if (case limit of None \<Rightarrow> False | Some l \<Rightarrow> number_of h > l) then Inl (Net_value ''Collection request exceeds its limit'')
     else receive (number_of h) c1)"

section \<open>The two ends of a connection\<close>

record runtime =
  rn_mac :: "bytes \<Rightarrow> bytes \<Rightarrow> bytes"        \<comment> \<open>the key, the message\<close>
  rn_read :: "string \<Rightarrow> pyval"
  rn_print :: "rat \<Rightarrow> string"

definition json_bytes :: "runtime \<Rightarrow> pyval \<Rightarrow> bytes" where
  "json_bytes rn v = utf8 (dumps False (rn_print rn) v)"

definition signature :: "runtime \<Rightarrow> bytes \<Rightarrow> bytes list \<Rightarrow> bytes" where
  "signature rn token chunks = rn_mac rn token (concat chunks)"

text \<open>
  \<open>LiveServer._handle\<close>: what the handler was called with, and how the connection ended. The
  handler answers with the metadata and the body, or raises.
\<close>

definition read_request :: "bytes \<Rightarrow> connection \<Rightarrow> net_error + bytes \<times> bytes \<times> connection" where
  "read_request nonce c = bindE (send_all nonce c) (\<lambda>c1. bindE (receive 32 c1) (\<lambda>(sig, c2).
     bindE (read_frame (Some REQUEST_LIMIT) c2) (\<lambda>(encoded, c3). Inr (sig, encoded, c3))))"

definition answer :: "runtime \<Rightarrow> bytes \<Rightarrow> bytes \<Rightarrow> pyval \<Rightarrow> bytes \<Rightarrow> connection \<Rightarrow> net_error + connection" where
  "answer rn token nonce metadata body c =
    (let encoded = json_bytes rn metadata
     in bindE (send_all (signature rn token [nonce, encoded, body]) c) (\<lambda>c1.
        bindE (frame encoded c1) (frame body)))"

definition handle :: "runtime \<Rightarrow> bytes \<Rightarrow> bytes \<Rightarrow> (pydict \<Rightarrow> net_error + pyval \<times> bytes) \<Rightarrow> connection \<Rightarrow>
    pydict option \<times> (net_error + connection)" where
  "handle rn token nonce handler c = (case read_request nonce c of
      Inl e \<Rightarrow> (None, Inl e)
    | Inr (sig, encoded, c3) \<Rightarrow>
        if sig \<noteq> signature rn token [nonce, encoded] then (None, Inr c3)
        else case loads_bytes (rn_read rn) encoded of
            None \<Rightarrow> (None, Inl (Net_value ''JSON''))
          | Some (PDict req) \<Rightarrow>
              (Some req, bindE (handler req) (\<lambda>(metadata, body). answer rn token nonce metadata body c3))
          | Some _ \<Rightarrow> (None, Inr c3))"

text \<open>One exchange of \<open>request\<close>, from the nonce on.\<close>

definition ask :: "runtime \<Rightarrow> bytes \<Rightarrow> bytes \<Rightarrow> nat option \<Rightarrow> nat option \<Rightarrow> connection \<Rightarrow>
    net_error + (pyval \<times> bytes) \<times> connection" where
  "ask rn token encoded metadata_limit body_limit c =
    bindE (receive 32 c) (\<lambda>(nonce, c1). bindE (send_all (signature rn token [nonce, encoded]) c1) (\<lambda>c2.
    bindE (frame encoded c2) (\<lambda>c3. bindE (receive 32 c3) (\<lambda>(sig, c4).
    bindE (read_frame metadata_limit c4) (\<lambda>(metadata, c5). bindE (read_frame body_limit c5) (\<lambda>(body, c6).
      if sig \<noteq> signature rn token [nonce, metadata, body]
      then Inl (Net_value ''Collection response authentication failed'')
      else case loads_bytes (rn_read rn) metadata of
          None \<Rightarrow> Inl (Net_value ''JSON'')
        | Some v \<Rightarrow> Inr ((v, body), c6)))))))"

section \<open>Pieces do not matter\<close>

definition flows :: "connection \<Rightarrow> bool" where
  "flows c = list_all (\<lambda>e. case e of None \<Rightarrow> False | Some n \<Rightarrow> n > 0) (cn_events c)"

lemma flows_event: "flows c \<Longrightarrow> \<exists>k. next_event c = Some k \<and> k > 0"
  by (cases "cn_events c") (auto simp: flows_def next_event_def CHUNK_def split: option.splits)

lemma receive_0 [simp]: "receive 0 c = Inr ([], c)"
  by (simp add: receive.simps)

lemma recv_sound:
  assumes "recv n c = Inr (x, c')"
  shows "\<exists>m \<le> n. x = take m (cn_in c) \<and> cn_in c' = drop m (cn_in c) \<and> cn_out c' = cn_out c"
proof -
  from assms obtain k where k: "next_event c = Some k" by (auto simp: recv_def split: option.splits)
  with assms show ?thesis by (intro exI [of _ "min k n"]) (auto simp: recv_def Let_def)
qed

lemma receive_sound:
  "receive n c = Inr (x, c') \<Longrightarrow> x = take n (cn_in c) \<and> length x = n \<and> cn_in c' = drop n (cn_in c) \<and> cn_out c' = cn_out c"
proof (induction n c arbitrary: x c' rule: receive.induct)
  case (1 need c)
  show ?case
  proof (cases "need = 0")
    case False
    with 1(2) obtain chunk c1 where r: "recv (min need CHUNK) c = Inr (chunk, c1)" and n: "chunk \<noteq> []"
      and b: "bindE (receive (need - length chunk) c1) (\<lambda>(rest, c2). Inr (chunk @ rest, c2)) = Inr (x, c')"
      by (subst (asm) receive.simps) (auto simp: bindE_Inr_conv split: if_splits)
    from b obtain rest where rest: "receive (need - length chunk) c1 = Inr (rest, c')" "x = chunk @ rest"
      by (auto simp: bindE_Inr_conv)
    from recv_sound [OF r] obtain m where m: "m \<le> need" "chunk = take m (cn_in c)" "cn_in c1 = drop m (cn_in c)" "cn_out c1 = cn_out c"
      by auto
    note IH = 1(1) [OF False r refl n rest(1)]
    have l: "length chunk = min m (length (cn_in c))" using m(2) by simp
    show ?thesis
    proof (cases "m \<le> length (cn_in c)")
      case True
      have "min (length (cn_in c) - m) (need - m) = need - m"
        using IH m(3) l True by (metis length_drop length_take min.absorb1 min.commute)
      then have "need \<le> length (cn_in c)" using True m(1) by simp
      with IH m rest(2) l True show ?thesis by (simp add: take_add [symmetric] add.commute)
    next
      case False
      with IH m l have "length rest = 0" by auto
      with IH m l False rest(2) show ?thesis by auto
    qed
  qed (use 1(2) in simp)
qed


lemma receive_flows:
  "flows c \<Longrightarrow> n \<le> length (cn_in c) \<Longrightarrow>
    \<exists>es. receive n c = Inr (take n (cn_in c), c\<lparr>cn_in := drop n (cn_in c), cn_events := es\<rparr>) \<and> flows (c\<lparr>cn_events := es\<rparr>)"
proof (induction n c rule: receive.induct)
  case (1 need c)
  show ?case
  proof (cases "need = 0")
    case True
    then show ?thesis using 1(2) by (intro exI [of _ "cn_events c"]) simp
  next
    case False
    obtain k where k: "next_event c = Some k" "k > 0" using flows_event [OF 1(2)] by blast
    let ?m = "min k (min need CHUNK)"
    have m: "0 < ?m" "?m \<le> need" using k False by (auto simp: CHUNK_def)
    let ?c1 = "c\<lparr>cn_in := drop ?m (cn_in c), cn_events := tl (cn_events c)\<rparr>"
    have r: "recv (min need CHUNK) c = Inr (take ?m (cn_in c), ?c1)" by (simp add: recv_def k Let_def)
    have l: "length (take ?m (cn_in c)) = ?m" using m(2) 1(3) by simp
    then have ne: "take ?m (cn_in c) \<noteq> []" using m(1) by force
    have fl: "flows ?c1" using 1(2) by (cases "cn_events c") (simp_all add: flows_def)
    have le: "need - length (take ?m (cn_in c)) \<le> length (cn_in ?c1)" using 1(3) l by simp
    from 1(1) [OF False r refl ne fl le] obtain es where
      es: "receive (need - ?m) ?c1 = Inr (take (need - ?m) (cn_in ?c1), ?c1\<lparr>cn_in := drop (need - ?m) (cn_in ?c1), cn_events := es\<rparr>)"
        "flows (?c1\<lparr>cn_events := es\<rparr>)"
      unfolding l by blast
    have "receive need c = Inr (take ?m (cn_in c) @ take (need - ?m) (drop ?m (cn_in c)),
        c\<lparr>cn_in := drop (need - ?m) (drop ?m (cn_in c)), cn_events := es\<rparr>)"
      by (subst receive.simps) (simp only: r bindE_simps prod.case ne False if_False l es(1), simp)
    moreover have "take ?m (cn_in c) @ take (need - ?m) (drop ?m (cn_in c)) = take need (cn_in c)"
      using m(2) by (metis le_add_diff_inverse take_add)
    moreover have "drop (need - ?m) (drop ?m (cn_in c)) = drop need (cn_in c)" using m(2) by simp
    moreover have "flows (c\<lparr>cn_events := es\<rparr>)" using es(2) by (simp add: flows_def)
    ultimately show ?thesis by (intro exI [of _ es]) simp
  qed
qed

lemma send_sound:
  "send_all v c = Inr c' \<Longrightarrow> cn_out c' = cn_out c @ v \<and> cn_in c' = cn_in c"
proof (induction v c arbitrary: c' rule: send_all.induct)
  case (1 v c)
  show ?case
  proof (cases "v = []")
    case True
    with 1(2) show ?thesis by (simp add: send_all.simps)
  next
    case False
    with 1(2) obtain k where k: "next_event c = Some k"
      by (subst (asm) send_all.simps) (auto split: option.splits)
    let ?n = "min k (min CHUNK (length v))"
    from 1(2) False k have n: "?n \<noteq> 0" and r: "send_all (drop ?n v) (c\<lparr>cn_out := cn_out c @ take ?n v, cn_events := tl (cn_events c)\<rparr>) = Inr c'"
      by (auto simp: send_all.simps [of v] Let_def split: if_splits)
    from 1(1) [OF False k refl n r] show ?thesis by simp
  qed
qed

lemma send_flows:
  "flows c \<Longrightarrow> \<exists>es. send_all v c = Inr (c\<lparr>cn_out := cn_out c @ v, cn_events := es\<rparr>) \<and> flows (c\<lparr>cn_events := es\<rparr>)"
proof (induction v c rule: send_all.induct)
  case (1 v c)
  show ?case
  proof (cases "v = []")
    case True
    then show ?thesis using 1(2) by (intro exI [of _ "cn_events c"]) (simp add: send_all.simps)
  next
    case False
    obtain k where k: "next_event c = Some k" "k > 0" using flows_event [OF 1(2)] by blast
    let ?n = "min k (min CHUNK (length v))"
    have n: "?n \<noteq> 0" using k False by (auto simp: CHUNK_def)
    let ?c1 = "c\<lparr>cn_out := cn_out c @ take ?n v, cn_events := tl (cn_events c)\<rparr>"
    have "flows ?c1" using 1(2) by (cases "cn_events c") (simp_all add: flows_def)
    from 1(1) [OF False k(1) refl n this] obtain es where es: "send_all (drop ?n v) ?c1 =
        Inr (?c1\<lparr>cn_out := cn_out ?c1 @ drop ?n v, cn_events := es\<rparr>)" "flows (?c1\<lparr>cn_events := es\<rparr>)"
      by blast
    have "send_all v c = send_all (drop ?n v) ?c1"
      by (subst send_all.simps) (simp only: False if_False k option.case Let_def n)
    with es show ?thesis by (intro exI [of _ es]) (simp add: flows_def)
  qed
qed

section \<open>Frames round trip\<close>

lemma length_big_endian [simp]: "length (big_endian k n) = k"
  by (induction k n rule: big_endian.induct) simp_all

lemma number_of_snoc [simp]: "number_of (b @ [c]) = 256 * number_of b + of_char c"
  by (simp add: number_of_def)

lemma number_of_big_endian: "n < 256 ^ k \<Longrightarrow> number_of (big_endian k n) = n"
proof (induction k n rule: big_endian.induct)
  case (2 k n)
  have "n div 256 < 256 ^ k" using 2(2) by (simp add: div_less_iff_less_mult mult.commute)
  with 2(1) show ?case by simp
qed (simp add: number_of_def)

text \<open>What a step leaves when nothing is lost: the same connection with some events used up.\<close>

definition moves :: "bytes \<Rightarrow> bytes \<Rightarrow> connection \<Rightarrow> bool" where
  "moves i out c' = (cn_in c' = i \<and> cn_out c' = out \<and> flows c')"

lemma receive_moves:
  assumes "flows c" and "cn_in c = x @ y"
  shows "\<exists>c'. receive (length x) c = Inr (x, c') \<and> moves y (cn_out c) c'"
proof -
  obtain es where es: "receive (length x) c = Inr (take (length x) (cn_in c), c\<lparr>cn_in := drop (length x) (cn_in c), cn_events := es\<rparr>)"
    "flows (c\<lparr>cn_events := es\<rparr>)" using receive_flows [OF assms(1), of "length x"] assms(2) by auto
  with assms(2) show ?thesis by (auto simp: moves_def flows_def)
qed

lemma send_moves:
  assumes "flows c"
  shows "\<exists>c'. send_all v c = Inr c' \<and> moves (cn_in c) (cn_out c @ v) c'"
proof -
  obtain es where "send_all v c = Inr (c\<lparr>cn_out := cn_out c @ v, cn_events := es\<rparr>)" "flows (c\<lparr>cn_events := es\<rparr>)"
    using send_flows [OF assms] by blast
  then show ?thesis by (auto simp: moves_def flows_def)
qed

definition framed :: "bytes \<Rightarrow> bytes" where
  "framed v = big_endian 8 (length v) @ v"

lemma frame_moves:
  assumes "flows c" and "length v < 2 ^ 64"
  shows "\<exists>c'. frame v c = Inr c' \<and> moves (cn_in c) (cn_out c @ framed v) c'"
proof -
  obtain c1 where c1: "send_all (big_endian 8 (length v)) c = Inr c1" "moves (cn_in c) (cn_out c @ big_endian 8 (length v)) c1"
    using send_moves [OF assms(1)] by blast
  then have "flows c1" by (simp add: moves_def)
  from send_moves [OF this, of v] c1 assms(2) show ?thesis by (auto simp: frame_def framed_def moves_def)
qed

lemma read_frame_moves:
  assumes "flows c" and "cn_in c = framed v @ y" and "length v < 2 ^ 64" and "case limit of None \<Rightarrow> True | Some l \<Rightarrow> length v \<le> l"
  shows "\<exists>c'. read_frame limit c = Inr (v, c') \<and> moves y (cn_out c) c'"
proof -
  have "cn_in c = big_endian 8 (length v) @ v @ y" using assms(2) by (simp add: framed_def)
  from receive_moves [OF assms(1) this] obtain c1 where c1: "receive 8 c = Inr (big_endian 8 (length v), c1)" "moves (v @ y) (cn_out c) c1"
    by auto
  then have "flows c1" "cn_in c1 = v @ y" by (simp_all add: moves_def)
  from receive_moves [OF this] obtain c2 where c2: "receive (length v) c1 = Inr (v, c2)" "moves y (cn_out c1) c2" by blast
  have "number_of (big_endian 8 (length v)) = length v" using assms(3) by (intro number_of_big_endian) simp
  with c1 c2 assms(4) show ?thesis by (auto simp: read_frame_def moves_def split: option.splits)
qed

section \<open>One exchange\<close>

definition request_bytes :: "runtime \<Rightarrow> bytes \<Rightarrow> bytes \<Rightarrow> bytes \<Rightarrow> bytes" where
  "request_bytes rn token nonce encoded = signature rn token [nonce, encoded] @ framed encoded"

definition response_bytes :: "runtime \<Rightarrow> bytes \<Rightarrow> bytes \<Rightarrow> bytes \<Rightarrow> bytes \<Rightarrow> bytes" where
  "response_bytes rn token nonce metadata body = signature rn token [nonce, metadata, body] @ framed metadata @ framed body"

lemma handle_exchange:
  assumes c: "flows c" "cn_in c = request_bytes rn token nonce encoded @ rest"
    and mac: "\<And>m. length (rn_mac rn token m) = 32" and e: "length encoded \<le> REQUEST_LIMIT"
    and req: "loads_bytes (rn_read rn) encoded = Some (PDict req)" and h: "handler req = Inr (metadata, body)"
    and l: "length (json_bytes rn metadata) < 2 ^ 64" "length body < 2 ^ 64"
  shows "\<exists>c'. handle rn token nonce handler c = (Some req, Inr c') \<and>
    moves rest (cn_out c @ nonce @ response_bytes rn token nonce (json_bytes rn metadata) body) c'"
proof -
  obtain c1 where c1: "send_all nonce c = Inr c1" "moves (cn_in c) (cn_out c @ nonce) c1" using send_moves [OF c(1)] by blast
  have "flows c1" "cn_in c1 = signature rn token [nonce, encoded] @ framed encoded @ rest"
    using c1 c(2) by (simp_all add: moves_def request_bytes_def)
  from receive_moves [OF this] obtain c2 where
    c2: "receive 32 c1 = Inr (signature rn token [nonce, encoded], c2)" "moves (framed encoded @ rest) (cn_out c1) c2"
    by (auto simp: signature_def mac)
  have "length encoded < 2 ^ 64" using e by (simp add: REQUEST_LIMIT_def)
  moreover have "flows c2" "cn_in c2 = framed encoded @ rest" using c2 by (simp_all add: moves_def)
  ultimately obtain c3 where c3: "read_frame (Some REQUEST_LIMIT) c2 = Inr (encoded, c3)" "moves rest (cn_out c2) c3"
    using read_frame_moves [of c2 encoded rest "Some REQUEST_LIMIT"] e by auto
  have r: "read_request nonce c = Inr (signature rn token [nonce, encoded], encoded, c3)"
    by (simp add: read_request_def c1 c2 c3)
  let ?m = "json_bytes rn metadata"
  have "flows c3" using c3 by (simp add: moves_def)
  from send_moves [OF this] obtain c4 where
    c4: "send_all (signature rn token [nonce, ?m, body]) c3 = Inr c4"
      "moves (cn_in c3) (cn_out c3 @ signature rn token [nonce, ?m, body]) c4" by blast
  then have "flows c4" by (simp add: moves_def)
  from frame_moves [OF this l(1)] obtain c5 where c5: "frame ?m c4 = Inr c5" "moves (cn_in c4) (cn_out c4 @ framed ?m) c5" by blast
  then have "flows c5" by (simp add: moves_def)
  from frame_moves [OF this l(2)] obtain c6 where c6: "frame body c5 = Inr c6" "moves (cn_in c5) (cn_out c5 @ framed body) c6" by blast
  have "handle rn token nonce handler c = (Some req, Inr c6)"
    by (simp add: handle_def r req h answer_def Let_def c4 c5 c6)
  moreover have "moves rest (cn_out c @ nonce @ response_bytes rn token nonce ?m body) c6"
    using c1 c2 c3 c4 c5 c6 by (simp add: moves_def response_bytes_def)
  ultimately show ?thesis by blast
qed

lemma ask_exchange:
  assumes c: "flows c" "cn_in c = nonce @ response_bytes rn token nonce metadata body @ rest"
    and n: "length nonce = 32" and mac: "\<And>m. length (rn_mac rn token m) = 32"
    and l: "length encoded < 2 ^ 64" "length metadata < 2 ^ 64" "length body < 2 ^ 64"
    and lim: "case ml of None \<Rightarrow> True | Some x \<Rightarrow> length metadata \<le> x" "case bl of None \<Rightarrow> True | Some x \<Rightarrow> length body \<le> x"
    and v: "loads_bytes (rn_read rn) metadata = Some v"
  shows "\<exists>c'. ask rn token encoded ml bl c = Inr ((v, body), c') \<and>
    moves rest (cn_out c @ request_bytes rn token nonce encoded) c'"
proof -
  let ?sig = "signature rn token [nonce, metadata, body]"
  from receive_moves [OF c] obtain c1 where c1: "receive 32 c = Inr (nonce, c1)"
    "moves (response_bytes rn token nonce metadata body @ rest) (cn_out c) c1" using n by auto
  then have "flows c1" by (simp add: moves_def)
  from send_moves [OF this] obtain c2 where c2: "send_all (signature rn token [nonce, encoded]) c1 = Inr c2"
    "moves (cn_in c1) (cn_out c1 @ signature rn token [nonce, encoded]) c2" by blast
  then have "flows c2" by (simp add: moves_def)
  from frame_moves [OF this l(1)] obtain c3 where c3: "frame encoded c2 = Inr c3" "moves (cn_in c2) (cn_out c2 @ framed encoded) c3"
    by blast
  have "flows c3" "cn_in c3 = ?sig @ framed metadata @ framed body @ rest"
    using c1 c2 c3 by (simp_all add: moves_def response_bytes_def)
  from receive_moves [OF this] obtain c4 where c4: "receive 32 c3 = Inr (?sig, c4)" "moves (framed metadata @ framed body @ rest) (cn_out c3) c4"
    by (auto simp: signature_def mac)
  have "flows c4" "cn_in c4 = framed metadata @ framed body @ rest" using c4 by (simp_all add: moves_def)
  from read_frame_moves [OF this l(2) lim(1)] obtain c5 where
    c5: "read_frame ml c4 = Inr (metadata, c5)" "moves (framed body @ rest) (cn_out c4) c5" by blast
  have "flows c5" "cn_in c5 = framed body @ rest" using c5 by (simp_all add: moves_def)
  from read_frame_moves [OF this l(3) lim(2)] obtain c6 where
    c6: "read_frame bl c5 = Inr (body, c6)" "moves rest (cn_out c5) c6" by blast
  have "ask rn token encoded ml bl c = Inr ((v, body), c6)"
    by (simp add: ask_def c1 c2 c3 c4 c5 c6 v)
  moreover have "moves rest (cn_out c @ request_bytes rn token nonce encoded) c6"
    using c1 c2 c3 c4 c5 c6 by (simp add: moves_def request_bytes_def)
  ultimately show ?thesis by blast
qed

section \<open>Signatures are required\<close>

lemma read_frame_sound:
  assumes "read_frame limit c = Inr (v, c')"
  shows "\<exists>h y. cn_in c = h @ v @ y \<and> length h = 8 \<and> number_of h = length v \<and> cn_in c' = y \<and> cn_out c' = cn_out c \<and>
    (\<forall>l. limit = Some l \<longrightarrow> length v \<le> l)"
proof -
  from assms obtain h c1 where h: "receive 8 c = Inr (h, c1)" "receive (number_of h) c1 = Inr (v, c')"
    and l: "\<forall>l. limit = Some l \<longrightarrow> number_of h \<le> l"
    by (cases limit) (auto simp: read_frame_def bindE_Inr_conv not_less split: if_splits)
  from receive_sound [OF h(1)] have 1: "h = take 8 (cn_in c)" "length h = 8" "cn_in c1 = drop 8 (cn_in c)" "cn_out c1 = cn_out c" by auto
  from receive_sound [OF h(2)] have 2: "v = take (number_of h) (cn_in c1)" "length v = number_of h"
    "cn_in c' = drop (number_of h) (cn_in c1)" "cn_out c' = cn_out c1" by auto
  have "cn_in c = take 8 (cn_in c) @ take (number_of h) (drop 8 (cn_in c)) @ drop (number_of h) (drop 8 (cn_in c))"
    by (metis append_take_drop_id)
  with 1 2 l show ?thesis by metis
qed

lemma read_request_sound:
  assumes "read_request nonce c = Inr (sig, encoded, c')"
  shows "\<exists>h y. cn_in c = sig @ h @ encoded @ y \<and> length sig = 32 \<and> length h = 8 \<and> number_of h = length encoded \<and>
    length encoded \<le> REQUEST_LIMIT"
proof -
  from assms obtain c1 c2 where s: "send_all nonce c = Inr c1" "receive 32 c1 = Inr (sig, c2)"
    "read_frame (Some REQUEST_LIMIT) c2 = Inr (encoded, c')"
    by (auto simp: read_request_def bindE_Inr_conv)
  have i: "cn_in c1 = cn_in c" using send_sound [OF s(1)] by simp
  from receive_sound [OF s(2)] have 2: "sig = take 32 (cn_in c)" "length sig = 32" "cn_in c2 = drop 32 (cn_in c)" by (auto simp: i)
  from read_frame_sound [OF s(3)] obtain h y where 3: "cn_in c2 = h @ encoded @ y" "length h = 8" "number_of h = length encoded"
    "length encoded \<le> REQUEST_LIMIT" by auto
  have "cn_in c = take 32 (cn_in c) @ drop 32 (cn_in c)" by simp
  then have "cn_in c = sig @ h @ encoded @ y" using 2 3(1) by metis
  with 2(2) 3 show ?thesis by blast
qed

lemma handle_authentic:
  assumes "fst (handle rn token nonce handler c) = Some req"
  shows "\<exists>h encoded y. cn_in c = signature rn token [nonce, encoded] @ h @ encoded @ y \<and> length h = 8 \<and>
    number_of h = length encoded \<and> length encoded \<le> REQUEST_LIMIT \<and> loads_bytes (rn_read rn) encoded = Some (PDict req)"
proof -
  from assms obtain sig encoded c' where r: "read_request nonce c = Inr (sig, encoded, c')"
    and s: "sig = signature rn token [nonce, encoded]" and l: "loads_bytes (rn_read rn) encoded = Some (PDict req)"
    by (auto simp: handle_def split: sum.splits if_splits option.splits pyval.splits)
  from read_request_sound [OF r] s l show ?thesis by blast
qed

lemma ask_authentic:
  assumes "ask rn token encoded ml bl c = Inr ((v, body), c')"
  shows "\<exists>nonce metadata h h' y. cn_in c = nonce @ signature rn token [nonce, metadata, body] @ h @ metadata @ h' @ body @ y \<and>
    length nonce = 32 \<and> length h = 8 \<and> length h' = 8 \<and> number_of h = length metadata \<and> number_of h' = length body \<and>
    (\<forall>l. ml = Some l \<longrightarrow> length metadata \<le> l) \<and> (\<forall>l. bl = Some l \<longrightarrow> length body \<le> l) \<and>
    loads_bytes (rn_read rn) metadata = Some v"
proof -
  from assms obtain nonce c1 c2 c3 sig c4 metadata c5 where
    1: "receive 32 c = Inr (nonce, c1)" and 2: "send_all (signature rn token [nonce, encoded]) c1 = Inr c2"
    and 3: "frame encoded c2 = Inr c3" and 4: "receive 32 c3 = Inr (sig, c4)" and 5: "read_frame ml c4 = Inr (metadata, c5)"
    and 6: "read_frame bl c5 = Inr (body, c')" and sig: "sig = signature rn token [nonce, metadata, body]"
    and v: "loads_bytes (rn_read rn) metadata = Some v"
    by (auto simp: ask_def bindE_Inr_conv split: if_splits option.splits)
  from receive_sound [OF 1] have n: "nonce = take 32 (cn_in c)" "length nonce = 32" "cn_in c1 = drop 32 (cn_in c)" by auto
  have i2: "cn_in c2 = cn_in c1" using send_sound [OF 2] by simp
  have i3: "cn_in c3 = cn_in c2" using 3 send_sound by (fastforce simp: frame_def bindE_Inr_conv split: if_splits)
  from receive_sound [OF 4] have s: "sig = take 32 (cn_in c1)" "cn_in c4 = drop 32 (cn_in c1)" by (auto simp: i2 i3)
  from read_frame_sound [OF 5] obtain h y where m: "cn_in c4 = h @ metadata @ y" "length h = 8" "number_of h = length metadata"
    "cn_in c5 = y" "\<forall>l. ml = Some l \<longrightarrow> length metadata \<le> l" by auto
  from read_frame_sound [OF 6] obtain h' z where b: "cn_in c5 = h' @ body @ z" "length h' = 8" "number_of h' = length body"
    "\<forall>l. bl = Some l \<longrightarrow> length body \<le> l" by auto
  have "cn_in c = nonce @ cn_in c1" using n by (metis append_take_drop_id)
  also have "cn_in c1 = sig @ cn_in c4" using s by (metis append_take_drop_id)
  finally have "cn_in c = nonce @ sig @ h @ metadata @ h' @ body @ z" using m b by simp
  with n(2) m b sig v show ?thesis by blast
qed

section \<open>Requests and the discovery file\<close>

definition PIPE_PREFIX :: string where
  "PIPE_PREFIX = [CHR 0x5C, CHR 0x5C, CHR ''.'', CHR 0x5C] @ ''pipe'' @ [CHR 0x5C] @ ''Codexon-collection-''"

text \<open>\<open>_valid_endpoint\<close>; \<open>nt\<close> tells whether the system is Windows.\<close>

definition valid_endpoint :: "bool \<Rightarrow> pyval \<Rightarrow> bool" where
  "valid_endpoint nt v = (case v of
      PDict d \<Rightarrow> (case dget d ''token'' of
          PStr _ \<Rightarrow> (case map_of d ''pipe'' of
              Some p \<Rightarrow> nt \<and> (case p of
                  PStr name \<Rightarrow> take (length PIPE_PREFIX) name = PIPE_PREFIX \<and> length name = length PIPE_PREFIX + 32 \<and>
                    list_all (\<lambda>c. c \<in> set ''0123456789abcdef'') (drop (length PIPE_PREFIX) name)
                | _ \<Rightarrow> False)
            | None \<Rightarrow> (case dget d ''port'' of PInt i \<Rightarrow> 0 < i \<and> i < 65536 | _ \<Rightarrow> False))
        | _ \<Rightarrow> False)
    | _ \<Rightarrow> False)"

text \<open>\<open>bytes.fromhex\<close>: pairs of digits, with white space between them.\<close>

fun from_hex :: "string \<Rightarrow> bytes option" where
  "from_hex [] = Some []"
| "from_hex (c # s) =
    (if is_blank c \<or> c = CHR 0x0B \<or> c = CHR 0x0C then from_hex s
     else case s of
         [] \<Rightarrow> None
       | d # t \<Rightarrow> (case (hex_value c, hex_value d) of
             (Some x, Some y) \<Rightarrow> map_option ((#) (char_of (x * 16 + y))) (from_hex t)
           | _ \<Rightarrow> None))"

definition token_of :: "pyval \<Rightarrow> bytes option" where
  "token_of e = (case e of PDict d \<Rightarrow> (case dget d ''token'' of PStr s \<Rightarrow> from_hex s | _ \<Rightarrow> None) | _ \<Rightarrow> None)"

text \<open>What the machine does in the attempts of one request.\<close>

record world =
  wo_nt :: bool
  wo_discovery :: "nat \<Rightarrow> net_error + pyval"
  wo_connect :: "nat \<Rightarrow> pyval \<Rightarrow> net_error + connection"
  wo_late :: "nat \<Rightarrow> bool"
  wo_cancelled :: "nat \<Rightarrow> bool"

datatype attempt_result = Answer pyval bytes | No_answer | Failed

definition talk :: "runtime \<Rightarrow> world \<Rightarrow> bytes \<Rightarrow> nat option \<Rightarrow> nat option \<Rightarrow> nat \<Rightarrow> pyval \<Rightarrow> attempt_result" where
  "talk rn w encoded ml bl k e = (case token_of e of
      None \<Rightarrow> Failed
    | Some token \<Rightarrow>
        if length token \<noteq> 32 then No_answer
        else case bindE (wo_connect w k e) (ask rn token encoded ml bl) of
            Inl _ \<Rightarrow> Failed
          | Inr ((v, body), _) \<Rightarrow> Answer v body)"

text \<open>One attempt: the result, the cached endpoint, and the endpoint the attempt used.\<close>

definition attempt_once :: "runtime \<Rightarrow> world \<Rightarrow> bytes \<Rightarrow> nat option \<Rightarrow> nat option \<Rightarrow> nat \<Rightarrow> pyval option \<Rightarrow> pyval option \<Rightarrow>
    attempt_result \<times> pyval option \<times> pyval option" where
  "attempt_once rn w encoded ml bl k endpoint cache = (case endpoint of
      Some e \<Rightarrow> (talk rn w encoded ml bl k e, cache, Some e)
    | None \<Rightarrow> (case wo_discovery w k of
          Inl _ \<Rightarrow> (Failed, cache, None)
        | Inr v \<Rightarrow>
            if valid_endpoint (wo_nt w) v then (talk rn w encoded ml bl k v, Some v, Some v)
            else (No_answer, cache, Some v)))"

fun request_loop :: "runtime \<Rightarrow> world \<Rightarrow> bytes \<Rightarrow> nat option \<Rightarrow> nat option \<Rightarrow> nat \<Rightarrow> nat \<Rightarrow> pyval option \<Rightarrow> pyval option \<Rightarrow>
    (pyval \<times> bytes) option \<times> pyval option" where
  "request_loop rn w encoded ml bl k 0 endpoint cache = (None, cache)"
| "request_loop rn w encoded ml bl k (Suc n) endpoint cache =
    (if wo_cancelled w k then (None, cache)
     else case attempt_once rn w encoded ml bl k endpoint cache of
         (Answer v body, cache1, _) \<Rightarrow> (Some (v, body), cache1)
       | (No_answer, cache1, _) \<Rightarrow> (None, cache1)
       | (Failed, cache1, used) \<Rightarrow>
           (let cache2 = (if cache1 = used then None else cache1)
            in if wo_late w k then (None, cache2) else request_loop rn w encoded ml bl (Suc k) n None cache2))"

definition request :: "runtime \<Rightarrow> world \<Rightarrow> pyval \<Rightarrow> nat option \<Rightarrow> nat option \<Rightarrow> pyval option \<Rightarrow>
    (net_error + (pyval \<times> bytes) option) \<times> pyval option" where
  "request rn w value ml bl cache =
    (let encoded = json_bytes rn value
     in if length encoded > REQUEST_LIMIT then (Inl (Net_value ''Collection request exceeds its limit''), cache)
        else case request_loop rn w encoded ml bl 0 2 cache cache of (r, c) \<Rightarrow> (Inr r, c))"

text \<open>A cached endpoint that fails is forgotten, and the discovery file is read again.\<close>

lemma request_rediscovers:
  assumes "length (json_bytes rn value) \<le> REQUEST_LIMIT" and "talk rn w (json_bytes rn value) ml bl 0 old = Failed"
    and "\<not> wo_cancelled w 0" "\<not> wo_cancelled w 1" "\<not> wo_late w 0"
    and "wo_discovery w 1 = Inr new" "valid_endpoint (wo_nt w) new"
    and "talk rn w (json_bytes rn value) ml bl 1 new = Answer v body"
  shows "request rn w value ml bl (Some old) = (Inr (Some (v, body)), Some new)"
  using assms by (simp add: request_def Let_def attempt_once_def numeral_2_eq_2)

text \<open>An endpoint whose token is no 32 bytes stays in the cache.\<close>

lemma short_token_cached:
  assumes "token_of e = Some token" "length token \<noteq> 32" and "length (json_bytes rn value) \<le> REQUEST_LIMIT"
  shows "request rn w value ml bl (Some e) = (Inr None, Some e)"
  using assms by (simp add: request_def Let_def attempt_once_def talk_def numeral_2_eq_2)

lemma short_token_read:
  assumes "token_of e = Some token" "length token \<noteq> 32" and "length (json_bytes rn value) \<le> REQUEST_LIMIT"
    and "wo_discovery w 0 = Inr e" "valid_endpoint (wo_nt w) e" "\<not> wo_cancelled w 0"
  shows "request rn w value ml bl None = (Inr None, Some e)"
  using assms by (simp add: request_def Let_def attempt_once_def talk_def numeral_2_eq_2)

section \<open>The server's connections\<close>

definition SLOTS :: nat where "SLOTS = 16"

record live_server =
  lv_free :: nat
  lv_handlers :: "nat list"     \<comment> \<open>connections with a running handler\<close>
  lv_serving :: bool
  lv_closed :: bool

definition new_server :: live_server where
  "new_server = \<lparr>lv_free = SLOTS, lv_handlers = [], lv_serving = True, lv_closed = False\<rparr>"

text \<open>
  \<open>_serve\<close> with one accepted connection; \<open>ok\<close> tells whether the connection could be prepared and
  its handler thread started. A failure closes the connection, returns the slot and ends the loop.
\<close>

definition serve :: "nat \<Rightarrow> bool \<Rightarrow> live_server \<Rightarrow> live_server" where
  "serve conn ok s =
    (if lv_free s = 0 then s
     else let t = s\<lparr>lv_free := lv_free s - 1\<rparr>
       in if \<not> ok \<or> lv_closed t then t\<lparr>lv_free := lv_free t + 1, lv_serving := False\<rparr>
          else t\<lparr>lv_handlers := conn # lv_handlers t\<rparr>)"

definition handler_ends :: "nat \<Rightarrow> live_server \<Rightarrow> live_server" where
  "handler_ends conn s = s\<lparr>lv_handlers := remove1 conn (lv_handlers s), lv_free := lv_free s + 1\<rparr>"

inductive server_step :: "live_server \<Rightarrow> live_server \<Rightarrow> bool" where
  accepts: "lv_serving s \<Longrightarrow> conn \<notin> set (lv_handlers s) \<Longrightarrow> server_step s (serve conn ok s)"
| ends: "conn \<in> set (lv_handlers s) \<Longrightarrow> server_step s (handler_ends conn s)"
| closes: "server_step s (s\<lparr>lv_closed := True\<rparr>)"
| stops: "lv_closed s \<Longrightarrow> server_step s (s\<lparr>lv_serving := False\<rparr>)"

inductive server_reachable :: "live_server \<Rightarrow> bool" where
  start: "server_reachable new_server"
| step: "server_reachable s \<Longrightarrow> server_step s t \<Longrightarrow> server_reachable t"

lemma server_slots:
  "server_reachable s \<Longrightarrow> lv_free s + length (lv_handlers s) = SLOTS \<and> distinct (lv_handlers s)"
proof (induction rule: server_reachable.induct)
  case (step s t)
  from step(2) show ?case
  proof (cases rule: server_step.cases)
    case (ends conn)
    have "Suc (length (remove1 conn (lv_handlers s))) = length (lv_handlers s)"
      using length_pos_if_in_set [OF ends(2)] ends(2) by (simp add: length_remove1 del: length_greater_0_conv)
    with step(3) ends show ?thesis by (simp add: handler_ends_def distinct_remove1)
  qed (use step(3) in \<open>auto simp: serve_def Let_def\<close>)
qed (simp add: new_server_def)

section \<open>Waiting for a publication\<close>

record waiter =
  pw_armed :: bool
  pw_event :: bool
  pw_running :: bool
  pw_messages :: nat
  pw_cancelled :: bool
  pw_ended :: bool
  pw_publication :: "nat option"

definition new_waiter :: waiter where
  "new_waiter = \<lparr>pw_armed = False, pw_event = False, pw_running = False, pw_messages = 0, pw_cancelled = False,
     pw_ended = False, pw_publication = None\<rparr>"

definition arm :: "nat \<Rightarrow> waiter \<Rightarrow> waiter" where
  "arm publication s = (if pw_armed s then s
     else s\<lparr>pw_armed := True, pw_publication := Some publication, pw_event := True\<rparr>)"

definition consume :: "waiter \<Rightarrow> waiter" where
  "consume s = s\<lparr>pw_messages := pw_messages s - 1, pw_armed := False\<rparr>"

text \<open>\<open>_run\<close>: waking up, and the end of the request it then makes.\<close>

definition wake :: "waiter \<Rightarrow> waiter" where
  "wake s = (let t = s\<lparr>pw_event := False\<rparr> in if pw_cancelled t then t\<lparr>pw_ended := True\<rparr> else t\<lparr>pw_running := True\<rparr>)"

definition answered :: "waiter \<Rightarrow> waiter" where
  "answered s = (let t = s\<lparr>pw_running := False\<rparr>
     in if pw_cancelled t then t\<lparr>pw_ended := True\<rparr> else t\<lparr>pw_messages := pw_messages t + 1\<rparr>)"

definition close_waiter :: "waiter \<Rightarrow> waiter" where
  "close_waiter s = s\<lparr>pw_cancelled := True, pw_event := True\<rparr>"

inductive waiter_step :: "waiter \<Rightarrow> waiter \<Rightarrow> bool" where
  "waiter_step s (arm publication s)"
| "pw_messages s > 0 \<Longrightarrow> waiter_step s (consume s)"
| "pw_event s \<Longrightarrow> \<not> pw_running s \<Longrightarrow> \<not> pw_ended s \<Longrightarrow> waiter_step s (wake s)"
| "pw_running s \<Longrightarrow> waiter_step s (answered s)"
| "waiter_step s (close_waiter s)"

inductive waiter_reachable :: "waiter \<Rightarrow> bool" where
  start: "waiter_reachable new_waiter"
| step: "waiter_reachable s \<Longrightarrow> waiter_step s t \<Longrightarrow> waiter_reachable t"

lemma waiter_pending:
  "waiter_reachable s \<Longrightarrow> \<not> pw_cancelled s \<Longrightarrow>
    of_bool (pw_event s) + of_bool (pw_running s) + pw_messages s = of_bool (pw_armed s) \<and> \<not> pw_ended s"
proof (induction rule: waiter_reachable.induct)
  case (step s t)
  from step(2) show ?case
  proof (cases rule: waiter_step.cases)
    case (1 publication)
    with step(3,4) show ?thesis by (auto simp: arm_def split: if_splits)
  qed (use step(3,4) in \<open>auto simp: consume_def wake_def answered_def close_waiter_def Let_def split: if_splits\<close>)
qed (simp add: new_waiter_def)

section \<open>Cancelling a request\<close>

record cancellation =
  rc_connection :: "nat option"
  rc_closed :: bool
  rc_shutdown :: "nat set"

definition attach :: "nat \<Rightarrow> cancellation \<Rightarrow> bool \<times> cancellation" where
  "attach conn s = (if rc_closed s then (False, s) else (True, s\<lparr>rc_connection := Some conn\<rparr>))"

definition detach :: "nat \<Rightarrow> cancellation \<Rightarrow> cancellation" where
  "detach conn s = (if rc_connection s = Some conn then s\<lparr>rc_connection := None\<rparr> else s)"

definition close_cancellation :: "cancellation \<Rightarrow> cancellation" where
  "close_cancellation s = (let t = s\<lparr>rc_closed := True\<rparr>
     in case rc_connection t of None \<Rightarrow> t | Some c \<Rightarrow> t\<lparr>rc_shutdown := insert c (rc_shutdown t)\<rparr>)"

inductive cancellation_step :: "cancellation \<Rightarrow> cancellation \<Rightarrow> bool" where
  "cancellation_step s (snd (attach conn s))"
| "cancellation_step s (detach conn s)"
| "cancellation_step s (close_cancellation s)"

text \<open>Once it is closed, an attached connection has been shut down, and none is attached any more.\<close>

lemma cancellation_interrupts:
  assumes "cancellation_step\<^sup>*\<^sup>* \<lparr>rc_connection = None, rc_closed = False, rc_shutdown = {}\<rparr> s" and "rc_closed s"
  shows "(\<forall>c. rc_connection s = Some c \<longrightarrow> c \<in> rc_shutdown s) \<and> (\<forall>c. attach c s = (False, s))"
proof -
  have "rc_closed s \<longrightarrow> (\<forall>c. rc_connection s = Some c \<longrightarrow> c \<in> rc_shutdown s)"
    using assms(1)
  proof (induction rule: rtranclp_induct)
    case (step s t)
    from step(2,3) show ?case
      by (cases rule: cancellation_step.cases) (auto simp: attach_def detach_def close_cancellation_def Let_def split: if_splits option.splits)
  qed simp
  with assms(2) show ?thesis by (simp add: attach_def)
qed

section \<open>Examples\<close>

definition sample_net :: runtime where
  "sample_net = \<lparr>rn_mac = (\<lambda>k m. take 32 (m @ k @ replicate 32 (CHR ''0''))), rn_read = (\<lambda>_. PFloat (25 / 2)), rn_print = (\<lambda>_. ''12.5'')\<rparr>"

lemma sample_mac: "length (rn_mac sample_net k m) = 32"
  by (simp add: sample_net_def)

definition sample_endpoint :: "int \<Rightarrow> string \<Rightarrow> pyval" where
  "sample_endpoint port hex = PDict [(''port'', PInt port), (''token'', PStr hex)]"

definition sample_world :: world where
  "sample_world = \<lparr>wo_nt = False, wo_discovery = (\<lambda>k. Inr (sample_endpoint 6000 (concat (replicate 32 ''6b'')))),
     wo_connect = (\<lambda>k e. if k = 0 then Inl Net_os else Inr \<lparr>cn_in = replicate 32 (CHR ''n'') @
       response_bytes sample_net (replicate 32 (CHR ''k'')) (replicate 32 (CHR ''n'')) ''null'' ''body'', cn_out = [], cn_events = [Some 7]\<rparr>),
     wo_late = (\<lambda>_. False), wo_cancelled = (\<lambda>_. False)\<rparr>"

lemma char_k: "char_of (107 :: nat) = CHR ''k''"
  using of_char_eq_iff [of "char_of (107 :: nat)" "CHR ''k''", where 'a = nat] by simp

lemma from_hex_copies: "from_hex (concat (replicate n ''6b'')) = Some (replicate n (CHR ''k''))"
  by (induction n) (simp_all add: is_blank_def hex_value_def char_k)

lemma sample_token: "token_of (sample_endpoint p (concat (replicate n ''6b''))) = Some (replicate n (CHR ''k''))"
  by (simp add: token_of_def sample_endpoint_def dget_def dget_or_def from_hex_copies)

section \<open>Further properties\<close>

text \<open>
  When the cached endpoint no longer answers, the same request finds the restarted server through the
  discovery file, returns its answer and caches the new endpoint.
\<close>

theorem restarted_server_reached:
  assumes "length (json_bytes rn value) \<le> REQUEST_LIMIT" and "token_of old = Some t" and "length t = 32"
    and "wo_connect w 0 old = Inl e" and "\<not> wo_cancelled w 0" "\<not> wo_cancelled w 1" "\<not> wo_late w 0"
    and "wo_discovery w 1 = Inr new" and "valid_endpoint (wo_nt w) new" and "token_of new = Some token" and "length token = 32"
    and "wo_connect w 1 new = Inr c" and "flows c"
    and "cn_in c = nonce @ response_bytes rn token nonce (json_bytes rn metadata) body @ rest"
    and "length nonce = 32" and "\<And>m. length (rn_mac rn token m) = 32"
    and "json_ok (rn_read rn) (rn_print rn) metadata" and "length (json_bytes rn metadata) < 2 ^ 64" and "length body < 2 ^ 64"
    and "case ml of None \<Rightarrow> True | Some l \<Rightarrow> length (json_bytes rn metadata) \<le> l"
    and "case bl of None \<Rightarrow> True | Some l \<Rightarrow> length body \<le> l"
  shows "request rn w value ml bl (Some old) = (Inr (Some (metadata, body)), Some new)"
proof (rule request_rediscovers [OF assms(1) _ assms(5-9)])
  show "talk rn w (json_bytes rn value) ml bl 0 old = Failed" using assms(2-4) by (simp add: talk_def)
  have "loads_bytes (rn_read rn) (json_bytes rn metadata) = Some metadata"
    unfolding json_bytes_def by (rule loads_bytes_dumps [OF assms(17)])
  from ask_exchange [OF assms(13,14,15,16) _ assms(18-21) this, of "json_bytes rn value"] assms(1)
  obtain c' where "ask rn token (json_bytes rn value) ml bl c = Inr ((metadata, body), c')" by (auto simp: REQUEST_LIMIT_def)
  with assms(10-12) show "talk rn w (json_bytes rn value) ml bl 1 new = Answer metadata body" by (simp add: talk_def)
qed

theorem restarted_server_reached_witness:
  "request sample_net sample_world PNone None None (Some (sample_endpoint 5000 (concat (replicate 32 ''6b'')))) =
    (Inr (Some (PNone, ''body'')), Some (sample_endpoint 6000 (concat (replicate 32 ''6b''))))"
proof (rule restarted_server_reached [OF _ sample_token _ _ _ _ _ _ _ sample_token, where c = "the (case wo_connect sample_world 1 PNone of Inr c \<Rightarrow> Some c | Inl e \<Rightarrow> None)"
      and nonce = "replicate 32 (CHR ''n'')" and rest = "[]" and e = Net_os])
  show "valid_endpoint (wo_nt sample_world) (sample_endpoint 6000 (concat (replicate 32 ''6b'')))"
    by (simp add: valid_endpoint_def sample_endpoint_def dget_def dget_or_def)
  show "length (rn_mac sample_net (replicate 32 (CHR ''k'')) m) = 32" for m by (rule sample_mac)
qed (simp_all add: sample_world_def REQUEST_LIMIT_def json_bytes_def utf8_def utf8_char_def flows_def)

text \<open>
  Until it is closed, an armed waiter has exactly one wake-up on its way (the event, the running request or
  the message in the pipe) and a waiter that is not armed has none.
\<close>

theorem one_pending_wakeup:
  assumes "waiter_reachable s" and "\<not> pw_cancelled s"
  shows "of_bool (pw_event s) + of_bool (pw_running s) + pw_messages s = of_bool (pw_armed s) \<and> \<not> pw_ended s"
  by (rule waiter_pending [OF assms])

theorem one_pending_wakeup_witness:
  "\<exists>s. waiter_reachable s \<and> pw_armed s \<and> pw_messages s = 1 \<and> \<not> pw_event s"
proof -
  let ?s = "answered (wake (arm 3 new_waiter))"
  have "waiter_reachable (arm 3 new_waiter)" by (rule waiter_reachable.step [OF waiter_reachable.start waiter_step.intros(1)])
  then have "waiter_reachable (wake (arm 3 new_waiter))"
    by (rule waiter_reachable.step [OF _ waiter_step.intros(3)]) code_simp+
  then have r: "waiter_reachable ?s" by (rule waiter_reachable.step [OF _ waiter_step.intros(4)]) code_simp
  have c: "\<not> pw_cancelled ?s" "pw_armed ?s" "pw_messages ?s = 1" by code_simp+
  from one_pending_wakeup [OF r c(1)] c show ?thesis by (intro exI [of _ ?s] conjI r) (auto split: if_splits)
qed

text \<open>
  At every moment the free slots and the running handlers of the server add up to sixteen: no slot is lost,
  and no more than sixteen requests run.
\<close>

theorem handler_slots:
  assumes "server_reachable s"
  shows "lv_free s + length (lv_handlers s) = SLOTS \<and> distinct (lv_handlers s)"
  by (rule server_slots [OF assms])

section \<open>Claims\<close>

text \<open>
  C9: A client and a server on one connection: whatever the pieces in which the socket sends and receives, the
  handler is called with the request that was sent, and the client gets exactly the metadata and the body the
  handler returned.
\<close>

theorem exchange_roundtrip:
  assumes "\<And>m. length (rn_mac rn token m) = 32" and "length nonce = 32"
    and "json_ok (rn_read rn) (rn_print rn) (PDict req)" and "length (json_bytes rn (PDict req)) \<le> REQUEST_LIMIT"
    and "handler req = Inr (metadata, body)" and "json_ok (rn_read rn) (rn_print rn) metadata"
    and "length (json_bytes rn metadata) < 2 ^ 64" and "length body < 2 ^ 64"
    and "case ml of None \<Rightarrow> True | Some l \<Rightarrow> length (json_bytes rn metadata) \<le> l"
    and "case bl of None \<Rightarrow> True | Some l \<Rightarrow> length body \<le> l"
    and "list_all (\<lambda>e. case e of None \<Rightarrow> False | Some n \<Rightarrow> n > 0) (es @ ec)"
  shows "\<exists>s c. handle rn token nonce handler \<lparr>cn_in = cn_out c, cn_out = [], cn_events = es\<rparr> = (Some req, Inr s) \<and>
    ask rn token (json_bytes rn (PDict req)) ml bl \<lparr>cn_in = cn_out s, cn_out = [], cn_events = ec\<rparr> = Inr ((metadata, body), c)"
proof -
  let ?e = "json_bytes rn (PDict req)" and ?m = "json_bytes rn metadata"
  let ?s = "\<lparr>cn_in = request_bytes rn token nonce ?e, cn_out = [], cn_events = es\<rparr>"
  let ?c = "\<lparr>cn_in = nonce @ response_bytes rn token nonce ?m body, cn_out = [], cn_events = ec\<rparr>"
  have f: "flows ?s" "flows ?c" using assms(11) by (simp_all add: flows_def)
  have l: "loads_bytes (rn_read rn) ?e = Some (PDict req)" "loads_bytes (rn_read rn) ?m = Some metadata"
    unfolding json_bytes_def by (rule loads_bytes_dumps, fact)+
  have i: "cn_in ?s = request_bytes rn token nonce ?e @ []" "cn_in ?c = nonce @ response_bytes rn token nonce ?m body @ []"
    by simp_all
  from handle_exchange [where handler = handler and metadata = metadata and body = body, OF f(1) i(1) assms(1,4) l(1) assms(5,7,8)] obtain s where
    s: "handle rn token nonce handler ?s = (Some req, Inr s)" "cn_out s = nonce @ response_bytes rn token nonce ?m body"
    by (auto simp: moves_def)
  have "length ?e < 2 ^ 64" using assms(4) by (simp add: REQUEST_LIMIT_def)
  from ask_exchange [OF f(2) i(2) assms(2,1) this assms(7-10) l(2)] obtain c where
    c: "ask rn token ?e ml bl ?c = Inr ((metadata, body), c)" "cn_out c = request_bytes rn token nonce ?e"
    by (auto simp: moves_def)
  from s c show ?thesis by (intro exI [of _ s] exI [of _ c]) simp
qed

theorem exchange_roundtrip_witness:
  "\<exists>s c. handle sample_net (replicate 32 (CHR ''k'')) (replicate 32 (CHR ''n'')) (\<lambda>r. Inr (PDict r, ''body''))
      \<lparr>cn_in = cn_out c, cn_out = [], cn_events = [Some 5, Some 1]\<rparr> = (Some [(''watch'', PFloat (25 / 2))], Inr s) \<and>
    ask sample_net (replicate 32 (CHR ''k'')) (json_bytes sample_net (PDict [(''watch'', PFloat (25 / 2))])) (Some 100) None
      \<lparr>cn_in = cn_out s, cn_out = [], cn_events = [Some 2]\<rparr> = Inr ((PDict [(''watch'', PFloat (25 / 2))], ''body''), c)"
proof (rule exchange_roundtrip [OF sample_mac])
  have ok: "prints_float (rn_read sample_net) (rn_print sample_net) (25 / 2)"
    by (simp add: prints_float_def sample_net_def) code_simp
  then show "json_ok (rn_read sample_net) (rn_print sample_net) (PDict [(''watch'', PFloat (25 / 2))])"
    "json_ok (rn_read sample_net) (rn_print sample_net) (PDict [(''watch'', PFloat (25 / 2))])" by simp_all
qed (simp_all add: sample_net_def json_bytes_def quoted_def escape_char_def utf8_def utf8_char_def REQUEST_LIMIT_def)

text \<open>
  C26: The handler is called only when the connection carried a request of at most 64 KiB signed with the
  server's token over the nonce of this connection, whatever else was sent and however the socket behaves.
\<close>

theorem requests_authenticated:
  assumes "fst (handle rn token nonce handler c) = Some req"
  shows "\<exists>h encoded y. cn_in c = signature rn token [nonce, encoded] @ h @ encoded @ y \<and> length h = 8 \<and>
    number_of h = length encoded \<and> length encoded \<le> REQUEST_LIMIT \<and> loads_bytes (rn_read rn) encoded = Some (PDict req)"
  by (rule handle_authentic [OF assms])

theorem requests_authenticated_witness:
  "\<exists>c req. fst (handle sample_net (replicate 32 (CHR ''k'')) (replicate 32 (CHR ''n'')) (\<lambda>r. Inr (PNone, [])) c) = Some req \<and>
    (\<exists>h encoded y. cn_in c = signature sample_net (replicate 32 (CHR ''k'')) [replicate 32 (CHR ''n''), encoded] @ h @ encoded @ y)"
proof -
  let ?k = "replicate 32 (CHR ''k'')" and ?n = "replicate 32 (CHR ''n'')"
  let ?c = "\<lparr>cn_in = request_bytes sample_net ?k ?n ''{}'' @ [], cn_out = [], cn_events = [Some 3]\<rparr>"
  have "loads_bytes (rn_read sample_net) ''{}'' = Some (PDict [])"
    by (simp add: sample_net_def) code_simp
  then have "\<exists>c'. handle sample_net ?k ?n (\<lambda>r. Inr (PNone, [])) ?c = (Some [], Inr c') \<and>
      moves [] (cn_out ?c @ ?n @ response_bytes sample_net ?k ?n (json_bytes sample_net PNone) []) c'"
    by (intro handle_exchange [where encoded = "''{}''"])
      (simp_all add: flows_def sample_mac REQUEST_LIMIT_def json_bytes_def utf8_def utf8_char_def)
  then have h: "fst (handle sample_net ?k ?n (\<lambda>r. Inr (PNone, [])) ?c) = Some []" by auto
  from requests_authenticated [OF h] h show ?thesis by blast
qed

text \<open>
  C27: An endpoint whose token is not 32 bytes long is cached when it is read, and from then on every request
  fails without reading the discovery file again.
\<close>

theorem short_token_sticks:
  assumes "token_of e = Some token" and "length token \<noteq> 32" and "wo_discovery w 0 = Inr e" and "valid_endpoint (wo_nt w) e"
    and "\<not> wo_cancelled w 0" and "length (json_bytes rn value) \<le> REQUEST_LIMIT"
  shows "request rn w value ml bl None = (Inr None, Some e) \<and>
    (\<forall>rn' w' value' ml' bl'. length (json_bytes rn' value') \<le> REQUEST_LIMIT \<longrightarrow>
       request rn' w' value' ml' bl' (Some e) = (Inr None, Some e))"
  using short_token_read [OF assms(1,2,6,3,4,5)] short_token_cached [OF assms(1,2)] by blast

theorem short_token_sticks_witness:
  "request sample_net (sample_world\<lparr>wo_discovery := (\<lambda>_. Inr (sample_endpoint 6000 (concat (replicate 31 ''6b''))))\<rparr>) PNone None None None =
     (Inr None, Some (sample_endpoint 6000 (concat (replicate 31 ''6b''))))"
  by (rule short_token_sticks [OF sample_token, THEN conjunct1])
    (simp_all add: sample_world_def valid_endpoint_def sample_endpoint_def dget_def dget_or_def REQUEST_LIMIT_def json_bytes_def utf8_def utf8_char_def)

end
