(* ===== verification/Updates.thy ===== *)
theory Updates
  imports Pydict
begin

text \<open>
  The durable update journal of \<open>cachemonitor/update_state.py\<close>. The record is the
  JSON dictionary the class writes; every operation reads it, changes it and writes it
  under the journal lock, so it is a function from the stored record to the next one.
  The clock, the fresh operation id, the process identity and the path checks are
  arguments. The members \<open>client\<close>, \<open>app\<close>, \<open>proxy\<close> and \<open>startup\<close> are dictionaries, as
  the class writes them.
\<close>

section \<open>Derived state\<close>

definition ACTIVE :: "string list" where
  "ACTIVE = [''preparing'', ''downloading'', ''installing'', ''waiting'', ''needs_exit'', ''switching'', ''stopping'',
     ''starting'', ''verifying'', ''rollback'', ''closing_client'', ''restarting_client'']"

definition CANCELLABLE :: "string list" where
  "CANCELLABLE = [''preparing'', ''downloading'', ''installing'', ''waiting'', ''needs_exit'', ''closing_client'', ''restart_required'']"

text \<open>\<open>[0-9a-f]{32}\<close>\<close>

definition valid_id :: "pyval \<Rightarrow> bool" where
  "valid_id v = (case v of PStr s \<Rightarrow> length s = 32 \<and>
     list_all (\<lambda>c. CHR ''0'' \<le> c \<and> c \<le> CHR ''9'' \<or> CHR ''a'' \<le> c \<and> c \<le> CHR ''f'') s | _ \<Rightarrow> False)"

definition read_record :: "pydict \<Rightarrow> pydict" where
  "read_record stored = (if valid_id (dget stored ''operation_id'') then stored else [])"

definition write_record :: "rat \<Rightarrow> pydict \<Rightarrow> pydict" where
  "write_record now v = dset ''updated_at'' (PFloat now) v"

definition installed_gui_required :: "pydict \<Rightarrow> bool" where
  "installed_gui_required r =
    (dget r ''kind'' = PStr ''app'' \<and> dget (dsub r ''app'') ''state'' = PStr ''verified'' \<and>
     dget_or (dsub (dsub r ''app'') ''startup'') ''policy'' (PStr ''requested'') \<noteq> PStr ''no_launch'')"

definition overall_phase :: "pydict \<Rightarrow> pyval \<Rightarrow> pyval" where
  "overall_phase r cphase =
    (let client = dsub r ''client''; phase = dget client ''phase''; startup = dsub (dsub r ''app'') ''startup'' in
     if phase = PStr ''blocked'' then PStr ''restart_required''
     else if phase = PStr ''closing'' then PStr ''closing_client''
     else if installed_gui_required r \<and> dget startup ''state'' \<noteq> PStr ''ready'' \<and> dget startup ''state'' = PStr ''blocked''
       then (if truthy (dget client ''reopen_required'') then PStr ''restart_required'' else PStr ''partial'')
     else if installed_gui_required r \<and> dget startup ''state'' \<noteq> PStr ''ready'' \<and> cphase = PStr ''complete''
       then PStr ''waiting''
     else if is_in phase [''closed'', ''reopening''] \<and> is_in cphase [''complete'', ''partial'', ''failed'', ''cancelled'', ''deferred'']
       then PStr ''restarting_client''
     else if cphase = PStr ''complete'' \<and> \<not> is_in phase [''restarted'', ''not_running'', ''not_applicable'']
       then PStr ''restart_required''
     else cphase)"

text \<open>\<open>matches_proxy_target\<close>: replayed evidence must belong to this operation, connection and build.\<close>

definition same_build :: "pydict \<Rightarrow> pydict \<Rightarrow> bool" where
  "same_build actual expected = list_all (\<lambda>k. truthy (dget expected k) \<and> py_eq (dget actual k) (dget expected k))
     [''executable'', ''sha256'', ''commit'']"

definition expected_build :: "pydict \<Rightarrow> pydict" where
  "expected_build r = (let app = dsub r ''app'' in
     if dget app ''state'' = PStr ''verified''
     then [(''executable'', dget app ''executable''), (''sha256'', dget app ''sha256''), (''commit'', dget app ''commit'')]
     else dsub (dsub r ''proxy'') ''distribution'')"

definition matches_proxy_target :: "pydict \<Rightarrow> pydict \<Rightarrow> bool" where
  "matches_proxy_target r res =
    (if \<not> truthy (dget r ''scope'') \<or> \<not> py_eq (dget res ''scope'') (dget r ''scope'') \<or>
        \<not> py_eq (dget res ''operation_id'') (dget r ''operation_id'') then False
     else
      (let expected = expected_build r; actual = dsub res ''distribution''; both = (actual \<noteq> [] \<and> expected \<noteq> [])
       in if both \<and> \<not> same_build actual expected then False
          else if \<not> both \<and> dget res ''phase'' = PStr ''complete'' then False
          else if truthy (dget res ''target_app_version'') then py_eq (dget res ''target_app_version'') (dget r ''target_version'')
          else both \<and> truthy (dget res ''target_version'') \<and>
               py_eq (dget res ''target_version'') (dget (dsub r ''proxy'') ''target_version'')))"

section \<open>Operations\<close>

text \<open>\<open>a |= b\<close> on truth values\<close>

definition or_bool :: "pyval \<Rightarrow> pyval \<Rightarrow> pyval" where
  "or_bool a b = PBool (truthy a \<or> truthy b)"

definition set_default :: "string \<Rightarrow> pyval \<Rightarrow> pydict \<Rightarrow> pydict" where
  "set_default k v d = (if k \<in> fst ` set d then d else dset k v d)"

record begin_request =
  bq_kind :: string
  bq_version :: pyval
  bq_scope :: pyval
  bq_release :: pyval
  bq_replace :: bool
  bq_client :: pydict

definition begin_client :: "begin_request \<Rightarrow> pydict \<Rightarrow> pydict" where
  "begin_client q previous =
    (let c0 = (if bq_client q \<noteq> [] then bq_client q else [(''phase'', PStr ''awaiting_consent'')]);
         c1 = set_default ''reopen_required'' (PBool (truthy (dget c0 ''targets''))) c0
     in if py_eq (dget previous ''kind'') (PStr (bq_kind q)) \<and> py_eq (dget previous ''target_version'') (bq_version q) \<and>
           py_eq (dget previous ''scope'') (bq_scope q) \<and> \<not> is_in (dget previous ''phase'') [''complete'', ''cancelled'']
        then dset ''reopen_required'' (or_bool (dget c1 ''reopen_required'') (dget (dsub previous ''client'') ''reopen_required'')) c1
        else c1)"

definition begin_update :: "rat \<Rightarrow> string \<Rightarrow> pyval option \<Rightarrow> begin_request \<Rightarrow> pydict \<Rightarrow> pyerror + pydict" where
  "begin_update now fresh owner q stored =
    (let previous = read_record stored in
     if is_in (dget previous ''phase'') ACTIVE \<and> \<not> bq_replace q then Inl (RuntimeError ''update in progress'')
     else (let v = [(''operation_id'', PStr fresh), (''kind'', PStr (bq_kind q)), (''target_version'', bq_version q),
               (''phase'', PStr ''preparing''), (''created_at'', PFloat now), (''scope'', bq_scope q),
               (''app'', PDict [(''state'', PStr (if bq_kind q = ''proxy'' then ''current'' else ''pending''))]),
               (''proxy'', PDict [(''state'', PStr ''pending'')]), (''release'', bq_release q),
               (''client'', PDict (begin_client q previous)),
               (''cancel_requested'', PBool False), (''defer_requested'', PBool False)];
             w = (case owner of None \<Rightarrow> v | Some x \<Rightarrow> dset ''owner'' x v)
         in Inr (write_record now w)))"

definition owns :: "string \<Rightarrow> pydict \<Rightarrow> bool" where
  "owns op v = (dget v ''operation_id'' = PStr op)"

definition change :: "rat \<Rightarrow> string \<Rightarrow> pydict \<Rightarrow> pydict \<Rightarrow> bool \<times> pydict" where
  "change now op changes stored =
    (let v = read_record stored in
     if \<not> owns op v then (False, stored)
     else (let v1 = dmerge v changes;
               cphase = dget_or changes ''component_phase'' (dget changes ''phase'');
               v2 = (if ''phase'' \<in> fst ` set changes
                     then (let v' = dset ''component_phase'' cphase v1 in dset ''phase'' (overall_phase v' cphase) v') else v1)
           in (True, write_record now v2)))"

definition cancelled :: "string \<Rightarrow> pydict \<Rightarrow> bool" where
  "cancelled op stored = (let v = read_record stored in \<not> owns op v \<or> truthy (dget v ''cancel_requested''))"

definition install_ready :: "rat \<Rightarrow> string \<Rightarrow> string \<Rightarrow> string \<Rightarrow> pydict \<Rightarrow> bool \<times> pydict" where
  "install_ready now op target digest stored =
    (let v = read_record stored in
     if \<not> owns op v \<or> truthy (dget v ''cancel_requested'') then (False, stored)
     else (True, write_record now (dmerge v [(''phase'', PStr ''installing''), (''installer'', PStr target),
             (''installer_sha256'', PStr digest)])))"

definition begin_switch :: "rat \<Rightarrow> string \<Rightarrow> pydict \<Rightarrow> bool \<times> pydict" where
  "begin_switch now op stored =
    (let v = read_record stored in
     if \<not> owns op v \<or> truthy (dget v ''cancel_requested'') then (False, stored)
     else (True, write_record now (dmerge v [(''phase'', PStr ''switching''),
             (''proxy'', PDict (dset ''cutover_started'' (PBool True) (dsub v ''proxy'')))])))"

definition begin_activation :: "rat \<Rightarrow> string \<Rightarrow> pydict \<Rightarrow> bool \<times> pydict" where
  "begin_activation now op stored =
    (let v = read_record stored in
     if \<not> owns op v \<or> truthy (dget v ''cancel_requested'') then (False, stored)
     else (True, write_record now (dmerge v [(''phase'', PStr ''installing''), (''component_phase'', PStr ''installing''),
             (''activation_started'', PBool True)])))"

definition client_result :: "rat \<Rightarrow> string \<Rightarrow> pydict \<Rightarrow> pydict \<Rightarrow> pyerror + bool \<times> pydict" where
  "client_result now op changes0 stored =
    (let v0 = read_record stored in
     if \<not> owns op v0 then Inr (False, stored)
     else if ''phase'' \<notin> fst ` set v0 then Inl KeyError
     else (let v = set_default ''component_phase'' (dget v0 ''phase'') v0;
               changes = (if ''reopen_required'' \<in> fst ` set changes0
                 then dset ''reopen_required'' (or_bool (dget changes0 ''reopen_required'')
                        (dget (dsub v ''client'') ''reopen_required'')) changes0 else changes0);
               v1 = dset ''client'' (PDict (dmerge (dsub v ''client'') changes)) v
           in Inr (True, write_record now (dset ''phase'' (overall_phase v1 (dget v1 ''component_phase'')) v1))))"

text \<open>\<open>client['reopen_required']\<close> raises where the key is missing.\<close>

definition prepare_proxy_retry :: "rat \<Rightarrow> string \<Rightarrow> pydict option \<Rightarrow> pydict \<Rightarrow> pyerror + bool \<times> pydict" where
  "prepare_proxy_retry now op consent stored =
    (let v = read_record stored; client = dsub v ''client'' in
     if \<not> owns op v then Inr (False, stored)
     else if ''reopen_required'' \<notin> fst ` set client then Inl KeyError
     else (let c0 = (case consent of Some c \<Rightarrow> c | None \<Rightarrow> client);
               c1 = dset ''reopen_required'' (or_bool (dget client ''reopen_required'') (dget c0 ''reopen_required'')) c0;
               c2 = dpop ''message'' (dpop ''owner'' (dpop ''result'' (dpop ''ready_at'' c1)))
           in Inr (True, write_record now (dmerge v [(''phase'', PStr ''waiting''), (''component_phase'', PStr ''waiting''),
                 (''client'', PDict c2), (''proxy'', PDict [(''state'', PStr ''pending''), (''updated_at'', PFloat now)]),
                 (''cancel_requested'', PBool False), (''defer_requested'', PBool False),
                 (''activation_started'', PBool False), (''required_action'', PNone), (''message'', PStr '''')]))))"

definition cancel :: "rat \<Rightarrow> bool \<Rightarrow> pydict \<Rightarrow> bool \<times> pydict" where
  "cancel now later stored =
    (let v = read_record stored in
     if truthy (dget v ''activation_started'') \<or> truthy (dget (dsub v ''proxy'') ''cutover_started'') \<or>
        \<not> is_in (dget v ''phase'') CANCELLABLE then (False, stored)
     else (True, write_record now (dmerge v [(''cancel_requested'', PBool True), (''defer_requested'', PBool later)])))"

text \<open>
  \<open>installed\<close>: the report of a verified installation. \<open>inside\<close> says that the product path is under
  \<open>versions\<close>; without an operation id a new operation is begun first. The second component is
  the record on disk afterwards, also when the call raises.
\<close>

record install_report =
  ir_version :: pyval
  ir_executable :: string
  ir_sha256 :: pyval
  ir_commit :: pyval
  ir_scope :: pyval
  ir_recovered :: bool
  ir_startup :: "pydict option"
  ir_inside :: bool

definition installed_app :: "install_report \<Rightarrow> pydict" where
  "installed_app m =
    (let app = [(''state'', PStr ''verified''), (''version'', ir_version m), (''executable'', PStr (ir_executable m)),
        (''sha256'', ir_sha256 m), (''commit'', ir_commit m)]
     in case ir_startup m of None \<Rightarrow> app | Some s \<Rightarrow> dset ''startup'' (PDict s) app)"

definition installed_into :: "rat \<Rightarrow> string \<Rightarrow> install_report \<Rightarrow> pydict \<Rightarrow> (pyerror + string option) \<times> pydict" where
  "installed_into now op m stored =
    (let v = read_record stored; app = installed_app m; existing = dsub v ''app'' in
     if \<not> owns op v then (Inr None, stored)
     else if ''target_version'' \<notin> fst ` set v then (Inl KeyError, stored)
     else if \<not> py_eq (dget v ''target_version'') (ir_version m) then (Inl (ValueError ''version''), stored)
     else if ir_recovered m \<and> \<not> py_eq (ir_scope m) (dget v ''scope'') then (Inr None, stored)
     else if ir_recovered m \<and> py_eq (PDict (dpop ''startup'' existing)) (PDict (dpop ''startup'' app)) then (Inr (Some op), stored)
     else if ir_recovered m \<and> (dget v ''phase'' \<noteq> PStr ''installing'' \<or> dget existing ''state'' = PStr ''verified'') then (Inr None, stored)
     else (Inr (Some op), write_record now (dmerge v [(''phase'', PStr ''waiting''), (''component_phase'', PStr ''waiting''),
             (''activation_started'', PBool False),
             (''scope'', if truthy (ir_scope m) then ir_scope m else dget v ''scope''),
             (''cancel_requested'', PBool False), (''app'', PDict app)])))"

definition installed :: "rat \<Rightarrow> string \<Rightarrow> pyval option \<Rightarrow> string option \<Rightarrow> install_report \<Rightarrow> pydict
    \<Rightarrow> (pyerror + string option) \<times> pydict" where
  "installed now fresh owner op m stored =
    (if \<not> ir_inside m then (Inl (ValueError ''path''), stored)
     else (case op of Some x \<Rightarrow> installed_into now x m stored
       | None \<Rightarrow> (case begin_update now fresh owner \<lparr>bq_kind = ''app'', bq_version = ir_version m, bq_scope = ir_scope m,
               bq_release = PNone, bq_replace = True, bq_client = []\<rparr> stored of
             Inl e \<Rightarrow> (Inl e, stored) | Inr d \<Rightarrow> installed_into now fresh m d)))"

definition startup_result :: "rat \<Rightarrow> string \<Rightarrow> pydict \<Rightarrow> pydict \<Rightarrow> pyerror + bool \<times> pydict" where
  "startup_result now op res stored =
    (let v = read_record stored; app = dsub v ''app'' in
     if \<not> owns op v \<or> dget app ''state'' \<noteq> PStr ''verified'' then Inr (False, stored)
     else (let startup = (if ''startup'' \<in> fst ` set app then dsub app ''startup''
               else [(''state'', PStr ''waiting''), (''policy'', PStr ''requested'')]) in
       if dget res ''state'' = PStr ''ready'' \<and> (dget startup ''policy'' \<noteq> PStr ''requested'' \<or>
            \<not> py_eq (dget (dsub res ''owner'') ''executable'') (dget app ''executable'')) then Inr (False, stored)
       else (let v1 = dset ''app'' (PDict (dset ''startup'' (PDict (dmerge startup res)) app)) v;
                 v2 = (if is_in (dget res ''state'') [''waiting'', ''starting''] \<and>
                          is_in (dget v1 ''component_phase'') [''failed'', ''partial'', ''cancelled'', ''deferred'']
                       then dset ''component_phase'' (PStr ''waiting'') v1 else v1)
             in if ''phase'' \<notin> fst ` set v2 then Inl KeyError
                else Inr (True, write_record now (dset ''phase''
                       (overall_phase v2 (dget_or v2 ''component_phase'' (dget v2 ''phase''))) v2)))))"

text \<open>The order of two time stamps, which are numbers.\<close>

definition earlier :: "pyval \<Rightarrow> pyval \<Rightarrow> pyerror + bool" where
  "earlier a b = (case (numeric a, numeric b) of (Some x, Some y) \<Rightarrow> Inr (x < y) | _ \<Rightarrow> Inl TypeError)"

definition app_done :: "pydict \<Rightarrow> bool" where
  "app_done v = is_in (dget (dsub v ''app'') ''state'') [''verified'', ''current'']"

definition mapped_phase :: "pydict \<Rightarrow> pydict \<Rightarrow> pyval" where
  "mapped_phase v res =
    (let phase = dget_or res ''phase'' (PStr []) in
     if phase = PStr ''queued'' then PStr ''waiting''
     else if phase = PStr ''waiting'' \<and> dget res ''required_action'' = PStr ''close_client'' then PStr ''needs_exit''
     else if is_in phase [''complete'', ''off''] then PStr (if app_done v then ''complete'' else ''installing'')
     else if phase = PStr ''failed'' then PStr (if dget (dsub v ''app'') ''state'' = PStr ''verified'' then ''partial'' else ''failed'')
     else if phase = PStr ''cancelled'' then PStr (if app_done v \<or> truthy (dget v ''defer_requested'') then ''deferred'' else ''cancelled'')
     else if phase = PStr ''recovery_required'' then PStr (if app_done v then ''partial'' else ''failed'')
     else phase)"

definition foreign_result :: "string \<Rightarrow> bool \<Rightarrow> pydict \<Rightarrow> pydict \<Rightarrow> bool" where
  "foreign_result op replay res v =
    (\<not> owns op v \<or> \<not> py_eq (dget_or res ''operation_id'' (PStr op)) (PStr op) \<or>
     (truthy (dget res ''target_app_version'') \<and> \<not> py_eq (dget res ''target_app_version'') (dget v ''target_version'')) \<or>
     (truthy (dget res ''scope'') \<and> truthy (dget v ''scope'') \<and> \<not> py_eq (dget res ''scope'') (dget v ''scope'')) \<or>
     (replay \<and> \<not> matches_proxy_target v res))"

definition returns_to_queue :: "pydict \<Rightarrow> pydict \<Rightarrow> bool" where
  "returns_to_queue previous res =
    (truthy (dget previous ''cutover_started'') \<and> \<not> truthy (dget res ''cutover_started'') \<and>
     is_in (dget_or res ''phase'' (PStr [])) [''queued'', ''waiting'', ''cancelled''])"

definition store_proxy_result :: "rat \<Rightarrow> pydict \<Rightarrow> pydict \<Rightarrow> pydict" where
  "store_proxy_result now res v =
    (let mapped = mapped_phase v res;
         v1 = dmerge v [(''component_phase'', mapped), (''proxy'', PDict res),
                (''required_action'', dget res ''required_action''), (''message'', dget_or res ''message'' (PStr []))];
         v2 = dset ''phase'' (overall_phase v1 mapped) v1;
         v3 = (if is_in (dget_or res ''phase'' (PStr [])) [''complete'', ''off'', ''cancelled'', ''failed'']
               then dset ''cancel_requested'' (PBool False) v2 else v2)
     in write_record now v3)"

definition proxy_result :: "rat \<Rightarrow> string \<Rightarrow> bool \<Rightarrow> pydict \<Rightarrow> pydict \<Rightarrow> pyerror + bool \<times> pydict" where
  "proxy_result now op replay res stored =
    (let v = read_record stored; previous = dsub v ''proxy'' in
     if foreign_result op replay res v then Inr (False, stored)
     else bindE (if truthy (dget res ''updated_at'') \<and> truthy (dget previous ''updated_at'')
                 then earlier (dget res ''updated_at'') (dget previous ''updated_at'') else Inr False) (\<lambda>stale.
       if stale \<or> returns_to_queue previous res then Inr (False, stored)
       else if py_eq (dget_or v ''component_phase'' (dget v ''phase'')) (mapped_phase v res) \<and>
               py_eq (PDict previous) (PDict res) \<and> \<not> truthy (dget v ''cancel_requested'') then Inr (True, stored)
       else Inr (True, store_proxy_result now res v)))"

definition fail :: "rat \<Rightarrow> string \<Rightarrow> string \<Rightarrow> pydict \<Rightarrow> bool \<times> pydict" where
  "fail now op message stored =
    (let phase = PStr (if dget (dsub (read_record stored) ''app'') ''state'' = PStr ''verified'' then ''partial'' else ''failed'')
     in change now op [(''phase'', phase), (''component_phase'', phase), (''message'', PStr message)] stored)"

section \<open>The journal as a state machine\<close>

text \<open>
  One step is one locked operation, by any worker and for any operation id. The members that
  the callers of \<open>change\<close> pass never name the operation or the activation, and withdraw a
  cancellation at most.
\<close>

definition plain_changes :: "pydict \<Rightarrow> bool" where
  "plain_changes c = list_all (\<lambda>(k, x). k \<noteq> ''operation_id'' \<and> k \<noteq> ''activation_started'' \<and>
     (k = ''cancel_requested'' \<longrightarrow> x = PBool False)) c"

inductive journal_step :: "pydict \<Rightarrow> pydict \<Rightarrow> bool" where
  js_begin: "begin_update now fresh owner q d = Inr d' \<Longrightarrow> journal_step d d'"
| js_change: "plain_changes c \<Longrightarrow> change now op c d = (b, d') \<Longrightarrow> journal_step d d'"
| js_install: "install_ready now op target digest d = (b, d') \<Longrightarrow> journal_step d d'"
| js_switch: "begin_switch now op d = (b, d') \<Longrightarrow> journal_step d d'"
| js_activate: "begin_activation now op d = (b, d') \<Longrightarrow> journal_step d d'"
| js_client: "client_result now op c d = Inr (b, d') \<Longrightarrow> journal_step d d'"
| js_retry: "prepare_proxy_retry now op consent d = Inr (b, d') \<Longrightarrow> journal_step d d'"
| js_cancel: "cancel now later d = (b, d') \<Longrightarrow> journal_step d d'"
| js_installed: "installed now fresh owner x m d = (r, d') \<Longrightarrow> journal_step d d'"
| js_startup: "startup_result now op res d = Inr (b, d') \<Longrightarrow> journal_step d d'"
| js_proxy: "proxy_result now op replay res d = Inr (b, d') \<Longrightarrow> journal_step d d'"
| js_fail: "fail now op message d = (b, d') \<Longrightarrow> journal_step d d'"

inductive journal_reachable :: "pydict \<Rightarrow> bool" where
  jr_empty: "journal_reachable []"
| jr_step: "journal_reachable d \<Longrightarrow> journal_step d d' \<Longrightarrow> journal_reachable d'"

text \<open>Never both a cancellation request and a started activation.\<close>

definition exclusive :: "pydict \<Rightarrow> bool" where
  "exclusive d = (\<not> (truthy (dget d ''cancel_requested'') \<and> truthy (dget d ''activation_started'')))"


section \<open>Properties of the operations\<close>

lemma dget_write [simp]: "dget (write_record now v) j = (if j = ''updated_at'' then PFloat now else dget v j)"
  by (simp add: write_record_def)

lemma dget_default [simp]: "j \<noteq> k \<Longrightarrow> dget (set_default k v d) j = dget d j"
  by (simp add: set_default_def)

lemma exclusive_read: "exclusive d \<Longrightarrow> exclusive (read_record d)"
  by (simp add: read_record_def exclusive_def dget_def dget_or_def)

lemma exclusive_cong: "dget e ''cancel_requested'' = dget d ''cancel_requested'' \<Longrightarrow>
    dget e ''activation_started'' = dget d ''activation_started'' \<Longrightarrow> exclusive d \<Longrightarrow> exclusive e"
  by (simp add: exclusive_def)

lemma begin_exclusive: "begin_update now fresh owner q d = Inr d' \<Longrightarrow> exclusive d'"
  by (auto simp: begin_update_def Let_def exclusive_def dget_def dget_or_def write_record_def dset_def update_conv'
           split: if_splits option.splits)

lemma merge_plain_exclusive: "plain_changes c \<Longrightarrow> exclusive d \<Longrightarrow> exclusive (dmerge d c)"
proof (induction c arbitrary: d)
  case (Cons kv c)
  obtain k x where kv: "kv = (k, x)" by (cases kv)
  have "exclusive (dset k x d)" using Cons.prems kv by (auto simp: plain_changes_def exclusive_def)
  then show ?case using Cons.IH [of "dset k x d"] Cons.prems(1) kv by (simp add: plain_changes_def)
qed simp

lemma change_exclusive:
  assumes "plain_changes c" "change now op c d = (b, d')" "exclusive d"
  shows "exclusive d'"
proof -
  have "exclusive (dmerge (read_record d) c)"
    by (rule merge_plain_exclusive [OF assms(1) exclusive_read [OF assms(3)]])
  then show ?thesis using assms by (auto simp: change_def Let_def exclusive_def split: if_splits)
qed

lemma guarded_exclusive:
  "exclusive d \<Longrightarrow> install_ready now op target digest d = (b, d') \<Longrightarrow> exclusive d'"
  "exclusive d \<Longrightarrow> begin_switch now op d = (b, d') \<Longrightarrow> exclusive d'"
  "exclusive d \<Longrightarrow> begin_activation now op d = (b, d') \<Longrightarrow> exclusive d'"
  "exclusive d \<Longrightarrow> cancel now later d = (b, d') \<Longrightarrow> exclusive d'"
  by (auto simp: install_ready_def begin_switch_def begin_activation_def cancel_def Let_def exclusive_def split: if_splits)

lemma exclusive_set [simp]:
  "j \<noteq> ''cancel_requested'' \<Longrightarrow> j \<noteq> ''activation_started'' \<Longrightarrow> exclusive (dset j x v) = exclusive v"
  "j \<noteq> ''cancel_requested'' \<Longrightarrow> j \<noteq> ''activation_started'' \<Longrightarrow> exclusive (set_default j x v) = exclusive v"
  "exclusive (write_record now v) = exclusive v"
  by (simp_all add: exclusive_def)

lemma client_exclusive: "exclusive d \<Longrightarrow> client_result now op c d = Inr (b, d') \<Longrightarrow> exclusive d'"
  using exclusive_read [of d] by (auto simp: client_result_def Let_def split: if_split_asm)

lemma startup_exclusive: "exclusive d \<Longrightarrow> startup_result now op res d = Inr (b, d') \<Longrightarrow> exclusive d'"
  using exclusive_read [of d] by (auto simp: startup_result_def Let_def split: if_split_asm)

lemma retry_exclusive: "exclusive d \<Longrightarrow> prepare_proxy_retry now op consent d = Inr (b, d') \<Longrightarrow> exclusive d'"
  by (auto simp: prepare_proxy_retry_def Let_def exclusive_def split: if_split_asm)

lemmas reported_exclusive = client_exclusive startup_exclusive retry_exclusive

lemma installed_into_exclusive: "exclusive d \<Longrightarrow> installed_into now op m d = (r, d') \<Longrightarrow> exclusive d'"
  by (auto simp: installed_into_def Let_def exclusive_def split: if_splits)

lemma installed_exclusive: "exclusive d \<Longrightarrow> installed now fresh owner x m d = (r, d') \<Longrightarrow> exclusive d'"
  by (auto simp: installed_def split: if_splits option.splits sum.splits dest: installed_into_exclusive begin_exclusive
      intro: installed_into_exclusive [OF begin_exclusive])

lemma proxy_result_cases:
  assumes "proxy_result now op replay res d = Inr (b, d')"
  shows "d' = d \<or> b \<and> d' = store_proxy_result now res (read_record d) \<and> \<not> foreign_result op replay res (read_record d)
           \<and> \<not> returns_to_queue (dsub (read_record d) ''proxy'') res"
  using assms by (auto simp: proxy_result_def Let_def bindE_def split: if_splits sum.splits)

lemma store_exclusive: "exclusive v \<Longrightarrow> exclusive (store_proxy_result now res v)"
  by (simp add: store_proxy_result_def Let_def exclusive_def)

lemma fail_exclusive: "exclusive d \<Longrightarrow> fail now op message d = (b, d') \<Longrightarrow> exclusive d'"
  unfolding fail_def Let_def by (erule change_exclusive [rotated]) (simp_all add: plain_changes_def)

lemma journal_step_exclusive: "journal_step d d' \<Longrightarrow> exclusive d \<Longrightarrow> exclusive d'"
proof (induction rule: journal_step.induct)
  case (js_proxy now op replay res d b d')
  then show ?case using proxy_result_cases [OF js_proxy(1)] store_exclusive [OF exclusive_read [of d]] by auto
qed (blast intro: begin_exclusive change_exclusive guarded_exclusive reported_exclusive installed_exclusive fail_exclusive)+

lemma overall_phase_complete:
  assumes "overall_phase r c = PStr ''complete''"
  shows "c = PStr ''complete'' \<and>
         is_in (dget (dsub r ''client'') ''phase'') [''restarted'', ''not_running'', ''not_applicable''] \<and>
         (installed_gui_required r \<longrightarrow> dget (dsub (dsub r ''app'') ''startup'') ''state'' = PStr ''ready'')"
  using assms by (auto simp: overall_phase_def Let_def split: if_splits)

lemma overall_phase_cong:
  "dsub e ''client'' = dsub d ''client'' \<Longrightarrow> dsub e ''app'' = dsub d ''app'' \<Longrightarrow> dget e ''kind'' = dget d ''kind'' \<Longrightarrow>
   overall_phase e c = overall_phase d c"
  unfolding overall_phase_def installed_gui_required_def by presburger

section \<open>Further properties\<close>

text \<open>
  An update is shown as complete only when its component phase is complete, the client was restarted or need
  not be, and the installed application, where its start was requested, is ready.
\<close>

theorem completion_needs_all_parts:
  assumes "overall_phase r c = PStr ''complete''"
  shows "c = PStr ''complete'' \<and>
    is_in (dget (dsub r ''client'') ''phase'') [''restarted'', ''not_running'', ''not_applicable''] \<and>
    (installed_gui_required r \<longrightarrow> dget (dsub (dsub r ''app'') ''startup'') ''state'' = PStr ''ready'')"
  using assms by (rule overall_phase_complete)

theorem completion_needs_all_parts_witness:
  "\<not> installed_gui_required [(''client'', PDict [(''phase'', PStr ''restarted'')])]"
  using completion_needs_all_parts [of "[(''client'', PDict [(''phase'', PStr ''restarted'')])]" "PStr ''complete''"]
  by (simp add: overall_phase_def installed_gui_required_def is_in_def dsub_def dget_def dget_or_def)

text \<open>
  A proxy result changes the journal only when it belongs to the running operation, its version, its
  connection and, in a replay, its build, and it never takes a started cut-over back to the queue.
\<close>

theorem proxy_result_guarded:
  assumes "proxy_result now op replay res d = Inr (b, d')" "d' \<noteq> d"
  shows "b \<and> owns op (read_record d) \<and> (replay \<longrightarrow> matches_proxy_target (read_record d) res) \<and>
    \<not> returns_to_queue (dsub (read_record d) ''proxy'') res"
  using proxy_result_cases [OF assms(1)] assms(2) by (auto simp: foreign_result_def)

theorem proxy_result_guarded_witness:
  "owns (replicate 32 CHR ''a'') (read_record [(''operation_id'', PStr (replicate 32 CHR ''a''))])"
proof -
  let ?op = "replicate 32 CHR ''a''" and ?d = "[(''operation_id'', PStr (replicate 32 CHR ''a''))]"
  have id: "valid_id (PStr ?op)" by (simp add: valid_id_def list_all_iff)
  then have v: "read_record ?d = ?d" by (simp add: read_record_def dget_def dget_or_def)
  obtain b d' where r: "proxy_result 5 ?op False [] ?d = Inr (b, d')" "dget d' ''updated_at'' = PFloat 5"
    by (simp add: proxy_result_def v foreign_result_def owns_def returns_to_queue_def mapped_phase_def dsub_def
        dget_def dget_or_def is_in_def store_proxy_result_def write_record_def dset_def update_conv' Let_def)
  then have "d' \<noteq> ?d" by (auto simp: dget_def dget_or_def)
  from proxy_result_guarded [OF r(1) this] show ?thesis by blast
qed

section \<open>Claims\<close>



end
