(* ===== verification/Websockets.thy ===== *)
theory Websockets
  imports Pydict
begin

text \<open>
  Admission and safe retirement of the relay's WebSocket connections:
  \<open>cachemonitor/proxy_websocket.py\<close>. \<open>Activity\<close> decides from the metadata of the frames
  whether a connection is idle; \<open>WebSocketBudget\<close> admits connections up to a budget and
  closes idle ones. All of it runs on one event loop, so an execution is a sequence of
  the methods below, each with the clock reading it makes.
\<close>

section \<open>Activity of one connection\<close>

record activity =
  ac_connected_at :: "rat option"
  ac_connecting :: bool
  ac_idle_since :: "rat option"
  ac_pending :: "(pyval \<times> pyval list) list"  \<comment> \<open>event ids by lane\<close>
  ac_active :: "(pyval \<times> pyval) list"  \<comment> \<open>lane by response id\<close>
  ac_completed :: "pyval list"
  ac_cancelling :: "pyval list"
  ac_forwarding :: int
  ac_unknown :: bool
  ac_unknown_events :: "string list"
  ac_closing :: bool

definition new_activity :: "bool \<Rightarrow> activity" where
  "new_activity known = \<lparr>ac_connected_at = None, ac_connecting = False, ac_idle_since = None, ac_pending = [],
     ac_active = [], ac_completed = [], ac_cancelling = [], ac_forwarding = 0, ac_unknown = (\<not> known),
     ac_unknown_events = [], ac_closing = False\<rparr>"

definition ac_busy :: "activity \<Rightarrow> bool" where
  "ac_busy a = (ac_unknown a \<or> ac_forwarding a \<noteq> 0 \<or> ac_active a \<noteq> [] \<or> list_ex (\<lambda>(lane, q). q \<noteq> []) (ac_pending a))"

datatype ws_state = Ws_closing | Ws_connecting | Ws_reserved | Ws_unknown | Ws_responding | Ws_idle

definition ac_state :: "activity \<Rightarrow> ws_state" where
  "ac_state a =
    (if ac_closing a then Ws_closing
     else if ac_connected_at a = None then (if ac_connecting a then Ws_connecting else Ws_reserved)
     else if ac_unknown a then Ws_unknown
     else if ac_busy a then Ws_responding else Ws_idle)"

definition settle :: "rat \<Rightarrow> activity \<Rightarrow> activity" where
  "settle now a =
    (if ac_busy a then a\<lparr>ac_idle_since := None\<rparr>
     else if ac_idle_since a = None then a\<lparr>ac_idle_since := Some now\<rparr> else a)"

definition ac_connect :: "rat \<Rightarrow> activity \<Rightarrow> activity" where
  "ac_connect now a = settle now (a\<lparr>ac_connected_at := Some now\<rparr>)"

text \<open>\<open>[a-z][a-z0-9_.]{0,63}\<close>\<close>

definition event_name :: "pyval \<Rightarrow> string" where
  "event_name v = (case v of
      PStr s \<Rightarrow> if s \<noteq> [] \<and> length s \<le> 64 \<and> CHR ''a'' \<le> hd s \<and> hd s \<le> CHR ''z'' \<and>
          list_all (\<lambda>c. CHR ''a'' \<le> c \<and> c \<le> CHR ''z'' \<or> CHR ''0'' \<le> c \<and> c \<le> CHR ''9'' \<or> c = CHR ''_'' \<or> c = CHR ''.'') (tl s)
        then s else ''invalid_event''
    | _ \<Rightarrow> ''invalid_event'')"

definition unclassified :: "pyval \<Rightarrow> bool \<Rightarrow> activity \<Rightarrow> activity" where
  "unclassified typ outbound a = a\<lparr>ac_unknown := True,
     ac_unknown_events := (if length (ac_unknown_events a) < 8
       then List.insert ((if outbound then ''client:'' else ''upstream:'') @ event_name typ) (ac_unknown_events a)
       else ac_unknown_events a)\<rparr>"

definition frame_type :: "pydict \<Rightarrow> pyval" where "frame_type obj = dget_or obj ''type'' (PStr [])"
definition frame_lane :: "pydict \<Rightarrow> pyval" where "frame_lane obj = dget_or obj ''stream_id'' (PStr [])"

definition frame_response :: "pydict \<Rightarrow> pyval" where
  "frame_response obj = (let r = dget (dsub obj ''response'') ''id'' in if truthy r then r else dget obj ''response_id'')"

definition lane_queue :: "activity \<Rightarrow> pyval \<Rightarrow> pyval list" where
  "lane_queue a lane = (case map_of (ac_pending a) lane of None \<Rightarrow> [] | Some q \<Rightarrow> q)"

text \<open>\<open>begin\<close>: a frame was received; false when the connection is being closed.\<close>

definition begin_frame :: "pydict \<Rightarrow> bool \<Rightarrow> activity \<Rightarrow> bool \<times> activity" where
  "begin_frame obj outbound a =
    (if ac_closing a then (False, a)
     else (let b = a\<lparr>ac_forwarding := ac_forwarding a + 1\<rparr>; typ = frame_type obj; lane = frame_lane obj in
       (True,
        if \<not> outbound then b
        else if is_in typ [''response.create'', ''response.steer'']
        then b\<lparr>ac_pending := AList.update lane (lane_queue b lane @ [dget_or obj ''event_id'' (PStr [])]) (ac_pending b),
               ac_idle_since := None\<rparr>
        else if is_in typ [''response.cancel'', ''response.interrupt'']
        then b\<lparr>ac_cancelling := List.insert lane (ac_cancelling b)\<rparr>
        else if \<not> is_in typ [''ping'', ''pong'', ''ack'', ''session.update'']
        then unclassified typ True b else b)))"

definition TERMINAL :: "string list" where
  "TERMINAL = [''response.completed'', ''response.failed'', ''response.incomplete'', ''response.cancelled'']"

text \<open>The first frame of a response takes the oldest request of its lane.\<close>

definition start_response :: "pyval \<Rightarrow> pyval \<Rightarrow> activity \<Rightarrow> activity" where
  "start_response rid lane a =
    (if rid \<in> fst ` set (ac_active a) then a
     else (let p = (case lane_queue a lane of
                 [] \<Rightarrow> ac_pending a
               | [x] \<Rightarrow> AList.delete lane (ac_pending a)
               | x # y # q \<Rightarrow> AList.update lane (y # q) (ac_pending a))
           in a\<lparr>ac_pending := p, ac_active := AList.update rid lane (ac_active a)\<rparr>))"

definition end_response :: "pyval \<Rightarrow> activity \<Rightarrow> activity" where
  "end_response rid a =
    (let lane = (case map_of (ac_active a) rid of None \<Rightarrow> PNone | Some l \<Rightarrow> l)
     in a\<lparr>ac_active := AList.delete rid (ac_active a), ac_cancelling := remove1 lane (ac_cancelling a),
          ac_completed := List.insert rid (ac_completed a)\<rparr>)"

definition known_server_type :: "pyval \<Rightarrow> bool" where
  "known_server_type typ = (case typ of
      PStr s \<Rightarrow> s \<noteq> [] \<and>
        (list_ex (\<lambda>p. take (length p) s = p) [''response.'', ''session.'', ''rate_limits.'', ''usage.'', ''status.''] \<or>
         s \<in> set [''ping'', ''pong'', ''ack'', ''usage'', ''status'', ''codex.rate_limits'', ''codex.response.metadata'',
                 ''responsesapi.websocket_timing''])
    | _ \<Rightarrow> False)"

text \<open>\<open>delivered\<close>: the frame reached the other side.\<close>

definition deliver :: "pydict \<Rightarrow> bool \<Rightarrow> activity \<Rightarrow> activity" where
  "deliver obj outbound a =
    (if outbound then a
     else (let typ = frame_type obj; rid = frame_response obj; lane = frame_lane obj in
       if truthy rid \<and> rid \<notin> set (ac_completed a)
       then (let b = start_response rid lane a in if is_in typ TERMINAL then end_response rid b else b)
       else if typ = PStr ''error''
       then (if lane \<in> set (ac_cancelling a) then a
             else if length (lane_queue a lane) = 1 \<and> lane \<notin> snd ` set (ac_active a)
             then a\<lparr>ac_pending := AList.delete lane (ac_pending a)\<rparr>
             else if lane_queue a lane \<noteq> [] \<or> ac_active a \<noteq> [] then unclassified typ False a else a)
       else if \<not> known_server_type typ then unclassified typ False a else a))"

definition delivered :: "rat \<Rightarrow> pydict \<Rightarrow> bool \<Rightarrow> activity \<Rightarrow> activity" where
  "delivered now obj outbound a = (let b = deliver obj outbound a in settle now (b\<lparr>ac_forwarding := ac_forwarding b - 1\<rparr>))"

section \<open>The budget\<close>

record policy =
  po_budget :: nat
  po_idle_limit :: nat
  po_idle_seconds :: rat
  po_lifetime_seconds :: rat
  po_pressure_start :: nat
  po_pressure_target :: nat
  po_capacity_seconds :: rat
  po_waiters :: nat

definition POLICY :: policy where
  "POLICY = \<lparr>po_budget = 100, po_idle_limit = 32, po_idle_seconds = 300, po_lifetime_seconds = 1800,
     po_pressure_start = 90, po_pressure_target = 80, po_capacity_seconds = 5, po_waiters = 16\<rparr>"

datatype retirement = By_update | By_lifetime | By_idle | By_limit | By_capacity

text \<open>An entry of the budget: the activity, and whether the close function is known.\<close>

type_synonym entry = "nat \<times> activity \<times> bool"

record budget =
  bu_entries :: "entry list"
  bu_waiting :: nat
  bu_retired :: "(nat \<times> retirement) list"
  bu_draining :: bool

definition new_budget :: budget where
  "new_budget = \<lparr>bu_entries = [], bu_waiting = 0, bu_retired = [], bu_draining = False\<rparr>"

definition retirable :: "entry \<Rightarrow> bool" where
  "retirable e = (case e of (k, a, close) \<Rightarrow> ac_state a = Ws_idle \<and> close)"

definition idle_since :: "entry \<Rightarrow> rat" where
  "idle_since e = (case e of (k, a, close) \<Rightarrow> case ac_idle_since a of Some t \<Rightarrow> t | None \<Rightarrow> 0)"

definition mark_closing :: "nat \<Rightarrow> entry list \<Rightarrow> entry list" where
  "mark_closing key = map (\<lambda>(k, a, close). (k, if k = key then a\<lparr>ac_closing := True\<rparr> else a, close))"

record reap_state =
  rs_entries :: "entry list"
  rs_remaining :: nat
  rs_closing :: nat
  rs_retired :: "(nat \<times> retirement) list"

definition reap_reason :: "policy \<Rightarrow> rat \<Rightarrow> bool \<Rightarrow> nat \<Rightarrow> nat \<Rightarrow> reap_state \<Rightarrow> activity \<Rightarrow> retirement option" where
  "reap_reason po now draining occupied incoming r a =
    (if draining then Some By_update
     else if now - the (ac_connected_at a) \<ge> po_lifetime_seconds po then Some By_lifetime
     else if now - the (ac_idle_since a) \<ge> po_idle_seconds po then Some By_idle
     else if rs_remaining r > po_idle_limit po then Some By_limit
     else if occupied + incoming \<ge> po_pressure_start po \<and> int (occupied + incoming) - int (rs_closing r) > int (po_pressure_target po)
     then Some By_capacity else None)"

definition reap_one :: "policy \<Rightarrow> rat \<Rightarrow> bool \<Rightarrow> nat \<Rightarrow> nat \<Rightarrow> nat option \<Rightarrow> entry \<Rightarrow> reap_state \<Rightarrow> reap_state" where
  "reap_one po now draining occupied incoming exclude e r =
    (case e of (k, a, close) \<Rightarrow>
      if exclude = Some k then r
      else case reap_reason po now draining occupied incoming r a of
          None \<Rightarrow> r
        | Some reason \<Rightarrow> r\<lparr>rs_entries := mark_closing k (rs_entries r), rs_remaining := rs_remaining r - 1,
             rs_closing := rs_closing r + 1, rs_retired := rs_retired r @ [(k, reason)]\<rparr>)"

definition idle_entries :: "budget \<Rightarrow> entry list" where
  "idle_entries b = sort_key idle_since (filter retirable (bu_entries b))"

definition reap :: "policy \<Rightarrow> rat \<Rightarrow> nat \<Rightarrow> nat option \<Rightarrow> budget \<Rightarrow> budget" where
  "reap po now incoming exclude b =
    (let idle = idle_entries b;
         r = foldl (\<lambda>r e. reap_one po now (bu_draining b) (length (bu_entries b)) incoming exclude e r)
               \<lparr>rs_entries = bu_entries b, rs_remaining = length idle,
                rs_closing = length (filter (\<lambda>(k, a, c). ac_closing a) (bu_entries b)), rs_retired = bu_retired b\<rparr> idle
     in b\<lparr>bu_entries := rs_entries r, bu_retired := rs_retired r\<rparr>)"

text \<open>
  \<open>reserve\<close> up to its loop, one look of the loop, and a wake-up; between a look that waits
  and the wake-up other methods run.
\<close>

definition reserve_enter :: "policy \<Rightarrow> rat \<Rightarrow> budget \<Rightarrow> bool \<times> budget" where
  "reserve_enter po now b =
    (let c = reap po now 1 None b
     in if bu_waiting c \<ge> po_waiters po then (False, c) else (True, c\<lparr>bu_waiting := bu_waiting c + 1\<rparr>))"

datatype admission = Admitted | Refused | Waits

definition reserve_look :: "policy \<Rightarrow> rat \<Rightarrow> rat \<Rightarrow> nat \<Rightarrow> activity \<Rightarrow> budget \<Rightarrow> admission \<times> budget" where
  "reserve_look po now deadline key a b =
    (if length (bu_entries b) \<ge> po_budget po \<and> \<not> bu_draining b \<and> now < deadline then (Waits, b)
     else if length (bu_entries b) \<ge> po_budget po \<or> bu_draining b
     then (Refused, b\<lparr>bu_waiting := bu_waiting b - 1\<rparr>)
     else (let c = reap po now 0 None (b\<lparr>bu_entries := bu_entries b @ [(key, a, False)]\<rparr>)
           in (Admitted, c\<lparr>bu_waiting := bu_waiting c - 1\<rparr>)))"

definition with_activity :: "nat \<Rightarrow> (activity \<Rightarrow> activity) \<Rightarrow> budget \<Rightarrow> budget" where
  "with_activity key f b = b\<lparr>bu_entries := map (\<lambda>(k, a, c). (k, if k = key then f a else a, c)) (bu_entries b)\<rparr>"

definition connected :: "policy \<Rightarrow> rat \<Rightarrow> nat \<Rightarrow> budget \<Rightarrow> budget" where
  "connected po now key b = reap po now 0 (if bu_draining b then None else Some key)
     (b\<lparr>bu_entries := map (\<lambda>(k, a, c). if k = key then (k, ac_connect now a, True) else (k, a, c)) (bu_entries b)\<rparr>)"

definition release :: "nat \<Rightarrow> budget \<Rightarrow> budget" where
  "release key b = b\<lparr>bu_entries := filter (\<lambda>(k, a, c). k \<noteq> key) (bu_entries b)\<rparr>"

definition start_draining :: "budget \<Rightarrow> budget" where
  "start_draining b = b\<lparr>bu_draining := True\<rparr>"

definition state_count :: "ws_state \<Rightarrow> budget \<Rightarrow> nat" where
  "state_count s b = length (filter (\<lambda>(k, a, c). ac_state a = s) (bu_entries b))"

section \<open>Executions\<close>

text \<open>
  \<open>delivered\<close> is called once for every frame that \<open>begin\<close> accepted, so it needs a frame
  that is being forwarded; a connection is entered with a new activity.
\<close>

definition entry_of :: "nat \<Rightarrow> budget \<Rightarrow> activity option" where
  "entry_of key b = map_option fst (map_of (bu_entries b) key)"

inductive ws_step :: "policy \<Rightarrow> budget \<Rightarrow> budget \<Rightarrow> bool" for po where
  enter: "reserve_enter po now b = (ok, c) \<Longrightarrow> ws_step po b c"
| look: "bu_waiting b > 0 \<Longrightarrow> entry_of key b = None \<Longrightarrow>
    reserve_look po now deadline key (new_activity known) b = (r, c) \<Longrightarrow> ws_step po b c"
| wake: "ws_step po b (reap po now 1 None b)"
| connecting: "ws_step po b (with_activity key (\<lambda>a. a\<lparr>ac_connecting := True\<rparr>) b)"
| connect: "entry_of key b = Some a \<Longrightarrow> ac_connected_at a = None \<Longrightarrow> ws_step po b (connected po now key b)"
| frame: "ws_step po b (with_activity key (\<lambda>a. snd (begin_frame obj out a)) b)"
| deliver: "entry_of key b = Some a \<Longrightarrow> ac_forwarding a > 0 \<Longrightarrow>
    ws_step po b (reap po now 0 None (with_activity key (delivered now obj out) b))"
| scan: "ws_step po b (reap po now 0 None b)"
| release: "ws_step po b (release key b)"
| drain: "ws_step po b (start_draining b)"

inductive ws_reachable :: "policy \<Rightarrow> budget \<Rightarrow> bool" for po where
  init: "ws_reachable po new_budget"
| step: "ws_reachable po b \<Longrightarrow> ws_step po b c \<Longrightarrow> ws_reachable po c"

inductive_cases ws_stepE: "ws_step po b c"

definition activity_ok :: "activity \<Rightarrow> bool" where
  "activity_ok a = (0 \<le> ac_forwarding a \<and> (ac_closing a \<longrightarrow> \<not> ac_busy a) \<and>
     (ac_connected_at a \<noteq> None \<and> \<not> ac_busy a \<longrightarrow> ac_idle_since a \<noteq> None))"

definition budget_ok :: "policy \<Rightarrow> budget \<Rightarrow> bool" where
  "budget_ok po b = (distinct (map fst (bu_entries b)) \<and> length (bu_entries b) \<le> po_budget po \<and>
     bu_waiting b \<le> po_waiters po \<and> list_all (\<lambda>(k, a, c). activity_ok a) (bu_entries b))"

section \<open>Lemmas on activities\<close>

lemma activity_ok_new: "activity_ok (new_activity known)"
  by (auto simp: activity_ok_def new_activity_def ac_busy_def)

lemma settle_ok: "0 \<le> ac_forwarding a \<Longrightarrow> (ac_closing a \<longrightarrow> \<not> ac_busy a) \<Longrightarrow> activity_ok (settle now a)"
  by (auto simp: activity_ok_def settle_def ac_busy_def)

lemma connect_ok: "activity_ok a \<Longrightarrow> activity_ok (ac_connect now a)"
  unfolding ac_connect_def by (rule settle_ok) (auto simp: activity_ok_def ac_busy_def)

lemma begin_busy: "\<not> ac_closing a \<Longrightarrow> ac_forwarding (snd (begin_frame obj out a)) = ac_forwarding a + 1 \<and>
    ac_closing (snd (begin_frame obj out a)) = ac_closing a"
  by (simp add: begin_frame_def unclassified_def Let_def)

lemma begin_ok: "activity_ok a \<Longrightarrow> activity_ok (snd (begin_frame obj out a))"
proof (cases "ac_closing a")
  case False
  assume a: "activity_ok a"
  from begin_busy [OF False, of obj out] a
  have "ac_forwarding (snd (begin_frame obj out a)) > 0" by (simp add: activity_ok_def)
  then have "ac_busy (snd (begin_frame obj out a))" by (simp add: ac_busy_def)
  with begin_busy [OF False, of obj out] a False show ?thesis by (simp add: activity_ok_def)
qed (simp add: begin_frame_def)

lemma start_response_fields [simp]:
  "ac_forwarding (start_response rid lane a) = ac_forwarding a" "ac_closing (start_response rid lane a) = ac_closing a"
  by (simp_all add: start_response_def Let_def)

lemma end_response_fields [simp]:
  "ac_forwarding (end_response rid a) = ac_forwarding a" "ac_closing (end_response rid a) = ac_closing a"
  by (simp_all add: end_response_def Let_def)

lemma deliver_fields [simp]:
  "ac_forwarding (deliver obj out a) = ac_forwarding a" "ac_closing (deliver obj out a) = ac_closing a"
  by (auto simp: deliver_def unclassified_def Let_def)

lemma delivered_ok: "activity_ok a \<Longrightarrow> ac_forwarding a > 0 \<Longrightarrow> activity_ok (delivered now obj out a)"
proof -
  assume a: "activity_ok a" and f: "ac_forwarding a > 0"
  from f have "ac_busy a" by (simp add: ac_busy_def)
  with a have "\<not> ac_closing a" by (simp add: activity_ok_def)
  then show ?thesis unfolding delivered_def Let_def using f by (intro settle_ok) auto
qed

lemma idle_not_busy: "ac_state a = Ws_idle \<Longrightarrow> \<not> ac_busy a \<and> \<not> ac_closing a \<and> ac_connected_at a \<noteq> None"
  by (auto simp: ac_state_def split: if_splits)

lemma close_ok: "activity_ok a \<Longrightarrow> ac_state a = Ws_idle \<Longrightarrow> activity_ok (a\<lparr>ac_closing := True\<rparr>)"
  using idle_not_busy [of a] by (auto simp: activity_ok_def ac_busy_def)

section \<open>Lemmas on retirement\<close>

definition closing_count :: "entry list \<Rightarrow> nat" where
  "closing_count es = length (filter (\<lambda>(k, a, c). ac_closing a) es)"

lemma mark_keys [simp]: "map fst (mark_closing key es) = map fst es"
  by (auto simp: mark_closing_def)

lemma mark_length [simp]: "length (mark_closing key es) = length es"
  by (simp add: mark_closing_def)

lemma retirable_marked: "\<not> retirable (k, a\<lparr>ac_closing := True\<rparr>, c)"
  by (simp add: retirable_def ac_state_def)

lemma mark_other: "key \<notin> fst ` set es \<Longrightarrow> mark_closing key es = es"
  by (induction es) (auto simp: mark_closing_def)

lemma mark_Cons: "mark_closing key ((k, a, c) # es) = (k, if k = key then a\<lparr>ac_closing := True\<rparr> else a, c) # mark_closing key es"
  by (simp add: mark_closing_def)

lemma mark_retirable: "filter retirable (mark_closing key es) = filter (\<lambda>e. fst e \<noteq> key) (filter retirable es)"
proof (induction es)
  case (Cons e es)
  then show ?case by (cases e) (auto simp: mark_Cons retirable_marked)
qed (simp add: mark_closing_def)

lemma mark_counts:
  assumes "distinct (map fst es)" and "e \<in> set es" and "retirable e"
  shows "length (filter retirable es) = Suc (length (filter retirable (mark_closing (fst e) es)))"
    and "closing_count (mark_closing (fst e) es) = Suc (closing_count es)"
proof -
  have "length (filter retirable es) = Suc (length (filter retirable (mark_closing (fst e) es))) \<and>
    closing_count (mark_closing (fst e) es) = Suc (closing_count es)"
    using assms
  proof (induction es)
    case (Cons x es)
    obtain k a c where x: "x = (k, a, c)" by (cases x)
    show ?case
    proof (cases "e = x")
      case True
      with Cons.prems have n: "fst e \<notin> fst ` set es" by auto
      from True Cons.prems x have "ac_state a = Ws_idle" by (simp add: retirable_def)
      then have "\<not> ac_closing a" using idle_not_busy by blast
      with True x n Cons.prems show ?thesis
        by (simp add: mark_Cons mark_other retirable_marked closing_count_def)
    next
      case False
      with Cons have "e \<in> set es" by simp
      with Cons.prems have "k \<noteq> fst e" by (auto simp: x)
      with Cons.IH Cons.prems \<open>e \<in> set es\<close> show ?thesis
        by (auto simp: x mark_Cons closing_count_def)
    qed
  qed simp
  then show "length (filter retirable es) = Suc (length (filter retirable (mark_closing (fst e) es)))"
    and "closing_count (mark_closing (fst e) es) = Suc (closing_count es)" by auto
qed

text \<open>
  The loop of \<open>reap\<close>: every idle connection that is still there was looked at and kept, and
  the reason to keep it stays valid, since later retirements only lower the numbers.
\<close>

definition reap_ok :: "policy \<Rightarrow> rat \<Rightarrow> bool \<Rightarrow> nat \<Rightarrow> nat \<Rightarrow> nat option \<Rightarrow> entry list \<Rightarrow> reap_state \<Rightarrow> bool" where
  "reap_ok po now dr occupied incoming exclude rest r =
    (distinct (map fst (rs_entries r)) \<and> rs_remaining r = length (filter retirable (rs_entries r)) \<and>
     rs_closing r = closing_count (rs_entries r) \<and> distinct (map fst rest) \<and>
     set rest \<subseteq> set (filter retirable (rs_entries r)) \<and>
     (\<forall>e \<in> set (filter retirable (rs_entries r)) - set rest.
        exclude = Some (fst e) \<or> reap_reason po now dr occupied incoming r (fst (snd e)) = None))"

lemma reap_reason_mono:
  "reap_reason po now dr occ inc r a = None \<Longrightarrow> rs_remaining q \<le> rs_remaining r \<Longrightarrow> rs_closing r \<le> rs_closing q \<Longrightarrow>
    reap_reason po now dr occ inc q a = None"
  by (auto simp: reap_reason_def split: if_splits)

lemma reap_one_ok:
  assumes ok: "reap_ok po now dr occ inc ex (e # rest) r"
  shows "reap_ok po now dr occ inc ex rest (reap_one po now dr occ inc ex e r)"
proof -
  obtain k a c where e: "e = (k, a, c)" by (cases e)
  show ?thesis
  proof (cases "ex = Some k \<or> reap_reason po now dr occ inc r a = None")
    case True
    then have "reap_one po now dr occ inc ex e r = r" by (auto simp: reap_one_def e)
    with ok True show ?thesis by (auto simp: reap_ok_def e)
  next
    case False
    then obtain why where why: "reap_reason po now dr occ inc r a = Some why" "ex \<noteq> Some k" by auto
    let ?q = "reap_one po now dr occ inc ex e r"
    from why have q: "rs_entries ?q = mark_closing k (rs_entries r)" "rs_remaining ?q = rs_remaining r - 1"
      "rs_closing ?q = rs_closing r + 1" by (simp_all add: reap_one_def e)
    from ok have mem: "e \<in> set (rs_entries r)" "retirable e" "distinct (map fst (rs_entries r))" by (auto simp: reap_ok_def)
    from mark_counts [OF mem(3,1,2)] have n: "length (filter retirable (rs_entries r)) = Suc (length (filter retirable (mark_closing k (rs_entries r))))"
      "closing_count (mark_closing k (rs_entries r)) = Suc (closing_count (rs_entries r))" by (simp_all add: e)
    have keep: "x \<in> set rest \<Longrightarrow> x \<in> set (filter retirable (mark_closing k (rs_entries r)))" for x
      using ok by (auto simp: reap_ok_def mark_retirable e)
    have old: "exclude = Some (fst x) \<or> reap_reason po now dr occ inc ?q (fst (snd x)) = None"
      if "x \<in> set (filter retirable (mark_closing k (rs_entries r))) - set rest" and "exclude = ex" for x exclude
    proof -
      from that have "x \<in> set (filter retirable (rs_entries r)) - set (e # rest)" by (auto simp: mark_retirable e)
      with ok that(2) have "exclude = Some (fst x) \<or> reap_reason po now dr occ inc r (fst (snd x)) = None"
        by (simp add: reap_ok_def)
      moreover have "reap_reason po now dr occ inc r (fst (snd x)) = None \<Longrightarrow> reap_reason po now dr occ inc ?q (fst (snd x)) = None"
        by (rule reap_reason_mono) (use q in auto)
      ultimately show ?thesis by (elim disjE) simp_all
    qed
    have "distinct (map fst rest)" using ok by (simp add: reap_ok_def)
    with mem(3) n keep old q ok show ?thesis unfolding reap_ok_def by auto
  qed
qed

lemma reap_fold_ok:
  "reap_ok po now dr occ inc ex es r \<Longrightarrow>
    reap_ok po now dr occ inc ex [] (foldl (\<lambda>r e. reap_one po now dr occ inc ex e r) r es)"
proof (induction es arbitrary: r)
  case (Cons e es)
  from Cons.IH [OF reap_one_ok [OF Cons.prems]] show ?case by simp
qed simp

definition reap_fold :: "policy \<Rightarrow> rat \<Rightarrow> nat \<Rightarrow> nat option \<Rightarrow> budget \<Rightarrow> reap_state" where
  "reap_fold po now incoming exclude b =
     foldl (\<lambda>r e. reap_one po now (bu_draining b) (length (bu_entries b)) incoming exclude e r)
       \<lparr>rs_entries = bu_entries b, rs_remaining = length (idle_entries b),
        rs_closing = closing_count (bu_entries b), rs_retired = bu_retired b\<rparr> (idle_entries b)"

lemma reap_by_fold:
  "bu_entries (reap po now inc ex b) = rs_entries (reap_fold po now inc ex b)"
  "bu_waiting (reap po now inc ex b) = bu_waiting b" "bu_draining (reap po now inc ex b) = bu_draining b"
  by (simp_all add: reap_def reap_fold_def closing_count_def Let_def)

lemma idle_entries_facts:
  "set (idle_entries b) = {e \<in> set (bu_entries b). retirable e}"
  "length (idle_entries b) = length (filter retirable (bu_entries b))"
  "distinct (map fst (bu_entries b)) \<Longrightarrow> distinct (map fst (idle_entries b))"
proof -
  show "set (idle_entries b) = {e \<in> set (bu_entries b). retirable e}" by (auto simp: idle_entries_def)
  show "length (idle_entries b) = length (filter retirable (bu_entries b))" by (simp add: idle_entries_def)
  assume d: "distinct (map fst (bu_entries b))"
  have "mset (map fst (idle_entries b)) = mset (map fst (filter retirable (bu_entries b)))"
    unfolding idle_entries_def mset_map by simp
  then have "distinct (map fst (idle_entries b)) = distinct (map fst (filter retirable (bu_entries b)))"
    by (rule mset_eq_imp_distinct_iff)
  also have "\<dots>" using d by (induction "bu_entries b" arbitrary: b) (auto simp: distinct_map_filter)
  finally show "distinct (map fst (idle_entries b))" .
qed

lemma reap_fold_start:
  assumes "distinct (map fst (bu_entries b))"
  shows "reap_ok po now (bu_draining b) (length (bu_entries b)) inc ex [] (reap_fold po now inc ex b)"
  unfolding reap_fold_def
  by (rule reap_fold_ok) (use assms idle_entries_facts [of b] in \<open>auto simp: reap_ok_def\<close>)

text \<open>What retirement does to the entries: it closes idle ones and nothing else.\<close>

definition retires :: "entry \<Rightarrow> entry \<Rightarrow> bool" where
  "retires x y = (y = x \<or> retirable x \<and> y = (fst x, (fst (snd x))\<lparr>ac_closing := True\<rparr>, snd (snd x)))"

lemma mark_retires:
  assumes "list_all2 retires xs ys" and "\<And>y. y \<in> set ys \<Longrightarrow> fst y = k \<Longrightarrow> retirable y"
  shows "list_all2 retires xs (mark_closing k ys)"
  using assms
proof (induction rule: list_all2_induct)
  case (Cons x xs y ys)
  obtain j a c where y: "y = (j, a, c)" by (cases y)
  have "list_all2 retires xs (mark_closing k ys)" using Cons by auto
  moreover have "retires x (j, if j = k then a\<lparr>ac_closing := True\<rparr> else a, c)"
  proof (cases "j = k")
    case True
    with Cons.prems have "retirable y" by (simp add: y)
    with Cons.hyps(1) have "y = x" using retirable_marked by (auto simp: retires_def)
    with True \<open>retirable y\<close> y show ?thesis by (auto simp: retires_def)
  next
    case False
    with Cons.hyps(1) y show ?thesis by simp
  qed
  ultimately show ?case by (simp add: y mark_Cons)
qed (simp add: mark_closing_def)

lemma retires_fold:
  assumes "reap_ok po now dr occ inc ex es r" and "list_all2 retires xs (rs_entries r)"
  shows "list_all2 retires xs (rs_entries (foldl (\<lambda>r e. reap_one po now dr occ inc ex e r) r es))"
  using assms
proof (induction es arbitrary: r)
  case (Cons e es)
  obtain k a c where e: "e = (k, a, c)" by (cases e)
  have "list_all2 retires xs (rs_entries (reap_one po now dr occ inc ex e r))"
  proof (cases "ex = Some k \<or> reap_reason po now dr occ inc r a = None")
    case True
    then have "reap_one po now dr occ inc ex e r = r" by (auto simp: reap_one_def e)
    with Cons.prems show ?thesis by simp
  next
    case False
    then have q: "rs_entries (reap_one po now dr occ inc ex e r) = mark_closing k (rs_entries r)"
      by (auto simp: reap_one_def e)
    from Cons.prems(1) have d: "distinct (map fst (rs_entries r))" "e \<in> set (rs_entries r)" "retirable e"
      by (auto simp: reap_ok_def)
    have "y = e" if "y \<in> set (rs_entries r)" "fst y = k" for y
      using d(1,2) that e by (metis fst_conv eq_key_imp_eq_value prod.collapse)
    with d(3) Cons.prems(2) show ?thesis unfolding q by (intro mark_retires) auto
  qed
  with Cons.IH [OF reap_one_ok [OF Cons.prems(1)]] show ?case by simp
qed simp

lemma retires_refl: "list_all2 retires xs xs"
  by (rule list_all2_refl) (simp add: retires_def)

lemma reap_retires:
  assumes "distinct (map fst (bu_entries b))"
  shows "list_all2 retires (bu_entries b) (bu_entries (reap po now inc ex b))"
  unfolding reap_by_fold reap_fold_def
  by (rule retires_fold) (use assms idle_entries_facts [of b] retires_refl in \<open>auto simp: reap_ok_def\<close>)

lemma retires_keys: "list_all2 retires xs ys \<Longrightarrow> map fst ys = map fst xs"
  by (induction rule: list_all2_induct) (auto simp: retires_def)

lemma retires_ok:
  "list_all2 retires xs ys \<Longrightarrow> list_all (\<lambda>(k, a, c). activity_ok a) xs \<Longrightarrow> list_all (\<lambda>(k, a, c). activity_ok a) ys"
  by (induction rule: list_all2_induct) (auto simp: retires_def retirable_def intro: close_ok)

lemma reap_budget_ok: "budget_ok po b \<Longrightarrow> budget_ok po (reap po now inc ex b)"
  using reap_retires [of b po now inc ex] retires_keys [of "bu_entries b"] retires_ok [of "bu_entries b"]
  by (auto simp: budget_ok_def reap_by_fold(2) list_all2_lengthD [symmetric])

section \<open>The invariant\<close>

lemma budget_ok_entries:
  assumes "budget_ok po b" and "map fst es = map fst (bu_entries b)" and "list_all (\<lambda>(k, a, c). activity_ok a) es"
  shows "budget_ok po (b\<lparr>bu_entries := es\<rparr>)"
proof -
  have "length es = length (bu_entries b)" using assms(2) by (rule map_eq_imp_length_eq)
  with assms show ?thesis by (simp add: budget_ok_def)
qed

lemma with_activity_ok:
  assumes "budget_ok po b" and "\<And>a. entry_of key b = Some a \<Longrightarrow> activity_ok a \<Longrightarrow> activity_ok (f a)"
  shows "budget_ok po (with_activity key f b)"
proof -
  have "map fst (bu_entries (with_activity key f b)) = map fst (bu_entries b)"
    by (auto simp: with_activity_def)
  moreover have "list_all (\<lambda>(k, a, c). activity_ok a) (bu_entries (with_activity key f b))"
  proof -
    have "activity_ok (if k = key then f a else a)" if "(k, a, c) \<in> set (bu_entries b)" for k a c
    proof (cases "k = key")
      case True
      from that assms(1) have "map_of (bu_entries b) k = Some (a, c)" by (simp add: budget_ok_def)
      with True have "entry_of key b = Some a" by (simp add: entry_of_def)
      moreover have "activity_ok a" using that assms(1) by (auto simp: budget_ok_def list_all_iff)
      ultimately show ?thesis using assms(2) True by simp
    next
      case False
      then show ?thesis using that assms(1) by (auto simp: budget_ok_def list_all_iff)
    qed
    then show ?thesis by (auto simp: list_all_iff with_activity_def)
  qed
  moreover have "length (bu_entries (with_activity key f b)) = length (bu_entries b)"
    "bu_waiting (with_activity key f b) = bu_waiting b" by (simp_all add: with_activity_def)
  ultimately show ?thesis using assms(1) unfolding budget_ok_def by presburger
qed

lemma look_ok:
  assumes b: "budget_ok po b" and w: "bu_waiting b > 0" and k: "entry_of key b = None" and a: "activity_ok a"
    and look: "reserve_look po now deadline key a b = (r, c)"
  shows "budget_ok po c"
proof -
  have fresh: "key \<notin> fst ` set (bu_entries b)"
    using k by (simp add: entry_of_def map_of_eq_None_iff)
  consider "c = b" | "c = b\<lparr>bu_waiting := bu_waiting b - 1\<rparr>"
    | "c = (reap po now 0 None (b\<lparr>bu_entries := bu_entries b @ [(key, a, False)]\<rparr>))\<lparr>bu_waiting := bu_waiting b - 1\<rparr>"
      "length (bu_entries b) < po_budget po"
    using look by (auto simp: reserve_look_def Let_def reap_by_fold split: if_splits)
  then show ?thesis
  proof cases
    case 3
    have "budget_ok po (b\<lparr>bu_entries := bu_entries b @ [(key, a, False)]\<rparr>)"
      using b fresh a 3(2) by (simp add: budget_ok_def image_iff)
    from reap_budget_ok [OF this, of now 0 None] show ?thesis using b w by (auto simp: 3(1) budget_ok_def)
  qed (use b w in \<open>auto simp: budget_ok_def\<close>)
qed

lemma connected_ok:
  assumes "budget_ok po b"
  shows "budget_ok po (connected po now key b)"
proof -
  let ?f = "\<lambda>(k, a, c). if k = key then (k, ac_connect now a, True) else (k, a, c)"
  have "map fst (map ?f (bu_entries b)) = map fst (bu_entries b)" by auto
  moreover have "list_all (\<lambda>(k, a, c). activity_ok a) (map ?f (bu_entries b))"
  proof -
    have ok: "activity_ok a" if "(k, a, c) \<in> set (bu_entries b)" for k a c
      using that assms by (auto simp: budget_ok_def list_all_iff)
    then show ?thesis by (auto simp: list_all_iff intro: ok connect_ok [OF ok] split: if_splits)
  qed
  ultimately have "budget_ok po (b\<lparr>bu_entries := map ?f (bu_entries b)\<rparr>)"
    by (rule budget_ok_entries [OF assms])
  then show ?thesis unfolding connected_def by (rule reap_budget_ok)
qed

lemma release_ok: "budget_ok po b \<Longrightarrow> budget_ok po (release key b)"
  by (auto simp: budget_ok_def release_def list_all_iff distinct_map_filter intro: le_trans [OF length_filter_le])

lemma ws_step_ok:
  assumes "ws_step po b c" and b: "budget_ok po b"
  shows "budget_ok po c"
  using assms(1)
proof (cases rule: ws_step.cases)
  case (enter now ok)
  with reap_budget_ok [OF b, of now 1 None] show ?thesis
    by (auto simp: reserve_enter_def Let_def budget_ok_def split: if_splits)
next
  case (look key now deadline known r)
  then show ?thesis using look_ok [OF b _ _ activity_ok_new] by blast
next
  case (deliver key a now obj out)
  have "budget_ok po (with_activity key (delivered now obj out) b)"
    by (rule with_activity_ok [OF b]) (use deliver delivered_ok in auto)
  then show ?thesis using deliver reap_budget_ok by blast
next
  case (frame key obj out)
  have "budget_ok po (with_activity key (\<lambda>a. snd (begin_frame obj out a)) b)"
    by (rule with_activity_ok [OF b]) (use begin_ok in auto)
  then show ?thesis using frame by simp
next
  case (connecting key)
  have "budget_ok po (with_activity key (\<lambda>a. a\<lparr>ac_connecting := True\<rparr>) b)"
    by (rule with_activity_ok [OF b]) (auto simp: activity_ok_def ac_busy_def)
  then show ?thesis using connecting by simp
next
  case (drain)
  with b show ?thesis by (simp add: start_draining_def budget_ok_def)
qed (use b reap_budget_ok connected_ok release_ok in blast)+

lemma ws_reachable_ok: "ws_reachable po b \<Longrightarrow> budget_ok po b"
proof (induction rule: ws_reachable.induct)
  case init
  show ?case by (simp add: budget_ok_def new_budget_def)
next
  case (step b c)
  then show ?case using ws_step_ok by blast
qed

section \<open>After a scan\<close>

lemma reap_leaves:
  assumes b: "distinct (map fst (bu_entries b))" and e: "(k, a, c) \<in> set (bu_entries (reap po now inc None b))"
    and idle: "ac_state a = Ws_idle" "c"
  shows "reap_reason po now (bu_draining b) (length (bu_entries b)) inc (reap_fold po now inc None b) a = None"
proof -
  have "(k, a, c) \<in> set (filter retirable (rs_entries (reap_fold po now inc None b)))"
    using e idle by (simp add: reap_by_fold retirable_def)
  with reap_fold_start [OF b, of po now inc None] show ?thesis by (force simp: reap_ok_def)
qed

lemma reap_numbers:
  assumes "distinct (map fst (bu_entries b))"
  shows "rs_remaining (reap_fold po now inc ex b) = length (filter retirable (bu_entries (reap po now inc ex b)))"
    and "rs_closing (reap_fold po now inc ex b) = closing_count (bu_entries (reap po now inc ex b))"
  using reap_fold_start [OF assms, of po now inc ex] by (simp_all add: reap_ok_def reap_by_fold)

lemma state_partition:
  "sum_list (map (\<lambda>s. state_count s b) [Ws_closing, Ws_connecting, Ws_reserved, Ws_unknown, Ws_responding, Ws_idle]) =
    length (bu_entries b)"
proof (induction "bu_entries b" arbitrary: b)
  case (Cons e es)
  obtain k a c where e: "e = (k, a, c)" by (cases e)
  from Cons(1) [of "b\<lparr>bu_entries := es\<rparr>"] Cons(2) [symmetric]
  show ?case by (cases "ac_state a") (auto simp: state_count_def e)
qed (simp add: state_count_def)

section \<open>Claims\<close>

text \<open>
  C13: In every execution of the relay's event loop a connection that is being closed has no response, no
  waiting request and no frame in transit, no new frame crosses it, and no more connections or waiters are
  held than the policy allows.
\<close>

theorem no_busy_connection_closed:
  assumes "ws_reachable po b"
  shows "length (bu_entries b) \<le> po_budget po \<and> bu_waiting b \<le> po_waiters po \<and>
    (\<forall>k a c. (k, a, c) \<in> set (bu_entries b) \<and> ac_closing a \<longrightarrow>
      \<not> ac_busy a \<and> (\<forall>obj out. begin_frame obj out a = (False, a)))"
  using ws_reachable_ok [OF assms]
  by (fastforce simp: budget_ok_def list_all_iff activity_ok_def begin_frame_def)

theorem no_busy_connection_closed_witness:
  "\<exists>b k a c. ws_reachable POLICY b \<and> (k, a, c) \<in> set (bu_entries b) \<and> ac_closing a \<and> \<not> ac_busy a"
proof -
  let ?b1 = "snd (reserve_enter POLICY 0 new_budget)"
  let ?b2 = "snd (reserve_look POLICY 0 5 7 (new_activity True) ?b1)"
  let ?b3 = "connected POLICY 1 7 ?b2"
  let ?b4 = "reap POLICY 400 0 None ?b3"
  have "ws_reachable POLICY ?b1" by (rule ws_reachable.step [OF ws_reachable.init ws_step.enter [OF prod.collapse [symmetric]]])
  moreover have "bu_waiting ?b1 > 0" "entry_of 7 ?b1 = None" by code_simp+
  ultimately have 2: "ws_reachable POLICY ?b2"
    by (rule ws_reachable.step [OF _ ws_step.look [OF _ _ prod.collapse [symmetric]]])
  have "entry_of 7 ?b2 = Some (new_activity True)" by code_simp
  then have 3: "ws_reachable POLICY ?b3"
    by (rule ws_reachable.step [OF 2 ws_step.connect]) (simp add: new_activity_def)
  have 4: "ws_reachable POLICY ?b4" by (rule ws_reachable.step [OF 3 ws_step.scan])
  have "list_ex (\<lambda>(k, a, c). ac_closing a) (bu_entries ?b4)" by code_simp
  then obtain k a c where "(k, a, c) \<in> set (bu_entries ?b4)" "ac_closing a" by (auto simp: list_ex_iff)
  with no_busy_connection_closed [OF 4] 4 show ?thesis by blast
qed

text \<open>
  C37: After a scan every idle connection that is still open is within the policy: the relay is not draining,
  it is younger than the lifetime and has been idle for less than the idle limit, no more idle connections
  than allowed remain, and under pressure enough connections are closing to come down to the target.
\<close>

theorem scan_meets_policy:
  assumes "ws_reachable po b" and "(k, a, True) \<in> set (bu_entries (reap po now inc None b))" and "ac_state a = Ws_idle"
  shows "\<not> bu_draining b \<and> now - the (ac_connected_at a) < po_lifetime_seconds po \<and>
    now - the (ac_idle_since a) < po_idle_seconds po \<and>
    length (filter retirable (bu_entries (reap po now inc None b))) \<le> po_idle_limit po \<and>
    (po_pressure_start po \<le> length (bu_entries b) + inc \<longrightarrow>
      length (bu_entries b) + inc \<le> po_pressure_target po + closing_count (bu_entries (reap po now inc None b)))"
proof -
  have d: "distinct (map fst (bu_entries b))" using ws_reachable_ok [OF assms(1)] by (simp add: budget_ok_def)
  from reap_leaves [OF d assms(2,3)] show ?thesis
    unfolding reap_reason_def reap_numbers [OF d] by (auto split: if_splits)
qed

theorem scan_meets_policy_witness:
  "\<exists>b k a. ws_reachable POLICY b \<and> (k, a, True) \<in> set (bu_entries (reap POLICY 100 0 None b)) \<and> ac_state a = Ws_idle \<and>
    100 - the (ac_idle_since a) < 300"
proof -
  let ?b1 = "snd (reserve_enter POLICY 0 new_budget)"
  let ?b2 = "snd (reserve_look POLICY 0 5 7 (new_activity True) ?b1)"
  let ?b3 = "connected POLICY 1 7 ?b2"
  have "ws_reachable POLICY ?b1" by (rule ws_reachable.step [OF ws_reachable.init ws_step.enter [OF prod.collapse [symmetric]]])
  moreover have "bu_waiting ?b1 > 0" "entry_of 7 ?b1 = None" by code_simp+
  ultimately have 2: "ws_reachable POLICY ?b2"
    by (rule ws_reachable.step [OF _ ws_step.look [OF _ _ prod.collapse [symmetric]]])
  have "entry_of 7 ?b2 = Some (new_activity True)" by code_simp
  then have 3: "ws_reachable POLICY ?b3"
    by (rule ws_reachable.step [OF 2 ws_step.connect]) (simp add: new_activity_def)
  have "list_ex (\<lambda>(k, a, c). c \<and> ac_state a = Ws_idle) (bu_entries (reap POLICY 100 0 None ?b3))" by code_simp
  then obtain k a where e: "(k, a, True) \<in> set (bu_entries (reap POLICY 100 0 None ?b3))" "ac_state a = Ws_idle"
    by (auto simp: list_ex_iff)
  from scan_meets_policy [OF 3 e] have "100 - the (ac_idle_since a) < 300" by (simp add: POLICY_def)
  with 3 e show ?thesis by blast
qed

end
