(* ===== verification/Spec2Isabelle.thy ===== *)
theory Spec2Isabelle
  imports Attribution Backlog Budget Cache_Health Charts Control Cycles Evidence History Lineage Lines Notifications Observer Payloads Relay Scope Session Speed Stream Tracking Transport Updates Values Websockets Windows
begin

text \<open>
  Codexon: token accounting, quota calibration and service control.

  \<^bold>\<open>The program.\<close> Codexon reads the session logs that Codex writes, prices the tokens of each
  request, relates the priced requests to the quota percentage that the service reports, and
  shows the result in an overlay. Four groups of parts do this. The \<^emph>\<open>collector\<close> reads the
  logs (\<open>cachemonitor/event_stream.py\<close>, \<open>core.py\<close>, the Rust scan \<open>native/src/index_scan.rs\<close>),
  keeps one state per session and derives prices, cache incidents, slow-response alerts and task
  costs from it. The \<^emph>\<open>quota\<close> modules (\<open>quota_*.py\<close>, \<open>native/src/quota.rs\<close>) store account
  observations, split them into cycles, clip cycles to intervals and attribute local requests to
  them. A local \<^emph>\<open>relay\<close> (\<open>proxy_*.py\<close>, \<open>observer_control.py\<close>) stands between Codex and the
  service; it observes response headers and bodies, hands them to a storage thread and must be
  started, replaced and stopped without losing a request. The \<^emph>\<open>delivery\<close> part passes the
  results to reader processes (\<open>collection_transport.py\<close>, \<open>prepared_changes.py\<close>), and decides
  notifications, errors and shutdown.

  \<^bold>\<open>Conventions.\<close> A class is a record, an exception is \<open>Inl\<close> of an error value, a loop is a
  recursion. Floating point numbers are the rationals they denote, so rounding is not modelled;
  NaN and the infinities are values because the code tests for them. Rust integers are words at
  their width, Python integers are \<open>int\<close>. Files, processes, sockets, SQLite and the clock
  answer through arguments: a list of outcomes, a failure flag, or a function whose documented
  behaviour is a named hypothesis. A step that the code may abandon half way (a failed write, a
  lost process) is a branch of the definition.

  \<^bold>\<open>Shared theories.\<close>
  \<^item> \<open>Pybase\<close>: run-time typed Python values, \<open>error + 'a\<close> with \<open>bindE\<close>, the call row, buckets and
    stable sorting. \<open>Pydict\<close>: dictionaries as the journals update them.
  \<^item> \<open>Bisect\<close>: the two loops of Python's \<open>bisect\<close> module, each shown to return the partition point.
  \<^item> \<open>Json\<close>: \<open>json.dumps\<close> and \<open>json.loads\<close> with UTF-8. The parser takes fuel; \<open>2 * length + 1\<close>
    suffices for every text, and more fuel never changes a result.
  \<^item> \<open>Chunks\<close>: the interface of incremental readers, interpreted on the projection, the line
    readers and the observation readers.

  \<^bold>\<open>Collector.\<close>
  \<^item> \<open>Tokens\<close> (\<open>core.py: usage_values, token_parts, summarize, group_usage\<close>), \<open>Pricing\<close>
    (\<open>pricing.py\<close>): partitions of tokens, prices, sums that do not depend on grouping.
  \<^item> \<open>Session\<close> (\<open>core.py: Session, resolve_context, read_records\<close>), \<open>Headers\<close>: the session state, its
    invariant, and its preservation by every event.
  \<^item> \<open>Cache_Health\<close> (\<open>cache_health.py, cache_misses.py\<close>): the incident tracker and the equality of
    its incremental and its full run. \<open>Speed\<close> (\<open>speed_health.py\<close>): slow-response alerts, with the
    same equality and the evidence an alert rests on.
  \<^item> \<open>Lineage\<close> (\<open>session_costs.py, request_modes.py\<close>): every call counts once in the roll-up of a
    task.
  \<^item> \<open>Projection\<close>, \<open>Lines\<close> (\<open>event_stream.py, index_scan.rs\<close>): the bounded JSON projection does not
    depend on how its input is cut, and the native scan equals the Python reader.

  \<^bold>\<open>Quota.\<close>
  \<^item> \<open>Tracking\<close> (\<open>quota_tracking.py\<close>): reset classification and segments, their invariant.
  \<^item> \<open>Windows\<close>, \<open>Ranges\<close>, \<open>Attribution\<close> (\<open>quota_cycles.py: _clip_quota_interval, continuous
    intervals; quota_exclusions.py; quota_attribution.py; quota.rs\<close>): clipping, exclusion, request
    windows; the native indexes equal the Python loops.
  \<^item> \<open>Cycles\<close> (\<open>quota_cycles.py: split_cycles, partition_coverage, estimate, diagnostics\<close>).
  \<^item> \<open>Scope\<close> (\<open>quota_cycles.py: _quota_scope, _PreparedQuotaStatistics\<close>): the intervals of a period with
    their attribution; the bounded cache and the prepared intervals change no result.
  \<^item> \<open>Values\<close>, \<open>Charts\<close> (\<open>quota_cycles.py: quota_statistics, _quota_value_rows,
    quota_value_history\<close>): the value of the allowance. The statistics account for the whole
    consumption, the chart equals a direct calculation from the intervals and ends at the figures
    of the period.
  \<^item> \<open>History\<close> (\<open>quota_cycles.py: _PackedRows, _PackedHistory\<close>): packed rows read as the list
    they were built from.
  \<^item> \<open>Payloads\<close> (\<open>quota_payloads.py\<close>): observations as a shared template and a delta; decoding
    inverts encoding, a migration batch keeps every payload and the batches end.
  \<^item> \<open>Backlog\<close> (\<open>quota_backlog.py\<close>): the durable queue refines a FIFO under failing transactions.

  \<^bold>\<open>Relay.\<close>
  \<^item> \<open>Stream\<close> (\<open>proxy_observation.py\<close>), \<open>Websockets\<close> (\<open>proxy_websocket.py\<close>), \<open>Evidence\<close>
    (\<open>evidence_writer.py\<close>): what is observed, which connection may be closed, and that every
    observation is stored or counted as a gap.
  \<^item> \<open>Relay\<close> (\<open>proxy_supervisor.py, proxy_drain.py\<close>), \<open>Observer\<close> (\<open>observer_control.py\<close>),
    \<open>Control\<close> (\<open>shutdown_state.py, quota_polling.py, Protection\<close>), \<open>Faults\<close>
    (\<open>connection_recovery.py, app_errors.py\<close>): the life of the relay, the configuration that
    points Codex at it, and the classification of failures.

  \<^bold>\<open>Delivery.\<close>
  \<^item> \<open>Budget\<close> (\<open>prepared_changes.py, prepared_query_owners.py\<close>, pending transports, scope caches):
    byte-budgeted stores. \<open>Updates\<close> (\<open>update_state.py\<close>), \<open>Notifications\<close> (\<open>notifications.py\<close>).
  \<^item> \<open>Transport\<close> (\<open>collection_transport.py\<close>): frames, authentication, retries, the publication
    waiter. Receiving and sending terminate because every step consumes an outcome or a byte.

  \<^bold>\<open>Groups of lemmas.\<close> Each theory has the facts of its operations first, then the invariant with
  its preservation lemmas, and last the section \<^emph>\<open>Claims\<close> with the main properties; other results
  of the same form stand under \<^emph>\<open>Further properties\<close>, and their sample data under \<^emph>\<open>Examples\<close>.

  \<^bold>\<open>Not modelled.\<close> The SQLite stores (\<open>prepared_*.py\<close>, \<open>evidence_store.py\<close>, \<open>QuotaLedger\<close>), whose logic is in
  SQL text; the asyncio relay around the modelled readers (\<open>model_proxy.py, proxy_http.py\<close>); the
  cache of charted periods with its deferred rows; the Qt interface; installers, updaters and the Windows registry; log text scanning, zstd
  decompression, hashes and display strings; developer tools. Rounding of floating point numbers
  is outside the model throughout.
\<close>

end
